(* ===== verification/Furrow_Prelude.thy ===== *)
theory Furrow_Prelude
  imports
    Main
    "HOL-Library.Word"
    "HOL-Library.Char_ord"
    "HOL-Library.List_Lexorder"
    "HOL-Library.Sublist"
begin

text \<open>
  Shared vocabulary of the development: byte strings, fallible results, little-endian
  integers, the saturating integer operations of Rust, separators and slices, and the
  generic list lemmas that the component theories use.

  A Rust \<open>u8\<close> is a \<^typ>\<open>char\<close> (an 8-bit value), so \<open>Vec<u8>\<close>, \<open>&[u8]\<close>
  and \<open>&str\<close> (compared and cut bytewise by this program) are \<^typ>\<open>string\<close>. Their order
  is the lexicographic order of \<^verbatim>\<open>HOL-Library.List_Lexorder\<close>, which is Rust's order on
  byte slices. An \<open>anyhow::Result\<close> is a sum whose left side is the message the source gives.
\<close>

unbundle bit_operations_syntax

named_theorems result_simps \<open>equations that take a fallible computation apart\<close>
named_theorems wire_simps \<open>lengths and prefixes of encoded fields\<close>

section \<open>Byte strings and results\<close>

type_synonym byte = char
type_synonym bytes = string

datatype failure =
    Bail string    \<comment> \<open>an \<open>anyhow\<close> error with its message\<close>
  | OutOfFuel      \<comment> \<open>the bound of a modelled loop was reached; not a behaviour of the source\<close>

type_synonym 'a result = "failure + 'a"

abbreviation ensure :: "bool \<Rightarrow> string \<Rightarrow> 'a result \<Rightarrow> 'a result" where
  "ensure b msg k \<equiv> (if b then k else Inl (Bail msg))"

fun rbind :: "'a result \<Rightarrow> ('a \<Rightarrow> 'b result) \<Rightarrow> 'b result" where
  "rbind (Inl e) f = Inl e"
| "rbind (Inr x) f = f x"

lemma rbind_cong [fundef_cong]:
  assumes "r = r'" and "\<And>x. r' = Inr x \<Longrightarrow> f x = g x"
  shows "rbind r f = rbind r' g"
  using assms by (cases r') auto

lemma rbind_eq_Inr [simp]: "rbind r f = Inr y \<longleftrightarrow> (\<exists>x. r = Inr x \<and> f x = Inr y)"
  by (cases r) auto

lemma Inr_eq_rbind [simp]: "Inr y = rbind r f \<longleftrightarrow> (\<exists>x. r = Inr x \<and> f x = Inr y)"
  by (cases r) auto

lemma rbind_eq_Inl [result_simps]:
  "rbind r f = Inl e \<longleftrightarrow> r = Inl e \<or> (\<exists>x. r = Inr x \<and> f x = Inl e)"
  by (cases r) auto

lemma rbind_assoc: "rbind (rbind r f) g = rbind r (\<lambda>x. rbind (f x) g)"
  by (cases r) auto

lemma rbind_Inr_right [simp]: "rbind r Inr = r"
  by (cases r) auto

definition of_opt :: "string \<Rightarrow> 'a option \<Rightarrow> 'a result" where
  "of_opt msg x = (case x of None \<Rightarrow> Inl (Bail msg) | Some v \<Rightarrow> Inr v)"

lemma of_opt_simps [simp]: "of_opt m None = Inl (Bail m)" "of_opt m (Some v) = Inr v"
  by (simp_all add: of_opt_def)

lemma of_opt_eq_Inr [simp]: "of_opt m x = Inr v \<longleftrightarrow> x = Some v"
  by (simp add: of_opt_def split: option.split)

text \<open>A \<open>for\<close> loop whose body may fail: the state is threaded, the first error ends it.\<close>

fun rfold :: "('s \<Rightarrow> 'a \<Rightarrow> 's result) \<Rightarrow> 's \<Rightarrow> 'a list \<Rightarrow> 's result" where
  "rfold f s [] = Inr s"
| "rfold f s (x # xs) = rbind (f s x) (\<lambda>s'. rfold f s' xs)"

lemma rfold_append: "rfold f s (xs @ ys) = rbind (rfold f s xs) (\<lambda>s'. rfold f s' ys)"
  by (induction xs arbitrary: s) (auto simp: rbind_assoc)

lemma rfold_invariant:
  assumes "rfold f s xs = Inr t" and "I s"
    and "\<And>s x t. x \<in> set xs \<Longrightarrow> I s \<Longrightarrow> f s x = Inr t \<Longrightarrow> I t"
  shows "I t"
  using assms by (induction xs arbitrary: s) auto

lemma rfold_cong [fundef_cong]:
  assumes "s = s'" and "xs = ys" and "\<And>t x. x \<in> set ys \<Longrightarrow> f t x = g t x"
  shows "rfold f s xs = rfold g s' ys"
  unfolding assms(1,2) using assms(3)
proof (induction ys arbitrary: s')
  case (Cons y ys)
  then show ?case by (cases "g s' y") auto
qed simp

lemma list_all2_last: "list_all2 P xs ys \<Longrightarrow> xs \<noteq> [] \<Longrightarrow> ys \<noteq> [] \<and> P (last xs) (last ys)"
  by (induction rule: list_all2_induct) (auto simp: list_all2_Nil)

lemma last_concat: "xss \<noteq> [] \<Longrightarrow> last xss \<noteq> [] \<Longrightarrow> last (concat xss) = last (last xss)"
proof (induction xss)
  case (Cons xs xss)
  show ?case
  proof (cases "xss = []")
    case False
    then have "concat xss \<noteq> []" using Cons.prems last_in_set [of xss] by auto
    with Cons False show ?thesis by simp
  qed simp
qed simp

text \<open>Fuel: a bound above \<open>Suc N\<close> leaves at least \<open>N\<close> after one step.\<close>

lemma fuel_SucD: "Suc N \<le> n \<Longrightarrow> \<exists>m. n = Suc m \<and> N \<le> m"
  by (cases n) auto

section \<open>Rust integers\<close>

text \<open>
  An \<open>i64\<close> that the program subtracts with saturation is an \<^typ>\<open>int\<close> clamped to its
  range; a \<open>u64\<close> counter is a \<^typ>\<open>nat\<close> and its saturating sum is clamped at the maximum.
\<close>

definition i64_min :: int where "i64_min = - (2 ^ 63)"
definition i64_max :: int where "i64_max = 2 ^ 63 - 1"
definition u64_max :: nat where "u64_max = 2 ^ 64 - 1"

definition i64_saturating_sub :: "int \<Rightarrow> int \<Rightarrow> int" where
  "i64_saturating_sub a b = max i64_min (min i64_max (a - b))"

definition i64_saturating_add :: "int \<Rightarrow> int \<Rightarrow> int" where
  "i64_saturating_add a b = max i64_min (min i64_max (a + b))"

definition u64_saturating_add :: "nat \<Rightarrow> nat \<Rightarrow> nat" where
  "u64_saturating_add a b = min u64_max (a + b)"

lemma i64_saturating_sub_le_iff:
  assumes "i64_min \<le> w" and "w < i64_max"
  shows "i64_saturating_sub a b \<le> w \<longleftrightarrow> a - b \<le> w"
  using assms by (auto simp: i64_saturating_sub_def)

lemma i64_saturating_sub_neg_iff: "i64_saturating_sub a b < 0 \<longleftrightarrow> a < b"
  by (auto simp: i64_saturating_sub_def i64_min_def i64_max_def)

section \<open>Little-endian fields\<close>

text \<open>
  \<open>to_le_bytes\<close> of an \<open>n\<close>-byte integer, with the truncation an \<open>as\<close> cast makes
  written out by \<open>char_of\<close>, which reads its argument modulo 256.
\<close>

definition le_bytes :: "nat \<Rightarrow> nat \<Rightarrow> bytes" where
  "le_bytes n x = map (\<lambda>i. char_of (x div 256 ^ i)) [0..<n]"

fun le_val :: "bytes \<Rightarrow> nat" where
  "le_val [] = 0"
| "le_val (b # bs) = of_char b + 256 * le_val bs"

lemma length_le_bytes [simp, wire_simps]: "length (le_bytes n x) = n"
  by (simp add: le_bytes_def)

lemma le_bytes_0 [simp]: "le_bytes 0 x = []"
  by (simp add: le_bytes_def)

lemma le_bytes_Suc: "le_bytes (Suc n) x = char_of x # le_bytes n (x div 256)"
proof -
  have "[0..<Suc n] = 0 # map Suc [0..<n]"
    by (simp add: map_Suc_upt upt_conv_Cons)
  then show ?thesis
    by (simp add: le_bytes_def div_mult2_eq)
qed

lemma le_val_le_bytes_mod: "le_val (le_bytes n x) = x mod 256 ^ n"
proof (induction n arbitrary: x)
  case (Suc n)
  have "le_val (le_bytes (Suc n) x) = x mod 256 + 256 * (x div 256 mod 256 ^ n)"
    by (simp add: le_bytes_Suc Suc)
  also have "\<dots> = x mod 256 ^ Suc n"
    by (simp add: mod_mult2_eq)
  finally show ?case .
qed simp

lemma le_val_le_bytes [simp]: "x < 256 ^ n \<Longrightarrow> le_val (le_bytes n x) = x"
  by (simp add: le_val_le_bytes_mod)

section \<open>Slices and separators\<close>

text \<open>
  \<open>read_exact\<close> on the unread rest of a file: the field and what follows it, or \<^const>\<open>None\<close>
  when fewer bytes are left.
\<close>

definition read_exact :: "nat \<Rightarrow> bytes \<Rightarrow> (bytes \<times> bytes) option" where
  "read_exact n bs = (if n \<le> length bs then Some (take n bs, drop n bs) else None)"

lemma read_exact_append [simp]: "length xs = n \<Longrightarrow> read_exact n (xs @ ys) = Some (xs, ys)"
  by (auto simp: read_exact_def)

lemma read_exact_Some_iff:
  "read_exact n bs = Some (xs, ys) \<longleftrightarrow> bs = xs @ ys \<and> length xs = n"
  by (auto simp: read_exact_def)

lemma read_exact_None_iff: "read_exact n bs = None \<longleftrightarrow> length bs < n"
  by (auto simp: read_exact_def)

text \<open>\<open>slice.split(|b| *b == sep)\<close>: the pieces between separators, empty ones included.\<close>

fun split_on :: "'a \<Rightarrow> 'a list \<Rightarrow> 'a list list" where
  "split_on sep [] = [[]]"
| "split_on sep (x # xs) =
     (if x = sep then [] # split_on sep xs
      else (case split_on sep xs of [] \<Rightarrow> [[x]] | p # ps \<Rightarrow> (x # p) # ps))"

fun join_with :: "'a \<Rightarrow> 'a list list \<Rightarrow> 'a list" where
  "join_with sep [] = []"
| "join_with sep [p] = p"
| "join_with sep (p # q # ps) = p @ sep # join_with sep (q # ps)"

lemma split_on_nonempty [simp]: "split_on sep xs \<noteq> []"
  by (induction xs) (auto split: list.split)

lemma join_with_Cons: "ps \<noteq> [] \<Longrightarrow> join_with sep (p # ps) = p @ sep # join_with sep ps"
  by (cases ps) auto

lemma join_split_on [simp]: "join_with sep (split_on sep xs) = xs"
proof (induction xs)
  case (Cons x xs)
  obtain p ps where ps: "split_on sep xs = p # ps"
    by (cases "split_on sep xs") auto
  with Cons show ?case
    by (cases ps) (auto simp: join_with_Cons)
qed simp

lemma split_on_no_sep: "sep \<notin> set p \<Longrightarrow> split_on sep p = [p]"
  by (induction p) auto

lemma split_on_append_sep:
  "sep \<notin> set p \<Longrightarrow> split_on sep (p @ sep # rest) = p # split_on sep rest"
  by (induction p) auto

lemma split_on_pieces: "p \<in> set (split_on sep xs) \<Longrightarrow> sep \<notin> set p"
proof (induction xs arbitrary: p)
  case (Cons x xs)
  obtain q qs where "split_on sep xs = q # qs"
    by (cases "split_on sep xs") auto
  with Cons show ?case by (auto split: if_splits)
qed simp

lemma split_on_join:
  "ps \<noteq> [] \<Longrightarrow> \<forall>p\<in>set ps. sep \<notin> set p \<Longrightarrow> split_on sep (join_with sep ps) = ps"
proof (induction ps)
  case (Cons p ps)
  then show ?case
    by (cases ps) (simp_all add: split_on_no_sep split_on_append_sep)
qed simp

section \<open>Sorted association lists: Rust's \<open>BTreeMap\<close>\<close>

text \<open>
  A \<open>BTreeMap\<close> is the list of its bindings in strictly increasing key order, which is the
  order in which the source iterates over it.
\<close>

type_synonym ('k, 'v) btree_map = "('k \<times> 'v) list"

fun bt_insert :: "'k::linorder \<Rightarrow> 'v \<Rightarrow> ('k, 'v) btree_map \<Rightarrow> ('k, 'v) btree_map" where
  "bt_insert k v [] = [(k, v)]"
| "bt_insert k v ((k', v') # m) =
     (if k < k' then (k, v) # (k', v') # m
      else if k = k' then (k, v) # m
      else (k', v') # bt_insert k v m)"

abbreviation bt_get :: "('k, 'v) btree_map \<Rightarrow> 'k \<Rightarrow> 'v option" where
  "bt_get \<equiv> map_of"

definition bt_wf :: "('k::linorder, 'v) btree_map \<Rightarrow> bool" where
  "bt_wf m \<longleftrightarrow> sorted_wrt (<) (map fst m)"

lemma bt_wf_Nil [simp]: "bt_wf []"
  by (simp add: bt_wf_def)

lemma bt_wf_Cons [simp]: "bt_wf ((k, v) # m) \<longleftrightarrow> (\<forall>k'\<in>fst ` set m. k < k') \<and> bt_wf m"
  by (auto simp: bt_wf_def)

lemma fst_bt_insert: "fst ` set (bt_insert k v m) = insert k (fst ` set m)"
  by (induction k v m rule: bt_insert.induct) auto

lemma bt_wf_insert [simp, intro]: "bt_wf m \<Longrightarrow> bt_wf (bt_insert k v m)"
  by (induction k v m rule: bt_insert.induct) (auto simp: fst_bt_insert)

lemma bt_get_insert: "bt_get (bt_insert k v m) = (bt_get m)(k \<mapsto> v)"
  by (induction k v m rule: bt_insert.induct) (auto simp: fun_eq_iff)

lemma bt_wf_distinct: "bt_wf m \<Longrightarrow> distinct (map fst m)"
  by (simp add: bt_wf_def strict_sorted_iff)

lemma bt_get_eq_Some: "bt_wf m \<Longrightarrow> bt_get m k = Some v \<longleftrightarrow> (k, v) \<in> set m"
  by (simp add: bt_wf_distinct map_of_eq_Some_iff)

text \<open>A \<open>BTreeSet\<close> is a strictly increasing list.\<close>

abbreviation bs_of :: "'k::linorder list \<Rightarrow> 'k list" where
  "bs_of xs \<equiv> sorted_list_of_set (set xs)"

section \<open>Searching a sorted slice\<close>

text \<open>
  \<open>binary_search_by\<close> on a slice finds an element that the comparator calls equal exactly when
  there is one, as long as the slice is ordered for the comparator; it is modelled by the
  halving loop itself. The comparator answers \<open>Lt\<close> for an element left of the wanted place.
\<close>

datatype ordering = Lt | Eq | Gt

function bsearch :: "('a \<Rightarrow> ordering) \<Rightarrow> 'a list \<Rightarrow> nat \<Rightarrow> nat \<Rightarrow> nat option" where
  "bsearch cmp xs lo hi =
     (if lo < hi then
        let mid = lo + (hi - lo) div 2 in
        (case cmp (xs ! mid) of
           Eq \<Rightarrow> Some mid
         | Lt \<Rightarrow> bsearch cmp xs (mid + 1) hi
         | Gt \<Rightarrow> bsearch cmp xs lo mid)
      else None)"
  by pat_completeness auto
termination
  by (relation "measure (\<lambda>(cmp, xs, lo, hi). hi - lo)") auto

declare bsearch.simps [simp del]

definition binary_search_by :: "('a \<Rightarrow> ordering) \<Rightarrow> 'a list \<Rightarrow> nat option" where
  "binary_search_by cmp xs = bsearch cmp xs 0 (length xs)"

definition ordered_for :: "('a \<Rightarrow> ordering) \<Rightarrow> 'a list \<Rightarrow> bool" where
  "ordered_for cmp xs \<longleftrightarrow>
     (\<forall>i j. i \<le> j \<and> j < length xs \<longrightarrow>
        (cmp (xs ! j) = Lt \<longrightarrow> cmp (xs ! i) = Lt) \<and> (cmp (xs ! i) = Gt \<longrightarrow> cmp (xs ! j) = Gt))"

lemma bsearch_sound:
  "bsearch cmp xs lo hi = Some i \<Longrightarrow> lo \<le> i \<and> i < hi \<and> cmp (xs ! i) = Eq"
proof (induction cmp xs lo hi rule: bsearch.induct)
  case (1 cmp xs lo hi)
  define mid where "mid = lo + (hi - lo) div 2"
  have lt: "lo < hi"
    using "1.prems" by (subst (asm) bsearch.simps) (simp split: if_splits)
  then have mid: "lo \<le> mid" "mid < hi" by (auto simp: mid_def)
  show ?case
  proof (cases "cmp (xs ! mid)")
    case Lt
    then have "bsearch cmp xs (mid + 1) hi = Some i"
      using "1.prems" lt by (simp add: bsearch.simps [of cmp xs lo hi] Let_def mid_def)
    with "1.IH"(1)[OF lt mid_def Lt] mid show ?thesis by simp
  next
    case Eq
    then show ?thesis
      using "1.prems" lt mid by (simp add: bsearch.simps [of cmp xs lo hi] Let_def mid_def)
  next
    case Gt
    then have "bsearch cmp xs lo mid = Some i"
      using "1.prems" lt by (simp add: bsearch.simps [of cmp xs lo hi] Let_def mid_def)
    with "1.IH"(2)[OF lt mid_def Gt] mid show ?thesis by simp
  qed
qed

lemma bsearch_complete:
  assumes "ordered_for cmp xs" and "hi \<le> length xs"
    and "lo \<le> k" "k < hi" "cmp (xs ! k) = Eq"
  shows "\<exists>i. bsearch cmp xs lo hi = Some i"
  using assms
proof (induction cmp xs lo hi rule: bsearch.induct)
  case (1 cmp xs lo hi)
  define mid where "mid = lo + (hi - lo) div 2"
  from "1.prems" have lt: "lo < hi" by simp
  then have mid: "lo \<le> mid" "mid < hi" by (auto simp: mid_def)
  show ?case
  proof (cases "cmp (xs ! mid)")
    case Lt
    have "mid < k"
    proof (rule ccontr)
      assume "\<not> mid < k"
      then have "k \<le> mid" and "mid < length xs" using mid "1.prems"(2) by simp_all
      then have "cmp (xs ! k) = Lt"
        using Lt "1.prems"(1) unfolding ordered_for_def by blast
      with "1.prems"(5) show False by simp
    qed
    with "1.IH"(1)[OF lt mid_def Lt "1.prems"(1,2)] "1.prems"(4,5) Lt lt show ?thesis
      by (simp add: bsearch.simps [of cmp xs lo hi] Let_def mid_def)
  next
    case Eq
    then show ?thesis using lt by (simp add: bsearch.simps [of cmp xs lo hi] Let_def mid_def)
  next
    case Gt
    have "k < mid"
    proof (rule ccontr)
      assume "\<not> k < mid"
      then have "mid \<le> k" by simp
      moreover have "k < length xs" using "1.prems"(2,4) by simp
      ultimately have "cmp (xs ! k) = Gt"
        using Gt "1.prems"(1) unfolding ordered_for_def by blast
      with "1.prems"(5) show False by simp
    qed
    moreover have "mid \<le> length xs" using mid "1.prems"(2) by simp
    ultimately show ?thesis
      using "1.IH"(2)[OF lt mid_def Gt "1.prems"(1)] "1.prems"(3,5) Gt lt
      by (simp add: bsearch.simps [of cmp xs lo hi] Let_def mid_def)
  qed
qed

lemma binary_search_by_None_iff:
  assumes "ordered_for cmp xs"
  shows "binary_search_by cmp xs = None \<longleftrightarrow> (\<forall>x\<in>set xs. cmp x \<noteq> Eq)"
proof
  assume none: "binary_search_by cmp xs = None"
  show "\<forall>x\<in>set xs. cmp x \<noteq> Eq"
  proof
    fix x assume "x \<in> set xs"
    then obtain k where "k < length xs" "x = xs ! k" by (auto simp: in_set_conv_nth)
    with none bsearch_complete [OF assms, of "length xs" 0 k] show "cmp x \<noteq> Eq"
      by (auto simp: binary_search_by_def)
  qed
next
  assume "\<forall>x\<in>set xs. cmp x \<noteq> Eq"
  then show "binary_search_by cmp xs = None"
    using bsearch_sound [of cmp xs 0 "length xs"]
    by (cases "binary_search_by cmp xs") (auto simp: binary_search_by_def)
qed

lemma binary_search_by_SomeD:
  "binary_search_by cmp xs = Some i \<Longrightarrow> i < length xs \<and> cmp (xs ! i) = Eq"
  using bsearch_sound [of cmp xs 0 "length xs" i] by (simp add: binary_search_by_def)

end
