(* ===== verification/Content_Class.thy ===== *)
theory Content_Class
  imports Furrow_Prelude
begin

text \<open>
  \<^verbatim>\<open>furrow-core/src/content_class.rs\<close>: the retention class of a captured path. The class of
  an entry decides how long its bytes survive (theory \<^verbatim>\<open>Collector\<close>), so the lemmas here fix
  which rule wins where several match and that the class masks are separate bits.
\<close>

section \<open>Classes and their mask bits\<close>

datatype content_class =
    Source | VcsMeta | ConfigSecret | Dependency | BuildOutput | Database | Lockfile | Scratch

definition all_classes :: "content_class list" where
  "all_classes =
     [Source, VcsMeta, ConfigSecret, Dependency, BuildOutput, Database, Lockfile, Scratch]"

fun class_discriminant :: "content_class \<Rightarrow> nat" where
  "class_discriminant Source = 0"
| "class_discriminant VcsMeta = 1"
| "class_discriminant ConfigSecret = 2"
| "class_discriminant Dependency = 3"
| "class_discriminant BuildOutput = 4"
| "class_discriminant Database = 5"
| "class_discriminant Lockfile = 6"
| "class_discriminant Scratch = 7"

type_synonym mask = "16 word"

definition class_bit :: "content_class \<Rightarrow> mask" where
  "class_bit c = push_bit (class_discriminant c) 1"

fun class_as_str :: "content_class \<Rightarrow> string" where
  "class_as_str Source = ''source''"
| "class_as_str VcsMeta = ''vcs-meta''"
| "class_as_str ConfigSecret = ''config-secret''"
| "class_as_str Dependency = ''dependency''"
| "class_as_str BuildOutput = ''build-output''"
| "class_as_str Database = ''database''"
| "class_as_str Lockfile = ''lockfile''"
| "class_as_str Scratch = ''scratch''"

section \<open>Classification\<close>

definition has_component :: "bytes list \<Rightarrow> bytes list \<Rightarrow> bool" where
  "has_component components candidates \<longleftrightarrow>
     list_ex (\<lambda>component. component \<in> set candidates) components"

definition has_component_suffix :: "bytes list \<Rightarrow> bytes \<Rightarrow> bool" where
  "has_component_suffix components sfx \<longleftrightarrow> list_ex (\<lambda>component. suffix sfx component) components"

definition has_suffix :: "bytes \<Rightarrow> bytes list \<Rightarrow> bool" where
  "has_suffix name candidates \<longleftrightarrow> list_ex (\<lambda>sfx. suffix sfx name) candidates"

definition is_secret :: "bytes list \<Rightarrow> bytes \<Rightarrow> bool" where
  "is_secret components name \<longleftrightarrow>
     has_component components [''.ssh'', ''.gnupg'']
     \<or> name = ''.env''
     \<or> prefix ''.env.'' name
     \<or> name \<in> set [''id_rsa'', ''id_ed25519'', ''id_ecdsa'']
     \<or> has_suffix name [''.pem'', ''.key'', ''.p12'', ''.pfx'']"

definition is_lockfile :: "bytes \<Rightarrow> bool" where
  "is_lockfile name \<longleftrightarrow>
     name \<in> set [''Cargo.lock'', ''package-lock.json'', ''pnpm-lock.yaml'', ''yarn.lock'',
       ''bun.lock'', ''bun.lockb'', ''poetry.lock'', ''Pipfile.lock'', ''go.sum'',
       ''composer.lock'', ''Gemfile.lock'']"

definition is_database :: "bytes \<Rightarrow> bool" where
  "is_database name \<longleftrightarrow>
     has_suffix name [''.sqlite'', ''.sqlite3'', ''.db'']
     \<or> has_suffix name [''.sqlite-wal'', ''.sqlite-shm'', ''.sqlite3-wal'', ''.sqlite3-shm'',
          ''.db-wal'', ''.db-shm'']"

definition path_components :: "bytes \<Rightarrow> bytes list" where
  "path_components relative = filter (\<lambda>c. c \<noteq> []) (split_on (CHR ''/'') relative)"

definition classify :: "bytes \<Rightarrow> content_class" where
  "classify relative =
     (let components = path_components relative in
      if components = [] then Source
      else let name = last components in
      if has_component components [''.git'', ''.jj''] then VcsMeta
      else if is_secret components name then ConfigSecret
      else if is_lockfile name then Lockfile
      else if is_database name then Database
      else if has_component components
                [''node_modules'', ''.venv'', ''venv'', ''vendor'', ''.pnpm'']
              \<or> has_component_suffix components ''site-packages'' then Dependency
      else if has_component components
                [''target'', ''dist'', ''build'', ''.next'', ''.nuxt'', ''.turbo'',
                 ''.parcel-cache'', ''coverage'', ''out'']
              \<or> has_suffix name [''.o'', ''.obj'', ''.class'', ''.pyc''] then BuildOutput
      else if has_component components
                [''tmp'', ''temp'', ''logs'', ''log'', ''.cache'', ''__pycache__'']
              \<or> prefix ''.#'' name
              \<or> suffix ''~'' name
              \<or> has_suffix name [''.log'', ''.tmp'', ''.swp'', ''.swo''] then Scratch
      else Source)"

section \<open>Lemmas\<close>

lemma class_discriminant_inj: "class_discriminant c = class_discriminant d \<Longrightarrow> c = d"
  by (cases c; cases d) simp_all

lemma class_discriminant_lt: "class_discriminant c < 8"
  by (cases c) simp_all

lemma bit_class_bit: "bit (class_bit c) n \<longleftrightarrow> n = class_discriminant c"
  using class_discriminant_lt [of c]
  by (auto simp: class_bit_def bit_exp_iff simp flip: push_bit_eq_mult)

lemma mask_and_class_bit: "m AND class_bit c = 0 \<longleftrightarrow> \<not> bit m (class_discriminant c)"
proof
  assume "m AND class_bit c = 0"
  then have "\<not> bit (m AND class_bit c) (class_discriminant c)" by simp
  then show "\<not> bit m (class_discriminant c)" by (simp add: bit_and_iff bit_class_bit)
next
  assume "\<not> bit m (class_discriminant c)"
  then show "m AND class_bit c = 0"
    by (intro bit_eqI) (auto simp: bit_and_iff bit_class_bit)
qed

lemma all_classes_complete: "c \<in> set all_classes"
  by (cases c) (simp_all add: all_classes_def)

lemma class_bits_disjoint: "c \<noteq> d \<Longrightarrow> class_bit c AND class_bit d = 0"
  by (auto simp: mask_and_class_bit bit_class_bit dest: class_discriminant_inj)

lemma path_components_append:
  "path_components (a @ CHR ''/'' # b) = path_components a @ path_components b"
proof -
  have "split_on (CHR ''/'') (a @ CHR ''/'' # b)
      = split_on (CHR ''/'') a @ split_on (CHR ''/'') b"
  proof (induction a)
    case (Cons x a)
    obtain p ps where "split_on (CHR ''/'') a = p # ps"
      by (cases "split_on (CHR ''/'') a") auto
    with Cons show ?case by auto
  qed simp
  then show ?thesis by (simp add: path_components_def)
qed

lemma has_component_append:
  "has_component (xs @ ys) cs \<longleftrightarrow> has_component xs cs \<or> has_component ys cs"
  by (simp add: has_component_def)

text \<open>Everything below a control directory of Git or Jujutsu is version-control metadata.\<close>

lemma classify_below_vcs:
  assumes "path_components b \<noteq> []"
  shows "classify (a @ ''/.git/'' @ b) = VcsMeta"
proof -
  have "path_components (a @ CHR ''/'' # ''.git'' @ CHR ''/'' # b)
      = path_components a @ [''.git''] @ path_components b"
    by (simp only: path_components_append) (simp add: path_components_def)
  then have eq: "path_components (a @ ''/.git/'' @ b)
      = path_components a @ [''.git''] @ path_components b" by simp
  have "has_component (path_components (a @ ''/.git/'' @ b)) [''.git'', ''.jj'']"
    unfolding eq has_component_append by (simp add: has_component_def)
  moreover have "path_components (a @ ''/.git/'' @ b) \<noteq> []"
    unfolding eq by simp
  ultimately show ?thesis
    by (simp add: classify_def Let_def del: append_Cons append_Nil append.simps)
qed

end
