(* ===== verification/Object_Model.thy ===== *)
theory Object_Model
  imports Content_Class
begin

text \<open>
  \<^verbatim>\<open>furrow-core/src/model.rs\<close>: the object kinds, the structures that objects encode, and the
  textual object ids. What the program takes from third-party crates (the BLAKE3 hash and the
  JSON encodings of \<open>serde_json\<close>) is one record of parameters, \<open>lib\<close>, an argument of every
  definition that uses it.
\<close>

section \<open>Kinds\<close>

type_synonym object_id = bytes

datatype object_kind = Chunk | Blob | Tree | Snapshot | Xattrs

fun kind_u8 :: "object_kind \<Rightarrow> nat" where
  "kind_u8 Chunk = 1"
| "kind_u8 Blob = 2"
| "kind_u8 Tree = 3"
| "kind_u8 Snapshot = 4"
| "kind_u8 Xattrs = 5"

definition kind_from_u8 :: "nat \<Rightarrow> object_kind option" where
  "kind_from_u8 v =
     (if v = 1 then Some Chunk
      else if v = 2 then Some Blob
      else if v = 3 then Some Tree
      else if v = 4 then Some Snapshot
      else if v = 5 then Some Xattrs
      else None)"

fun kind_domain :: "object_kind \<Rightarrow> bytes" where
  "kind_domain Chunk = ''furrow:chunk:v1'' @ [CHR 0x00]"
| "kind_domain Blob = ''furrow:blob:v1'' @ [CHR 0x00]"
| "kind_domain Tree = ''furrow:tree:v1'' @ [CHR 0x00]"
| "kind_domain Snapshot = ''furrow:snapshot:v1'' @ [CHR 0x00]"
| "kind_domain Xattrs = ''furrow:xattrs:v1'' @ [CHR 0x00]"

section \<open>Structures\<close>

record chunk_ref =
  cr_id :: object_id
  cr_len :: "32 word"

record blob =
  bl_chunks :: "chunk_ref list"
  bl_total_len :: "64 word"

datatype entry_kind = File | Directory | Symlink | Fifo | SocketMarker

record tree_entry =
  te_name :: bytes
  te_kind :: entry_kind
  te_target :: "object_id option"
  te_link_target :: bytes
  te_mode :: "32 word"
  te_size :: "64 word"
  te_mtime_secs :: int
  te_mtime_nanos :: "32 word"
  te_xattrs :: "object_id option"
  te_class :: content_class

record tree_page =
  tp_first_name :: bytes
  tp_last_name :: bytes
  tp_entry_count :: nat
  tp_target :: object_id

record tree =
  tr_entries :: "tree_entry list"
  tr_pages :: "tree_page list"

datatype seal_quality = Quiescent | Turbulent

datatype snapshot_trigger =
    Initial | Manual | Watcher | PreRewind | ForkBase | AgentRun | MergeSource | PreMerge
  | Merge | SyncLocal | SyncPush | SyncPull | Inspection | Claim | Release | Coord

record claim_record =
  cl_id :: string
  cl_pattern :: string
  cl_owner :: string
  cl_workspace_id :: string
  cl_created_at :: int
  cl_expires_at :: int

record sqlite_backup =
  sb_path :: bytes
  sb_blob :: object_id
  sb_integrity_ok :: bool

record link_group =
  lg_paths :: "bytes list"

record ignored_summary =
  ig_paths :: "string list"
  ig_more :: nat

record snapshot =
  sn_root_tree :: object_id
  sn_parent :: "object_id option"
  sn_merge_parents :: "object_id list"
  sn_sealed_at_secs :: int
  sn_sealed_at_nanos :: "32 word"
  sn_quality :: seal_quality
  sn_trigger :: snapshot_trigger
  sn_label :: "string option"
  sn_sqlite_backups :: "sqlite_backup list"
  sn_claims :: "claim_record list"
  sn_excluded_paths :: "string list"
  sn_hardlinks :: "link_group list"
  sn_ignored :: "ignored_summary option"

record xattr_entry =
  xa_name :: bytes
  xa_value :: bytes

record xattrs =
  xs_entries :: "xattr_entry list"

section \<open>Third-party operations\<close>

text \<open>
  \<open>blake3\<close> is \<open>blake3::hash\<close> (and its incremental form over the concatenated updates);
  \<open>json_x\<close> is \<open>serde_json::to_vec\<close> and \<open>parse_x\<close> is \<open>serde_json::from_slice\<close> at type \<open>x\<close>.
\<close>

record lib =
  blake3 :: "bytes \<Rightarrow> bytes"
  json_entry :: "tree_entry \<Rightarrow> bytes"
  json_page :: "tree_page \<Rightarrow> bytes"
  json_tree :: "tree \<Rightarrow> bytes"
  parse_tree :: "bytes \<Rightarrow> tree option"
  json_blob :: "blob \<Rightarrow> bytes"
  parse_blob :: "bytes \<Rightarrow> blob option"
  json_snapshot :: "snapshot \<Rightarrow> bytes"
  parse_snapshot :: "bytes \<Rightarrow> snapshot option"

definition object_id :: "lib \<Rightarrow> object_kind \<Rightarrow> bytes \<Rightarrow> object_id" where
  "object_id L kind bs = blake3 L (kind_domain kind @ bs)"

text \<open>Documented behaviour the proofs name where they need it: digests have 32 bytes.\<close>

definition digest_length :: "lib \<Rightarrow> bool" where
  "digest_length L \<longleftrightarrow> (\<forall>b. length (blake3 L b) = 32)"

section \<open>Textual ids: the \<open>hex\<close> crate's two functions\<close>

definition hex_digit :: "nat \<Rightarrow> byte" where
  "hex_digit n = (if n < 10 then char_of (48 + n) else char_of (87 + n))"

definition hex_value :: "byte \<Rightarrow> nat option" where
  "hex_value c =
     (let n = of_char c :: nat in
      if 48 \<le> n \<and> n \<le> 57 then Some (n - 48)
      else if 97 \<le> n \<and> n \<le> 102 then Some (n - 87)
      else if 65 \<le> n \<and> n \<le> 70 then Some (n - 55)
      else None)"

fun hex_encode :: "bytes \<Rightarrow> string" where
  "hex_encode [] = []"
| "hex_encode (b # bs) =
     hex_digit (of_char b div 16) # hex_digit (of_char b mod 16) # hex_encode bs"

fun hex_decode :: "string \<Rightarrow> bytes option" where
  "hex_decode [] = Some []"
| "hex_decode [c] = None"
| "hex_decode (c # d # rest) =
     (case (hex_value c, hex_value d, hex_decode rest) of
        (Some hi, Some lo, Some bs) \<Rightarrow> Some (char_of (hi * 16 + lo) # bs)
      | _ \<Rightarrow> None)"

definition id_hex :: "object_id \<Rightarrow> string" where
  "id_hex i = hex_encode i"

definition parse_id :: "string \<Rightarrow> object_id result" where
  "parse_id value =
     rbind (of_opt ''invalid hexadecimal'' (hex_decode value)) (\<lambda>bs.
     ensure (length bs = 32) ''snapshot ID must contain 64 hexadecimal characters'' (Inr bs))"

section \<open>Lemmas\<close>

lemma kind_u8_lt [simp]: "kind_u8 k < 256"
  by (cases k) simp_all

lemma kind_from_u8_kind_u8 [simp]: "kind_from_u8 (kind_u8 k) = Some k"
  by (cases k) (simp_all add: kind_from_u8_def)

lemma kind_from_u8_SomeD: "kind_from_u8 v = Some k \<Longrightarrow> v = kind_u8 k"
  by (auto simp: kind_from_u8_def split: if_splits)

text \<open>
  The domain strings end in a zero byte that occurs nowhere else in them, so no domain is a
  prefix of another and a kind can be read back from a domain-prefixed string.
\<close>

lemma kind_domain_prefix_free:
  assumes "kind_domain k @ a = kind_domain k' @ b"
  shows "k = k' \<and> a = b"
  using assms by (cases k; cases k') auto

lemma hex_value_digit [simp]: "n < 16 \<Longrightarrow> hex_value (hex_digit n) = Some n"
  by (auto simp: hex_digit_def hex_value_def Let_def)

lemma length_hex_encode [simp]: "length (hex_encode bs) = 2 * length bs"
  by (induction bs) auto

lemma hex_decode_encode [simp]: "hex_decode (hex_encode bs) = Some bs"
proof (induction bs)
  case (Cons b bs)
  have "of_char b < (256::nat)" by simp
  then have "hex_value (hex_digit (of_char b div 16)) = Some (of_char b div 16)"
    by (intro hex_value_digit) linarith
  with Cons show ?case by simp
qed simp

lemma hex_decode_length: "hex_decode s = Some bs \<Longrightarrow> length s = 2 * length bs"
  by (induction s arbitrary: bs rule: hex_decode.induct) (auto split: option.splits)

lemma id_hex_inj: "id_hex a = id_hex b \<Longrightarrow> a = b"
  by (metis hex_decode_encode id_hex_def option.inject)

text \<open>
  Printing an id and reading it back is the identity on 32-byte ids, and \<open>parse_id\<close> accepts
  nothing but 64 hexadecimal characters.
\<close>

lemma parse_id_id_hex: "parse_id (id_hex i) = (if length i = 32 then Inr i
    else Inl (Bail ''snapshot ID must contain 64 hexadecimal characters''))"
  by (simp add: parse_id_def id_hex_def)

lemma parse_id_length: "parse_id s = Inr i \<Longrightarrow> length s = 64 \<and> length i = 32"
  by (auto simp: parse_id_def split: if_splits dest: hex_decode_length)

end
