(* ===== verification/Tree_Pages.thy ===== *)
theory Tree_Pages
  imports Object_Model
begin

text \<open>
  \<^verbatim>\<open>furrow-core/src/tree.rs\<close>: a directory as bounded Merkle pages. The functions take the two
  store operations they call (\<open>put\<close> for \<open>store.put_struct\<close>, \<open>read\<close> for \<open>store.read_struct\<close> at
  kind Tree) as arguments; the locale \<open>tree_store\<close> states the laws they rely on, and
  theory \<^verbatim>\<open>Object_Map\<close> interprets it on the model's store. Loops whose end depends on the
  stored graph take fuel; the lemmas say how much is enough.
\<close>

type_synonym 's put_tree = "'s \<Rightarrow> tree \<Rightarrow> (object_id \<times> 's) result"
type_synonym 's read_tree = "'s \<Rightarrow> object_id \<Rightarrow> tree result"

section \<open>Writing\<close>

definition MAX_TREE_PAGE_BYTES :: nat where "MAX_TREE_PAGE_BYTES = 64 * 1024"
definition TARGET_TREE_PAGE_BYTES :: nat where "TARGET_TREE_PAGE_BYTES = 4 * 1024"
definition LEAF_OVERHEAD :: nat where "LEAF_OVERHEAD = 14"
definition BRANCH_OVERHEAD :: nat where "BRANCH_OVERHEAD = 12"

lemmas page_constants =
  MAX_TREE_PAGE_BYTES_def TARGET_TREE_PAGE_BYTES_def LEAF_OVERHEAD_def BRANCH_OVERHEAD_def

definition store_leaf ::
  "lib \<Rightarrow> 's put_tree \<Rightarrow> 's \<Rightarrow> tree_entry list \<Rightarrow> (tree_page \<times> 's) result" where
  "store_leaf L put s entries =
     ensure (entries \<noteq> []) ''empty tree leaf''
     (let first_name = te_name (hd entries);
          last_name = te_name (last entries);
          entry_count = length entries;
          tree = \<lparr>tr_entries = entries, tr_pages = []\<rparr> in
      ensure (length (json_tree L tree) \<le> MAX_TREE_PAGE_BYTES) ''tree leaf exceeded page limit''
      (rbind (put s tree) (\<lambda>(target, s').
       Inr (\<lparr>tp_first_name = first_name, tp_last_name = last_name,
             tp_entry_count = entry_count, tp_target = target\<rparr>, s'))))"

definition store_branch ::
  "lib \<Rightarrow> 's put_tree \<Rightarrow> 's \<Rightarrow> tree_page list \<Rightarrow> (tree_page \<times> 's) result" where
  "store_branch L put s pages =
     ensure (pages \<noteq> []) ''empty tree branch''
     (let first_name = tp_first_name (hd pages);
          last_name = tp_last_name (last pages);
          entry_count = sum_list (map tp_entry_count pages);
          tree = \<lparr>tr_entries = [], tr_pages = pages\<rparr> in
      ensure (length (json_tree L tree) \<le> MAX_TREE_PAGE_BYTES) ''tree branch exceeded page limit''
      (rbind (put s tree) (\<lambda>(target, s').
       Inr (\<lparr>tp_first_name = first_name, tp_last_name = last_name,
             tp_entry_count = entry_count, tp_target = target\<rparr>, s'))))"

record builder =
  b_page :: "tree_entry list"
  b_page_bytes :: nat
  b_leaves :: "tree_page list"

definition builder_new :: builder where
  "builder_new = \<lparr>b_page = [], b_page_bytes = LEAF_OVERHEAD, b_leaves = []\<rparr>"

definition flush_leaf :: "lib \<Rightarrow> 's put_tree \<Rightarrow> 's \<Rightarrow> builder \<Rightarrow> (builder \<times> 's) result" where
  "flush_leaf L put s b =
     rbind (store_leaf L put s (b_page b)) (\<lambda>(page, s').
     Inr (\<lparr>b_page = [], b_page_bytes = LEAF_OVERHEAD, b_leaves = b_leaves b @ [page]\<rparr>, s'))"

definition push_ordered :: "builder \<Rightarrow> tree_entry \<Rightarrow> bool" where
  "push_ordered b entry \<longleftrightarrow>
     (if b_page b \<noteq> [] then te_name (last (b_page b)) < te_name entry
      else if b_leaves b \<noteq> [] then tp_last_name (last (b_leaves b)) < te_name entry
      else True)"

text \<open>A full page is flushed before the entry is placed (the first \<open>if\<close> of \<open>push\<close>).\<close>

definition separator :: "'a list \<Rightarrow> nat" where
  "separator items = (if items \<noteq> [] then 1 else 0)"

definition page_room :: "lib \<Rightarrow> 's put_tree \<Rightarrow> 's \<Rightarrow> builder \<Rightarrow> nat \<Rightarrow> (builder \<times> 's) result" where
  "page_room L put s b item_bytes =
     (if b_page_bytes b + separator (b_page b) + item_bytes > TARGET_TREE_PAGE_BYTES \<and> b_page b \<noteq> []
      then flush_leaf L put s b else Inr (b, s))"

definition builder_push ::
  "lib \<Rightarrow> 's put_tree \<Rightarrow> 's \<Rightarrow> builder \<Rightarrow> tree_entry \<Rightarrow> (builder \<times> 's) result" where
  "builder_push L put s b entry =
     ensure (push_ordered b entry) ''directory entries must be strictly sorted and unique''
     (rbind (page_room L put s b (length (json_entry L entry))) (\<lambda>(b', s').
      ensure (b_page_bytes b' + separator (b_page b') + length (json_entry L entry)
                \<le> MAX_TREE_PAGE_BYTES)
        ''single directory entry exceeds 64 KiB''
      (Inr (\<lparr>b_page = b_page b' @ [entry],
             b_page_bytes = b_page_bytes b' + (separator (b_page b') + length (json_entry L entry)),
             b_leaves = b_leaves b'\<rparr>, s'))))"

record branch_state =
  bs_output :: "tree_page list"
  bs_branch :: "tree_page list"
  bs_encoded :: nat

definition branch_room ::
  "lib \<Rightarrow> 's put_tree \<Rightarrow> 's \<Rightarrow> branch_state \<Rightarrow> nat \<Rightarrow> (branch_state \<times> 's) result" where
  "branch_room L put s st item_bytes =
     (if bs_encoded st + separator (bs_branch st) + item_bytes > TARGET_TREE_PAGE_BYTES
         \<and> bs_branch st \<noteq> []
      then rbind (store_branch L put s (bs_branch st)) (\<lambda>(p, s').
           Inr (\<lparr>bs_output = bs_output st @ [p], bs_branch = [], bs_encoded = BRANCH_OVERHEAD\<rparr>, s'))
      else Inr (st, s))"

definition branch_push ::
  "lib \<Rightarrow> 's put_tree \<Rightarrow> branch_state \<times> 's \<Rightarrow> tree_page \<Rightarrow> (branch_state \<times> 's) result" where
  "branch_push L put = (\<lambda>(st, s) page.
     rbind (branch_room L put s st (length (json_page L page))) (\<lambda>(st', s').
     ensure (bs_encoded st' + separator (bs_branch st') + length (json_page L page)
               \<le> MAX_TREE_PAGE_BYTES)
       ''single tree page reference exceeds 64 KiB''
     (Inr (\<lparr>bs_output = bs_output st', bs_branch = bs_branch st' @ [page],
            bs_encoded = bs_encoded st' + (separator (bs_branch st') + length (json_page L page))\<rparr>, s'))))"

definition write_branch_level ::
  "lib \<Rightarrow> 's put_tree \<Rightarrow> 's \<Rightarrow> tree_page list \<Rightarrow> (tree_page list \<times> 's) result" where
  "write_branch_level L put s pages =
     rbind (rfold (branch_push L put)
              (\<lparr>bs_output = [], bs_branch = [], bs_encoded = BRANCH_OVERHEAD\<rparr>, s) pages)
       (\<lambda>(st, s').
     if bs_branch st \<noteq> []
     then rbind (store_branch L put s' (bs_branch st)) (\<lambda>(p, s'').
          Inr (bs_output st @ [p], s''))
     else Inr (bs_output st, s'))"

fun finish_levels ::
  "lib \<Rightarrow> 's put_tree \<Rightarrow> nat \<Rightarrow> 's \<Rightarrow> tree_page list \<Rightarrow> (object_id \<times> 's) result" where
  "finish_levels L put n s level =
     (if length level > 1
      then (case n of
              0 \<Rightarrow> Inl OutOfFuel
            | Suc m \<Rightarrow> rbind (write_branch_level L put s level) (\<lambda>(level', s').
                       finish_levels L put m s' level'))
      else (case level of [] \<Rightarrow> Inl (Bail ''index out of bounds'') | p # _ \<Rightarrow> Inr (tp_target p, s)))"

declare finish_levels.simps [simp del]

definition builder_finish ::
  "lib \<Rightarrow> 's put_tree \<Rightarrow> nat \<Rightarrow> 's \<Rightarrow> builder \<Rightarrow> (object_id \<times> 's) result" where
  "builder_finish L put n s b =
     rbind (if b_page b \<noteq> [] then flush_leaf L put s b else Inr (b, s)) (\<lambda>(b', s').
     if b_leaves b' = [] then put s' \<lparr>tr_entries = [], tr_pages = []\<rparr>
     else if length (b_leaves b') = 1 then Inr (tp_target (hd (b_leaves b')), s')
     else finish_levels L put n s' (b_leaves b'))"

definition write_tree ::
  "lib \<Rightarrow> 's put_tree \<Rightarrow> nat \<Rightarrow> 's \<Rightarrow> tree_entry list \<Rightarrow> (object_id \<times> 's) result" where
  "write_tree L put n s entries =
     rbind (rfold (\<lambda>(b, s) entry. builder_push L put s b entry) (builder_new, s) entries)
       (\<lambda>(b, s'). builder_finish L put n s' b)"

section \<open>Reading\<close>

definition read_node :: "'s read_tree \<Rightarrow> 's read_tree" where
  "read_node read s i =
     rbind (read s i) (\<lambda>tree.
     ensure (tr_entries tree = [] \<or> tr_pages tree = [])
       ''tree node mixes leaf entries and branch pages'' (Inr tree))"

definition cmp_bytes :: "bytes \<Rightarrow> bytes \<Rightarrow> ordering" where
  "cmp_bytes a b = (if a < b then Lt else if a = b then Eq else Gt)"

fun find_entry :: "'s read_tree \<Rightarrow> nat \<Rightarrow> 's \<Rightarrow> object_id \<Rightarrow> bytes \<Rightarrow> tree_entry option result" where
  "find_entry read 0 s root name = Inl OutOfFuel"
| "find_entry read (Suc n) s root name =
     rbind (read_node read s root) (\<lambda>tree.
     if tr_pages tree = []
     then Inr (map_option (\<lambda>index. tr_entries tree ! index)
            (binary_search_by (\<lambda>entry. cmp_bytes (te_name entry) name) (tr_entries tree)))
     else (case find (\<lambda>page. tp_first_name page \<le> name \<and> name \<le> tp_last_name page)
                  (tr_pages tree) of
             None \<Rightarrow> Inr None
           | Some page \<Rightarrow> find_entry read n s (tp_target page) name))"

fun find_components ::
  "'s read_tree \<Rightarrow> nat \<Rightarrow> 's \<Rightarrow> object_id \<Rightarrow> bytes list \<Rightarrow> tree_entry option result" where
  "find_components read n s tree [] = Inr None"
| "find_components read n s tree (component # components) =
     ensure (component \<noteq> []) ''tree path contains an empty component''
     (rbind (find_entry read n s tree component) (\<lambda>found.
      case found of
        None \<Rightarrow> Inr None
      | Some entry \<Rightarrow>
          if components = [] then Inr (Some entry)
          else if te_kind entry \<noteq> Directory then Inr None
          else (case te_target entry of
                  None \<Rightarrow> Inl (Bail ''directory entry has no tree target'')
                | Some t \<Rightarrow> find_components read n s t components)))"

definition find_path ::
  "'s read_tree \<Rightarrow> nat \<Rightarrow> 's \<Rightarrow> object_id \<Rightarrow> bytes \<Rightarrow> tree_entry option result" where
  "find_path read n s root path =
     (if path = [] then Inr None
      else find_components read n s root (split_on (CHR ''/'') path))"

datatype entry_frame = NodeFrame object_id | LeafFrame "tree_entry list"

text \<open>The stack of \<open>Entries\<close>, its top first.\<close>

fun next_entry ::
  "'s read_tree \<Rightarrow> 's \<Rightarrow> nat \<Rightarrow> entry_frame list \<Rightarrow> (tree_entry option \<times> entry_frame list) result"
where
  "next_entry read s 0 stack = Inl OutOfFuel"
| "next_entry read s (Suc n) [] = Inr (None, [])"
| "next_entry read s (Suc n) (NodeFrame i # stack) =
     rbind (read_node read s i) (\<lambda>tree.
     if tr_pages tree = [] then next_entry read s n (LeafFrame (tr_entries tree) # stack)
     else next_entry read s n (map (\<lambda>page. NodeFrame (tp_target page)) (tr_pages tree) @ stack))"
| "next_entry read s (Suc n) (LeafFrame [] # stack) = next_entry read s n stack"
| "next_entry read s (Suc n) (LeafFrame (e # es) # stack) = Inr (Some e, LeafFrame es # stack)"

fun entries_loop ::
  "'s read_tree \<Rightarrow> 's \<Rightarrow> nat \<Rightarrow> ('v \<Rightarrow> tree_entry \<Rightarrow> 'v result) \<Rightarrow> entry_frame list \<Rightarrow> 'v \<Rightarrow> 'v result"
where
  "entries_loop read s 0 visitor stack v = Inl OutOfFuel"
| "entries_loop read s (Suc n) visitor stack v =
     rbind (next_entry read s n stack) (\<lambda>(entry, stack').
     case entry of
       None \<Rightarrow> Inr v
     | Some e \<Rightarrow> rbind (visitor v e) (\<lambda>v'. entries_loop read s n visitor stack' v'))"

definition for_each_entry ::
  "'s read_tree \<Rightarrow> nat \<Rightarrow> 's \<Rightarrow> object_id \<Rightarrow> ('v \<Rightarrow> tree_entry \<Rightarrow> 'v result) \<Rightarrow> 'v \<Rightarrow> 'v result" where
  "for_each_entry read n s root visitor v = entries_loop read s n visitor [NodeFrame root] v"

type_synonym 'v diff_visitor = "'v \<Rightarrow> tree_entry option \<Rightarrow> tree_entry option \<Rightarrow> 'v result"

fun diff_loop ::
  "'s read_tree \<Rightarrow> 's \<Rightarrow> nat \<Rightarrow> 'v diff_visitor \<Rightarrow> entry_frame list \<Rightarrow> entry_frame list
   \<Rightarrow> tree_entry option \<Rightarrow> tree_entry option \<Rightarrow> 'v \<Rightarrow> 'v result"
where
  "diff_loop read s 0 visitor ls rs le re v = Inl OutOfFuel"
| "diff_loop read s (Suc n) visitor ls rs le re v =
     (case (le, re) of
        (Some l, Some r) \<Rightarrow>
          if te_name l = te_name r
          then rbind (if l \<noteq> r then visitor v (Some l) (Some r) else Inr v) (\<lambda>v'.
               rbind (next_entry read s n ls) (\<lambda>(le', ls').
               rbind (next_entry read s n rs) (\<lambda>(re', rs').
               diff_loop read s n visitor ls' rs' le' re' v')))
          else if te_name l < te_name r
          then rbind (visitor v (Some l) None) (\<lambda>v'.
               rbind (next_entry read s n ls) (\<lambda>(le', ls').
               diff_loop read s n visitor ls' rs le' re v'))
          else rbind (visitor v None (Some r)) (\<lambda>v'.
               rbind (next_entry read s n rs) (\<lambda>(re', rs').
               diff_loop read s n visitor ls rs' le re' v'))
      | (Some l, None) \<Rightarrow>
          rbind (visitor v (Some l) None) (\<lambda>v'.
          rbind (next_entry read s n ls) (\<lambda>(le', ls').
          diff_loop read s n visitor ls' rs le' re v'))
      | (None, Some r) \<Rightarrow>
          rbind (visitor v None (Some r)) (\<lambda>v'.
          rbind (next_entry read s n rs) (\<lambda>(re', rs').
          diff_loop read s n visitor ls rs' le re' v'))
      | (None, None) \<Rightarrow> Inr v)"

definition aligned_branches :: "tree \<Rightarrow> tree \<Rightarrow> bool" where
  "aligned_branches left_node right_node \<longleftrightarrow>
     tr_pages left_node \<noteq> []
     \<and> length (tr_pages left_node) = length (tr_pages right_node)
     \<and> list_all (\<lambda>(l, r). tp_first_name l = tp_first_name r \<and> tp_last_name l = tp_last_name r)
         (zip (tr_pages left_node) (tr_pages right_node))"

fun diff_entries ::
  "'s read_tree \<Rightarrow> nat \<Rightarrow> 's \<Rightarrow> object_id \<Rightarrow> object_id \<Rightarrow> 'v diff_visitor \<Rightarrow> 'v \<Rightarrow> 'v result"
where
  "diff_entries read 0 s left right visitor v = Inl OutOfFuel"
| "diff_entries read (Suc n) s left right visitor v =
     (if left = right then Inr v
      else rbind (read_node read s left) (\<lambda>left_node.
           rbind (read_node read s right) (\<lambda>right_node.
           if aligned_branches left_node right_node
           then rfold (\<lambda>v (l, r). diff_entries read n s (tp_target l) (tp_target r) visitor v) v
                  (zip (tr_pages left_node) (tr_pages right_node))
           else rbind (next_entry read s n [NodeFrame left]) (\<lambda>(le, ls).
                rbind (next_entry read s n [NodeFrame right]) (\<lambda>(re, rs).
                diff_loop read s n visitor ls rs le re v)))))"


section \<open>What a paged directory means\<close>

definition names_sorted :: "tree_entry list \<Rightarrow> bool" where
  "names_sorted es \<longleftrightarrow> sorted_wrt (<) (map te_name es)"

definition lookup_entry :: "tree_entry list \<Rightarrow> bytes \<Rightarrow> tree_entry option" where
  "lookup_entry es name = find (\<lambda>e. te_name e = name) es"

text \<open>\<open>paged read s i es\<close>: the node stored under \<open>i\<close> lists exactly the entries \<open>es\<close>.\<close>

inductive paged :: "'s read_tree \<Rightarrow> 's \<Rightarrow> object_id \<Rightarrow> tree_entry list \<Rightarrow> bool" for read s where
  paged_leaf: "read s i = Inr \<lparr>tr_entries = es, tr_pages = []\<rparr> \<Longrightarrow> paged read s i es"
| paged_branch: "read s i = Inr \<lparr>tr_entries = [], tr_pages = ps\<rparr> \<Longrightarrow> ps \<noteq> [] \<Longrightarrow>
     list_all2 (\<lambda>p es. es \<noteq> [] \<and> tp_first_name p = te_name (hd es)
        \<and> tp_last_name p = te_name (last es) \<and> tp_entry_count p = length es
        \<and> paged read s (tp_target p) es) ps ess \<Longrightarrow>
     paged read s i (concat ess)"

definition page_repr :: "'s read_tree \<Rightarrow> 's \<Rightarrow> tree_page \<Rightarrow> tree_entry list \<Rightarrow> bool" where
  "page_repr read s p es \<longleftrightarrow> es \<noteq> [] \<and> tp_first_name p = te_name (hd es)
     \<and> tp_last_name p = te_name (last es) \<and> tp_entry_count p = length es
     \<and> paged read s (tp_target p) es"

text \<open>The entry pairs a comparison of two sorted directories reports, in name order.\<close>

fun diff_list ::
  "tree_entry list \<Rightarrow> tree_entry list \<Rightarrow> (tree_entry option \<times> tree_entry option) list" where
  "diff_list [] [] = []"
| "diff_list (l # ls) [] = (Some l, None) # diff_list ls []"
| "diff_list [] (r # rs) = (None, Some r) # diff_list [] rs"
| "diff_list (l # ls) (r # rs) =
     (if te_name l = te_name r
      then (if l \<noteq> r then [(Some l, Some r)] else []) @ diff_list ls rs
      else if te_name l < te_name r then (Some l, None) # diff_list ls (r # rs)
      else (None, Some r) # diff_list (l # ls) rs)"

text \<open>The stack of the iterator still has to produce exactly \<open>es\<close>.\<close>

inductive walks :: "'s read_tree \<Rightarrow> 's \<Rightarrow> entry_frame list \<Rightarrow> tree_entry list \<Rightarrow> bool" for read s where
  walks_done: "walks read s [] []"
| walks_leaf_end: "walks read s stack es \<Longrightarrow> walks read s (LeafFrame [] # stack) es"
| walks_leaf: "walks read s (LeafFrame xs # stack) es \<Longrightarrow>
     walks read s (LeafFrame (x # xs) # stack) (x # es)"
| walks_node_leaf: "read s i = Inr \<lparr>tr_entries = xs, tr_pages = []\<rparr> \<Longrightarrow>
     walks read s (LeafFrame xs # stack) es \<Longrightarrow> walks read s (NodeFrame i # stack) es"
| walks_node_branch: "read s i = Inr \<lparr>tr_entries = [], tr_pages = ps\<rparr> \<Longrightarrow> ps \<noteq> [] \<Longrightarrow>
     walks read s (map (\<lambda>p. NodeFrame (tp_target p)) ps @ stack) es \<Longrightarrow>
     walks read s (NodeFrame i # stack) es"

inductive_cases walks_leafE: "walks read s (LeafFrame xs # stack) es"

abbreviation head_opt :: "'a list \<Rightarrow> 'a option" where
  "head_opt xs \<equiv> (case xs of [] \<Rightarrow> None | x # _ \<Rightarrow> Some x)"

section \<open>Names and differences of sorted lists\<close>

lemma names_sorted_Nil [simp]: "names_sorted []"
  by (simp add: names_sorted_def)

lemma names_sorted_Cons [simp]:
  "names_sorted (e # es) \<longleftrightarrow> (\<forall>x\<in>set es. te_name e < te_name x) \<and> names_sorted es"
  by (simp add: names_sorted_def)

lemma names_sorted_append [simp]:
  "names_sorted (xs @ ys) \<longleftrightarrow>
     names_sorted xs \<and> names_sorted ys \<and> (\<forall>x\<in>set xs. \<forall>y\<in>set ys. te_name x < te_name y)"
  by (simp add: names_sorted_def sorted_wrt_append)

lemma lookup_entry_Nil [simp]: "lookup_entry [] name = None"
  by (simp add: lookup_entry_def)

lemma lookup_entry_Cons [simp]:
  "lookup_entry (e # es) name = (if te_name e = name then Some e else lookup_entry es name)"
  by (simp add: lookup_entry_def)

lemma lookup_entry_None_iff: "lookup_entry es name = None \<longleftrightarrow> name \<notin> te_name ` set es"
  by (induction es) auto

lemma lookup_entry_SomeD: "lookup_entry es name = Some e \<Longrightarrow> e \<in> set es \<and> te_name e = name"
  by (induction es) (auto split: if_splits)

lemma lookup_entry_Some_iff:
  "names_sorted es \<Longrightarrow> lookup_entry es name = Some e \<longleftrightarrow> e \<in> set es \<and> te_name e = name"
  by (induction es) auto

lemma lookup_entry_append:
  "lookup_entry (xs @ ys) name =
     (case lookup_entry xs name of Some e \<Rightarrow> Some e | None \<Rightarrow> lookup_entry ys name)"
  by (induction xs) auto

lemma diff_list_Nil_left: "diff_list [] fs = map (\<lambda>f. (None, Some f)) fs"
  by (induction fs) auto

lemma diff_list_Nil_right: "diff_list es [] = map (\<lambda>e. (Some e, None)) es"
  by (induction es) auto

lemma diff_list_same [simp]: "diff_list es es = []"
  by (induction es) auto

lemma diff_list_names:
  "(a, b) \<in> set (diff_list es fs) \<Longrightarrow>
     (\<forall>x. a = Some x \<longrightarrow> x \<in> set es) \<and> (\<forall>y. b = Some y \<longrightarrow> y \<in> set fs)"
  by (induction es fs rule: diff_list.induct) (auto split: if_splits)

text \<open>The pairs at which two lookup functions differ.\<close>

definition diffs :: "('k \<Rightarrow> 'a option) \<Rightarrow> ('k \<Rightarrow> 'a option) \<Rightarrow> ('a option \<times> 'a option) set" where
  "diffs f g = (\<lambda>k. (f k, g k)) ` {k. f k \<noteq> g k}"

lemma diffs_upd:
  assumes "f k = None" and "g k = None"
  shows "diffs (f(k := x)) (g(k := y)) = (if x = y then {} else {(x, y)}) \<union> diffs f g"
proof -
  have "{n. (f(k := x)) n \<noteq> (g(k := y)) n} = (if x = y then {} else {k}) \<union> {n. f n \<noteq> g n}"
    using assms by auto
  moreover have "(\<lambda>n. ((f(k := x)) n, (g(k := y)) n)) ` {n. f n \<noteq> g n} = diffs f g"
    unfolding diffs_def by (rule image_cong) (use assms in auto)
  ultimately show ?thesis
    by (simp add: diffs_def image_Un)
qed

lemma lookup_entry_Cons_upd: "lookup_entry (e # es) = (lookup_entry es)(te_name e := Some e)"
  by (auto simp: fun_eq_iff)

lemma lookup_entry_less:
  "\<forall>x\<in>set es. name < te_name x \<Longrightarrow> lookup_entry es name = None"
  by (force simp: lookup_entry_None_iff)

lemma set_diff_list:
  assumes "names_sorted es" and "names_sorted fs"
  shows "set (diff_list es fs) = diffs (lookup_entry es) (lookup_entry fs)"
  using assms
proof (induction es fs rule: diff_list.induct)
  case 1
  then show ?case by (simp add: diffs_def)
next
  case (2 l ls)
  have "diffs (lookup_entry (l # ls)) (lookup_entry [])
      = diffs ((lookup_entry ls)(te_name l := Some l)) ((lookup_entry [])(te_name l := None))"
    by (simp only: lookup_entry_Cons_upd fun_upd_idem lookup_entry_Nil)
  also have "\<dots> = insert (Some l, None) (diffs (lookup_entry ls) (lookup_entry []))"
    using 2 by (subst diffs_upd) (auto simp: lookup_entry_less)
  finally show ?case using 2 by (simp del: lookup_entry_Cons lookup_entry_Nil)
next
  case (3 r rs)
  have "diffs (lookup_entry []) (lookup_entry (r # rs))
      = diffs ((lookup_entry [])(te_name r := None)) ((lookup_entry rs)(te_name r := Some r))"
    by (simp only: lookup_entry_Cons_upd fun_upd_idem lookup_entry_Nil)
  also have "\<dots> = insert (None, Some r) (diffs (lookup_entry []) (lookup_entry rs))"
    using 3 by (subst diffs_upd) (auto simp: lookup_entry_less)
  finally show ?case using 3 by (simp del: lookup_entry_Cons lookup_entry_Nil)
next
  case (4 l ls r rs)
  consider (eq) "te_name l = te_name r" | (lt) "te_name l < te_name r" | (gt) "te_name r < te_name l"
    by (metis linorder_less_linear)
  then show ?case
  proof cases
    case eq
    have "diffs (lookup_entry (l # ls)) (lookup_entry (r # rs))
        = (if Some l = Some r then {} else {(Some l, Some r)})
          \<union> diffs (lookup_entry ls) (lookup_entry rs)"
      unfolding lookup_entry_Cons_upd eq
      by (rule diffs_upd) (use 4 eq in \<open>simp_all add: lookup_entry_less\<close>)
    then show ?thesis using 4 eq by (simp del: lookup_entry_Cons)
  next
    case lt
    have none: "lookup_entry (r # rs) (te_name l) = None"
      by (rule lookup_entry_less) (use 4 lt in force)
    have "diffs (lookup_entry (l # ls)) (lookup_entry (r # rs))
        = diffs ((lookup_entry ls)(te_name l := Some l)) ((lookup_entry (r # rs))(te_name l := None))"
      using none by (simp only: lookup_entry_Cons_upd [of l] fun_upd_idem)
    also have "\<dots> = {(Some l, None)} \<union> diffs (lookup_entry ls) (lookup_entry (r # rs))"
      using 4 none by (subst diffs_upd) (simp_all add: lookup_entry_less)
    finally show ?thesis using 4 lt by (simp del: lookup_entry_Cons add: less_imp_neq)
  next
    case gt
    have none: "lookup_entry (l # ls) (te_name r) = None"
      by (rule lookup_entry_less) (use 4 gt in force)
    have "diffs (lookup_entry (l # ls)) (lookup_entry (r # rs))
        = diffs ((lookup_entry (l # ls))(te_name r := None)) ((lookup_entry rs)(te_name r := Some r))"
      using none by (simp only: lookup_entry_Cons_upd [of r] fun_upd_idem)
    also have "\<dots> = {(None, Some r)} \<union> diffs (lookup_entry (l # ls)) (lookup_entry rs)"
      using 4 none by (subst diffs_upd) (simp_all add: lookup_entry_less)
    finally show ?thesis using 4 gt by (simp del: lookup_entry_Cons add: less_not_sym less_imp_neq [THEN not_sym])
  qed
qed

lemma diff_list_append:
  assumes "\<forall>x\<in>set a \<union> set c. \<forall>y\<in>set b \<union> set d. te_name x < te_name y"
  shows "diff_list (a @ b) (c @ d) = diff_list a c @ diff_list b d"
  using assms
proof (induction a c rule: diff_list.induct)
  case 1
  then show ?case by simp
next
  case (2 l ls)
  show ?case
  proof (cases d)
    case (Cons r rs)
    with 2 have "te_name l < te_name r" by auto
    with 2 Cons show ?thesis by auto
  qed (use 2 in auto)
next
  case (3 r rs)
  show ?case
  proof (cases b)
    case (Cons l ls)
    with 3 have "te_name r < te_name l" by auto
    with 3 Cons show ?thesis by auto
  qed (use 3 in auto)
next
  case (4 l ls r rs)
  then show ?case by auto
qed


section \<open>The iterator and the comparison on stored pages\<close>

lemma read_node_eq:
  "tr_entries t = [] \<or> tr_pages t = [] \<Longrightarrow> read s i = Inr t \<Longrightarrow> read_node read s i = Inr t"
  by (simp add: read_node_def)

lemma walks_leaf_frame: "walks read s stack es \<Longrightarrow> walks read s (LeafFrame xs # stack) (xs @ es)"
  by (induction xs) (auto intro: walks.intros)

lemma paged_walks:
  "paged read s i es \<Longrightarrow> walks read s stack fs \<Longrightarrow> walks read s (NodeFrame i # stack) (es @ fs)"
proof (induction arbitrary: stack fs rule: paged.induct)
  case (paged_leaf i es)
  then show ?case by (auto intro: walks.intros walks_leaf_frame)
next
  case (paged_branch i ps ess)
  from paged_branch.IH paged_branch.prems
  have "walks read s (map (\<lambda>p. NodeFrame (tp_target p)) ps @ stack) (concat ess @ fs)"
    by (induction rule: list_all2_induct) (auto intro: walks.intros)
  with paged_branch.hyps show ?case by (auto intro: walks.intros)
qed

text \<open>With enough fuel, one call of \<open>next_entry\<close> gives the next entry of the stack.\<close>

lemma walks_next:
  "walks read s stack es \<Longrightarrow>
     \<exists>stack' N. (\<forall>n\<ge>N. next_entry read s n stack = Inr (head_opt es, stack'))
       \<and> walks read s stack' (tl es)"
proof (induction rule: walks.induct)
  case walks_done
  have "\<forall>n\<ge>1. next_entry read s n [] = Inr (None, [])"
    by (auto simp: Suc_le_eq gr0_conv_Suc)
  then show ?case by (auto intro: walks.intros)
next
  case (walks_leaf_end stack es)
  then obtain stack' N where st: "\<forall>n\<ge>N. next_entry read s n stack = Inr (head_opt es, stack')"
    "walks read s stack' (tl es)" by blast
  have "\<forall>n\<ge>Suc N. next_entry read s n (LeafFrame [] # stack) = Inr (head_opt es, stack')"
    using st(1) by (auto dest!: fuel_SucD)
  with st(2) show ?case by blast
next
  case (walks_leaf xs stack es x)
  have "\<forall>n\<ge>1. next_entry read s n (LeafFrame (x # xs) # stack) = Inr (Some x, LeafFrame xs # stack)"
    by (auto simp: Suc_le_eq gr0_conv_Suc)
  with walks_leaf.hyps show ?case by auto
next
  case (walks_node_leaf i xs stack es)
  then obtain stack' N where
    st: "\<forall>n\<ge>N. next_entry read s n (LeafFrame xs # stack) = Inr (head_opt es, stack')"
    "walks read s stack' (tl es)" by blast
  have "read_node read s i = Inr \<lparr>tr_entries = xs, tr_pages = []\<rparr>"
    using walks_node_leaf.hyps by (simp add: read_node_eq)
  with st(1) have "\<forall>n\<ge>Suc N. next_entry read s n (NodeFrame i # stack) = Inr (head_opt es, stack')"
    by (auto dest!: fuel_SucD)
  with st(2) show ?case by blast
next
  case (walks_node_branch i ps stack es)
  then obtain stack' N where
    st: "\<forall>n\<ge>N. next_entry read s n (map (\<lambda>p. NodeFrame (tp_target p)) ps @ stack)
           = Inr (head_opt es, stack')"
    "walks read s stack' (tl es)" by blast
  have "read_node read s i = Inr \<lparr>tr_entries = [], tr_pages = ps\<rparr>"
    using walks_node_branch.hyps by (simp add: read_node_eq)
  with st(1) walks_node_branch.hyps(2)
  have "\<forall>n\<ge>Suc N. next_entry read s n (NodeFrame i # stack) = Inr (head_opt es, stack')"
    by (auto dest!: fuel_SucD)
  with st(2) show ?case by blast
qed

lemma walks_entries_loop:
  "walks read s stack es \<Longrightarrow>
     \<exists>N. \<forall>n\<ge>N. \<forall>(visitor :: 'v \<Rightarrow> tree_entry \<Rightarrow> 'v result) v. entries_loop read s n visitor stack v = rfold visitor v es"
proof (induction es arbitrary: stack)
  case Nil
  then obtain stack' N where "\<forall>n\<ge>N. next_entry read s n stack = Inr (None, stack')"
    using walks_next by fastforce
  then have "\<forall>n\<ge>Suc N. \<forall>(visitor :: 'v \<Rightarrow> tree_entry \<Rightarrow> 'v result) v. entries_loop read s n visitor stack v = Inr v"
    by (auto dest!: fuel_SucD)
  then show ?case by auto
next
  case (Cons e es)
  then obtain stack' N where st: "\<forall>n\<ge>N. next_entry read s n stack = Inr (Some e, stack')"
    "walks read s stack' es" using walks_next [OF Cons.prems] by auto
  from Cons.IH [OF st(2)] obtain M where
    M: "\<forall>n\<ge>M. \<forall>(visitor :: 'v \<Rightarrow> tree_entry \<Rightarrow> 'v result) v. entries_loop read s n visitor stack' v = rfold visitor v es" by blast
  have "\<forall>n\<ge>Suc (max N M). \<forall>(visitor :: 'v \<Rightarrow> tree_entry \<Rightarrow> 'v result) v. entries_loop read s n visitor stack v = rfold visitor v (e # es)"
    using st(1) M by (auto dest!: fuel_SucD intro!: rbind_cong)
  then show ?case by blast
qed

text \<open>The fuel depends on the pages only, not on what is done with the entries.\<close>

lemma for_each_entry_paged:
  assumes "paged read s i es"
  shows "\<exists>N. \<forall>n\<ge>N. \<forall>(visitor :: 'v \<Rightarrow> tree_entry \<Rightarrow> 'v result) v. for_each_entry read n s i visitor v = rfold visitor v es"
  unfolding for_each_entry_def
  using walks_entries_loop [OF paged_walks [OF assms walks_done]] by simp

lemma for_each_entry_visits:
  fixes visitor :: "'v \<Rightarrow> tree_entry \<Rightarrow> 'v result"
  assumes "paged read s i es"
  shows "\<exists>N. \<forall>n\<ge>N. \<forall>v. for_each_entry read n s i visitor v = rfold visitor v es"
proof -
  from for_each_entry_paged [OF assms] obtain N where
    "\<forall>n\<ge>N. \<forall>(visitor :: 'v \<Rightarrow> tree_entry \<Rightarrow> 'v result) v. for_each_entry read n s i visitor v = rfold visitor v es" by (rule exE)
  then show ?thesis by (intro exI [of _ N]) simp
qed

abbreviation visit_pairs :: "'v diff_visitor \<Rightarrow> 'v \<Rightarrow> (tree_entry option \<times> tree_entry option) list \<Rightarrow> 'v result"
  where "visit_pairs visitor v ps \<equiv> rfold (\<lambda>v (a, b). visitor v a b) v ps"

lemma walks_diff_loop:
  assumes "walks read s ls (tl es)" and "walks read s rs (tl fs)"
  shows "\<exists>N. \<forall>n\<ge>N. \<forall>(visitor :: 'v diff_visitor) v. diff_loop read s n visitor ls rs (head_opt es) (head_opt fs) v
           = visit_pairs visitor v (diff_list es fs)"
  using assms
proof (induction es fs arbitrary: ls rs rule: diff_list.induct)
  case 1
  have "\<forall>n\<ge>1. \<forall>(visitor :: 'v diff_visitor) v. diff_loop read s n visitor ls rs None None v = Inr v"
    by (auto simp: Suc_le_eq gr0_conv_Suc)
  then show ?case by auto
next
  case (2 l es)
  from walks_next [OF 2(2)] obtain ls' N where
    st: "\<forall>n\<ge>N. next_entry read s n ls = Inr (head_opt es, ls')" "walks read s ls' (tl es)" by auto
  from 2(1)[OF st(2) 2(3)] obtain M where
    M: "\<forall>n\<ge>M. \<forall>(visitor :: 'v diff_visitor) v. diff_loop read s n visitor ls' rs (head_opt es) None v
          = visit_pairs visitor v (diff_list es [])" by auto
  have "\<forall>n\<ge>Suc (max N M). \<forall>(visitor :: 'v diff_visitor) v. diff_loop read s n visitor ls rs (Some l) None v
      = visit_pairs visitor v (diff_list (l # es) [])"
    using st(1) M by (auto dest!: fuel_SucD intro!: rbind_cong)
  then show ?case by auto
next
  case (3 r fs)
  from walks_next [OF 3(3)] obtain rs' N where
    st: "\<forall>n\<ge>N. next_entry read s n rs = Inr (head_opt fs, rs')" "walks read s rs' (tl fs)" by auto
  from 3(1)[OF 3(2) st(2)] obtain M where
    M: "\<forall>n\<ge>M. \<forall>(visitor :: 'v diff_visitor) v. diff_loop read s n visitor ls rs' None (head_opt fs) v
          = visit_pairs visitor v (diff_list [] fs)" by auto
  have "\<forall>n\<ge>Suc (max N M). \<forall>(visitor :: 'v diff_visitor) v. diff_loop read s n visitor ls rs None (Some r) v
      = visit_pairs visitor v (diff_list [] (r # fs))"
    using st(1) M by (auto dest!: fuel_SucD intro!: rbind_cong)
  then show ?case by auto
next
  case (4 l es r fs)
  have wl: "walks read s ls es" and wr: "walks read s rs fs" using 4(4,5) by simp_all
  from walks_next [OF wl] obtain ls' N where
    l: "\<forall>n\<ge>N. next_entry read s n ls = Inr (head_opt es, ls')" "walks read s ls' (tl es)" by auto
  from walks_next [OF wr] obtain rs' M where
    r: "\<forall>n\<ge>M. next_entry read s n rs = Inr (head_opt fs, rs')" "walks read s rs' (tl fs)" by auto
  consider (eq) "te_name l = te_name r" | (lt) "te_name l \<noteq> te_name r" "te_name l < te_name r"
    | (gt) "te_name l \<noteq> te_name r" "\<not> te_name l < te_name r" by blast
  then have "\<exists>N. \<forall>n\<ge>N. \<forall>(visitor :: 'v diff_visitor) v. diff_loop read s n visitor ls rs (Some l) (Some r) v
      = visit_pairs visitor v (diff_list (l # es) (r # fs))"
  proof cases
    case eq
    from 4(1)[OF eq l(2) r(2)] obtain K where
      K: "\<forall>n\<ge>K. \<forall>(visitor :: 'v diff_visitor) v. diff_loop read s n visitor ls' rs' (head_opt es) (head_opt fs) v
            = visit_pairs visitor v (diff_list es fs)" by auto
    have "\<forall>n\<ge>Suc (max K (max N M)). \<forall>(visitor :: 'v diff_visitor) v. diff_loop read s n visitor ls rs (Some l) (Some r) v
        = visit_pairs visitor v (diff_list (l # es) (r # fs))"
      using l(1) r(1) K eq by (auto dest!: fuel_SucD intro!: rbind_cong)
    then show ?thesis by blast
  next
    case lt
    have "\<exists>K. \<forall>n\<ge>K. \<forall>(visitor :: 'v diff_visitor) v. diff_loop read s n visitor ls' rs (head_opt es) (Some r) v
            = visit_pairs visitor v (diff_list es (r # fs))"
      using 4(2)[OF lt l(2)] wr by simp
    then obtain K where
      K: "\<forall>n\<ge>K. \<forall>(visitor :: 'v diff_visitor) v. diff_loop read s n visitor ls' rs (head_opt es) (Some r) v
            = visit_pairs visitor v (diff_list es (r # fs))" by blast
    have "\<forall>n\<ge>Suc (max K N). \<forall>(visitor :: 'v diff_visitor) v. diff_loop read s n visitor ls rs (Some l) (Some r) v
        = visit_pairs visitor v (diff_list (l # es) (r # fs))"
      using l(1) K lt by (auto dest!: fuel_SucD intro!: rbind_cong)
    then show ?thesis by blast
  next
    case gt
    have "\<exists>K. \<forall>n\<ge>K. \<forall>(visitor :: 'v diff_visitor) v. diff_loop read s n visitor ls rs' (Some l) (head_opt fs) v
            = visit_pairs visitor v (diff_list (l # es) fs)"
      using 4(3)[OF gt _ r(2)] wl by simp
    then obtain K where
      K: "\<forall>n\<ge>K. \<forall>(visitor :: 'v diff_visitor) v. diff_loop read s n visitor ls rs' (Some l) (head_opt fs) v
            = visit_pairs visitor v (diff_list (l # es) fs)" by blast
    have "\<forall>n\<ge>Suc (max K M). \<forall>(visitor :: 'v diff_visitor) v. diff_loop read s n visitor ls rs (Some l) (Some r) v
        = visit_pairs visitor v (diff_list (l # es) (r # fs))"
      using r(1) K gt by (auto dest!: fuel_SucD intro!: rbind_cong)
    then show ?thesis by blast
  qed
  then show ?case by simp
qed


lemma rfold_collect: "rfold (\<lambda>v e. Inr (v @ [e])) v es = Inr (v @ es)"
  by (induction es arbitrary: v) auto

lemma paged_unique:
  assumes "paged read s i es" and "paged read s i fs"
  shows "es = fs"
proof -
  from for_each_entry_paged [OF assms(1)] obtain N where
    N: "\<forall>n\<ge>N. \<forall>v. for_each_entry read n s i (\<lambda>v e. Inr (v @ [e])) v = Inr (v @ es)"
    by (metis rfold_collect)
  from for_each_entry_paged [OF assms(2)] obtain M where
    M: "\<forall>n\<ge>M. \<forall>v. for_each_entry read n s i (\<lambda>v e. Inr (v @ [e])) v = Inr (v @ fs)"
    by (metis rfold_collect)
  from N M have "Inr ([] @ es) = (Inr ([] @ fs) :: _ result)"
    by (metis max.cobounded1 max.cobounded2)
  then show ?thesis by simp
qed

lemma paged_read_node:
  assumes "paged read s i es"
  shows "\<exists>t. read_node read s i = Inr t"
  using assms by (cases rule: paged.cases) (auto simp: read_node_def)

lemma names_sorted_le_last: "names_sorted es \<Longrightarrow> x \<in> set es \<Longrightarrow> te_name x \<le> te_name (last es)"
  by (induction es) (auto split: if_splits intro: less_imp_le)

lemma names_sorted_ge_hd: "names_sorted es \<Longrightarrow> x \<in> set es \<Longrightarrow> te_name (hd es) \<le> te_name x"
  by (cases es) (auto intro: less_imp_le)

text \<open>Without aligned branches the two iterators are merged.\<close>

lemma diff_entries_unaligned:
  assumes "paged read s l es" and "paged read s r fs" and "l \<noteq> r"
    and "read_node read s l = Inr t" and "read_node read s r = Inr u"
    and "\<not> aligned_branches t u"
  shows "\<exists>N. \<forall>n\<ge>N. \<forall>(visitor :: 'v diff_visitor) v. diff_entries read n s l r visitor v
           = visit_pairs visitor v (diff_list es fs)"
proof -
  from walks_next [OF paged_walks [OF assms(1) walks_done]] obtain ls N where
    l: "\<forall>n\<ge>N. next_entry read s n [NodeFrame l] = Inr (head_opt es, ls)" "walks read s ls (List.tl es)"
    by auto
  from walks_next [OF paged_walks [OF assms(2) walks_done]] obtain rs M where
    r: "\<forall>n\<ge>M. next_entry read s n [NodeFrame r] = Inr (head_opt fs, rs)" "walks read s rs (List.tl fs)"
    by auto
  from walks_diff_loop [OF l(2) r(2)] obtain K where
    K: "\<forall>n\<ge>K. \<forall>(visitor :: 'v diff_visitor) v. diff_loop read s n visitor ls rs (head_opt es) (head_opt fs) v
          = visit_pairs visitor v (diff_list es fs)" by blast
  have "\<forall>n\<ge>Suc (max K (max N M)). \<forall>(visitor :: 'v diff_visitor) v. diff_entries read n s l r visitor v
      = visit_pairs visitor v (diff_list es fs)"
    using l(1) r(1) K assms(3-6) by (auto dest!: fuel_SucD)
  then show ?thesis by blast
qed

lemma page_ranges_before:
  assumes "names_sorted (es @ rest)" and "es \<noteq> []" and "x \<in> set es" and "te_name (last es) < k"
  shows "te_name x < k"
  using names_sorted_le_last [of es x] assms by auto

text \<open>With aligned branches the pages are compared pairwise, which gives the same pairs.\<close>

lemma diff_pages_aligned:
  assumes "list_all2 (\<lambda>p es. page_repr read s p es
        \<and> (\<forall>r fs. paged read s r fs \<longrightarrow> names_sorted es \<longrightarrow> names_sorted fs \<longrightarrow>
             (\<exists>N. \<forall>n\<ge>N. \<forall>(visitor :: 'v diff_visitor) v. diff_entries read n s (tp_target p) r visitor v
                = visit_pairs visitor v (diff_list es fs)))) ps ess"
    and "list_all2 (page_repr read s) qs fss" and "length ps = length qs"
    and "list_all (\<lambda>(l, r). tp_first_name l = tp_first_name r \<and> tp_last_name l = tp_last_name r)
           (zip ps qs)"
    and "names_sorted (concat ess)" and "names_sorted (concat fss)"
  shows "\<exists>N. \<forall>n\<ge>N. \<forall>(visitor :: 'v diff_visitor) v. rfold (\<lambda>v (l, r). diff_entries read n s (tp_target l) (tp_target r) visitor v) v
             (zip ps qs) = visit_pairs visitor v (diff_list (concat ess) (concat fss))"
  using assms
proof (induction arbitrary: qs fss rule: list_all2_induct)
  case Nil
  then show ?case by auto
next
  case (Cons p ps es ess)
  obtain q qs' fs fss' where qs: "qs = q # qs'" "fss = fs # fss'"
    and q: "page_repr read s q fs" and qs': "list_all2 (page_repr read s) qs' fss'"
    using Cons.prems(1,2) by (cases qs; cases fss) auto
  have sorted: "names_sorted es" "names_sorted fs" "names_sorted (concat ess)" "names_sorted (concat fss')"
    using Cons.prems(4,5) by (simp_all add: qs)
  have last: "te_name (last es) = te_name (last fs)" and ne: "es \<noteq> []" "fs \<noteq> []"
    using Cons.hyps(1) q Cons.prems(3) by (auto simp: page_repr_def qs)
  have sep: "\<forall>x\<in>set es \<union> set fs. \<forall>y\<in>set (concat ess) \<union> set (concat fss'). te_name x < te_name y"
  proof (intro ballI)
    fix x y assume x: "x \<in> set es \<union> set fs" and y: "y \<in> set (concat ess) \<union> set (concat fss')"
    have "te_name x \<le> te_name (last es)"
      using x names_sorted_le_last [OF sorted(1), of x] names_sorted_le_last [OF sorted(2), of x] last
      by auto
    also have "te_name (last es) < te_name y"
      using y Cons.prems(4,5) ne last last_in_set [of es] last_in_set [of fs]
      unfolding qs concat.simps names_sorted_append by (metis Un_iff)
    finally show "te_name x < te_name y" .
  qed
  from Cons.hyps(1) q sorted obtain N where
    N: "\<forall>n\<ge>N. \<forall>(visitor :: 'v diff_visitor) v. diff_entries read n s (tp_target p) (tp_target q) visitor v
          = visit_pairs visitor v (diff_list es fs)"
    unfolding page_repr_def by blast
  have "length ps = length qs'" and
    "list_all (\<lambda>(l, r). tp_first_name l = tp_first_name r \<and> tp_last_name l = tp_last_name r) (zip ps qs')"
    using Cons.prems by (simp_all add: qs)
  from Cons.IH [OF qs' this sorted(3,4)] obtain M where
    M: "\<forall>n\<ge>M. \<forall>(visitor :: 'v diff_visitor) v. rfold (\<lambda>v (l, r). diff_entries read n s (tp_target l) (tp_target r) visitor v) v
          (zip ps qs') = visit_pairs visitor v (diff_list (concat ess) (concat fss'))" by blast
  have "\<forall>n\<ge>max N M. \<forall>(visitor :: 'v diff_visitor) v. rfold (\<lambda>v (l, r). diff_entries read n s (tp_target l) (tp_target r) visitor v) v
      (zip (p # ps) qs) = visit_pairs visitor v (diff_list (concat (es # ess)) (concat fss))"
    using N M diff_list_append [OF sep] by (auto simp: qs rfold_append)
  then show ?case by blast
qed

lemma diff_entries_paged:
  assumes "paged read s l es" and "paged read s r fs" and "names_sorted es" and "names_sorted fs"
  shows "\<exists>N. \<forall>n\<ge>N. \<forall>(visitor :: 'v diff_visitor) v. diff_entries read n s l r visitor v
           = visit_pairs visitor v (diff_list es fs)"
  using assms
proof (induction arbitrary: r fs rule: paged.induct)
  case (paged_leaf i es)
  have pi: "paged read s i es" using paged_leaf.hyps by (rule paged.intros)
  have ri: "read_node read s i = Inr \<lparr>tr_entries = es, tr_pages = []\<rparr>"
    using paged_leaf.hyps by (simp add: read_node_eq)
  obtain t where rr: "read_node read s r = Inr t"
    using paged_read_node [OF paged_leaf.prems(1)] by blast
  have same: "\<exists>N. \<forall>n\<ge>N. \<forall>(visitor :: 'v diff_visitor) v. diff_entries read n s i r visitor v
      = visit_pairs visitor v (diff_list es fs)" if "i = r"
  proof -
    have "es = fs" using paged_unique [OF pi] paged_leaf.prems(1) that by simp
    then show ?thesis using that by (intro exI [of _ 1]) (auto dest!: fuel_SucD)
  qed
  show ?case
  proof (cases "i = r")
    case False
    then show ?thesis
      by (rule diff_entries_unaligned [OF pi paged_leaf.prems(1) _ ri rr])
        (simp add: aligned_branches_def)
  qed (rule same)
next
  case (paged_branch i ps ess)
  have pi: "paged read s i (concat ess)"
    using paged_branch.hyps paged_branch.IH
    by (auto intro!: paged.paged_branch elim: list_all2_mono)
  have ri: "read_node read s i = Inr \<lparr>tr_entries = [], tr_pages = ps\<rparr>"
    using paged_branch.hyps by (simp add: read_node_eq)
  obtain t where rr: "read_node read s r = Inr t"
    using paged_read_node [OF paged_branch.prems(1)] by blast
  consider (same) "i = r" | (unaligned) "i \<noteq> r" "\<not> aligned_branches \<lparr>tr_entries = [], tr_pages = ps\<rparr> t"
    | (aligned) "i \<noteq> r" "aligned_branches \<lparr>tr_entries = [], tr_pages = ps\<rparr> t" by blast
  then show ?case
  proof cases
    case same
    then have "concat ess = fs" using paged_unique [OF pi] paged_branch.prems(1) by simp
    with same show ?thesis by (intro exI [of _ 1]) (auto dest!: fuel_SucD)
  next
    case unaligned
    show ?thesis by (rule diff_entries_unaligned [OF pi paged_branch.prems(1) unaligned(1) ri rr unaligned(2)])
  next
    case aligned
    from paged_branch.prems(1) aligned(2) rr obtain fss where
      fss: "fs = concat fss" "list_all2 (page_repr read s) (tr_pages t) fss"
      by (cases rule: paged.cases)
        (auto simp: aligned_branches_def read_node_def page_repr_def [abs_def])
    have ps: "list_all2 (\<lambda>p es. page_repr read s p es
        \<and> (\<forall>r fs. paged read s r fs \<longrightarrow> names_sorted es \<longrightarrow> names_sorted fs \<longrightarrow>
             (\<exists>N. \<forall>n\<ge>N. \<forall>(visitor :: 'v diff_visitor) v. diff_entries read n s (tp_target p) r visitor v
                = visit_pairs visitor v (diff_list es fs)))) ps ess"
      using paged_branch.IH by (rule list_all2_mono) (auto simp: page_repr_def)
    from diff_pages_aligned [OF ps fss(2)] aligned(2) paged_branch.prems(2,3) obtain N where
      N: "\<forall>n\<ge>N. \<forall>(visitor :: 'v diff_visitor) v. rfold (\<lambda>v (l, r). diff_entries read n s (tp_target l) (tp_target r) visitor v) v
            (zip ps (tr_pages t)) = visit_pairs visitor v (diff_list (concat ess) fs)"
      by (auto simp: aligned_branches_def fss(1))
    have "\<forall>n\<ge>Suc N. \<forall>(visitor :: 'v diff_visitor) v. diff_entries read n s i r visitor v
        = visit_pairs visitor v (diff_list (concat ess) fs)"
      using N ri rr aligned by (auto dest!: fuel_SucD)
    then show ?thesis by blast
  qed
qed

lemma diff_entries_visits:
  fixes visitor :: "'v diff_visitor"
  assumes "paged read s l es" and "paged read s r fs" and "names_sorted es" and "names_sorted fs"
  shows "\<exists>N. \<forall>n\<ge>N. \<forall>v. diff_entries read n s l r visitor v = visit_pairs visitor v (diff_list es fs)"
proof -
  from diff_entries_paged [OF assms] obtain N where
    "\<forall>n\<ge>N. \<forall>(visitor :: 'v diff_visitor) v. diff_entries read n s l r visitor v = visit_pairs visitor v (diff_list es fs)" by (rule exE)
  then show ?thesis by (intro exI [of _ N]) simp
qed

section \<open>Lookup\<close>

lemma ordered_for_cmp_bytes:
  "names_sorted es \<Longrightarrow> ordered_for (\<lambda>e. cmp_bytes (te_name e) name) es"
  unfolding ordered_for_def
proof (intro allI impI, elim conjE)
  fix i j assume sorted: "names_sorted es" and ij: "i \<le> j" "j < length es"
  have le: "te_name (es ! i) \<le> te_name (es ! j)"
  proof (cases "i = j")
    case False
    with ij have "i < j" by simp
    with sorted ij show ?thesis
      using sorted_wrt_nth_less [of "(<)" "map te_name es" i j] by (simp add: names_sorted_def)
  qed simp
  then show "(cmp_bytes (te_name (es ! j)) name = Lt \<longrightarrow> cmp_bytes (te_name (es ! i)) name = Lt) \<and>
      (cmp_bytes (te_name (es ! i)) name = Gt \<longrightarrow> cmp_bytes (te_name (es ! j)) name = Gt)"
    by (auto simp: cmp_bytes_def split: if_splits)
qed

lemma find_in_leaf:
  assumes "names_sorted es"
  shows "map_option (\<lambda>i. es ! i) (binary_search_by (\<lambda>e. cmp_bytes (te_name e) name) es)
       = lookup_entry es name"
proof (cases "binary_search_by (\<lambda>e. cmp_bytes (te_name e) name) es")
  case None
  then have "name \<notin> te_name ` set es"
    using binary_search_by_None_iff [OF ordered_for_cmp_bytes [OF assms]] by (force simp: cmp_bytes_def)
  then have "lookup_entry es name = None" by (simp add: lookup_entry_None_iff)
  with None show ?thesis by simp
next
  case (Some i)
  then have "es ! i \<in> set es" "te_name (es ! i) = name"
    by (auto dest!: binary_search_by_SomeD simp: cmp_bytes_def split: if_splits)
  then have "lookup_entry es name = Some (es ! i)" using assms by (simp add: lookup_entry_Some_iff)
  with Some show ?thesis by simp
qed

lemma find_entry_paged:
  assumes "paged read s i es" and "names_sorted es"
  shows "\<exists>N. \<forall>n\<ge>N. find_entry read n s i name = Inr (lookup_entry es name)"
  using assms
proof (induction rule: paged.induct)
  case (paged_leaf i es)
  have "read_node read s i = Inr \<lparr>tr_entries = es, tr_pages = []\<rparr>"
    using paged_leaf.hyps by (simp add: read_node_eq)
  then have "\<forall>n\<ge>1. find_entry read n s i name = Inr (lookup_entry es name)"
    using find_in_leaf [OF paged_leaf.prems] by (auto dest!: fuel_SucD)
  then show ?case by blast
next
  case (paged_branch i ps ess)
  have "list_all2 (\<lambda>p es. page_repr read s p es \<and> (names_sorted es \<longrightarrow>
      (\<exists>N. \<forall>n\<ge>N. find_entry read n s (tp_target p) name = Inr (lookup_entry es name)))) ps ess"
    using paged_branch.IH by (rule list_all2_mono) (auto simp: page_repr_def)
  then have "\<exists>N. \<forall>n\<ge>N. (case find (\<lambda>p. tp_first_name p \<le> name \<and> name \<le> tp_last_name p) ps of
        None \<Rightarrow> Inr None | Some p \<Rightarrow> find_entry read n s (tp_target p) name)
      = Inr (lookup_entry (concat ess) name)"
    using paged_branch.prems
  proof (induction rule: list_all2_induct)
    case Nil
    then show ?case by simp
  next
    case (Cons p ps es ess)
    have sorted: "names_sorted es" "names_sorted (concat ess)" using Cons.prems by simp_all
    have bounds: "tp_first_name p = te_name (hd es)" "tp_last_name p = te_name (last es)" "es \<noteq> []"
      using Cons.hyps(1) by (simp_all add: page_repr_def)
    show ?case
    proof (cases "tp_first_name p \<le> name \<and> name \<le> tp_last_name p")
      case True
      have "te_name (last es) < te_name y" if "y \<in> set (concat ess)" for y
        using Cons.prems that bounds(3) last_in_set [of es]
        unfolding concat.simps names_sorted_append by blast
      with True bounds have "lookup_entry (concat ess) name = None"
        by (intro lookup_entry_less) (auto intro: le_less_trans)
      then have "lookup_entry (concat (es # ess)) name = lookup_entry es name"
        by (simp add: lookup_entry_append split: option.split)
      then show ?thesis
        using Cons.hyps(1) sorted True by (simp del: concat.simps)
    next
      case False
      then have "name \<notin> te_name ` set es"
        using names_sorted_le_last [OF sorted(1)] names_sorted_ge_hd [OF sorted(1)] bounds by auto
      then have "lookup_entry es name = None" by (simp add: lookup_entry_None_iff)
      with Cons.IH [OF sorted(2)] show ?thesis using False by (auto simp: lookup_entry_append)
    qed
  qed
  then obtain N where N: "\<forall>n\<ge>N. (case find (\<lambda>p. tp_first_name p \<le> name \<and> name \<le> tp_last_name p) ps of
        None \<Rightarrow> Inr None | Some p \<Rightarrow> find_entry read n s (tp_target p) name)
      = Inr (lookup_entry (concat ess) name)" by blast
  have "read_node read s i = Inr \<lparr>tr_entries = [], tr_pages = ps\<rparr>"
    using paged_branch.hyps by (simp add: read_node_eq)
  with N paged_branch.hyps(2) have "\<forall>n\<ge>Suc N. find_entry read n s i name = Inr (lookup_entry (concat ess) name)"
    by (auto dest!: fuel_SucD)
  then show ?case by blast
qed


section \<open>The store interface and what a written directory means\<close>

definition extends :: "'s read_tree \<Rightarrow> 's \<Rightarrow> 's \<Rightarrow> bool" where
  "extends read s s' \<longleftrightarrow> (\<forall>i t. read s i = Inr t \<longrightarrow> read s' i = Inr t)"

lemma extends_refl [simp]: "extends read s s"
  by (simp add: extends_def)

lemma extends_trans: "extends read a b \<Longrightarrow> extends read b c \<Longrightarrow> extends read a c"
  by (simp add: extends_def)

lemma paged_extends: "paged read s i es \<Longrightarrow> extends read s s' \<Longrightarrow> paged read s' i es"
proof (induction rule: paged.induct)
  case (paged_leaf i es)
  then show ?case by (auto simp: extends_def intro: paged.paged_leaf)
next
  case (paged_branch i ps ess)
  have "list_all2 (\<lambda>p es. es \<noteq> [] \<and> tp_first_name p = te_name (hd es)
        \<and> tp_last_name p = te_name (last es) \<and> tp_entry_count p = length es
        \<and> paged read s' (tp_target p) es) ps ess"
    using paged_branch.IH by (rule list_all2_mono) (use paged_branch.prems in auto)
  with paged_branch.hyps paged_branch.prems show ?case
    by (auto simp: extends_def intro: paged.paged_branch)
qed

lemma page_repr_extends: "page_repr read s p es \<Longrightarrow> extends read s s' \<Longrightarrow> page_repr read s' p es"
  by (auto simp: page_repr_def intro: paged_extends)

lemma pages_repr_extends:
  "list_all2 (page_repr read s) ps ess \<Longrightarrow> extends read s s' \<Longrightarrow> list_all2 (page_repr read s') ps ess"
  by (erule list_all2_mono) (rule page_repr_extends)

text \<open>The builder's pages, read back, are the entries pushed so far, in order.\<close>

definition builder_repr :: "'s read_tree \<Rightarrow> 's \<Rightarrow> builder \<Rightarrow> tree_entry list \<Rightarrow> bool" where
  "builder_repr read s b done \<longleftrightarrow> names_sorted done \<and>
     (\<exists>ess. list_all2 (page_repr read s) (b_leaves b) ess \<and> done = concat ess @ b_page b)"

definition branch_repr :: "'s read_tree \<Rightarrow> 's \<Rightarrow> branch_state \<Rightarrow> tree_entry list \<Rightarrow> bool" where
  "branch_repr read s st es \<longleftrightarrow>
     (\<exists>xss yss. list_all2 (page_repr read s) (bs_output st) xss
        \<and> list_all2 (page_repr read s) (bs_branch st) yss \<and> es = concat xss @ concat yss)"

text \<open>
  \<open>tree_store\<close> is what \<open>tree.rs\<close> expects of the object store: an object that was put can be
  read back, and putting never changes what another id reads.
\<close>

locale tree_store =
  fixes put :: "'s put_tree" and read :: "'s read_tree" and inv :: "'s \<Rightarrow> bool"
  assumes put_inv: "inv s \<Longrightarrow> put s t = Inr (i, s') \<Longrightarrow> inv s'"
    and put_read: "inv s \<Longrightarrow> put s t = Inr (i, s') \<Longrightarrow> read s' i = Inr t"
    and put_extends: "inv s \<Longrightarrow> put s t = Inr (i, s') \<Longrightarrow> extends read s s'"
begin

lemma store_leaf_repr:
  assumes "inv s" and "store_leaf L put s es = Inr (p, s')"
  shows "inv s' \<and> extends read s s' \<and> page_repr read s' p es"
proof -
  from assms(2) obtain i where ne: "es \<noteq> []"
    and put: "put s \<lparr>tr_entries = es, tr_pages = []\<rparr> = Inr (i, s')"
    and p: "p = \<lparr>tp_first_name = te_name (hd es), tp_last_name = te_name (last es),
               tp_entry_count = length es, tp_target = i\<rparr>"
    by (auto simp: store_leaf_def Let_def split: if_splits)
  from put_read [OF assms(1) put] have "paged read s' i es" by (rule paged_leaf)
  with put_inv [OF assms(1) put] put_extends [OF assms(1) put] ne p show ?thesis
    by (simp add: page_repr_def)
qed

lemma store_branch_repr:
  assumes "inv s" and "list_all2 (page_repr read s) ps ess" and "store_branch L put s ps = Inr (p, s')"
  shows "inv s' \<and> extends read s s' \<and> page_repr read s' p (concat ess)"
proof -
  from assms(3) obtain i where ne: "ps \<noteq> []"
    and put: "put s \<lparr>tr_entries = [], tr_pages = ps\<rparr> = Inr (i, s')"
    and p: "p = \<lparr>tp_first_name = tp_first_name (hd ps), tp_last_name = tp_last_name (last ps),
               tp_entry_count = sum_list (map tp_entry_count ps), tp_target = i\<rparr>"
    by (auto simp: store_branch_def Let_def split: if_splits)
  note ext = put_extends [OF assms(1) put]
  from assms(2) ext have ps: "list_all2 (page_repr read s') ps ess" by (rule pages_repr_extends)
  then have paged: "paged read s' i (concat ess)"
    using put_read [OF assms(1) put] ne
    by (auto simp: page_repr_def [abs_def] intro: paged_branch)
  have count: "sum_list (map tp_entry_count ps) = length (concat ess)"
    using ps by (induction rule: list_all2_induct) (auto simp: page_repr_def)
  obtain p0 ps' e0 ess' where "ps = p0 # ps'" "ess = e0 # ess'" "page_repr read s' p0 e0"
    using ne ps by (cases ps; cases ess) auto
  then have first: "tp_first_name (hd ps) = te_name (hd (concat ess))" "concat ess \<noteq> []"
    by (auto simp: page_repr_def)
  have last: "tp_last_name (last ps) = te_name (last (concat ess))"
  proof -
    from list_all2_last [OF ps ne] have "page_repr read s' (last ps) (last ess)" and "ess \<noteq> []"
      by auto
    then show ?thesis by (auto simp: page_repr_def last_concat)
  qed
  show ?thesis
    using put_inv [OF assms(1) put] ext paged count first last p by (simp add: page_repr_def)
qed

lemma flush_leaf_repr:
  assumes "inv s" and "builder_repr read s b done" and "flush_leaf L put s b = Inr (b', s')"
  shows "inv s' \<and> extends read s s' \<and> builder_repr read s' b' done \<and> b_page b' = []"
proof -
  from assms(3) obtain p where leaf: "store_leaf L put s (b_page b) = Inr (p, s')"
    and b': "b_page b' = []" "b_leaves b' = b_leaves b @ [p]"
    by (auto simp: flush_leaf_def)
  note r = store_leaf_repr [OF assms(1) leaf]
  from assms(2) obtain ess where ess: "list_all2 (page_repr read s) (b_leaves b) ess"
    "done = concat ess @ b_page b" "names_sorted done"
    by (auto simp: builder_repr_def)
  from ess(1) r have "list_all2 (page_repr read s') (b_leaves b @ [p]) (ess @ [b_page b])"
    by (auto intro: list_all2_appendI pages_repr_extends)
  with r ess(2,3) b' show ?thesis
    by (auto simp: builder_repr_def intro!: exI [of _ "ess @ [b_page b]"])
qed

lemma push_ordered_sorted:
  assumes "builder_repr read s b done" and "push_ordered b e"
  shows "names_sorted (done @ [e])"
proof (cases "done = []")
  case False
  from assms(1) obtain ess where ess: "list_all2 (page_repr read s) (b_leaves b) ess"
    and d: "done = concat ess @ b_page b" "names_sorted done"
    by (auto simp: builder_repr_def)
  have "te_name (last done) < te_name e"
  proof (cases "b_page b = []")
    case True
    with False d ess have ne: "b_leaves b \<noteq> []" by auto
    with list_all2_last [OF ess] have "ess \<noteq> []" "page_repr read s (last (b_leaves b)) (last ess)"
      by auto
    then show ?thesis
      using assms(2) True d ne by (auto simp: push_ordered_def page_repr_def last_concat)
  qed (use assms(2) d in \<open>auto simp: push_ordered_def\<close>)
  with d(2) names_sorted_le_last [OF d(2)] show ?thesis by (auto intro: le_less_trans)
qed simp

lemma builder_push_repr:
  assumes "inv s" and "builder_repr read s b done" and "builder_push L put s b e = Inr (b', s')"
  shows "inv s' \<and> extends read s s' \<and> builder_repr read s' b' (done @ [e])"
proof -
  from assms(3) obtain b1 where ord: "push_ordered b e"
    and room: "page_room L put s b (length (json_entry L e)) = Inr (b1, s')"
    and b': "b_page b' = b_page b1 @ [e]" "b_leaves b' = b_leaves b1"
    by (auto simp: builder_push_def split: if_splits)
  have b1: "inv s' \<and> extends read s s' \<and> builder_repr read s' b1 done"
  proof (cases "flush_leaf L put s b = Inr (b1, s')")
    case True
    then show ?thesis using flush_leaf_repr [OF assms(1,2)] by blast
  next
    case False
    with room assms(1,2) show ?thesis by (simp add: page_room_def split: if_splits)
  qed
  then show ?thesis
    using push_ordered_sorted [OF assms(2) ord] b' by (auto simp: builder_repr_def)
qed

lemma builder_pushes_repr:
  assumes "inv s" and "builder_repr read s b done"
    and "rfold (\<lambda>(b, s) e. builder_push L put s b e) (b, s) es = Inr (b', s')"
  shows "inv s' \<and> extends read s s' \<and> builder_repr read s' b' (done @ es)"
  using assms
proof (induction es arbitrary: b s "done")
  case (Cons e es)
  from Cons.prems(3) obtain b1 s1 where one: "builder_push L put s b e = Inr (b1, s1)"
    and rest: "rfold (\<lambda>(b, s) e. builder_push L put s b e) (b1, s1) es = Inr (b', s')"
    by (auto split: prod.splits)
  from builder_push_repr [OF Cons.prems(1,2) one]
  have r: "inv s1" "extends read s s1" "builder_repr read s1 b1 (done @ [e])" by auto
  from Cons.IH [OF r(1,3) rest] r(2) show ?case by (auto intro: extends_trans)
qed auto

lemma branch_room_repr:
  assumes "inv s" and "branch_repr read s st es" and "branch_room L put s st n = Inr (st', s')"
  shows "inv s' \<and> extends read s s' \<and> branch_repr read s' st' es"
proof (cases "bs_encoded st + separator (bs_branch st) + n > TARGET_TREE_PAGE_BYTES
    \<and> bs_branch st \<noteq> []")
  case True
  with assms(3) obtain p where p: "store_branch L put s (bs_branch st) = Inr (p, s')"
    and st': "st' = \<lparr>bs_output = bs_output st @ [p], bs_branch = [], bs_encoded = BRANCH_OVERHEAD\<rparr>"
    unfolding branch_room_def by (force simp only: if_True rbind_eq_Inr simp_thms split: prod.splits)
  from assms(2) obtain xss yss where st: "list_all2 (page_repr read s) (bs_output st) xss"
    "list_all2 (page_repr read s) (bs_branch st) yss" "es = concat xss @ concat yss"
    by (auto simp: branch_repr_def)
  from store_branch_repr [OF assms(1) st(2) p]
  have r: "inv s'" "extends read s s'" "page_repr read s' p (concat yss)" by auto
  have "list_all2 (page_repr read s') (bs_output st @ [p]) (xss @ [concat yss])"
    using pages_repr_extends [OF st(1) r(2)] r(3) by (auto intro: list_all2_appendI)
  then have "branch_repr read s' st' es"
    unfolding branch_repr_def st' st(3)
    by (intro exI [of _ "xss @ [concat yss]"] exI [of _ "[]"]) simp
  with r show ?thesis by simp
next
  case False
  with assms(3) have "st' = st \<and> s' = s"
    unfolding branch_room_def by (simp only: if_False) simp
  with assms(1,2) show ?thesis by simp
qed

lemma branch_push_repr:
  assumes "inv s" and "branch_repr read s st es" and "page_repr read s p xs"
    and "branch_push L put (st, s) p = Inr (st', s')"
  shows "inv s' \<and> extends read s s' \<and> branch_repr read s' st' (es @ xs)"
proof -
  from assms(4) obtain st1 where room: "branch_room L put s st (length (json_page L p)) = Inr (st1, s')"
    and st': "bs_output st' = bs_output st1" "bs_branch st' = bs_branch st1 @ [p]"
    by (auto simp: branch_push_def split: if_splits)
  from branch_room_repr [OF assms(1,2) room] obtain xss yss where
    r: "inv s'" "extends read s s'" "list_all2 (page_repr read s') (bs_output st1) xss"
      "list_all2 (page_repr read s') (bs_branch st1) yss" "es = concat xss @ concat yss"
    by (auto simp: branch_repr_def)
  have "list_all2 (page_repr read s') (bs_branch st1 @ [p]) (yss @ [xs])"
    using r(4) page_repr_extends [OF assms(3) r(2)] by (auto intro: list_all2_appendI)
  then have "branch_repr read s' st' (es @ xs)"
    unfolding branch_repr_def st' r(5)
    by (intro exI [of _ xss] exI [of _ "yss @ [xs]"]) (use r(3) in simp)
  with r show ?thesis by simp
qed

lemma write_branch_level_repr:
  assumes "inv s" and "list_all2 (page_repr read s) ps ess"
    and "write_branch_level L put s ps = Inr (qs, s')"
  shows "inv s' \<and> extends read s s' \<and>
     (\<exists>fss. list_all2 (page_repr read s') qs fss \<and> concat fss = concat ess)"
proof -
  have fold: "inv s2 \<and> extends read s1 s2 \<and> branch_repr read s2 st2 (es @ concat ess)"
    if "list_all2 (page_repr read s1) ps ess" "inv s1" "branch_repr read s1 st1 es"
      "rfold (branch_push L put) (st1, s1) ps = Inr (st2, s2)" for s1 st1 es st2 s2 ps ess
    using that
  proof (induction ps arbitrary: ess st1 s1 es)
    case (Cons p ps)
    obtain xs yss where ess: "ess = xs # yss" and p: "page_repr read s1 p xs"
      and ps: "list_all2 (page_repr read s1) ps yss"
      using Cons.prems(1) by (cases ess) auto
    from Cons.prems(4) obtain st3 s3 where one: "branch_push L put (st1, s1) p = Inr (st3, s3)"
      and rest: "rfold (branch_push L put) (st3, s3) ps = Inr (st2, s2)" by auto
    from branch_push_repr [OF Cons.prems(2,3) p one]
    have r: "inv s3" "extends read s1 s3" "branch_repr read s3 st3 (es @ xs)" by auto
    from Cons.IH [OF pages_repr_extends [OF ps r(2)] r(1,3) rest] r(2) ess show ?case
      by (auto intro: extends_trans)
  qed auto
  from assms(3) obtain st s1 where
    st: "rfold (branch_push L put) (\<lparr>bs_output = [], bs_branch = [], bs_encoded = BRANCH_OVERHEAD\<rparr>, s) ps
           = Inr (st, s1)"
    and fin: "(if bs_branch st \<noteq> [] then rbind (store_branch L put s1 (bs_branch st)) (\<lambda>(p, s''). Inr (bs_output st @ [p], s''))
              else Inr (bs_output st, s1)) = Inr (qs, s')"
    by (auto simp: write_branch_level_def)
  have "branch_repr read s \<lparr>bs_output = [], bs_branch = [], bs_encoded = BRANCH_OVERHEAD\<rparr> []"
    by (simp add: branch_repr_def)
  from fold [OF assms(2,1) this st] obtain xss yss where
    r: "inv s1" "extends read s s1" "list_all2 (page_repr read s1) (bs_output st) xss"
      "list_all2 (page_repr read s1) (bs_branch st) yss" "concat ess = concat xss @ concat yss"
    by (auto simp: branch_repr_def)
  show ?thesis
  proof (cases "bs_branch st = []")
    case True
    with fin r show ?thesis by auto
  next
    case False
    with fin obtain p where p: "store_branch L put s1 (bs_branch st) = Inr (p, s')"
      and qs: "qs = bs_output st @ [p]" by auto
    from store_branch_repr [OF r(1,4) p]
    have q: "inv s'" "extends read s1 s'" "page_repr read s' p (concat yss)" by auto
    have "list_all2 (page_repr read s') qs (xss @ [concat yss])"
      using pages_repr_extends [OF r(3) q(2)] q(3) qs by (auto intro: list_all2_appendI)
    then show ?thesis using q r(2,5)
      by (auto intro!: exI [of _ "xss @ [concat yss]"] intro: extends_trans)
  qed
qed

lemma finish_levels_repr:
  assumes "inv s" and "list_all2 (page_repr read s) ps ess"
    and "finish_levels L put n s ps = Inr (root, s')"
  shows "inv s' \<and> extends read s s' \<and> paged read s' root (concat ess)"
  using assms
proof (induction n arbitrary: s ps ess)
  case 0
  then obtain p where "ps = [p]" "root = tp_target p" "s' = s"
    by (cases ps) (auto simp: finish_levels.simps [of L put 0] split: if_splits list.splits)
  with 0 show ?case by (auto simp: list_all2_Cons1 page_repr_def)
next
  case (Suc n)
  show ?case
  proof (cases "length ps > 1")
    case True
    with Suc.prems(3) obtain qs s1 where level: "write_branch_level L put s ps = Inr (qs, s1)"
      and rest: "finish_levels L put n s1 qs = Inr (root, s')"
      by (auto simp: finish_levels.simps [of L put "Suc n"])
    from write_branch_level_repr [OF Suc.prems(1,2) level] obtain fss where
      r: "inv s1" "extends read s s1" "list_all2 (page_repr read s1) qs fss" "concat fss = concat ess"
      by blast
    from Suc.IH [OF r(1,3) rest] r(2,4) show ?thesis by (auto intro: extends_trans)
  next
    case False
    with Suc.prems(3) obtain p where "ps = [p]" "root = tp_target p" "s' = s"
      by (cases ps) (auto simp: finish_levels.simps [of L put "Suc n"] split: list.splits)
    with Suc.prems show ?thesis by (auto simp: list_all2_Cons1 page_repr_def)
  qed
qed

theorem write_tree_repr:
  assumes "inv s" and "write_tree L put n s es = Inr (root, s')"
  shows "inv s' \<and> extends read s s' \<and> paged read s' root es \<and> names_sorted es"
proof -
  from assms(2) obtain b s1 where
    pushes: "rfold (\<lambda>(b, s) e. builder_push L put s b e) (builder_new, s) es = Inr (b, s1)"
    and fin: "builder_finish L put n s1 b = Inr (root, s')"
    by (auto simp: write_tree_def)
  have "builder_repr read s builder_new []" by (simp add: builder_repr_def builder_new_def)
  from builder_pushes_repr [OF assms(1) this pushes]
  have r: "inv s1" "extends read s s1" "builder_repr read s1 b es" by auto
  from fin obtain b2 s2 where
    flush: "(if b_page b \<noteq> [] then flush_leaf L put s1 b else Inr (b, s1)) = Inr (b2, s2)"
    and rest: "(if b_leaves b2 = [] then put s2 \<lparr>tr_entries = [], tr_pages = []\<rparr>
       else if length (b_leaves b2) = 1 then Inr (tp_target (hd (b_leaves b2)), s2)
       else finish_levels L put n s2 (b_leaves b2)) = Inr (root, s')"
    by (auto simp: builder_finish_def split: prod.splits)
  have r2: "inv s2" "extends read s s2" "builder_repr read s2 b2 es" "b_page b2 = []"
    using flush flush_leaf_repr [OF r(1,3)] r by (auto split: if_splits intro: extends_trans)
  then obtain ess where ess: "list_all2 (page_repr read s2) (b_leaves b2) ess" "es = concat ess"
    "names_sorted es" by (auto simp: builder_repr_def)
  consider "b_leaves b2 = []" | p where "b_leaves b2 = [p]" | "length (b_leaves b2) > 1"
    by (cases "b_leaves b2" rule: list.exhaust; cases "tl (b_leaves b2)") auto
  then have "inv s' \<and> extends read s2 s' \<and> paged read s' root es"
  proof cases
    case 1
    with rest have put: "put s2 \<lparr>tr_entries = [], tr_pages = []\<rparr> = Inr (root, s')" by simp
    from 1 ess have "es = []" by simp
    with put_inv [OF r2(1) put] put_extends [OF r2(1) put] put_read [OF r2(1) put]
    show ?thesis by (auto intro: paged_leaf)
  next
    case (2 p)
    with rest ess r2(1) show ?thesis by (auto simp: list_all2_Cons1 page_repr_def)
  next
    case 3
    with rest have "finish_levels L put n s2 (b_leaves b2) = Inr (root, s')"
      by (auto split: if_splits)
    from finish_levels_repr [OF r2(1) ess(1) this] ess(2) show ?thesis by simp
  qed
  with r2(2) ess(3) show ?thesis by (auto intro: extends_trans)
qed

end

end
