(* ===== verification/Object_Map.thy ===== *)
theory Object_Map
  imports Tree_Pages
begin

text \<open>
  The object store as its clients see it: a partial map from object ids to a kind and bytes,
  with the checks of \<open>put_bytes\<close> and \<open>read_bytes\<close> (\<^verbatim>\<open>furrow-core/src/store.rs\<close>). Theory
  \<^verbatim>\<open>Pack_Store\<close> shows that the packs and the catalog implement it. The theory ends with the
  interpretation of the locale \<open>tree_store\<close> on this map and with a concrete instance of the
  third-party operations, on which closed examples are evaluated.
\<close>

type_synonym object_map = "object_id \<rightharpoonup> object_kind \<times> bytes"

definition MAX_OBJECT_LEN :: nat where "MAX_OBJECT_LEN = 256 * 1024 * 1024"

definition map_put :: "lib \<Rightarrow> object_map \<Rightarrow> object_kind \<Rightarrow> bytes \<Rightarrow> (object_id \<times> object_map) result" where
  "map_put L s kind bs =
     ensure (length bs \<le> MAX_OBJECT_LEN) ''object exceeds size limit''
     (let i = object_id L kind bs in
      case s i of
        Some _ \<Rightarrow> Inr (i, s)
      | None \<Rightarrow> Inr (i, s(i \<mapsto> (kind, bs))))"

definition map_read :: "lib \<Rightarrow> object_map \<Rightarrow> object_id \<Rightarrow> object_kind \<Rightarrow> bytes result" where
  "map_read L s i expected =
     rbind (of_opt ''missing object'' (s i)) (\<lambda>(kind, bs).
     ensure (kind = expected) ''object kind mismatch''
     (ensure (object_id L expected bs = i) ''object integrity check failed'' (Inr bs)))"

definition map_put_tree :: "lib \<Rightarrow> object_map put_tree" where
  "map_put_tree L s t = map_put L s Tree (json_tree L t)"

definition map_read_tree :: "lib \<Rightarrow> object_map read_tree" where
  "map_read_tree L s i = rbind (map_read L s i Tree) (\<lambda>bs. of_opt ''invalid tree'' (parse_tree L bs))"

text \<open>
  What the proofs below rely on: object ids identify their content (the collision resistance of
  BLAKE3, idealised) and JSON decoding inverts encoding.
\<close>

definition collision_free :: "lib \<Rightarrow> bool" where
  "collision_free L \<longleftrightarrow>
     (\<forall>k b k' b'. object_id L k b = object_id L k' b' \<longrightarrow> k = k' \<and> b = b')"

definition json_faithful :: "lib \<Rightarrow> bool" where
  "json_faithful L \<longleftrightarrow>
     (\<forall>t. parse_tree L (json_tree L t) = Some t)
     \<and> (\<forall>b. parse_blob L (json_blob L b) = Some b)
     \<and> (\<forall>s. parse_snapshot L (json_snapshot L s) = Some s)"

definition map_inv :: "lib \<Rightarrow> object_map \<Rightarrow> bool" where
  "map_inv L s \<longleftrightarrow> collision_free L \<and> json_faithful L
     \<and> (\<forall>i k b. s i = Some (k, b) \<longrightarrow> object_id L k b = i)"

lemma map_put_Inr:
  "map_put L s kind bs = Inr (i, s') \<longleftrightarrow>
     length bs \<le> MAX_OBJECT_LEN \<and> i = object_id L kind bs
     \<and> s' = (if s i = None then s(i \<mapsto> (kind, bs)) else s)"
  by (auto simp: map_put_def Let_def split: option.splits)

lemma map_read_Inr:
  "map_read L s i k = Inr bs \<longleftrightarrow> s i = Some (k, bs) \<and> object_id L k bs = i"
  by (auto simp: map_read_def split: if_splits)

lemma map_inv_put:
  assumes "map_inv L s" and "map_put L s k b = Inr (i, s')"
  shows "map_inv L s'"
  using assms by (auto simp: map_inv_def map_put_Inr)

lemma map_put_read:
  assumes "map_inv L s" and "map_put L s k b = Inr (i, s')"
  shows "map_read L s' i k = Inr b"
proof (cases "s i")
  case None
  with assms show ?thesis by (auto simp: map_put_Inr map_read_Inr)
next
  case (Some p)
  obtain k' b' where p: "p = (k', b')" by (cases p)
  with Some assms(1) have "object_id L k' b' = i" by (auto simp: map_inv_def)
  moreover have "object_id L k b = i" using assms(2) by (simp add: map_put_Inr)
  moreover have "collision_free L" using assms(1) by (simp add: map_inv_def)
  ultimately have "k' = k" "b' = b" unfolding collision_free_def by metis+
  with assms(2) Some p show ?thesis by (auto simp: map_put_Inr map_read_Inr)
qed

lemma map_put_keeps:
  assumes "map_put L s k b = Inr (i, s')" and "map_read L s j k' = Inr c"
  shows "map_read L s' j k' = Inr c"
  using assms by (auto simp: map_put_Inr map_read_Inr)

interpretation om: tree_store "map_put_tree L" "map_read_tree L" "map_inv L" for L
proof
  fix s t i s' assume inv: "map_inv L s" and put: "map_put_tree L s t = Inr (i, s')"
  from put have put': "map_put L s Tree (json_tree L t) = Inr (i, s')" by (simp add: map_put_tree_def)
  show "map_inv L s'" by (rule map_inv_put [OF inv put'])
  show "map_read_tree L s' i = Inr t"
    using map_put_read [OF inv put'] inv
    by (simp add: map_read_tree_def map_inv_def json_faithful_def)
  show "extends (map_read_tree L) s s'"
    using map_put_keeps [OF put'] by (auto simp: extends_def map_read_tree_def)
qed

section \<open>A concrete instance of the third-party operations\<close>

text \<open>
  A self-delimiting encoding for every structure: natural numbers in unary, byte strings and
  lists with their length first. Every codec decodes its own encoding in front of any suffix.
\<close>

record 'a codec =
  enc :: "'a \<Rightarrow> bytes"
  dec :: "bytes \<Rightarrow> ('a \<times> bytes) option"

definition codec_ok :: "'a codec \<Rightarrow> bool" where
  "codec_ok c \<longleftrightarrow> (\<forall>x r. dec c (enc c x @ r) = Some (x, r))"

fun dec_nat :: "bytes \<Rightarrow> (nat \<times> bytes) option" where
  "dec_nat [] = None"
| "dec_nat (c # cs) =
     (if c = CHR ''1'' then map_option (\<lambda>(n, r). (Suc n, r)) (dec_nat cs) else Some (0, cs))"

definition c_nat :: "nat codec" where
  "c_nat = \<lparr>enc = \<lambda>n. replicate n (CHR ''1'') @ ''0'', dec = dec_nat\<rparr>"

definition c_bytes :: "bytes codec" where
  "c_bytes = \<lparr>enc = \<lambda>b. enc c_nat (length b) @ b,
     dec = \<lambda>bs. Option.bind (dec c_nat bs) (\<lambda>(n, r). read_exact n r)\<rparr>"

definition c_pair :: "'a codec \<Rightarrow> 'b codec \<Rightarrow> ('a \<times> 'b) codec" where
  "c_pair a b = \<lparr>enc = \<lambda>(x, y). enc a x @ enc b y,
     dec = \<lambda>bs. Option.bind (dec a bs) (\<lambda>(x, r). map_option (\<lambda>(y, r'). ((x, y), r')) (dec b r))\<rparr>"

fun dec_list :: "(bytes \<Rightarrow> ('a \<times> bytes) option) \<Rightarrow> nat \<Rightarrow> bytes \<Rightarrow> ('a list \<times> bytes) option" where
  "dec_list d 0 bs = Some ([], bs)"
| "dec_list d (Suc n) bs =
     Option.bind (d bs) (\<lambda>(x, r). map_option (\<lambda>(xs, r'). (x # xs, r')) (dec_list d n r))"

definition c_list :: "'a codec \<Rightarrow> 'a list codec" where
  "c_list a = \<lparr>enc = \<lambda>xs. enc c_nat (length xs) @ concat (map (enc a) xs),
     dec = \<lambda>bs. Option.bind (dec c_nat bs) (\<lambda>(n, r). dec_list (dec a) n r)\<rparr>"

definition c_iso :: "('b \<Rightarrow> 'a) \<Rightarrow> ('a \<Rightarrow> 'b) \<Rightarrow> 'a codec \<Rightarrow> 'b codec" where
  "c_iso f g a = \<lparr>enc = \<lambda>x. enc a (f x), dec = \<lambda>bs. map_option (\<lambda>(y, r). (g y, r)) (dec a bs)\<rparr>"

lemma codec_nat [intro]: "codec_ok c_nat"
proof -
  have "dec_nat (replicate n (CHR ''1'') @ CHR ''0'' # r) = Some (n, r)" for n r
    by (induction n) auto
  then show ?thesis by (simp add: codec_ok_def c_nat_def)
qed

lemma codec_bytes [intro]: "codec_ok c_bytes"
  using codec_nat by (simp add: codec_ok_def c_bytes_def)

lemma codec_pair [intro]: "codec_ok a \<Longrightarrow> codec_ok b \<Longrightarrow> codec_ok (c_pair a b)"
  by (auto simp: codec_ok_def c_pair_def)

lemma codec_list [intro]:
  assumes "codec_ok a"
  shows "codec_ok (c_list a)"
proof -
  have "dec_list (dec a) (length xs) (concat (map (enc a) xs) @ r) = Some (xs, r)" for xs r
    using assms by (induction xs) (auto simp: codec_ok_def)
  then show ?thesis using codec_nat by (simp add: codec_ok_def c_list_def)
qed

lemma codec_iso: "codec_ok a \<Longrightarrow> (\<And>x. g (f x) = x) \<Longrightarrow> codec_ok (c_iso f g a)"
  by (auto simp: codec_ok_def c_iso_def)

definition c_option :: "'a codec \<Rightarrow> 'a option codec" where
  "c_option a = c_iso (\<lambda>x. case x of None \<Rightarrow> [] | Some y \<Rightarrow> [y])
     (\<lambda>xs. case xs of [] \<Rightarrow> None | y # _ \<Rightarrow> Some y) (c_list a)"

lemma codec_option [intro]: "codec_ok a \<Longrightarrow> codec_ok (c_option a)"
  unfolding c_option_def by (rule codec_iso) (auto split: option.split)

definition c_word :: "'w::len word codec" where
  "c_word = c_iso unat of_nat c_nat"

lemma codec_word [intro]: "codec_ok c_word"
  unfolding c_word_def by (rule codec_iso) auto

definition c_int :: "int codec" where
  "c_int = c_iso (\<lambda>i. (nat i, nat (- i))) (\<lambda>(a, b). int a - int b) (c_pair c_nat c_nat)"

lemma codec_int [intro]: "codec_ok c_int"
  unfolding c_int_def by (rule codec_iso) auto

definition c_enum :: "'a list \<Rightarrow> 'a codec" where
  "c_enum xs = c_iso (\<lambda>x. length (takeWhile (\<lambda>y. y \<noteq> x) xs)) (\<lambda>n. xs ! n) c_nat"

lemma codec_enum [intro]:
  assumes "\<And>x. x \<in> set xs"
  shows "codec_ok (c_enum xs)"
  unfolding c_enum_def
proof (rule codec_iso)
  show "xs ! length (takeWhile (\<lambda>y. y \<noteq> x) xs) = x" for x
    using assms [of x] nth_length_takeWhile [of "\<lambda>y. y \<noteq> x" xs]
    by (metis (mono_tags, lifting) length_takeWhile_le nat_neq_iff not_le takeWhile_eq_all_conv
        length_takeWhile_le le_neq_implies_less takeWhile_eq_take take_all_iff)
qed auto

definition c_entry :: "tree_entry codec" where
  "c_entry = c_iso
     (\<lambda>e. (te_name e, te_kind e, te_target e, te_link_target e, te_mode e, te_size e,
           te_mtime_secs e, te_mtime_nanos e, te_xattrs e, te_class e))
     (\<lambda>(n, k, t, l, m, z, s, ns, x, c). \<lparr>te_name = n, te_kind = k, te_target = t,
        te_link_target = l, te_mode = m, te_size = z, te_mtime_secs = s, te_mtime_nanos = ns,
        te_xattrs = x, te_class = c\<rparr>)
     (c_pair c_bytes (c_pair (c_enum [File, Directory, Symlink, Fifo, SocketMarker])
       (c_pair (c_option c_bytes) (c_pair c_bytes (c_pair c_word (c_pair c_word (c_pair c_int
       (c_pair c_word (c_pair (c_option c_bytes) (c_enum all_classes))))))))))"

lemma entry_kind_listed: "k \<in> set [File, Directory, Symlink, Fifo, SocketMarker]"
  by (cases k) simp_all

lemma codec_entry [intro]: "codec_ok c_entry"
  unfolding c_entry_def
  by (rule codec_iso)
    (auto intro!: codec_pair codec_enum codec_bytes codec_option codec_word codec_int
      entry_kind_listed all_classes_complete)

definition c_page :: "tree_page codec" where
  "c_page = c_iso (\<lambda>p. (tp_first_name p, tp_last_name p, tp_entry_count p, tp_target p))
     (\<lambda>(f, l, n, t). \<lparr>tp_first_name = f, tp_last_name = l, tp_entry_count = n, tp_target = t\<rparr>)
     (c_pair c_bytes (c_pair c_bytes (c_pair c_nat c_bytes)))"

lemma codec_page [intro]: "codec_ok c_page"
  unfolding c_page_def by (rule codec_iso) (auto intro!: codec_pair)

definition c_tree :: "tree codec" where
  "c_tree = c_iso (\<lambda>t. (tr_entries t, tr_pages t)) (\<lambda>(e, p). \<lparr>tr_entries = e, tr_pages = p\<rparr>)
     (c_pair (c_list c_entry) (c_list c_page))"

lemma codec_tree [intro]: "codec_ok c_tree"
  unfolding c_tree_def by (rule codec_iso) (auto intro!: codec_pair codec_list)

definition c_chunk_ref :: "chunk_ref codec" where
  "c_chunk_ref = c_iso (\<lambda>c. (cr_id c, cr_len c)) (\<lambda>(i, l). \<lparr>cr_id = i, cr_len = l\<rparr>)
     (c_pair c_bytes c_word)"

lemma codec_chunk_ref [intro]: "codec_ok c_chunk_ref"
  unfolding c_chunk_ref_def by (rule codec_iso) (auto intro!: codec_pair)

definition c_blob :: "blob codec" where
  "c_blob = c_iso (\<lambda>b. (bl_chunks b, bl_total_len b))
     (\<lambda>(cs, n). \<lparr>bl_chunks = cs, bl_total_len = n\<rparr>) (c_pair (c_list c_chunk_ref) c_word)"

lemma codec_blob [intro]: "codec_ok c_blob"
  unfolding c_blob_def by (rule codec_iso) (auto intro!: codec_pair codec_list)

definition c_trigger :: "snapshot_trigger codec" where
  "c_trigger = c_enum [Initial, Manual, Watcher, PreRewind, ForkBase, AgentRun, MergeSource,
     PreMerge, Merge, SyncLocal, SyncPush, SyncPull, Inspection, Claim, Release, Coord]"

lemma codec_trigger [intro]: "codec_ok c_trigger"
  unfolding c_trigger_def
proof (rule codec_enum)
  show "x \<in> set [Initial, Manual, Watcher, PreRewind, ForkBase, AgentRun, MergeSource,
     PreMerge, Merge, SyncLocal, SyncPush, SyncPull, Inspection, Claim, Release, Coord]" for x
    by (cases x) simp_all
qed

definition c_claim :: "claim_record codec" where
  "c_claim = c_iso
     (\<lambda>c. (cl_id c, cl_pattern c, cl_owner c, cl_workspace_id c, cl_created_at c, cl_expires_at c))
     (\<lambda>(i, p, w, k, a, b). \<lparr>cl_id = i, cl_pattern = p, cl_owner = w, cl_workspace_id = k,
        cl_created_at = a, cl_expires_at = b\<rparr>)
     (c_pair c_bytes (c_pair c_bytes (c_pair c_bytes (c_pair c_bytes (c_pair c_int c_int)))))"

lemma codec_claim [intro]: "codec_ok c_claim"
  unfolding c_claim_def by (rule codec_iso) (auto intro!: codec_pair)

definition c_backup :: "sqlite_backup codec" where
  "c_backup = c_iso (\<lambda>b. (sb_path b, sb_blob b, sb_integrity_ok b))
     (\<lambda>(p, b, ok). \<lparr>sb_path = p, sb_blob = b, sb_integrity_ok = ok\<rparr>)
     (c_pair c_bytes (c_pair c_bytes (c_enum [True, False])))"

lemma codec_backup [intro]: "codec_ok c_backup"
  unfolding c_backup_def by (rule codec_iso) (auto intro!: codec_pair codec_enum)

definition c_link_group :: "link_group codec" where
  "c_link_group = c_iso lg_paths (\<lambda>ps. \<lparr>lg_paths = ps\<rparr>) (c_list c_bytes)"

lemma codec_link_group [intro]: "codec_ok c_link_group"
  unfolding c_link_group_def by (rule codec_iso) (auto intro!: codec_list)

definition c_ignored :: "ignored_summary codec" where
  "c_ignored = c_iso (\<lambda>g. (ig_paths g, ig_more g)) (\<lambda>(ps, k). \<lparr>ig_paths = ps, ig_more = k\<rparr>)
     (c_pair (c_list c_bytes) c_nat)"

lemma codec_ignored [intro]: "codec_ok c_ignored"
  unfolding c_ignored_def by (rule codec_iso) (auto intro!: codec_pair codec_list)

definition c_snapshot :: "snapshot codec" where
  "c_snapshot = c_iso
     (\<lambda>s. (sn_root_tree s, sn_parent s, sn_merge_parents s, sn_sealed_at_secs s,
            sn_sealed_at_nanos s, sn_quality s, sn_trigger s, sn_label s,
            sn_sqlite_backups s, sn_claims s, sn_excluded_paths s, sn_hardlinks s, sn_ignored s))
     (\<lambda>(r, p, m, a, n, q, t, l, b, c, e, h, g).
        \<lparr>sn_root_tree = r, sn_parent = p, sn_merge_parents = m, sn_sealed_at_secs = a,
         sn_sealed_at_nanos = n, sn_quality = q, sn_trigger = t, sn_label = l,
         sn_sqlite_backups = b, sn_claims = c, sn_excluded_paths = e, sn_hardlinks = h,
         sn_ignored = g\<rparr>)
     (c_pair c_bytes (c_pair (c_option c_bytes) (c_pair (c_list c_bytes) (c_pair c_int
        (c_pair c_word (c_pair (c_enum [Quiescent, Turbulent]) (c_pair c_trigger
        (c_pair (c_option c_bytes) (c_pair (c_list c_backup) (c_pair (c_list c_claim)
        (c_pair (c_list c_bytes) (c_pair (c_list c_link_group) (c_option c_ignored)))))))))))))"

lemma seal_quality_listed: "q \<in> set [Quiescent, Turbulent]"
  by (cases q) simp_all

lemma codec_snapshot [intro]: "codec_ok c_snapshot"
  unfolding c_snapshot_def
  by (rule codec_iso)
    (auto intro!: codec_pair codec_list codec_option codec_enum seal_quality_listed)

text \<open>
  The identity as hash is free of collisions because the domain strings are prefix free.
\<close>

definition sample_lib :: lib where
  "sample_lib = \<lparr>blake3 = (\<lambda>b. b), json_entry = enc c_entry, json_page = enc c_page,
     json_tree = enc c_tree, parse_tree = (\<lambda>b. map_option fst (dec c_tree b)),
     json_blob = enc c_blob, parse_blob = (\<lambda>b. map_option fst (dec c_blob b)),
     json_snapshot = enc c_snapshot, parse_snapshot = (\<lambda>b. map_option fst (dec c_snapshot b))\<rparr>"

lemma codec_round_trip: "codec_ok c \<Longrightarrow> map_option fst (dec c (enc c x)) = Some x"
  unfolding codec_ok_def by (metis append_Nil2 fst_conv option.simps(9))

lemma sample_lib_collision_free: "collision_free sample_lib"
  by (auto simp: collision_free_def object_id_def sample_lib_def dest: kind_domain_prefix_free)

lemma sample_lib_json: "json_faithful sample_lib"
  by (simp add: json_faithful_def sample_lib_def codec_round_trip codec_tree codec_blob codec_snapshot)

lemma map_inv_empty: "map_inv sample_lib Map.empty"
  by (simp add: map_inv_def sample_lib_collision_free sample_lib_json)

end
