(* ===== verification/Tree_Theorems.thy ===== *)
theory Tree_Theorems
  imports Object_Map
begin

text \<open>
  The properties of \<^verbatim>\<open>tree.rs\<close> over the store: what a written directory lists, finds and
  compares to, that earlier objects are kept, and when building the branch levels ends.
\<close>

section \<open>Ending of the branch levels\<close>

definition names_of :: "tree_page list \<Rightarrow> bytes set" where
  "names_of ps = tp_first_name ` set ps \<union> tp_last_name ` set ps"

lemma names_of_append: "names_of (xs @ ys) = names_of xs \<union> names_of ys"
  by (auto simp: names_of_def)

text \<open>Any two page references over these names fit one branch together.\<close>

definition pages_fit :: "lib \<Rightarrow> bytes set \<Rightarrow> bool" where
  "pages_fit L names \<longleftrightarrow>
     (\<forall>p. tp_first_name p \<in> names \<and> tp_last_name p \<in> names \<longrightarrow> length (json_page L p) \<le> 2041)"

definition branch_shape :: "lib \<Rightarrow> nat \<Rightarrow> branch_state \<Rightarrow> bool" where
  "branch_shape L k st \<longleftrightarrow>
     2 * length (bs_output st) + length (bs_branch st) \<le> k
     \<and> (0 < k \<longrightarrow> bs_branch st \<noteq> [])
     \<and> (\<forall>p. bs_branch st = [p] \<longrightarrow> bs_encoded st = BRANCH_OVERHEAD + length (json_page L p))
     \<and> (bs_branch st = [] \<longrightarrow> bs_encoded st = BRANCH_OVERHEAD)"

lemma store_branch_names:
  assumes "store_branch L put s ps = Inr (p, s')"
  shows "ps \<noteq> [] \<and> tp_first_name p = tp_first_name (hd ps) \<and> tp_last_name p = tp_last_name (last ps)"
  using assms by (auto simp: store_branch_def Let_def split: if_splits)

lemma branch_room_flush:
  assumes "branch_room L put s st n = Inr (st', s')"
  shows "(st' = st \<and> s' = s \<and> \<not> (TARGET_TREE_PAGE_BYTES < bs_encoded st + separator (bs_branch st) + n
            \<and> bs_branch st \<noteq> [])) \<or>
    (\<exists>p. TARGET_TREE_PAGE_BYTES < bs_encoded st + separator (bs_branch st) + n \<and> bs_branch st \<noteq> []
       \<and> store_branch L put s (bs_branch st) = Inr (p, s')
       \<and> st' = \<lparr>bs_output = bs_output st @ [p], bs_branch = [], bs_encoded = BRANCH_OVERHEAD\<rparr>)"
proof (cases "TARGET_TREE_PAGE_BYTES < bs_encoded st + separator (bs_branch st) + n \<and> bs_branch st \<noteq> []")
  case True
  with assms show ?thesis
    unfolding branch_room_def by (force simp only: if_True rbind_eq_Inr simp_thms split: prod.splits)
next
  case False
  with assms show ?thesis unfolding branch_room_def by (simp only: if_False) simp
qed

lemma branch_push_cases:
  assumes "branch_push L put (st, s) p = Inr (st', s')"
  obtains (keep) "s' = s" "bs_output st' = bs_output st" "bs_branch st' = bs_branch st @ [p]"
      "bs_encoded st' = bs_encoded st + (separator (bs_branch st) + length (json_page L p))"
  | (flush) q where "bs_branch st \<noteq> []"
      "TARGET_TREE_PAGE_BYTES < bs_encoded st + separator (bs_branch st) + length (json_page L p)"
      "store_branch L put s (bs_branch st) = Inr (q, s')"
      "bs_output st' = bs_output st @ [q]" "bs_branch st' = [p]"
      "bs_encoded st' = BRANCH_OVERHEAD + length (json_page L p)"
proof -
  from assms obtain st1 where room: "branch_room L put s st (length (json_page L p)) = Inr (st1, s')"
    and st': "st' = \<lparr>bs_output = bs_output st1, bs_branch = bs_branch st1 @ [p],
            bs_encoded = bs_encoded st1 + (separator (bs_branch st1) + length (json_page L p))\<rparr>"
    by (auto simp: branch_push_def split: if_splits)
  from branch_room_flush [OF room] show thesis
  proof (elim disjE exE conjE)
    assume "st1 = st" "s' = s"
    with st' show thesis by (intro keep) simp_all
  next
    fix q assume "st1 = \<lparr>bs_output = bs_output st @ [q], bs_branch = [], bs_encoded = BRANCH_OVERHEAD\<rparr>"
      "store_branch L put s (bs_branch st) = Inr (q, s')" "bs_branch st \<noteq> []"
      "TARGET_TREE_PAGE_BYTES < bs_encoded st + separator (bs_branch st) + length (json_page L p)"
    with st' show thesis by (intro flush) (simp_all add: separator_def)
  qed
qed

lemma branch_push_shape:
  assumes "branch_shape L k st" and "branch_push L put (st, s) p = Inr (st', s')"
    and "pages_fit L names" and "names_of (p # bs_branch st) \<subseteq> names"
  shows "branch_shape L (Suc k) st'"
  using assms(2)
proof (cases rule: branch_push_cases)
  case keep
  with assms(1) show ?thesis
    by (cases "bs_branch st") (auto simp: branch_shape_def separator_def)
next
  case (flush q)
  have "length (bs_branch st) \<noteq> 1"
  proof
    assume "length (bs_branch st) = 1"
    then obtain r where r: "bs_branch st = [r]" by (cases "bs_branch st") auto
    with assms(3,4) have "length (json_page L r) \<le> 2041" "length (json_page L p) \<le> 2041"
      by (auto simp: pages_fit_def names_of_def)
    with flush(2) r assms(1) show False
      by (auto simp: branch_shape_def separator_def page_constants)
  qed
  moreover from flush(1) have "0 < length (bs_branch st)" by simp
  ultimately have "2 \<le> length (bs_branch st)" by linarith
  with flush assms(1) show ?thesis by (auto simp: branch_shape_def)
qed

lemma branch_push_names:
  assumes "branch_push L put (st, s) p = Inr (st', s')"
  shows "names_of (bs_output st' @ bs_branch st') \<subseteq> names_of (bs_output st @ bs_branch st @ [p])"
  using assms
proof (cases rule: branch_push_cases)
  case keep
  then show ?thesis by (auto simp: names_of_def)
next
  case (flush q)
  with store_branch_names [OF flush(3)] show ?thesis
    by (auto simp: names_of_def intro: hd_in_set last_in_set)
qed

lemma branch_pushes_shape:
  assumes "rfold (branch_push L put) (st, s) ps = Inr (st', s')" and "branch_shape L k st"
    and "pages_fit L names" and "names_of (bs_output st @ bs_branch st @ ps) \<subseteq> names"
  shows "branch_shape L (k + length ps) st' \<and> names_of (bs_output st' @ bs_branch st') \<subseteq> names"
  using assms
proof (induction ps arbitrary: st s k)
  case (Cons p ps)
  from Cons.prems(1) obtain st1 s1 where one: "branch_push L put (st, s) p = Inr (st1, s1)"
    and rest: "rfold (branch_push L put) (st1, s1) ps = Inr (st', s')" by auto
  have "branch_shape L (Suc k) st1"
    by (rule branch_push_shape [OF Cons.prems(2) one Cons.prems(3)])
      (use Cons.prems(4) in \<open>auto simp: names_of_def\<close>)
  moreover have "names_of (bs_output st1 @ bs_branch st1 @ ps) \<subseteq> names"
    using branch_push_names [OF one] Cons.prems(4)
    using names_of_append [of "[p]" ps] unfolding names_of_append append_Cons append_Nil by blast
  ultimately show ?case using Cons.IH [OF rest _ Cons.prems(3)] by fastforce
qed (auto simp: names_of_def)

lemma write_branch_level_shrinks:
  assumes "write_branch_level L put s ps = Inr (qs, s')" and "1 < length ps"
    and "pages_fit L names" and "names_of ps \<subseteq> names"
  shows "length qs < length ps \<and> qs \<noteq> [] \<and> names_of qs \<subseteq> names"
proof -
  from assms(1) obtain st s1 where
    st: "rfold (branch_push L put) (\<lparr>bs_output = [], bs_branch = [], bs_encoded = BRANCH_OVERHEAD\<rparr>, s) ps
           = Inr (st, s1)"
    and fin: "(if bs_branch st \<noteq> [] then rbind (store_branch L put s1 (bs_branch st)) (\<lambda>(p, s''). Inr (bs_output st @ [p], s''))
              else Inr (bs_output st, s1)) = Inr (qs, s')"
    by (auto simp: write_branch_level_def)
  from branch_pushes_shape [OF st, of 0 names] assms(3,4)
  have r: "branch_shape L (length ps) st" "names_of (bs_output st @ bs_branch st) \<subseteq> names"
    by (auto simp: branch_shape_def)
  have "0 < length ps" using assms(2) by linarith
  with r(1) have ne: "bs_branch st \<noteq> []" unfolding branch_shape_def by blast
  with fin obtain p where p: "store_branch L put s1 (bs_branch st) = Inr (p, s')"
    and qs: "qs = bs_output st @ [p]" by auto
  have "length (bs_branch st) > 0" using ne by simp
  moreover have "2 * length (bs_output st) + length (bs_branch st) \<le> length ps"
    using r(1) by (simp add: branch_shape_def)
  moreover have "length qs = Suc (length (bs_output st))" using qs by simp
  ultimately have "length qs < length ps" using assms(2) by linarith
  with qs r(2) ne store_branch_names [OF p] show ?thesis
    by (auto simp: names_of_def intro: hd_in_set last_in_set)
qed

definition never_out_of_fuel :: "'s put_tree \<Rightarrow> bool" where
  "never_out_of_fuel put \<longleftrightarrow> (\<forall>s t. put s t \<noteq> Inl OutOfFuel)"

lemma store_branch_fuel: "never_out_of_fuel put \<Longrightarrow> store_branch L put s ps \<noteq> Inl OutOfFuel"
  by (cases "put s \<lparr>tr_entries = [], tr_pages = ps\<rparr>")
    (auto simp: store_branch_def Let_def never_out_of_fuel_def)

lemma store_leaf_fuel: "never_out_of_fuel put \<Longrightarrow> store_leaf L put s es \<noteq> Inl OutOfFuel"
  by (cases "put s \<lparr>tr_entries = es, tr_pages = []\<rparr>")
    (auto simp: store_leaf_def Let_def never_out_of_fuel_def)

lemma rfold_fuel:
  "(\<And>s x. f s x \<noteq> Inl OutOfFuel) \<Longrightarrow> rfold f s xs \<noteq> Inl OutOfFuel"
  by (induction xs arbitrary: s) (auto simp: result_simps)

lemma branch_room_fuel: "never_out_of_fuel put \<Longrightarrow> branch_room L put s st n \<noteq> Inl OutOfFuel"
  using store_branch_fuel [of put L s "bs_branch st"]
  by (auto simp: branch_room_def result_simps split: if_splits)

lemma branch_push_fuel: "never_out_of_fuel put \<Longrightarrow> branch_push L put x p \<noteq> Inl OutOfFuel"
  by (cases x) (auto simp: branch_push_def result_simps branch_room_fuel split: if_splits)

lemma write_branch_level_fuel:
  assumes "never_out_of_fuel put"
  shows "write_branch_level L put s ps \<noteq> Inl OutOfFuel"
  using rfold_fuel [of "branch_push L put", OF branch_push_fuel [OF assms]]
    store_branch_fuel [OF assms]
  by (auto simp: write_branch_level_def result_simps split: if_splits)

lemma finish_levels_fuel:
  assumes "never_out_of_fuel put" and "pages_fit L names" and "names_of ps \<subseteq> names"
    and "length ps \<le> Suc n"
  shows "finish_levels L put n s ps \<noteq> Inl OutOfFuel"
  using assms(3,4)
proof (induction n arbitrary: s ps)
  case 0
  then show ?case by (subst finish_levels.simps) (auto split: list.split)
next
  case (Suc n)
  show ?case
  proof (cases "1 < length ps")
    case True
    show ?thesis
    proof (cases "write_branch_level L put s ps")
      case (Inl e)
      with write_branch_level_fuel [OF assms(1), of L s ps] True show ?thesis
        by (subst finish_levels.simps) simp
    next
      case (Inr x)
      obtain qs s' where x: "x = (qs, s')" by (cases x)
      from write_branch_level_shrinks [OF Inr [unfolded x] True assms(2) Suc.prems(1)]
      have "length qs < length ps" "names_of qs \<subseteq> names" by auto
      with Suc.IH [of qs s'] Suc.prems(2) Inr x True show ?thesis
        by (subst finish_levels.simps) simp
    qed
  next
    case False
    then show ?thesis by (subst finish_levels.simps) (auto split: list.split)
  qed
qed

text \<open>A leaf holds at least one entry, so there are never more leaves than entries.\<close>

lemma pages_repr_count:
  "list_all2 (page_repr read s) ps ess \<Longrightarrow> length ps \<le> length (concat ess)"
proof (induction rule: list_all2_induct)
  case (Cons p ps es ess)
  then have "0 < length es" by (simp add: page_repr_def)
  with Cons.IH show ?case by (simp del: length_greater_0_conv)
qed simp

lemma pages_repr_names:
  "list_all2 (page_repr read s) ps ess \<Longrightarrow> names_of ps \<subseteq> te_name ` set (concat ess)"
proof (induction rule: list_all2_induct)
  case (Cons p ps es ess)
  from Cons.hyps have "names_of [p] \<subseteq> te_name ` set es" by (auto simp: page_repr_def names_of_def)
  with Cons.IH names_of_append [of "[p]" ps] show ?case by (auto simp: image_Un)
qed (simp add: names_of_def)

lemma page_room_fuel: "never_out_of_fuel put \<Longrightarrow> page_room L put s b n \<noteq> Inl OutOfFuel"
  using store_leaf_fuel [of put L s "b_page b"]
  by (auto simp: page_room_def flush_leaf_def result_simps split: if_splits)

lemma builder_push_fuel: "never_out_of_fuel put \<Longrightarrow> builder_push L put s b e \<noteq> Inl OutOfFuel"
  by (auto simp: builder_push_def result_simps page_room_fuel split: if_splits)

lemma map_put_tree_fuel: "never_out_of_fuel (map_put_tree L)"
  by (auto simp: never_out_of_fuel_def map_put_tree_def map_put_def Let_def split: option.split)

lemma builder_finish_fuel:
  assumes "map_inv L s" and "builder_repr (map_read_tree L) s b es"
    and "pages_fit L (te_name ` set es)" and "length es \<le> Suc n"
  shows "builder_finish L (map_put_tree L) n s b \<noteq> Inl OutOfFuel"
proof (cases "if b_page b \<noteq> [] then flush_leaf L (map_put_tree L) s b else Inr (b, s)")
  case (Inl e)
  then have "e \<noteq> OutOfFuel"
    using store_leaf_fuel [OF map_put_tree_fuel]
    by (auto simp: flush_leaf_def result_simps split: if_splits)
  with Inl show ?thesis by (simp add: builder_finish_def)
next
  case (Inr x)
  obtain b' s' where x: "x = (b', s')" by (cases x)
  with Inr om.flush_leaf_repr [OF assms(1,2)] assms(1,2)
  have "builder_repr (map_read_tree L) s' b' es \<and> b_page b' = []" by (auto split: if_splits)
  then obtain ess where ess: "list_all2 (page_repr (map_read_tree L) s') (b_leaves b') ess"
    "es = concat ess" by (auto simp: builder_repr_def)
  from pages_repr_names [OF ess(1)] pages_repr_count [OF ess(1)] ess(2) assms(4)
  have "finish_levels L (map_put_tree L) n s' (b_leaves b') \<noteq> Inl OutOfFuel"
    by (intro finish_levels_fuel [OF map_put_tree_fuel assms(3)]) auto
  with Inr x show ?thesis
    using map_put_tree_fuel [of L] by (simp add: builder_finish_def never_out_of_fuel_def)
qed

text \<open>
  With two page references too large to share a branch, a level is rewritten into a level of the
  same length.
\<close>

definition pages_large :: "lib \<Rightarrow> bytes set \<Rightarrow> bool" where
  "pages_large L names \<longleftrightarrow>
     (\<forall>p. tp_first_name p \<in> names \<and> tp_last_name p \<in> names \<longrightarrow>
        2042 \<le> length (json_page L p) \<and> length (json_page L p) \<le> 65000
        \<and> length (json_tree L \<lparr>tr_entries = [], tr_pages = [p]\<rparr>) \<le> MAX_TREE_PAGE_BYTES)"

lemma store_branch_large:
  assumes "pages_large L names" and "names_of [p] \<subseteq> names"
  shows "\<exists>q s'. store_branch L (map_put_tree L) s [p] = Inr (q, s') \<and> names_of [q] \<subseteq> names"
  using assms
  by (auto simp: pages_large_def names_of_def store_branch_def map_put_tree_def map_put_def Let_def
      page_constants MAX_OBJECT_LEN_def split: option.split)

definition one_each :: "lib \<Rightarrow> bytes set \<Rightarrow> branch_state \<Rightarrow> nat \<Rightarrow> bool" where
  "one_each L names st k \<longleftrightarrow>
     (\<exists>p. bs_branch st = [p] \<and> bs_encoded st = BRANCH_OVERHEAD + length (json_page L p)
        \<and> names_of [p] \<subseteq> names)
     \<and> names_of (bs_output st) \<subseteq> names \<and> length (bs_output st) = k"

lemma branch_push_large:
  assumes "pages_large L names" and "names_of [p] \<subseteq> names" and "one_each L names st k"
  shows "\<exists>st' s'. branch_push L (map_put_tree L) (st, s) p = Inr (st', s') \<and> one_each L names st' (Suc k)"
proof -
  from assms(3) obtain r where r: "bs_branch st = [r]" "names_of [r] \<subseteq> names"
    "bs_encoded st = BRANCH_OVERHEAD + length (json_page L r)"
    and out: "names_of (bs_output st) \<subseteq> names" "length (bs_output st) = k"
    by (auto simp: one_each_def)
  from store_branch_large [OF assms(1) r(2)] obtain q s' where
    q: "store_branch L (map_put_tree L) s [r] = Inr (q, s')" "names_of [q] \<subseteq> names" by blast
  have len: "2042 \<le> length (json_page L r)" "2042 \<le> length (json_page L p)"
      "length (json_page L p) \<le> 65000"
    using assms(1,2) r(2) by (auto simp: pages_large_def names_of_def)
  have "branch_push L (map_put_tree L) (st, s) p
     = Inr (\<lparr>bs_output = bs_output st @ [q], bs_branch = [p],
             bs_encoded = BRANCH_OVERHEAD + length (json_page L p)\<rparr>, s')"
    using len q(1) r by (simp add: branch_push_def branch_room_def separator_def page_constants)
  then show ?thesis
    using out q(2) assms(2) by (simp add: one_each_def names_of_append)
qed

lemma branch_pushes_large:
  assumes "pages_large L names" and "names_of ps \<subseteq> names" and "one_each L names st k"
  shows "\<exists>st' s'. rfold (branch_push L (map_put_tree L)) (st, s) ps = Inr (st', s')
           \<and> one_each L names st' (k + length ps)"
  using assms(2,3)
proof (induction ps arbitrary: st s k)
  case (Cons p ps)
  from Cons.prems(1) have "names_of [p] \<subseteq> names" "names_of ps \<subseteq> names"
    using names_of_append [of "[p]" ps] by auto
  with branch_push_large [OF assms(1) _ Cons.prems(2)] obtain st1 s1 where
    "branch_push L (map_put_tree L) (st, s) p = Inr (st1, s1)" "one_each L names st1 (Suc k)" by blast
  with Cons.IH [OF \<open>names_of ps \<subseteq> names\<close>, of st1 "Suc k" s1] show ?case by auto
qed auto

lemma write_branch_level_large:
  assumes "pages_large L names" and "names_of ps \<subseteq> names" and "ps \<noteq> []"
  shows "\<exists>qs s'. write_branch_level L (map_put_tree L) s ps = Inr (qs, s')
           \<and> length qs = length ps \<and> names_of qs \<subseteq> names"
proof -
  obtain p ps' where ps: "ps = p # ps'" using assms(3) by (cases ps) auto
  have sub: "names_of [p] \<subseteq> names" "names_of ps' \<subseteq> names"
    using assms(2) names_of_append [of "[p]" ps'] ps by auto
  let ?st0 = "\<lparr>bs_output = [], bs_branch = [], bs_encoded = BRANCH_OVERHEAD\<rparr>"
  let ?st1 = "\<lparr>bs_output = [], bs_branch = [p], bs_encoded = BRANCH_OVERHEAD + length (json_page L p)\<rparr>"
  have "length (json_page L p) \<le> 65000" using assms(1) sub by (auto simp: pages_large_def names_of_def)
  then have first: "branch_push L (map_put_tree L) (?st0, s) p = Inr (?st1, s)"
    by (simp add: branch_push_def branch_room_def separator_def page_constants)
  have "one_each L names ?st1 0" using sub(1) by (simp add: one_each_def names_of_def)
  from branch_pushes_large [OF assms(1) sub(2) this, of s] obtain st s1 where
    st: "rfold (branch_push L (map_put_tree L)) (?st1, s) ps' = Inr (st, s1)"
      "one_each L names st (length ps')" by auto
  then obtain r where r: "bs_branch st = [r]" "names_of [r] \<subseteq> names"
    "names_of (bs_output st) \<subseteq> names" "length (bs_output st) = length ps'"
    by (auto simp: one_each_def)
  from store_branch_large [OF assms(1) r(2)] obtain q s2 where
    q: "store_branch L (map_put_tree L) s1 [r] = Inr (q, s2)" "names_of [q] \<subseteq> names" by blast
  have "write_branch_level L (map_put_tree L) s ps = Inr (bs_output st @ [q], s2)"
    using first st(1) q(1) r(1) by (simp add: write_branch_level_def ps)
  then show ?thesis using q(2) r(3,4) ps by (simp add: names_of_append)
qed

text \<open>The name at which a reported pair differs, and the order of the reports.\<close>

fun pair_name :: "tree_entry option \<times> tree_entry option \<Rightarrow> bytes" where
  "pair_name (Some l, r) = te_name l"
| "pair_name (None, Some r) = te_name r"
| "pair_name (None, None) = []"

lemma diff_list_pair_names:
  "x \<in> set (diff_list es fs) \<Longrightarrow> pair_name x \<in> te_name ` (set es \<union> set fs)"
  by (induction es fs rule: diff_list.induct) (auto split: if_splits)

lemma diff_list_above:
  assumes "\<forall>e\<in>set es \<union> set fs. k < te_name e" and "x \<in> set (diff_list es fs)"
  shows "k < pair_name x"
  using diff_list_pair_names [OF assms(2)] assms(1) by auto

lemma diff_list_sorted:
  assumes "names_sorted es" and "names_sorted fs"
  shows "sorted_wrt (<) (map pair_name (diff_list es fs))"
  using assms
proof (induction es fs rule: diff_list.induct)
  case (2 l ls)
  then have "\<forall>x\<in>set (diff_list ls []). te_name l < pair_name x" by (intro ballI diff_list_above) auto
  with 2 show ?case by simp
next
  case (3 r rs)
  then have "\<forall>x\<in>set (diff_list [] rs). te_name r < pair_name x" by (intro ballI diff_list_above) auto
  with 3 show ?case by simp
next
  case (4 l ls r rs)
  consider "te_name l = te_name r" | "te_name l < te_name r" | "te_name r < te_name l"
    by (cases rule: linorder_cases)
  then show ?case
  proof cases
    case 1
    have "\<forall>x\<in>set (diff_list ls rs). te_name r < pair_name x"
      using 4(4,5) 1 by (auto intro: diff_list_above)
    with 1 4 show ?thesis by simp
  next
    case 2
    have "\<forall>x\<in>set (diff_list ls (r # rs)). te_name l < pair_name x"
      using 4(4,5) 2 by (intro ballI diff_list_above [where es = ls and fs = "r # rs"]) (auto intro: less_trans)
    with 2 4 show ?thesis by simp
  next
    case 3
    have "\<forall>x\<in>set (diff_list (l # ls) rs). te_name r < pair_name x"
      using 4(4,5) 3 by (intro ballI diff_list_above [where es = "l # ls" and fs = rs]) (auto intro: less_trans)
    moreover from 3 have "\<not> te_name l < te_name r" "te_name l \<noteq> te_name r" by auto
    ultimately show ?thesis using 4 by simp
  qed
qed simp

text \<open>What a path names in a hierarchy of written directories.\<close>

inductive resolves ::
  "'s read_tree \<Rightarrow> 's \<Rightarrow> object_id \<Rightarrow> bytes list \<Rightarrow> tree_entry option \<Rightarrow> bool" for read s where
  resolves_last: "paged read s i es \<Longrightarrow> names_sorted es \<Longrightarrow> c \<noteq> [] \<Longrightarrow>
     resolves read s i [c] (lookup_entry es c)"
| resolves_absent: "paged read s i es \<Longrightarrow> names_sorted es \<Longrightarrow> c \<noteq> [] \<Longrightarrow>
     lookup_entry es c = None \<Longrightarrow> resolves read s i (c # cs) None"
| resolves_other: "paged read s i es \<Longrightarrow> names_sorted es \<Longrightarrow> c \<noteq> [] \<Longrightarrow>
     lookup_entry es c = Some e \<Longrightarrow> te_kind e \<noteq> Directory \<Longrightarrow> cs \<noteq> [] \<Longrightarrow>
     resolves read s i (c # cs) None"
| resolves_child: "paged read s i es \<Longrightarrow> names_sorted es \<Longrightarrow> c \<noteq> [] \<Longrightarrow>
     lookup_entry es c = Some e \<Longrightarrow> te_kind e = Directory \<Longrightarrow> te_target e = Some t \<Longrightarrow>
     resolves read s t cs r \<Longrightarrow> resolves read s i (c # cs) r"

lemma resolves_nonempty: "resolves read s i cs r \<Longrightarrow> cs \<noteq> []"
  by (induction rule: resolves.induct) simp_all

lemma find_components_resolves:
  "resolves read s i cs r \<Longrightarrow> \<exists>N. \<forall>n\<ge>N. find_components read n s i cs = Inr r"
proof (induction rule: resolves.induct)
  case (resolves_last i es c)
  from find_entry_paged [OF resolves_last(1,2), of c] obtain N where
    "\<forall>n\<ge>N. find_entry read n s i c = Inr (lookup_entry es c)" by blast
  with resolves_last(3) show ?case by (intro exI [of _ N]) (auto split: option.split)
next
  case (resolves_absent i es c cs)
  from find_entry_paged [OF resolves_absent(1,2), of c] obtain N where
    "\<forall>n\<ge>N. find_entry read n s i c = Inr (lookup_entry es c)" by blast
  with resolves_absent(3,4) show ?case by (intro exI [of _ N]) auto
next
  case (resolves_other i es c e cs)
  from find_entry_paged [OF resolves_other(1,2), of c] obtain N where
    "\<forall>n\<ge>N. find_entry read n s i c = Inr (lookup_entry es c)" by blast
  with resolves_other(3-6) show ?case by (intro exI [of _ N]) auto
next
  case (resolves_child i es c e t cs r)
  from find_entry_paged [OF resolves_child(1,2), of c] obtain N where
    N: "\<forall>n\<ge>N. find_entry read n s i c = Inr (lookup_entry es c)" by blast
  from resolves_child.IH obtain M where "\<forall>n\<ge>M. find_components read n s t cs = Inr r" by blast
  with N resolves_child(3-6) resolves_nonempty [OF resolves_child(7)] show ?case
    by (intro exI [of _ "max N M"]) auto
qed

section \<open>Properties\<close>

text \<open>
  C6: a directory that was written is read back exactly. After \<open>write_tree\<close> succeeds, walking the
  returned root with \<open>for_each_entry\<close> ends and visits the entries given to it, all of them and in
  their order, whatever the number of leaf pages and branch levels; the entries were strictly
  sorted by name, and every tree that could be read before can still be read.
\<close>

theorem write_tree_walk:
  assumes "map_inv L s" and "write_tree L (map_put_tree L) n s es = Inr (root, s')"
  shows "names_sorted es \<and> map_inv L s' \<and> extends (map_read_tree L) s s'
    \<and> (\<exists>N. \<forall>m\<ge>N. for_each_entry (map_read_tree L) m s' root (\<lambda>v e. Inr (v @ [e])) [] = Inr es)"
proof -
  from om.write_tree_repr [OF assms]
  have r: "map_inv L s'" "extends (map_read_tree L) s s'" "paged (map_read_tree L) s' root es"
    "names_sorted es" by auto
  from for_each_entry_visits [OF r(3), of "\<lambda>v e. Inr (v @ [e])"] obtain N where
    "\<forall>m\<ge>N. \<forall>v. for_each_entry (map_read_tree L) m s' root (\<lambda>v e. Inr (v @ [e])) v = Inr (v @ es)"
    unfolding rfold_collect by blast
  then have "\<forall>m\<ge>N. for_each_entry (map_read_tree L) m s' root (\<lambda>v e. Inr (v @ [e])) [] = Inr es"
    by simp
  with r show ?thesis by blast
qed

text \<open>
  \<open>find_entry\<close> on a written directory ends and finds the entry with exactly the wanted name,
  or nothing when no entry has it.
\<close>

theorem find_entry_written:
  assumes "map_inv L s" and "write_tree L (map_put_tree L) n s es = Inr (root, s')"
  shows "\<exists>N. \<forall>m\<ge>N. find_entry (map_read_tree L) m s' root name = Inr (lookup_entry es name)"
proof -
  from om.write_tree_repr [OF assms]
  have "paged (map_read_tree L) s' root es" "names_sorted es" by auto
  then show ?thesis by (rule find_entry_paged)
qed

text \<open>
  C3: comparing two written directories with \<open>diff_entries\<close> ends and reports exactly the names at
  which they differ, each once with its entry on both sides, in increasing name order; the shortcut
  for equal ids and the pairwise descent into aligned branches lose nothing.
\<close>

theorem diff_entries_written:
  assumes "map_inv L s" and "write_tree L (map_put_tree L) n s es = Inr (l, s1)"
    and "write_tree L (map_put_tree L) m s1 fs = Inr (r, s2)"
  shows "\<exists>N ps. set ps = diffs (lookup_entry es) (lookup_entry fs)
    \<and> sorted_wrt (<) (map pair_name ps)
    \<and> (\<forall>k\<ge>N. diff_entries (map_read_tree L) k s2 l r (\<lambda>v a b. Inr (v @ [(a, b)])) [] = Inr ps)"
proof -
  from om.write_tree_repr [OF assms(1,2)]
  have l: "map_inv L s1" "paged (map_read_tree L) s1 l es" "names_sorted es" by auto
  from om.write_tree_repr [OF l(1) assms(3)]
  have r: "extends (map_read_tree L) s1 s2" "paged (map_read_tree L) s2 r fs" "names_sorted fs"
    by auto
  from diff_entries_visits [OF paged_extends [OF l(2) r(1)] r(2) l(3) r(3),
      of "\<lambda>v a b. Inr (v @ [(a, b)])"] obtain N where
    N: "\<forall>k\<ge>N. diff_entries (map_read_tree L) k s2 l r (\<lambda>v a b. Inr (v @ [(a, b)])) []
      = rfold (\<lambda>v (a, b). Inr (v @ [(a, b)])) [] (diff_list es fs)" by blast
  have collect: "rfold (\<lambda>v (a, b). Inr (v @ [(a, b)])) v ps = Inr (v @ ps)"
    for v and ps :: "(tree_entry option \<times> tree_entry option) list"
    by (induction ps arbitrary: v) auto
  with N set_diff_list [OF l(3) r(3)] diff_list_sorted [OF l(3) r(3)] show ?thesis
    by (intro exI [of _ N] exI [of _ "diff_list es fs"]) simp
qed


text \<open>
  C5: the bound of 2041 bytes is needed. When a level has at least two pages and every page
  reference over its names encodes to 2042 bytes or more (still far below the 64 KiB that the code
  refuses), \<open>write_branch_level\<close> puts one page in each branch, the level never gets shorter, and
  the loop \<open>while level.len() > 1\<close> of \<open>TreeBuilder::finish\<close> runs forever.
\<close>

theorem finish_levels_diverges:
  assumes "pages_large L (names_of ps)" and "1 < length ps"
  shows "finish_levels L (map_put_tree L) n s ps = Inl OutOfFuel"
proof -
  have "finish_levels L (map_put_tree L) n s qs = Inl OutOfFuel"
    if "names_of qs \<subseteq> names_of ps" "1 < length qs" for qs
    using that
  proof (induction n arbitrary: s qs)
    case 0
    then show ?case by (subst finish_levels.simps) simp
  next
    case (Suc n)
    from Suc.prems have "qs \<noteq> []" by auto
    with write_branch_level_large [OF assms(1) Suc.prems(1)] obtain qs' s' where
      "write_branch_level L (map_put_tree L) s qs = Inr (qs', s')"
      "length qs' = length qs" "names_of qs' \<subseteq> names_of ps" by blast
    with Suc show ?case by (subst finish_levels.simps) simp
  qed
  with assms(2) show ?thesis by simp
qed

text \<open>
  \<open>find_path\<close> follows the directories component by component: on a stored hierarchy it ends and
  returns the entry that looking up each component in its directory gives, and nothing when a
  component is absent or an inner component is not a directory.
\<close>

theorem find_path_resolves:
  assumes "path \<noteq> []" and "resolves (map_read_tree L) s root (split_on (CHR ''/'') path) r"
  shows "\<exists>N. \<forall>n\<ge>N. find_path (map_read_tree L) n s root path = Inr r"
  using find_components_resolves [OF assms(2)] assms(1) by (simp add: find_path_def)

section \<open>Witnesses\<close>

definition sample_entry :: "bytes \<Rightarrow> 64 word \<Rightarrow> tree_entry" where
  "sample_entry name len = \<lparr>te_name = name, te_kind = File, te_target = None, te_link_target = [],
     te_mode = 4, te_size = len, te_mtime_secs = 0, te_mtime_nanos = 0, te_xattrs = None,
     te_class = Source\<rparr>"

definition sample_dir :: "tree_entry list" where
  "sample_dir = [sample_entry ''a'' 1, sample_entry ''b'' 2]"

definition sample_dir2 :: "tree_entry list" where
  "sample_dir2 = [sample_entry ''b'' 3]"


lemma codec_lengths:
  "length (enc c_nat n) = Suc n"
  "length (enc c_bytes b) = Suc (2 * length b)"
  "length (enc (c_pair a c) (x, y)) = length (enc a x) + length (enc c y)"
  "length (enc (c_list d) xs) = Suc (length xs) + sum_list (map (\<lambda>x. length (enc d x)) xs)"
  "length (enc (c_iso f g i) z) = length (enc i (f z))"
  "length (enc c_word w) = Suc (unat w)"
  by (simp_all add: c_nat_def c_bytes_def c_pair_def c_list_def c_iso_def c_word_def length_concat o_def)

lemma sample_entry_length:
  "length (enc c_entry (sample_entry name len)) = 2 * length name + unat len + 15"
  by (simp add: c_entry_def c_option_def c_enum_def c_int_def sample_entry_def codec_lengths all_classes_def)

lemma write_one_leaf:
  assumes "names_sorted es" and "es \<noteq> []"
    and "LEAF_OVERHEAD + sum_list (map (\<lambda>e. Suc (length (json_entry L e))) es) \<le> TARGET_TREE_PAGE_BYTES"
    and "length (json_tree L \<lparr>tr_entries = es, tr_pages = []\<rparr>) \<le> MAX_TREE_PAGE_BYTES"
  shows "\<exists>root s'. write_tree L (map_put_tree L) n s es = Inr (root, s')"
proof -
  have push: "rfold (\<lambda>(b, s) e. builder_push L (map_put_tree L) s b e) (b, s) fs
      = Inr (\<lparr>b_page = b_page b @ fs, b_page_bytes = b', b_leaves = []\<rparr>, s)"
    if "b_leaves b = []" "names_sorted (b_page b @ fs)"
      "b_page_bytes b + sum_list (map (\<lambda>e. Suc (length (json_entry L e))) fs) \<le> TARGET_TREE_PAGE_BYTES"
      "b' = b_page_bytes b + sum_list (map (\<lambda>e. length (json_entry L e)) fs) + length fs
         - (if b_page b = [] \<and> fs \<noteq> [] then 1 else 0)" for b fs b'
    using that
  proof (induction fs arbitrary: b)
    case (Cons e fs)
    let ?b = "\<lparr>b_page = b_page b @ [e],
      b_page_bytes = b_page_bytes b + (separator (b_page b) + length (json_entry L e)), b_leaves = []\<rparr>"
    have "push_ordered b e" using Cons.prems(1,2) by (simp add: push_ordered_def)
    moreover have "page_room L (map_put_tree L) s b (length (json_entry L e)) = Inr (b, s)"
      using Cons.prems(3) by (simp add: page_room_def separator_def)
    ultimately have "builder_push L (map_put_tree L) s b e = Inr (?b, s)"
      using Cons.prems(1,3) by (simp add: builder_push_def separator_def page_constants)
    moreover have "rfold (\<lambda>(b, s) e. builder_push L (map_put_tree L) s b e) (?b, s) fs
      = Inr (\<lparr>b_page = b_page b @ e # fs, b_page_bytes = b', b_leaves = []\<rparr>, s)"
      using Cons.IH [of ?b] Cons.prems by (simp add: separator_def)
    ultimately show ?case by simp
  qed simp
  obtain i s' where put: "map_put_tree L s \<lparr>tr_entries = es, tr_pages = []\<rparr> = Inr (i, s')"
    using assms(4)
    by (simp add: map_put_tree_def map_put_Inr MAX_TREE_PAGE_BYTES_def MAX_OBJECT_LEN_def)
  have "write_tree L (map_put_tree L) n s es = Inr (i, s')"
    using push [of builder_new es] assms put
    by (simp add: write_tree_def builder_new_def builder_finish_def flush_leaf_def store_leaf_def Let_def)
  then show ?thesis by blast
qed

lemma sample_dirs_written:
  "\<exists>root s'. write_tree sample_lib (map_put_tree sample_lib) n s sample_dir = Inr (root, s')"
  "\<exists>root s'. write_tree sample_lib (map_put_tree sample_lib) n s sample_dir2 = Inr (root, s')"
  by (rule write_one_leaf; simp add: sample_dir_def sample_dir2_def sample_lib_def c_tree_def
      codec_lengths sample_entry_length page_constants; simp add: sample_entry_def)+

theorem write_tree_walk_witness:
  "\<exists>root s'. write_tree sample_lib (map_put_tree sample_lib) 1 Map.empty sample_dir = Inr (root, s')
     \<and> (\<exists>N. \<forall>m\<ge>N. for_each_entry (map_read_tree sample_lib) m s' root (\<lambda>v e. Inr (v @ [e])) []
            = Inr sample_dir)"
  using sample_dirs_written(1) [of 1 Map.empty] write_tree_walk [OF map_inv_empty] by metis

theorem find_entry_written_witness:
  "\<exists>root s'. write_tree sample_lib (map_put_tree sample_lib) 1 Map.empty sample_dir = Inr (root, s')
     \<and> (\<exists>N. \<forall>m\<ge>N. find_entry (map_read_tree sample_lib) m s' root ''b''
            = Inr (Some (sample_entry ''b'' 2)))"
proof -
  have "lookup_entry sample_dir ''b'' = Some (sample_entry ''b'' 2)"
    by (simp add: sample_dir_def sample_entry_def)
  with sample_dirs_written(1) [of 1 Map.empty] find_entry_written [OF map_inv_empty]
  show ?thesis by metis
qed

theorem diff_entries_written_witness:
  "\<exists>l r s2 N ps. set ps = diffs (lookup_entry sample_dir) (lookup_entry sample_dir2)
     \<and> (\<forall>k\<ge>N. diff_entries (map_read_tree sample_lib) k s2 l r (\<lambda>v a b. Inr (v @ [(a, b)])) [] = Inr ps)"
proof -
  obtain l s1 where l: "write_tree sample_lib (map_put_tree sample_lib) 1 Map.empty sample_dir = Inr (l, s1)"
    using sample_dirs_written(1) by blast
  obtain r s2 where r: "write_tree sample_lib (map_put_tree sample_lib) 1 s1 sample_dir2 = Inr (r, s2)"
    using sample_dirs_written(2) by blast
  from diff_entries_written [OF map_inv_empty l r] show ?thesis by blast
qed

lemma sample_pages_fit: "pages_fit (sample_lib\<lparr>json_page := \<lambda>p. []\<rparr>) names"
  by (simp add: pages_fit_def)


definition large_lib :: lib where
  "large_lib = sample_lib\<lparr>json_page := \<lambda>p. replicate 3000 (CHR ''x''), json_tree := \<lambda>t. []\<rparr>"

theorem finish_levels_diverges_witness:
  "finish_levels large_lib (map_put_tree large_lib) 5 Map.empty
     [\<lparr>tp_first_name = ''a'', tp_last_name = ''a'', tp_entry_count = 1, tp_target = []\<rparr>,
      \<lparr>tp_first_name = ''b'', tp_last_name = ''b'', tp_entry_count = 1, tp_target = []\<rparr>] = Inl OutOfFuel"
  by (rule finish_levels_diverges) (simp_all add: pages_large_def large_lib_def)


text \<open>A directory \<open>d\<close> whose only entry is the file \<open>f\<close>, one level below the root.\<close>

definition sample_file :: tree_entry where
  "sample_file = sample_entry ''f'' 7"

definition nested_map :: object_map where
  "nested_map = [
     ''r'' \<mapsto> (Tree, ''r''), ''d'' \<mapsto> (Tree, ''d'')]"

definition nested_lib :: lib where
  "nested_lib = sample_lib\<lparr>
     blake3 := \<lambda>b. drop 15 b,
     parse_tree := \<lambda>b. if b = ''r''
       then Some \<lparr>tr_entries = [(sample_entry ''d'' 0)\<lparr>te_kind := Directory, te_target := Some ''d''\<rparr>],
                  tr_pages = []\<rparr>
       else Some \<lparr>tr_entries = [sample_file], tr_pages = []\<rparr>\<rparr>"

theorem find_path_resolves_witness:
  "\<exists>N. \<forall>n\<ge>N. find_path (map_read_tree nested_lib) n nested_map ''r'' ''d/f'' = Inr (Some sample_file)"
proof (rule find_path_resolves)
  let ?d = "(sample_entry ''d'' 0)\<lparr>te_kind := Directory, te_target := Some ''d''\<rparr>"
  note defs = map_read_tree_def map_read_def nested_map_def nested_lib_def object_id_def
  have d: "paged (map_read_tree nested_lib) nested_map ''d'' [sample_file]"
    by (rule paged_leaf) (simp add: defs)
  have r: "paged (map_read_tree nested_lib) nested_map ''r'' [?d]"
    by (rule paged_leaf) (simp add: defs)
  have "resolves (map_read_tree nested_lib) nested_map ''d'' [''f''] (lookup_entry [sample_file] ''f'')"
    by (rule resolves_last [OF d]) simp_all
  then have f: "resolves (map_read_tree nested_lib) nested_map ''d'' [''f''] (Some sample_file)"
    by (simp add: sample_file_def sample_entry_def)
  have "resolves (map_read_tree nested_lib) nested_map ''r'' [''d'', ''f''] (Some sample_file)"
    by (rule resolves_child [where e = ?d, OF r _ _ _ _ _ f]) (simp_all add: sample_entry_def)
  then show "resolves (map_read_tree nested_lib) nested_map ''r'' (split_on (CHR ''/'') ''d/f'')
    (Some sample_file)" by simp
qed simp

end
