(* ===== verification/Merge_Plan.thy ===== *)
theory Merge_Plan
  imports Tree_Theorems
begin

text \<open>
  \<^verbatim>\<open>furrow-core/src/merge.rs\<close>: three-way planning, over listings (\<open>plan\<close>) and over stored trees
  (\<open>plan_trees\<close>). A listing is a \<open>BTreeMap\<close> from paths to entries. A plan is the changes to make
  to \<open>ours\<close> and the paths left to the user.
\<close>

datatype merge_action = SetEntry tree_entry | RemoveEntry

record merge_change =
  mc_path :: bytes
  mc_action :: merge_action

datatype conflict_kind = ModifyModify | DeleteModify | TypeConflict | Ancestor

record merge_conflict =
  mx_path :: bytes
  mx_kind :: conflict_kind

record merge_plan =
  mp_changes :: "merge_change list"
  mp_conflicts :: "merge_conflict list"

type_synonym listing = "(bytes, tree_entry) btree_map"

section \<open>Comparisons\<close>

definition strip_times :: "tree_entry \<Rightarrow> tree_entry" where
  "strip_times e = e\<lparr>te_mtime_secs := 0, te_mtime_nanos := 0\<rparr>"

fun equivalent :: "tree_entry option \<Rightarrow> tree_entry option \<Rightarrow> bool" where
  "equivalent None None = True"
| "equivalent (Some left) (Some right) =
     (if te_kind left = Directory \<and> te_kind right = Directory
      then (strip_times left)\<lparr>te_target := None\<rparr> = (strip_times right)\<lparr>te_target := None\<rparr>
      else strip_times left = strip_times right)"
| "equivalent _ _ = False"

definition is_descendant :: "bytes \<Rightarrow> bytes \<Rightarrow> bool" where
  "is_descendant path ancestor \<longleftrightarrow>
     length ancestor < length path \<and> take (length ancestor) path = ancestor
     \<and> path ! length ancestor = CHR ''/''"

definition direct_conflict ::
  "tree_entry option \<Rightarrow> tree_entry option \<Rightarrow> tree_entry option \<Rightarrow> conflict_kind" where
  "direct_conflict base ours theirs =
     (case (ours, theirs) of
        (Some o', Some t) \<Rightarrow>
          if te_kind o' \<noteq> te_kind t \<or> (case base of None \<Rightarrow> False | Some b \<Rightarrow> te_kind b \<noteq> te_kind o')
          then TypeConflict else ModifyModify
      | _ \<Rightarrow> DeleteModify)"

definition subtree_changed :: "listing \<Rightarrow> listing \<Rightarrow> bytes \<Rightarrow> bool" where
  "subtree_changed base side directory \<longleftrightarrow>
     list_ex (\<lambda>(path, entry). \<not> equivalent (Some entry) (bt_get side path))
       (filter (\<lambda>(path, _). is_descendant path directory) base)
     \<or> list_ex (\<lambda>(path, entry). \<not> equivalent (bt_get base path) (Some entry))
       (filter (\<lambda>(path, _). is_descendant path directory) side)"

definition is_directory :: "tree_entry option \<Rightarrow> bool" where
  "is_directory e = (case e of None \<Rightarrow> False | Some e' \<Rightarrow> te_kind e' = Directory)"

section \<open>Planning over listings\<close>

definition action_of :: "tree_entry option \<Rightarrow> merge_action" where
  "action_of e = (case e of None \<Rightarrow> RemoveEntry | Some e' \<Rightarrow> SetEntry e')"

text \<open>One iteration of the loop over the paths; the conflicts and changes grow at their end.\<close>

definition plan_path ::
  "(bytes \<Rightarrow> tree_entry option) \<Rightarrow> (bytes \<Rightarrow> tree_entry option) \<Rightarrow> (bytes \<Rightarrow> tree_entry option)
   \<Rightarrow> merge_plan \<Rightarrow> bytes \<Rightarrow> merge_plan" where
  "plan_path base ours theirs p path =
     (if equivalent (ours path) (theirs path) then p
      else if equivalent (base path) (ours path)
      then p\<lparr>mp_changes := mp_changes p @ [\<lparr>mc_path = path, mc_action = action_of (theirs path)\<rparr>]\<rparr>
      else if equivalent (base path) (theirs path) then p
      else p\<lparr>mp_conflicts := mp_conflicts p @
             [\<lparr>mx_path = path, mx_kind = direct_conflict (base path) (ours path) (theirs path)\<rparr>]\<rparr>)"

definition ancestor_conflict :: "listing \<Rightarrow> listing \<Rightarrow> listing \<Rightarrow> bytes \<Rightarrow> bool" where
  "ancestor_conflict base ours theirs path \<longleftrightarrow>
     is_directory (bt_get base path)
     \<and> ((\<not> is_directory (bt_get ours path) \<and> is_directory (bt_get theirs path)
          \<and> subtree_changed base theirs path)
        \<or> (\<not> is_directory (bt_get theirs path) \<and> is_directory (bt_get ours path)
          \<and> subtree_changed base ours path))
     \<and> \<not> equivalent (bt_get ours path) (bt_get theirs path)"

definition add_ancestor_conflict :: "merge_conflict list \<Rightarrow> bytes \<Rightarrow> merge_conflict list" where
  "add_ancestor_conflict conflicts path =
     (if list_ex (\<lambda>c. mx_path c = path) conflicts then conflicts
      else conflicts @ [\<lparr>mx_path = path, mx_kind = Ancestor\<rparr>])"

text \<open>\<open>sort_by\<close> (stable, by path), \<open>dedup_by\<close> of neighbours, and the \<open>retain\<close> on the changes.\<close>

fun dedup_conflicts :: "merge_conflict list \<Rightarrow> merge_conflict list" where
  "dedup_conflicts (c # d # cs) =
     (if mx_path d = mx_path c then dedup_conflicts (c # cs) else c # dedup_conflicts (d # cs))"
| "dedup_conflicts cs = cs"

definition settle_plan :: "merge_change list \<Rightarrow> merge_conflict list \<Rightarrow> merge_plan" where
  "settle_plan changes conflicts =
     (let cs = dedup_conflicts (sort_key mx_path conflicts) in
      \<lparr>mp_changes = filter (\<lambda>change. \<not> list_ex (\<lambda>c.
           mc_path change = mx_path c \<or> is_descendant (mc_path change) (mx_path c)) cs) changes,
       mp_conflicts = cs\<rparr>)"

definition empty_plan :: merge_plan where
  "empty_plan = \<lparr>mp_changes = [], mp_conflicts = []\<rparr>"

definition plan :: "listing \<Rightarrow> listing \<Rightarrow> listing \<Rightarrow> merge_plan" where
  "plan base ours theirs =
     (let paths = bs_of (map fst base @ map fst ours @ map fst theirs);
          p = foldl (plan_path (bt_get base) (bt_get ours) (bt_get theirs)) empty_plan paths;
          ancestors = bs_of (filter (ancestor_conflict base ours theirs) (map fst base));
          conflicts = foldl add_ancestor_conflict (mp_conflicts p) ancestors in
      settle_plan (mp_changes p) conflicts)"

section \<open>Planning over stored trees\<close>

record delta =
  d_before :: "tree_entry option"
  d_after :: "tree_entry option"

type_synonym deltas = "(bytes, delta) btree_map"

definition join_path :: "bytes \<Rightarrow> bytes \<Rightarrow> bytes" where
  "join_path pre name = (if pre = [] then name else pre @ CHR ''/'' # name)"

definition no_target :: string where
  "no_target = ''directory has a tree target''"

fun collect_subtree ::
  "'s read_tree \<Rightarrow> nat \<Rightarrow> 's \<Rightarrow> object_id \<Rightarrow> bytes \<Rightarrow> bool \<Rightarrow> deltas \<Rightarrow> deltas result" where
  "collect_subtree read 0 s root pre added out = Inl OutOfFuel"
| "collect_subtree read (Suc n) s root pre added out =
     for_each_entry read n s root (\<lambda>out entry.
       let path = join_path pre (te_name entry);
           delta = (if added then \<lparr>d_before = None, d_after = Some entry\<rparr>
                    else \<lparr>d_before = Some entry, d_after = None\<rparr>);
           out' = bt_insert path delta out in
       if te_kind entry = Directory
       then rbind (of_opt no_target (te_target entry)) (\<lambda>t.
            collect_subtree read n s t path added out')
       else Inr out') out"

definition record_delta ::
  "bytes \<Rightarrow> tree_entry option \<Rightarrow> tree_entry option \<Rightarrow> deltas \<Rightarrow> deltas" where
  "record_delta path before after out =
     (if equivalent before after then out
      else bt_insert path \<lparr>d_before = before, d_after = after\<rparr> out)"

definition collect_side ::
  "'s read_tree \<Rightarrow> nat \<Rightarrow> 's \<Rightarrow> tree_entry option \<Rightarrow> bytes \<Rightarrow> bool \<Rightarrow> deltas \<Rightarrow> deltas result" where
  "collect_side read n s e path added out =
     (case e of
        None \<Rightarrow> Inr out
      | Some entry \<Rightarrow>
          if te_kind entry = Directory
          then rbind (of_opt no_target (te_target entry)) (\<lambda>t.
               collect_subtree read n s t path added out)
          else Inr out)"

fun collect_delta ::
  "'s read_tree \<Rightarrow> nat \<Rightarrow> 's \<Rightarrow> object_id \<Rightarrow> object_id \<Rightarrow> bytes \<Rightarrow> deltas \<Rightarrow> deltas result" where
  "collect_delta read 0 s before_root after_root pre out = Inl OutOfFuel"
| "collect_delta read (Suc n) s before_root after_root pre out =
     (if before_root = after_root then Inr out
      else diff_entries read n s before_root after_root (\<lambda>out before after.
        let path = join_path pre (pair_name (before, after)) in
        case (before, after) of
          (Some left, Some right) \<Rightarrow>
            if te_kind left = Directory \<and> te_kind right = Directory
            then rbind (of_opt no_target (te_target left)) (\<lambda>l.
                 rbind (of_opt no_target (te_target right)) (\<lambda>r.
                 collect_delta read n s l r path (record_delta path before after out)))
            else rbind (collect_side read n s before path False (record_delta path before after out))
                   (collect_side read n s after path True)
        | _ \<Rightarrow> rbind (collect_side read n s before path False (record_delta path before after out))
                   (collect_side read n s after path True)) out)"

text \<open>\<open>range(directory..)\<close>, its first path other than the directory, and the test on that path.\<close>

definition delta_has_descendant :: "deltas \<Rightarrow> bytes \<Rightarrow> bool" where
  "delta_has_descendant deltas directory =
     (case find (\<lambda>(path, _). path \<noteq> directory) (filter (\<lambda>(path, _). directory \<le> path) deltas) of
        None \<Rightarrow> False
      | Some (path, _) \<Rightarrow> is_descendant path directory)"

definition delta_base :: "deltas \<Rightarrow> deltas \<Rightarrow> bytes \<Rightarrow> tree_entry option" where
  "delta_base ours_delta theirs_delta path =
     (case bt_get ours_delta path of
        Some d \<Rightarrow> d_before d
      | None \<Rightarrow> (case bt_get theirs_delta path of Some d \<Rightarrow> d_before d | None \<Rightarrow> None))"

definition delta_side :: "deltas \<Rightarrow> (bytes \<Rightarrow> tree_entry option) \<Rightarrow> bytes \<Rightarrow> tree_entry option" where
  "delta_side side_delta base path =
     (case bt_get side_delta path of Some d \<Rightarrow> d_after d | None \<Rightarrow> base path)"

definition side_ancestors :: "deltas \<Rightarrow> deltas \<Rightarrow> merge_conflict list \<Rightarrow> merge_conflict list" where
  "side_ancestors mine other conflicts =
     foldl (\<lambda>conflicts (path, delta).
       case d_before delta of
         None \<Rightarrow> conflicts
       | Some base_entry \<Rightarrow>
           if te_kind base_entry \<noteq> Directory then conflicts
           else
             let other_entry = (case bt_get other path of
                   None \<Rightarrow> base_entry
                 | Some d \<Rightarrow> (case d_after d of None \<Rightarrow> base_entry | Some e \<Rightarrow> e)) in
             if \<not> is_directory (d_after delta) \<and> te_kind other_entry = Directory
                \<and> delta_has_descendant other path
             then add_ancestor_conflict conflicts path else conflicts) conflicts mine"

definition plan_deltas :: "deltas \<Rightarrow> deltas \<Rightarrow> merge_plan" where
  "plan_deltas ours_delta theirs_delta =
     (let base = delta_base ours_delta theirs_delta;
          paths = bs_of (map fst ours_delta @ map fst theirs_delta);
          p = foldl (plan_path base (delta_side ours_delta base) (delta_side theirs_delta base))
                empty_plan paths;
          conflicts = side_ancestors ours_delta theirs_delta (mp_conflicts p);
          conflicts' = side_ancestors theirs_delta ours_delta conflicts in
      settle_plan (mp_changes p) conflicts')"

definition plan_trees ::
  "'s read_tree \<Rightarrow> nat \<Rightarrow> 's \<Rightarrow> object_id \<Rightarrow> object_id \<Rightarrow> object_id \<Rightarrow> merge_plan result" where
  "plan_trees read n s base_root ours_root theirs_root =
     rbind (collect_delta read n s base_root ours_root [] []) (\<lambda>ours_delta.
     rbind (collect_delta read n s base_root theirs_root [] []) (\<lambda>theirs_delta.
     Inr (plan_deltas ours_delta theirs_delta)))"

end
