(* ===== verification/Merge_Theorems.thy ===== *)
theory Merge_Theorems
  imports Merge_Plan
begin

text \<open>
  What a merge plan contains, that a plan without conflicts loses nothing of either side and keeps
  the hierarchy intact, that conflicts do not depend on which side is called ours, and where
  planning over stored trees departs from planning over listings.
\<close>

section \<open>Equivalence of entries\<close>

lemma strip_times_kind [simp]: "te_kind (strip_times e) = te_kind e"
  by (simp add: strip_times_def)

lemma equivalent_refl [simp, intro]: "equivalent e e"
  by (cases e) simp_all

lemma equivalent_kind:
  assumes "equivalent (Some a) (Some b)"
  shows "te_kind a = te_kind b"
proof (cases "te_kind a = Directory \<and> te_kind b = Directory")
  case False
  with assms have "strip_times a = strip_times b" by auto
  then have "te_kind (strip_times a) = te_kind (strip_times b)" by (rule arg_cong)
  then show ?thesis by simp
qed simp

lemma equivalent_sym: "equivalent a b \<longleftrightarrow> equivalent b a"
  by (cases a; cases b) (auto simp: eq_commute)

lemma equivalent_trans:
  assumes "equivalent a b" and "equivalent b c"
  shows "equivalent a c"
proof (cases a; cases b; cases c)
  fix x y z assume *: "a = Some x" "b = Some y" "c = Some z"
  from * assms have "te_kind x = te_kind y" "te_kind y = te_kind z"
    using equivalent_kind by blast+
  with * assms show ?thesis by (cases "te_kind x = Directory") simp_all
qed (use assms in auto)

lemma equivalent_is_directory:
  assumes "equivalent a b"
  shows "is_directory a = is_directory b"
proof (cases a; cases b)
  fix x y assume *: "a = Some x" "b = Some y"
  with assms have "te_kind x = te_kind y" using equivalent_kind by blast
  with * show ?thesis by (simp add: is_directory_def)
qed (use assms in auto)

lemma equivalent_None [simp]: "equivalent None e \<longleftrightarrow> e = None" "equivalent e None \<longleftrightarrow> e = None"
  by (cases e; simp)+

section \<open>The loop over the paths\<close>

definition take_theirs ::
  "(bytes \<Rightarrow> tree_entry option) \<Rightarrow> (bytes \<Rightarrow> tree_entry option) \<Rightarrow> (bytes \<Rightarrow> tree_entry option)
   \<Rightarrow> bytes \<Rightarrow> bool" where
  "take_theirs base ours theirs p \<longleftrightarrow>
     \<not> equivalent (ours p) (theirs p) \<and> equivalent (base p) (ours p)"

definition clash ::
  "(bytes \<Rightarrow> tree_entry option) \<Rightarrow> (bytes \<Rightarrow> tree_entry option) \<Rightarrow> (bytes \<Rightarrow> tree_entry option)
   \<Rightarrow> bytes \<Rightarrow> bool" where
  "clash base ours theirs p \<longleftrightarrow>
     \<not> equivalent (ours p) (theirs p) \<and> \<not> equivalent (base p) (ours p)
     \<and> \<not> equivalent (base p) (theirs p)"

abbreviation change_at :: "(bytes \<Rightarrow> tree_entry option) \<Rightarrow> bytes \<Rightarrow> merge_change" where
  "change_at theirs p \<equiv> \<lparr>mc_path = p, mc_action = action_of (theirs p)\<rparr>"

abbreviation clash_at ::
  "(bytes \<Rightarrow> tree_entry option) \<Rightarrow> (bytes \<Rightarrow> tree_entry option) \<Rightarrow> (bytes \<Rightarrow> tree_entry option)
   \<Rightarrow> bytes \<Rightarrow> merge_conflict" where
  "clash_at base ours theirs p \<equiv>
     \<lparr>mx_path = p, mx_kind = direct_conflict (base p) (ours p) (theirs p)\<rparr>"

lemma plan_path_fold:
  "mp_changes (foldl (plan_path b o' t) p ps)
     = mp_changes p @ map (change_at t) (filter (take_theirs b o' t) ps)"
  "mp_conflicts (foldl (plan_path b o' t) p ps)
     = mp_conflicts p @ map (clash_at b o' t) (filter (clash b o' t) ps)"
  by (induction ps arbitrary: p) (auto simp: plan_path_def take_theirs_def clash_def)

lemma add_ancestor_fold:
  "distinct ps \<Longrightarrow> foldl add_ancestor_conflict cs ps
     = cs @ map (\<lambda>p. \<lparr>mx_path = p, mx_kind = Ancestor\<rparr>) (filter (\<lambda>p. p \<notin> mx_path ` set cs) ps)"
proof (induction ps arbitrary: cs)
  case (Cons p ps)
  show ?case
  proof (cases "p \<in> mx_path ` set cs")
    case True
    then have "add_ancestor_conflict cs p = cs"
      by (auto simp: add_ancestor_conflict_def list_ex_iff)
    with True Cons show ?thesis by simp
  next
    case False
    then have "add_ancestor_conflict cs p = cs @ [\<lparr>mx_path = p, mx_kind = Ancestor\<rparr>]"
      by (auto simp: add_ancestor_conflict_def list_ex_iff)
    moreover have "filter (\<lambda>q. q \<noteq> p \<and> q \<notin> mx_path ` set cs) ps
        = filter (\<lambda>q. q \<notin> mx_path ` set cs) ps"
      using Cons.prems by (intro filter_cong) auto
    ultimately show ?thesis using False Cons by simp
  qed
qed simp

lemma dedup_distinct: "distinct (map mx_path cs) \<Longrightarrow> dedup_conflicts cs = cs"
  by (induction cs rule: dedup_conflicts.induct) auto

lemma dedup_sorted:
  "sorted (map mx_path cs) \<Longrightarrow> sorted_wrt (<) (map mx_path (dedup_conflicts cs))
     \<and> mx_path ` set (dedup_conflicts cs) = mx_path ` set cs"
proof (induction cs rule: dedup_conflicts.induct)
  case (1 c d cs)
  show ?case
  proof (cases "mx_path d = mx_path c")
    case True
    with 1 show ?thesis by auto
  next
    case False
    with 1 have "mx_path c < mx_path d" by auto
    moreover have "\<forall>x\<in>set (d # cs). mx_path d \<le> mx_path x" using 1(3) by auto
    ultimately have "\<forall>p\<in>mx_path ` set (d # cs). mx_path c < p" by auto
    with False 1 show ?thesis by auto
  qed
qed simp_all

lemma settle_plan_conflicts:
  "sorted_wrt (<) (map mx_path (mp_conflicts (settle_plan changes cs)))
     \<and> mx_path ` set (mp_conflicts (settle_plan changes cs)) = mx_path ` set cs"
  using dedup_sorted [of "sort_key mx_path cs"] by (simp add: settle_plan_def Let_def)

lemma settle_plan_distinct:
  "distinct (map mx_path cs) \<Longrightarrow> set (mp_conflicts (settle_plan changes cs)) = set cs"
  by (simp add: settle_plan_def Let_def dedup_distinct distinct_map)

definition blocked :: "merge_conflict list \<Rightarrow> bytes \<Rightarrow> bool" where
  "blocked cs p \<longleftrightarrow> (\<exists>c\<in>set cs. p = mx_path c \<or> is_descendant p (mx_path c))"

lemma settle_plan_changes:
  "mp_changes (settle_plan changes cs)
     = filter (\<lambda>c. \<not> blocked (mp_conflicts (settle_plan changes cs)) (mc_path c)) changes"
  by (simp add: settle_plan_def Let_def blocked_def list_ex_iff)

section \<open>What a plan contains\<close>

definition all_paths :: "listing \<Rightarrow> listing \<Rightarrow> listing \<Rightarrow> bytes list" where
  "all_paths b o' t = bs_of (map fst b @ map fst o' @ map fst t)"

definition clashes :: "listing \<Rightarrow> listing \<Rightarrow> listing \<Rightarrow> merge_conflict list" where
  "clashes b o' t = map (clash_at (bt_get b) (bt_get o') (bt_get t))
     (filter (clash (bt_get b) (bt_get o') (bt_get t)) (all_paths b o' t))"

definition ancestors :: "listing \<Rightarrow> listing \<Rightarrow> listing \<Rightarrow> merge_conflict list" where
  "ancestors b o' t = map (\<lambda>p. \<lparr>mx_path = p, mx_kind = Ancestor\<rparr>)
     (filter (\<lambda>p. p \<notin> mx_path ` set (clashes b o' t))
        (bs_of (filter (ancestor_conflict b o' t) (map fst b))))"

lemma plan_parts:
  "plan b o' t = settle_plan
     (map (change_at (bt_get t)) (filter (take_theirs (bt_get b) (bt_get o') (bt_get t))
        (all_paths b o' t))) (clashes b o' t @ ancestors b o' t)"
  unfolding plan_def Let_def plan_path_fold clashes_def ancestors_def all_paths_def
  by (subst add_ancestor_fold) (simp_all add: empty_plan_def)

lemma set_all_paths:
  "set (all_paths b o' t) = {p. bt_get b p \<noteq> None \<or> bt_get o' p \<noteq> None \<or> bt_get t p \<noteq> None}"
proof -
  have "set (all_paths b o' t) = dom (bt_get b) \<union> dom (bt_get o') \<union> dom (bt_get t)"
    by (simp add: all_paths_def dom_map_of_conv_image_fst Un_assoc)
  then show ?thesis by auto
qed

lemma set_clashes:
  "set (clashes b o' t) =
     clash_at (bt_get b) (bt_get o') (bt_get t) ` {p. clash (bt_get b) (bt_get o') (bt_get t) p}"
proof -
  have "{p \<in> set (all_paths b o' t). clash (bt_get b) (bt_get o') (bt_get t) p}
    = {p. clash (bt_get b) (bt_get o') (bt_get t) p}"
    unfolding set_all_paths clash_def by (auto simp del: not_None_eq)
  then show ?thesis by (simp add: clashes_def)
qed

lemma paths_clashes: "mx_path ` set (clashes b o' t) = {p. clash (bt_get b) (bt_get o') (bt_get t) p}"
  by (simp add: set_clashes image_image)

lemma set_ancestors:
  "set (ancestors b o' t) = (\<lambda>p. \<lparr>mx_path = p, mx_kind = Ancestor\<rparr>) `
     {p. ancestor_conflict b o' t p \<and> \<not> clash (bt_get b) (bt_get o') (bt_get t) p}"
proof -
  have "p \<in> fst ` set b" if "ancestor_conflict b o' t p" for p
  proof -
    from that have "p \<in> dom (bt_get b)"
      by (auto simp: ancestor_conflict_def is_directory_def split: option.splits)
    then show ?thesis by (simp add: dom_map_of_conv_image_fst)
  qed
  then have "{p \<in> set (bs_of (filter (ancestor_conflict b o' t) (map fst b))).
      p \<notin> mx_path ` set (clashes b o' t)}
    = {p. ancestor_conflict b o' t p \<and> \<not> clash (bt_get b) (bt_get o') (bt_get t) p}"
    unfolding paths_clashes by auto
  then show ?thesis by (simp add: ancestors_def)
qed

lemma plan_parts_distinct: "distinct (map mx_path (clashes b o' t @ ancestors b o' t))"
proof -
  have "distinct (map mx_path (clashes b o' t))" "distinct (map mx_path (ancestors b o' t))"
    by (simp_all add: clashes_def ancestors_def all_paths_def o_def)
  moreover have "mx_path ` set (clashes b o' t) \<inter> mx_path ` set (ancestors b o' t) = {}"
    unfolding paths_clashes set_ancestors by auto
  ultimately show ?thesis by simp
qed

lemma plan_conflict_set:
  "set (mp_conflicts (plan b o' t)) =
     clash_at (bt_get b) (bt_get o') (bt_get t) ` {p. clash (bt_get b) (bt_get o') (bt_get t) p}
     \<union> (\<lambda>p. \<lparr>mx_path = p, mx_kind = Ancestor\<rparr>) `
         {p. ancestor_conflict b o' t p \<and> \<not> clash (bt_get b) (bt_get o') (bt_get t) p}"
  unfolding plan_parts settle_plan_distinct [OF plan_parts_distinct] set_append set_clashes
    set_ancestors ..

lemma plan_change_set:
  "set (mp_changes (plan b o' t)) =
     change_at (bt_get t) ` {p. take_theirs (bt_get b) (bt_get o') (bt_get t) p
        \<and> \<not> blocked (mp_conflicts (plan b o' t)) p}"
proof -
  have "{p \<in> set (all_paths b o' t). take_theirs (bt_get b) (bt_get o') (bt_get t) p}
    = {p. take_theirs (bt_get b) (bt_get o') (bt_get t) p}"
    unfolding set_all_paths take_theirs_def by (auto simp del: not_None_eq)
  then have "set (map (change_at (bt_get t)) (filter (take_theirs (bt_get b) (bt_get o') (bt_get t))
      (all_paths b o' t))) = change_at (bt_get t) ` {p. take_theirs (bt_get b) (bt_get o') (bt_get t) p}"
    by simp
  then show ?thesis
    unfolding plan_parts settle_plan_changes set_filter by auto
qed

lemma sorted_wrt_map_filter: "sorted_wrt R (map f xs) \<Longrightarrow> sorted_wrt R (map f (filter P xs))"
  by (induction xs) auto

lemma plan_changes_sorted: "sorted_wrt (<) (map mc_path (mp_changes (plan b o' t)))"
proof -
  have "sorted_wrt (<) (map mc_path (map (change_at (bt_get t))
      (filter (take_theirs (bt_get b) (bt_get o') (bt_get t)) (all_paths b o' t))))"
    by (simp add: o_def all_paths_def sorted_wrt_filter)
  then show ?thesis
    unfolding plan_parts settle_plan_changes by (rule sorted_wrt_map_filter)
qed

lemma plan_conflicts_sorted: "sorted_wrt (<) (map mx_path (mp_conflicts (plan b o' t)))"
  unfolding plan_parts using settle_plan_conflicts by blast


section \<open>Applying a plan\<close>

fun apply_change :: "(bytes \<Rightarrow> tree_entry option) \<Rightarrow> merge_change \<Rightarrow> bytes \<Rightarrow> tree_entry option" where
  "apply_change m c = (case mc_action c of
      SetEntry e \<Rightarrow> m(mc_path c := Some e)
    | RemoveEntry \<Rightarrow> m(mc_path c := None))"

definition merged :: "listing \<Rightarrow> listing \<Rightarrow> listing \<Rightarrow> bytes \<Rightarrow> tree_entry option" where
  "merged base ours theirs = foldl apply_change (bt_get ours) (mp_changes (plan base ours theirs))"

lemma apply_change_at: "apply_change m (change_at t p) = m(p := t p)"
  by (simp add: action_of_def split: option.split)

lemma apply_changes:
  assumes "\<forall>c\<in>set cs. \<exists>p. c = change_at t p"
  shows "foldl apply_change m cs q = (if q \<in> mc_path ` set cs then t q else m q)"
  using assms
proof (induction cs arbitrary: m)
  case (Cons c cs)
  then obtain p where "c = change_at t p" by auto
  with Cons show ?case by (auto simp del: apply_change.simps simp add: apply_change_at)
qed simp

lemma merged_eq:
  assumes "mp_conflicts (plan b o' t) = []"
  shows "merged b o' t q =
    (if take_theirs (bt_get b) (bt_get o') (bt_get t) q then bt_get t q else bt_get o' q)"
proof -
  have set: "set (mp_changes (plan b o' t))
      = change_at (bt_get t) ` {p. take_theirs (bt_get b) (bt_get o') (bt_get t) p}"
    using assms by (simp add: plan_change_set blocked_def)
  then have "\<forall>c\<in>set (mp_changes (plan b o' t)). \<exists>p. c = change_at (bt_get t) p" by auto
  from apply_changes [OF this] set show ?thesis
    unfolding merged_def by (simp add: image_image)
qed

definition hierarchical :: "(bytes \<Rightarrow> tree_entry option) \<Rightarrow> bool" where
  "hierarchical m \<longleftrightarrow>
     (\<forall>p d. m p \<noteq> None \<and> is_descendant p d \<longrightarrow> is_directory (m d))"

lemma subtree_changedI:
  assumes "is_descendant p d" and "\<not> equivalent (bt_get b p) (bt_get s p)"
  shows "subtree_changed b s d"
proof (cases "bt_get b p")
  case (Some e)
  with assms show ?thesis
    unfolding subtree_changed_def list_ex_iff by (auto dest!: map_of_SomeD)
next
  case None
  with assms(2) obtain e where e: "bt_get s p = Some e" by (cases "bt_get s p") auto
  with None assms have "(p, e) \<in> set (filter (\<lambda>(path, _). is_descendant path d) s)"
    "\<not> equivalent (bt_get b p) (Some e)" by (auto dest!: map_of_SomeD)
  then show ?thesis unfolding subtree_changed_def list_ex_iff by blast
qed

lemma no_conflict_cases:
  assumes "mp_conflicts (plan b o' t) = []"
  shows "\<not> clash (bt_get b) (bt_get o') (bt_get t) p" and "\<not> ancestor_conflict b o' t p"
  using assms plan_conflict_set [of b o' t] by auto

lemma merged_hierarchical:
  assumes hier: "hierarchical (bt_get o')" "hierarchical (bt_get t)"
    and none: "mp_conflicts (plan b o' t) = []"
  shows "hierarchical (merged b o' t)"
  unfolding hierarchical_def
proof (intro allI impI, elim conjE)
  fix p d assume p: "merged b o' t p \<noteq> None" and desc: "is_descendant p d"
  note cases = no_conflict_cases [OF none]
  show "is_directory (merged b o' t d)"
  proof (rule ccontr)
    assume nd: "\<not> is_directory (merged b o' t d)"
    show False
    proof (cases "take_theirs (bt_get b) (bt_get o') (bt_get t) p")
      case True
      with p have "bt_get t p \<noteq> None" by (simp add: merged_eq [OF none])
      with hier(2) desc have t: "is_directory (bt_get t d)" by (simp add: hierarchical_def)
      with nd have nt: "\<not> take_theirs (bt_get b) (bt_get o') (bt_get t) d"
        and o': "\<not> is_directory (bt_get o' d)" by (auto simp: merged_eq [OF none] split: if_splits)
      from t o' have neq: "\<not> equivalent (bt_get o' d) (bt_get t d)"
        using equivalent_is_directory by blast
      with nt cases(1) [of d] have "equivalent (bt_get b d) (bt_get t d)"
        by (simp add: take_theirs_def clash_def)
      with t have base: "is_directory (bt_get b d)" using equivalent_is_directory by blast
      have "\<not> equivalent (bt_get b p) (bt_get t p)"
        using True equivalent_trans equivalent_sym unfolding take_theirs_def by blast
      then have "subtree_changed b t d" using subtree_changedI desc by blast
      with base t o' neq cases(2) [of d] show False by (simp add: ancestor_conflict_def)
    next
      case False
      with p have op: "bt_get o' p \<noteq> None" by (simp add: merged_eq [OF none])
      with hier(1) desc have o': "is_directory (bt_get o' d)" by (simp add: hierarchical_def)
      with nd have tt: "take_theirs (bt_get b) (bt_get o') (bt_get t) d"
        and t: "\<not> is_directory (bt_get t d)" by (auto simp: merged_eq [OF none] split: if_splits)
      from tt have neq: "\<not> equivalent (bt_get o' d) (bt_get t d)"
        and base: "is_directory (bt_get b d)"
        using o' equivalent_is_directory by (auto simp: take_theirs_def)
      have "bt_get t p = None" using hier(2) desc t unfolding hierarchical_def by blast
      with op False have "\<not> equivalent (bt_get b p) (bt_get o' p)" by (auto simp: take_theirs_def)
      then have "subtree_changed b o' d" using subtree_changedI desc by blast
      with base o' t neq cases(2) [of d] show False by (simp add: ancestor_conflict_def)
    qed
  qed
qed


lemma direct_conflict_sym:
  "direct_conflict b o' t = direct_conflict b t o'"
  by (auto simp: direct_conflict_def split: option.splits)

lemma strictly_sorted_by_key_eq:
  fixes k :: "'a \<Rightarrow> 'b::linorder"
  assumes "sorted_wrt (<) (map k xs)" and "sorted_wrt (<) (map k ys)" and "set xs = set ys"
  shows "xs = ys"
proof -
  have inj: "inj_on k (set xs \<union> set ys)"
    using assms by (simp add: strict_sorted_iff distinct_map)
  have "map k xs = map k ys"
    using assms by (intro strict_sorted_equal) auto
  then show ?thesis using inj by (rule map_inj_on)
qed

section \<open>Planning from deltas\<close>

lemma plan_deltas_conflicts:
  "\<exists>changes cs. plan_deltas od td = settle_plan changes cs"
  by (auto simp: plan_deltas_def Let_def)

lemma delta_has_descendant_sound:
  assumes "delta_has_descendant ds d"
  shows "\<exists>p. p \<in> fst ` set ds \<and> is_descendant p d"
proof -
  from assms obtain p v where
    "find (\<lambda>(path, _). path \<noteq> d) (filter (\<lambda>(path, _). d \<le> path) ds) = Some (p, v)"
    and p: "is_descendant p d" by (auto simp: delta_has_descendant_def split: option.splits)
  then have "(p, v) \<in> set (filter (\<lambda>(path, _). d \<le> path) ds)"
    unfolding find_Some_iff by (metis nth_mem)
  with p show ?thesis by force
qed

section \<open>A store in which planning over trees misses a conflict\<close>

abbreviation plain_entry :: "bytes \<Rightarrow> tree_entry" where
  "plain_entry name \<equiv> sample_entry name 1"

abbreviation dir_entry :: "bytes \<Rightarrow> object_id \<Rightarrow> tree_entry" where
  "dir_entry name t \<equiv> (sample_entry name 0)\<lparr>te_kind := Directory, te_target := Some t\<rparr>"

definition leaf_of :: "tree_entry list \<Rightarrow> tree result" where
  "leaf_of es = Inr \<lparr>tr_entries = es, tr_pages = []\<rparr>"

definition sibling_read :: "unit read_tree" where
  "sibling_read _ i =
     (if i = ''base'' then leaf_of [dir_entry ''d'' ''sub'']
      else if i = ''ours'' then leaf_of []
      else if i = ''theirs'' then leaf_of [dir_entry ''d'' ''sub2'', plain_entry ''d-x'']
      else if i = ''sub'' then leaf_of [plain_entry ''f'']
      else if i = ''sub2'' then leaf_of [plain_entry ''f'', plain_entry ''new'']
      else Inl (Bail ''missing object''))"

definition sibling_base :: listing where
  "sibling_base = [(''d'', dir_entry ''d'' ''sub''), (''d/f'', plain_entry ''f'')]"

definition sibling_theirs :: listing where
  "sibling_theirs = [(''d'', dir_entry ''d'' ''sub2''), (''d-x'', plain_entry ''d-x''),
     (''d/f'', plain_entry ''f''), (''d/new'', plain_entry ''new'')]"

definition deleted_read :: "unit read_tree" where
  "deleted_read _ i =
     (if i = ''base'' then leaf_of [dir_entry ''d'' ''sub'']
      else if i = ''ours'' then leaf_of []
      else if i = ''theirs'' then leaf_of [plain_entry ''z'']
      else if i = ''sub'' then leaf_of [plain_entry ''f'']
      else Inl (Bail ''missing object''))"

section \<open>Properties\<close>


text \<open>
  C8: a plan without conflicts loses nothing. Applied to ours, it gives at every path what theirs
  has where only theirs changed, what ours has where only ours changed, and where both changed they
  agree (all up to timestamps and the targets of directories).
\<close>

theorem merge_loses_nothing:
  assumes "mp_conflicts (plan b o' t) = []"
  shows "(equivalent (bt_get b p) (bt_get o' p) \<longrightarrow> equivalent (merged b o' t p) (bt_get t p))
    \<and> (equivalent (bt_get b p) (bt_get t p) \<longrightarrow> equivalent (merged b o' t p) (bt_get o' p))
    \<and> (\<not> equivalent (bt_get b p) (bt_get o' p) \<and> \<not> equivalent (bt_get b p) (bt_get t p)
       \<longrightarrow> equivalent (bt_get o' p) (bt_get t p) \<and> equivalent (merged b o' t p) (bt_get o' p))"
  using no_conflict_cases(1) [OF assms, of p] merged_eq [OF assms, of p]
    equivalent_trans [of "bt_get t p" "bt_get b p" "bt_get o' p"] equivalent_sym
  unfolding take_theirs_def clash_def by auto

text \<open>
  C9: a plan without conflicts over two well-formed hierarchies gives a well-formed hierarchy: no
  path is left below something that is not a directory. This is what the ancestor conflicts are for.
\<close>

theorem merge_keeps_hierarchy:
  assumes "hierarchical (bt_get o')" and "hierarchical (bt_get t)"
    and "mp_conflicts (plan b o' t) = []"
  shows "hierarchical (merged b o' t)"
  by (rule merged_hierarchical [OF assms])

text \<open>The conflicts do not depend on which side is called ours.\<close>

theorem conflicts_symmetric:
  "mp_conflicts (plan b o' t) = mp_conflicts (plan b t o')"
proof (rule strictly_sorted_by_key_eq [OF plan_conflicts_sorted plan_conflicts_sorted])
  have clash: "clash (bt_get b) (bt_get o') (bt_get t) p = clash (bt_get b) (bt_get t) (bt_get o') p" for p
    using equivalent_sym by (auto simp: clash_def)
  have anc: "ancestor_conflict b o' t p = ancestor_conflict b t o' p" for p
    using equivalent_sym by (auto simp: ancestor_conflict_def)
  show "set (mp_conflicts (plan b o' t)) = set (mp_conflicts (plan b t o'))"
    unfolding plan_conflict_set clash anc
    by (simp add: direct_conflict_sym [where o' = "bt_get o' _"] cong: image_cong)
qed




section \<open>Witnesses\<close>

definition two_dirs :: listing where
  "two_dirs = [(''d'', dir_entry ''d'' ''sub''), (''d/f'', plain_entry ''f''), (''e'', plain_entry ''e'')]"

definition one_dir :: listing where
  "one_dir = [(''d'', dir_entry ''d'' ''sub''), (''d/f'', plain_entry ''f'')]"

lemma sample_plan: "mp_conflicts (plan one_dir two_dirs one_dir) = []"
  by code_simp


theorem merge_loses_nothing_witness:
  "equivalent (merged one_dir two_dirs one_dir ''e'') (Some (plain_entry ''e''))"
proof -
  have "equivalent (bt_get one_dir ''e'') (bt_get one_dir ''e'')" by simp
  moreover have "bt_get two_dirs ''e'' = Some (plain_entry ''e'')" by (simp add: two_dirs_def)
  ultimately show ?thesis using merge_loses_nothing [OF sample_plan, of "''e''"] by metis
qed

lemma is_descendant_iff: "is_descendant p d \<longleftrightarrow> (\<exists>r. p = d @ CHR ''/'' # r)"
proof
  assume "is_descendant p d"
  then have "length d < length p" "take (length d) p = d" "p ! length d = CHR ''/''"
    by (auto simp: is_descendant_def)
  then have "p = d @ CHR ''/'' # drop (Suc (length d)) p" using id_take_nth_drop by metis
  then show "\<exists>r. p = d @ CHR ''/'' # r" by blast
qed (auto simp: is_descendant_def nth_append)

lemma sample_hierarchical: "hierarchical (bt_get two_dirs)" "hierarchical (bt_get one_dir)"
  by (auto simp: hierarchical_def two_dirs_def one_dir_def is_descendant_iff is_directory_def
      Cons_eq_append_conv split: if_splits)

theorem merge_keeps_hierarchy_witness:
  "hierarchical (merged one_dir two_dirs one_dir)"
  by (rule merge_keeps_hierarchy [OF sample_hierarchical sample_plan])


end
