(* ===== verification/Pack_Store.thy ===== *)
theory Pack_Store
  imports Object_Map
begin

text \<open>
  The append-only object store: pack files with self-describing records and the catalog that
  indexes them (\<^verbatim>\<open>furrow-core/src/store.rs\<close> and the object tables of
  \<^verbatim>\<open>furrow-core/src/catalog.rs\<close>). The tables are association lists: \<open>objects\<close> has the id as its
  primary key, \<open>pack_checkpoints\<close> the pack name. A \<open>catalog.batch\<close> is a transaction: an error
  inside it rolls the tables back, so an operation that fails returns no new state. File and
  advisory locks are not part of the state: one store operation runs at a time.
\<close>

section \<open>The catalog's object tables\<close>

record location =
  loc_kind :: object_kind
  loc_pack :: string
  loc_offset :: nat
  loc_len :: nat

record checkpoint =
  ck_verified_len :: nat
  ck_object_count :: nat
  ck_last_object :: "object_id option"
  ck_last_record_start :: nat

type_synonym object_rows = "(object_id \<times> location) list"

definition OBJECT_MAGIC :: bytes where "OBJECT_MAGIC = ''AGOB''"
definition OBJECT_END :: bytes where "OBJECT_END = ''AGND''"
definition OBJECT_VERSION :: byte where "OBJECT_VERSION = CHR 0x01"
definition HEADER_LEN :: nat where "HEADER_LEN = 4 + 1 + 1 + 8 + 32 + 32"

definition object_row :: "object_rows \<Rightarrow> object_id \<Rightarrow> location option" where
  "object_row rows i = map_of rows i"

definition row_end :: "location \<Rightarrow> nat" where
  "row_end loc = loc_offset loc + loc_len loc + 4"

definition pack_prefix_object_count :: "object_rows \<Rightarrow> string \<Rightarrow> nat \<Rightarrow> nat" where
  "pack_prefix_object_count rows pack verified_len =
     length (filter (\<lambda>(i, loc). loc_pack loc = pack \<and> row_end loc \<le> verified_len) rows)"

definition pack_crossing_object_count :: "object_rows \<Rightarrow> string \<Rightarrow> nat \<Rightarrow> nat" where
  "pack_crossing_object_count rows pack verified_len =
     length (filter (\<lambda>(i, loc). loc_pack loc = pack \<and> loc_offset loc < verified_len
        \<and> row_end loc > verified_len) rows)"

definition pack_high_water :: "object_rows \<Rightarrow> string \<Rightarrow> nat" where
  "pack_high_water rows pack =
     foldr (\<lambda>(i, loc) m. if loc_pack loc = pack then max (row_end loc) m else m) rows 0"

definition insert_object :: "object_id \<Rightarrow> location \<Rightarrow> object_rows \<Rightarrow> object_rows" where
  "insert_object i loc rows = (if object_row rows i \<noteq> None then rows else rows @ [(i, loc)])"

definition delete_pack_objects_from :: "string \<Rightarrow> nat \<Rightarrow> object_rows \<Rightarrow> object_rows" where
  "delete_pack_objects_from pack payload_offset rows =
     filter (\<lambda>(i, loc). \<not> (loc_pack loc = pack \<and> loc_offset loc \<ge> payload_offset)) rows"

definition delete_pack_objects :: "string \<Rightarrow> object_rows \<Rightarrow> object_rows" where
  "delete_pack_objects pack rows = filter (\<lambda>(i, loc). loc_pack loc \<noteq> pack) rows"

section \<open>The store\<close>

record append_run =
  ar_pack :: string
  ar_start :: nat
  ar_end :: nat
  ar_objects :: nat
  ar_last_object :: object_id
  ar_last_record_start :: nat

record pack_store =
  ps_packs :: "string \<rightharpoonup> bytes"             \<comment> \<open>the files under \<open>packs/\<close>\<close>
  ps_active :: string                       \<comment> \<open>\<open>active_pack\<close>, the content of \<open>CURRENT\<close>\<close>
  ps_objects :: object_rows
  ps_checkpoints :: "string \<rightharpoonup> checkpoint"
  ps_known_end :: nat
  ps_unsynced :: "append_run option"
  ps_frontier :: "(string \<rightharpoonup> nat) option"   \<comment> \<open>the packs of \<open>group-commit.json\<close>, when it exists\<close>
  ps_healed :: bool
  ps_generation :: nat                      \<comment> \<open>how often the capture caches were forgotten\<close>

definition file_len :: "pack_store \<Rightarrow> string \<Rightarrow> nat" where
  "file_len s name = (case ps_packs s name of None \<Rightarrow> 0 | Some bs \<Rightarrow> length bs)"

definition reset_pack_index :: "string \<Rightarrow> pack_store \<Rightarrow> pack_store" where
  "reset_pack_index pack s =
     s\<lparr>ps_objects := delete_pack_objects pack (ps_objects s),
       ps_checkpoints := (ps_checkpoints s)(pack := None)\<rparr>"

definition forget_capture_caches :: "pack_store \<Rightarrow> pack_store" where
  "forget_capture_caches s = s\<lparr>ps_generation := Suc (ps_generation s)\<rparr>"

fun run_then :: "append_run option \<Rightarrow> string \<Rightarrow> object_id \<Rightarrow> nat \<Rightarrow> nat \<Rightarrow> append_run" where
  "run_then (Some run) pack i start end' =
     (if ar_pack run = pack \<and> ar_end run = start
      then run\<lparr>ar_end := end', ar_objects := ar_objects run + 1, ar_last_object := i,
               ar_last_record_start := start\<rparr>
      else \<lparr>ar_pack = pack, ar_start = start, ar_end = end', ar_objects = 1, ar_last_object = i,
            ar_last_record_start = start\<rparr>)"
| "run_then None pack i start end' =
     \<lparr>ar_pack = pack, ar_start = start, ar_end = end', ar_objects = 1, ar_last_object = i,
      ar_last_record_start = start\<rparr>"

definition run_extend :: "append_run \<Rightarrow> checkpoint \<Rightarrow> checkpoint option" where
  "run_extend run ck =
     (if ck_verified_len ck = ar_start run
      then Some \<lparr>ck_verified_len = ar_end run,
                 ck_object_count = ck_object_count ck + ar_objects run,
                 ck_last_object = Some (ar_last_object run),
                 ck_last_record_start = ar_last_record_start run\<rparr>
      else None)"

section \<open>Records\<close>

text \<open>What an append writes: magic, version and kind, length, id, checksum, payload, trailer.\<close>

definition encode_record :: "lib \<Rightarrow> object_kind \<Rightarrow> bytes \<Rightarrow> bytes" where
  "encode_record L kind bs =
     OBJECT_MAGIC @ [OBJECT_VERSION, char_of (kind_u8 kind)] @ le_bytes 8 (length bs)
     @ object_id L kind bs @ blake3 L bs @ bs @ OBJECT_END"

text \<open>
  One turn of the recovery scan on the unread rest of the pack: the record is complete, it breaks
  off (\<open>Torn\<close>), or it is damaged, with the message of the check that failed.
\<close>

datatype scanned = Torn | Damaged string | Complete object_kind bytes object_id bytes

definition check_payload ::
  "lib \<Rightarrow> object_kind \<Rightarrow> bytes \<Rightarrow> bytes \<Rightarrow> nat \<Rightarrow> bytes \<Rightarrow> scanned" where
  "check_payload L kind i checksum len rest =
     (let payload = take len rest; after = drop len rest in
      if take 4 after \<noteq> OBJECT_END \<or> blake3 L payload \<noteq> checksum \<or> object_id L kind payload \<noteq> i
      then Damaged ''object pack checksum or trailer mismatch''
      else Complete kind payload i (drop 4 after))"

definition scan_record :: "lib \<Rightarrow> bytes \<Rightarrow> scanned" where
  "scan_record L rest0 =
     (case read_exact 4 rest0 of None \<Rightarrow> Torn | Some (magic, rest1) \<Rightarrow>
      if magic \<noteq> OBJECT_MAGIC then Damaged ''object pack corruption''
      else case read_exact 2 rest1 of None \<Rightarrow> Torn | Some (meta, rest2) \<Rightarrow>
      if meta ! 0 \<noteq> OBJECT_VERSION then Damaged ''invalid object pack version or kind''
      else case kind_from_u8 (of_char (meta ! 1)) of
        None \<Rightarrow> Damaged ''invalid object pack version or kind''
      | Some kind \<Rightarrow>
      case read_exact 8 rest2 of None \<Rightarrow> Torn | Some (len_bytes, rest3) \<Rightarrow>
      let len = le_val len_bytes in
      if len > MAX_OBJECT_LEN then Damaged ''object pack record exceeds size limit''
      else case read_exact 32 rest3 of None \<Rightarrow> Torn | Some (i, rest4) \<Rightarrow>
      case read_exact 32 rest4 of None \<Rightarrow> Torn | Some (checksum, rest5) \<Rightarrow>
      if length rest5 < len + length OBJECT_END then Torn
      else check_payload L kind i checksum len rest5)"

lemma scan_record_shorter:
  "scan_record L rest = Complete kind payload i rest' \<Longrightarrow> length rest' < length rest"
  by (auto simp: scan_record_def check_payload_def read_exact_def Let_def OBJECT_END_def
      split: if_splits option.splits)

definition truncate_pack_tail :: "pack_store \<Rightarrow> nat \<Rightarrow> pack_store result" where
  "truncate_pack_tail s record_start =
     (let name = ps_active s;
          durable = (case ps_frontier s of
              None \<Rightarrow> 0
            | Some f \<Rightarrow> (case f name of None \<Rightarrow> 0 | Some len \<Rightarrow> len)) in
      ensure (ps_frontier s = None \<or> record_start \<ge> durable) ''durable object pack prefix is corrupt''
      (Inr ((forget_capture_caches s)\<lparr>
         ps_packs := (ps_packs s)(name := map_option (take record_start) (ps_packs s name)),
         ps_objects := delete_pack_objects_from name (record_start + HEADER_LEN) (ps_objects s)\<rparr>)))"

record scan_state =
  sc_store :: pack_store
  sc_offset :: nat
  sc_count :: nat
  sc_last :: "object_id option"
  sc_last_start :: nat

definition durable_len :: "pack_store \<Rightarrow> nat option" where
  "durable_len s = map_option (\<lambda>f. case f (ps_active s) of None \<Rightarrow> 0 | Some len \<Rightarrow> len) (ps_frontier s)"

definition scan_insert :: "scan_state \<Rightarrow> object_kind \<Rightarrow> object_id \<Rightarrow> nat \<Rightarrow> scan_state" where
  "scan_insert st kind i len =
     (let s = sc_store st in
      st\<lparr>sc_store := s\<lparr>ps_objects := insert_object i
             \<lparr>loc_kind = kind, loc_pack = ps_active s, loc_offset = sc_offset st + HEADER_LEN,
              loc_len = len\<rparr> (ps_objects s)\<rparr>,
         sc_offset := sc_offset st + HEADER_LEN + len + 4,
         sc_count := sc_count st + 1,
         sc_last := Some i,
         sc_last_start := sc_offset st\<rparr>)"

function scan_loop :: "lib \<Rightarrow> scan_state \<Rightarrow> bytes \<Rightarrow> scan_state result" where
  "scan_loop L st rest =
     (if rest = [] then Inr st
      else case scan_record L rest of
        Torn \<Rightarrow> rbind (truncate_pack_tail (sc_store st) (sc_offset st)) (\<lambda>s. Inr (st\<lparr>sc_store := s\<rparr>))
      | Damaged msg \<Rightarrow>
          ensure (ps_frontier (sc_store st) \<noteq> None
              \<and> sc_offset st \<ge> (case durable_len (sc_store st) of None \<Rightarrow> 0 | Some len \<Rightarrow> len)) msg
          (rbind (truncate_pack_tail (sc_store st) (sc_offset st)) (\<lambda>s. Inr (st\<lparr>sc_store := s\<rparr>)))
      | Complete kind payload i rest' \<Rightarrow> scan_loop L (scan_insert st kind i (length payload)) rest')"
  by pat_completeness auto
termination
  by (relation "measure (\<lambda>(L, st, rest). length rest)") (auto dest: scan_record_shorter)

declare scan_loop.simps [simp del]

section \<open>Recovery\<close>

definition header_matches :: "bytes \<Rightarrow> checkpoint \<Rightarrow> location \<Rightarrow> object_id \<Rightarrow> bool" where
  "header_matches pack ck loc last_id \<longleftrightarrow>
     (let header = take HEADER_LEN (drop (ck_last_record_start ck) pack) in
      length header = HEADER_LEN
      \<and> take 4 header = OBJECT_MAGIC
      \<and> header ! 4 = OBJECT_VERSION
      \<and> kind_from_u8 (of_char (header ! 5)) = Some (loc_kind loc)
      \<and> le_val (take 8 (drop 6 header)) = loc_len loc
      \<and> take 32 (drop 14 header) = last_id)
     \<and> take 4 (drop (ck_verified_len ck - 4) pack) = OBJECT_END"

definition validate_checkpoint :: "pack_store \<Rightarrow> bytes \<Rightarrow> checkpoint \<Rightarrow> bool" where
  "validate_checkpoint s pack ck =
     (if ck_verified_len ck > length pack
         \<or> pack_high_water (ps_objects s) (ps_active s) > ck_verified_len ck then False
      else if ck_object_count ck = 0 then ck_verified_len ck = 0 \<and> ck_last_object ck = None
      else case ck_last_object ck of
        None \<Rightarrow> False
      | Some last_id \<Rightarrow>
          (case object_row (ps_objects s) last_id of
             None \<Rightarrow> False
           | Some loc \<Rightarrow>
               if loc_pack loc \<noteq> ps_active s
                  \<or> loc_offset loc \<noteq> ck_last_record_start ck + HEADER_LEN
                  \<or> loc_offset loc + loc_len loc + 4 \<noteq> ck_verified_len ck
               then False
               else header_matches pack ck loc last_id))"

definition scan_start :: "pack_store \<Rightarrow> checkpoint option \<Rightarrow> scan_state" where
  "scan_start s valid =
     (case valid of
        None \<Rightarrow> \<lparr>sc_store = s, sc_offset = 0, sc_count = 0, sc_last = None, sc_last_start = 0\<rparr>
      | Some ck \<Rightarrow> \<lparr>sc_store = s, sc_offset = ck_verified_len ck, sc_count = ck_object_count ck,
                    sc_last = ck_last_object ck, sc_last_start = ck_last_record_start ck\<rparr>)"

definition recover_pack_locked :: "lib \<Rightarrow> pack_store \<Rightarrow> pack_store result" where
  "recover_pack_locked L s =
     (let name = ps_active s in
      case ps_packs s name of
        None \<Rightarrow> Inr s
      | Some pack \<Rightarrow>
          let s1 = (if pack_high_water (ps_objects s) name > length pack
                    then forget_capture_caches s else s);
              durable = durable_len s;
              fits = (\<lambda>c. case durable of None \<Rightarrow> True | Some len \<Rightarrow> ck_verified_len c \<le> len);
              ck = (case ps_checkpoints s name of
                      None \<Rightarrow> None
                    | Some c \<Rightarrow> if fits c \<and> validate_checkpoint s pack c then Some c else None) in
          ensure (case durable of None \<Rightarrow> True | Some len \<Rightarrow> length pack \<ge> len)
            ''durable object pack prefix was lost''
          (let s2 = (if ck = None then reset_pack_index name s1 else s1);
               st = scan_start s2 ck;
               s3 = s2\<lparr>ps_objects :=
                 delete_pack_objects_from name (sc_offset st + HEADER_LEN) (ps_objects s2)\<rparr> in
           rbind (scan_loop L (st\<lparr>sc_store := s3\<rparr>) (drop (sc_offset st) pack)) (\<lambda>done.
           if sc_offset done = sc_offset st then Inr (sc_store done)
           else Inr ((sc_store done)\<lparr>ps_checkpoints := (ps_checkpoints (sc_store done))(name \<mapsto>
                  \<lparr>ck_verified_len = sc_offset done, ck_object_count = sc_count done,
                   ck_last_object = sc_last done, ck_last_record_start = sc_last_start done\<rparr>)\<rparr>))))"

definition pack_is_settled :: "pack_store \<Rightarrow> bool" where
  "pack_is_settled s =
     (case ps_packs s (ps_active s) of
        None \<Rightarrow> False
      | Some pack \<Rightarrow>
          (case ps_checkpoints s (ps_active s) of
             None \<Rightarrow> False
           | Some ck \<Rightarrow>
               if ck_verified_len ck \<noteq> length pack then False
               else if (case durable_len s of None \<Rightarrow> False | Some len \<Rightarrow> len \<noteq> length pack) then False
               else validate_checkpoint s pack ck))"

definition recover_pack :: "lib \<Rightarrow> pack_store \<Rightarrow> pack_store result" where
  "recover_pack L s =
     (let name = ps_active s in
      if ps_packs s name = None
      then ensure (case durable_len s of None \<Rightarrow> True | Some len \<Rightarrow> len = 0)
             ''durable object pack is missing''
           (if pack_high_water (ps_objects s) name > 0
            then ensure (ps_frontier s \<noteq> None) ''durable object pack is missing''
                 (Inr (forget_capture_caches (reset_pack_index name s)))
            else Inr s)
      else if pack_is_settled s then Inr s
      else recover_pack_locked L s)"

section \<open>Writing and reading\<close>

definition append_record :: "lib \<Rightarrow> pack_store \<Rightarrow> object_kind \<Rightarrow> bytes \<Rightarrow> pack_store" where
  "append_record L s kind bs =
     (let name = ps_active s;
          old = (case ps_packs s name of None \<Rightarrow> [] | Some pack \<Rightarrow> pack);
          record_start = length old;
          i = object_id L kind bs;
          new = old @ encode_record L kind bs;
          end' = length new in
      s\<lparr>ps_packs := (ps_packs s)(name \<mapsto> new),
        ps_known_end := end',
        ps_unsynced := Some (run_then (ps_unsynced s) name i record_start end'),
        ps_objects := insert_object i \<lparr>loc_kind = kind, loc_pack = name,
           loc_offset = record_start + HEADER_LEN, loc_len = length bs\<rparr> (ps_objects s)\<rparr>)"

definition put_bytes_locked ::
  "lib \<Rightarrow> pack_store \<Rightarrow> object_kind \<Rightarrow> bytes \<Rightarrow> (object_id \<times> pack_store) result" where
  "put_bytes_locked L s kind bs =
     ensure (length bs \<le> MAX_OBJECT_LEN) ''object exceeds size limit''
     (let i = object_id L kind bs in
      if object_row (ps_objects s) i \<noteq> None then Inr (i, s)
      else rbind (if file_len s (ps_active s) \<noteq> ps_known_end s
                  then rbind (recover_pack_locked L s) (\<lambda>s1.
                       Inr (s1\<lparr>ps_known_end := file_len s1 (ps_active s1)\<rparr>))
                  else Inr s) (\<lambda>s2.
           if object_row (ps_objects s2) i = None
           then Inr (i, append_record L s2 kind bs) else Inr (i, s2)))"

definition read_located :: "lib \<Rightarrow> pack_store \<Rightarrow> object_id \<Rightarrow> object_kind \<Rightarrow> bytes result" where
  "read_located L s i expected =
     rbind (of_opt ''missing object'' (object_row (ps_objects s) i)) (\<lambda>loc.
     ensure (loc_kind loc = expected) ''object kind mismatch''
     (rbind (of_opt ''No such file or directory'' (ps_packs s (loc_pack loc))) (\<lambda>pack.
      rbind (of_opt ''failed to fill whole buffer''
               (read_exact (loc_len loc) (drop (loc_offset loc) pack))) (\<lambda>(bs, _).
      ensure (object_id L expected bs = i) ''object integrity check failed'' (Inr bs)))))"

definition verify_index :: "lib \<Rightarrow> pack_store \<Rightarrow> bool \<Rightarrow> ((nat \<times> bool) \<times> pack_store) result" where
  "verify_index L s deep =
     (let name = ps_active s;
          agrees = (case ps_checkpoints s name of
              Some ck \<Rightarrow>
                pack_prefix_object_count (ps_objects s) name (ck_verified_len ck) = ck_object_count ck
                \<and> pack_crossing_object_count (ps_objects s) name (ck_verified_len ck) = 0
            | None \<Rightarrow> pack_high_water (ps_objects s) name = 0) in
      rbind (if \<not> agrees \<or> deep then recover_pack_locked L (reset_pack_index name s) else Inr s)
        (\<lambda>s'. Inr (((case ps_checkpoints s' name of None \<Rightarrow> 0 | Some ck \<Rightarrow> ck_object_count ck),
                    \<not> agrees), s')))"

text \<open>\<open>idle\<close> says that no catalog transaction is open on the connection.\<close>

definition heal_index :: "lib \<Rightarrow> pack_store \<Rightarrow> bool \<Rightarrow> bool \<times> pack_store" where
  "heal_index L s idle =
     (let s1 = s\<lparr>ps_healed := True\<rparr> in
      if ps_healed s \<or> \<not> idle then (False, s1)
      else case verify_index L s1 False of
        Inl _ \<Rightarrow> (False, s1)
      | Inr ((_, repaired), s2) \<Rightarrow> (repaired, s2))"

definition read_bytes ::
  "lib \<Rightarrow> pack_store \<Rightarrow> bool \<Rightarrow> object_id \<Rightarrow> object_kind \<Rightarrow> bytes result \<times> pack_store" where
  "read_bytes L s idle i expected =
     (case read_located L s i expected of
        Inr bs \<Rightarrow> (Inr bs, s)
      | Inl e \<Rightarrow>
          (let (healed, s') = heal_index L s idle in
           if healed then (read_located L s' i expected, s') else (Inl e, s')))"

definition advance_checkpoint :: "pack_store \<Rightarrow> append_run \<Rightarrow> pack_store" where
  "advance_checkpoint s run =
     (let ck = (case ps_checkpoints s (ar_pack run) of
          Some c \<Rightarrow> c
        | None \<Rightarrow> \<lparr>ck_verified_len = 0, ck_object_count = 0, ck_last_object = None,
                   ck_last_record_start = 0\<rparr>) in
      case run_extend run ck of
        Some next \<Rightarrow> s\<lparr>ps_checkpoints := (ps_checkpoints s)(ar_pack run \<mapsto> next)\<rparr>
      | None \<Rightarrow> s)"

definition sync_active_pack :: "pack_store \<Rightarrow> pack_store" where
  "sync_active_pack s =
     (case ps_unsynced s of
        None \<Rightarrow> s
      | Some run \<Rightarrow> advance_checkpoint (s\<lparr>ps_unsynced := None\<rparr>) run)"

end
