(* ===== verification/Pack_Theorems.thy ===== *)
theory Pack_Theorems
  imports Pack_Store
begin

text \<open>
  Correctness of the pack store: it implements the object map, a record that was appended is what
  the recovery scan reads, and recovery after a crash keeps exactly the objects whose records are
  complete in the file.
\<close>

section \<open>Records and the scan\<close>

type_synonym pack_record = "object_kind \<times> bytes"

definition pack_of :: "lib \<Rightarrow> pack_record list \<Rightarrow> bytes" where
  "pack_of L recs = concat (map (\<lambda>(k, b). encode_record L k b) recs)"

definition rec_id :: "lib \<Rightarrow> pack_record \<Rightarrow> object_id" where
  "rec_id L r = object_id L (fst r) (snd r)"

definition rec_len :: "pack_record \<Rightarrow> nat" where
  "rec_len r = HEADER_LEN + length (snd r) + 4"

lemmas record_consts = OBJECT_MAGIC_def OBJECT_END_def OBJECT_VERSION_def HEADER_LEN_def

lemma pack_of_simps [simp]:
  "pack_of L [] = []"
  "pack_of L (r # recs) = encode_record L (fst r) (snd r) @ pack_of L recs"
  "pack_of L (xs @ ys) = pack_of L xs @ pack_of L ys"
  by (auto simp: pack_of_def split: prod.split)

lemma digest_simps:
  assumes "digest_length L"
  shows "length (blake3 L b) = 32" and "length (object_id L k b) = 32"
  using assms by (simp_all add: digest_length_def object_id_def)

lemma length_encode_record:
  "digest_length L \<Longrightarrow> length (encode_record L k b) = HEADER_LEN + length b + 4"
  by (simp add: encode_record_def record_consts digest_simps)

lemma length_pack_of:
  "digest_length L \<Longrightarrow> length (pack_of L recs) = sum_list (map rec_len recs)"
  by (induction recs) (auto simp: length_encode_record rec_len_def)

lemma MAX_OBJECT_LEN_fits: "len \<le> MAX_OBJECT_LEN \<Longrightarrow> len < 256 ^ 8"
  by (simp add: MAX_OBJECT_LEN_def)

lemma magic_lengths [simp]: "length OBJECT_MAGIC = 4" "length OBJECT_END = 4"
  by (simp_all add: OBJECT_MAGIC_def OBJECT_END_def)

lemma read_exact_meta [simp]: "read_exact 2 (a # b # rest) = Some ([a, b], rest)"
  by (simp add: read_exact_def)

lemma kind_of_byte [simp]: "of_char (char_of (kind_u8 k) :: byte) = kind_u8 k"
  using kind_u8_lt [of k] by (simp add: take_bit_eq_mod)

lemma encode_record_fields:
  "encode_record L k b @ rest = OBJECT_MAGIC @ (OBJECT_VERSION # char_of (kind_u8 k) #
      (le_bytes 8 (length b) @ (object_id L k b @ (blake3 L b @ (b @ (OBJECT_END @ rest))))))"
  by (simp add: encode_record_def)

lemma scan_record_encode:
  assumes "digest_length L" and "length b \<le> MAX_OBJECT_LEN"
  shows "scan_record L (encode_record L k b @ rest) = Complete k b (object_id L k b) rest"
proof -
  note len = digest_simps [OF assms(1)]
  have v: "le_val (le_bytes 8 (length b)) = length b"
    by (rule le_val_le_bytes [OF MAX_OBJECT_LEN_fits [OF assms(2)]])
  show ?thesis
    unfolding encode_record_fields scan_record_def
    using assms(2) by (simp add: len v check_payload_def Let_def)
qed

text \<open>Reading a field of a text that breaks off: the field is incomplete, or it is whole.\<close>

lemma read_exact_cut:
  assumes "strict_prefix t (a @ b)" and "length a = n"
    and "P None" and "\<And>u. strict_prefix u b \<Longrightarrow> P (Some (a, u))"
  shows "P (read_exact n t)"
proof -
  from assms(1) have "prefix t a \<or> (\<exists>u. t = a @ u \<and> prefix u b)"
    by (simp add: strict_prefix_def prefix_append)
  then show ?thesis
  proof (elim disjE exE conjE)
    assume pre: "prefix t a"
    show ?thesis
    proof (cases "t = a")
      case True
      with assms(1) have "strict_prefix [] b" by (auto simp: strict_prefix_def)
      with True assms(2,4) show ?thesis by (simp add: read_exact_def)
    next
      case False
      with pre have "length t < length a" by (simp add: prefix_length_less strict_prefix_def)
      with assms(2,3) show ?thesis by (simp add: read_exact_def)
    qed
  next
    fix u assume "t = a @ u" "prefix u b"
    with assms show ?thesis by (auto simp: strict_prefix_def)
  qed
qed

text \<open>A record that breaks off anywhere is recognised as torn, never as damaged.\<close>

lemma scan_record_torn:
  assumes "digest_length L" and "length b \<le> MAX_OBJECT_LEN" and "strict_prefix t (encode_record L k b)"
  shows "scan_record L t = Torn"
proof -
  note len = digest_simps [OF assms(1)]
  have v: "le_val (le_bytes 8 (length b)) = length b"
    by (rule le_val_le_bytes [OF MAX_OBJECT_LEN_fits [OF assms(2)]])
  let ?i = "object_id L k b" and ?meta = "[OBJECT_VERSION, char_of (kind_u8 k)]"
  let ?r5 = "b @ OBJECT_END"
  let ?r4 = "blake3 L b @ ?r5"
  let ?r3 = "?i @ ?r4"
  let ?r2 = "le_bytes 8 (length b) @ ?r3"
  let ?f4 = "\<lambda>i. case_option Torn (\<lambda>(c, r). if length r < length b + length OBJECT_END then Torn
      else check_payload L k i c (length b) r)"
  let ?f3 = "case_option Torn (\<lambda>(i, r). ?f4 i (read_exact 32 r))"
  have f4: "?f4 ?i (read_exact 32 t4) = Torn" if "strict_prefix t4 ?r4" for t4
    by (rule read_exact_cut [OF that len(1)]) (auto dest: prefix_length_less)
  have f3: "?f3 (read_exact 32 t3) = Torn" if "strict_prefix t3 ?r3" for t3
    by (rule read_exact_cut [OF that len(2)]) (simp_all add: f4 [simplified])
  have f2: "(case read_exact 8 t2 of None \<Rightarrow> Torn | Some (lb, r) \<Rightarrow>
      let n = le_val lb in if n > MAX_OBJECT_LEN then Damaged ''object pack record exceeds size limit''
      else case read_exact 32 r of None \<Rightarrow> Torn | Some (i, r4) \<Rightarrow>
      case read_exact 32 r4 of None \<Rightarrow> Torn | Some (c, r5) \<Rightarrow>
      if length r5 < n + length OBJECT_END then Torn else check_payload L k i c n r5) = Torn"
    if "strict_prefix t2 ?r2" for t2
  proof (rule read_exact_cut [OF that])
    fix u assume "strict_prefix u ?r3"
    from f3 [OF this] assms(2) show "(case Some (le_bytes 8 (length b), u) of None \<Rightarrow> Torn | Some (lb, r) \<Rightarrow>
      let n = le_val lb in if n > MAX_OBJECT_LEN then Damaged ''object pack record exceeds size limit''
      else case read_exact 32 r of None \<Rightarrow> Torn | Some (i, r4) \<Rightarrow>
      case read_exact 32 r4 of None \<Rightarrow> Torn | Some (c, r5) \<Rightarrow>
      if length r5 < n + length OBJECT_END then Torn else check_payload L k i c n r5) = Torn"
      unfolding option.case prod.case Let_def v by simp
  qed simp_all
  have "strict_prefix t (OBJECT_MAGIC @ (?meta @ ?r2))"
    using assms(3) encode_record_fields [of L k b "[]"] by simp
  then show ?thesis
    unfolding scan_record_def
  proof (rule read_exact_cut, simp, simp)
    fix t1 assume t1: "strict_prefix t1 (?meta @ ?r2)"
    show "(case Some (OBJECT_MAGIC, t1) of None \<Rightarrow> Torn | Some (magic, rest1) \<Rightarrow>
      if magic \<noteq> OBJECT_MAGIC then Damaged ''object pack corruption''
      else case read_exact 2 rest1 of None \<Rightarrow> Torn | Some (meta, rest2) \<Rightarrow>
      if meta ! 0 \<noteq> OBJECT_VERSION then Damaged ''invalid object pack version or kind''
      else case kind_from_u8 (of_char (meta ! 1)) of
        None \<Rightarrow> Damaged ''invalid object pack version or kind''
      | Some kind \<Rightarrow>
      case read_exact 8 rest2 of None \<Rightarrow> Torn | Some (len_bytes, rest3) \<Rightarrow>
      let len = le_val len_bytes in
      if len > MAX_OBJECT_LEN then Damaged ''object pack record exceeds size limit''
      else case read_exact 32 rest3 of None \<Rightarrow> Torn | Some (i, rest4) \<Rightarrow>
      case read_exact 32 rest4 of None \<Rightarrow> Torn | Some (checksum, rest5) \<Rightarrow>
      if length rest5 < len + length OBJECT_END then Torn
      else check_payload L kind i checksum len rest5) = Torn"
      by (simp, rule read_exact_cut [OF t1]) (use f2 in simp_all)
  qed
qed

section \<open>The scan over whole packs\<close>

fun rows_from :: "lib \<Rightarrow> string \<Rightarrow> nat \<Rightarrow> pack_record list \<Rightarrow> object_rows" where
  "rows_from L name off [] = []"
| "rows_from L name off (r # recs) =
     (rec_id L r, \<lparr>loc_kind = fst r, loc_pack = name, loc_offset = off + HEADER_LEN,
        loc_len = length (snd r)\<rparr>) # rows_from L name (off + rec_len r) recs"

lemma rows_from_append:
  "rows_from L name off (xs @ ys)
     = rows_from L name off xs @ rows_from L name (off + sum_list (map rec_len xs)) ys"
  by (induction xs arbitrary: off) (auto simp: add.assoc)

lemma fst_rows_from [simp]: "map fst (rows_from L name off recs) = map (rec_id L) recs"
  by (induction recs arbitrary: off) auto

definition scan_done :: "lib \<Rightarrow> scan_state \<Rightarrow> pack_record list \<Rightarrow> scan_state" where
  "scan_done L st recs =
     \<lparr>sc_store = (sc_store st)\<lparr>ps_objects := ps_objects (sc_store st)
         @ rows_from L (ps_active (sc_store st)) (sc_offset st) recs\<rparr>,
      sc_offset = sc_offset st + sum_list (map rec_len recs),
      sc_count = sc_count st + length recs,
      sc_last = (if recs = [] then sc_last st else Some (rec_id L (last recs))),
      sc_last_start = (if recs = [] then sc_last_start st
         else sc_offset st + sum_list (map rec_len (butlast recs)))\<rparr>"

definition recs_ok :: "lib \<Rightarrow> pack_record list \<Rightarrow> bool" where
  "recs_ok L recs \<longleftrightarrow> (\<forall>r\<in>set recs. length (snd r) \<le> MAX_OBJECT_LEN) \<and> distinct (map (rec_id L) recs)"

lemma scan_loop_records:
  assumes "digest_length L" and "recs_ok L recs"
    and "\<forall>r\<in>set recs. object_row (ps_objects (sc_store st)) (rec_id L r) = None"
  shows "scan_loop L st (pack_of L recs @ tail) = scan_loop L (scan_done L st recs) tail"
  using assms(2,3)
proof (induction recs arbitrary: st)
  case (Cons r recs)
  obtain k b where r: "r = (k, b)" by (cases r)
  let ?st = "scan_insert st k (object_id L k b) (length b)"
  have b: "length b \<le> MAX_OBJECT_LEN" using Cons.prems(1) r by (simp add: recs_ok_def)
  have ne: "encode_record L k b \<noteq> []" by (simp add: encode_record_def)
  have "scan_loop L st (pack_of L (r # recs) @ tail) = scan_loop L ?st (pack_of L recs @ tail)"
    using scan_record_encode [OF assms(1) b, of k "pack_of L recs @ tail"] ne r
    by (subst scan_loop.simps) simp
  also have "\<dots> = scan_loop L (scan_done L ?st recs) tail"
  proof (rule Cons.IH)
    show "recs_ok L recs" using Cons.prems(1) by (simp add: recs_ok_def)
    show "\<forall>r\<in>set recs. object_row (ps_objects (sc_store ?st)) (rec_id L r) = None"
      using Cons.prems r
      by (force simp: scan_insert_def Let_def insert_object_def object_row_def recs_ok_def rec_id_def)
  qed
  also have "scan_done L ?st recs = scan_done L st (r # recs)"
    using Cons.prems(2) r
    by (auto simp: scan_done_def scan_insert_def Let_def insert_object_def rec_id_def rec_len_def
        add.assoc)
  finally show ?case .
next
  case Nil
  have "scan_done L st [] = st" by (cases st) (simp add: scan_done_def)
  then show ?case by simp
qed


definition torn :: "lib \<Rightarrow> bytes \<Rightarrow> bool" where
  "torn L tail \<longleftrightarrow>
     (\<exists>k b. length b \<le> MAX_OBJECT_LEN \<and> strict_prefix tail (encode_record L k b))"

lemma rows_from_bounds:
  "(i, loc) \<in> set (rows_from L name off recs) \<Longrightarrow>
     loc_pack loc = name \<and> off + HEADER_LEN \<le> loc_offset loc
     \<and> row_end loc \<le> off + sum_list (map rec_len recs)"
  by (induction recs arbitrary: off) (fastforce simp: row_end_def rec_len_def)+

lemma delete_from_id:
  "\<forall>(i, loc)\<in>set rows. loc_pack loc = name \<longrightarrow> loc_offset loc < n \<Longrightarrow>
     delete_pack_objects_from name n rows = rows"
  by (auto simp: delete_pack_objects_from_def intro!: filter_True)

definition durable_within :: "pack_store \<Rightarrow> nat \<Rightarrow> bool" where
  "durable_within s n \<longleftrightarrow> (case durable_len s of None \<Rightarrow> True | Some d \<Rightarrow> d \<le> n)"

lemma truncate_pack_tail_ok:
  assumes "durable_within s n" and "ps_packs s (ps_active s) = Some pack"
    and "\<forall>(i, loc)\<in>set (ps_objects s). loc_pack loc = ps_active s \<longrightarrow> loc_offset loc < n + HEADER_LEN"
  shows "truncate_pack_tail s n = Inr (s\<lparr>ps_generation := Suc (ps_generation s),
     ps_packs := (ps_packs s)(ps_active s \<mapsto> take n pack)\<rparr>)"
  using assms
  by (auto simp: truncate_pack_tail_def durable_within_def durable_len_def forget_capture_caches_def
      delete_from_id Let_def split: option.splits)

text \<open>
  The scan from a record boundary: every complete record is indexed, a torn tail is cut off.
\<close>

lemma scan_loop_recovers:
  assumes dl: "digest_length L" and ok: "recs_ok L recs" and torn: "torn L tail"
    and st: "sc_store st = s" "sc_offset st = length pre"
    and pack: "ps_packs s (ps_active s) = Some (pre @ pack_of L recs @ tail)"
    and fresh: "\<forall>r\<in>set recs. object_row (ps_objects s) (rec_id L r) = None"
    and rows: "\<forall>(i, loc)\<in>set (ps_objects s). loc_pack loc = ps_active s \<longrightarrow>
                 loc_offset loc < length pre + HEADER_LEN"
    and durable: "durable_within s (length pre + sum_list (map rec_len recs))"
  shows "\<exists>g. scan_loop L st (pack_of L recs @ tail) = Inr ((scan_done L st recs)\<lparr>sc_store :=
     s\<lparr>ps_objects := ps_objects s @ rows_from L (ps_active s) (length pre) recs,
       ps_packs := (ps_packs s)(ps_active s \<mapsto> pre @ pack_of L recs), ps_generation := g\<rparr>\<rparr>)"
proof -
  let ?s = "s\<lparr>ps_objects := ps_objects s @ rows_from L (ps_active s) (length pre) recs\<rparr>"
  let ?st = "scan_done L st recs"
  have sc: "sc_store ?st = ?s" "sc_offset ?st = length pre + sum_list (map rec_len recs)"
    using st by (simp_all add: scan_done_def)
  have loop: "scan_loop L st (pack_of L recs @ tail) = scan_loop L ?st tail"
    using scan_loop_records [OF dl ok] fresh st by simp
  show ?thesis
  proof (cases "tail = []")
    case True
    have "?s\<lparr>ps_packs := (ps_packs s)(ps_active s \<mapsto> pre @ pack_of L recs),
        ps_generation := ps_generation s\<rparr> = ?s"
      using pack True by (simp add: fun_upd_idem)
    with loop True sc show ?thesis
      by (intro exI [of _ "ps_generation s"]) (simp add: scan_loop.simps [of L ?st])
  next
    case False
    from torn obtain k b where "length b \<le> MAX_OBJECT_LEN" "strict_prefix tail (encode_record L k b)"
      by (auto simp: torn_def)
    from scan_record_torn [OF dl this] have t: "scan_record L tail = Torn" .
    have "truncate_pack_tail ?s (sc_offset ?st) = Inr (?s\<lparr>ps_generation := Suc (ps_generation ?s),
        ps_packs := (ps_packs ?s)(ps_active ?s \<mapsto> take (sc_offset ?st) (pre @ pack_of L recs @ tail))\<rparr>)"
    proof (rule truncate_pack_tail_ok)
      show "durable_within ?s (sc_offset ?st)"
        using durable sc by (simp add: durable_within_def durable_len_def)
      show "\<forall>(i, loc)\<in>set (ps_objects ?s). loc_pack loc = ps_active ?s \<longrightarrow>
          loc_offset loc < sc_offset ?st + HEADER_LEN"
        using rows sc rows_from_bounds [of _ _ L "ps_active s" "length pre" recs]
        by (fastforce simp: row_end_def)
    qed (use pack in simp)
    moreover have "take (sc_offset ?st) (pre @ pack_of L recs @ tail) = pre @ pack_of L recs"
      using sc(2) length_pack_of [OF dl, of recs] by simp
    ultimately have "scan_loop L ?st tail = Inr (?st\<lparr>sc_store := ?s\<lparr>ps_generation :=
        Suc (ps_generation s), ps_packs := (ps_packs s)(ps_active s \<mapsto> pre @ pack_of L recs)\<rparr>\<rparr>)"
      using False t sc by (simp add: scan_loop.simps [of L ?st])
    with loop show ?thesis by (intro exI [of _ "Suc (ps_generation s)"]) simp
  qed
qed


section \<open>Recovery after a crash\<close>

text \<open>How many whole records the first \<open>n\<close> bytes of a pack hold.\<close>

fun whole :: "pack_record list \<Rightarrow> nat \<Rightarrow> nat" where
  "whole [] n = 0"
| "whole (r # recs) n = (if rec_len r \<le> n then Suc (whole recs (n - rec_len r)) else 0)"

lemma whole_le: "whole recs n \<le> length recs"
  by (induction recs n rule: whole.induct) auto

lemma whole_max: "m \<le> length recs \<Longrightarrow> sum_list (map rec_len (take m recs)) \<le> n \<Longrightarrow> m \<le> whole recs n"
proof (induction recs n arbitrary: m rule: whole.induct)
  case (2 r recs n)
  then show ?case by (cases m) auto
qed simp

lemma torn_Nil: "torn L []"
proof -
  have "strict_prefix [] (encode_record L Chunk [])" by (simp add: encode_record_def strict_prefix_def)
  then show ?thesis unfolding torn_def by (intro exI [of _ Chunk] exI [of _ "[]"]) simp
qed

lemma take_pack_of:
  assumes "digest_length L" and "recs_ok L recs"
  shows "\<exists>tail. take n (pack_of L recs) = pack_of L (take (whole recs n) recs) @ tail \<and> torn L tail"
  using assms(2)
proof (induction recs n rule: whole.induct)
  case (2 r recs n)
  note len = length_encode_record [OF assms(1), of "fst r" "snd r"]
  have b: "length (snd r) \<le> MAX_OBJECT_LEN" and ok: "recs_ok L recs"
    using 2(2) by (simp_all add: recs_ok_def)
  show ?case
  proof (cases "rec_len r \<le> n")
    case True
    with 2(1) ok len show ?thesis by (auto simp: rec_len_def)
  next
    case False
    then have "length (take n (encode_record L (fst r) (snd r))) < length (encode_record L (fst r) (snd r))"
      using len by (simp add: rec_len_def)
    then have "strict_prefix (take n (encode_record L (fst r) (snd r))) (encode_record L (fst r) (snd r))"
      by (metis take_is_prefix strict_prefix_def less_irrefl)
    with False b len show ?thesis by (auto simp: torn_def rec_len_def)
  qed
qed (simp add: torn_Nil)

abbreviation pack_rows :: "string \<Rightarrow> object_rows \<Rightarrow> object_rows" where
  "pack_rows name rows \<equiv> filter (\<lambda>(i, loc). loc_pack loc = name) rows"

text \<open>
  The state a crash leaves: the active pack is cut to its first \<open>n\<close> bytes; the catalog, which
  loses a suffix of its transactions, has the rows of the first \<open>j\<close> records and no checkpoint or
  one for the first \<open>m \<le> j\<close> records.
\<close>

definition crashed :: "lib \<Rightarrow> pack_store \<Rightarrow> pack_record list \<Rightarrow> nat \<Rightarrow> nat \<Rightarrow> nat \<Rightarrow> bool" where
  "crashed L s recs n j m \<longleftrightarrow>
     recs_ok L recs \<and> m \<le> j \<and> j \<le> length recs
     \<and> ps_packs s (ps_active s) = Some (take n (pack_of L recs))
     \<and> pack_rows (ps_active s) (ps_objects s) = rows_from L (ps_active s) 0 (take j recs)
     \<and> (\<forall>(i, loc)\<in>set (ps_objects s). loc_pack loc \<noteq> ps_active s \<longrightarrow> i \<notin> rec_id L ` set recs)
     \<and> (\<forall>ck. ps_checkpoints s (ps_active s) = Some ck \<longrightarrow>
           ck_verified_len ck = sum_list (map rec_len (take m recs)))
     \<and> durable_within s (sum_list (map rec_len (take (whole recs n) recs)))"

lemma pack_high_water_ge:
  "(i, loc) \<in> set rows \<Longrightarrow> loc_pack loc = name \<Longrightarrow> row_end loc \<le> pack_high_water rows name"
proof (induction rows)
  case (Cons row rows)
  then show ?case by (cases row) (auto simp: pack_high_water_def)
qed simp

lemma high_water_settles:
  assumes "pack_rows name rows = rows_from L name 0 (take j recs)" and "m \<le> j" and "j \<le> length recs"
    and "pack_high_water rows name \<le> sum_list (map rec_len (take m recs))"
  shows "j = m"
proof (rule ccontr)
  assume "j \<noteq> m"
  with assms(2) have "m < j" by simp
  then have split: "take j recs = take m recs @ recs ! m # drop (Suc m) (take j recs)"
    using assms(3) id_take_nth_drop [of m "take j recs"] by (simp add: min_def)
  let ?loc = "\<lparr>loc_kind = fst (recs ! m), loc_pack = name,
      loc_offset = sum_list (map rec_len (take m recs)) + HEADER_LEN, loc_len = length (snd (recs ! m))\<rparr>"
  have "(rec_id L (recs ! m), ?loc) \<in> set (pack_rows name rows)"
    unfolding assms(1) by (subst split) (simp add: rows_from_append)
  then have "row_end ?loc \<le> pack_high_water rows name" by (auto intro: pack_high_water_ge)
  with assms(4) show False by (simp add: row_end_def)
qed


lemma rows_of_others_kept:
  "filter (\<lambda>(i, loc). loc_pack loc \<noteq> name) (rows @ rows_from L name off recs)
     = filter (\<lambda>(i, loc). loc_pack loc \<noteq> name) rows"
proof -
  have "filter (\<lambda>(i, loc). loc_pack loc \<noteq> name) (rows_from L name off recs) = []"
    by (auto simp: filter_empty_conv dest: rows_from_bounds)
  then show ?thesis by simp
qed

lemma pack_rows_append:
  "pack_rows name (rows @ rows_from L name off recs) = pack_rows name rows @ rows_from L name off recs"
proof -
  have "pack_rows name (rows_from L name off recs) = rows_from L name off recs"
    by (auto intro!: filter_True dest: rows_from_bounds)
  then show ?thesis by simp
qed

text \<open>What recovery leaves, given the records that survive.\<close>

definition recovered :: "lib \<Rightarrow> pack_store \<Rightarrow> pack_store \<Rightarrow> pack_record list \<Rightarrow> bool" where
  "recovered L s s' recs \<longleftrightarrow>
     ps_active s' = ps_active s
     \<and> ps_packs s' = (ps_packs s)(ps_active s \<mapsto> pack_of L recs)
     \<and> pack_rows (ps_active s) (ps_objects s') = rows_from L (ps_active s) 0 recs
     \<and> filter (\<lambda>(i, loc). loc_pack loc \<noteq> ps_active s) (ps_objects s')
         = filter (\<lambda>(i, loc). loc_pack loc \<noteq> ps_active s) (ps_objects s)"

lemma recover_from_boundary:
  assumes dl: "digest_length L" and ok: "recs_ok L (old @ new)" and torn: "torn L tail"
    and pack: "ps_packs s (ps_active s) = Some (pack_of L (old @ new) @ tail)"
    and rows: "pack_rows (ps_active s) (ps_objects s) = rows_from L (ps_active s) 0 old"
    and others: "\<forall>(i, loc)\<in>set (ps_objects s). loc_pack loc \<noteq> ps_active s \<longrightarrow>
                   i \<notin> rec_id L ` set (old @ new)"
    and st: "sc_store st = s" "sc_offset st = sum_list (map rec_len old)"
    and durable: "durable_within s (sum_list (map rec_len (old @ new)))"
  shows "\<exists>done. scan_loop L st (drop (sc_offset st) (pack_of L (old @ new) @ tail)) = Inr done
     \<and> recovered L s (sc_store done) (old @ new)"
proof -
  let ?n = "ps_active s"
  note len = length_pack_of [OF dl, of old]
  have drop: "drop (sc_offset st) (pack_of L (old @ new) @ tail) = pack_of L new @ tail"
    using st(2) len by simp
  have all_rows: "loc_pack loc = ?n \<Longrightarrow> (i, loc) \<in> set (ps_objects s) \<Longrightarrow>
      (i, loc) \<in> set (rows_from L ?n 0 old)" for i loc
    unfolding rows [symmetric] by simp
  have ids: "fst ` set (rows_from L ?n 0 old) = rec_id L ` set old"
    by (metis fst_rows_from list.set_map)
  have fresh: "\<forall>r\<in>set new. object_row (ps_objects s) (rec_id L r) = None"
  proof
    fix r assume r: "r \<in> set new"
    then have "rec_id L r \<notin> rec_id L ` set old" using ok by (auto simp: recs_ok_def)
    then have nin: "(rec_id L r, loc) \<notin> set (rows_from L ?n 0 old)" for loc
      unfolding ids [symmetric] by force
    have "(rec_id L r, loc) \<notin> set (ps_objects s)" for loc
      using others r all_rows [of loc "rec_id L r"] nin [of loc] by (cases "loc_pack loc = ?n") auto
    then show "object_row (ps_objects s) (rec_id L r) = None"
      by (auto simp: object_row_def map_of_eq_None_iff)
  qed
  have bound: "\<forall>(i, loc)\<in>set (ps_objects s). loc_pack loc = ?n \<longrightarrow>
      loc_offset loc < length (pack_of L old) + HEADER_LEN"
  proof (clarify)
    fix i loc assume "(i, loc) \<in> set (ps_objects s)" "loc_pack loc = ?n"
    from rows_from_bounds [OF all_rows [OF this(2,1)]] len
    show "loc_offset loc < length (pack_of L old) + HEADER_LEN" by (simp add: row_end_def HEADER_LEN_def)
  qed
  have "recs_ok L new" using ok by (simp add: recs_ok_def)
  from scan_loop_recovers [OF dl this torn st(1) _ _ fresh bound] pack durable st(2) len
  obtain g where "scan_loop L st (pack_of L new @ tail) = Inr ((scan_done L st new)\<lparr>sc_store :=
     s\<lparr>ps_objects := ps_objects s @ rows_from L ?n (length (pack_of L old)) new,
       ps_packs := (ps_packs s)(?n \<mapsto> pack_of L old @ pack_of L new), ps_generation := g\<rparr>\<rparr>)"
    by auto
  with drop rows len show ?thesis
    by (auto simp: recovered_def rows_from_append pack_rows_append rows_of_others_kept
        simp del: filter_append)
qed


text \<open>The checkpoint that recovery starts from, when it is trusted.\<close>

definition trusted_checkpoint :: "pack_store \<Rightarrow> bytes \<Rightarrow> checkpoint option" where
  "trusted_checkpoint s pack =
     (case ps_checkpoints s (ps_active s) of
        None \<Rightarrow> None
      | Some c \<Rightarrow> if (case durable_len s of None \<Rightarrow> True | Some len \<Rightarrow> ck_verified_len c \<le> len)
                    \<and> validate_checkpoint s pack c then Some c else None)"

definition recovery_base :: "pack_store \<Rightarrow> bytes \<Rightarrow> pack_store" where
  "recovery_base s pack =
     (let s1 = (if pack_high_water (ps_objects s) (ps_active s) > length pack
                then forget_capture_caches s else s);
          s2 = (if trusted_checkpoint s pack = None then reset_pack_index (ps_active s) s1 else s1) in
      s2\<lparr>ps_objects := delete_pack_objects_from (ps_active s)
           (sc_offset (scan_start s2 (trusted_checkpoint s pack)) + HEADER_LEN) (ps_objects s2)\<rparr>)"

lemma recover_pack_locked_eq:
  assumes "ps_packs s (ps_active s) = Some pack" and "durable_within s (length pack)"
  shows "recover_pack_locked L s =
    (let st = (scan_start s (trusted_checkpoint s pack))\<lparr>sc_store := recovery_base s pack\<rparr> in
     rbind (scan_loop L st (drop (sc_offset st) pack)) (\<lambda>done.
     if sc_offset done = sc_offset st then Inr (sc_store done)
     else Inr ((sc_store done)\<lparr>ps_checkpoints := (ps_checkpoints (sc_store done))(ps_active s \<mapsto>
            \<lparr>ck_verified_len = sc_offset done, ck_object_count = sc_count done,
             ck_last_object = sc_last done, ck_last_record_start = sc_last_start done\<rparr>)\<rparr>)))"
proof -
  have off: "sc_offset (scan_start x ck) = (case ck of None \<Rightarrow> 0 | Some c \<Rightarrow> ck_verified_len c)"
    and upd: "(scan_start x ck)\<lparr>sc_store := z\<rparr> = scan_start z ck" for x z ck
    by (auto simp: scan_start_def split: option.split)
  have d: "(case durable_len s of None \<Rightarrow> True | Some len \<Rightarrow> len \<le> length pack)"
    using assms(2) by (simp add: durable_within_def)
  show ?thesis
    unfolding recover_pack_locked_def Let_def trusted_checkpoint_def [symmetric] assms(1) option.case
      recovery_base_def
    using d by (simp add: off upd)
qed


lemma recovery_base_same [simp]:
  "ps_packs (recovery_base s pack) = ps_packs s"
  "ps_active (recovery_base s pack) = ps_active s"
  "ps_frontier (recovery_base s pack) = ps_frontier s"
  by (simp_all add: recovery_base_def Let_def reset_pack_index_def forget_capture_caches_def)

lemma recovery_base_durable [simp]:
  "durable_within (recovery_base s pack) n = durable_within s n"
  by (cases "ps_frontier s") (simp_all add: durable_within_def durable_len_def)

lemma recovery_base_untrusted:
  assumes "trusted_checkpoint s pack = None"
  shows "ps_objects (recovery_base s pack) = filter (\<lambda>(i, loc). loc_pack loc \<noteq> ps_active s) (ps_objects s)"
  using assms
  by (auto simp: recovery_base_def Let_def reset_pack_index_def forget_capture_caches_def
      delete_pack_objects_def delete_pack_objects_from_def intro!: filter_cong)

lemma recovery_base_trusted:
  assumes "trusted_checkpoint s pack = Some ck"
    and "\<forall>(i, loc)\<in>set (ps_objects s). loc_pack loc = ps_active s \<longrightarrow>
           loc_offset loc < ck_verified_len ck + HEADER_LEN"
  shows "ps_objects (recovery_base s pack) = ps_objects s"
  using assms
  by (simp add: recovery_base_def Let_def forget_capture_caches_def scan_start_def delete_from_id)

lemma trusted_checkpointD:
  assumes "trusted_checkpoint s pack = Some ck"
  shows "ps_checkpoints s (ps_active s) = Some ck \<and> ck_verified_len ck \<le> length pack
    \<and> pack_high_water (ps_objects s) (ps_active s) \<le> ck_verified_len ck"
  using assms
  by (auto simp: trusted_checkpoint_def validate_checkpoint_def split: option.splits if_splits)

text \<open>
  In a crashed state, whatever checkpoint recovery trusts, the rows it starts from are those of
  the first records of the pack, and they are survivors.
\<close>

lemma crashed_start:
  assumes "crashed L s recs n j m" and "pack = take n (pack_of L recs)"
  shows "\<exists>d. d \<le> whole recs n
     \<and> sc_offset (scan_start s (trusted_checkpoint s pack)) = sum_list (map rec_len (take d recs))
     \<and> pack_rows (ps_active s) (ps_objects (recovery_base s pack)) = rows_from L (ps_active s) 0 (take d recs)
     \<and> filter (\<lambda>(i, loc). loc_pack loc \<noteq> ps_active s) (ps_objects (recovery_base s pack))
         = filter (\<lambda>(i, loc). loc_pack loc \<noteq> ps_active s) (ps_objects s)"
proof (cases "trusted_checkpoint s pack")
  case None
  then show ?thesis
    by (intro exI [of _ 0]) (auto simp: scan_start_def recovery_base_untrusted filter_empty_conv)
next
  case (Some ck)
  note ck = trusted_checkpointD [OF Some]
  from assms(1) ck have v: "ck_verified_len ck = sum_list (map rec_len (take m recs))"
    and rows: "pack_rows (ps_active s) (ps_objects s) = rows_from L (ps_active s) 0 (take j recs)"
    and mj: "m \<le> j" "j \<le> length recs" by (auto simp: crashed_def)
  from high_water_settles [OF rows mj] ck v have j: "j = m" by simp
  have "length pack \<le> n" using assms(2) by simp
  with ck v mj j have m: "m \<le> whole recs n" by (intro whole_max) auto
  have "\<forall>(i, loc)\<in>set (ps_objects s). loc_pack loc = ps_active s \<longrightarrow>
      loc_offset loc < ck_verified_len ck + HEADER_LEN"
  proof clarify
    fix i loc assume "(i, loc) \<in> set (ps_objects s)" "loc_pack loc = ps_active s"
    from pack_high_water_ge [OF this] ck
    show "loc_offset loc < ck_verified_len ck + HEADER_LEN" by (simp add: row_end_def)
  qed
  from recovery_base_trusted [OF Some this] Some v rows j m show ?thesis
    by (intro exI [of _ m]) (simp add: scan_start_def)
qed

lemma recover_crashed:
  assumes dl: "digest_length L" and cr: "crashed L s recs n j m"
  shows "\<exists>s'. recover_pack_locked L s = Inr s' \<and> recovered L s s' (take (whole recs n) recs)"
proof -
  let ?w = "whole recs n" and ?pack = "take n (pack_of L recs)"
  let ?b = "recovery_base s ?pack"
  let ?st = "(scan_start s (trusted_checkpoint s ?pack))\<lparr>sc_store := ?b\<rparr>"
  from cr have ok: "recs_ok L recs" and p: "ps_packs s (ps_active s) = Some ?pack"
    and others: "\<forall>(i, loc)\<in>set (ps_objects s). loc_pack loc \<noteq> ps_active s \<longrightarrow> i \<notin> rec_id L ` set recs"
    and dur: "durable_within s (sum_list (map rec_len (take ?w recs)))" by (auto simp: crashed_def)
  from take_pack_of [OF dl ok, of n] obtain tail where
    tail: "?pack = pack_of L (take ?w recs) @ tail" "torn L tail" by blast
  from crashed_start [OF cr refl] obtain d where d: "d \<le> ?w"
    "sc_offset ?st = sum_list (map rec_len (take d recs))"
    "pack_rows (ps_active s) (ps_objects ?b) = rows_from L (ps_active s) 0 (take d recs)"
    "filter (\<lambda>(i, loc). loc_pack loc \<noteq> ps_active s) (ps_objects ?b)
       = filter (\<lambda>(i, loc). loc_pack loc \<noteq> ps_active s) (ps_objects s)" by auto
  have w: "take ?w recs = take d recs @ drop d (take ?w recs)"
    using d(1) by (metis append_take_drop_id min.absorb1 take_take)
  have ok': "recs_ok L (take ?w recs)"
    using ok by (auto simp: recs_ok_def take_map [symmetric] dest: in_set_takeD)
  have others': "\<forall>(i, loc)\<in>set (ps_objects ?b). loc_pack loc \<noteq> ps_active ?b \<longrightarrow>
      i \<notin> rec_id L ` set (take ?w recs)"
  proof clarify
    fix i loc r assume "(rec_id L r, loc) \<in> set (ps_objects ?b)" "loc_pack loc \<noteq> ps_active ?b"
      and r: "r \<in> set (take ?w recs)"
    then have "(rec_id L r, loc) \<in> set (filter (\<lambda>(i, loc). loc_pack loc \<noteq> ps_active s) (ps_objects ?b))"
      by simp
    then have "(rec_id L r, loc) \<in> set (ps_objects s)" "loc_pack loc \<noteq> ps_active s"
      unfolding d(4) by simp_all
    with others in_set_takeD [OF r] show False by auto
  qed
  have "\<exists>done. scan_loop L ?st (drop (sc_offset ?st) (pack_of L (take d recs @ drop d (take ?w recs)) @ tail))
      = Inr done \<and> recovered L ?b (sc_store done) (take d recs @ drop d (take ?w recs))"
    by (rule recover_from_boundary [OF dl _ tail(2)])
      (use ok' others' p tail(1) d(2,3) dur in \<open>simp_all add: w [symmetric] del: pack_of_simps(3)\<close>)
  then obtain dn where dn: "scan_loop L ?st (drop (sc_offset ?st) ?pack) = Inr dn"
    "recovered L ?b (sc_store dn) (take ?w recs)" unfolding w [symmetric] tail(1) by blast
  have "durable_within s (length ?pack)"
    using dur tail(1) length_pack_of [OF dl, of "take ?w recs"]
    by (auto simp: durable_within_def split: option.splits)
  note eq = recover_pack_locked_eq [OF p this, of L]
  show ?thesis
    unfolding eq Let_def dn(1) rbind.simps
    using dn(2) d(4) by (auto simp: recovered_def)
qed


section \<open>The store implements the object map\<close>

definition abs_store :: "pack_store \<Rightarrow> object_map" where
  "abs_store s i =
     (case object_row (ps_objects s) i of
        None \<Rightarrow> None
      | Some loc \<Rightarrow> (case ps_packs s (loc_pack loc) of
          None \<Rightarrow> None
        | Some pack \<Rightarrow> Some (loc_kind loc, take (loc_len loc) (drop (loc_offset loc) pack))))"

text \<open>Every row points at the bytes of its object, and no other process appended.\<close>

definition row_ok :: "lib \<Rightarrow> (string \<rightharpoonup> bytes) \<Rightarrow> object_id \<times> location \<Rightarrow> bool" where
  "row_ok L packs = (\<lambda>(i, loc).
     (case packs (loc_pack loc) of
        None \<Rightarrow> False
      | Some pack \<Rightarrow> loc_offset loc + loc_len loc \<le> length pack
          \<and> object_id L (loc_kind loc) (take (loc_len loc) (drop (loc_offset loc) pack)) = i))"

definition store_ok :: "lib \<Rightarrow> pack_store \<Rightarrow> bool" where
  "store_ok L s \<longleftrightarrow> ps_known_end s = file_len s (ps_active s)
     \<and> (\<forall>row\<in>set (ps_objects s). row_ok L (ps_packs s) row)"

lemma row_ok_append:
  assumes "row_ok L packs row" and "packs name = Some old \<or> packs name = None \<and> old = []"
  shows "row_ok L (packs(name \<mapsto> old @ new)) row"
  using assms by (auto simp: row_ok_def split: option.splits prod.splits)

lemma slice_append:
  "off + len \<le> length old \<Longrightarrow> take len (drop off (old @ new)) = take len (drop off old)"
  by simp

lemma append_record_slice:
  assumes "digest_length L"
  shows "take (length b) (drop (length old + HEADER_LEN) (old @ encode_record L k b)) = b"
proof -
  have "encode_record L k b = (OBJECT_MAGIC @ [OBJECT_VERSION, char_of (kind_u8 k)]
      @ le_bytes 8 (length b) @ object_id L k b @ blake3 L b) @ (b @ OBJECT_END)"
    by (simp add: encode_record_def)
  moreover have "length (OBJECT_MAGIC @ [OBJECT_VERSION, char_of (kind_u8 k)]
      @ le_bytes 8 (length b) @ object_id L k b @ blake3 L b) = HEADER_LEN"
    by (simp add: digest_simps [OF assms] HEADER_LEN_def)
  ultimately have "drop HEADER_LEN (encode_record L k b) = b @ OBJECT_END"
    by (metis append_eq_conv_conj)
  then show ?thesis by simp
qed

lemma append_record_refines:
  assumes "digest_length L" and "store_ok L s" and "object_row (ps_objects s) (object_id L k b) = None"
  shows "store_ok L (append_record L s k b)
    \<and> abs_store (append_record L s k b) = (abs_store s)(object_id L k b \<mapsto> (k, b))"
proof -
  define old where "old = (case ps_packs s (ps_active s) of None \<Rightarrow> [] | Some pack \<Rightarrow> pack)"
  let ?i = "object_id L k b" and ?new = "old @ encode_record L k b"
  let ?loc = "\<lparr>loc_kind = k, loc_pack = ps_active s, loc_offset = length old + HEADER_LEN,
      loc_len = length b\<rparr>"
  let ?packs = "(ps_packs s)(ps_active s \<mapsto> ?new)"
  have s': "ps_objects (append_record L s k b) = ps_objects s @ [(?i, ?loc)]"
      "ps_packs (append_record L s k b) = ?packs" "ps_active (append_record L s k b) = ps_active s"
      "ps_known_end (append_record L s k b) = length ?new"
    using assms(3) by (simp_all add: append_record_def Let_def old_def insert_object_def)
  have old: "ps_packs s (ps_active s) = Some old \<or> ps_packs s (ps_active s) = None \<and> old = []"
    by (simp add: old_def split: option.split)
  have rows: "\<forall>row\<in>set (ps_objects s). row_ok L ?packs row"
    using assms(2) row_ok_append [where packs = "ps_packs s", OF _ old] by (simp add: store_ok_def)
  have new: "row_ok L ?packs (?i, ?loc)"
    using append_record_slice [OF assms(1), of b old k] length_encode_record [OF assms(1), of k b]
    by (simp add: row_ok_def)
  have "store_ok L (append_record L s k b)"
    using rows new by (simp add: store_ok_def file_len_def s')
  moreover have "abs_store (append_record L s k b) j = ((abs_store s)(?i \<mapsto> (k, b))) j" for j
  proof (cases "object_row (ps_objects s) j")
    case None
    with append_record_slice [OF assms(1), of b old k] show ?thesis
      by (auto simp: abs_store_def s' object_row_def map_add_def)
  next
    case (Some loc)
    then have "(j, loc) \<in> set (ps_objects s)" by (simp add: object_row_def map_of_SomeD)
    with assms(2) have ok: "row_ok L (ps_packs s) (j, loc)" by (simp add: store_ok_def)
    from Some assms(3) have "j \<noteq> ?i" by auto
    then show ?thesis
      using Some ok old
      by (auto simp: abs_store_def s' object_row_def map_add_def row_ok_def split: option.splits)
  qed
  ultimately show ?thesis by (auto simp: fun_eq_iff)
qed

lemma abs_store_row:
  assumes "store_ok L s"
  shows "abs_store s i = None \<longleftrightarrow> object_row (ps_objects s) i = None"
proof (cases "object_row (ps_objects s) i")
  case (Some loc)
  then have "(i, loc) \<in> set (ps_objects s)" by (simp add: object_row_def map_of_SomeD)
  with assms have "row_ok L (ps_packs s) (i, loc)" by (simp add: store_ok_def)
  with Some show ?thesis by (auto simp: abs_store_def row_ok_def split: option.splits)
qed (simp add: abs_store_def)


text \<open>A read of a recovered record gives its bytes back.\<close>

lemma rows_from_slice:
  assumes "digest_length L" and "(i, loc) \<in> set (rows_from L name (length pre) recs)"
  shows "\<exists>r\<in>set recs. i = rec_id L r \<and> loc_kind loc = fst r \<and> loc_len loc = length (snd r)
     \<and> read_exact (loc_len loc) (drop (loc_offset loc) (pre @ pack_of L recs @ post))
         = Some (snd r, drop (loc_offset loc + loc_len loc) (pre @ pack_of L recs @ post))"
  using assms(2)
proof (induction recs arbitrary: pre)
  case (Cons r recs)
  note len = length_encode_record [OF assms(1), of "fst r" "snd r"]
  let ?e = "encode_record L (fst r) (snd r)"
  show ?case
  proof (cases "(i, loc) \<in> set (rows_from L name (length (pre @ ?e)) recs)")
    case True
    from Cons.IH [OF this] show ?thesis by auto
  next
    case False
    with Cons.prems have row: "i = rec_id L r" "loc = \<lparr>loc_kind = fst r, loc_pack = name,
        loc_offset = length pre + HEADER_LEN, loc_len = length (snd r)\<rparr>"
      by (auto simp: len rec_len_def add.assoc)
    have "take (length (snd r)) (drop (length pre + HEADER_LEN) (pre @ ?e)) = snd r"
      by (rule append_record_slice [OF assms(1)])
    then have "read_exact (length (snd r)) (drop (length pre + HEADER_LEN) (pre @ ?e @ pack_of L recs @ post))
      = Some (snd r, drop (length pre + HEADER_LEN + length (snd r)) (pre @ ?e @ pack_of L recs @ post))"
      by (simp add: read_exact_def len add.commute)
    with row show ?thesis by (intro bexI [of _ r]) (simp_all add: add.assoc)
  qed
qed simp

lemma recovered_reads:
  assumes dl: "digest_length L" and ok: "recs_ok L recs" and rec: "recovered L s s' recs"
    and others: "\<forall>(i, loc)\<in>set (ps_objects s). loc_pack loc \<noteq> ps_active s \<longrightarrow> i \<notin> rec_id L ` set recs"
    and r: "r \<in> set recs"
  shows "read_located L s' (rec_id L r) (fst r) = Inr (snd r)"
proof -
  let ?n = "ps_active s" and ?i = "rec_id L r"
  have rows: "pack_rows ?n (ps_objects s') = rows_from L ?n 0 recs" using rec by (simp add: recovered_def)
  have only: "(?i, loc) \<in> set (rows_from L ?n 0 recs)" if "(?i, loc) \<in> set (ps_objects s')" for loc
  proof (cases "loc_pack loc = ?n")
    case True
    with that show ?thesis unfolding rows [symmetric] by simp
  next
    case False
    with that have "(?i, loc) \<in> set (filter (\<lambda>(i, loc). loc_pack loc \<noteq> ?n) (ps_objects s'))" by simp
    moreover have "filter (\<lambda>(i, loc). loc_pack loc \<noteq> ?n) (ps_objects s')
        = filter (\<lambda>(i, loc). loc_pack loc \<noteq> ?n) (ps_objects s)" using rec by (simp add: recovered_def)
    ultimately have "(?i, loc) \<in> set (ps_objects s)" by simp
    with False others r show ?thesis by auto
  qed
  have "?i \<in> fst ` set (rows_from L ?n 0 recs)" using r by (metis fst_rows_from imageI list.set_map)
  then have "?i \<in> fst ` set (ps_objects s')" unfolding rows [symmetric] by auto
  then obtain loc where loc: "object_row (ps_objects s') ?i = Some loc"
    unfolding object_row_def by (metis map_of_eq_None_iff option.exhaust)
  then have row: "(?i, loc) \<in> set (rows_from L ?n 0 recs)"
    using only by (simp add: object_row_def map_of_SomeD)
  from rows_from_slice [OF dl, of ?i loc ?n "[]" recs "[]"] row obtain r' where
    r': "r' \<in> set recs" "?i = rec_id L r'" "loc_kind loc = fst r'"
      "read_exact (loc_len loc) (drop (loc_offset loc) (pack_of L recs))
         = Some (snd r', drop (loc_offset loc + loc_len loc) (pack_of L recs))" by auto
  have "r' = r" using ok r r'(1,2) by (auto simp: recs_ok_def distinct_map inj_on_def)
  moreover have "ps_packs s' (loc_pack loc) = Some (pack_of L recs)"
    using rows_from_bounds [OF row] rec by (simp add: recovered_def)
  ultimately show ?thesis
    using loc r' by (simp add: read_located_def rec_id_def)
qed

section \<open>Properties\<close>

text \<open>
  C14: the pack store implements the object map. With every row pointing at its object's bytes,
  \<open>put_bytes\<close> (dedup by id, append of a framed record, new catalog row) returns the same id and
  the same error as inserting into the map, its result represents the updated map, and the
  invariant is kept.
\<close>

theorem put_bytes_refines:
  assumes "digest_length L" and "store_ok L s"
  shows "map_put L (abs_store s) k b
      = rbind (put_bytes_locked L s k b) (\<lambda>(i, s'). Inr (i, abs_store s'))
    \<and> (\<forall>i s'. put_bytes_locked L s k b = Inr (i, s') \<longrightarrow> store_ok L s')"
proof (cases "object_row (ps_objects s) (object_id L k b)")
  case None
  with assms(2) have "abs_store s (object_id L k b) = None" by (simp add: abs_store_def)
  with None assms append_record_refines [OF assms None] show ?thesis
    by (auto simp: map_put_def put_bytes_locked_def store_ok_def Let_def)
next
  case (Some loc)
  with abs_store_row [OF assms(2), of "object_id L k b"] obtain x where
    "abs_store s (object_id L k b) = Some x" by auto
  with Some assms(2) show ?thesis by (auto simp: map_put_def put_bytes_locked_def Let_def)
qed


text \<open>
  C16: recovery after a crash. Whatever number of bytes of the active pack survived, wherever the
  last record breaks off, and however much of the catalog was lost, recovery succeeds: the pack is
  cut back to its whole records, the index has exactly one row for each of them at its place, each
  of them reads back its bytes, and the rows of other packs are untouched.
\<close>

theorem recovery_keeps_whole_records:
  assumes "digest_length L" and "crashed L s recs n j m"
  shows "\<exists>s'. recover_pack_locked L s = Inr s'
    \<and> ps_packs s' = (ps_packs s)(ps_active s \<mapsto> pack_of L (take (whole recs n) recs))
    \<and> pack_rows (ps_active s) (ps_objects s') = rows_from L (ps_active s) 0 (take (whole recs n) recs)
    \<and> filter (\<lambda>(i, loc). loc_pack loc \<noteq> ps_active s) (ps_objects s')
        = filter (\<lambda>(i, loc). loc_pack loc \<noteq> ps_active s) (ps_objects s)
    \<and> (\<forall>r\<in>set (take (whole recs n) recs). read_located L s' (rec_id L r) (fst r) = Inr (snd r))"
proof -
  from recover_crashed [OF assms] obtain s' where s': "recover_pack_locked L s = Inr s'"
    and rec: "recovered L s s' (take (whole recs n) recs)" by blast
  have "recs_ok L (take (whole recs n) recs)"
    using assms(2) by (auto simp: crashed_def recs_ok_def take_map [symmetric] dest: in_set_takeD)
  moreover have "\<forall>(i, loc)\<in>set (ps_objects s). loc_pack loc \<noteq> ps_active s \<longrightarrow>
      i \<notin> rec_id L ` set (take (whole recs n) recs)"
    using assms(2) in_set_takeD [of _ "whole recs n" recs] by (fastforce simp: crashed_def)
  ultimately show ?thesis
    using s' rec recovered_reads [OF assms(1) _ rec] by (auto simp: recovered_def)
qed

text \<open>
  The scan tells a record that breaks off from a damaged one: a complete record is read back
  as the kind, the payload and the id that were appended, and every proper beginning of a record is
  torn.
\<close>

theorem scan_record_exact:
  assumes "digest_length L" and "length b \<le> MAX_OBJECT_LEN"
  shows "scan_record L (encode_record L k b @ rest) = Complete k b (object_id L k b) rest
    \<and> (\<forall>t. strict_prefix t (encode_record L k b) \<longrightarrow> scan_record L t = Torn)"
  using scan_record_encode [OF assms] scan_record_torn [OF assms] by blast

section \<open>Witnesses\<close>

definition short_lib :: lib where
  "short_lib = sample_lib\<lparr>blake3 := \<lambda>b. take 32 (rev b @ replicate 32 (CHR 0x00))\<rparr>"

lemma short_lib_digest: "digest_length short_lib"
  by (auto simp: digest_length_def short_lib_def min_def)

definition empty_store :: pack_store where
  "empty_store = \<lparr>ps_packs = Map.empty, ps_active = ''pack-000001.agp'', ps_objects = [],
     ps_checkpoints = Map.empty, ps_known_end = 0, ps_unsynced = None, ps_frontier = None,
     ps_healed = False, ps_generation = 0\<rparr>"

lemma empty_store_ok: "store_ok short_lib empty_store"
  by (simp add: store_ok_def empty_store_def file_len_def)

theorem put_bytes_refines_witness:
  "map_put short_lib (abs_store empty_store) Chunk ''hello''
     = rbind (put_bytes_locked short_lib empty_store Chunk ''hello'') (\<lambda>(i, s'). Inr (i, abs_store s'))"
  using put_bytes_refines [OF short_lib_digest empty_store_ok] by blast


definition crashed_store :: pack_store where
  "crashed_store = empty_store\<lparr>ps_packs := [''pack-000001.agp'' \<mapsto>
     take 100 (pack_of short_lib [(Chunk, ''hello''), (Chunk, ''world'')])]\<rparr>"

lemma crashed_store_whole: "whole [(Chunk, ''hello''), (Chunk, ''world'')] 100 = 1"
  by (simp add: rec_len_def HEADER_LEN_def)

lemma crashed_store_crashed: "crashed short_lib crashed_store [(Chunk, ''hello''), (Chunk, ''world'')] 100 0 0"
  by (simp add: crashed_def recs_ok_def MAX_OBJECT_LEN_def rec_id_def object_id_def short_lib_def
      crashed_store_def empty_store_def durable_within_def durable_len_def)

theorem recovery_keeps_whole_records_witness:
  "\<exists>s'. recover_pack_locked short_lib crashed_store = Inr s'
     \<and> ps_packs s' ''pack-000001.agp'' = Some (pack_of short_lib [(Chunk, ''hello'')])"
  using recovery_keeps_whole_records [OF short_lib_digest crashed_store_crashed]
  unfolding crashed_store_whole by (auto simp: crashed_store_def empty_store_def)

theorem scan_record_exact_witness:
  "scan_record short_lib (encode_record short_lib Chunk ''a'')
     = Complete Chunk ''a'' (object_id short_lib Chunk ''a'') []"
  using scan_record_exact [OF short_lib_digest, of "''a''" Chunk "[]"] by (simp add: MAX_OBJECT_LEN_def)

end
