(* ===== verification/Ref_Log.thy ===== *)
theory Ref_Log
  imports Object_Model
begin

text \<open>
  \<^verbatim>\<open>furrow-core/src/refs.rs\<close>: the reference log of a workspace, an append-only file of checksummed
  frames that form a hash chain, and its index file, a fixed-width reverse index that is checked
  against the log on every use and rebuilt when it disagrees. The JSON of a record and the file's
  stamps are given by parameters: \<open>J\<close> is \<open>serde_json\<close> at type \<open>RefRecord\<close>, and \<open>touch\<close> is what
  a write does to the modification times of the log.
\<close>

record 'a json_codec =
  js_enc :: "'a \<Rightarrow> bytes"
  js_dec :: "bytes \<Rightarrow> 'a option"

definition js_faithful :: "'a json_codec \<Rightarrow> bool" where
  "js_faithful J \<longleftrightarrow> (\<forall>x. js_dec J (js_enc J x) = Some x)"

definition MAGIC :: bytes where "MAGIC = ''AGRF''"
definition INDEX_MAGIC :: bytes where
  "INDEX_MAGIC = ''AGRI'' @ [CHR 0x01, CHR 0x00, CHR 0x00, CHR 0x00]"
definition MAX_RECORD :: nat where "MAX_RECORD = 1024 * 1024"
definition INDEX_FIELDS_LEN :: nat where "INDEX_FIELDS_LEN = 8 * 8 + 32"
definition INDEX_RECORD_LEN :: nat where "INDEX_RECORD_LEN = INDEX_FIELDS_LEN + 32"

lemmas index_consts = INDEX_MAGIC_def INDEX_FIELDS_LEN_def INDEX_RECORD_LEN_def

definition zero_id :: object_id where "zero_id = replicate 32 (CHR 0x00)"

record ref_record =
  rr_sequence :: nat
  rr_snapshot_id :: object_id
  rr_sealed_at :: int
  rr_label :: "string option"
  rr_trigger :: snapshot_trigger
  rr_previous_frame :: object_id

record decoded_record =
  dr_record :: ref_record
  dr_frame_hash :: object_id
  dr_start :: nat
  dr_end :: nat

record file_meta =
  fm_dev :: nat
  fm_ino :: nat
  fm_mtime_secs :: int
  fm_mtime_nanos :: int
  fm_ctime_secs :: int
  fm_ctime_nanos :: int

record index_record =
  ir_start :: nat
  ir_end :: nat
  ir_frame_hash :: object_id
  ir_meta :: file_meta

record ref_log =
  rl_log :: "bytes option"
  rl_index :: "bytes option"
  rl_meta :: file_meta

section \<open>Frames\<close>

definition hash_frame :: "lib \<Rightarrow> bytes \<Rightarrow> bytes \<Rightarrow> bytes \<Rightarrow> object_id" where
  "hash_frame L len checksum payload = blake3 L (MAGIC @ len @ checksum @ payload)"

definition encode_frame :: "lib \<Rightarrow> bytes \<Rightarrow> bytes" where
  "encode_frame L payload = MAGIC @ le_bytes 4 (length payload) @ blake3 L payload @ payload"

definition frame_hash_of :: "lib \<Rightarrow> bytes \<Rightarrow> object_id" where
  "frame_hash_of L payload = hash_frame L (le_bytes 4 (length payload)) (blake3 L payload) payload"

definition read_frame_at ::
  "lib \<Rightarrow> ref_record json_codec \<Rightarrow> bytes \<Rightarrow> nat \<Rightarrow> decoded_record option result" where
  "read_frame_at L J log start =
     (case read_exact 4 (drop start log) of None \<Rightarrow> Inr None | Some (magic, rest1) \<Rightarrow>
      ensure (magic = MAGIC) ''reference log corruption''
      (case read_exact 4 rest1 of None \<Rightarrow> Inr None | Some (len_bytes, rest2) \<Rightarrow>
       let len = le_val len_bytes in
       ensure (len \<le> MAX_RECORD) ''reference record exceeds size limit''
       (case read_exact 32 rest2 of None \<Rightarrow> Inr None | Some (checksum, rest3) \<Rightarrow>
        case read_exact len rest3 of None \<Rightarrow> Inr None | Some (payload, rest4) \<Rightarrow>
        ensure (blake3 L payload = checksum) ''reference checksum mismatch''
        (rbind (of_opt ''decode reference record'' (js_dec J payload)) (\<lambda>record.
         Inr (Some \<lparr>dr_record = record, dr_frame_hash = hash_frame L len_bytes checksum payload,
                    dr_start = start, dr_end = start + 40 + len\<rparr>))))))"

lemma read_frame_at_advances:
  "read_frame_at L J log start = Inr (Some d) \<Longrightarrow> start < dr_end d \<and> dr_end d \<le> length log"
proof -
  assume "read_frame_at L J log start = Inr (Some d)"
  then obtain n where "dr_end d = start + 40 + n" "32 \<le> length log - (8 + start)"
    "n \<le> length log - (40 + start)"
    by (auto simp: read_frame_at_def Let_def read_exact_def split: option.splits if_splits)
  then show ?thesis by linarith
qed

function read_records ::
  "lib \<Rightarrow> ref_record json_codec \<Rightarrow> bytes \<Rightarrow> nat \<Rightarrow> object_id \<Rightarrow> nat
   \<Rightarrow> (decoded_record list \<times> nat \<times> bool) result" where
  "read_records L J log offset expected_previous expected_sequence =
     (if offset < length log
      then rbind (read_frame_at L J log offset) (\<lambda>frame.
           case frame of
             None \<Rightarrow> Inr ([], offset, True)
           | Some d \<Rightarrow>
               ensure (rr_previous_frame (dr_record d) = expected_previous) ''broken reference hash chain''
               (ensure (rr_sequence (dr_record d) = expected_sequence) ''broken reference sequence''
                (rbind (read_records L J log (dr_end d) (dr_frame_hash d) (expected_sequence + 1))
                   (\<lambda>(records, valid_len, incomplete).
                 Inr (d # records, valid_len, incomplete)))))
      else Inr ([], offset, False))"
  by pat_completeness auto
termination
  by (relation "measure (\<lambda>(L, J, log, offset, p, n). length log - offset)")
    (auto dest!: read_frame_at_advances)

declare read_records.simps [simp del]

section \<open>Index records\<close>

definition i64_le_bytes :: "int \<Rightarrow> bytes" where
  "i64_le_bytes v = le_bytes 8 (nat (v mod 2 ^ 64))"

definition i64_of_le_bytes :: "bytes \<Rightarrow> int" where
  "i64_of_le_bytes bs =
     (let n = int (le_val bs) in if n < 2 ^ 63 then n else n - 2 ^ 64)"

definition encode_index_fields :: "index_record \<Rightarrow> bytes" where
  "encode_index_fields r =
     le_bytes 8 (ir_start r) @ le_bytes 8 (ir_end r) @ ir_frame_hash r
     @ le_bytes 8 (fm_dev (ir_meta r)) @ le_bytes 8 (fm_ino (ir_meta r))
     @ i64_le_bytes (fm_mtime_secs (ir_meta r)) @ i64_le_bytes (fm_mtime_nanos (ir_meta r))
     @ i64_le_bytes (fm_ctime_secs (ir_meta r)) @ i64_le_bytes (fm_ctime_nanos (ir_meta r))"

definition field_at :: "bytes \<Rightarrow> nat \<Rightarrow> bytes" where
  "field_at bs start = take 8 (drop start bs)"

definition decode_index_fields :: "bytes \<Rightarrow> index_record result" where
  "decode_index_fields bs =
     (let start = i64_of_le_bytes (field_at bs 0); end' = i64_of_le_bytes (field_at bs 8) in
      ensure (0 \<le> start \<and> start \<le> end') ''invalid reference index offsets''
      (Inr \<lparr>ir_start = nat start, ir_end = nat end', ir_frame_hash = take 32 (drop 16 bs),
            ir_meta = \<lparr>fm_dev = le_val (field_at bs 48), fm_ino = le_val (field_at bs 56),
              fm_mtime_secs = i64_of_le_bytes (field_at bs 64),
              fm_mtime_nanos = i64_of_le_bytes (field_at bs 72),
              fm_ctime_secs = i64_of_le_bytes (field_at bs 80),
              fm_ctime_nanos = i64_of_le_bytes (field_at bs 88)\<rparr>\<rparr>))"

definition write_index_record :: "lib \<Rightarrow> index_record \<Rightarrow> bytes" where
  "write_index_record L r = (let fields = encode_index_fields r in fields @ blake3 L fields)"

definition read_index_record :: "lib \<Rightarrow> bytes \<Rightarrow> (index_record \<times> bytes) result" where
  "read_index_record L bs =
     rbind (of_opt ''failed to fill whole buffer'' (read_exact INDEX_FIELDS_LEN bs)) (\<lambda>(fields, rest).
     rbind (of_opt ''failed to fill whole buffer'' (read_exact 32 rest)) (\<lambda>(checksum, rest').
     ensure (blake3 L fields = checksum) ''reference index checksum mismatch''
     (rbind (decode_index_fields fields) (\<lambda>r. Inr (r, rest')))))"

definition index_record_new :: "nat \<Rightarrow> nat \<Rightarrow> object_id \<Rightarrow> file_meta \<Rightarrow> index_record" where
  "index_record_new start end' frame_hash meta =
     \<lparr>ir_start = start, ir_end = end', ir_frame_hash = frame_hash, ir_meta = meta\<rparr>"

definition matches_metadata :: "index_record \<Rightarrow> nat \<Rightarrow> file_meta \<Rightarrow> bool" where
  "matches_metadata r len meta \<longleftrightarrow> ir_end r = len \<and> ir_meta r = meta"

section \<open>The index file\<close>

abbreviation log_bytes :: "ref_log \<Rightarrow> bytes" where
  "log_bytes s \<equiv> (case rl_log s of None \<Rightarrow> [] | Some bs \<Rightarrow> bs)"

definition open_log :: "ref_log \<Rightarrow> ref_log" where
  "open_log s = s\<lparr>rl_log := Some (log_bytes s)\<rparr>"

definition set_log :: "(file_meta \<Rightarrow> file_meta) \<Rightarrow> ref_log \<Rightarrow> bytes \<Rightarrow> ref_log" where
  "set_log touch s bs = s\<lparr>rl_log := Some bs, rl_meta := touch (rl_meta s)\<rparr>"

definition index_of_decoded :: "file_meta \<Rightarrow> decoded_record \<Rightarrow> index_record" where
  "index_of_decoded meta d = index_record_new (dr_start d) (dr_end d) (dr_frame_hash d) meta"

definition rewrite_index :: "lib \<Rightarrow> ref_log \<Rightarrow> decoded_record list \<Rightarrow> ref_log" where
  "rewrite_index L s records =
     s\<lparr>rl_index := Some (INDEX_MAGIC
         @ concat (map (\<lambda>d. write_index_record L (index_of_decoded (rl_meta s) d)) records))\<rparr>"

definition append_index :: "lib \<Rightarrow> ref_log \<Rightarrow> index_record \<Rightarrow> ref_log" where
  "append_index L s r =
     (let old = (case rl_index s of None \<Rightarrow> [] | Some bs \<Rightarrow> bs);
          base = (if old = [] then INDEX_MAGIC else old) in
      s\<lparr>rl_index := Some (base @ write_index_record L r)\<rparr>)"

definition append_index_records :: "lib \<Rightarrow> ref_log \<Rightarrow> decoded_record list \<Rightarrow> ref_log" where
  "append_index_records L s records =
     foldl (\<lambda>s d. append_index L s (index_of_decoded (rl_meta s) d)) s records"

definition refresh_index_tail :: "lib \<Rightarrow> ref_log \<Rightarrow> index_record \<Rightarrow> ref_log result" where
  "refresh_index_tail L s r =
     rbind (of_opt ''No such file or directory'' (rl_index s)) (\<lambda>index.
     ensure (length index \<ge> length INDEX_MAGIC + INDEX_RECORD_LEN) ''reference index has no tail''
     (Inr (s\<lparr>rl_index := Some (take (length index - INDEX_RECORD_LEN) index @ write_index_record L r)\<rparr>)))"

definition rebuild_index ::
  "lib \<Rightarrow> ref_record json_codec \<Rightarrow> (file_meta \<Rightarrow> file_meta) \<Rightarrow> ref_log \<Rightarrow> ref_log result" where
  "rebuild_index L J touch s =
     rbind (read_records L J (log_bytes s) 0 zero_id 1) (\<lambda>(records, valid_len, incomplete_tail).
     let s1 = (if incomplete_tail then set_log touch s (take valid_len (log_bytes s)) else s) in
     Inr (rewrite_index L s1 records))"

definition prepare_index :: "lib \<Rightarrow> ref_log \<Rightarrow> (index_record option \<times> ref_log) result" where
  "prepare_index L s =
     rbind (of_opt ''reference index is missing'' (rl_index s)) (\<lambda>index.
     rbind (of_opt ''failed to fill whole buffer'' (read_exact (length INDEX_MAGIC) index)) (\<lambda>(header, data).
     ensure (header = INDEX_MAGIC) ''invalid reference index header''
     (let complete_len = length data div INDEX_RECORD_LEN * INDEX_RECORD_LEN;
          s1 = (if complete_len \<noteq> length data
                then s\<lparr>rl_index := Some (header @ take complete_len data)\<rparr> else s) in
      if complete_len = 0 then Inr (None, s1)
      else rbind (read_index_record L (drop (complete_len - INDEX_RECORD_LEN) (take complete_len data)))
             (\<lambda>(r, _). Inr (Some r, s1)))))"

fun read_index_records :: "lib \<Rightarrow> nat \<Rightarrow> bytes \<Rightarrow> index_record list result" where
  "read_index_records L 0 bs = Inr []"
| "read_index_records L (Suc n) bs =
     rbind (read_index_record L bs) (\<lambda>(r, rest).
     rbind (read_index_records L n rest) (\<lambda>rs. Inr (r # rs)))"

definition index_count :: "bytes \<Rightarrow> nat" where
  "index_count index = (length index - length INDEX_MAGIC) div INDEX_RECORD_LEN"

definition read_index_tail :: "lib \<Rightarrow> ref_log \<Rightarrow> nat \<Rightarrow> index_record list result" where
  "read_index_tail L s limit =
     rbind (of_opt ''No such file or directory'' (rl_index s)) (\<lambda>index.
     let count = index_count index; take' = min count limit in
     read_index_records L take'
       (drop (length INDEX_MAGIC + (count - take') * INDEX_RECORD_LEN) index))"

definition check_last ::
  "lib \<Rightarrow> ref_record json_codec \<Rightarrow> (file_meta \<Rightarrow> file_meta) \<Rightarrow> ref_log \<Rightarrow> index_record \<Rightarrow> ref_log result" where
  "check_last L J touch s tip =
     (let log = log_bytes s in
      if ir_end tip > length log \<or> fm_dev (ir_meta tip) \<noteq> fm_dev (rl_meta s)
         \<or> fm_ino (ir_meta tip) \<noteq> fm_ino (rl_meta s)
      then rebuild_index L J touch s
      else rbind (read_frame_at L J log (ir_start tip)) (\<lambda>found.
        case found of
          None \<Rightarrow> rebuild_index L J touch s
        | Some frame \<Rightarrow>
            if dr_end frame \<noteq> ir_end tip \<or> dr_frame_hash frame \<noteq> ir_frame_hash tip
            then rebuild_index L J touch s
            else if length log = ir_end tip
            then (if matches_metadata tip (length log) (rl_meta s) then Inr s
                  else rebuild_index L J touch s)
            else rbind (read_records L J log (ir_end tip) (ir_frame_hash tip)
                          (rr_sequence (dr_record frame) + 1))
                   (\<lambda>(suffix, valid_len, incomplete_tail).
                 let s1 = (if incomplete_tail then set_log touch s (take valid_len log) else s) in
                 if suffix = []
                 then refresh_index_tail L s1 (index_record_new (ir_start tip) (ir_end tip)
                        (ir_frame_hash tip) (rl_meta s1))
                 else Inr (append_index_records L s1 suffix))))"

definition ensure_index ::
  "lib \<Rightarrow> ref_record json_codec \<Rightarrow> (file_meta \<Rightarrow> file_meta) \<Rightarrow> ref_log \<Rightarrow> ref_log result" where
  "ensure_index L J touch s =
     (case prepare_index L s of
        Inl _ \<Rightarrow> rebuild_index L J touch s
      | Inr (None, s1) \<Rightarrow>
          if log_bytes s1 = [] then Inr (rewrite_index L s1 []) else rebuild_index L J touch s1
      | Inr (Some tip, s1) \<Rightarrow> check_last L J touch s1 tip)"

section \<open>Operations\<close>

definition log_records ::
  "lib \<Rightarrow> ref_record json_codec \<Rightarrow> (file_meta \<Rightarrow> file_meta) \<Rightarrow> ref_log \<Rightarrow> (ref_record list \<times> ref_log) result"
where
  "log_records L J touch s =
     (let s0 = open_log s in
      rbind (read_records L J (log_bytes s0) 0 zero_id 1) (\<lambda>(records, valid_len, incomplete_tail).
      let s1 = (if incomplete_tail then set_log touch s0 (take valid_len (log_bytes s0)) else s0) in
      Inr (map dr_record records, rewrite_index L s1 records)))"

function each_record ::
  "lib \<Rightarrow> ref_record json_codec \<Rightarrow> bytes \<Rightarrow> nat \<Rightarrow> object_id \<Rightarrow> nat
   \<Rightarrow> ('v \<Rightarrow> ref_record \<Rightarrow> 'v result) \<Rightarrow> 'v \<Rightarrow> 'v result" where
  "each_record L J log offset previous seq visit v =
     (if offset < length log
      then rbind (read_frame_at L J log offset) (\<lambda>found.
           case found of
             None \<Rightarrow> Inl (Bail ''reference log ended before its indexed boundary'')
           | Some frame \<Rightarrow>
               ensure (rr_sequence (dr_record frame) = seq) ''non-monotonic reference sequence''
               (ensure (rr_previous_frame (dr_record frame) = previous) ''broken reference hash chain''
                (rbind (visit v (dr_record frame)) (\<lambda>v'.
                 each_record L J log (dr_end frame) (dr_frame_hash frame) (seq + 1) visit v'))))
      else Inr v)"
  by pat_completeness auto
termination
  by (relation "measure (\<lambda>(L, J, log, offset, p, n, f, v). length log - offset)")
    (auto dest!: read_frame_at_advances)

declare each_record.simps [simp del]

definition for_each_record ::
  "lib \<Rightarrow> ref_record json_codec \<Rightarrow> (file_meta \<Rightarrow> file_meta) \<Rightarrow> ref_log
   \<Rightarrow> ('v \<Rightarrow> ref_record \<Rightarrow> 'v result) \<Rightarrow> 'v \<Rightarrow> ('v \<times> ref_log) result" where
  "for_each_record L J touch s visit v =
     (if rl_log s = None then Inr (v, s)
      else rbind (ensure_index L J touch s) (\<lambda>s1.
           rbind (each_record L J (log_bytes s1) 0 zero_id 1 visit v) (\<lambda>v'. Inr (v', s1))))"

definition find_ref ::
  "lib \<Rightarrow> ref_record json_codec \<Rightarrow> (file_meta \<Rightarrow> file_meta) \<Rightarrow> ref_log \<Rightarrow> object_id
   \<Rightarrow> (ref_record option \<times> ref_log) result" where
  "find_ref L J touch s snapshot_id =
     for_each_record L J touch s
       (\<lambda>found r. Inr (if rr_snapshot_id r = snapshot_id then Some r else found)) None"

definition record_at ::
  "lib \<Rightarrow> ref_record json_codec \<Rightarrow> ref_log \<Rightarrow> bytes \<Rightarrow> ref_record list \<Rightarrow> nat \<Rightarrow> ref_record list result" where
  "record_at L J s index records seq =
     ensure (0 < seq \<and> seq \<le> index_count index) ''reference sequence is outside the indexed log''
     (rbind (read_index_record L (drop (length INDEX_MAGIC + (seq - 1) * INDEX_RECORD_LEN) index))
        (\<lambda>(indexed, _).
      rbind (read_frame_at L J (log_bytes s) (ir_start indexed)) (\<lambda>found.
      rbind (of_opt ''reference index points beyond the log'' found) (\<lambda>frame.
      ensure (rr_sequence (dr_record frame) = seq \<and> dr_end frame = ir_end indexed
              \<and> dr_frame_hash frame = ir_frame_hash indexed)
        ''reference index does not match the authoritative log''
      (Inr (records @ [dr_record frame]))))))"

definition records_at_sequences ::
  "lib \<Rightarrow> ref_record json_codec \<Rightarrow> (file_meta \<Rightarrow> file_meta) \<Rightarrow> ref_log \<Rightarrow> nat list
   \<Rightarrow> (ref_record list \<times> ref_log) result" where
  "records_at_sequences L J touch s seqs =
     (if seqs = [] \<or> rl_log s = None then Inr ([], s)
      else rbind (ensure_index L J touch s) (\<lambda>s1.
           rbind (of_opt ''No such file or directory'' (rl_index s1)) (\<lambda>index.
           rbind (rfold (record_at L J s1 index) [] seqs) (\<lambda>records. Inr (records, s1)))))"

fun chained :: "decoded_record list \<Rightarrow> bool" where
  "chained (a # b # ds) \<longleftrightarrow> rr_previous_frame (dr_record b) = dr_frame_hash a \<and> chained (b # ds)"
| "chained _ \<longleftrightarrow> True"

definition frame_of_entry ::
  "lib \<Rightarrow> ref_record json_codec \<Rightarrow> bytes \<Rightarrow> decoded_record list \<Rightarrow> index_record \<Rightarrow> decoded_record list result"
where
  "frame_of_entry L J log decoded entry =
     rbind (read_frame_at L J log (ir_start entry)) (\<lambda>found.
     rbind (of_opt ''reference index points beyond the log'' found) (\<lambda>frame.
     ensure (dr_end frame = ir_end entry \<and> dr_frame_hash frame = ir_frame_hash entry)
       ''reference index does not match the authoritative log''
     (Inr (decoded @ [frame]))))"

definition read_recent_indexed ::
  "lib \<Rightarrow> ref_record json_codec \<Rightarrow> ref_log \<Rightarrow> nat \<Rightarrow> ref_record list result" where
  "read_recent_indexed L J s limit =
     rbind (read_index_tail L s (limit + 1)) (\<lambda>entries.
     let skip = (if length entries > limit then 1 else 0) in
     rbind (rfold (frame_of_entry L J (log_bytes s)) [] (drop skip entries)) (\<lambda>decoded.
     ensure (case decoded of
               [] \<Rightarrow> True
             | first # _ \<Rightarrow> rr_previous_frame (dr_record first)
                 = (if skip = 1 then ir_frame_hash (hd entries) else zero_id))
       ''broken reference hash chain''
     (ensure (chained decoded) ''broken reference hash chain''
      (Inr (map dr_record (rev decoded))))))"

definition recent ::
  "lib \<Rightarrow> ref_record json_codec \<Rightarrow> (file_meta \<Rightarrow> file_meta) \<Rightarrow> ref_log \<Rightarrow> nat
   \<Rightarrow> (ref_record list \<times> ref_log) result" where
  "recent L J touch s limit =
     (if limit = 0 \<or> rl_log s = None then Inr ([], s)
      else rbind (ensure_index L J touch s) (\<lambda>s1.
        case read_recent_indexed L J s1 limit of
          Inr records \<Rightarrow> Inr (records, s1)
        | Inl _ \<Rightarrow>
            rbind (rebuild_index L J touch s1) (\<lambda>s2.
            rbind (read_recent_indexed L J s2 limit) (\<lambda>records. Inr (records, s2)))))"

definition head ::
  "lib \<Rightarrow> ref_record json_codec \<Rightarrow> (file_meta \<Rightarrow> file_meta) \<Rightarrow> ref_log \<Rightarrow> (ref_record option \<times> ref_log) result"
where
  "head L J touch s =
     rbind (recent L J touch s 1) (\<lambda>(records, s').
     Inr (if records = [] then None else Some (last records), s'))"

definition last_frame ::
  "lib \<Rightarrow> ref_record json_codec \<Rightarrow> ref_log \<Rightarrow> decoded_record option result" where
  "last_frame L J s =
     rbind (read_index_tail L s 1) (\<lambda>entries.
     if entries = [] then Inr None
     else read_frame_at L J (log_bytes s) (ir_start (last entries)))"

definition append_ordered ::
  "lib \<Rightarrow> ref_record json_codec \<Rightarrow> (file_meta \<Rightarrow> file_meta) \<Rightarrow> ref_log \<Rightarrow> object_id \<Rightarrow> int
   \<Rightarrow> string option \<Rightarrow> snapshot_trigger \<Rightarrow> (ref_record \<times> ref_log) result" where
  "append_ordered L J touch s snapshot_id sealed_at label trigger =
     rbind (ensure_index L J touch (open_log s)) (\<lambda>s1.
     rbind (last_frame L J s1) (\<lambda>tip.
     if (case tip of None \<Rightarrow> False | Some d \<Rightarrow> rr_snapshot_id (dr_record d) = snapshot_id)
     then Inr (dr_record (the tip), s1)
     else
       let record = \<lparr>rr_sequence = (case tip of None \<Rightarrow> 1 | Some d \<Rightarrow> rr_sequence (dr_record d) + 1),
             rr_snapshot_id = snapshot_id, rr_sealed_at = sealed_at, rr_label = label,
             rr_trigger = trigger,
             rr_previous_frame = (case tip of None \<Rightarrow> zero_id | Some d \<Rightarrow> dr_frame_hash d)\<rparr>;
           payload = js_enc J record in
       ensure (length payload \<le> MAX_RECORD) ''reference record is too large''
       (let start = length (log_bytes s1);
            s2 = set_log touch s1 (log_bytes s1 @ encode_frame L payload);
            end' = length (log_bytes s2) in
        Inr (record, append_index L s2
          (index_record_new start end' (frame_hash_of L payload) (rl_meta s2))))))"

text \<open>
  \<open>repair_suffix\<close> walks the log; \<open>kept\<close> are the records before \<open>offset\<close>. The result says
  whether the log was cut.
\<close>

function repair_loop ::
  "lib \<Rightarrow> ref_record json_codec \<Rightarrow> (file_meta \<Rightarrow> file_meta) \<Rightarrow> ref_log \<Rightarrow> nat \<Rightarrow> (object_id \<Rightarrow> bool result)
   \<Rightarrow> nat \<Rightarrow> object_id \<Rightarrow> nat \<Rightarrow> decoded_record list \<Rightarrow> (bool \<times> ref_log) result" where
  "repair_loop L J touch s durable_len present offset previous seq kept =
     (if offset < length (log_bytes s)
      then let frame = read_frame_at L J (log_bytes s) offset;
               cut = ensure (offset \<ge> durable_len) ''durable reference prefix is corrupt''
                 (Inr (True, rewrite_index L (set_log touch s (take offset (log_bytes s))) kept)) in
        case frame of
          Inr (Some d) \<Rightarrow>
            if rr_sequence (dr_record d) = seq \<and> rr_previous_frame (dr_record d) = previous
            then rbind (if offset < durable_len then Inr True else present (rr_snapshot_id (dr_record d)))
                   (\<lambda>ok. if ok
                         then repair_loop L J touch s durable_len present (dr_end d) (dr_frame_hash d)
                                (seq + 1) (kept @ [d])
                         else cut)
            else cut
        | _ \<Rightarrow> cut
      else Inr (False, s))"
  by pat_completeness auto
termination
  by (relation "measure (\<lambda>(L, J, touch, s, d, p, offset, prev, n, kept). length (log_bytes s) - offset)")
    (auto dest!: sym [of "Inr (Some _)" "read_frame_at _ _ _ _", THEN read_frame_at_advances])

declare repair_loop.simps [simp del]

definition repair_suffix ::
  "lib \<Rightarrow> ref_record json_codec \<Rightarrow> (file_meta \<Rightarrow> file_meta) \<Rightarrow> ref_log \<Rightarrow> nat \<Rightarrow> (object_id \<Rightarrow> bool result)
   \<Rightarrow> (bool \<times> ref_log) result" where
  "repair_suffix L J touch s durable_len present =
     (let s0 = open_log s in
      ensure (length (log_bytes s0) \<ge> durable_len) ''durable reference prefix was lost''
      (repair_loop L J touch s0 durable_len present 0 zero_id 1 []))"

end
