(* ===== verification/Ref_Theorems.thy ===== *)
theory Ref_Theorems
  imports Ref_Log Pack_Theorems
begin

text \<open>
  The reference log as a list of records: what appending adds, what reading gives back, that the
  index never changes the answers, and what survives a log that breaks off.
\<close>

section \<open>Frames of a chain\<close>

fun chain :: "lib \<Rightarrow> ref_record json_codec \<Rightarrow> object_id \<Rightarrow> nat \<Rightarrow> ref_record list \<Rightarrow> bool" where
  "chain L J previous seq [] \<longleftrightarrow> True"
| "chain L J previous seq (r # rs) \<longleftrightarrow>
     rr_previous_frame r = previous \<and> rr_sequence r = seq \<and> length (js_enc J r) \<le> MAX_RECORD
     \<and> chain L J (frame_hash_of L (js_enc J r)) (seq + 1) rs"

abbreviation ref_frame :: "lib \<Rightarrow> ref_record json_codec \<Rightarrow> ref_record \<Rightarrow> bytes" where
  "ref_frame L J r \<equiv> encode_frame L (js_enc J r)"

definition log_of :: "lib \<Rightarrow> ref_record json_codec \<Rightarrow> ref_record list \<Rightarrow> bytes" where
  "log_of L J rs = concat (map (ref_frame L J) rs)"

definition frame_len :: "ref_record json_codec \<Rightarrow> ref_record \<Rightarrow> nat" where
  "frame_len J r = 40 + length (js_enc J r)"

abbreviation log_len :: "ref_record json_codec \<Rightarrow> ref_record list \<Rightarrow> nat" where
  "log_len J rs \<equiv> sum_list (map (frame_len J) rs)"

fun decoded_from :: "lib \<Rightarrow> ref_record json_codec \<Rightarrow> nat \<Rightarrow> ref_record list \<Rightarrow> decoded_record list" where
  "decoded_from L J off [] = []"
| "decoded_from L J off (r # rs) =
     \<lparr>dr_record = r, dr_frame_hash = frame_hash_of L (js_enc J r), dr_start = off,
      dr_end = off + frame_len J r\<rparr> # decoded_from L J (off + frame_len J r) rs"

definition torn_frame :: "lib \<Rightarrow> bytes \<Rightarrow> bool" where
  "torn_frame L tail \<longleftrightarrow> (\<exists>p. length p \<le> MAX_RECORD \<and> strict_prefix tail (encode_frame L p))"

lemma log_of_simps [simp]:
  "log_of L J [] = []" "log_of L J (r # rs) = ref_frame L J r @ log_of L J rs"
  "log_of L J (xs @ ys) = log_of L J xs @ log_of L J ys"
  by (simp_all add: log_of_def)

lemma length_frame:
  "digest_length L \<Longrightarrow> length (encode_frame L p) = 40 + length p"
  by (simp add: encode_frame_def MAGIC_def digest_simps)

lemma length_log_of: "digest_length L \<Longrightarrow> length (log_of L J rs) = log_len J rs"
  by (induction rs) (auto simp: length_frame frame_len_def)

lemma map_dr_record [simp]: "map dr_record (decoded_from L J off rs) = rs"
  by (induction rs arbitrary: off) auto

lemma length_decoded_from [simp]: "length (decoded_from L J off rs) = length rs"
  by (induction rs arbitrary: off) auto

lemma decoded_from_append:
  "decoded_from L J off (xs @ ys) = decoded_from L J off xs @ decoded_from L J (off + log_len J xs) ys"
  by (induction xs arbitrary: off) (auto simp: add.assoc)

lemma MAX_RECORD_fits: "n \<le> MAX_RECORD \<Longrightarrow> n < 256 ^ 4"
  by (simp add: MAX_RECORD_def)

lemma length_MAGIC [simp]: "length MAGIC = 4"
  by (simp add: MAGIC_def)

lemma read_frame_encode:
  assumes "digest_length L" and "js_faithful J" and "length (js_enc J r) \<le> MAX_RECORD"
    and "log = pre @ ref_frame L J r @ post" and "start = length pre"
  shows "read_frame_at L J log start = Inr (Some \<lparr>dr_record = r,
     dr_frame_hash = frame_hash_of L (js_enc J r), dr_start = start, dr_end = start + frame_len J r\<rparr>)"
proof -
  have v: "le_val (le_bytes 4 (length (js_enc J r))) = length (js_enc J r)"
    by (rule le_val_le_bytes [OF MAX_RECORD_fits [OF assms(3)]])
  have rest: "drop start log = MAGIC @ (le_bytes 4 (length (js_enc J r))
      @ (blake3 L (js_enc J r) @ (js_enc J r @ post)))"
    using assms(4,5) by (simp add: encode_frame_def)
  show ?thesis
    unfolding read_frame_at_def rest
    using assms(2,3)
    by (simp add: digest_simps [OF assms(1)] v js_faithful_def Let_def frame_hash_of_def frame_len_def)
qed

lemma read_frame_torn:
  assumes "digest_length L" and "torn_frame L tail" and "log = pre @ tail" and "start = length pre"
  shows "read_frame_at L J log start = Inr None"
proof -
  from assms(2) obtain p where p: "length p \<le> MAX_RECORD"
    and "strict_prefix tail (encode_frame L p)" by (auto simp: torn_frame_def)
  then have t: "strict_prefix tail (MAGIC @ (le_bytes 4 (length p) @ (blake3 L p @ p)))"
    by (simp add: encode_frame_def)
  have v: "le_val (le_bytes 4 (length p)) = length p"
    by (rule le_val_le_bytes [OF MAX_RECORD_fits [OF p]])
  have e4: "read_exact (length p) t3 = None" if "strict_prefix t3 p" for t3
    using prefix_length_less [OF that] by (simp add: read_exact_def)
  have rest: "drop start log = tail" using assms(3,4) by simp
  show ?thesis
    unfolding read_frame_at_def rest
  proof (rule read_exact_cut [OF t], simp, simp)
    fix t1 assume t1: "strict_prefix t1 (le_bytes 4 (length p) @ (blake3 L p @ p))"
    show "(case Some (MAGIC, t1) of None \<Rightarrow> Inr None | Some (magic, rest1) \<Rightarrow>
      ensure (magic = MAGIC) ''reference log corruption''
      (case read_exact 4 rest1 of None \<Rightarrow> Inr None | Some (len_bytes, rest2) \<Rightarrow>
       let len = le_val len_bytes in
       ensure (len \<le> MAX_RECORD) ''reference record exceeds size limit''
       (case read_exact 32 rest2 of None \<Rightarrow> Inr None | Some (checksum, rest3) \<Rightarrow>
        case read_exact len rest3 of None \<Rightarrow> Inr None | Some (payload, rest4) \<Rightarrow>
        ensure (blake3 L payload = checksum) ''reference checksum mismatch''
        (rbind (of_opt ''decode reference record'' (js_dec J payload)) (\<lambda>record.
         Inr (Some \<lparr>dr_record = record, dr_frame_hash = hash_frame L len_bytes checksum payload,
                    dr_start = start, dr_end = start + 40 + len\<rparr>)))))) = Inr None"
      unfolding option.case prod.case
    proof (simp, rule read_exact_cut [OF t1], simp, simp)
      fix t2 assume t2: "strict_prefix t2 (blake3 L p @ p)"
      have "read_exact 32 t2 = None \<or> (\<exists>t3. read_exact 32 t2 = Some (blake3 L p, t3)
          \<and> read_exact (length p) t3 = None)"
        by (rule read_exact_cut [OF t2 digest_simps(1) [OF assms(1)]]) (use e4 in auto)
      then show "(case Some (le_bytes 4 (length p), t2) of None \<Rightarrow> Inr None | Some (len_bytes, rest2) \<Rightarrow>
       let len = le_val len_bytes in
       ensure (len \<le> MAX_RECORD) ''reference record exceeds size limit''
       (case read_exact 32 rest2 of None \<Rightarrow> Inr None | Some (checksum, rest3) \<Rightarrow>
        case read_exact len rest3 of None \<Rightarrow> Inr None | Some (payload, rest4) \<Rightarrow>
        ensure (blake3 L payload = checksum) ''reference checksum mismatch''
        (rbind (of_opt ''decode reference record'' (js_dec J payload)) (\<lambda>record.
         Inr (Some \<lparr>dr_record = record, dr_frame_hash = hash_frame L len_bytes checksum payload,
                    dr_start = start, dr_end = start + 40 + len\<rparr>))))) = Inr None"
        using p by (auto simp: v)
    qed
  qed
qed


lemma read_records_chain:
  assumes dl: "digest_length L" and js: "js_faithful J" and torn: "torn_frame L tail"
    and "chain L J previous seq rs" and "log = pre @ log_of L J rs @ tail" and "off = length pre"
  shows "read_records L J log off previous seq
    = Inr (decoded_from L J off rs, off + log_len J rs, tail \<noteq> [])"
  using assms(4-6)
proof (induction rs arbitrary: pre previous seq off)
  case Nil
  then show ?case
    using read_frame_torn [OF dl torn, of log pre off] by (subst read_records.simps) auto
next
  case (Cons r rs)
  note len = length_frame [OF dl, of "js_enc J r"]
  have r: "length (js_enc J r) \<le> MAX_RECORD" "rr_previous_frame r = previous" "rr_sequence r = seq"
    "chain L J (frame_hash_of L (js_enc J r)) (seq + 1) rs" using Cons.prems(1) by auto
  have log: "log = pre @ ref_frame L J r @ (log_of L J rs @ tail)"
    "log = (pre @ ref_frame L J r) @ log_of L J rs @ tail" using Cons.prems(2) by simp_all
  have off: "off + frame_len J r = length (pre @ ref_frame L J r)"
    using Cons.prems(3) len by (simp add: frame_len_def)
  have "off < length log" using log Cons.prems(3) len by simp
  with read_frame_encode [OF dl js r(1) log(1) Cons.prems(3)] Cons.IH [OF r(4) log(2) off] r(2,3)
  show ?case by (subst read_records.simps) (simp add: add.assoc)
qed

lemma torn_frame_Nil: "torn_frame L []"
  by (auto simp: torn_frame_def encode_frame_def strict_prefix_def MAGIC_def intro!: exI [of _ "[]"])

section \<open>Index records\<close>

definition i64 :: "int \<Rightarrow> bool" where "i64 v \<longleftrightarrow> - (2 ^ 63) \<le> v \<and> v < 2 ^ 63"

definition meta_ok :: "file_meta \<Rightarrow> bool" where
  "meta_ok m \<longleftrightarrow> fm_dev m < 2 ^ 64 \<and> fm_ino m < 2 ^ 64 \<and> i64 (fm_mtime_secs m)
     \<and> i64 (fm_mtime_nanos m) \<and> i64 (fm_ctime_secs m) \<and> i64 (fm_ctime_nanos m)"

definition index_ok :: "index_record \<Rightarrow> bool" where
  "index_ok r \<longleftrightarrow> ir_start r \<le> ir_end r \<and> ir_end r < 2 ^ 63 \<and> length (ir_frame_hash r) = 32
     \<and> meta_ok (ir_meta r)"

lemma length_i64_le_bytes [simp]: "length (i64_le_bytes v) = 8"
  by (simp add: i64_le_bytes_def)

lemma u64_round_trip: "n < 2 ^ 64 \<Longrightarrow> le_val (le_bytes 8 n) = n"
  by (rule le_val_le_bytes) simp

lemma i64_round_trip: "i64 v \<Longrightarrow> i64_of_le_bytes (i64_le_bytes v) = v"
proof -
  assume v: "i64 v"
  have "nat (v mod 2 ^ 64) < 256 ^ 8" by simp
  then have n: "le_val (i64_le_bytes v) = nat (v mod 2 ^ 64)"
    unfolding i64_le_bytes_def by (rule le_val_le_bytes)
  show ?thesis
  proof (cases "0 \<le> v")
    case True
    with v have "v mod 2 ^ 64 = v" by (intro mod_pos_pos_trivial) (auto simp: i64_def)
    with v True show ?thesis by (simp add: i64_of_le_bytes_def n i64_def Let_def)
  next
    case False
    with v have "(v + 2 ^ 64) mod 2 ^ 64 = v + 2 ^ 64"
      by (intro mod_pos_pos_trivial) (auto simp: i64_def)
    then have "v mod 2 ^ 64 = v + 2 ^ 64" by simp
    with v False show ?thesis by (simp add: i64_of_le_bytes_def n i64_def Let_def)
  qed
qed

lemma offset_round_trip: "n < 2 ^ 63 \<Longrightarrow> i64_of_le_bytes (le_bytes 8 n) = int n"
  using u64_round_trip [of n] by (simp add: i64_of_le_bytes_def Let_def)

lemma length_index_fields: "length (ir_frame_hash r) = 32 \<Longrightarrow> length (encode_index_fields r) = INDEX_FIELDS_LEN"
  by (simp add: encode_index_fields_def INDEX_FIELDS_LEN_def)

lemma decode_encode_index:
  assumes "index_ok r"
  shows "decode_index_fields (encode_index_fields r) = Inr r"
proof -
  have h: "length (ir_frame_hash r) = 32" and m: "meta_ok (ir_meta r)"
    and o: "ir_start r \<le> ir_end r" "ir_end r < 2 ^ 63" using assms by (auto simp: index_ok_def)
  note fields = field_at_def encode_index_fields_def
  have "i64_of_le_bytes (field_at (encode_index_fields r) 0) = int (ir_start r)"
    "i64_of_le_bytes (field_at (encode_index_fields r) 8) = int (ir_end r)"
    using o offset_round_trip [of "ir_start r"] offset_round_trip [of "ir_end r"] by (simp_all add: fields)
  moreover have "take 32 (drop 16 (encode_index_fields r)) = ir_frame_hash r" by (simp add: fields h)
  moreover have "le_val (field_at (encode_index_fields r) 48) = fm_dev (ir_meta r)"
    "le_val (field_at (encode_index_fields r) 56) = fm_ino (ir_meta r)"
    using m u64_round_trip by (simp_all add: fields h meta_ok_def)
  moreover have "i64_of_le_bytes (field_at (encode_index_fields r) 64) = fm_mtime_secs (ir_meta r)"
    "i64_of_le_bytes (field_at (encode_index_fields r) 72) = fm_mtime_nanos (ir_meta r)"
    "i64_of_le_bytes (field_at (encode_index_fields r) 80) = fm_ctime_secs (ir_meta r)"
    "i64_of_le_bytes (field_at (encode_index_fields r) 88) = fm_ctime_nanos (ir_meta r)"
    using m i64_round_trip by (simp_all add: fields h meta_ok_def)
  ultimately show ?thesis using o by (simp add: decode_index_fields_def Let_def)
qed

lemma read_write_index:
  assumes "digest_length L" and "index_ok r"
  shows "read_index_record L (write_index_record L r @ rest) = Inr (r, rest)"
  using decode_encode_index [OF assms(2)] length_index_fields [of r] assms(2)
  by (simp add: read_index_record_def write_index_record_def Let_def digest_simps [OF assms(1)] index_ok_def)

lemma length_write_index:
  "digest_length L \<Longrightarrow> index_ok r \<Longrightarrow> length (write_index_record L r) = INDEX_RECORD_LEN"
  by (simp add: write_index_record_def Let_def length_index_fields index_ok_def digest_simps
      INDEX_RECORD_LEN_def)

lemma length_INDEX_MAGIC [simp]: "length INDEX_MAGIC = 8"
  by (simp add: INDEX_MAGIC_def)

definition index_of :: "lib \<Rightarrow> index_record list \<Rightarrow> bytes" where
  "index_of L irs = INDEX_MAGIC @ concat (map (write_index_record L) irs)"

lemma length_index_data:
  "digest_length L \<Longrightarrow> \<forall>r\<in>set irs. index_ok r \<Longrightarrow>
     length (concat (map (write_index_record L) irs)) = length irs * INDEX_RECORD_LEN"
  by (induction irs) (auto simp: length_write_index)

lemma read_index_records_all:
  "digest_length L \<Longrightarrow> \<forall>r\<in>set irs. index_ok r \<Longrightarrow>
     read_index_records L (length irs) (concat (map (write_index_record L) irs)) = Inr irs"
  by (induction irs) (auto simp: read_write_index)

lemma index_record_len_pos [simp]: "0 < INDEX_RECORD_LEN"
  by (simp add: INDEX_RECORD_LEN_def)

lemma index_count_index_of:
  "digest_length L \<Longrightarrow> \<forall>r\<in>set irs. index_ok r \<Longrightarrow> index_count (index_of L irs) = length irs"
  by (simp add: index_count_def index_of_def length_index_data)

lemma read_index_tail_index_of:
  assumes "digest_length L" and "\<forall>r\<in>set irs. index_ok r" and "rl_index s = Some (index_of L irs)"
  shows "read_index_tail L s limit = Inr (drop (length irs - limit) irs)"
proof -
  let ?k = "length irs - limit" and ?data = "\<lambda>irs. concat (map (write_index_record L) irs)"
  have "?data irs = ?data (take ?k irs) @ ?data (drop ?k irs)"
    by (metis append_take_drop_id concat_append map_append)
  moreover have "length (?data (take ?k irs)) = ?k * INDEX_RECORD_LEN"
    using length_index_data [OF assms(1), of "take ?k irs"] assms(2) by (auto dest: in_set_takeD)
  ultimately have "drop (?k * INDEX_RECORD_LEN) (?data irs) = ?data (drop ?k irs)"
    by (metis append_eq_conv_conj)
  moreover have "read_index_records L (length (drop ?k irs)) (?data (drop ?k irs)) = Inr (drop ?k irs)"
    by (rule read_index_records_all [OF assms(1)]) (use assms(2) in \<open>auto dest: in_set_dropD\<close>)
  moreover have "length irs - min (length irs) limit = ?k" "min (length irs) limit = length (drop ?k irs)"
    by auto
  ultimately show ?thesis
    using assms(3) index_count_index_of [OF assms(1,2)]
    by (simp add: read_index_tail_def Let_def index_of_def)
qed


section \<open>A log with a current index\<close>

definition tip_hash :: "lib \<Rightarrow> ref_record json_codec \<Rightarrow> object_id \<Rightarrow> ref_record list \<Rightarrow> object_id" where
  "tip_hash L J previous rs = (if rs = [] then previous else frame_hash_of L (js_enc J (last rs)))"

lemma chain_append:
  "chain L J previous seq (xs @ ys) \<longleftrightarrow>
     chain L J previous seq xs \<and> chain L J (tip_hash L J previous xs) (seq + length xs) ys"
  by (induction xs arbitrary: previous seq) (auto simp: tip_hash_def)

definition indexes :: "decoded_record \<Rightarrow> index_record \<Rightarrow> bool" where
  "indexes d r \<longleftrightarrow> ir_start r = dr_start d \<and> ir_end r = dr_end d \<and> ir_frame_hash r = dr_frame_hash d"

definition current :: "lib \<Rightarrow> ref_record json_codec \<Rightarrow> ref_log \<Rightarrow> ref_record list \<Rightarrow> bool" where
  "current L J s rs \<longleftrightarrow>
     chain L J zero_id 1 rs \<and> rl_log s = Some (log_of L J rs) \<and> log_len J rs < 2 ^ 63
     \<and> meta_ok (rl_meta s)
     \<and> (\<exists>irs. rl_index s = Some (index_of L irs) \<and> (\<forall>r\<in>set irs. index_ok r)
          \<and> list_all2 indexes (decoded_from L J 0 rs) irs
          \<and> (irs \<noteq> [] \<longrightarrow> ir_meta (last irs) = rl_meta s))"

lemma chain_payload: "chain L J previous seq rs \<Longrightarrow> r \<in> set rs \<Longrightarrow> length (js_enc J r) \<le> MAX_RECORD"
  by (induction rs arbitrary: previous seq) auto

lemma read_frame_of_decoded:
  assumes "digest_length L" and "js_faithful J" and "\<forall>r\<in>set rs. length (js_enc J r) \<le> MAX_RECORD"
    and "d \<in> set (decoded_from L J (length pre) rs)" and "log = pre @ log_of L J rs @ post"
  shows "read_frame_at L J log (dr_start d) = Inr (Some d)"
  using assms(3-5)
proof (induction rs arbitrary: pre)
  case (Cons r rs)
  show ?case
  proof (cases "d \<in> set (decoded_from L J (length (pre @ ref_frame L J r)) rs)")
    case True
    then show ?thesis using Cons.IH [OF _ True] Cons.prems by simp
  next
    case False
    with Cons.prems(2) length_frame [OF assms(1), of "js_enc J r"]
    have d: "d = \<lparr>dr_record = r, dr_frame_hash = frame_hash_of L (js_enc J r),
        dr_start = length pre, dr_end = length pre + frame_len J r\<rparr>"
      by (auto simp: frame_len_def add.assoc)
    have "length (js_enc J r) \<le> MAX_RECORD" using Cons.prems(1) by simp
    from read_frame_encode [OF assms(1,2) this, of log pre "log_of L J rs @ post"] Cons.prems(3) d
    show ?thesis by simp
  qed
qed simp

lemma decoded_from_empty [simp]: "decoded_from L J off rs = [] \<longleftrightarrow> rs = []"
  by (cases rs) auto

lemma last_decoded:
  "rs \<noteq> [] \<Longrightarrow> dr_end (last (decoded_from L J off rs)) = off + log_len J rs
     \<and> dr_record (last (decoded_from L J off rs)) = last rs
     \<and> dr_frame_hash (last (decoded_from L J off rs)) = frame_hash_of L (js_enc J (last rs))"
  by (cases rs rule: rev_cases) (auto simp: decoded_from_append add.assoc)

lemma read_exact_all: "length xs = n \<Longrightarrow> read_exact n xs = Some (xs, [])"
  by (simp add: read_exact_def)

lemma prepare_index_of:
  assumes "digest_length L" and "\<forall>r\<in>set irs. index_ok r" and "rl_index s = Some (index_of L irs)"
  shows "prepare_index L s = Inr (if irs = [] then None else Some (last irs), s)"
proof (cases irs rule: rev_cases)
  case Nil
  with assms(3) show ?thesis by (simp add: prepare_index_def index_of_def Let_def read_exact_all)
next
  case (snoc ys y)
  let ?data = "concat (map (write_index_record L) irs)"
  have len: "length ?data = length irs * INDEX_RECORD_LEN" by (rule length_index_data [OF assms(1,2)])
  have "length (concat (map (write_index_record L) ys)) = length ys * INDEX_RECORD_LEN"
    using assms(2) snoc by (intro length_index_data [OF assms(1)]) simp
  then have d: "drop (length irs * INDEX_RECORD_LEN - INDEX_RECORD_LEN) ?data = write_index_record L y"
    using snoc by simp
  have y: "read_index_record L (write_index_record L y) = Inr (y, [])"
    using read_write_index [OF assms(1), of y "[]"] assms(2) snoc by simp
  show ?thesis
    using assms(3) snoc len d y by (simp add: prepare_index_def index_of_def Let_def)
qed

lemma ensure_index_current:
  assumes dl: "digest_length L" and js: "js_faithful J" and cur: "current L J s rs"
  shows "ensure_index L J touch s = Inr s"
proof -
  from cur obtain irs where irs: "rl_index s = Some (index_of L irs)" "\<forall>r\<in>set irs. index_ok r"
    "list_all2 indexes (decoded_from L J 0 rs) irs" "irs \<noteq> [] \<longrightarrow> ir_meta (last irs) = rl_meta s"
    and log: "rl_log s = Some (log_of L J rs)" and ch: "chain L J zero_id 1 rs" by (auto simp: current_def)
  have prep: "prepare_index L s = Inr (if irs = [] then None else Some (last irs), s)"
    by (rule prepare_index_of [OF dl irs(2,1)])
  show ?thesis
  proof (cases "rs = []")
    case True
    with irs(3) have "irs = []" by simp
    with True prep irs(1) log show ?thesis by (simp add: ensure_index_def rewrite_index_def index_of_def)
  next
    case False
    from list_all2_last [OF irs(3)] False have ne: "irs \<noteq> []"
      and l: "indexes (last (decoded_from L J 0 rs)) (last irs)" by auto
    have "last (decoded_from L J 0 rs) \<in> set (decoded_from L J 0 rs)" using False by simp
    then have fr: "read_frame_at L J (log_of L J rs) (ir_start (last irs)) = Inr (Some (last (decoded_from L J 0 rs)))"
      using read_frame_of_decoded [OF dl js, of rs _ "[]" _ "[]"] chain_payload [OF ch] l
      by (auto simp: indexes_def)
    have "check_last L J touch s (last irs) = Inr s"
      using l fr last_decoded [OF False, of L J 0] irs(4) ne log length_log_of [OF dl, of J rs]
      by (simp add: check_last_def Let_def indexes_def matches_metadata_def)
    with prep ne show ?thesis by (simp add: ensure_index_def)
  qed
qed


text \<open>Rebuilding reads the whole log and makes the index current again.\<close>

lemma index_ok_decoded:
  assumes "digest_length L" and "d \<in> set (decoded_from L J off rs)" and "off + log_len J rs < 2 ^ 63"
    and "meta_ok meta"
  shows "index_ok (index_of_decoded meta d) \<and> indexes d (index_of_decoded meta d)"
proof -
  have "length (frame_hash_of L p) = 32" for p
    using digest_simps [OF assms(1)] by (simp add: frame_hash_of_def hash_frame_def)
  with assms(2,3) have "dr_start d \<le> dr_end d \<and> dr_end d < 2 ^ 63 \<and> length (dr_frame_hash d) = 32"
    by (induction rs arbitrary: off) auto
  with assms(4) show ?thesis
    by (simp add: index_ok_def indexes_def index_of_decoded_def index_record_new_def)
qed

lemma rewrite_index_current:
  assumes "digest_length L" and "chain L J zero_id 1 rs" and "rl_log s = Some (log_of L J rs)"
    and "log_len J rs < 2 ^ 63" and "meta_ok (rl_meta s)"
  shows "current L J (rewrite_index L s (decoded_from L J 0 rs)) rs"
proof -
  let ?irs = "map (index_of_decoded (rl_meta s)) (decoded_from L J 0 rs)"
  have "rl_index (rewrite_index L s (decoded_from L J 0 rs)) = Some (index_of L ?irs)"
    "rl_log (rewrite_index L s (decoded_from L J 0 rs)) = rl_log s"
    "rl_meta (rewrite_index L s (decoded_from L J 0 rs)) = rl_meta s"
    by (simp_all add: rewrite_index_def index_of_def o_def)
  moreover have "\<forall>r\<in>set ?irs. index_ok r"
    using index_ok_decoded [OF assms(1) _ _ assms(5), of _ J 0 rs] assms(4) by auto
  moreover have "list_all2 indexes (decoded_from L J 0 rs) ?irs"
    unfolding list_all2_map2
    by (rule list.rel_refl_strong) (use index_ok_decoded [OF assms(1) _ _ assms(5), of _ J 0 rs] assms(4) in auto)
  moreover have "?irs \<noteq> [] \<longrightarrow> ir_meta (last ?irs) = rl_meta s"
    by (auto simp: last_map index_of_decoded_def index_record_new_def)
  ultimately show ?thesis
    unfolding current_def using assms(2-5) by metis
qed

section \<open>Reading back\<close>

lemma frames_of_entries:
  assumes "digest_length L" and "js_faithful J" and "\<forall>r\<in>set rs. length (js_enc J r) \<le> MAX_RECORD"
    and "list_all2 indexes ds irs" and "set ds \<subseteq> set (decoded_from L J 0 rs)"
  shows "rfold (frame_of_entry L J (log_of L J rs)) acc irs = Inr (acc @ ds)"
  using assms(4,5)
proof (induction ds irs arbitrary: acc rule: list_all2_induct)
  case (Cons d ds r irs)
  have "read_frame_at L J (log_of L J rs) (ir_start r) = Inr (Some d)"
    using read_frame_of_decoded [OF assms(1-3), of d "[]" _ "[]"] Cons by (simp add: indexes_def)
  with Cons show ?case by (simp add: frame_of_entry_def indexes_def)
qed simp

lemma chained_decoded: "chain L J previous seq rs \<Longrightarrow> chained (decoded_from L J off rs)"
proof (induction rs arbitrary: previous seq off)
  case (Cons r rs)
  then show ?case by (cases rs) auto
qed simp

lemma read_recent_current:
  assumes dl: "digest_length L" and js: "js_faithful J" and cur: "current L J s rs"
  shows "read_recent_indexed L J s limit = Inr (rev (drop (length rs - limit) rs))"
proof -
  from cur obtain irs where irs: "rl_index s = Some (index_of L irs)" "\<forall>r\<in>set irs. index_ok r"
    "list_all2 indexes (decoded_from L J 0 rs) irs"
    and log: "rl_log s = Some (log_of L J rs)" and ch: "chain L J zero_id 1 rs" by (auto simp: current_def)
  let ?k = "length rs - limit" and ?e = "drop (length irs - (limit + 1)) irs"
  have len: "length irs = length rs" using list_all2_lengthD [OF irs(3)] by simp
  define skip :: nat where "skip = (if length ?e > limit then 1 else 0)"
  have "skip + (length irs - (limit + 1)) = ?k" unfolding skip_def using len by (simp; arith)
  then have ee: "drop skip ?e = drop ?k irs" by simp
  have split: "decoded_from L J 0 rs = decoded_from L J 0 (take ?k rs)
      @ decoded_from L J (log_len J (take ?k rs)) (drop ?k rs)"
    using decoded_from_append [of L J 0 "take ?k rs" "drop ?k rs"] by simp
  let ?ds = "decoded_from L J (log_len J (take ?k rs)) (drop ?k rs)"
  have ds: "drop ?k (decoded_from L J 0 rs) = ?ds" by (subst split) simp
  have all2: "list_all2 indexes ?ds (drop ?k irs)" unfolding ds [symmetric] using irs(3) by simp
  have sub: "set ?ds \<subseteq> set (decoded_from L J 0 rs)" by (subst split) simp
  have ch2: "chain L J zero_id 1 (take ?k rs @ drop ?k rs)" using ch by simp
  then have tail: "chain L J (tip_hash L J zero_id (take ?k rs)) (1 + length (take ?k rs)) (drop ?k rs)"
    unfolding chain_append by simp
  have fold: "rfold (frame_of_entry L J (log_bytes s)) [] (drop skip ?e) = Inr ?ds"
    using frames_of_entries [OF dl js _ all2 sub, of "[]"] chain_payload [OF ch] log ee by simp
  have first: "case ?ds of [] \<Rightarrow> True | f # _ \<Rightarrow> rr_previous_frame (dr_record f)
      = (if skip = 1 then ir_frame_hash (hd ?e) else zero_id)"
  proof (cases "drop ?k rs")
    case (Cons r rs')
    then have p: "rr_previous_frame r = tip_hash L J zero_id (take ?k rs)" using tail by simp
    show ?thesis
    proof (cases "skip = 1")
      case True
      then have k: "0 < ?k" "length irs - (limit + 1) = ?k - 1" using len by (auto simp: skip_def split: if_splits)
      then have hd: "hd ?e = irs ! (?k - 1)" using len by (simp add: hd_drop_conv_nth)
      have tne: "take ?k rs \<noteq> []" using k by auto
      have "indexes (decoded_from L J 0 rs ! (?k - 1)) (irs ! (?k - 1))"
        using irs(3) k len by (auto simp: list_all2_conv_all_nth)
      moreover have "decoded_from L J 0 rs ! (?k - 1) = last (decoded_from L J 0 (take ?k rs))"
        by (subst split) (use k tne in \<open>simp add: nth_append last_conv_nth\<close>)
      ultimately have "ir_frame_hash (hd ?e) = tip_hash L J zero_id (take ?k rs)"
        using last_decoded [OF tne, of L J 0] tne hd by (simp add: indexes_def tip_hash_def)
      with Cons p True show ?thesis by simp
    next
      case False
      then have "?k = 0" using len by (auto simp: skip_def split: if_splits)
      with Cons p False show ?thesis by (simp add: tip_hash_def)
    qed
  qed simp
  have e: "read_index_tail L s (limit + 1) = Inr ?e" by (rule read_index_tail_index_of [OF dl irs(2,1)])
  show ?thesis
    unfolding read_recent_indexed_def e rbind.simps Let_def skip_def [symmetric] fold
    using first chained_decoded [OF tail] by (simp only: if_True) (simp add: rev_map [symmetric])
qed


section \<open>Appending\<close>

lemma last_frame_current:
  assumes dl: "digest_length L" and js: "js_faithful J" and cur: "current L J s rs"
  shows "last_frame L J s = Inr (if rs = [] then None else Some (last (decoded_from L J 0 rs)))"
proof -
  from cur obtain irs where irs: "rl_index s = Some (index_of L irs)" "\<forall>r\<in>set irs. index_ok r"
    "list_all2 indexes (decoded_from L J 0 rs) irs"
    and log: "rl_log s = Some (log_of L J rs)" and ch: "chain L J zero_id 1 rs" by (auto simp: current_def)
  have tail: "read_index_tail L s 1 = Inr (drop (length irs - 1) irs)"
    by (rule read_index_tail_index_of [OF dl irs(2,1)])
  show ?thesis
  proof (cases "rs = []")
    case True
    with irs(3) tail show ?thesis by (simp add: last_frame_def)
  next
    case False
    from list_all2_last [OF irs(3)] False have ne: "irs \<noteq> []"
      and l: "indexes (last (decoded_from L J 0 rs)) (last irs)" by auto
    then have "last (drop (length irs - 1) irs) = last irs" "drop (length irs - 1) irs \<noteq> []"
      by (cases irs rule: rev_cases; simp)+
    moreover have "read_frame_at L J (log_of L J rs) (ir_start (last irs))
        = Inr (Some (last (decoded_from L J 0 rs)))"
      using read_frame_of_decoded [OF dl js, of rs "last (decoded_from L J 0 rs)" "[]" _ "[]"]
        chain_payload [OF ch] l False by (simp add: indexes_def)
    ultimately show ?thesis using tail False log by (simp add: last_frame_def)
  qed
qed

definition next_record ::
  "lib \<Rightarrow> ref_record json_codec \<Rightarrow> ref_record list \<Rightarrow> object_id \<Rightarrow> int \<Rightarrow> string option
   \<Rightarrow> snapshot_trigger \<Rightarrow> ref_record" where
  "next_record L J rs i at label trigger =
     \<lparr>rr_sequence = length rs + 1, rr_snapshot_id = i, rr_sealed_at = at, rr_label = label,
      rr_trigger = trigger, rr_previous_frame = tip_hash L J zero_id rs\<rparr>"

lemma chain_sequence: "chain L J previous seq (rs @ [r]) \<Longrightarrow> rr_sequence r = seq + length rs"
  by (simp add: chain_append)

lemma current_sequence:
  assumes "current L J s rs" and "rs \<noteq> []"
  shows "rr_sequence (last rs) = length rs"
proof (cases rs rule: rev_cases)
  case (snoc ys y)
  with assms(1) have "chain L J zero_id 1 (ys @ [y])" by (simp add: current_def)
  from chain_sequence [OF this] snoc show ?thesis by simp
qed (use assms(2) in simp)

lemma append_ordered_eq:
  assumes dl: "digest_length L" and js: "js_faithful J" and cur: "current L J s rs"
    and new: "rs = [] \<or> rr_snapshot_id (last rs) \<noteq> i"
    and r: "r = next_record L J rs i at label trigger" and small: "length (js_enc J r) \<le> MAX_RECORD"
  shows "append_ordered L J touch s i at label trigger = Inr (r,
    append_index L (set_log touch s (log_of L J (rs @ [r])))
      (index_record_new (log_len J rs) (log_len J (rs @ [r])) (frame_hash_of L (js_enc J r))
         (touch (rl_meta s))))"
proof -
  have log: "rl_log s = Some (log_of L J rs)" using cur by (simp add: current_def)
  then have open': "open_log s = s" by (simp add: open_log_def)
  let ?tip = "if rs = [] then None else Some (last (decoded_from L J 0 rs))"
  have rec: "\<lparr>rr_sequence = (case ?tip of None \<Rightarrow> 1 | Some d \<Rightarrow> rr_sequence (dr_record d) + 1),
             rr_snapshot_id = i, rr_sealed_at = at, rr_label = label, rr_trigger = trigger,
             rr_previous_frame = (case ?tip of None \<Rightarrow> zero_id | Some d \<Rightarrow> dr_frame_hash d)\<rparr> = r"
    using last_decoded [of rs L J 0] current_sequence [OF cur] r
    by (simp add: next_record_def tip_hash_def)
  have "(case ?tip of None \<Rightarrow> False | Some d \<Rightarrow> rr_snapshot_id (dr_record d) = i) = False"
    using new last_decoded [of rs L J 0] by auto
  then show ?thesis
    using ensure_index_current [OF dl js cur, of touch] last_frame_current [OF dl js cur] open' rec
      log small length_log_of [OF dl, of J rs] length_frame [OF dl, of "js_enc J r"]
    by (simp add: append_ordered_def Let_def set_log_def frame_len_def)
qed

lemma append_index_index_of:
  "rl_index s = Some (index_of L irs) \<Longrightarrow>
     append_index L s r = s\<lparr>rl_index := Some (index_of L (irs @ [r]))\<rparr>"
  by (simp add: append_index_def index_of_def INDEX_MAGIC_def Let_def)

lemma append_current:
  assumes dl: "digest_length L" and cur: "current L J s rs"
    and r: "r = next_record L J rs i at label trigger" and small: "length (js_enc J r) \<le> MAX_RECORD"
    and fits: "log_len J (rs @ [r]) < 2 ^ 63" and meta: "meta_ok (touch (rl_meta s))"
  shows "current L J (append_index L (set_log touch s (log_of L J (rs @ [r])))
      (index_record_new (log_len J rs) (log_len J (rs @ [r])) (frame_hash_of L (js_enc J r))
         (touch (rl_meta s)))) (rs @ [r])"
proof -
  from cur obtain irs where irs: "rl_index s = Some (index_of L irs)" "\<forall>r\<in>set irs. index_ok r"
    "list_all2 indexes (decoded_from L J 0 rs) irs" and ch: "chain L J zero_id 1 rs"
    by (auto simp: current_def)
  let ?s = "set_log touch s (log_of L J (rs @ [r]))"
  let ?e = "index_record_new (log_len J rs) (log_len J (rs @ [r])) (frame_hash_of L (js_enc J r))
      (touch (rl_meta s))"
  have idx: "rl_index ?s = Some (index_of L irs)" using irs(1) by (simp add: set_log_def)
  note s' = append_index_index_of [OF idx, of ?e]
  have "chain L J zero_id 1 (rs @ [r])"
    using ch small r by (simp add: chain_append next_record_def)
  moreover have "length (frame_hash_of L (js_enc J r)) = 32"
    using digest_simps [OF dl] by (simp add: frame_hash_of_def hash_frame_def)
  then have "index_ok ?e" using fits meta by (simp add: index_ok_def index_record_new_def)
  moreover have "list_all2 indexes (decoded_from L J 0 (rs @ [r])) (irs @ [?e])"
    using irs(3)
    by (simp add: decoded_from_append list_all2_appendI indexes_def index_record_new_def)
  ultimately show ?thesis
    unfolding s' current_def using fits meta irs(2)
    by (intro conjI exI [of _ "irs @ [?e]"]) (simp_all add: set_log_def index_record_new_def)
qed


section \<open>Repairing the suffix\<close>

text \<open>The records that repair keeps: the durable ones, and after them those whose snapshot is there.\<close>

fun kept_refs :: "ref_record json_codec \<Rightarrow> (object_id \<Rightarrow> bool) \<Rightarrow> nat \<Rightarrow> nat \<Rightarrow> ref_record list \<Rightarrow> ref_record list"
where
  "kept_refs J P d off [] = []"
| "kept_refs J P d off (r # rs) =
     (if off < d \<or> P (rr_snapshot_id r) then r # kept_refs J P d (off + frame_len J r) rs else [])"

lemma repair_loop_cut:
  assumes "off < length (log_bytes s)" and "d \<le> off"
    and "read_frame_at L J (log_bytes s) off = Inr None
      \<or> (\<exists>x. read_frame_at L J (log_bytes s) off = Inr (Some x) \<and> rr_sequence (dr_record x) = seq
           \<and> rr_previous_frame (dr_record x) = previous \<and> \<not> P (rr_snapshot_id (dr_record x)))"
  shows "repair_loop L J touch s d (\<lambda>i. Inr (P i)) off previous seq kept
    = Inr (True, rewrite_index L (set_log touch s (take off (log_bytes s))) kept)"
  using assms by (subst repair_loop.simps) (auto simp: Let_def)

lemma repair_loop_chain:
  assumes dl: "digest_length L" and js: "js_faithful J" and torn: "torn_frame L tail"
    and "chain L J (tip_hash L J zero_id old) (1 + length old) rs"
    and "rl_log s = Some (log_of L J old @ log_of L J rs @ tail)" and "d \<le> log_len J (old @ rs)"
    and "new = kept_refs J P d (log_len J old) rs"
  shows "repair_loop L J touch s d (\<lambda>i. Inr (P i)) (log_len J old) (tip_hash L J zero_id old)
      (1 + length old) (decoded_from L J 0 old)
    = Inr (if new = rs \<and> tail = [] then (False, s)
           else (True, rewrite_index L (set_log touch s (log_of L J (old @ new)))
                   (decoded_from L J 0 (old @ new))))"
  using assms(4-7)
proof (induction rs arbitrary: old new)
  case Nil
  have off: "log_len J old = length (log_of L J old)" by (simp add: length_log_of [OF dl])
  show ?case
  proof (cases "tail = []")
    case True
    with Nil off show ?thesis by (subst repair_loop.simps) simp
  next
    case False
    have "read_frame_at L J (log_bytes s) (log_len J old) = Inr None"
      by (rule read_frame_torn [OF dl torn _ off]) (use Nil in simp)
    with repair_loop_cut [of "log_len J old" s d L J "1 + length old" "tip_hash L J zero_id old" P touch
        "decoded_from L J 0 old"] False Nil off show ?thesis by simp
  qed
next
  case (Cons r rs)
  have off: "log_len J old = length (log_of L J old)" by (simp add: length_log_of [OF dl])
  have r: "length (js_enc J r) \<le> MAX_RECORD" "rr_previous_frame r = tip_hash L J zero_id old"
    "rr_sequence r = 1 + length old" using Cons.prems(1) by auto
  have fr: "read_frame_at L J (log_bytes s) (log_len J old) = Inr (Some \<lparr>dr_record = r,
      dr_frame_hash = frame_hash_of L (js_enc J r), dr_start = log_len J old,
      dr_end = log_len J old + frame_len J r\<rparr>)"
    by (rule read_frame_encode [OF dl js r(1) _ off, where post = "log_of L J rs @ tail"])
      (use Cons.prems(2) in simp)
  have lt: "log_len J old < length (log_bytes s)"
    using Cons.prems(2) off length_frame [OF dl, of "js_enc J r"] by simp
  show ?case
  proof (cases "log_len J old < d \<or> P (rr_snapshot_id r)")
    case True
    define new' where "new' = kept_refs J P d (log_len J (old @ [r])) rs"
    have new: "new = r # new'" using True Cons.prems(4) by (simp add: new'_def)
    have ch: "chain L J (tip_hash L J zero_id (old @ [r])) (1 + length (old @ [r])) rs"
      using Cons.prems(1) by (simp add: tip_hash_def)
    have log: "rl_log s = Some (log_of L J (old @ [r]) @ log_of L J rs @ tail)"
      using Cons.prems(2) by simp
    have d: "d \<le> log_len J ((old @ [r]) @ rs)" using Cons.prems(3) by simp
    have step: "repair_loop L J touch s d (\<lambda>i. Inr (P i)) (log_len J old) (tip_hash L J zero_id old)
        (1 + length old) (decoded_from L J 0 old)
      = repair_loop L J touch s d (\<lambda>i. Inr (P i)) (log_len J (old @ [r]))
        (tip_hash L J zero_id (old @ [r])) (1 + length (old @ [r])) (decoded_from L J 0 (old @ [r]))"
      using lt fr r True
      by (subst repair_loop.simps) (auto simp: Let_def tip_hash_def decoded_from_append)
    show ?thesis unfolding step Cons.IH [OF ch log d new'_def] new by simp
  next
    case False
    then have new: "new = []" using Cons.prems(4) by simp
    have "take (log_len J old) (log_bytes s) = log_of L J old" using Cons.prems(2) off by simp
    with repair_loop_cut [of "log_len J old" s d L J "1 + length old" "tip_hash L J zero_id old" P touch
        "decoded_from L J 0 old"] lt fr r False new show ?thesis by simp
  qed
qed

lemma recent_current:
  assumes "digest_length L" and "js_faithful J" and "current L J s rs"
  shows "recent L J touch s limit = Inr (take limit (rev rs), s)"
proof -
  have "rev (drop (length rs - limit) rs) = take limit (rev rs)"
    by (cases "limit \<le> length rs") (simp_all add: rev_drop)
  moreover have "rl_log s \<noteq> None" using assms(3) by (simp add: current_def)
  ultimately show ?thesis
    using ensure_index_current [OF assms, of touch] read_recent_current [OF assms, of limit]
    by (cases "limit = 0") (auto simp: recent_def)
qed

lemma head_current:
  assumes "digest_length L" and "js_faithful J" and "current L J s rs"
  shows "head L J touch s = Inr (if rs = [] then None else Some (last rs), s)"
  using recent_current [OF assms, of touch 1] by (cases rs rule: rev_cases) (simp_all add: head_def)

section \<open>Properties\<close>

text \<open>
  C18: reading the whole log verifies it and gives back exactly the records that were appended, in
  order. A frame that breaks off at the end, at any byte, is cut off and the index is rebuilt to
  match what is left.
\<close>

theorem log_records_read_back:
  assumes "digest_length L" and "js_faithful J" and "chain L J zero_id 1 rs"
    and "rl_log s = Some (log_of L J rs @ tail)" and "torn_frame L tail"
    and "log_len J rs < 2 ^ 63" and "meta_ok (rl_meta s)" and "meta_ok (touch (rl_meta s))"
  shows "\<exists>s'. log_records L J touch s = Inr (rs, s') \<and> current L J s' rs"
proof -
  have "open_log s = s" using assms(4) by (simp add: open_log_def)
  moreover have "read_records L J (log_of L J rs @ tail) 0 zero_id 1
      = Inr (decoded_from L J 0 rs, log_len J rs, tail \<noteq> [])"
    using read_records_chain [OF assms(1,2,5,3), of _ "[]" 0] by simp
  moreover have "take (log_len J rs) (log_of L J rs @ tail) = log_of L J rs"
    using length_log_of [OF assms(1), of J rs] by simp
  moreover have "current L J (rewrite_index L s (decoded_from L J 0 rs)) rs" if "tail = []"
    using rewrite_index_current [OF assms(1,3) _ assms(6,7)] assms(4) that by simp
  moreover have "current L J (rewrite_index L (set_log touch s (log_of L J rs)) (decoded_from L J 0 rs)) rs"
    by (rule rewrite_index_current [OF assms(1,3) _ assms(6)])
      (use assms(8) in \<open>simp_all add: set_log_def\<close>)
  ultimately show ?thesis
    using assms(4) by (cases "tail = []") (simp_all add: log_records_def Let_def)
qed

text \<open>
  C19: appending to a log with a current index adds one record at its end, with the next sequence
  number and the hash of the frame before it, and keeps the index current; when the snapshot is
  already the head, nothing is written and the existing record is returned.
\<close>

theorem append_extends_chain:
  assumes "digest_length L" and "js_faithful J" and "current L J s rs"
    and "length (js_enc J (next_record L J rs i at label trigger)) \<le> MAX_RECORD"
    and "log_len J (rs @ [next_record L J rs i at label trigger]) < 2 ^ 63"
    and "meta_ok (touch (rl_meta s))"
  shows "if rs \<noteq> [] \<and> rr_snapshot_id (last rs) = i
    then append_ordered L J touch s i at label trigger = Inr (last rs, s)
    else \<exists>s'. append_ordered L J touch s i at label trigger
                = Inr (next_record L J rs i at label trigger, s')
           \<and> current L J s' (rs @ [next_record L J rs i at label trigger])"
proof (cases "rs \<noteq> [] \<and> rr_snapshot_id (last rs) = i")
  case True
  have "open_log s = s" using assms(3) by (simp add: open_log_def current_def)
  with True ensure_index_current [OF assms(1-3), of touch] last_frame_current [OF assms(1-3)]
    last_decoded [of rs L J 0] show ?thesis by (simp add: append_ordered_def)
next
  case False
  then have "rs = [] \<or> rr_snapshot_id (last rs) \<noteq> i" by blast
  from append_ordered_eq [OF assms(1-3) this refl assms(4)]
    append_current [where touch = touch and s = s, OF assms(1,3) refl assms(4-6)] False show ?thesis by auto
qed

text \<open>
  \<open>recent\<close> returns the newest records first, at most \<open>limit\<close> of them, and leaves log and
  index alone.
\<close>

theorem recent_newest_first:
  assumes "digest_length L" and "js_faithful J" and "current L J s rs"
  shows "recent L J touch s limit = Inr (take limit (rev rs), s)"
  by (rule recent_current [OF assms])

text \<open>
  C21: after a power loss, \<open>repair_suffix\<close> keeps the durable records and, after them, the longest
  run of records whose snapshot object is in the store; everything later is cut off, and the log
  is changed only when something is cut.
\<close>

theorem repair_keeps_present_prefix:
  assumes "digest_length L" and "js_faithful J" and "chain L J zero_id 1 rs"
    and "rl_log s = Some (log_of L J rs @ tail)" and "torn_frame L tail" and "d \<le> log_len J rs"
  shows "\<exists>cut s'. repair_suffix L J touch s d (\<lambda>i. Inr (P i)) = Inr (cut, s')
    \<and> rl_log s' = Some (log_of L J (kept_refs J P d 0 rs))
    \<and> (cut \<longleftrightarrow> kept_refs J P d 0 rs \<noteq> rs \<or> tail \<noteq> [])
    \<and> (\<not> cut \<longrightarrow> s' = s)"
proof -
  have s: "open_log s = s" using assms(4) by (simp add: open_log_def)
  have "d \<le> length (log_bytes s)" using assms(4,6) length_log_of [OF assms(1), of J rs] by simp
  with repair_loop_chain [OF assms(1,2,5), where old = "[]" and rs = rs and s = s and d = d
      and P = P and touch = touch, OF _ _ _ refl] assms(3,4,6) s
  show ?thesis
    by (auto simp: repair_suffix_def Let_def tip_hash_def rewrite_index_def set_log_def)
qed


section \<open>Witnesses\<close>

definition c_ref :: "ref_record codec" where
  "c_ref = c_iso
     (\<lambda>r. (rr_sequence r, rr_snapshot_id r, rr_sealed_at r, rr_label r, rr_trigger r, rr_previous_frame r))
     (\<lambda>(n, i, a, l, t, p). \<lparr>rr_sequence = n, rr_snapshot_id = i, rr_sealed_at = a, rr_label = l,
        rr_trigger = t, rr_previous_frame = p\<rparr>)
     (c_pair c_nat (c_pair c_bytes (c_pair c_int (c_pair (c_option c_bytes) (c_pair c_trigger c_bytes)))))"

definition sample_refs :: "ref_record json_codec" where
  "sample_refs = \<lparr>js_enc = enc c_ref, js_dec = (\<lambda>b. map_option fst (dec c_ref b))\<rparr>"

lemma sample_refs_faithful: "js_faithful sample_refs"
proof -
  have "codec_ok c_ref" unfolding c_ref_def
    by (rule codec_iso) (auto intro!: codec_pair codec_nat codec_bytes codec_int codec_option codec_trigger)
  then show ?thesis by (simp add: js_faithful_def sample_refs_def codec_round_trip)
qed

definition sample_meta :: file_meta where
  "sample_meta = \<lparr>fm_dev = 1, fm_ino = 2, fm_mtime_secs = 3, fm_mtime_nanos = 4, fm_ctime_secs = 5,
     fm_ctime_nanos = 6\<rparr>"

lemma sample_meta_ok: "meta_ok sample_meta"
  by (simp add: meta_ok_def sample_meta_def i64_def)

definition sample_ref :: ref_record where
  "sample_ref = next_record short_lib sample_refs [] ''snap'' 0 None Manual"

lemma sample_ref_length: "length (js_enc sample_refs sample_ref) = 81"
  by (simp add: sample_refs_def sample_ref_def next_record_def tip_hash_def zero_id_def c_ref_def
      c_trigger_def c_option_def c_enum_def c_int_def c_iso_def c_pair_def c_nat_def c_bytes_def c_list_def)

lemma sample_chain: "chain short_lib sample_refs zero_id 1 [sample_ref]"
  using sample_ref_length by (simp add: sample_ref_def next_record_def tip_hash_def MAX_RECORD_def)

definition one_ref_log :: ref_log where
  "one_ref_log = \<lparr>rl_log = Some (log_of short_lib sample_refs [sample_ref] @ ''AG''),
     rl_index = None, rl_meta = sample_meta\<rparr>"

lemma sample_torn: "torn_frame short_lib ''AG''"
  unfolding torn_frame_def
  by (rule exI [of _ "[]"]) (simp add: encode_frame_def MAGIC_def strict_prefix_def)

theorem log_records_read_back_witness:
  "\<exists>s'. log_records short_lib sample_refs id one_ref_log = Inr ([sample_ref], s')"
proof -
  have "rl_log one_ref_log = Some (log_of short_lib sample_refs [sample_ref] @ ''AG'')"
    "log_len sample_refs [sample_ref] < 2 ^ 63" "meta_ok (rl_meta one_ref_log)"
    "meta_ok (id (rl_meta one_ref_log))"
    using sample_meta_ok sample_ref_length by (simp_all add: one_ref_log_def frame_len_def)
  from log_records_read_back [where touch = id, OF short_lib_digest sample_refs_faithful sample_chain this(1) sample_torn this(2-4)]
  show ?thesis by blast
qed

definition empty_refs :: ref_log where
  "empty_refs = \<lparr>rl_log = Some [], rl_index = Some INDEX_MAGIC, rl_meta = sample_meta\<rparr>"

lemma empty_refs_current: "current short_lib sample_refs empty_refs []"
  using sample_meta_ok
  by (auto simp: current_def empty_refs_def index_of_def intro!: exI [of _ "[]"])

theorem append_extends_chain_witness:
  "\<exists>s'. append_ordered short_lib sample_refs id empty_refs ''snap'' 0 None Manual = Inr (sample_ref, s')
     \<and> current short_lib sample_refs s' [sample_ref]"
  using append_extends_chain [OF short_lib_digest sample_refs_faithful empty_refs_current,
      of "''snap''" 0 None Manual id] sample_ref_length sample_meta_ok
  by (simp add: sample_ref_def [symmetric] MAX_RECORD_def frame_len_def empty_refs_def)

theorem recent_newest_first_witness:
  "recent short_lib sample_refs id empty_refs 3 = Inr ([], empty_refs)"
  using recent_newest_first [OF short_lib_digest sample_refs_faithful empty_refs_current] by simp

theorem repair_keeps_present_prefix_witness:
  "\<exists>s'. repair_suffix short_lib sample_refs id one_ref_log 0 (\<lambda>i. Inr (i = ''snap'')) = Inr (True, s')
     \<and> rl_log s' = Some (log_of short_lib sample_refs [sample_ref])"
proof -
  have "rl_log one_ref_log = Some (log_of short_lib sample_refs [sample_ref] @ ''AG'')"
    by (simp add: one_ref_log_def)
  from repair_keeps_present_prefix [OF short_lib_digest sample_refs_faithful sample_chain this sample_torn,
      of 0 id "\<lambda>i. i = ''snap''"]
  show ?thesis by (auto simp: sample_ref_def next_record_def)
qed

end
