(* ===== verification/Retention.thy ===== *)
theory Retention
  imports Ref_Log "HOL-Library.Product_Lexorder"
begin

text \<open>
  \<^verbatim>\<open>furrow-core/src/retention.rs\<close>: which snapshots of a timeline are kept. The policy keeps
  everything of the last day, then the newest snapshot per hour, day and week, the pinned
  snapshots and the head; its result is a list of sequence ranges, logged as checksummed frames.
\<close>

definition RET_MAGIC :: bytes where "RET_MAGIC = ''AGRT''"
definition RET_MAX_RECORD :: nat where "RET_MAX_RECORD = 4 * 1024 * 1024"
definition HOUR :: int where "HOUR = 60 * 60"
definition DAY :: int where "DAY = 24 * HOUR"
definition WEEK :: int where "WEEK = 7 * DAY"
definition ALL_SNAPSHOTS_WINDOW :: int where "ALL_SNAPSHOTS_WINDOW = DAY"
definition HOURLY_WINDOW :: int where "HOURLY_WINDOW = 7 * DAY"
definition DAILY_WINDOW :: int where "DAILY_WINDOW = 90 * DAY"

lemmas window_consts = HOUR_def DAY_def WEEK_def ALL_SNAPSHOTS_WINDOW_def HOURLY_WINDOW_def DAILY_WINDOW_def

record sequence_range =
  sr_first :: nat
  sr_last :: nat

record pin =
  pin_sequence :: nat
  pin_snapshot_id :: object_id

record retention_state =
  rs_event_sequence :: nat
  rs_evaluated_through :: nat
  rs_evaluated_at :: int
  rs_retained :: "sequence_range list"
  rs_pins :: "pin list"
  rs_previous_frame :: object_id

datatype tier = HourTier | DayTier | WeekTier

fun tier_rank :: "tier \<Rightarrow> nat" where
  "tier_rank HourTier = 0"
| "tier_rank DayTier = 1"
| "tier_rank WeekTier = 2"

instantiation tier :: linorder
begin

definition less_eq_tier :: "tier \<Rightarrow> tier \<Rightarrow> bool" where
  "a \<le> b \<longleftrightarrow> tier_rank a \<le> tier_rank b"

definition less_tier :: "tier \<Rightarrow> tier \<Rightarrow> bool" where
  "a < b \<longleftrightarrow> tier_rank a < tier_rank b"

instance
proof
  fix x y :: tier
  assume "x \<le> y" "y \<le> x"
  then show "x = y" by (cases x; cases y) (auto simp: less_eq_tier_def)
qed (auto simp: less_eq_tier_def less_tier_def)

end

record candidate =
  ca_sealed_at :: int
  ca_sequence :: nat

section \<open>States\<close>

definition ret_initial :: retention_state where
  "ret_initial = \<lparr>rs_event_sequence = 0, rs_evaluated_through = 0, rs_evaluated_at = 0,
     rs_retained = [], rs_pins = [], rs_previous_frame = zero_id\<rparr>"

definition range_order :: "nat \<Rightarrow> sequence_range \<Rightarrow> ordering" where
  "range_order seq r = (if seq < sr_first r then Gt else if seq > sr_last r then Lt else Eq)"

definition retains_in_ranges :: "retention_state \<Rightarrow> nat \<Rightarrow> bool" where
  "retains_in_ranges s seq \<longleftrightarrow> binary_search_by (range_order seq) (rs_retained s) \<noteq> None"

definition pin_order :: "nat \<Rightarrow> pin \<Rightarrow> ordering" where
  "pin_order seq p = (if pin_sequence p < seq then Lt else if pin_sequence p = seq then Eq else Gt)"

definition is_pinned :: "retention_state \<Rightarrow> object_id \<Rightarrow> bool" where
  "is_pinned s snapshot_id \<longleftrightarrow> list_ex (\<lambda>p. pin_snapshot_id p = snapshot_id) (rs_pins s)"

definition retains :: "retention_state \<Rightarrow> nat \<Rightarrow> object_id \<Rightarrow> bool" where
  "retains s seq snapshot_id \<longleftrightarrow>
     seq > rs_evaluated_through s
     \<or> retains_in_ranges s seq
     \<or> binary_search_by (pin_order seq) (rs_pins s) \<noteq> None
     \<or> list_ex (\<lambda>p. pin_snapshot_id p = snapshot_id) (rs_pins s)"

definition retained_count_through :: "retention_state \<Rightarrow> nat" where
  "retained_count_through s = sum_list (map (\<lambda>r. sr_last r - sr_first r + 1) (rs_retained s))"

definition retained_count :: "retention_state \<Rightarrow> nat \<Rightarrow> nat" where
  "retained_count s hd_seq =
     (let count = retained_count_through s;
          count' = (if hd_seq > rs_evaluated_through s
                    then u64_saturating_add count (hd_seq - rs_evaluated_through s) else count) in
      foldl (\<lambda>c p. if pin_sequence p \<le> rs_evaluated_through s \<and> \<not> retains_in_ranges s (pin_sequence p)
                   then u64_saturating_add c 1 else c) count' (rs_pins s))"

text \<open>
  The heap of \<open>recent_sequences\<close> holds pairs of a sequence and the first sequence of its interval;
  \<open>pop\<close> takes the greatest.
\<close>

fun heap_pop :: "(nat \<times> nat) list \<Rightarrow> ((nat \<times> nat) \<times> (nat \<times> nat) list) option" where
  "heap_pop [] = None"
| "heap_pop (x # xs) =
     (case heap_pop xs of
        None \<Rightarrow> Some (x, [])
      | Some (m, rest) \<Rightarrow> if m \<le> x then Some (x, xs) else Some (m, x # rest))"

definition heap_size :: "(nat \<times> nat) list \<Rightarrow> nat" where
  "heap_size xs = sum_list (map (\<lambda>(s, f). Suc (Suc s - f)) xs)"

lemma heap_pop_None [simp]: "heap_pop xs = None \<longleftrightarrow> xs = []"
  by (cases xs) (auto split: option.splits)

lemma heap_pop_size:
  "heap_pop xs = Some ((s, f), rest) \<Longrightarrow> heap_size xs = Suc (Suc s - f) + heap_size rest"
proof (induction xs arbitrary: s f rest)
  case (Cons x xs)
  then show ?case
    by (cases x) (auto simp: heap_size_def split: option.splits if_splits)
qed simp

function recent_loop ::
  "nat \<Rightarrow> (nat \<times> nat) list \<Rightarrow> nat option \<Rightarrow> nat list \<Rightarrow> nat list" where
  "recent_loop limit intervals previous result =
     (if length result < limit
      then case heap_pop intervals of
             None \<Rightarrow> result
           | Some ((seq, first), rest) \<Rightarrow>
               if seq \<ge> first
               then recent_loop limit (if seq > first then (seq - 1, first) # rest else rest)
                      (if previous \<noteq> Some seq then Some seq else previous)
                      (if previous \<noteq> Some seq then result @ [seq] else result)
               else recent_loop limit rest previous result
      else result)"
  by pat_completeness auto
termination
  by (relation "measure (\<lambda>(limit, intervals, previous, result). heap_size intervals)")
    (auto dest: heap_pop_size simp: heap_size_def)

declare recent_loop.simps [simp del]

definition recent_sequences :: "retention_state \<Rightarrow> nat \<Rightarrow> nat \<Rightarrow> nat list" where
  "recent_sequences s hd_seq limit =
     (if limit = 0 \<or> hd_seq = 0 then []
      else recent_loop limit
        ((if hd_seq > rs_evaluated_through s then [(hd_seq, rs_evaluated_through s + 1)] else [])
         @ map (\<lambda>r. (min (sr_last r) hd_seq, sr_first r)) (rs_retained s)
         @ map (\<lambda>p. (pin_sequence p, pin_sequence p))
             (filter (\<lambda>p. pin_sequence p \<le> hd_seq) (rs_pins s)))
        None [])"

section \<open>The policy\<close>

fun compress_from :: "sequence_range list \<Rightarrow> nat list \<Rightarrow> sequence_range list" where
  "compress_from ranges [] = ranges"
| "compress_from ranges (seq # seqs) =
     (if ranges \<noteq> [] \<and> sr_last (last ranges) + 1 = seq
      then compress_from (butlast ranges @ [(last ranges)\<lparr>sr_last := seq\<rparr>]) seqs
      else compress_from (ranges @ [\<lparr>sr_first = seq, sr_last = seq\<rparr>]) seqs)"

definition compress_sequences :: "nat list \<Rightarrow> sequence_range list" where
  "compress_sequences seqs = compress_from [] seqs"

record plan_acc =
  pa_retained :: "nat list"
  pa_buckets :: "(tier \<times> int, candidate) btree_map"
  pa_through :: nat

definition tier_of :: "int \<Rightarrow> tier \<times> int" where
  "tier_of age =
     (if age \<le> HOURLY_WINDOW then (HourTier, HOUR)
      else if age \<le> DAILY_WINDOW then (DayTier, DAY)
      else (WeekTier, WEEK))"

definition bucket_of :: "int \<Rightarrow> ref_record \<Rightarrow> tier \<times> int" where
  "bucket_of now r =
     (let age = i64_saturating_sub now (rr_sealed_at r) in
      (fst (tier_of age), rr_sealed_at r div snd (tier_of age)))"

definition kept_whole :: "int \<Rightarrow> nat list \<Rightarrow> ref_record \<Rightarrow> bool" where
  "kept_whole now pinned r \<longleftrightarrow>
     (let age = i64_saturating_sub now (rr_sealed_at r) in
      age \<le> ALL_SNAPSHOTS_WINDOW \<or> age < 0 \<or> rr_sequence r \<in> set pinned)"

definition newer :: "candidate \<Rightarrow> candidate \<Rightarrow> bool" where
  "newer a b \<longleftrightarrow> (ca_sealed_at b, ca_sequence b) < (ca_sealed_at a, ca_sequence a)"

definition plan_record :: "int \<Rightarrow> nat list \<Rightarrow> plan_acc \<Rightarrow> ref_record \<Rightarrow> plan_acc" where
  "plan_record now pinned acc r =
     (let acc' = acc\<lparr>pa_through := rr_sequence r\<rparr> in
      if kept_whole now pinned r
      then acc'\<lparr>pa_retained := pa_retained acc @ [rr_sequence r]\<rparr>
      else
        let key = bucket_of now r;
            cand = \<lparr>ca_sealed_at = rr_sealed_at r, ca_sequence = rr_sequence r\<rparr>;
            chosen = (case bt_get (pa_buckets acc) key of
                None \<Rightarrow> cand
              | Some existing \<Rightarrow> if newer cand existing then cand else existing) in
        acc'\<lparr>pa_buckets := bt_insert key chosen (pa_buckets acc)\<rparr>)"

definition plan_start :: plan_acc where
  "plan_start = \<lparr>pa_retained = [], pa_buckets = [], pa_through = 0\<rparr>"

definition plan_finish :: "int \<Rightarrow> pin list \<Rightarrow> plan_acc \<Rightarrow> retention_state" where
  "plan_finish now pins acc =
     \<lparr>rs_event_sequence = 0, rs_evaluated_through = pa_through acc, rs_evaluated_at = now,
      rs_retained = compress_sequences (bs_of (pa_retained acc
         @ map (\<lambda>(k, c). ca_sequence c) (pa_buckets acc)
         @ map pin_sequence pins
         @ (if pa_through acc > 0 then [pa_through acc] else []))),
      rs_pins = pins, rs_previous_frame = zero_id\<rparr>"

definition plan_state ::
  "lib \<Rightarrow> ref_record json_codec \<Rightarrow> (file_meta \<Rightarrow> file_meta) \<Rightarrow> ref_log \<Rightarrow> int \<Rightarrow> pin list
   \<Rightarrow> (retention_state \<times> ref_log) result" where
  "plan_state L J touch refs now pins =
     rbind (for_each_record L J touch refs
              (\<lambda>acc r. Inr (plan_record now (map pin_sequence pins) acc r)) plan_start)
       (\<lambda>(acc, refs'). Inr (plan_finish now pins acc, refs'))"

section \<open>The log\<close>

definition ret_frame :: "lib \<Rightarrow> bytes \<Rightarrow> bytes" where
  "ret_frame L payload = RET_MAGIC @ le_bytes 4 (length payload) @ blake3 L payload @ payload"

definition ret_frame_hash :: "lib \<Rightarrow> bytes \<Rightarrow> bytes \<Rightarrow> bytes \<Rightarrow> object_id" where
  "ret_frame_hash L len checksum payload = blake3 L (RET_MAGIC @ len @ checksum @ payload)"

definition ret_read_frame ::
  "lib \<Rightarrow> retention_state json_codec \<Rightarrow> bytes \<Rightarrow> nat \<Rightarrow> (retention_state \<times> object_id \<times> nat) option result"
where
  "ret_read_frame L J log start =
     (case read_exact 4 (drop start log) of None \<Rightarrow> Inr None | Some (magic, rest1) \<Rightarrow>
      ensure (magic = RET_MAGIC) ''retention log corruption''
      (case read_exact 4 rest1 of None \<Rightarrow> Inr None | Some (len_bytes, rest2) \<Rightarrow>
       let len = le_val len_bytes in
       ensure (len \<le> RET_MAX_RECORD) ''retention record exceeds size limit''
       (case read_exact 32 rest2 of None \<Rightarrow> Inr None | Some (checksum, rest3) \<Rightarrow>
        case read_exact len rest3 of None \<Rightarrow> Inr None | Some (payload, rest4) \<Rightarrow>
        ensure (blake3 L payload = checksum) ''retention checksum mismatch''
        (rbind (of_opt ''decode retention record'' (js_dec J payload)) (\<lambda>state.
         Inr (Some (state, ret_frame_hash L len_bytes checksum payload, start + 40 + len)))))))"

lemma ret_read_frame_advances:
  "ret_read_frame L J log start = Inr (Some (st, h, e)) \<Longrightarrow> start < e \<and> e \<le> length log"
proof -
  assume "ret_read_frame L J log start = Inr (Some (st, h, e))"
  then obtain n where "e = start + 40 + n" "32 \<le> length log - (8 + start)"
    "n \<le> length log - (40 + start)"
    by (auto simp: ret_read_frame_def Let_def read_exact_def split: option.splits if_splits)
  then show ?thesis by linarith
qed

fun validate_ranges :: "nat \<Rightarrow> nat \<Rightarrow> sequence_range list \<Rightarrow> unit result" where
  "validate_ranges through previous [] = Inr ()"
| "validate_ranges through previous (r # rs) =
     ensure (sr_first r > 0 \<and> sr_first r \<le> sr_last r) ''invalid retained sequence range''
     (ensure (sr_first r > previous) ''overlapping retained ranges''
      (ensure (sr_last r \<le> through) ''retained range exceeds evaluated history''
       (validate_ranges through (sr_last r) rs)))"

fun validate_pins :: "nat \<Rightarrow> pin list \<Rightarrow> unit result" where
  "validate_pins previous [] = Inr ()"
| "validate_pins previous (p # ps) =
     ensure (pin_sequence p > previous) ''pins are not ordered'' (validate_pins (pin_sequence p) ps)"

definition validate_state :: "retention_state \<Rightarrow> unit result" where
  "validate_state s =
     rbind (validate_ranges (rs_evaluated_through s) 0 (rs_retained s)) (\<lambda>_.
     validate_pins 0 (rs_pins s))"

function read_latest_from ::
  "lib \<Rightarrow> retention_state json_codec \<Rightarrow> bytes \<Rightarrow> nat \<Rightarrow> retention_state \<Rightarrow> object_id
   \<Rightarrow> (retention_state \<times> bytes) result" where
  "read_latest_from L J log offset state previous =
     (if offset < length log
      then rbind (ret_read_frame L J log offset) (\<lambda>frame.
           case frame of
             None \<Rightarrow> Inr (state, take offset log)
           | Some (next, frame_hash, end') \<Rightarrow>
               ensure (rs_event_sequence next = rs_event_sequence state + 1) ''broken retention sequence''
               (ensure (rs_previous_frame next = previous) ''broken retention hash chain''
                (rbind (validate_state next) (\<lambda>_.
                 read_latest_from L J log end' next frame_hash))))
      else Inr (state, log))"
  by pat_completeness auto
termination
  by (relation "measure (\<lambda>(L, J, log, offset, st, p). length log - offset)")
    (auto dest!: ret_read_frame_advances)

declare read_latest_from.simps [simp del]

text \<open>The latest state and the log, with a broken-off frame cut away.\<close>

definition read_latest :: "lib \<Rightarrow> retention_state json_codec \<Rightarrow> bytes \<Rightarrow> (retention_state \<times> bytes) result" where
  "read_latest L J log = read_latest_from L J log 0 ret_initial zero_id"

function current_frame_hash_from ::
  "lib \<Rightarrow> retention_state json_codec \<Rightarrow> bytes \<Rightarrow> nat \<Rightarrow> object_id option \<Rightarrow> object_id option result" where
  "current_frame_hash_from L J log offset latest =
     (if offset < length log
      then rbind (ret_read_frame L J log offset) (\<lambda>frame.
           case frame of
             None \<Rightarrow> Inr latest
           | Some (_, frame_hash, end') \<Rightarrow> current_frame_hash_from L J log end' (Some frame_hash))
      else Inr latest)"
  by pat_completeness auto
termination
  by (relation "measure (\<lambda>(L, J, log, offset, h). length log - offset)")
    (auto dest!: ret_read_frame_advances)

declare current_frame_hash_from.simps [simp del]

definition current_frame_hash :: "lib \<Rightarrow> retention_state json_codec \<Rightarrow> bytes \<Rightarrow> object_id option result" where
  "current_frame_hash L J log = current_frame_hash_from L J log 0 None"

definition append_state :: "lib \<Rightarrow> retention_state json_codec \<Rightarrow> bytes \<Rightarrow> retention_state \<Rightarrow> bytes result" where
  "append_state L J log state =
     (let payload = js_enc J state in
      ensure (length payload \<le> RET_MAX_RECORD) ''retention record is too large''
      (Inr (log @ ret_frame L payload)))"

definition same_policy_state :: "retention_state \<Rightarrow> retention_state \<Rightarrow> bool" where
  "same_policy_state left right \<longleftrightarrow>
     rs_evaluated_through left = rs_evaluated_through right
     \<and> rs_retained left = rs_retained right \<and> rs_pins left = rs_pins right"

section \<open>Operations\<close>

type_synonym retention_log = "bytes option"

abbreviation ret_bytes :: "retention_log \<Rightarrow> bytes" where
  "ret_bytes log \<equiv> (case log of None \<Rightarrow> [] | Some bs \<Rightarrow> bs)"

definition ret_state ::
  "lib \<Rightarrow> retention_state json_codec \<Rightarrow> retention_log \<Rightarrow> (retention_state \<times> retention_log) result" where
  "ret_state L J log =
     (case log of
        None \<Rightarrow> Inr (ret_initial, None)
      | Some bs \<Rightarrow> rbind (read_latest L J bs) (\<lambda>(s, bs'). Inr (s, Some bs')))"

text \<open>The three writers end in the same way: next event, previous frame, append.\<close>

definition ret_write ::
  "lib \<Rightarrow> retention_state json_codec \<Rightarrow> bytes \<Rightarrow> retention_state \<Rightarrow> (retention_state \<times> bytes) result" where
  "ret_write L J bs state =
     rbind (current_frame_hash L J bs) (\<lambda>latest.
     let state' = state\<lparr>rs_event_sequence := rs_event_sequence state + 1,
           rs_previous_frame := (case latest of None \<Rightarrow> zero_id | Some h \<Rightarrow> h)\<rparr> in
     rbind (append_state L J bs state') (\<lambda>bs'. Inr (state', bs')))"

definition ret_apply ::
  "lib \<Rightarrow> retention_state json_codec \<Rightarrow> ref_record json_codec \<Rightarrow> (file_meta \<Rightarrow> file_meta)
   \<Rightarrow> retention_log \<Rightarrow> ref_log \<Rightarrow> int \<Rightarrow> (retention_state \<times> retention_log \<times> ref_log) result" where
  "ret_apply L J JR touch log refs now =
     rbind (read_latest L J (ret_bytes log)) (\<lambda>(current, bs).
     rbind (plan_state L JR touch refs now (rs_pins current)) (\<lambda>(planned, refs').
     if same_policy_state current planned then Inr (current, Some bs, refs')
     else rbind (ret_write L J bs (planned\<lparr>rs_event_sequence := rs_event_sequence current\<rparr>))
            (\<lambda>(s, bs'). Inr (s, Some bs', refs'))))"

definition ret_plan ::
  "lib \<Rightarrow> retention_state json_codec \<Rightarrow> ref_record json_codec \<Rightarrow> (file_meta \<Rightarrow> file_meta)
   \<Rightarrow> retention_log \<Rightarrow> ref_log \<Rightarrow> int \<Rightarrow> (retention_state \<times> retention_log \<times> ref_log) result" where
  "ret_plan L J JR touch log refs now =
     rbind (ret_state L J log) (\<lambda>(current, log').
     rbind (plan_state L JR touch refs now (rs_pins current)) (\<lambda>(s, refs'). Inr (s, log', refs')))"

definition ret_pin ::
  "lib \<Rightarrow> retention_state json_codec \<Rightarrow> ref_record json_codec \<Rightarrow> (file_meta \<Rightarrow> file_meta)
   \<Rightarrow> retention_log \<Rightarrow> ref_log \<Rightarrow> object_id \<Rightarrow> (bool \<times> retention_log \<times> ref_log) result" where
  "ret_pin L J JR touch log refs snapshot_id =
     rbind (find_ref L JR touch refs snapshot_id) (\<lambda>(found, refs').
     rbind (of_opt ''snapshot does not belong to this workspace timeline'' found) (\<lambda>record.
     rbind (read_latest L J (ret_bytes log)) (\<lambda>(state, bs).
     if is_pinned state snapshot_id then Inr (False, Some bs, refs')
     else rbind (ret_write L J bs (state\<lparr>rs_pins := sort_key pin_sequence
                  (rs_pins state @ [\<lparr>pin_sequence = rr_sequence record, pin_snapshot_id = snapshot_id\<rparr>])\<rparr>))
            (\<lambda>(s, bs'). Inr (True, Some bs', refs')))))"

definition ret_unpin ::
  "lib \<Rightarrow> retention_state json_codec \<Rightarrow> retention_log \<Rightarrow> object_id \<Rightarrow> (bool \<times> retention_log) result" where
  "ret_unpin L J log snapshot_id =
     rbind (read_latest L J (ret_bytes log)) (\<lambda>(state, bs).
     let pins = filter (\<lambda>p. pin_snapshot_id p \<noteq> snapshot_id) (rs_pins state) in
     if length pins = length (rs_pins state) then Inr (False, Some bs)
     else rbind (ret_write L J bs (state\<lparr>rs_pins := pins\<rparr>)) (\<lambda>(s, bs'). Inr (True, Some bs')))"

end
