(* ===== verification/Retention_Theorems.thy ===== *)
theory Retention_Theorems
  imports Retention Ref_Theorems "HOL-Library.Multiset"
begin

text \<open>
  What the retention policy keeps, that the compressed ranges, the counts and the listing agree
  with it, and what the retention log reads back.
\<close>

section \<open>Ranges\<close>

definition covers :: "sequence_range list \<Rightarrow> nat set" where
  "covers rs = (\<Union>r\<in>set rs. {sr_first r..sr_last r})"

fun ranges_sorted :: "nat \<Rightarrow> sequence_range list \<Rightarrow> bool" where
  "ranges_sorted previous [] \<longleftrightarrow> True"
| "ranges_sorted previous (r # rs) \<longleftrightarrow>
     previous < sr_first r \<and> sr_first r \<le> sr_last r \<and> ranges_sorted (sr_last r) rs"

lemma covers_simps [simp]:
  "covers [] = {}" "covers (r # rs) = {sr_first r..sr_last r} \<union> covers rs"
  "covers (xs @ ys) = covers xs \<union> covers ys"
  by (auto simp: covers_def)

lemma finite_covers [simp]: "finite (covers rs)"
  by (simp add: covers_def)

definition last_of :: "nat \<Rightarrow> sequence_range list \<Rightarrow> nat" where
  "last_of previous rs = (if rs = [] then previous else sr_last (last rs))"

lemma ranges_sorted_append:
  "ranges_sorted p (xs @ ys) \<longleftrightarrow> ranges_sorted p xs \<and> ranges_sorted (last_of p xs) ys"
  by (induction xs arbitrary: p) (auto simp: last_of_def)

lemma validate_ranges_iff:
  "validate_ranges through p rs = Inr () \<longleftrightarrow> ranges_sorted p rs \<and> (\<forall>r\<in>set rs. sr_last r \<le> through)"
  by (induction rs arbitrary: p) auto

lemma covers_above: "ranges_sorted p rs \<Longrightarrow> x \<in> covers rs \<Longrightarrow> p < x"
proof (induction rs arbitrary: p)
  case (Cons r rs)
  then show ?case by (cases "x \<in> covers rs") fastforce+
qed simp

lemma compress_from_covers:
  assumes "ranges_sorted 0 ranges" and "sorted_wrt (<) seqs" and "\<forall>x\<in>set seqs. last_of 0 ranges < x"
  shows "ranges_sorted 0 (compress_from ranges seqs)
    \<and> covers (compress_from ranges seqs) = covers ranges \<union> set seqs"
  using assms
proof (induction ranges seqs rule: compress_from.induct)
  case (2 ranges x seqs)
  show ?case
  proof (cases "ranges \<noteq> [] \<and> sr_last (last ranges) + 1 = x")
    case True
    then obtain rs r where r: "ranges = rs @ [r]" "sr_last r + 1 = x" by (metis append_butlast_last_id last_snoc)
    have "ranges_sorted 0 (rs @ [r\<lparr>sr_last := x\<rparr>])" "last_of 0 (rs @ [r\<lparr>sr_last := x\<rparr>]) = x"
      using "2.prems"(1) r by (auto simp: ranges_sorted_append last_of_def)
    moreover have "{sr_first r..x} = insert x {sr_first r..sr_last r}"
      using "2.prems"(1) r by (auto simp: ranges_sorted_append)
    ultimately show ?thesis
      using "2.IH"(1) [OF True] "2.prems"(2) r by simp
  next
    case False
    let ?rs = "ranges @ [\<lparr>sr_first = x, sr_last = x\<rparr>]"
    have "ranges_sorted 0 ?rs" "last_of 0 ?rs = x"
      using "2.prems" by (auto simp: ranges_sorted_append last_of_def)
    with "2.IH"(2) [OF False] "2.prems"(2) False show ?thesis by auto
  qed
qed simp

lemma compress_sequences_covers:
  assumes "sorted_wrt (<) seqs" and "0 \<notin> set seqs"
  shows "ranges_sorted 0 (compress_sequences seqs) \<and> covers (compress_sequences seqs) = set seqs"
  using compress_from_covers [of "[]" seqs] assms unfolding compress_sequences_def
  by (metis (no_types, lifting) Un_empty_left covers_simps(1) gr0I last_of_def ranges_sorted.simps(1))

lemma ranges_nonempty: "ranges_sorted p rs \<Longrightarrow> r \<in> set rs \<Longrightarrow> sr_first r \<le> sr_last r"
  by (induction rs arbitrary: p) auto

lemma ranges_sorted_nth:
  assumes "ranges_sorted p rs" and "i < j" and "j < length rs"
  shows "sr_last (rs ! i) < sr_first (rs ! j)"
  using assms
proof (induction rs arbitrary: p i j)
  case (Cons r rs)
  show ?case
  proof (cases i)
    case 0
    with Cons.prems obtain k where k: "j = Suc k" "k < length rs" by (cases j) auto
    have "\<forall>q\<in>set rs. sr_first q \<le> sr_last q"
      using ranges_nonempty [of "sr_last r" rs] Cons.prems(1) by simp
    then have "sr_first (rs ! k) \<in> covers rs"
      using k(2) by (auto simp: covers_def intro!: bexI [of _ "rs ! k"])
    with covers_above [of "sr_last r" rs] Cons.prems(1) 0 k show ?thesis by simp
  next
    case (Suc i')
    with Cons.prems obtain k where "j = Suc k" by (cases j) auto
    with Suc Cons show ?thesis by auto
  qed
qed simp

lemma retains_in_ranges_iff:
  assumes "ranges_sorted 0 (rs_retained s)"
  shows "retains_in_ranges s x \<longleftrightarrow> x \<in> covers (rs_retained s)"
proof -
  let ?rs = "rs_retained s"
  have "ordered_for (range_order x) ?rs"
    unfolding ordered_for_def
  proof (intro allI impI)
    fix i j assume ij: "i \<le> j \<and> j < length ?rs"
    then have ne: "sr_first (?rs ! i) \<le> sr_last (?rs ! i)" "sr_first (?rs ! j) \<le> sr_last (?rs ! j)"
      using ranges_nonempty [OF assms] by auto
    show "(range_order x (?rs ! j) = Lt \<longrightarrow> range_order x (?rs ! i) = Lt)
        \<and> (range_order x (?rs ! i) = Gt \<longrightarrow> range_order x (?rs ! j) = Gt)"
    proof (cases "i = j")
      case False
      with ij have "sr_last (?rs ! i) < sr_first (?rs ! j)" by (intro ranges_sorted_nth [OF assms]) auto
      with ne show ?thesis by (auto simp: range_order_def)
    qed simp
  qed
  then have "retains_in_ranges s x \<longleftrightarrow> (\<exists>r\<in>set ?rs. range_order x r = Eq)"
    by (simp add: retains_in_ranges_def binary_search_by_None_iff)
  also have "\<dots> \<longleftrightarrow> x \<in> covers ?rs"
    by (auto simp: covers_def range_order_def not_less split: if_splits)
  finally show ?thesis .
qed

section \<open>The fold over the log\<close>

lemma each_record_chain:
  assumes "digest_length L" and "js_faithful J" and "chain L J previous seq rs"
    and "log = pre @ log_of L J rs" and "off = length pre"
  shows "each_record L J log off previous seq visit v = rfold visit v rs"
  using assms(3-5)
proof (induction rs arbitrary: pre previous seq off v)
  case Nil
  then show ?case by (simp add: each_record.simps)
next
  case (Cons r rs)
  have small: "length (js_enc J r) \<le> MAX_RECORD" using Cons.prems(1) by simp
  have log: "log = pre @ ref_frame L J r @ log_of L J rs" using Cons.prems(2) by simp
  have lt: "off < length log" using log Cons.prems(3) length_frame [OF assms(1)] by simp
  have "off + frame_len J r = length (pre @ ref_frame L J r)"
    using Cons.prems(3) length_frame [OF assms(1)] by (simp add: frame_len_def)
  note IH = Cons.IH [OF _ _ this, of "frame_hash_of L (js_enc J r)" "seq + 1"]
  show ?case
    using lt read_frame_encode [OF assms(1,2) small log Cons.prems(3)] Cons.prems(1) IH log
    by (subst each_record.simps) (cases "visit v r"; simp)
qed

lemma for_each_current:
  assumes "digest_length L" and "js_faithful J" and "current L J s rs"
  shows "for_each_record L J touch s visit v = rbind (rfold visit v rs) (\<lambda>v'. Inr (v', s))"
proof -
  have "rl_log s = Some (log_of L J rs)" "chain L J zero_id 1 rs"
    using assms(3) by (auto simp: current_def)
  then show ?thesis
    using ensure_index_current [OF assms, of touch]
      each_record_chain [OF assms(1,2), of zero_id 1 rs _ "[]" 0 visit v]
    by (simp add: for_each_record_def)
qed

lemma rfold_pure: "rfold (\<lambda>s x. Inr (f s x)) s xs = Inr (foldl f s xs)"
  by (induction xs arbitrary: s) auto

lemma plan_state_current:
  assumes "digest_length L" and "js_faithful J" and "current L J refs rs"
  shows "plan_state L J touch refs now pins
    = Inr (plan_finish now pins (foldl (plan_record now (map pin_sequence pins)) plan_start rs), refs)"
  by (simp add: plan_state_def for_each_current [OF assms] rfold_pure)

section \<open>Thinning\<close>

abbreviation age_key :: "ref_record \<Rightarrow> int \<times> nat" where
  "age_key r \<equiv> (rr_sealed_at r, rr_sequence r)"

text \<open>A record that is the newest of its hour, day or week.\<close>

definition newest_in_bucket :: "int \<Rightarrow> nat list \<Rightarrow> ref_record list \<Rightarrow> ref_record \<Rightarrow> bool" where
  "newest_in_bucket now pinned rs r \<longleftrightarrow> r \<in> set rs \<and> \<not> kept_whole now pinned r \<and>
     (\<forall>q\<in>set rs. \<not> kept_whole now pinned q \<and> bucket_of now q = bucket_of now r \<longrightarrow> age_key q \<le> age_key r)"

definition policy_keeps :: "int \<Rightarrow> nat list \<Rightarrow> ref_record list \<Rightarrow> nat set" where
  "policy_keeps now pinned rs =
     rr_sequence ` {r \<in> set rs. kept_whole now pinned r \<or> newest_in_bucket now pinned rs r}
     \<union> set pinned \<union> (if rs = [] then {} else {rr_sequence (last rs)})"

definition bucket_keys :: "int \<Rightarrow> nat list \<Rightarrow> ref_record list \<Rightarrow> tier \<times> int \<Rightarrow> (int \<times> nat) set" where
  "bucket_keys now pinned rs k = age_key ` {r \<in> set rs. \<not> kept_whole now pinned r \<and> bucket_of now r = k}"

definition cand_key :: "candidate \<Rightarrow> int \<times> nat" where
  "cand_key c = (ca_sealed_at c, ca_sequence c)"

definition buckets_ok :: "int \<Rightarrow> nat list \<Rightarrow> ref_record list \<Rightarrow> (tier \<times> int, candidate) btree_map \<Rightarrow> bool" where
  "buckets_ok now pinned rs m \<longleftrightarrow> bt_wf m \<and>
     (\<forall>k. map_option cand_key (bt_get m k)
        = (if bucket_keys now pinned rs k = {} then None else Some (Max (bucket_keys now pinned rs k))))"

lemma finite_bucket_keys [simp]: "finite (bucket_keys now pinned rs k)"
  by (simp add: bucket_keys_def)

lemma bucket_keys_snoc:
  "bucket_keys now pinned (rs @ [r]) k =
     (if \<not> kept_whole now pinned r \<and> bucket_of now r = k
      then insert (age_key r) (bucket_keys now pinned rs k) else bucket_keys now pinned rs k)"
  by (auto simp: bucket_keys_def)

lemma buckets_step:
  assumes ok: "buckets_ok now pinned rs (pa_buckets acc)"
  shows "buckets_ok now pinned (rs @ [r]) (pa_buckets (plan_record now pinned acc r))"
proof (cases "kept_whole now pinned r")
  case True
  with ok show ?thesis by (simp add: plan_record_def Let_def buckets_ok_def bucket_keys_snoc)
next
  case False
  let ?c = "\<lparr>ca_sealed_at = rr_sealed_at r, ca_sequence = rr_sequence r\<rparr>"
  let ?k = "bucket_of now r"
  define chosen where "chosen = (case bt_get (pa_buckets acc) ?k of None \<Rightarrow> ?c
      | Some existing \<Rightarrow> if newer ?c existing then ?c else existing)"
  have wf: "bt_wf (pa_buckets acc)" and get: "map_option cand_key (bt_get (pa_buckets acc) k)
      = (if bucket_keys now pinned rs k = {} then None else Some (Max (bucket_keys now pinned rs k)))" for k
    using ok unfolding buckets_ok_def by blast+
  have "cand_key chosen = Max (insert (age_key r) (bucket_keys now pinned rs ?k))"
  proof (cases "bt_get (pa_buckets acc) ?k")
    case None
    then have "bucket_keys now pinned rs ?k = {}" using get [of ?k] by (simp split: if_splits)
    then show ?thesis using None by (simp add: chosen_def cand_key_def)
  next
    case (Some e)
    then have B: "bucket_keys now pinned rs ?k \<noteq> {}" "cand_key e = Max (bucket_keys now pinned rs ?k)"
      using get [of ?k] by (simp_all split: if_splits)
    have "newer ?c e \<longleftrightarrow> cand_key e < age_key r" by (simp add: newer_def cand_key_def)
    with Some have "cand_key chosen = max (age_key r) (cand_key e)"
      by (auto simp: chosen_def max_def cand_key_def)
    with B show ?thesis by simp
  qed
  moreover have "pa_buckets (plan_record now pinned acc r) = bt_insert ?k chosen (pa_buckets acc)"
    using False by (simp add: plan_record_def Let_def chosen_def)
  ultimately have "bt_wf (pa_buckets (plan_record now pinned acc r))"
    and "map_option cand_key (bt_get (pa_buckets (plan_record now pinned acc r)) k)
      = (if bucket_keys now pinned (rs @ [r]) k = {} then None
         else Some (Max (bucket_keys now pinned (rs @ [r]) k)))" for k
    using False wf get [of k] by (simp_all add: bucket_keys_snoc bt_get_insert split: if_split_asm)
  then show ?thesis unfolding buckets_ok_def by blast
qed

definition plan_ok :: "int \<Rightarrow> nat list \<Rightarrow> ref_record list \<Rightarrow> plan_acc \<Rightarrow> bool" where
  "plan_ok now pinned rs acc \<longleftrightarrow>
     pa_retained acc = map rr_sequence (filter (kept_whole now pinned) rs)
     \<and> buckets_ok now pinned rs (pa_buckets acc)
     \<and> pa_through acc = (if rs = [] then 0 else rr_sequence (last rs))"

lemma plan_fold: "plan_ok now pinned rs (foldl (plan_record now pinned) plan_start rs)"
proof (induction rs rule: rev_induct)
  case Nil
  show ?case by (simp add: plan_ok_def plan_start_def buckets_ok_def bucket_keys_def)
next
  case (snoc r rs)
  define acc where "acc = foldl (plan_record now pinned) plan_start rs"
  have "buckets_ok now pinned (rs @ [r]) (pa_buckets (plan_record now pinned acc r))"
    using snoc by (intro buckets_step) (simp add: acc_def plan_ok_def)
  moreover have "foldl (plan_record now pinned) plan_start (rs @ [r]) = plan_record now pinned acc r"
    by (simp add: acc_def)
  moreover have "pa_retained acc = map rr_sequence (filter (kept_whole now pinned) rs)"
    using snoc by (simp add: acc_def plan_ok_def)
  moreover have "pa_through (plan_record now pinned acc r) = rr_sequence r"
    by (simp add: plan_record_def Let_def)
  moreover have "pa_retained (plan_record now pinned acc r)
      = pa_retained acc @ (if kept_whole now pinned r then [rr_sequence r] else [])"
    by (simp add: plan_record_def Let_def)
  ultimately show ?case by (simp add: plan_ok_def)
qed

lemma newest_iff_Max:
  "newest_in_bucket now pinned rs r \<longleftrightarrow> r \<in> set rs \<and> \<not> kept_whole now pinned r
     \<and> age_key r = Max (bucket_keys now pinned rs (bucket_of now r))"
proof -
  let ?B = "bucket_keys now pinned rs (bucket_of now r)"
  have "age_key r = Max ?B \<longleftrightarrow> (\<forall>x\<in>?B. x \<le> age_key r)" if "r \<in> set rs" "\<not> kept_whole now pinned r"
  proof -
    have mem: "age_key r \<in> ?B" using that by (auto simp: bucket_keys_def)
    show ?thesis
      using Max_eqI [of ?B "age_key r"] Max_ge [of ?B] mem by (metis finite_bucket_keys)
  qed
  then show ?thesis by (auto simp: newest_in_bucket_def bucket_keys_def)
qed

lemma bucket_sequences:
  assumes "buckets_ok now pinned rs m"
  shows "ca_sequence ` snd ` set m = rr_sequence ` {r. newest_in_bucket now pinned rs r}"
proof -
  have wf: "bt_wf m" and get: "map_option cand_key (bt_get m k)
      = (if bucket_keys now pinned rs k = {} then None else Some (Max (bucket_keys now pinned rs k)))" for k
    using assms unfolding buckets_ok_def by blast+
  have "cand_key ` snd ` set m = age_key ` {r. newest_in_bucket now pinned rs r}"
  proof (intro equalityI subsetI)
    fix x assume "x \<in> cand_key ` snd ` set m"
    then obtain k c where "bt_get m k = Some c" "x = cand_key c"
      using bt_get_eq_Some [OF wf] by auto
    then have B: "bucket_keys now pinned rs k \<noteq> {}" "x = Max (bucket_keys now pinned rs k)"
      using get [of k] by (simp_all split: if_splits)
    with Max_in [of "bucket_keys now pinned rs k"] have "x \<in> bucket_keys now pinned rs k" by simp
    then obtain r where r: "r \<in> set rs" "\<not> kept_whole now pinned r" "bucket_of now r = k" "x = age_key r"
      by (auto simp: bucket_keys_def)
    then have "newest_in_bucket now pinned rs r" using B by (simp add: newest_iff_Max)
    with r(4) show "x \<in> age_key ` {r. newest_in_bucket now pinned rs r}" by blast
  next
    fix x assume "x \<in> age_key ` {r. newest_in_bucket now pinned rs r}"
    then obtain r where r: "newest_in_bucket now pinned rs r" "x = age_key r" by auto
    then have "bucket_keys now pinned rs (bucket_of now r) \<noteq> {}"
      by (auto simp: newest_iff_Max bucket_keys_def)
    then obtain c where "(bucket_of now r, c) \<in> set m" "cand_key c = x"
      using get [of "bucket_of now r"] r bt_get_eq_Some [OF wf] by (auto simp: newest_iff_Max)
    then show "x \<in> cand_key ` snd ` set m" by (metis image_eqI snd_conv)
  qed
  then have "snd ` cand_key ` snd ` set m = snd ` age_key ` {r. newest_in_bucket now pinned rs r}" by simp
  then show ?thesis by (simp add: image_image cand_key_def)
qed

lemma plan_finish_keeps:
  assumes "plan_ok now (map pin_sequence pins) rs acc" and "0 \<notin> pin_sequence ` set pins"
    and "0 \<notin> rr_sequence ` set rs"
  shows "ranges_sorted 0 (rs_retained (plan_finish now pins acc))
    \<and> covers (rs_retained (plan_finish now pins acc)) = policy_keeps now (map pin_sequence pins) rs"
proof -
  let ?p = "map pin_sequence pins"
  let ?seqs = "pa_retained acc @ map (\<lambda>(k, c). ca_sequence c) (pa_buckets acc) @ ?p
     @ (if pa_through acc > 0 then [pa_through acc] else [])"
  have "set (map (\<lambda>(k, c). ca_sequence c) (pa_buckets acc)) = ca_sequence ` snd ` set (pa_buckets acc)"
    by force
  moreover have "rs \<noteq> [] \<Longrightarrow> 0 < rr_sequence (last rs)" using assms(3) last_in_set by fastforce
  ultimately have set: "set ?seqs = policy_keeps now ?p rs"
    using assms(1) bucket_sequences [of now ?p rs "pa_buckets acc"]
    by (auto simp: plan_ok_def policy_keeps_def newest_in_bucket_def)
  moreover have "finite (policy_keeps now ?p rs)" using set by (metis List.finite_set)
  moreover have "0 \<notin> policy_keeps now ?p rs"
    using assms(2,3) last_in_set [of rs] by (auto simp: policy_keeps_def)
  ultimately show ?thesis
    using compress_sequences_covers [of "bs_of ?seqs"]
    by (simp add: plan_finish_def strict_sorted_list_of_set del: set_append)
qed

section \<open>Listing and counting\<close>

definition spans :: "(nat \<times> nat) list \<Rightarrow> nat set" where
  "spans h = (\<Union>(s, f)\<in>set h. {f..s})"

lemma finite_spans [simp]: "finite (spans h)"
  by (auto simp: spans_def)

lemma spans_simps [simp]:
  "spans [] = {}" "spans ((s, f) # h) = {f..s} \<union> spans h" "spans (g @ h) = spans g \<union> spans h"
  by (auto simp: spans_def)

lemma heap_pop_spans:
  "heap_pop h = Some ((s, f), rest) \<Longrightarrow> spans h = {f..s} \<union> spans rest \<and> (\<forall>x\<in>set h. x \<le> (s, f))"
proof (induction h arbitrary: s f rest)
  case (Cons x h)
  show ?case
  proof (cases "heap_pop h")
    case None
    with Cons.prems show ?thesis by auto
  next
    case (Some m)
    obtain s' f' rest' where m: "m = ((s', f'), rest')" by (metis surj_pair)
    with Cons.IH [of s' f' rest'] Some have IH: "spans h = {f'..s'} \<union> spans rest'" "\<forall>y\<in>set h. y \<le> (s', f')"
      by auto
    show ?thesis
    proof (cases "(s', f') \<le> x")
      case True
      with Cons.prems Some m have x: "x = (s, f)" "rest = h" by auto
      have "\<forall>y\<in>set h. y \<le> x" using IH(2) True order_trans by blast
      with x IH(1) show ?thesis by simp
    next
      case False
      with Cons.prems Some m have "(s', f') = (s, f)" "rest = x # rest'" by auto
      with IH False show ?thesis by (cases x) auto
    qed
  qed
qed simp

lemma heap_pop_bound:
  assumes "heap_pop h = Some ((s, f), rest)" and "x \<in> spans h"
  shows "x \<le> s"
proof -
  from assms(2) obtain a b where "(a, b) \<in> set h" "x \<le> a" by (auto simp: spans_def)
  with heap_pop_spans [OF assms(1)] show ?thesis by fastforce
qed

abbreviation descending :: "nat set \<Rightarrow> nat list" where
  "descending A \<equiv> rev (sorted_list_of_set A)"

lemma descending_insert:
  assumes "finite A" and "\<forall>y\<in>A. y < x"
  shows "descending (insert x A) = x # descending A"
proof -
  have "sorted_list_of_set (insert x A) = sorted_list_of_set A @ [x]"
    by (rule sorted_list_of_set_unique [THEN iffD1]) (use assms in \<open>auto simp: sorted_wrt_append\<close>)
  then show ?thesis by simp
qed

lemma recent_loop_spans:
  assumes "\<forall>p. previous = Some p \<longrightarrow> (\<forall>x\<in>spans h. x \<le> p)"
  shows "recent_loop limit h previous result
    = result @ take (limit - length result) (descending (spans h - set_option previous))"
  using assms
proof (induction limit h previous result rule: recent_loop.induct)
  case (1 limit h previous result)
  show ?case
  proof (cases "length result < limit \<and> h \<noteq> []")
    case False
    then show ?thesis by (subst recent_loop.simps) auto
  next
    case True
    then obtain s f rest where pop: "heap_pop h = Some ((s, f), rest)"
      by (metis heap_pop_None option.exhaust surj_pair)
    note h = heap_pop_spans [OF pop, THEN conjunct1] and le = heap_pop_bound [OF pop]
    have lt: "length result < limit" using True by simp
    show ?thesis
    proof (cases "f \<le> s")
      case False
      then have "spans h = spans rest" using h by simp
      with "1.IH"(2) [OF lt pop refl refl] "1.prems" False lt pop show ?thesis
        by (subst recent_loop.simps) simp
    next
      case True
      define more where "more = (if s > f then (s - 1, f) # rest else rest)"
      have "{f..s} = insert s (if s > f then {f..s - 1} else {})" using True by auto
      with h have sp: "spans h = insert s (spans more)" by (auto simp: more_def)
      have le': "\<forall>x\<in>spans more. x \<le> s" using le sp by auto
      show ?thesis
      proof (cases "previous = Some s")
        case True
        moreover have "recent_loop limit h previous result = recent_loop limit more previous result"
          using lt pop \<open>f \<le> s\<close> True by (subst recent_loop.simps) (simp add: more_def)
        ultimately show ?thesis
          using "1.IH"(1) [OF lt pop refl refl \<open>f \<le> s\<close>, folded more_def] le' sp by simp
      next
        case False
        have prev: "spans more \<inter> set_option previous = {} \<and> s \<notin> set_option previous"
        proof (cases previous)
          case (Some p)
          then have "s < p" using "1.prems" sp False by (metis insertI1 le_neq_implies_less)
          with le' Some show ?thesis by force
        qed simp
        have "descending (spans h - set_option previous) = s # descending (spans more - {s})"
        proof -
          have "spans h - set_option previous = insert s (spans more - {s})"
            unfolding sp using prev by blast
          moreover have "\<forall>y\<in>spans more - {s}. y < s" using le' by (auto simp: le_less)
          ultimately show ?thesis using descending_insert [of "spans more - {s}" s] by simp
        qed
        moreover have "limit - length result = Suc (limit - Suc (length result))" using lt by simp
        moreover have "recent_loop limit h previous result = recent_loop limit more (Some s) (result @ [s])"
          using lt pop \<open>f \<le> s\<close> False by (subst recent_loop.simps) (simp add: more_def)
        moreover have "recent_loop limit more (Some s) (result @ [s])
            = (result @ [s]) @ take (limit - Suc (length result)) (descending (spans more - {s}))"
          using "1.IH"(1) [OF lt pop refl refl \<open>f \<le> s\<close>, folded more_def] le' False by simp
        ultimately show ?thesis by simp
      qed
    qed
  qed
qed

definition kept_sequences :: "retention_state \<Rightarrow> nat \<Rightarrow> nat set" where
  "kept_sequences s hd_seq = {x. 0 < x \<and> x \<le> hd_seq \<and>
     (rs_evaluated_through s < x \<or> x \<in> covers (rs_retained s) \<or> x \<in> pin_sequence ` set (rs_pins s))}"

lemma validate_pins_iff: "validate_pins p ps = Inr () \<longleftrightarrow> sorted_wrt (<) (p # map pin_sequence ps)"
  by (induction ps arbitrary: p) auto

lemma validate_state_iff:
  "validate_state s = Inr () \<longleftrightarrow> ranges_sorted 0 (rs_retained s)
     \<and> (\<forall>r\<in>set (rs_retained s). sr_last r \<le> rs_evaluated_through s)
     \<and> sorted_wrt (<) (0 # map pin_sequence (rs_pins s))"
  using validate_ranges_iff [of "rs_evaluated_through s" 0 "rs_retained s"]
    validate_pins_iff [of 0 "rs_pins s"]
  by (auto simp: validate_state_def)

lemma spans_ranges: "spans (map (\<lambda>r. (min (sr_last r) n, sr_first r)) rs) = covers rs \<inter> {..n}"
proof (induction rs)
  case (Cons r rs)
  have "{sr_first r..min (sr_last r) n} = {sr_first r..sr_last r} \<inter> {..n}" by auto
  with Cons show ?case by (simp add: Int_Un_distrib2)
qed simp

lemma spans_pins: "spans (map (\<lambda>p. (pin_sequence p, pin_sequence p)) ps) = pin_sequence ` set ps"
  by (induction ps) auto

lemma recent_sequences_descending:
  assumes "validate_state s = Inr ()"
  shows "recent_sequences s hd_seq limit = take limit (descending (kept_sequences s hd_seq))"
proof (cases "limit = 0 \<or> hd_seq = 0")
  case False
  let ?h = "(if hd_seq > rs_evaluated_through s then [(hd_seq, rs_evaluated_through s + 1)] else [])
         @ map (\<lambda>r. (min (sr_last r) hd_seq, sr_first r)) (rs_retained s)
         @ map (\<lambda>p. (pin_sequence p, pin_sequence p)) (filter (\<lambda>p. pin_sequence p \<le> hd_seq) (rs_pins s))"
  have "x \<in> covers (rs_retained s) \<Longrightarrow> 0 < x" for x
    using assms covers_above by (auto simp: validate_state_iff)
  moreover have "x \<in> pin_sequence ` set (rs_pins s) \<Longrightarrow> 0 < x" for x
    using assms by (auto simp: validate_state_iff)
  ultimately have "kept_sequences s hd_seq = {rs_evaluated_through s + 1..hd_seq}
      \<union> covers (rs_retained s) \<inter> {..hd_seq} \<union> {x \<in> pin_sequence ` set (rs_pins s). x \<le> hd_seq}"
    by (auto simp: kept_sequences_def)
  also have "\<dots> = spans ?h" by (auto simp: spans_ranges spans_pins)
  finally have "spans ?h = kept_sequences s hd_seq" ..
  then show ?thesis
    using False recent_loop_spans [of None ?h limit "[]"] by (simp add: recent_sequences_def)
qed (auto simp: recent_sequences_def kept_sequences_def)

lemma pin_search_iff:
  assumes "sorted_wrt (<) (map pin_sequence ps)"
  shows "binary_search_by (pin_order x) ps \<noteq> None \<longleftrightarrow> x \<in> pin_sequence ` set ps"
proof -
  have "ordered_for (pin_order x) ps"
    unfolding ordered_for_def
  proof (intro allI impI)
    fix i j assume "i \<le> j \<and> j < length ps"
    then have "pin_sequence (ps ! i) \<le> pin_sequence (ps ! j)"
      using sorted_wrt_nth_less [OF assms, of i j] by (cases "i = j") auto
    then show "(pin_order x (ps ! j) = Lt \<longrightarrow> pin_order x (ps ! i) = Lt)
        \<and> (pin_order x (ps ! i) = Gt \<longrightarrow> pin_order x (ps ! j) = Gt)"
      by (auto simp: pin_order_def)
  qed
  then show ?thesis
    by (auto simp: binary_search_by_None_iff pin_order_def split: if_splits)
qed

lemma retains_iff:
  assumes "validate_state s = Inr ()" and "0 < x" and "x \<le> hd_seq"
  shows "retains s x i \<longleftrightarrow> x \<in> kept_sequences s hd_seq \<or> is_pinned s i"
proof -
  have "ranges_sorted 0 (rs_retained s)" "sorted_wrt (<) (map pin_sequence (rs_pins s))"
    using assms(1) by (auto simp: validate_state_iff)
  then show ?thesis
    unfolding retains_def retains_in_ranges_iff [OF \<open>ranges_sorted _ _\<close>] pin_search_iff [OF \<open>sorted_wrt _ _\<close>]
    using assms(2,3) by (auto simp: kept_sequences_def is_pinned_def)
qed

lemma count_through:
  assumes "ranges_sorted p rs"
  shows "sum_list (map (\<lambda>r. sr_last r - sr_first r + 1) rs) = card (covers rs)"
  using assms
proof (induction rs arbitrary: p)
  case (Cons r rs)
  have "{sr_first r..sr_last r} \<inter> covers rs = {}"
    using covers_above [of "sr_last r" rs] Cons.prems by fastforce
  then have "card (covers (r # rs)) = Suc (sr_last r - sr_first r) + card (covers rs)"
    using Cons.prems by (simp add: card_Un_disjoint Suc_diff_le)
  with Cons.IH [of "sr_last r"] Cons.prems show ?case by simp
qed simp

lemma count_pins:
  assumes "c \<le> u64_max"
  shows "foldl (\<lambda>c p. if P p then u64_saturating_add c 1 else c) c ps = min u64_max (c + length (filter P ps))"
  using assms by (induction ps arbitrary: c) (auto simp: u64_saturating_add_def)

lemma retained_count_card:
  assumes v: "validate_state s = Inr ()" and le: "rs_evaluated_through s \<le> hd_seq" and u: "hd_seq \<le> u64_max"
  shows "retained_count s hd_seq = card (kept_sequences s hd_seq)"
proof -
  let ?C = "covers (rs_retained s)" and ?t = "rs_evaluated_through s"
  define Q where "Q p \<longleftrightarrow> pin_sequence p \<le> ?t \<and> \<not> retains_in_ranges s (pin_sequence p)" for p :: pin
  let ?P = "pin_sequence ` {p \<in> set (rs_pins s). Q p}"
  have rs: "ranges_sorted 0 (rs_retained s)" and top: "\<forall>r\<in>set (rs_retained s). sr_last r \<le> ?t"
    and pins: "sorted_wrt (<) (map pin_sequence (rs_pins s))" "\<forall>p\<in>set (rs_pins s). 0 < pin_sequence p"
    using v by (auto simp: validate_state_iff)
  have C: "?C \<subseteq> {1..?t}" using top covers_above [OF rs] by (fastforce simp: covers_def)
  have Q: "Q p \<longleftrightarrow> pin_sequence p \<le> ?t \<and> pin_sequence p \<notin> ?C" for p :: pin
    by (simp add: Q_def retains_in_ranges_iff [OF rs])
  have dis: "distinct (map pin_sequence (rs_pins s))" using pins(1) strict_sorted_iff by blast
  have set: "kept_sequences s hd_seq = (?C \<union> {?t + 1..hd_seq}) \<union> ?P"
    using C le pins(2) by (auto simp: kept_sequences_def Q)
  have "(?C \<union> {?t + 1..hd_seq}) \<inter> ?P = {}" by (auto simp: Q)
  moreover have "?C \<inter> {?t + 1..hd_seq} = {}" using C by fastforce
  moreover have "card ?P = length (filter Q (rs_pins s))"
  proof -
    have "?P = set (map pin_sequence (filter Q (rs_pins s)))" by auto
    moreover have "distinct (map pin_sequence (filter Q (rs_pins s)))" using dis by (rule distinct_map_filter)
    ultimately show ?thesis by (metis distinct_card length_map)
  qed
  ultimately have card: "card (kept_sequences s hd_seq) = card ?C + (hd_seq - ?t) + length (filter Q (rs_pins s))"
    unfolding set by (simp add: card_Un_disjoint)
  have "kept_sequences s hd_seq \<subseteq> {1..hd_seq}" by (auto simp: kept_sequences_def)
  then have "card (kept_sequences s hd_seq) \<le> hd_seq" using card_mono [of "{1..hd_seq}"] by fastforce
  with card u have sum: "card ?C + (hd_seq - ?t) + length (filter Q (rs_pins s)) \<le> u64_max" by simp
  then have "(if hd_seq > ?t then u64_saturating_add (card ?C) (hd_seq - ?t) else card ?C)
      = card ?C + (hd_seq - ?t)" by (auto simp: u64_saturating_add_def)
  with count_pins [of "card ?C + (hd_seq - ?t)" Q "rs_pins s"] sum show ?thesis
    unfolding retained_count_def retained_count_through_def count_through [OF rs] card Let_def
      Q_def [symmetric] by simp
qed

section \<open>The log of states\<close>

abbreviation ret_hash_of :: "lib \<Rightarrow> retention_state json_codec \<Rightarrow> retention_state \<Rightarrow> object_id" where
  "ret_hash_of L J s \<equiv> ret_frame_hash L (le_bytes 4 (length (js_enc J s))) (blake3 L (js_enc J s)) (js_enc J s)"

definition ret_log_of :: "lib \<Rightarrow> retention_state json_codec \<Rightarrow> retention_state list \<Rightarrow> bytes" where
  "ret_log_of L J ss = concat (map (\<lambda>s. ret_frame L (js_enc J s)) ss)"

definition ret_tip :: "lib \<Rightarrow> retention_state json_codec \<Rightarrow> object_id \<Rightarrow> retention_state list \<Rightarrow> object_id" where
  "ret_tip L J previous ss = (if ss = [] then previous else ret_hash_of L J (last ss))"

abbreviation latest :: "retention_state list \<Rightarrow> retention_state" where
  "latest ss \<equiv> last (ret_initial # ss)"

fun ret_chain ::
  "lib \<Rightarrow> retention_state json_codec \<Rightarrow> object_id \<Rightarrow> nat \<Rightarrow> retention_state list \<Rightarrow> bool" where
  "ret_chain L J previous n [] \<longleftrightarrow> True"
| "ret_chain L J previous n (s # ss) \<longleftrightarrow>
     rs_previous_frame s = previous \<and> rs_event_sequence s = n + 1 \<and> validate_state s = Inr ()
     \<and> length (js_enc J s) \<le> RET_MAX_RECORD \<and> ret_chain L J (ret_hash_of L J s) (n + 1) ss"

lemma ret_log_of_simps [simp]:
  "ret_log_of L J [] = []" "ret_log_of L J (s # ss) = ret_frame L (js_enc J s) @ ret_log_of L J ss"
  "ret_log_of L J (xs @ ys) = ret_log_of L J xs @ ret_log_of L J ys"
  by (simp_all add: ret_log_of_def)

lemma length_ret_frame: "digest_length L \<Longrightarrow> length (ret_frame L p) = 40 + length p"
  by (simp add: ret_frame_def RET_MAGIC_def digest_simps)

lemma ret_chain_append:
  "ret_chain L J previous n (xs @ ys) \<longleftrightarrow>
     ret_chain L J previous n xs \<and> ret_chain L J (ret_tip L J previous xs) (n + length xs) ys"
  by (induction xs arbitrary: previous n) (auto simp: ret_tip_def)

lemma ret_chain_valid: "ret_chain L J previous n ss \<Longrightarrow> s \<in> set ss \<Longrightarrow> validate_state s = Inr ()"
  by (induction ss arbitrary: previous n) auto

lemma latest_valid: "ret_chain L J previous n ss \<Longrightarrow> validate_state (latest ss) = Inr ()"
  using ret_chain_valid [of L J previous n ss "last ss"]
  by (cases "ss = []") (auto simp: validate_state_iff ret_initial_def)

lemma latest_event: "ret_chain L J previous n ss \<Longrightarrow> rs_event_sequence (last (s # ss)) = (if ss = [] then rs_event_sequence s else n + length ss)"
  by (induction ss arbitrary: previous n s) (auto split: if_splits)

lemma ret_read_encode:
  assumes "digest_length L" and "js_faithful J" and "length (js_enc J s) \<le> RET_MAX_RECORD"
    and "log = pre @ ret_frame L (js_enc J s) @ post" and "start = length pre"
  shows "ret_read_frame L J log start
    = Inr (Some (s, ret_hash_of L J s, length (pre @ ret_frame L (js_enc J s))))"
proof -
  have v: "le_val (le_bytes 4 (length (js_enc J s))) = length (js_enc J s)"
    by (rule le_val_le_bytes) (use assms(3) in \<open>simp add: RET_MAX_RECORD_def\<close>)
  have rest: "drop start log = RET_MAGIC @ (le_bytes 4 (length (js_enc J s))
      @ (blake3 L (js_enc J s) @ (js_enc J s @ post)))"
    using assms(4,5) by (simp add: ret_frame_def)
  have "length RET_MAGIC = 4" by (simp add: RET_MAGIC_def)
  then show ?thesis
    unfolding ret_read_frame_def rest using assms(2,3,5)
    by (simp add: digest_simps [OF assms(1)] v js_faithful_def Let_def length_ret_frame [OF assms(1)])
qed

lemma read_latest_chain:
  assumes "digest_length L" and "js_faithful J" and "ret_chain L J previous (rs_event_sequence s) ss"
    and "log = pre @ ret_log_of L J ss @ post" and "off = length pre"
  shows "read_latest_from L J log off s previous
    = read_latest_from L J log (length (pre @ ret_log_of L J ss)) (last (s # ss)) (ret_tip L J previous ss)"
  using assms(3-5)
proof (induction ss arbitrary: pre previous s off)
  case (Cons t ss)
  have log: "log = pre @ ret_frame L (js_enc J t) @ (ret_log_of L J ss @ post)" using Cons.prems(2) by simp
  have lt: "off < length log" using log Cons.prems(3) length_ret_frame [OF assms(1)] by simp
  have fr: "ret_read_frame L J log off
      = Inr (Some (t, ret_hash_of L J t, length (pre @ ret_frame L (js_enc J t))))"
    by (rule ret_read_encode [OF assms(1,2) _ log Cons.prems(3)]) (use Cons.prems(1) in simp)
  have "read_latest_from L J log off s previous
      = read_latest_from L J log (length (pre @ ret_frame L (js_enc J t))) t (ret_hash_of L J t)"
    using lt fr Cons.prems(1) by (subst read_latest_from.simps) simp
  also have "\<dots> = read_latest_from L J log (length ((pre @ ret_frame L (js_enc J t)) @ ret_log_of L J ss))
      (last (t # ss)) (ret_tip L J (ret_hash_of L J t) ss)"
    by (rule Cons.IH) (use Cons.prems(1) log in auto)
  also have "ret_tip L J (ret_hash_of L J t) ss = ret_tip L J previous (t # ss)" by (simp add: ret_tip_def)
  finally show ?case by simp
qed (simp add: ret_tip_def)

lemma read_latest_all:
  assumes "digest_length L" and "js_faithful J" and "ret_chain L J zero_id 0 ss"
  shows "read_latest L J (ret_log_of L J ss) = Inr (latest ss, ret_log_of L J ss)"
  using read_latest_chain [OF assms(1,2), of zero_id ret_initial ss _ "[]" "[]" 0] assms(3)
  by (simp add: read_latest_def ret_initial_def read_latest_from.simps
      [where offset = "length (ret_log_of L J ss)" and log = "ret_log_of L J ss"])

lemma frame_hash_chain:
  assumes "digest_length L" and "js_faithful J" and "ret_chain L J previous n ss"
    and "log = pre @ ret_log_of L J ss" and "off = length pre"
  shows "current_frame_hash_from L J log off h = Inr (if ss = [] then h else Some (ret_hash_of L J (last ss)))"
  using assms(3-5)
proof (induction ss arbitrary: pre previous n h off)
  case Nil
  then show ?case by (simp add: current_frame_hash_from.simps)
next
  case (Cons t ss)
  have log: "log = pre @ ret_frame L (js_enc J t) @ ret_log_of L J ss" using Cons.prems(2) by simp
  have lt: "off < length log" using log Cons.prems(3) length_ret_frame [OF assms(1)] by simp
  have fr: "ret_read_frame L J log off
      = Inr (Some (t, ret_hash_of L J t, length (pre @ ret_frame L (js_enc J t))))"
    by (rule ret_read_encode [OF assms(1,2) _ log Cons.prems(3)]) (use Cons.prems(1) in simp)
  have "current_frame_hash_from L J log off h
      = current_frame_hash_from L J log (length (pre @ ret_frame L (js_enc J t))) (Some (ret_hash_of L J t))"
    using lt fr by (subst current_frame_hash_from.simps) simp
  also have "\<dots> = Inr (if ss = [] then Some (ret_hash_of L J t) else Some (ret_hash_of L J (last ss)))"
    by (rule Cons.IH) (use Cons.prems(1) log in auto)
  finally show ?case by simp
qed

text \<open>The state that a writer appends after \<open>ss\<close>, and the log it leaves.\<close>

definition next_state :: "lib \<Rightarrow> retention_state json_codec \<Rightarrow> retention_state list \<Rightarrow> retention_state \<Rightarrow> retention_state" where
  "next_state L J ss s = s\<lparr>rs_event_sequence := length ss + 1, rs_previous_frame := ret_tip L J zero_id ss\<rparr>"

lemma ret_write_chain:
  assumes "digest_length L" and "js_faithful J" and "ret_chain L J zero_id 0 ss"
    and "rs_event_sequence s = length ss" and "length (js_enc J (next_state L J ss s)) \<le> RET_MAX_RECORD"
  shows "ret_write L J (ret_log_of L J ss) s
    = Inr (next_state L J ss s, ret_log_of L J (ss @ [next_state L J ss s]))"
proof -
  have "current_frame_hash L J (ret_log_of L J ss)
      = Inr (if ss = [] then None else Some (ret_hash_of L J (last ss)))"
    using frame_hash_chain [OF assms(1-3), of _ "[]" 0] by (simp add: current_frame_hash_def)
  moreover have "s\<lparr>rs_event_sequence := rs_event_sequence s + 1, rs_previous_frame :=
      (case if ss = [] then None else Some (ret_hash_of L J (last ss)) of None \<Rightarrow> zero_id | Some h \<Rightarrow> h)\<rparr>
      = next_state L J ss s"
    using assms(4) by (simp add: next_state_def ret_tip_def)
  ultimately show ?thesis
    using assms(5) by (simp add: ret_write_def append_state_def Let_def del: option.case)
qed

lemma next_state_chain:
  assumes "ret_chain L J zero_id 0 ss" and "validate_state s = Inr ()"
    and "length (js_enc J (next_state L J ss s)) \<le> RET_MAX_RECORD"
  shows "ret_chain L J zero_id 0 (ss @ [next_state L J ss s])"
  using assms by (simp add: ret_chain_append next_state_def validate_state_def)

section \<open>Properties\<close>

lemma chain_sequences:
  "chain L J previous n rs \<Longrightarrow> rr_sequence ` set rs = {n..<n + length rs}"
proof (induction rs arbitrary: previous n)
  case (Cons r rs)
  then have "rr_sequence ` set (r # rs) = insert n {Suc n..<Suc n + length rs}" by fastforce
  also have "\<dots> = {n..<n + length (r # rs)}" by auto
  finally show ?case .
qed simp

lemma policy_keeps_bound:
  assumes "chain L J zero_id 1 rs"
  shows "policy_keeps now pinned rs \<subseteq> {1..length rs} \<union> set pinned"
    and "rs \<noteq> [] \<Longrightarrow> rr_sequence (last rs) = length rs"
proof -
  have "rr_sequence ` set rs = {1..<1 + length rs}" by (rule chain_sequences [OF assms])
  then have *: "r \<in> set rs \<Longrightarrow> rr_sequence r \<in> {1..length rs}" for r by fastforce
  then show "policy_keeps now pinned rs \<subseteq> {1..length rs} \<union> set pinned"
    using last_in_set [of rs] by (auto simp: policy_keeps_def simp del: atLeastAtMost_iff)
  show "rs \<noteq> [] \<Longrightarrow> rr_sequence (last rs) = length rs"
    using assms chain_sequence [of L J zero_id 1 "butlast rs" "last rs"] by simp
qed

lemma plan_current:
  assumes "digest_length L" and "js_faithful J" and "current L J refs rs"
    and "plan_state L J touch refs now pins = Inr (planned, refs')" and "0 \<notin> pin_sequence ` set pins"
  shows "refs' = refs \<and> ranges_sorted 0 (rs_retained planned) \<and> rs_pins planned = pins
    \<and> covers (rs_retained planned) = policy_keeps now (map pin_sequence pins) rs
    \<and> rs_evaluated_through planned = length rs"
proof -
  let ?acc = "foldl (plan_record now (map pin_sequence pins)) plan_start rs"
  have ch: "chain L J zero_id 1 rs" using assms(3) by (simp add: current_def)
  have planned: "planned = plan_finish now pins ?acc" "refs' = refs"
    using assms(4) plan_state_current [OF assms(1-3)] by auto
  have ok: "plan_ok now (map pin_sequence pins) rs ?acc" by (rule plan_fold)
  moreover have "0 \<notin> rr_sequence ` set rs" unfolding chain_sequences [OF ch] by simp
  ultimately show ?thesis
    using plan_finish_keeps [OF ok assms(5)] policy_keeps_bound(2) [OF ch] planned
    by (auto simp: plan_finish_def plan_ok_def)
qed


text \<open>
  C23: the listing of a valid state is the kept sequences in descending order, cut at the limit:
  every kept sequence once, no other; and \<open>retains\<close> answers for the same set, with the pinned
  snapshots added.
\<close>

theorem listing_is_kept:
  assumes "validate_state s = Inr ()"
  shows "recent_sequences s hd_seq limit = take limit (descending (kept_sequences s hd_seq))
    \<and> (0 < x \<and> x \<le> hd_seq \<longrightarrow> (retains s x i \<longleftrightarrow> x \<in> kept_sequences s hd_seq \<or> is_pinned s i))"
  using recent_sequences_descending [OF assms] retains_iff [OF assms] by blast

text \<open>
  C24: the count that is reported is the number of kept sequences, with no overflow, pins that a
  range already covers counted once.
\<close>

theorem count_is_card:
  assumes "validate_state s = Inr ()" and "rs_evaluated_through s \<le> hd_seq" and "hd_seq \<le> u64_max"
  shows "retained_count s hd_seq = card (kept_sequences s hd_seq)
    \<and> length (recent_sequences s hd_seq hd_seq) = retained_count s hd_seq"
proof -
  have "kept_sequences s hd_seq \<subseteq> {1..hd_seq}" by (auto simp: kept_sequences_def)
  then have "card (kept_sequences s hd_seq) \<le> hd_seq" using card_mono [of "{1..hd_seq}"] by fastforce
  then show ?thesis
    by (simp add: retained_count_card [OF assms] recent_sequences_descending [OF assms(1)])
qed

lemma latest_event_length: "ret_chain L J zero_id 0 ss \<Longrightarrow> rs_event_sequence (latest ss) = length ss"
  using latest_event [of L J zero_id 0 ss ret_initial] by (cases ss) (simp_all add: ret_initial_def)

lemma ret_apply_eq:
  assumes "digest_length L" and "js_faithful J" and "ret_chain L J zero_id 0 ss"
    and "ret_bytes log = ret_log_of L J ss"
    and "plan_state L JR touch refs now (rs_pins (latest ss)) = Inr (planned, refs)"
    and "length (js_enc J (next_state L J ss planned)) \<le> RET_MAX_RECORD"
  shows "ret_apply L J JR touch log refs now =
    (if same_policy_state (latest ss) planned then Inr (latest ss, Some (ret_log_of L J ss), refs)
     else Inr (next_state L J ss planned, Some (ret_log_of L J (ss @ [next_state L J ss planned])), refs))"
proof -
  let ?p = "planned\<lparr>rs_event_sequence := rs_event_sequence (latest ss)\<rparr>"
  have n: "next_state L J ss ?p = next_state L J ss planned" by (simp add: next_state_def)
  have "ret_write L J (ret_log_of L J ss) ?p
      = Inr (next_state L J ss planned, ret_log_of L J (ss @ [next_state L J ss planned]))"
    using ret_write_chain [OF assms(1-3), of ?p] latest_event_length [OF assms(3)] assms(6)
    unfolding n by simp
  then show ?thesis
    unfolding ret_apply_def assms(4) using read_latest_all [OF assms(1-3)] assms(5) by simp
qed

lemma covers_valid:
  assumes "ranges_sorted 0 rs"
  shows "(\<forall>r\<in>set rs. sr_last r \<le> n) \<longleftrightarrow> covers rs \<subseteq> {..n}"
proof -
  have "r \<in> set rs \<Longrightarrow> sr_last r \<in> covers rs" for r
    using ranges_nonempty [OF assms] by (auto simp: covers_def intro!: bexI [of _ r])
  then show ?thesis by (fastforce simp: covers_def)
qed

lemma pins_positive: "validate_state s = Inr () \<Longrightarrow> 0 \<notin> pin_sequence ` set (rs_pins s)"
  by (auto simp: validate_state_iff)

text \<open>
  C25: when every pin is within the timeline, applying the policy leaves a log that reads back as
  a valid state which keeps exactly what the policy keeps, with the pins unchanged; a state is
  appended only when the policy's answer has changed.
\<close>

theorem apply_keeps_policy:
  assumes "digest_length L" and "js_faithful J" and "js_faithful JR"
    and "current L JR refs rs" and "ret_chain L J zero_id 0 ss" and "ret_bytes log = ret_log_of L J ss"
    and "plan_state L JR touch refs now (rs_pins (latest ss)) = Inr (planned, refs)"
    and "length (js_enc J (next_state L J ss planned)) \<le> RET_MAX_RECORD"
    and "\<forall>p\<in>set (rs_pins (latest ss)). pin_sequence p \<le> length rs"
  shows "\<exists>ss' s. ret_apply L J JR touch log refs now = Inr (s, Some (ret_log_of L J ss'), refs)
    \<and> ret_state L J (Some (ret_log_of L J ss')) = Inr (s, Some (ret_log_of L J ss'))
    \<and> ret_chain L J zero_id 0 ss' \<and> (ss' = ss \<or> ss' = ss @ [s])
    \<and> covers (rs_retained s) = policy_keeps now (map pin_sequence (rs_pins (latest ss))) rs
    \<and> rs_evaluated_through s = length rs \<and> rs_pins s = rs_pins (latest ss)"
proof -
  let ?pins = "rs_pins (latest ss)" and ?n = "next_state L J ss planned"
  have ch: "chain L JR zero_id 1 rs" using assms(4) by (simp add: current_def)
  note v = latest_valid [OF assms(5)]
  note plan = plan_current [OF assms(1,3,4,7) pins_positive [OF v]]
  have "covers (rs_retained planned) \<subseteq> {..length rs}"
    using policy_keeps_bound(1) [OF ch, of now "map pin_sequence ?pins"] assms(9) plan by fastforce
  then have "\<forall>r\<in>set (rs_retained planned). sr_last r \<le> length rs"
    using covers_valid [of "rs_retained planned" "length rs"] plan by blast
  with plan v have "validate_state planned = Inr ()" by (simp add: validate_state_iff)
  note ch' = next_state_chain [OF assms(5) this assms(8)]
  note eq = ret_apply_eq [OF assms(1,2,5-8)]
  show ?thesis
  proof (cases "same_policy_state (latest ss) planned")
    case True
    then show ?thesis
      using eq assms(5) plan read_latest_all [OF assms(1,2,5)]
      by (intro exI [of _ ss] exI [of _ "latest ss"]) (simp add: same_policy_state_def ret_state_def)
  next
    case False
    then show ?thesis
      using eq ch' plan read_latest_all [OF assms(1,2) ch']
      by (intro exI [of _ "ss @ [?n]"] exI [of _ ?n]) (simp add: ret_state_def next_state_def)
  qed
qed

lemma validate_ranges_exceeds:
  "ranges_sorted p rs \<Longrightarrow> \<exists>r\<in>set rs. n < sr_last r
   \<Longrightarrow> validate_ranges n p rs = Inl (Bail ''retained range exceeds evaluated history'')"
  by (induction rs arbitrary: p) auto

lemma read_latest_invalid:
  assumes "digest_length L" and "js_faithful J" and "ret_chain L J zero_id 0 ss"
    and "validate_state s = Inl e" and "length (js_enc J (next_state L J ss s)) \<le> RET_MAX_RECORD"
  shows "read_latest L J (ret_log_of L J (ss @ [next_state L J ss s])) = Inl e"
proof -
  let ?n = "next_state L J ss s" and ?pre = "ret_log_of L J ss"
  have fr: "ret_read_frame L J (?pre @ ret_frame L (js_enc J ?n)) (length ?pre)
      = Inr (Some (?n, ret_hash_of L J ?n, length (?pre @ ret_frame L (js_enc J ?n))))"
    by (rule ret_read_encode [OF assms(1,2,5), where post = "[]"]) simp_all
  have "validate_state ?n = Inl e" using assms(4) by (simp add: validate_state_def next_state_def)
  then have "read_latest_from L J (?pre @ ret_frame L (js_enc J ?n)) (length ?pre) (latest ss)
      (ret_tip L J zero_id ss) = Inl e"
    using fr length_ret_frame [OF assms(1)] latest_event_length [OF assms(3)]
    by (subst read_latest_from.simps) (simp add: next_state_def)
  then show ?thesis
    using read_latest_chain [OF assms(1,2), of zero_id ret_initial ss _ "[]" "ret_frame L (js_enc J ?n)" 0]
      assms(3) by (simp add: read_latest_def ret_initial_def)
qed

text \<open>
  C26: the policy is applied without checking its result. When the timeline has lost the record
  of a pinned snapshot (its unsynced tail is cut after a power loss while the pin was already
  synced), \<open>apply\<close> succeeds and writes a state that covers a sequence beyond the timeline; from
  then on the retention log cannot be read any more.
\<close>

theorem apply_lost_pin_poisons_log:
  assumes "digest_length L" and "js_faithful J" and "js_faithful JR"
    and "current L JR refs rs" and "ret_chain L J zero_id 0 ss" and "ret_bytes log = ret_log_of L J ss"
    and "plan_state L JR touch refs now (rs_pins (latest ss)) = Inr (planned, refs)"
    and "length (js_enc J (next_state L J ss planned)) \<le> RET_MAX_RECORD"
    and "p \<in> set (rs_pins (latest ss))" and "length rs < pin_sequence p"
  shows "\<exists>s bs. ret_apply L J JR touch log refs now = Inr (s, Some bs, refs)
    \<and> ret_state L J (Some bs) = Inl (Bail ''retained range exceeds evaluated history'')"
proof -
  note v = latest_valid [OF assms(5)]
  note plan = plan_current [OF assms(1,3,4,7) pins_positive [OF v]]
  have "pin_sequence p \<in> covers (rs_retained planned)" using plan assms(9) by (simp add: policy_keeps_def)
  then have ex: "\<exists>r\<in>set (rs_retained planned). length rs < sr_last r"
    using covers_valid [of "rs_retained planned" "length rs"] plan assms(10) by fastforce
  then have bad: "validate_state planned = Inl (Bail ''retained range exceeds evaluated history'')"
    using validate_ranges_exceeds [of 0 "rs_retained planned" "length rs"] plan by (simp add: validate_state_def)
  have "\<not> same_policy_state (latest ss) planned"
    using ex v plan by (fastforce simp: same_policy_state_def validate_state_iff)
  then show ?thesis
    using ret_apply_eq [OF assms(1,2,5-8)] read_latest_invalid [OF assms(1,2,5) bad assms(8)]
    by (simp add: ret_state_def)
qed

lemma find_ref_current:
  assumes "digest_length L" and "js_faithful J" and "current L J refs rs"
  shows "find_ref L J touch refs i = Inr (List.find (\<lambda>r. rr_snapshot_id r = i) (rev rs), refs)"
proof -
  have "foldl (\<lambda>found r. if rr_snapshot_id r = i then Some r else found) None rs
      = List.find (\<lambda>r. rr_snapshot_id r = i) (rev rs)"
    by (induction rs rule: rev_induct) auto
  then show ?thesis by (simp add: find_ref_def for_each_current [OF assms] rfold_pure)
qed

definition add_pin :: "retention_state \<Rightarrow> ref_record \<Rightarrow> object_id \<Rightarrow> retention_state" where
  "add_pin s r i = s\<lparr>rs_pins := sort_key pin_sequence
     (rs_pins s @ [\<lparr>pin_sequence = rr_sequence r, pin_snapshot_id = i\<rparr>])\<rparr>"

lemma add_pin_valid:
  assumes "validate_state s = Inr ()" and "rr_sequence r \<notin> pin_sequence ` set (rs_pins s)" and "0 < rr_sequence r"
  shows "validate_state (add_pin s r i) = Inr ()"
proof -
  let ?ps = "rs_pins (add_pin s r i)"
  have "mset (map pin_sequence ?ps) = mset (map pin_sequence (rs_pins s) @ [rr_sequence r])"
    by (simp add: add_pin_def)
  moreover have "distinct (map pin_sequence (rs_pins s) @ [rr_sequence r])"
    using assms by (auto simp: validate_state_iff strict_sorted_iff)
  ultimately have "distinct (map pin_sequence ?ps)" using mset_eq_imp_distinct_iff by blast
  moreover have "sorted (map pin_sequence ?ps)" by (simp add: add_pin_def)
  ultimately have "sorted_wrt (<) (map pin_sequence ?ps)" by (simp add: strict_sorted_iff)
  moreover have "\<forall>p\<in>set ?ps. 0 < pin_sequence p" using assms by (auto simp: add_pin_def validate_state_iff)
  ultimately show ?thesis using assms(1) by (simp add: validate_state_iff) (simp add: add_pin_def)
qed

lemma remove_pin:
  assumes "validate_state s = Inr ()" and "\<not> is_pinned s i"
  shows "filter (\<lambda>p. pin_snapshot_id p \<noteq> i) (rs_pins (add_pin s r i)) = rs_pins s"
proof -
  have "filter (\<lambda>p. pin_snapshot_id p \<noteq> i) (rs_pins s) = rs_pins s"
    using assms(2) by (auto simp: is_pinned_def list_ex_iff intro!: filter_True)
  moreover have "sorted (map pin_sequence (rs_pins s))"
    using assms(1) by (auto simp: validate_state_iff strict_sorted_iff)
  ultimately show ?thesis by (simp add: add_pin_def filter_sort sorted_sort_id sort_key_id_if_sorted)
qed

text \<open>
  C27: pinning a snapshot of the timeline appends a valid state in which it is pinned, at the
  sequence of its latest record; unpinning it appends a state with the pins that were there before.
\<close>

theorem pin_unpin:
  assumes "digest_length L" and "js_faithful J" and "js_faithful JR"
    and "current L JR refs rs" and "ret_chain L J zero_id 0 ss" and "ret_bytes log = ret_log_of L J ss"
    and "List.find (\<lambda>r. rr_snapshot_id r = i) (rev rs) = Some r" and "\<not> is_pinned (latest ss) i"
    and "rr_sequence r \<notin> pin_sequence ` set (rs_pins (latest ss))"
    and "length (js_enc J (next_state L J ss (add_pin (latest ss) r i))) \<le> RET_MAX_RECORD"
    and "length (js_enc J (next_state L J (ss @ [next_state L J ss (add_pin (latest ss) r i)]) (latest ss)))
           \<le> RET_MAX_RECORD"
  shows "\<exists>log1 ss2. ret_pin L J JR touch log refs i = Inr (True, log1, refs)
    \<and> (\<exists>s. ret_state L J log1 = Inr (s, log1) \<and> is_pinned s i \<and> retains s (rr_sequence r) i)
    \<and> ret_unpin L J log1 i = Inr (True, Some (ret_log_of L J ss2))
    \<and> ret_chain L J zero_id 0 ss2 \<and> rs_pins (latest ss2) = rs_pins (latest ss)"
proof -
  let ?a = "add_pin (latest ss) r i"
  let ?s1 = "next_state L J ss ?a"
  let ?ss1 = "ss @ [?s1]"
  let ?ss2 = "?ss1 @ [next_state L J ?ss1 (latest ss)]"
  note v = latest_valid [OF assms(5)]
  have "r \<in> set rs" using assms(7) by (auto simp: find_Some_iff) (metis length_rev nth_mem set_rev)
  then have "0 < rr_sequence r"
    using assms(4) chain_sequences [of L JR zero_id 1 rs] by (fastforce simp: current_def)
  note va = add_pin_valid [OF v assms(9) this, of i]
  note ch1 = next_state_chain [OF assms(5) va assms(10)]
  have v0: "validate_state (latest ss) = Inr ()" by (rule v)
  note ch2 = next_state_chain [OF ch1 v0 assms(11)]
  have ev: "rs_event_sequence ?a = length ss" using latest_event_length [OF assms(5)] by (simp add: add_pin_def)
  have "ret_pin L J JR touch log refs i = Inr (True, Some (ret_log_of L J ?ss1), refs)"
    unfolding ret_pin_def assms(6) find_ref_current [OF assms(1,3,4)] assms(7)
    using read_latest_all [OF assms(1,2,5)] assms(8) ret_write_chain [OF assms(1,2,5) ev assms(10)]
    by (simp add: add_pin_def)
  moreover have "ret_state L J (Some (ret_log_of L J ?ss1)) = Inr (?s1, Some (ret_log_of L J ?ss1))"
    using read_latest_all [OF assms(1,2) ch1] by (simp add: ret_state_def)
  moreover have pinned: "is_pinned ?s1 i" by (simp add: is_pinned_def next_state_def add_pin_def list_ex_iff)
  moreover have "retains ?s1 (rr_sequence r) i" using pinned by (simp add: retains_def is_pinned_def)
  moreover have "ret_unpin L J (Some (ret_log_of L J ?ss1)) i = Inr (True, Some (ret_log_of L J ?ss2))"
  proof -
    let ?u = "?s1\<lparr>rs_pins := rs_pins (latest ss)\<rparr>"
    have f: "filter (\<lambda>p. pin_snapshot_id p \<noteq> i) (rs_pins ?s1) = rs_pins (latest ss)"
      using remove_pin [OF v assms(8), of r] by (simp add: next_state_def)
    have len: "length (rs_pins ?s1) = Suc (length (rs_pins (latest ss)))" by (simp add: next_state_def add_pin_def)
    have n: "next_state L J ?ss1 ?u = next_state L J ?ss1 (latest ss)" by (simp add: next_state_def add_pin_def)
    have "ret_write L J (ret_log_of L J ?ss1) ?u
        = Inr (next_state L J ?ss1 (latest ss), ret_log_of L J ?ss2)"
      using ret_write_chain [OF assms(1,2) ch1, of ?u] assms(11) unfolding n by (simp add: next_state_def)
    then show ?thesis
      unfolding ret_unpin_def option.case read_latest_all [OF assms(1,2) ch1] rbind.simps prod.case
      using f len by (simp add: Let_def)
  qed
  moreover have "rs_pins (latest ?ss2) = rs_pins (latest ss)" by (simp add: next_state_def)
  ultimately show ?thesis using ch2 by blast
qed

section \<open>Witnesses\<close>

definition c_range :: "sequence_range codec" where
  "c_range = c_iso (\<lambda>r. (sr_first r, sr_last r)) (\<lambda>(a, b). \<lparr>sr_first = a, sr_last = b\<rparr>) (c_pair c_nat c_nat)"

definition c_pin :: "pin codec" where
  "c_pin = c_iso (\<lambda>p. (pin_sequence p, pin_snapshot_id p))
     (\<lambda>(a, b). \<lparr>pin_sequence = a, pin_snapshot_id = b\<rparr>) (c_pair c_nat c_bytes)"

definition c_state :: "retention_state codec" where
  "c_state = c_iso
     (\<lambda>s. (rs_event_sequence s, rs_evaluated_through s, rs_evaluated_at s, rs_retained s, rs_pins s,
           rs_previous_frame s))
     (\<lambda>(e, t, a, r, p, h). \<lparr>rs_event_sequence = e, rs_evaluated_through = t, rs_evaluated_at = a,
        rs_retained = r, rs_pins = p, rs_previous_frame = h\<rparr>)
     (c_pair c_nat (c_pair c_nat (c_pair c_int (c_pair (c_list c_range) (c_pair (c_list c_pin) c_bytes)))))"

definition sample_states :: "retention_state json_codec" where
  "sample_states = \<lparr>js_enc = enc c_state, js_dec = (\<lambda>b. map_option fst (dec c_state b))\<rparr>"

lemma sample_states_faithful: "js_faithful sample_states"
proof -
  have "codec_ok c_range" unfolding c_range_def by (rule codec_iso) (auto intro!: codec_pair codec_nat)
  moreover have "codec_ok c_pin" unfolding c_pin_def
    by (rule codec_iso) (auto intro!: codec_pair codec_nat codec_bytes)
  ultimately have "codec_ok c_state" unfolding c_state_def
    by (intro codec_iso) (auto intro!: codec_pair codec_nat codec_bytes codec_int codec_list)
  then show ?thesis by (simp add: js_faithful_def sample_states_def codec_round_trip)
qed

lemma state_length:
  "length (js_enc sample_states s) = rs_event_sequence s + rs_evaluated_through s
     + length (enc c_int (rs_evaluated_at s)) + length (enc (c_list c_range) (rs_retained s))
     + length (enc (c_list c_pin) (rs_pins s)) + 2 * length (rs_previous_frame s) + 3"
  by (simp add: sample_states_def c_state_def c_iso_def c_pair_def c_nat_def c_bytes_def)

lemmas codec_length = state_length c_range_def c_pin_def c_iso_def c_pair_def c_nat_def c_bytes_def
  c_int_def c_list_def next_state_def ret_tip_def zero_id_def RET_MAX_RECORD_def

definition one_refs :: ref_log where
  "one_refs = append_index short_lib (set_log id empty_refs (log_of short_lib sample_refs [sample_ref]))
     (index_record_new 0 (frame_len sample_refs sample_ref)
        (frame_hash_of short_lib (js_enc sample_refs sample_ref)) sample_meta)"

lemma one_refs_current: "current short_lib sample_refs one_refs [sample_ref]"
  using append_current [OF short_lib_digest empty_refs_current sample_ref_def, of id] sample_meta_ok
    sample_ref_length by (simp add: one_refs_def MAX_RECORD_def frame_len_def empty_refs_def)

lemma sample_retention_plan:
  "plan_state short_lib sample_refs id one_refs 0 [] = Inr (\<lparr>rs_event_sequence = 0,
     rs_evaluated_through = 1, rs_evaluated_at = 0, rs_retained = [\<lparr>sr_first = 1, sr_last = 1\<rparr>],
     rs_pins = [], rs_previous_frame = zero_id\<rparr>, one_refs)"
  by (simp add: plan_state_current [OF short_lib_digest sample_refs_faithful one_refs_current]
      plan_record_def plan_start_def plan_finish_def kept_whole_def sample_ref_def next_record_def
      i64_saturating_sub_def i64_min_def i64_max_def window_consts compress_sequences_def)


definition sample_state :: retention_state where
  "sample_state = \<lparr>rs_event_sequence = 1, rs_evaluated_through = 5, rs_evaluated_at = 0,
     rs_retained = [\<lparr>sr_first = 1, sr_last = 2\<rparr>], rs_pins = [\<lparr>pin_sequence = 4, pin_snapshot_id = ''p''\<rparr>],
     rs_previous_frame = zero_id\<rparr>"

lemma sample_state_valid: "validate_state sample_state = Inr ()"
  by (simp add: validate_state_def sample_state_def)

lemma sample_state_kept: "kept_sequences sample_state 6 = {1, 2, 4, 6}"
  by (auto simp: kept_sequences_def sample_state_def)

theorem listing_is_kept_witness:
  "recent_sequences sample_state 6 3 = [6, 4, 2] \<and> \<not> retains sample_state 3 ''q''"
  using listing_is_kept [OF sample_state_valid, of 6 3 3 "''q''"]
  by (simp add: sample_state_kept) (simp add: sample_state_def is_pinned_def)

theorem count_is_card_witness: "retained_count sample_state 6 = 4"
  using count_is_card [OF sample_state_valid, of 6]
  by (simp add: sample_state_kept u64_max_def) (simp add: sample_state_def)

theorem apply_keeps_policy_witness:
  "\<exists>ss s. ret_apply short_lib sample_states sample_refs id None one_refs 0
     = Inr (s, Some (ret_log_of short_lib sample_states ss), one_refs)
     \<and> ret_chain short_lib sample_states zero_id 0 ss \<and> covers (rs_retained s) = policy_keeps 0 [] [sample_ref]"
proof -
  have "ret_chain short_lib sample_states zero_id 0 []"
    "ret_bytes None = ret_log_of short_lib sample_states []" "rs_pins (latest []) = []"
    by (simp_all add: ret_initial_def)
  from apply_keeps_policy [OF short_lib_digest sample_states_faithful sample_refs_faithful one_refs_current
      this(1,2), unfolded this(3), OF sample_retention_plan]
  show ?thesis by (fastforce simp: codec_length)
qed

definition lost_pin :: retention_state where
  "lost_pin = next_state short_lib sample_states [] (ret_initial\<lparr>rs_pins := [\<lparr>pin_sequence = 7, pin_snapshot_id = ''p''\<rparr>]\<rparr>)"

lemma lost_pin_chain: "ret_chain short_lib sample_states zero_id 0 [lost_pin]"
  by (simp add: lost_pin_def validate_state_def ret_initial_def codec_length)

theorem apply_lost_pin_poisons_log_witness:
  "\<exists>s bs. ret_apply short_lib sample_states sample_refs id
       (Some (ret_log_of short_lib sample_states [lost_pin])) empty_refs 0 = Inr (s, Some bs, empty_refs)
     \<and> ret_state short_lib sample_states (Some bs) = Inl (Bail ''retained range exceeds evaluated history'')"
proof -
  let ?pins = "[\<lparr>pin_sequence = 7, pin_snapshot_id = ''p''\<rparr>]"
  let ?planned = "plan_finish 0 ?pins plan_start"
  have pins: "rs_pins (latest [lost_pin]) = ?pins" by (simp add: lost_pin_def next_state_def)
  have plan: "plan_state short_lib sample_refs id empty_refs 0 (rs_pins (latest [lost_pin])) = Inr (?planned, empty_refs)"
    using plan_state_current [OF short_lib_digest sample_refs_faithful empty_refs_current, of id 0 ?pins]
    unfolding pins by simp
  have "length (ret_frame_hash short_lib a b c) = 32" for a b c
    using digest_simps [OF short_lib_digest] by (simp add: ret_frame_hash_def)
  then have "length (js_enc sample_states (next_state short_lib sample_states [lost_pin] ?planned)) \<le> RET_MAX_RECORD"
    by (simp add: codec_length plan_finish_def plan_start_def compress_sequences_def)
  from apply_lost_pin_poisons_log [OF short_lib_digest sample_states_faithful sample_refs_faithful
      empty_refs_current lost_pin_chain _ plan this, where log = "Some (ret_log_of short_lib sample_states [lost_pin])"
      and p = "hd ?pins"]
  show ?thesis unfolding pins by simp
qed

theorem pin_unpin_witness:
  "\<exists>log1 ss2. ret_pin short_lib sample_states sample_refs id None one_refs ''snap'' = Inr (True, log1, one_refs)
     \<and> ret_unpin short_lib sample_states log1 ''snap'' = Inr (True, Some (ret_log_of short_lib sample_states ss2))
     \<and> rs_pins (latest ss2) = []"
proof -
  have e: "ret_chain short_lib sample_states zero_id 0 []"
    "ret_bytes None = ret_log_of short_lib sample_states []" "rs_pins (latest []) = []"
    by (simp_all add: ret_initial_def)
  have f: "List.find (\<lambda>r. rr_snapshot_id r = ''snap'') (rev [sample_ref]) = Some sample_ref"
    "\<not> is_pinned (latest []) ''snap''" "rr_sequence sample_ref \<notin> pin_sequence ` set (rs_pins (latest []))"
    by (simp_all add: sample_ref_def next_record_def is_pinned_def ret_initial_def)
  have "length (ret_frame_hash short_lib a b c) = 32" for a b c
    using digest_simps [OF short_lib_digest] by (simp add: ret_frame_hash_def)
  then have "length (js_enc sample_states (next_state short_lib sample_states [] (add_pin (latest []) sample_ref ''snap'')))
      \<le> RET_MAX_RECORD"
    "length (js_enc sample_states (next_state short_lib sample_states
       ([] @ [next_state short_lib sample_states [] (add_pin (latest []) sample_ref ''snap'')]) (latest []))) \<le> RET_MAX_RECORD"
    by (simp_all add: codec_length add_pin_def ret_initial_def sample_ref_def next_record_def)
  from pin_unpin [where touch = id, OF short_lib_digest sample_states_faithful sample_refs_faithful
      one_refs_current e(1,2) f this] show ?thesis unfolding e(3) by blast
qed

end
