(* ===== verification/Collector.thy ===== *)
theory Collector
  imports Pack_Store Retention
begin

text \<open>
  \<^verbatim>\<open>furrow-core/src/gc.rs\<close>: reachability collection. The mark database is a sorted map from
  object ids to a kind, a class msk and a flag; roots come from the retention of every workspace;
  the traversal reads one unprocessed object after the other and enqueues what it refers to; the
  compaction copies what is marked into one new pack and switches the store over to it.
\<close>

section \<open>The mark database\<close>

definition RECORD_OVERHEAD :: nat where "RECORD_OVERHEAD = HEADER_LEN + length OBJECT_END"
definition COMPACTION_BATCH :: nat where "COMPACTION_BATCH = 1024"
definition ALL_CLASS_MASK :: mask where "ALL_CLASS_MASK = push_bit (length all_classes) 1 - 1"
definition BLOB_BYTES_BIT :: mask where "BLOB_BYTES_BIT = push_bit 15 1"
definition DAY_SECONDS :: int where "DAY_SECONDS = 24 * 60 * 60"

record mark =
  mk_kind :: object_kind
  mk_mask :: mask
  mk_processed :: bool

type_synonym marks = "(object_id, mark) btree_map"

definition enqueue :: "marks \<Rightarrow> object_id \<Rightarrow> object_kind \<Rightarrow> mask \<Rightarrow> marks \<times> bool" where
  "enqueue m i kind msk =
     (case bt_get m i of
        None \<Rightarrow> (bt_insert i \<lparr>mk_kind = kind, mk_mask = msk, mk_processed = False\<rparr> m, True)
      | Some row \<Rightarrow>
          if mk_mask row OR msk \<noteq> mk_mask row
          then (bt_insert i (row\<lparr>mk_mask := mk_mask row OR msk, mk_processed := False\<rparr>) m, True)
          else (m, False))"

definition mark_pending :: "marks \<Rightarrow> object_id \<Rightarrow> bool" where
  "mark_pending m i \<longleftrightarrow> (case bt_get m i of None \<Rightarrow> False | Some row \<Rightarrow> \<not> mk_processed row)"

definition next_mark :: "marks \<Rightarrow> (object_id \<times> object_kind \<times> mask) option" where
  "next_mark m =
     (case List.find (mark_pending m) (map fst m) of
        None \<Rightarrow> None
      | Some i \<Rightarrow> map_option (\<lambda>row. (i, mk_kind row, mk_mask row)) (bt_get m i))"

definition set_processed :: "marks \<Rightarrow> object_id \<Rightarrow> marks" where
  "set_processed m i =
     (case bt_get m i of None \<Rightarrow> m | Some row \<Rightarrow> bt_insert i (row\<lparr>mk_processed := True\<rparr>) m)"

definition mark_batch :: "marks \<Rightarrow> object_id option \<Rightarrow> (object_id \<times> object_kind) list" where
  "mark_batch m after =
     take COMPACTION_BATCH (map (\<lambda>(i, row). (i, mk_kind row))
       (filter (\<lambda>(i, row). case after of None \<Rightarrow> True | Some a \<Rightarrow> a < i) m))"

section \<open>Roots\<close>

definition byte_mask :: "int \<Rightarrow> int \<Rightarrow> bool \<Rightarrow> mask" where
  "byte_mask now sealed_at exact_root =
     (if exact_root \<or> sealed_at > now then ALL_CLASS_MASK
      else
        let age = i64_saturating_sub now sealed_at;
            mask0 = class_bit Source OR class_bit VcsMeta OR class_bit ConfigSecret OR class_bit Lockfile;
            mask1 = (if age \<le> 30 * DAY_SECONDS then mask0 OR class_bit Database else mask0);
            mask2 = (if age \<le> 3 * DAY_SECONDS
                     then mask1 OR class_bit Dependency OR class_bit BuildOutput else mask1) in
        if age \<le> DAY_SECONDS then mask2 OR class_bit Scratch else mask2)"

record root_summary =
  su_roots :: nat
  su_published :: nat
  su_retained :: nat

text \<open>A workspace directory: its two logs, and the two files that pin snapshots while they exist.\<close>

record workspace =
  ws_refs :: ref_log
  ws_retention :: retention_log
  ws_intent :: "bytes option"
  ws_incoming :: "bytes option"

record gc_codecs =
  gc_states :: "retention_state json_codec"
  gc_refs :: "ref_record json_codec"
  gc_intent :: "bytes \<Rightarrow> (object_id \<times> object_id) option"
  gc_incoming :: "bytes \<Rightarrow> object_id option"

type_synonym root_acc = "root_summary \<times> marks"

definition enqueue_root :: "mask \<Rightarrow> root_acc \<Rightarrow> object_id \<Rightarrow> root_acc" where
  "enqueue_root msk acc i =
     (case enqueue (snd acc) i Snapshot msk of
        (m, fresh) \<Rightarrow> (if fresh then (fst acc)\<lparr>su_roots := su_roots (fst acc) + 1\<rparr> else fst acc, m))"

definition enqueue_record ::
  "int \<Rightarrow> retention_state \<Rightarrow> nat \<Rightarrow> root_acc \<Rightarrow> ref_record \<Rightarrow> root_acc" where
  "enqueue_record now state head_sequence acc r =
     (let su = (fst acc)\<lparr>su_published := su_published (fst acc) + 1\<rparr> in
      if retains state (rr_sequence r) (rr_snapshot_id r)
      then enqueue_root (byte_mask now (rr_sealed_at r)
               (rr_sequence r = head_sequence \<or> is_pinned state (rr_snapshot_id r)))
             (su\<lparr>su_retained := su_retained su + 1\<rparr>, snd acc) (rr_snapshot_id r)
      else (su, snd acc))"

definition enqueue_workspace ::
  "lib \<Rightarrow> gc_codecs \<Rightarrow> (file_meta \<Rightarrow> file_meta) \<Rightarrow> int \<Rightarrow> bool \<Rightarrow> root_acc \<Rightarrow> workspace
   \<Rightarrow> (root_acc \<times> workspace) result" where
  "enqueue_workspace L G touch now persist acc w =
     rbind (if persist then ret_apply L (gc_states G) (gc_refs G) touch (ws_retention w) (ws_refs w) now
            else ret_plan L (gc_states G) (gc_refs G) touch (ws_retention w) (ws_refs w) now)
       (\<lambda>(state, log, refs).
     rbind (head L (gc_refs G) touch refs) (\<lambda>(tip, refs1).
     let head_sequence = (case tip of None \<Rightarrow> 0 | Some r \<Rightarrow> rr_sequence r) in
     rbind (for_each_record L (gc_refs G) touch refs1
              (\<lambda>acc r. Inr (enqueue_record now state head_sequence acc r)) acc) (\<lambda>(acc1, refs2).
     rbind (case ws_intent w of
              None \<Rightarrow> Inr acc1
            | Some bs \<Rightarrow> rbind (of_opt ''read restore intent'' (gc_intent G bs)) (\<lambda>(pre, target).
                Inr (foldl (enqueue_root ALL_CLASS_MASK) acc1 [pre, target]))) (\<lambda>acc2.
     rbind (case ws_incoming w of
              None \<Rightarrow> Inr acc2
            | Some bs \<Rightarrow> rbind (of_opt ''read incoming sync root'' (gc_incoming G bs)) (\<lambda>i.
                Inr (enqueue_root ALL_CLASS_MASK acc2 i))) (\<lambda>acc3.
     Inr (acc3, w\<lparr>ws_refs := refs2, ws_retention := log\<rparr>))))))"

fun enqueue_workspaces ::
  "lib \<Rightarrow> gc_codecs \<Rightarrow> (file_meta \<Rightarrow> file_meta) \<Rightarrow> int \<Rightarrow> bool \<Rightarrow> root_acc \<Rightarrow> workspace list
   \<Rightarrow> (root_acc \<times> workspace list) result" where
  "enqueue_workspaces L G touch now persist acc [] = Inr (acc, [])"
| "enqueue_workspaces L G touch now persist acc (w # ws) =
     rbind (enqueue_workspace L G touch now persist acc w) (\<lambda>(acc1, w').
     rbind (enqueue_workspaces L G touch now persist acc1 ws) (\<lambda>(acc2, ws').
     Inr (acc2, w' # ws')))"

definition enqueue_roots ::
  "lib \<Rightarrow> gc_codecs \<Rightarrow> (file_meta \<Rightarrow> file_meta) \<Rightarrow> workspace list \<Rightarrow> int \<Rightarrow> bool
   \<Rightarrow> (root_acc \<times> workspace list) result" where
  "enqueue_roots L G touch ws now persist =
     enqueue_workspaces L G touch now persist
       (\<lparr>su_roots = 0, su_published = 0, su_retained = 0\<rparr>, []) ws"

section \<open>Traversal\<close>

definition object_kind_of :: "pack_store \<Rightarrow> object_id \<Rightarrow> object_kind result" where
  "object_kind_of s i = of_opt ''missing object'' (map_option loc_kind (object_row (ps_objects s) i))"

definition object_len :: "pack_store \<Rightarrow> object_id \<Rightarrow> nat result" where
  "object_len s i = of_opt ''missing object'' (map_option loc_len (object_row (ps_objects s) i))"

type_synonym reference = "object_id \<times> object_kind \<times> mask"

definition blob_mask :: "mask \<Rightarrow> content_class \<Rightarrow> mask" where
  "blob_mask msk c = (if msk AND class_bit c \<noteq> 0 then BLOB_BYTES_BIT else 0)"

definition entry_references :: "mask \<Rightarrow> tree_entry \<Rightarrow> reference list" where
  "entry_references msk e =
     (case te_xattrs e of None \<Rightarrow> [] | Some x \<Rightarrow> [(x, Xattrs, 0)])
     @ (case (te_kind e, te_target e) of
          (File, Some target) \<Rightarrow> [(target, Blob, blob_mask msk (te_class e))]
        | (Directory, Some target) \<Rightarrow> [(target, Tree, msk)]
        | _ \<Rightarrow> [])"

fun references :: "lib \<Rightarrow> object_kind \<Rightarrow> bytes \<Rightarrow> mask \<Rightarrow> reference list result" where
  "references L Snapshot bs msk =
     rbind (of_opt ''invalid snapshot'' (parse_snapshot L bs)) (\<lambda>sn.
     Inr ((sn_root_tree sn, Tree, msk)
          # map (\<lambda>b. (sb_blob b, Blob, blob_mask msk (classify (sb_path b)))) (sn_sqlite_backups sn)))"
| "references L Tree bs msk =
     rbind (of_opt ''invalid tree'' (parse_tree L bs)) (\<lambda>t.
     Inr (map (\<lambda>p. (tp_target p, Tree, msk)) (tr_pages t)
          @ concat (map (entry_references msk) (tr_entries t))))"
| "references L Blob bs msk =
     rbind (of_opt ''invalid blob'' (parse_blob L bs)) (\<lambda>b.
     Inr (if msk AND BLOB_BYTES_BIT \<noteq> 0 then map (\<lambda>c. (cr_id c, Chunk, 0)) (bl_chunks b) else []))"
| "references L Chunk bs msk = Inr []"
| "references L Xattrs bs msk = Inr []"

definition enqueue_all :: "marks \<Rightarrow> reference list \<Rightarrow> marks" where
  "enqueue_all m refs = foldl (\<lambda>m (i, kind, msk). fst (enqueue m i kind msk)) m refs"

text \<open>
  The loop ends: a step either repairs the index, which happens once, or it processes an object of
  the store, and an object is processed again only after its mask has grown.
\<close>

definition mark_weight :: "mark option \<Rightarrow> nat" where
  "mark_weight r =
     (case r of
        None \<Rightarrow> 36
      | Some row \<Rightarrow> 2 * card {n. n < 16 \<and> \<not> bit (mk_mask row) n} + (if mk_processed row then 0 else 1))"

definition weight :: "pack_store \<Rightarrow> marks \<Rightarrow> nat" where
  "weight s m = (\<Sum>i\<in>fst ` set (ps_objects s). mark_weight (bt_get m i))"

lemma mask_card: "card {n. n < 16 \<and> \<not> bit (m :: mask) n} \<le> 16"
  using card_mono [of "{..<16}" "{n. n < 16 \<and> \<not> bit m n}"] by fastforce

lemma mask_grows:
  assumes "m OR k \<noteq> (m :: mask)"
  shows "card {n. n < 16 \<and> \<not> bit (m OR k) n} < card {n. n < 16 \<and> \<not> bit m n}"
proof (rule psubset_card_mono)
  from assms obtain n where n: "bit (m OR k) n \<noteq> bit m n" by (meson bit_eqI)
  then have "n < 16" by (metis bit_imp_le_length len_num1 len_bit0 len_num0 mult_2 numeral_Bit0 numeral_One not_less_eq)
  with n show "{n. n < 16 \<and> \<not> bit (m OR k) n} \<subset> {n. n < 16 \<and> \<not> bit m n}" by (auto simp: bit_or_iff)
qed simp

lemma enqueue_weight: "mark_weight (bt_get (fst (enqueue m i kind msk)) j) \<le> mark_weight (bt_get m j)"
proof (cases "bt_get m i")
  case None
  then show ?thesis
    using mask_card [of msk] by (auto simp: enqueue_def bt_get_insert mark_weight_def)
next
  case (Some row)
  then show ?thesis
    using mask_grows [of "mk_mask row" msk] by (auto simp: enqueue_def bt_get_insert mark_weight_def)
qed

lemma enqueue_pending: "mark_pending m j \<Longrightarrow> mark_pending (fst (enqueue m i kind msk)) j"
  by (auto simp: mark_pending_def enqueue_def bt_get_insert split: option.splits)

lemma enqueue_all_weight: "mark_weight (bt_get (enqueue_all m refs) j) \<le> mark_weight (bt_get m j)"
proof (induction refs arbitrary: m)
  case (Cons r refs)
  obtain i kind msk where r: "r = (i, kind, msk)" by (metis surj_pair)
  with Cons [of "fst (enqueue m i kind msk)"] enqueue_weight [of m i kind msk j] show ?case
    by (simp add: enqueue_all_def)
qed (simp add: enqueue_all_def)

lemma enqueue_all_pending: "mark_pending m j \<Longrightarrow> mark_pending (enqueue_all m refs) j"
  by (induction refs arbitrary: m) (auto simp: enqueue_all_def enqueue_pending split: prod.splits)

lemma set_processed_weight:
  "mark_weight (bt_get (set_processed m i) j) \<le> mark_weight (bt_get m j)"
  "mark_pending m i \<Longrightarrow> mark_weight (bt_get (set_processed m i) i) < mark_weight (bt_get m i)"
  by (auto simp: set_processed_def bt_get_insert mark_weight_def mark_pending_def split: option.splits)

lemma next_mark_pending: "next_mark m = Some (i, kind, msk) \<Longrightarrow> mark_pending m i"
  by (auto simp: next_mark_def find_Some_iff split: option.splits)

lemma step_weight:
  assumes "next_mark m = Some (i, kind, msk)" and "object_kind_of s i = Inr k"
  shows "weight s (set_processed (enqueue_all m refs) i) < weight s m"
proof -
  have "mark_pending (enqueue_all m refs) i" by (rule enqueue_all_pending [OF next_mark_pending [OF assms(1)]])
  moreover have "i \<in> fst ` set (ps_objects s)"
    using assms(2) by (auto simp: object_kind_of_def object_row_def dest: map_of_SomeD intro: rev_image_eqI)
  moreover have "mark_weight (bt_get (set_processed (enqueue_all m refs) i) j) \<le> mark_weight (bt_get m j)" for j
    using set_processed_weight(1) enqueue_all_weight by (rule order_trans)
  ultimately show ?thesis
    unfolding weight_def
    using set_processed_weight(2) [of "enqueue_all m refs" i] enqueue_all_weight [of m refs i]
    by (intro sum_strict_mono_ex1 ballI bexI [of _ i]) auto
qed

lemma truncate_healed: "truncate_pack_tail s n = Inr s' \<Longrightarrow> ps_healed s' = ps_healed s"
  by (auto simp: truncate_pack_tail_def forget_capture_caches_def Let_def split: if_splits)

lemma scan_loop_healed: "scan_loop L st rest = Inr st' \<Longrightarrow> ps_healed (sc_store st') = ps_healed (sc_store st)"
proof (induction L st rest rule: scan_loop.induct)
  case (1 L st rest)
  note eq = "1.prems" [unfolded scan_loop.simps [of L st rest]]
  show ?case
  proof (cases "scan_record L rest")
    case (Complete kind payload i rest')
    with 1 eq show ?thesis
      by (cases "rest = []") (auto simp: scan_insert_def Let_def)
  qed (use eq in \<open>auto dest!: truncate_healed split: if_splits\<close>)
qed

lemma recover_healed: "recover_pack_locked L s = Inr s' \<Longrightarrow> ps_healed s' = ps_healed s"
  by (auto simp: recover_pack_locked_def Let_def reset_pack_index_def forget_capture_caches_def scan_start_def
      dest!: scan_loop_healed split: option.splits if_splits)

lemma verify_healed: "verify_index L s deep = Inr (r, s') \<Longrightarrow> ps_healed s' = ps_healed s"
  by (auto simp: verify_index_def Let_def reset_pack_index_def dest!: recover_healed split: if_splits)

lemma heal_healed: "heal_index L s idle = (b, s') \<Longrightarrow> s' = s \<or> \<not> ps_healed s \<and> ps_healed s'"
  by (cases "ps_healed s") (auto simp: heal_index_def Let_def dest!: verify_healed split: if_splits sum.splits prod.splits)

lemma read_bytes_healed: "read_bytes L s idle i k = (r, s') \<Longrightarrow> s' = s \<or> \<not> ps_healed s \<and> ps_healed s'"
  by (auto simp: read_bytes_def split: sum.splits prod.splits if_splits dest: heal_healed)

function traverse :: "lib \<Rightarrow> pack_store \<Rightarrow> marks \<Rightarrow> (pack_store \<times> marks) result" where
  "traverse L s m =
     (case next_mark m of
        None \<Rightarrow> Inr (s, m)
      | Some (i, expected, msk) \<Rightarrow>
          rbind (object_kind_of s i) (\<lambda>actual.
          ensure (actual = expected) ''reachable object kind mismatch''
          (case read_bytes L s True i expected of (r, s') \<Rightarrow>
           rbind r (\<lambda>bs.
           rbind (references L expected bs msk) (\<lambda>refs.
           traverse L s' (set_processed (enqueue_all m refs) i))))))"
  by pat_completeness auto
termination
  by (relation "measures [\<lambda>(L, s, m). if ps_healed s then 0 else 1, \<lambda>(L, s, m). weight s m]")
    (auto dest!: read_bytes_healed [OF sym] step_weight)

declare traverse.simps [simp del]

section \<open>Compaction\<close>

definition write_record :: "lib \<Rightarrow> object_kind \<Rightarrow> object_id \<Rightarrow> bytes \<Rightarrow> bytes" where
  "write_record L kind i bs =
     OBJECT_MAGIC @ [OBJECT_VERSION, char_of (kind_u8 kind)] @ le_bytes 8 (length bs)
     @ i @ blake3 L bs @ bs @ OBJECT_END"

record compaction =
  co_store :: pack_store
  co_output :: bytes
  co_locations :: "(object_id \<times> object_kind \<times> nat \<times> nat) list"
  co_count :: nat
  co_last_start :: nat

definition compact_object :: "lib \<Rightarrow> compaction \<Rightarrow> object_id \<times> object_kind \<Rightarrow> compaction result" where
  "compact_object L c entry =
     (case entry of (i, expected) \<Rightarrow>
      case read_bytes L (co_store c) True i expected of (r, s') \<Rightarrow>
      rbind r (\<lambda>bs.
      let output = co_output c @ write_record L expected i bs;
          payload_offset = length output - length bs - length OBJECT_END in
      Inr \<lparr>co_store = s', co_output = output,
           co_locations = co_locations c @ [(i, expected, payload_offset, length bs)],
           co_count = co_count c + 1, co_last_start = length (co_output c)\<rparr>))"

lemma mark_batch_shrinks:
  assumes "mark_batch m after \<noteq> []"
  shows "length (filter (\<lambda>(i, row). fst (last (mark_batch m after)) < i) m)
    < length (filter (\<lambda>(i, row). case after of None \<Rightarrow> True | Some a \<Rightarrow> a < i) m)"
proof -
  let ?P = "\<lambda>(i, row). case after of None \<Rightarrow> True | Some a \<Rightarrow> a < i"
  let ?a = "fst (last (mark_batch m after))"
  have "set (mark_batch m after) \<subseteq> (\<lambda>(i, row). (i, mk_kind row)) ` set (filter ?P m)"
    unfolding mark_batch_def by (metis set_map set_take_subset)
  with last_in_set [OF assms] obtain x where "x \<in> set (filter ?P m)"
    "last (mark_batch m after) = (\<lambda>(i, row). (i, mk_kind row)) x" by blast
  moreover obtain j row where "x = (j, row)" by (cases x)
  ultimately have row: "(?a, row) \<in> set (filter ?P m)" by simp
  have "filter (\<lambda>(i, row). ?a < i) m = filter (\<lambda>(i, row). ?a < i) (filter ?P m)"
    using row by (auto intro!: filter_cong split: option.splits)
  also have "length \<dots> < length (filter ?P m)"
    using row by (intro length_filter_less) auto
  finally show ?thesis .
qed

function compact_loop ::
  "lib \<Rightarrow> marks \<Rightarrow> object_id option \<Rightarrow> compaction \<Rightarrow> (compaction \<times> object_id option) result" where
  "compact_loop L m last_id c =
     (let batch = mark_batch m last_id in
      if batch = [] then Inr (c, last_id)
      else rbind (rfold (compact_object L) c batch) (\<lambda>c'.
           compact_loop L m (Some (fst (last batch))) c'))"
  by pat_completeness auto
termination
  by (relation "measure (\<lambda>(L, m, after, c).
      length (filter (\<lambda>(i, row). case after of None \<Rightarrow> True | Some a \<Rightarrow> a < i) m))")
    (use mark_batch_shrinks in auto)

declare compact_loop.simps [simp del]

definition replace_objects_from_gc ::
  "pack_store \<Rightarrow> (object_id \<times> object_kind \<times> nat \<times> nat) list \<Rightarrow> string \<Rightarrow> checkpoint \<Rightarrow> pack_store" where
  "replace_objects_from_gc s locations pack ck =
     s\<lparr>ps_objects := map (\<lambda>(i, kind, offset, len).
           (i, \<lparr>loc_kind = kind, loc_pack = pack, loc_offset = offset, loc_len = len\<rparr>)) locations,
       ps_checkpoints := [pack \<mapsto> ck]\<rparr>"

text \<open>\<open>Path::new(pack).file_name() == Some(pack)\<close> holds for a single normal component.\<close>

definition validate_pack_name :: "string \<Rightarrow> bool" where
  "validate_pack_name pack \<longleftrightarrow>
     pack \<noteq> [] \<and> suffix ''.agp'' pack \<and> CHR ''/'' \<notin> set pack \<and> pack \<noteq> ''.'' \<and> pack \<noteq> ''..''"

text \<open>The packs of the frontier that a group commit writes; its reference logs are not store state.\<close>

definition sync_packs :: "pack_store \<Rightarrow> pack_store result" where
  "sync_packs s =
     ensure (list_all (\<lambda>(i, loc). ps_packs s (loc_pack loc) \<noteq> None
               \<longrightarrow> row_end loc \<le> file_len s (loc_pack loc)) (ps_objects s))
       ''object pack needs recovery before group commit''
     (Inr (s\<lparr>ps_frontier := Some (\<lambda>name. if ps_packs s name = None then None
                                      else Some (pack_high_water (ps_objects s) name))\<rparr>))"

definition activate_pack :: "pack_store \<Rightarrow> string \<Rightarrow> pack_store result" where
  "activate_pack s pack =
     ensure (validate_pack_name pack) ''invalid active pack name''
     (let s1 = s\<lparr>ps_active := pack, ps_known_end := file_len s pack\<rparr> in
      if ps_frontier s1 \<noteq> None then sync_packs s1 else Inr s1)"

definition remove_other_packs :: "pack_store \<Rightarrow> string \<Rightarrow> pack_store" where
  "remove_other_packs s pack = s\<lparr>ps_packs := (\<lambda>name. if name = pack then ps_packs s name else None)\<rparr>"

text \<open>\<open>pack\<close> is the new file's name, made from the clock.\<close>

definition compact :: "lib \<Rightarrow> pack_store \<Rightarrow> marks \<Rightarrow> string \<Rightarrow> (nat \<times> pack_store) result" where
  "compact L s m pack =
     rbind (compact_loop L m None
              \<lparr>co_store = s, co_output = [], co_locations = [], co_count = 0, co_last_start = 0\<rparr>)
       (\<lambda>(c, last_id).
     let s1 = (co_store c)\<lparr>ps_packs := (ps_packs (co_store c))(pack \<mapsto> co_output c)\<rparr>;
         ck = \<lparr>ck_verified_len = length (co_output c), ck_object_count = co_count c,
               ck_last_object = last_id, ck_last_record_start = co_last_start c\<rparr>;
         s2 = replace_objects_from_gc s1 (co_locations c) pack ck in
     rbind (activate_pack s2 pack) (\<lambda>s3.
     Inr (length (co_output c), remove_other_packs s3 pack)))"

section \<open>Collecting\<close>

record gc_report =
  gr_dry_run :: bool
  gr_roots :: nat
  gr_reachable_objects :: nat
  gr_unreachable_objects :: nat
  gr_reachable_payload_bytes :: nat
  gr_unreachable_payload_bytes :: nat
  gr_physical_bytes_before :: nat
  gr_physical_bytes_after :: nat
  gr_reclaimed_bytes :: nat
  gr_published_snapshots :: nat
  gr_retained_snapshots :: nat
  gr_thinned_snapshots :: nat

definition object_payload_bytes :: "pack_store \<Rightarrow> nat" where
  "object_payload_bytes s = sum_list (map (\<lambda>(i, loc). loc_len loc) (ps_objects s))"

definition physical_bytes :: "pack_store \<Rightarrow> string list \<Rightarrow> nat" where
  "physical_bytes s names = sum_list (map (file_len s) names)"

function payload_loop :: "pack_store \<Rightarrow> marks \<Rightarrow> object_id option \<Rightarrow> nat \<Rightarrow> nat result" where
  "payload_loop s m last_id acc =
     (let batch = mark_batch m last_id in
      if batch = [] then Inr acc
      else rbind (rfold (\<lambda>t (i, kind). rbind (object_len s i) (\<lambda>n. Inr (u64_saturating_add t n))) acc batch)
             (\<lambda>acc'. payload_loop s m (Some (fst (last batch))) acc'))"
  by pat_completeness auto
termination
  by (relation "measure (\<lambda>(s, m, after, c).
      length (filter (\<lambda>(i, row). case after of None \<Rightarrow> True | Some a \<Rightarrow> a < i) m))")
    (use mark_batch_shrinks in auto)

declare payload_loop.simps [simp del]

definition reachable_payload_bytes :: "pack_store \<Rightarrow> marks \<Rightarrow> nat result" where
  "reachable_payload_bytes s m = payload_loop s m None 0"

text \<open>\<open>names\<close> is the listing of the pack directory before the collection.\<close>

definition collect_locked_at ::
  "lib \<Rightarrow> gc_codecs \<Rightarrow> (file_meta \<Rightarrow> file_meta) \<Rightarrow> pack_store \<Rightarrow> workspace list \<Rightarrow> string list \<Rightarrow> string
   \<Rightarrow> bool \<Rightarrow> int \<Rightarrow> (gc_report \<times> pack_store \<times> workspace list) result" where
  "collect_locked_at L G touch s ws names pack dry_run now =
     rbind (enqueue_roots L G touch ws now (\<not> dry_run)) (\<lambda>((su, m0), ws').
     rbind (traverse L s m0) (\<lambda>(s1, m).
     let reachable_objects = length m in
     rbind (reachable_payload_bytes s1 m) (\<lambda>reachable_payload.
     let before = physical_bytes s1 names;
         projected = u64_saturating_add reachable_payload (reachable_objects * RECORD_OVERHEAD);
         report = (\<lambda>after.
           \<lparr>gr_dry_run = dry_run, gr_roots = su_roots su, gr_reachable_objects = reachable_objects,
            gr_unreachable_objects = length (ps_objects s1) - reachable_objects,
            gr_reachable_payload_bytes = reachable_payload,
            gr_unreachable_payload_bytes = object_payload_bytes s1 - reachable_payload,
            gr_physical_bytes_before = before, gr_physical_bytes_after = after,
            gr_reclaimed_bytes = before - after, gr_published_snapshots = su_published su,
            gr_retained_snapshots = su_retained su,
            gr_thinned_snapshots = su_published su - su_retained su\<rparr>) in
     if dry_run then Inr (report projected, s1, ws')
     else rbind (compact L s1 m pack) (\<lambda>(after, s2). Inr (report after, s2, ws')))))"

end
