(* ===== verification/Collector_Marks.thy ===== *)
theory Collector_Marks
  imports Collector Retention_Theorems
begin

text \<open>
  The traversal as a search for the least closed marking: masks and what references ask of them
  (locale \<open>mark_edges\<close>), what enqueueing does to the marks, and the invariant of the loop.
\<close>

section \<open>Masks\<close>

abbreviation le_mask :: "mask \<Rightarrow> mask \<Rightarrow> bool" where
  "le_mask a b \<equiv> a OR b = b"

lemma le_mask_iff: "le_mask a b \<longleftrightarrow> (\<forall>n. bit a n \<longrightarrow> bit b n)"
proof
  assume eq: "le_mask a b"
  show "\<forall>n. bit a n \<longrightarrow> bit b n" by (subst eq [symmetric]) (simp add: bit_or_iff)
next
  assume "\<forall>n. bit a n \<longrightarrow> bit b n"
  then show "le_mask a b" by (intro bit_eqI) (auto simp: bit_or_iff)
qed

lemma le_mask_trans: "le_mask a b \<Longrightarrow> le_mask b c \<Longrightarrow> le_mask a c"
  by (simp add: le_mask_iff)

lemma le_mask_or [simp]: "le_mask a (a OR b)" "le_mask b (a OR b)"
  by (simp_all add: le_mask_iff bit_or_iff)

lemma or_le_mask [simp]: "le_mask (a OR b) c \<longleftrightarrow> le_mask a c \<and> le_mask b c"
  by (auto simp: le_mask_iff bit_or_iff)

text \<open>A requirement \<open>Some k\<close> is met by a marked object whose mask has the bits of \<open>k\<close>.\<close>

fun below :: "mask option \<Rightarrow> mask option \<Rightarrow> bool" where
  "below None b \<longleftrightarrow> True"
| "below (Some k) b \<longleftrightarrow> (\<exists>k'. b = Some k' \<and> le_mask k k')"

lemma below_refl [simp]: "below a a"
  by (cases a) auto

lemma below_trans: "below a b \<Longrightarrow> below b c \<Longrightarrow> below a c"
  by (cases a; cases b) (auto intro: le_mask_trans)

type_synonym mask_map = "object_id \<rightharpoonup> mask"

abbreviation below_map :: "mask_map \<Rightarrow> mask_map \<Rightarrow> bool" where
  "below_map M N \<equiv> (\<forall>i. below (M i) (N i))"

definition closed_under :: "(object_id \<Rightarrow> mask \<Rightarrow> (object_id \<times> mask) set) \<Rightarrow> mask_map \<Rightarrow> bool" where
  "closed_under edges M \<longleftrightarrow> (\<forall>i k. M i = Some k \<longrightarrow> (\<forall>(j, l)\<in>edges i k. below (Some l) (M j)))"

text \<open>What marking needs of the references: a larger mask asks for at least as much.\<close>

locale mark_edges =
  fixes edges :: "object_id \<Rightarrow> mask \<Rightarrow> (object_id \<times> mask) set"
  assumes edges_mono: "le_mask k k' \<Longrightarrow> (j, l) \<in> edges i k \<Longrightarrow> \<exists>l'. le_mask l l' \<and> (j, l') \<in> edges i k'"
begin

lemma closed_below:
  assumes "closed_under edges M" and "below (Some k) (M i)" and "(j, l) \<in> edges i k"
  shows "below (Some l) (M j)"
proof -
  from assms(2) obtain k' where k': "M i = Some k'" "le_mask k k'" by auto
  with edges_mono [OF k'(2) assms(3)] obtain l' where "le_mask l l'" "(j, l') \<in> edges i k'" by blast
  moreover have "below (Some l') (M j)" using assms(1) k'(1) \<open>(j, l') \<in> edges i k'\<close>
    unfolding closed_under_def by blast
  ultimately show ?thesis using below_trans [of "Some l" "Some l'"] by simp
qed

end

section \<open>References\<close>

lemma blob_mask_mono: "le_mask k k' \<Longrightarrow> le_mask (blob_mask k c) (blob_mask k' c)"
  by (auto simp: blob_mask_def mask_and_class_bit le_mask_iff)

lemma bytes_bit_mono: "le_mask k k' \<Longrightarrow> k AND BLOB_BYTES_BIT \<noteq> 0 \<Longrightarrow> k' AND BLOB_BYTES_BIT \<noteq> 0"
  by (metis (no_types) and.commute and.right_idem bit.conj_disj_distrib2 or_eq_0_iff)

lemma entry_references_mono:
  assumes "le_mask k k'" and "(j, kd, l) \<in> set (entry_references k e)"
  shows "\<exists>l'. le_mask l l' \<and> (j, kd, l') \<in> set (entry_references k' e)"
  using assms blob_mask_mono [OF assms(1), of "te_class e"]
  by (auto simp: entry_references_def split: option.splits entry_kind.splits)

lemma references_mono:
  assumes "le_mask k k'" and "references L kind bs k = Inr refs" and "(j, kd, l) \<in> set refs"
  shows "\<exists>refs' l'. references L kind bs k' = Inr refs' \<and> le_mask l l' \<and> (j, kd, l') \<in> set refs'"
proof (cases kind)
  case Snapshot
  with assms blob_mask_mono [OF assms(1)] show ?thesis by fastforce
next
  case Tree
  with assms entry_references_mono [OF assms(1)] show ?thesis by fastforce
next
  case Blob
  with assms bytes_bit_mono [OF assms(1)] show ?thesis by (fastforce split: if_splits)
qed (use assms in auto)

lemma references_total:
  "references L kind bs k = Inr refs \<Longrightarrow> \<exists>refs'. references L kind bs k' = Inr refs'"
  by (cases kind) auto

definition edges :: "lib \<Rightarrow> pack_store \<Rightarrow> object_id \<Rightarrow> mask \<Rightarrow> (object_id \<times> mask) set" where
  "edges L s i k = {(j, l). \<exists>kind bs refs kd. object_kind_of s i = Inr kind \<and> read_located L s i kind = Inr bs
     \<and> references L kind bs k = Inr refs \<and> (j, kd, l) \<in> set refs}"

interpretation st: mark_edges "edges L s" for L s
proof
  fix k k' j l i assume "le_mask k k'" "(j, l) \<in> edges L s i k"
  then show "\<exists>l'. le_mask l l' \<and> (j, l') \<in> edges L s i k'"
    using references_mono [of k k' L] unfolding edges_def by blast
qed

section \<open>Enqueueing\<close>

definition masks_of :: "marks \<Rightarrow> mask_map" where
  "masks_of m i = map_option mk_mask (bt_get m i)"

lemma masks_enqueue:
  "masks_of (fst (enqueue m i kd k)) = (masks_of m)(i \<mapsto> (case masks_of m i of None \<Rightarrow> k | Some k0 \<Rightarrow> k0 OR k))"
  by (auto simp: masks_of_def enqueue_def bt_get_insert fun_eq_iff split: option.splits)

lemma masks_set_processed [simp]: "masks_of (set_processed m i) = masks_of m"
  by (auto simp: masks_of_def set_processed_def bt_get_insert fun_eq_iff split: option.splits)

lemma enqueue_all_Cons [simp]: "enqueue_all m ((i, kd, k) # refs) = enqueue_all (fst (enqueue m i kd k)) refs"
  by (simp add: enqueue_all_def)

lemma enqueue_all_Nil [simp]: "enqueue_all m [] = m"
  by (simp add: enqueue_all_def)

lemma enqueue_grows: "below (masks_of m j) (masks_of (fst (enqueue m i kd k)) j)"
  by (cases "masks_of m j") (auto simp: masks_enqueue)

lemma enqueue_meets: "below (Some k) (masks_of (fst (enqueue m i kd k)) i)"
  by (auto simp: masks_enqueue split: option.splits)

lemma enqueue_within:
  "below_map (masks_of m) M \<Longrightarrow> below (Some k) (M i) \<Longrightarrow> below_map (masks_of (fst (enqueue m i kd k))) M"
  by (auto simp: masks_enqueue split: option.splits) (metis below.simps(2) option.inject)

lemma enqueue_all_grows: "below (masks_of m j) (masks_of (enqueue_all m refs) j)"
proof (induction refs arbitrary: m)
  case (Cons r refs)
  obtain i kd k where "r = (i, kd, k)" by (metis surj_pair)
  with below_trans [OF enqueue_grows [of m j i kd k] Cons [of "fst (enqueue m i kd k)"]] show ?case by simp
qed simp

lemma enqueue_all_meets: "(j, kd, k) \<in> set refs \<Longrightarrow> below (Some k) (masks_of (enqueue_all m refs) j)"
proof (induction refs arbitrary: m)
  case (Cons r refs)
  obtain i kd' k' where r: "r = (i, kd', k')" by (metis surj_pair)
  show ?case
  proof (cases "(j, kd, k) \<in> set refs")
    case False
    with Cons.prems r have "below (Some k) (masks_of (fst (enqueue m i kd' k')) j)"
      using enqueue_meets by auto
    from below_trans [OF this enqueue_all_grows [of _ _ refs]] r show ?thesis by simp
  qed (use Cons.IH r in simp)
qed simp

lemma enqueue_all_within:
  "below_map (masks_of m) M \<Longrightarrow> \<forall>(j, kd, k)\<in>set refs. below (Some k) (M j) \<Longrightarrow>
     below_map (masks_of (enqueue_all m refs)) M"
proof (induction refs arbitrary: m)
  case (Cons r refs)
  obtain i kd k where r: "r = (i, kd, k)" by (metis surj_pair)
  with Cons.prems have "below_map (masks_of (fst (enqueue m i kd k))) M"
    using enqueue_within [of m M k i kd] by auto
  with Cons r show ?case by simp
qed simp

lemma enqueue_processed:
  "bt_get (fst (enqueue m i kd k)) j = Some row \<Longrightarrow> mk_processed row \<Longrightarrow> bt_get m j = Some row"
  by (auto simp: enqueue_def bt_get_insert split: option.splits if_splits)

lemma enqueue_all_processed:
  "bt_get (enqueue_all m refs) j = Some row \<Longrightarrow> mk_processed row \<Longrightarrow> bt_get m j = Some row"
proof (induction refs arbitrary: m)
  case (Cons r refs)
  obtain i kd k where r: "r = (i, kd, k)" by (metis surj_pair)
  with Cons have "bt_get (fst (enqueue m i kd k)) j = Some row" by simp
  then show ?case using Cons.prems(2) by (rule enqueue_processed)
qed simp

lemma next_mark_row:
  "next_mark m = Some (i, kd, k) \<Longrightarrow> \<exists>row. bt_get m i = Some row \<and> mk_kind row = kd \<and> mk_mask row = k"
  by (auto simp: next_mark_def split: option.splits)

lemma next_mark_None: "next_mark m = None \<Longrightarrow> bt_get m i = Some row \<Longrightarrow> mk_processed row"
proof -
  assume none: "next_mark m = None" and row: "bt_get m i = Some row"
  have "List.find (mark_pending m) (map fst m) = None"
  proof (cases "List.find (mark_pending m) (map fst m)")
    case (Some j)
    then have "mark_pending m j" by (auto simp: find_Some_iff)
    with none Some show ?thesis by (auto simp: next_mark_def mark_pending_def split: option.splits)
  qed simp
  moreover have "i \<in> set (map fst m)" using row by (force dest: map_of_SomeD)
  ultimately have "\<not> mark_pending m i" by (auto simp: find_None_iff)
  with row show ?thesis by (simp add: mark_pending_def)
qed

section \<open>Traversal\<close>

lemma read_bytes_ok:
  assumes "store_ok L s" and "object_kind_of s i = Inr k"
  shows "\<exists>bs. read_located L s i k = Inr bs \<and> read_bytes L s idle i k = (Inr bs, s)"
proof -
  obtain loc where loc: "object_row (ps_objects s) i = Some loc" "loc_kind loc = k"
    using assms(2) by (auto simp: object_kind_of_def)
  then have "row_ok L (ps_packs s) (i, loc)"
    using assms(1) by (auto simp: store_ok_def object_row_def dest: map_of_SomeD)
  then obtain pack where "ps_packs s (loc_pack loc) = Some pack" "loc_offset loc + loc_len loc \<le> length pack"
    "object_id L (loc_kind loc) (take (loc_len loc) (drop (loc_offset loc) pack)) = i"
    by (auto simp: row_ok_def split: option.splits)
  with loc have "read_located L s i k = Inr (take (loc_len loc) (drop (loc_offset loc) pack))"
    by (simp add: read_located_def read_exact_def)
  then show ?thesis by (auto simp: read_bytes_def)
qed

lemma traverse_step:
  assumes "store_ok L s" and "next_mark m = Some (i, kd, k)" and "traverse L s m = Inr r"
  shows "\<exists>bs refs. object_kind_of s i = Inr kd \<and> read_located L s i kd = Inr bs
    \<and> references L kd bs k = Inr refs \<and> traverse L s (set_processed (enqueue_all m refs) i) = Inr r"
proof -
  from assms(2,3) have kind: "object_kind_of s i = Inr kd"
    by (subst (asm) traverse.simps) (auto split: if_splits)
  with read_bytes_ok [OF assms(1) kind, of True] assms(2,3) show ?thesis
    by (subst (asm) traverse.simps) auto
qed

lemma edgesI:
  "object_kind_of s i = Inr kd \<Longrightarrow> read_located L s i kd = Inr bs \<Longrightarrow> references L kd bs k = Inr refs \<Longrightarrow>
     edges L s i k = {(j, l). \<exists>kd'. (j, kd', l) \<in> set refs}"
  by (auto simp: edges_def)

definition self_free :: "lib \<Rightarrow> pack_store \<Rightarrow> bool" where
  "self_free L s \<longleftrightarrow> (\<forall>i k l. (i, l) \<notin> edges L s i k)"

definition settled_row :: "lib \<Rightarrow> pack_store \<Rightarrow> marks \<Rightarrow> object_id \<Rightarrow> mark \<Rightarrow> bool" where
  "settled_row L s m i row \<longleftrightarrow> object_kind_of s i = Inr (mk_kind row)
     \<and> (\<forall>(j, l)\<in>edges L s i (mk_mask row). below (Some l) (masks_of m j))"

definition traversing :: "lib \<Rightarrow> pack_store \<Rightarrow> marks \<Rightarrow> bool" where
  "traversing L s m \<longleftrightarrow> (\<forall>i row. bt_get m i = Some row \<and> mk_processed row \<longrightarrow> settled_row L s m i row)"

lemma settled_row_grows:
  assumes "settled_row L s m i row" and "below_map (masks_of m) (masks_of m')"
  shows "settled_row L s m' i row"
proof -
  have "below (Some l) (masks_of m' j)" if "(j, l) \<in> edges L s i (mk_mask row)" for j l
  proof (rule below_trans)
    show "below (Some l) (masks_of m j)" using assms(1) that unfolding settled_row_def by blast
  qed (use assms(2) in blast)
  with assms(1) show ?thesis unfolding settled_row_def by blast
qed

lemma traversing_step:
  assumes inv: "traversing L s m" and free: "self_free L s" and nxt: "next_mark m = Some (i, kd, k)"
    and kind: "object_kind_of s i = Inr kd" and e: "edges L s i k = {(j, l). \<exists>kd'. (j, kd', l) \<in> set refs}"
  shows "traversing L s (set_processed (enqueue_all m refs) i)"
  unfolding traversing_def
proof (intro allI impI)
  let ?m1 = "enqueue_all m refs"
  let ?m = "set_processed ?m1 i"
  fix j row assume row: "bt_get ?m j = Some row \<and> mk_processed row"
  obtain r0 where r0: "bt_get m i = Some r0" "mk_kind r0 = kd" "mk_mask r0 = k" using next_mark_row [OF nxt] by blast
  have grow: "below_map (masks_of m) (masks_of ?m)" using enqueue_all_grows by simp
  have same: "bt_get ?m1 i = Some r0"
  proof -
    have "(i, kd', l) \<notin> set refs" for kd' l using free e unfolding self_free_def by blast
    then have "i \<notin> fst ` set refs" by auto
    then show ?thesis using r0(1)
    proof (induction refs arbitrary: m)
      case (Cons r refs)
      obtain a b c where "r = (a, b, c)" by (metis surj_pair)
      moreover have "bt_get (fst (enqueue m a b c)) i = bt_get m i" if "a \<noteq> i"
        using that by (auto simp: enqueue_def bt_get_insert split: option.splits)
      ultimately show ?case using Cons by auto
    qed simp
  qed
  show "settled_row L s ?m j row"
  proof (cases "j = i")
    case True
    then have "row = r0\<lparr>mk_processed := True\<rparr>" using row same by (simp add: set_processed_def bt_get_insert)
    moreover have "below (Some l) (masks_of ?m j')" if "(j', l) \<in> edges L s i k" for j' l
      using that e enqueue_all_meets [of j' _ l refs m] by auto
    ultimately show ?thesis using True kind r0 unfolding settled_row_def by auto
  next
    case False
    then have "bt_get ?m1 j = Some row"
      using row by (auto simp: set_processed_def bt_get_insert split: option.splits)
    then have "bt_get m j = Some row" using enqueue_all_processed row by blast
    with inv row have "settled_row L s m j row" unfolding traversing_def by blast
    then show ?thesis by (rule settled_row_grows [OF _ grow])
  qed
qed

lemma traverse_least:
  assumes "store_ok L s" and "self_free L s" and "traversing L s m" and "traverse L s m = Inr (s', m')"
  shows "s' = s \<and> below_map (masks_of m) (masks_of m')
    \<and> (\<forall>i row. bt_get m' i = Some row \<longrightarrow> settled_row L s m' i row)
    \<and> (\<forall>M. below_map (masks_of m) M \<and> closed_under (edges L s) M \<longrightarrow> below_map (masks_of m') M)"
  using assms(3,4)
proof (induction "weight s m" arbitrary: m rule: less_induct)
  case less
  show ?case
  proof (cases "next_mark m")
    case None
    then have "s' = s" "m' = m" using less.prems(2) by (simp_all add: traverse.simps)
    moreover have "settled_row L s m i row" if "bt_get m i = Some row" for i row
      using less.prems(1) next_mark_None [OF None that] that unfolding traversing_def by blast
    ultimately show ?thesis by simp
  next
    case (Some t)
    then obtain i kd k where nxt: "next_mark m = Some (i, kd, k)" by (cases t) auto
    from traverse_step [OF assms(1) nxt less.prems(2)] obtain bs refs where
      kind: "object_kind_of s i = Inr kd" and refs: "read_located L s i kd = Inr bs" "references L kd bs k = Inr refs"
      and rest: "traverse L s (set_processed (enqueue_all m refs) i) = Inr (s', m')" by blast
    note e = edgesI [OF kind refs]
    let ?m = "set_processed (enqueue_all m refs) i"
    note IH = less.hyps [OF step_weight [OF nxt kind] traversing_step [OF less.prems(1) assms(2) nxt kind e] rest]
    have grow: "below_map (masks_of m) (masks_of ?m)" using enqueue_all_grows by simp
    have "below_map (masks_of ?m) M" if M: "below_map (masks_of m) M" "closed_under (edges L s) M" for M
    proof -
      have "masks_of m i = Some k" using next_mark_row [OF nxt] by (auto simp: masks_of_def)
      then have "below (Some k) (M i)" using M(1) by (metis (no_types))
      then have "\<forall>(j, kd, l)\<in>set refs. below (Some l) (M j)"
        using st.closed_below [OF M(2)] e by blast
      with enqueue_all_within [OF M(1)] show ?thesis by simp
    qed
    moreover have "below_map (masks_of m) (masks_of m')" using IH grow below_trans by blast
    ultimately show ?thesis using IH by blast
  qed
qed

text \<open>A set of objects that are all there, decode, and refer only to objects of the set by their kind.\<close>

definition intact :: "lib \<Rightarrow> pack_store \<Rightarrow> object_id set \<Rightarrow> bool" where
  "intact L s D \<longleftrightarrow> (\<forall>i\<in>D. \<exists>kd bs. object_kind_of s i = Inr kd \<and> read_located L s i kd = Inr bs
     \<and> (\<forall>k. \<exists>refs. references L kd bs k = Inr refs
          \<and> (\<forall>(j, kd', l)\<in>set refs. j \<in> D \<and> object_kind_of s j = Inr kd')))"

definition marks_in :: "pack_store \<Rightarrow> object_id set \<Rightarrow> marks \<Rightarrow> bool" where
  "marks_in s D m \<longleftrightarrow> (\<forall>i row. bt_get m i = Some row \<longrightarrow> i \<in> D \<and> object_kind_of s i = Inr (mk_kind row))"

lemma marks_in_enqueue:
  "marks_in s D m \<Longrightarrow> j \<in> D \<Longrightarrow> object_kind_of s j = Inr kd \<Longrightarrow> marks_in s D (fst (enqueue m j kd k))"
  by (auto simp: marks_in_def enqueue_def bt_get_insert split: option.splits)

lemma marks_in_enqueue_all:
  "marks_in s D m \<Longrightarrow> \<forall>(j, kd, l)\<in>set refs. j \<in> D \<and> object_kind_of s j = Inr kd \<Longrightarrow>
     marks_in s D (enqueue_all m refs)"
proof (induction refs arbitrary: m)
  case (Cons r refs)
  obtain j kd k where r: "r = (j, kd, k)" by (metis surj_pair)
  with Cons.prems have "marks_in s D (fst (enqueue m j kd k))" by (intro marks_in_enqueue) auto
  with Cons r show ?case by simp
qed simp

lemma marks_in_processed: "marks_in s D m \<Longrightarrow> marks_in s D (set_processed m i)"
  by (auto simp: marks_in_def set_processed_def bt_get_insert split: option.splits)

lemma traverse_succeeds:
  assumes "store_ok L s" and "intact L s D" and "marks_in s D m"
  shows "\<exists>m'. traverse L s m = Inr (s, m') \<and> marks_in s D m'"
  using assms(3)
proof (induction "weight s m" arbitrary: m rule: less_induct)
  case less
  show ?case
  proof (cases "next_mark m")
    case None
    with less.prems show ?thesis by (simp add: traverse.simps)
  next
    case (Some t)
    then obtain i kd k where nxt: "next_mark m = Some (i, kd, k)" by (cases t) auto
    from next_mark_row [OF nxt] less.prems have D: "i \<in> D" and kind: "object_kind_of s i = Inr kd"
      unfolding marks_in_def by blast+
    from assms(2) D obtain kd0 bs where "object_kind_of s i = Inr kd0" and rd0: "read_located L s i kd0 = Inr bs"
      and all: "\<forall>k. \<exists>refs. references L kd0 bs k = Inr refs
          \<and> (\<forall>(j, kd', l)\<in>set refs. j \<in> D \<and> object_kind_of s j = Inr kd')"
      unfolding intact_def by blast
    with kind have "kd0 = kd" by simp
    with rd0 all obtain refs where rd: "read_located L s i kd = Inr bs" and
      refs: "references L kd bs k = Inr refs" "\<forall>(j, kd', l)\<in>set refs. j \<in> D \<and> object_kind_of s j = Inr kd'"
      by blast
    have "read_bytes L s True i kd = (Inr bs, s)" using rd by (simp add: read_bytes_def)
    with nxt kind refs(1) have "traverse L s m = traverse L s (set_processed (enqueue_all m refs) i)"
      by (subst traverse.simps) simp
    moreover have "marks_in s D (set_processed (enqueue_all m refs) i)"
      by (rule marks_in_processed [OF marks_in_enqueue_all [OF less.prems refs(2)]])
    ultimately show ?thesis using less.hyps [OF step_weight [OF nxt kind]] by simp
  qed
qed

end
