(* ===== verification/Collector_Compaction.thy ===== *)
theory Collector_Compaction
  imports Collector_Marks
begin

text \<open>
  Compaction in batches is compaction of all rows in order, and what it writes is a pack of whole
  records whose rows, checkpoint and contents agree with the marked objects.
\<close>

section \<open>Batches\<close>

definition rows_after :: "marks \<Rightarrow> object_id option \<Rightarrow> (object_id \<times> object_kind) list" where
  "rows_after m after = map (\<lambda>(i, row). (i, mk_kind row))
     (filter (\<lambda>(i, row). case after of None \<Rightarrow> True | Some a \<Rightarrow> a < i) m)"

lemma filter_after_take:
  fixes xs :: "('k::linorder \<times> 'v) list"
  assumes "sorted_wrt (<) (map fst xs)" and "take n xs \<noteq> []"
  shows "filter (\<lambda>x. fst (last (take n xs)) < fst x) xs = drop n xs"
proof -
  have s: "sorted_wrt (<) (map fst (take n xs) @ map fst (drop n xs))"
    using assms(1) by (metis append_take_drop_id map_append)
  have "filter (\<lambda>x. fst (last (take n xs)) < fst x) (take n xs) = []"
  proof (rule filter_False, rule ballI)
    fix x assume "x \<in> set (take n xs)"
    moreover have "take n xs = butlast (take n xs) @ [last (take n xs)]" using assms(2) by simp
    ultimately have "x = last (take n xs) \<or> x \<in> set (butlast (take n xs))" by (metis UnE list.set(1,2) set_append singletonD)
    moreover have "sorted_wrt (<) (map fst (butlast (take n xs)) @ [fst (last (take n xs))])"
      using s \<open>take n xs = _\<close> by (metis list.simps(8,9) map_append sorted_wrt_append)
    ultimately show "\<not> fst (last (take n xs)) < fst x" by (auto simp: sorted_wrt_append)
  qed
  moreover have "filter (\<lambda>x. fst (last (take n xs)) < fst x) (drop n xs) = drop n xs"
    using s last_in_set [OF assms(2)] by (intro filter_True) (auto simp: sorted_wrt_append)
  ultimately show ?thesis by (metis append_Nil append_take_drop_id filter_append)
qed

lemma mark_batch_rows: "mark_batch m after = take COMPACTION_BATCH (rows_after m after)"
  by (simp add: mark_batch_def rows_after_def)

lemma rows_after_split:
  assumes "bt_wf m" and "mark_batch m after \<noteq> []"
  shows "rows_after m after = mark_batch m after @ rows_after m (Some (fst (last (mark_batch m after))))"
proof -
  let ?P = "\<lambda>(i, row). case after of None \<Rightarrow> True | Some a \<Rightarrow> a < i"
  let ?xs = "rows_after m after" and ?b = "mark_batch m after"
  have fsts: "map fst (map (\<lambda>(i, row). (i, mk_kind row)) ys) = map fst ys" for ys :: marks
    by (simp add: case_prod_unfold)
  have "sorted_wrt (<) (map fst (filter ?P m))"
    using assms(1) by (simp add: bt_wf_def sorted_wrt_map sorted_wrt_filter)
  then have "sorted_wrt (<) (map fst ?xs)" by (simp add: rows_after_def fsts del: map_map)
  from filter_after_take [OF this, of COMPACTION_BATCH] assms(2)
  have tail: "filter (\<lambda>x. fst (last ?b) < fst x) ?xs = drop COMPACTION_BATCH ?xs" by (simp add: mark_batch_rows)
  have "fst (last ?b) \<in> fst ` set ?b" using assms(2) by simp
  then have a: "\<forall>a. after = Some a \<longrightarrow> a < fst (last ?b)"
    by (auto simp: mark_batch_rows rows_after_def dest!: in_set_takeD)
  have "filter (\<lambda>x. z < fst x) ?xs = rows_after m (Some z)" if "\<forall>a. after = Some a \<longrightarrow> a < z" for z
    unfolding rows_after_def filter_map filter_filter
    using that by (auto simp: comp_def case_prod_unfold intro!: arg_cong [where f = "map _"] filter_cong split: option.splits)
  from this [OF a] tail show ?thesis by (metis append_take_drop_id mark_batch_rows)
qed

lemma rows_after_None: "mark_batch m after = [] \<longleftrightarrow> rows_after m after = []"
  by (simp add: mark_batch_rows COMPACTION_BATCH_def)

definition last_row :: "object_id option \<Rightarrow> (object_id \<times> object_kind) list \<Rightarrow> object_id option" where
  "last_row after rows = (if rows = [] then after else Some (fst (last rows)))"

lemma compact_loop_rows:
  assumes "bt_wf m"
  shows "compact_loop L m after c
    = rbind (rfold (compact_object L) c (rows_after m after)) (\<lambda>c'. Inr (c', last_row after (rows_after m after)))"
  using assms
proof (induction L m after c rule: compact_loop.induct)
  case (1 L m after c)
  let ?b = "mark_batch m after"
  show ?case
  proof (cases "?b = []")
    case True
    then show ?thesis using rows_after_None [of m after] by (subst compact_loop.simps) (simp add: last_row_def)
  next
    case False
    note split = rows_after_split [OF "1.prems" False]
    let ?a = "Some (fst (last ?b))"
    have last: "last_row after (rows_after m after) = last_row ?a (rows_after m ?a)"
      unfolding split using False by (simp add: last_row_def)
    have "compact_loop L m after c = rbind (rfold (compact_object L) c ?b) (\<lambda>c'. compact_loop L m ?a c')"
      using False by (subst compact_loop.simps) (simp add: Let_def)
    also have "\<dots> = rbind (rfold (compact_object L) c ?b) (\<lambda>c'. rbind (rfold (compact_object L) c' (rows_after m ?a))
        (\<lambda>c''. Inr (c'', last_row ?a (rows_after m ?a))))"
      using "1.IH" [OF refl False _ "1.prems"] by (intro rbind_cong) auto
    also have "\<dots> = rbind (rfold (compact_object L) c (?b @ rows_after m ?a))
        (\<lambda>c''. Inr (c'', last_row after (rows_after m after)))"
      unfolding last rfold_append rbind_assoc ..
    finally show ?thesis unfolding split [symmetric] .
  qed
qed

section \<open>Compaction\<close>

definition object_bytes :: "pack_store \<Rightarrow> object_id \<Rightarrow> bytes" where
  "object_bytes s i = (case abs_store s i of None \<Rightarrow> [] | Some (kd, bs) \<Rightarrow> bs)"

definition recs_of :: "pack_store \<Rightarrow> (object_id \<times> object_kind) list \<Rightarrow> pack_record list" where
  "recs_of s rows = map (\<lambda>(i, kd). (kd, object_bytes s i)) rows"

lemma read_located_abs:
  assumes "store_ok L s" and "object_kind_of s i = Inr kd"
  shows "abs_store s i = Some (kd, object_bytes s i) \<and> object_id L kd (object_bytes s i) = i
    \<and> read_bytes L s idle i kd = (Inr (object_bytes s i), s)"
proof -
  obtain loc where loc: "object_row (ps_objects s) i = Some loc" "loc_kind loc = kd"
    using assms(2) by (auto simp: object_kind_of_def)
  obtain bs where bs: "read_located L s i kd = Inr bs" "read_bytes L s idle i kd = (Inr bs, s)"
    using read_bytes_ok [OF assms] by blast
  with loc have "abs_store s i = Some (kd, bs) \<and> object_id L kd bs = i"
    by (auto simp: read_located_def abs_store_def read_exact_def split: if_splits)
  with bs(2) show ?thesis by (simp add: object_bytes_def)
qed

lemma recs_of_simps [simp]:
  "recs_of s [] = []" "recs_of s ((i, kd) # rows) = (kd, object_bytes s i) # recs_of s rows"
  by (simp_all add: recs_of_def)

lemma compact_rows:
  assumes "digest_length L" and "store_ok L s" and "\<forall>(i, kd)\<in>set rows. object_kind_of s i = Inr kd"
    and "co_store c = s"
  shows "rfold (compact_object L) c rows = Inr \<lparr>co_store = s, co_output = co_output c @ pack_of L (recs_of s rows),
      co_locations = co_locations c @ map (\<lambda>(i, loc). (i, loc_kind loc, loc_offset loc, loc_len loc))
         (rows_from L pack (length (co_output c)) (recs_of s rows)),
      co_count = co_count c + length rows,
      co_last_start = (if rows = [] then co_last_start c
         else length (co_output c) + sum_list (map rec_len (butlast (recs_of s rows))))\<rparr>"
  using assms(3,4)
proof (induction rows arbitrary: c)
  case Nil
  then show ?case by (cases c) simp
next
  case (Cons r rows)
  obtain i kd where r: "r = (i, kd)" by (cases r)
  have kind: "object_kind_of s i = Inr kd" using Cons.prems(1) r by simp
  let ?b = "object_bytes s i"
  note rd = read_located_abs [OF assms(2) kind, of True]
  let ?c = "\<lparr>co_store = s, co_output = co_output c @ encode_record L kd ?b,
      co_locations = co_locations c @ [(i, kd, length (co_output c) + HEADER_LEN, length ?b)],
      co_count = co_count c + 1, co_last_start = length (co_output c)\<rparr>"
  have w: "write_record L kd i ?b = encode_record L kd ?b"
    using rd by (simp add: write_record_def encode_record_def)
  have step: "compact_object L c r = Inr ?c"
    using rd Cons.prems(2) length_encode_record [OF assms(1), of kd ?b]
    by (simp add: compact_object_def r w Let_def)
  have id: "rec_id L (kd, ?b) = i" using rd by (simp add: rec_id_def)
  have "rfold (compact_object L) ?c rows = Inr \<lparr>co_store = s, co_output = co_output ?c @ pack_of L (recs_of s rows),
      co_locations = co_locations ?c @ map (\<lambda>(i, loc). (i, loc_kind loc, loc_offset loc, loc_len loc))
         (rows_from L pack (length (co_output ?c)) (recs_of s rows)),
      co_count = co_count ?c + length rows,
      co_last_start = (if rows = [] then co_last_start ?c
         else length (co_output ?c) + sum_list (map rec_len (butlast (recs_of s rows))))\<rparr>"
    by (rule Cons.IH) (use Cons.prems in auto)
  moreover have "length (encode_record L kd ?b) = rec_len (kd, ?b)"
    using length_encode_record [OF assms(1)] by (simp add: rec_len_def)
  moreover have "recs_of s rows = [] \<longleftrightarrow> rows = []" by (simp add: recs_of_def)
  ultimately show ?case using step r id by simp
qed

lemma rows_of_locations:
  "map (\<lambda>(i, kind, offset, len). (i, \<lparr>loc_kind = kind, loc_pack = pack, loc_offset = offset, loc_len = len\<rparr>))
     (map (\<lambda>(i, loc). (i, loc_kind loc, loc_offset loc, loc_len loc)) (rows_from L pack off recs))
   = rows_from L pack off recs"
  by (induction recs arbitrary: off) auto

lemma rows_from_get:
  assumes "digest_length L" and "distinct (map (rec_id L) recs)" and "r \<in> set recs"
  shows "\<exists>loc. object_row (rows_from L pack 0 recs) (rec_id L r) = Some loc \<and> loc_kind loc = fst r
     \<and> loc_pack loc = pack \<and> loc_len loc = length (snd r)
     \<and> take (loc_len loc) (drop (loc_offset loc) (pack_of L recs)) = snd r
     \<and> loc_offset loc + loc_len loc \<le> length (pack_of L recs)"
proof -
  have d: "distinct (map fst (rows_from L pack 0 recs))" using assms(2) by simp
  have "rec_id L r \<in> fst ` set (rows_from L pack 0 recs)"
    using assms(3) by (metis fst_rows_from image_eqI set_map)
  then obtain loc where mem: "(rec_id L r, loc) \<in> set (rows_from L pack 0 recs)" by auto
  then have row: "object_row (rows_from L pack 0 recs) (rec_id L r) = Some loc"
    using d by (simp add: object_row_def)
  from rows_from_slice [OF assms(1), of _ _ pack "[]" recs "[]"] mem obtain r' where r': "r' \<in> set recs"
    "rec_id L r = rec_id L r'" "loc_kind loc = fst r'" "loc_len loc = length (snd r')"
    "read_exact (loc_len loc) (drop (loc_offset loc) (pack_of L recs))
       = Some (snd r', drop (loc_offset loc + loc_len loc) (pack_of L recs))" by fastforce
  then have "r' = r" using assms(2,3) by (metis distinct_map inj_onD)
  moreover have "loc_pack loc = pack" "row_end loc \<le> sum_list (map rec_len recs)"
    using rows_from_bounds [OF mem] by auto
  ultimately show ?thesis
    using r' row length_pack_of [OF assms(1), of recs]
    by (auto simp: read_exact_Some_iff row_end_def)
qed

lemma high_water_rows:
  "pack_high_water (rows_from L pack off recs) pack
     = (if recs = [] then 0 else off + sum_list (map rec_len recs))"
proof (induction recs arbitrary: off)
  case (Cons r recs)
  have "pack_high_water (rows_from L pack off (r # recs)) pack
      = max (off + rec_len r) (pack_high_water (rows_from L pack (off + rec_len r) recs) pack)"
    by (simp add: pack_high_water_def row_end_def rec_len_def)
  with Cons show ?case by simp
qed (simp add: pack_high_water_def)

definition compacted :: "lib \<Rightarrow> string \<Rightarrow> pack_record list \<Rightarrow> pack_store \<Rightarrow> bool" where
  "compacted L pack recs s \<longleftrightarrow>
     ps_objects s = rows_from L pack 0 recs \<and> ps_packs s = [pack \<mapsto> pack_of L recs] \<and> ps_active s = pack
     \<and> ps_known_end s = length (pack_of L recs)
     \<and> ps_checkpoints s = [pack \<mapsto> \<lparr>ck_verified_len = length (pack_of L recs), ck_object_count = length recs,
          ck_last_object = (if recs = [] then None else Some (rec_id L (last recs))),
          ck_last_record_start = (if recs = [] then 0 else sum_list (map rec_len (butlast recs)))\<rparr>]
     \<and> (case durable_len s of None \<Rightarrow> True | Some len \<Rightarrow> len = length (pack_of L recs))"

lemma header_of_last:
  assumes "digest_length L" and "length b \<le> MAX_OBJECT_LEN"
    and "ck_last_record_start ck = length pre" and "ck_verified_len ck = length (pre @ encode_record L k b)"
    and "loc_kind loc = k" and "loc_len loc = length b"
  shows "header_matches (pre @ encode_record L k b) ck loc (object_id L k b)"
proof -
  let ?h = "OBJECT_MAGIC @ [OBJECT_VERSION, char_of (kind_u8 k)] @ le_bytes 8 (length b) @ object_id L k b @ blake3 L b"
  note len = digest_simps [OF assms(1)]
  have h: "length ?h = HEADER_LEN" by (simp add: len HEADER_LEN_def)
  have rec: "encode_record L k b = ?h @ (b @ OBJECT_END)" by (simp add: encode_record_def)
  have "take n (h @ t) = h" if "length h = n" for n and h t :: bytes using that by simp
  from this [OF h] have "take HEADER_LEN (drop (length pre) (pre @ encode_record L k b)) = ?h"
    unfolding rec by (metis append_eq_conv_conj)
  moreover have "?h ! 4 = OBJECT_VERSION" "?h ! 5 = char_of (kind_u8 k)" "take 4 ?h = OBJECT_MAGIC"
    "take 8 (drop 6 ?h) = le_bytes 8 (length b)" "take 32 (drop 14 ?h) = object_id L k b"
    by (simp_all add: OBJECT_MAGIC_def len)
  moreover have "le_val (le_bytes 8 (length b)) = length b"
    by (rule le_val_le_bytes [OF MAX_OBJECT_LEN_fits [OF assms(2)]])
  moreover have "take 4 (drop (length (pre @ encode_record L k b) - 4) (pre @ encode_record L k b)) = OBJECT_END"
  proof -
    have "pre @ encode_record L k b = (pre @ ?h @ b) @ OBJECT_END" by (simp add: rec)
    moreover have "length ((pre @ ?h @ b) @ OBJECT_END) - 4 = length (pre @ ?h @ b)" by simp
    ultimately show ?thesis by (metis append_eq_conv_conj length_append magic_lengths(2) take_all_iff order_refl)
  qed
  ultimately show ?thesis
    unfolding header_matches_def Let_def assms(3,4) using assms(5,6) h by simp
qed

lemma compacted_settled:
  assumes dl: "digest_length L" and c: "compacted L pack recs s" and d: "recs_ok L recs"
  shows "pack_is_settled s"
proof -
  let ?p = "pack_of L recs"
  define ck where "ck = \<lparr>ck_verified_len = length ?p, ck_object_count = length recs,
          ck_last_object = (if recs = [] then None else Some (rec_id L (last recs))),
          ck_last_record_start = (if recs = [] then 0 else sum_list (map rec_len (butlast recs)))\<rparr>"
  have s: "ps_objects s = rows_from L pack 0 recs" "ps_packs s = [pack \<mapsto> ?p]" "ps_active s = pack"
    "ps_checkpoints s = [pack \<mapsto> ck]" "case durable_len s of None \<Rightarrow> True | Some len \<Rightarrow> len = length ?p"
    using c by (auto simp: compacted_def ck_def)
  have hw: "\<not> pack_high_water (rows_from L pack 0 recs) pack > length ?p"
    by (simp add: high_water_rows length_pack_of [OF dl])
  have "validate_checkpoint s ?p ck"
  proof (cases "recs = []")
    case True
    then show ?thesis using hw s by (simp add: validate_checkpoint_def ck_def)
  next
    case False
    then obtain init r where r: "recs = init @ [r]" by (metis append_butlast_last_id)
    let ?loc = "\<lparr>loc_kind = fst r, loc_pack = pack, loc_offset = sum_list (map rec_len init) + HEADER_LEN,
        loc_len = length (snd r)\<rparr>"
    have "(rec_id L r, ?loc) \<in> set (rows_from L pack 0 recs)" by (simp add: r rows_from_append)
    moreover have "distinct (map fst (rows_from L pack 0 recs))" using d by (simp add: recs_ok_def)
    ultimately have row: "object_row (ps_objects s) (rec_id L r) = Some ?loc"
      by (simp add: s object_row_def)
    have "header_matches (pack_of L init @ encode_record L (fst r) (snd r)) ck ?loc (object_id L (fst r) (snd r))"
      by (rule header_of_last [OF dl])
        (use d in \<open>simp_all add: r ck_def recs_ok_def length_pack_of [OF dl]\<close>)
    then have "header_matches ?p ck ?loc (rec_id L r)" by (simp add: r rec_id_def)
    then show ?thesis
      using hw row s length_pack_of [OF dl, of recs]
      by (simp add: validate_checkpoint_def ck_def r rec_len_def)
  qed
  then show ?thesis using s by (auto simp: pack_is_settled_def ck_def split: option.splits)
qed

lemma compacted_store:
  assumes dl: "digest_length L" and c: "compacted L pack recs s" and d: "distinct (map (rec_id L) recs)"
  shows "store_ok L s" and "r \<in> set recs \<Longrightarrow> abs_store s (rec_id L r) = Some r"
    and "i \<notin> rec_id L ` set recs \<Longrightarrow> abs_store s i = None"
proof -
  have s: "ps_objects s = rows_from L pack 0 recs" "ps_packs s = [pack \<mapsto> pack_of L recs]" "ps_active s = pack"
    "ps_known_end s = length (pack_of L recs)" using c by (auto simp: compacted_def)
  have "row_ok L (ps_packs s) row" if "row \<in> set (ps_objects s)" for row
  proof -
    obtain j loc where row: "row = (j, loc)" by (cases row)
    then have mem: "(j, loc) \<in> set (rows_from L pack 0 recs)" using that s by simp
    then have "j \<in> fst ` set (rows_from L pack 0 recs)" by (rule rev_image_eqI) simp
    then have "j \<in> set (map (rec_id L) recs)" by (metis fst_rows_from list.set_map)
    then obtain r where r: "r \<in> set recs" "j = rec_id L r" by auto
    have "object_row (rows_from L pack 0 recs) j = Some loc" using mem d by (simp add: object_row_def)
    with rows_from_get [OF dl d r(1), of pack] r(2) show ?thesis
      by (auto simp: row row_ok_def s rec_id_def)
  qed
  then show "store_ok L s" using s by (simp add: store_ok_def file_len_def)
  show "r \<in> set recs \<Longrightarrow> abs_store s (rec_id L r) = Some r"
    using rows_from_get [OF dl d, of r pack] by (auto simp: abs_store_def s)
  show "i \<notin> rec_id L ` set recs \<Longrightarrow> abs_store s i = None"
  proof -
    assume "i \<notin> rec_id L ` set recs"
    then have "i \<notin> fst ` set (rows_from L pack 0 recs)" by (metis fst_rows_from list.set_map)
    then have "bt_get (rows_from L pack 0 recs) i = None" by (simp add: map_of_eq_None_iff)
    then show ?thesis by (simp add: abs_store_def s object_row_def)
  qed
qed

definition marks_exist :: "pack_store \<Rightarrow> marks \<Rightarrow> bool" where
  "marks_exist s m \<longleftrightarrow> (\<forall>i row. bt_get m i = Some row \<longrightarrow> object_kind_of s i = Inr (mk_kind row))"

abbreviation marked_recs :: "pack_store \<Rightarrow> marks \<Rightarrow> pack_record list" where
  "marked_recs s m \<equiv> recs_of s (rows_after m None)"

lemma rows_exist:
  assumes "bt_wf m" and "marks_exist s m"
  shows "\<forall>(i, kd)\<in>set (rows_after m None). object_kind_of s i = Inr kd"
  using assms by (auto simp: rows_after_def marks_exist_def bt_get_eq_Some)

lemma fst_rows_after [simp]: "map fst (rows_after m None) = map fst m"
  by (induction m) (auto simp: rows_after_def)

lemma marked_ids:
  assumes "store_ok L s" and "bt_wf m" and "marks_exist s m"
  shows "map (rec_id L) (marked_recs s m) = map fst m"
proof -
  have "map (rec_id L) (recs_of s rows) = map fst rows" if "\<forall>(i, kd)\<in>set rows. object_kind_of s i = Inr kd" for rows
    using that read_located_abs [OF assms(1)] by (induction rows) (auto simp: rec_id_def)
  from this [OF rows_exist [OF assms(2,3)]] show ?thesis by simp
qed

lemma compact_compacted:
  assumes dl: "digest_length L" and ok: "store_ok L s" and wf: "bt_wf m" and ex: "marks_exist s m"
    and name: "validate_pack_name pack"
  shows "\<exists>s'. compact L s m pack = Inr (length (pack_of L (marked_recs s m)), s')
    \<and> compacted L pack (marked_recs s m) s'"
proof -
  let ?rows = "rows_after m None"
  let ?recs = "marked_recs s m"
  let ?c0 = "\<lparr>co_store = s, co_output = [], co_locations = [], co_count = 0, co_last_start = 0\<rparr>"
  let ?ck = "\<lparr>ck_verified_len = length (pack_of L ?recs), ck_object_count = length ?recs,
          ck_last_object = (if ?recs = [] then None else Some (rec_id L (last ?recs))),
          ck_last_record_start = (if ?recs = [] then 0 else sum_list (map rec_len (butlast ?recs)))\<rparr>"
  note rows = compact_rows [OF dl ok rows_exist [OF wf ex], where c = ?c0 and pack = pack]
  have empty: "?recs = [] \<longleftrightarrow> ?rows = []" and len: "length ?recs = length ?rows" by (simp_all add: recs_of_def)
  have "last_row None ?rows = (if ?recs = [] then None else Some (rec_id L (last ?recs)))"
    using marked_ids [OF ok wf ex] empty by (simp add: last_row_def) (metis fst_rows_after last_map)
  with rows len empty have loop: "compact_loop L m None ?c0 = Inr (\<lparr>co_store = s, co_output = pack_of L ?recs,
      co_locations = map (\<lambda>(i, loc). (i, loc_kind loc, loc_offset loc, loc_len loc)) (rows_from L pack 0 ?recs),
      co_count = length ?recs, co_last_start = ck_last_record_start ?ck\<rparr>, ck_last_object ?ck)"
    by (simp add: compact_loop_rows [OF wf])
  define s2 where "s2 = s\<lparr>ps_packs := (ps_packs s)(pack \<mapsto> pack_of L ?recs),
      ps_objects := rows_from L pack 0 ?recs, ps_checkpoints := [pack \<mapsto> ?ck]\<rparr>"
  define s3 where "s3 = s2\<lparr>ps_active := pack, ps_known_end := length (pack_of L ?recs)\<rparr>"
  have eq: "compact L s m pack = rbind (activate_pack s2 pack)
      (\<lambda>s3. Inr (length (pack_of L ?recs), remove_other_packs s3 pack))"
    unfolding compact_def loop by (simp add: Let_def replace_objects_from_gc_def rows_of_locations s2_def del: map_map)
  have act: "activate_pack s2 pack = (if ps_frontier s = None then Inr s3 else sync_packs s3)"
    using name by (simp add: activate_pack_def s2_def s3_def Let_def file_len_def)
  have hw: "pack_high_water (rows_from L pack 0 ?recs) pack = length (pack_of L ?recs)"
    by (simp add: high_water_rows length_pack_of [OF dl])
  show ?thesis
  proof (cases "ps_frontier s")
    case None
    then show ?thesis unfolding eq act
      by (simp add: compacted_def remove_other_packs_def s3_def s2_def durable_len_def fun_eq_iff)
  next
    case (Some f)
    have rows3: "ps_objects s3 = rows_from L pack 0 ?recs" by (simp add: s3_def s2_def)
    have "row_end loc \<le> file_len s3 (loc_pack loc)" if "(i, loc) \<in> set (rows_from L pack 0 ?recs)" for i loc
      using rows_from_bounds [OF that] by (simp add: file_len_def s3_def s2_def length_pack_of [OF dl])
    then have "list_all (\<lambda>(i, loc). ps_packs s3 (loc_pack loc) \<noteq> None \<longrightarrow> row_end loc \<le> file_len s3 (loc_pack loc))
        (ps_objects s3)" unfolding rows3 by (auto simp: list_all_iff)
    then have "sync_packs s3 = Inr (s3\<lparr>ps_frontier := Some (\<lambda>name. if ps_packs s3 name = None then None
        else Some (pack_high_water (ps_objects s3) name))\<rparr>)"
      by (simp add: sync_packs_def)
    then show ?thesis unfolding eq act using Some hw
      by (simp add: compacted_def remove_other_packs_def s3_def s2_def durable_len_def fun_eq_iff)
  qed
qed

end
