(* ===== verification/Sample_Snapshot.thy ===== *)
theory Sample_Snapshot
  imports Pack_Theorems
begin

text \<open>
  A closed example that several components share: a snapshot of an empty directory, encoded by the
  concrete library of theory \<^verbatim>\<open>Pack_Theorems\<close>, whose digests have 32 bytes.
\<close>

definition tree_bytes :: bytes where
  "tree_bytes = json_tree short_lib \<lparr>tr_entries = [], tr_pages = []\<rparr>"

definition tree_id :: object_id where "tree_id = object_id short_lib Tree tree_bytes"

definition sample_snapshot :: snapshot where
  "sample_snapshot = \<lparr>sn_root_tree = tree_id, sn_parent = None, sn_merge_parents = [], sn_sealed_at_secs = 0,
     sn_sealed_at_nanos = 0, sn_quality = Quiescent, sn_trigger = Manual, sn_label = None,
     sn_sqlite_backups = [], sn_claims = [], sn_excluded_paths = [], sn_hardlinks = [], sn_ignored = None\<rparr>"

definition snap_bytes :: bytes where "snap_bytes = json_snapshot short_lib sample_snapshot"

definition snap_id :: object_id where "snap_id = object_id short_lib Snapshot snap_bytes"

lemmas codec_simps = c_tree_def c_snapshot_def c_option_def c_enum_def c_trigger_def c_int_def c_word_def
  c_iso_def c_pair_def c_nat_def c_bytes_def c_list_def

lemma short_blake3: "blake3 short_lib b = take 32 (rev b @ replicate 32 (CHR 0x00))"
  by (simp add: short_lib_def)

lemma ids_differ: "tree_id \<noteq> snap_id"
proof -
  have "\<exists>rest. snap_bytes = rest @ ''000''"
    by (simp add: snap_bytes_def sample_snapshot_def short_lib_def sample_lib_def codec_simps)
  then obtain rest where sb: "snap_bytes = rest @ ''000''" by blast
  have "snap_id ! 2 = CHR ''0''" unfolding snap_id_def object_id_def short_blake3 sb by simp
  moreover have "tree_id ! 2 = CHR 0x00"
    by (simp add: tree_id_def object_id_def short_blake3 tree_bytes_def short_lib_def sample_lib_def codec_simps)
  ultimately show ?thesis by auto
qed

end
