(* ===== verification/Collector_Theorems.thy ===== *)
theory Collector_Theorems
  imports Collector_Compaction Sample_Snapshot
begin

text \<open>
  The collector marks exactly what is reachable, with the least class masks that the references
  ask for; compaction keeps exactly what is marked; a collection keeps every snapshot that the
  retention policy keeps.
\<close>

section \<open>Roots\<close>

definition fresh_marks :: "marks \<Rightarrow> bool" where
  "fresh_marks m \<longleftrightarrow> bt_wf m \<and> (\<forall>i row. bt_get m i = Some row \<longrightarrow> \<not> mk_processed row)"

lemma fresh_traversing: "fresh_marks m \<Longrightarrow> traversing L s m"
  by (auto simp: fresh_marks_def traversing_def)

lemma enqueue_wf: "bt_wf m \<Longrightarrow> bt_wf (fst (enqueue m i kd k))"
  by (auto simp: enqueue_def split: option.splits)

lemma enqueue_fresh: "fresh_marks m \<Longrightarrow> fresh_marks (fst (enqueue m i kd k))"
  using enqueue_wf [of m i kd k]
  by (auto simp: fresh_marks_def enqueue_def bt_get_insert split: option.splits if_splits)

text \<open>What every step of the root collection keeps: new unprocessed rows, masks only grow.\<close>

definition extends_marks :: "root_acc \<Rightarrow> root_acc \<Rightarrow> bool" where
  "extends_marks a b \<longleftrightarrow> (fresh_marks (snd a) \<longrightarrow> fresh_marks (snd b)) \<and> below_map (masks_of (snd a)) (masks_of (snd b))"

lemma extends_marks_refl [simp]: "extends_marks a a"
  by (simp add: extends_marks_def)

lemma extends_marks_trans: "extends_marks a b \<Longrightarrow> extends_marks b c \<Longrightarrow> extends_marks a c"
  unfolding extends_marks_def using below_trans by blast

lemma enqueue_root_extends: "extends_marks acc (enqueue_root k acc i)"
  using enqueue_fresh [of "snd acc" i Snapshot k] enqueue_grows [of "snd acc" _ i Snapshot k]
  by (auto simp: extends_marks_def enqueue_root_def split: prod.splits)

lemma enqueue_root_meets: "below (Some k) (masks_of (snd (enqueue_root k acc i)) i)"
  using enqueue_meets [of k "snd acc" i Snapshot] by (auto simp: enqueue_root_def split: prod.splits)

lemma enqueue_record_extends: "extends_marks acc (enqueue_record now st h acc r)"
proof -
  have su: "extends_marks acc (su, snd acc)" for su by (simp add: extends_marks_def)
  have "extends_marks acc (enqueue_root k (su, snd acc) i)" for k su i
    by (rule extends_marks_trans [OF su enqueue_root_extends])
  with su show ?thesis by (simp add: enqueue_record_def Let_def)
qed

lemma foldl_extends:
  assumes "\<And>a x. extends_marks a (f a x)"
  shows "extends_marks a (foldl f a xs)"
proof (induction xs arbitrary: a)
  case (Cons x xs)
  show ?case using extends_marks_trans [OF assms Cons.IH] by simp
qed simp

lemma each_record_extends:
  assumes "\<And>a x. extends_marks a (f a x)"
  shows "each_record L J log off previous seq (\<lambda>a x. Inr (f a x)) a = Inr b \<Longrightarrow> extends_marks a b"
proof (induction L J log off previous seq "\<lambda>a x. Inr (f a x) :: root_acc result" a rule: each_record.induct)
  case (1 L J log off previous seq a)
  note eq = "1.prems" [unfolded each_record.simps [of L J log off]]
  show ?case
  proof (cases "off < length log")
    case True
    with eq obtain d where d: "read_frame_at L J log off = Inr (Some d)" "rr_sequence (dr_record d) = seq"
      "rr_previous_frame (dr_record d) = previous"
      "each_record L J log (dr_end d) (dr_frame_hash d) (seq + 1) (\<lambda>a x. Inr (f a x)) (f a (dr_record d)) = Inr b"
      by (auto split: option.splits if_splits)
    from "1.hyps" [OF True d(1) refl d(2,3) refl d(4)] show ?thesis by (rule extends_marks_trans [OF assms])
  qed (use eq in simp)
qed

lemma enqueue_files_extend:
  assumes "(case ws_intent w of
              None \<Rightarrow> Inr acc1
            | Some bs \<Rightarrow> rbind (of_opt ''read restore intent'' (gc_intent G bs)) (\<lambda>(pre, target).
                Inr (foldl (enqueue_root ALL_CLASS_MASK) acc1 [pre, target]))) = Inr acc2"
    and "(case ws_incoming w of
              None \<Rightarrow> Inr acc2
            | Some bs \<Rightarrow> rbind (of_opt ''read incoming sync root'' (gc_incoming G bs)) (\<lambda>i.
                Inr (enqueue_root ALL_CLASS_MASK acc2 i))) = Inr acc3"
  shows "extends_marks acc1 acc3"
proof -
  have "extends_marks acc1 (foldl (enqueue_root ALL_CLASS_MASK) acc1 xs)" for xs
    by (rule foldl_extends) (rule enqueue_root_extends)
  with assms(1) have "extends_marks acc1 acc2" by (auto simp del: foldl_Cons split: option.splits)
  moreover have "extends_marks acc2 (enqueue_root ALL_CLASS_MASK acc2 i)" for i by (rule enqueue_root_extends)
  with assms(2) have "extends_marks acc2 acc3" by (auto split: option.splits)
  ultimately show ?thesis by (rule extends_marks_trans)
qed

lemma enqueue_workspace_parts:
  assumes "enqueue_workspace L G touch now persist acc w = Inr (acc', w')"
  shows "\<exists>st log refs tip refs1 acc1 refs2.
    (if persist then ret_apply L (gc_states G) (gc_refs G) touch (ws_retention w) (ws_refs w) now
      else ret_plan L (gc_states G) (gc_refs G) touch (ws_retention w) (ws_refs w) now) = Inr (st, log, refs)
    \<and> head L (gc_refs G) touch refs = Inr (tip, refs1)
    \<and> for_each_record L (gc_refs G) touch refs1 (\<lambda>acc r. Inr (enqueue_record now st
       (case tip of None \<Rightarrow> 0 | Some r \<Rightarrow> rr_sequence r) acc r)) acc = Inr (acc1, refs2)
    \<and> extends_marks acc1 acc'"
proof -
  from assms obtain st log refs where st: "(if persist
      then ret_apply L (gc_states G) (gc_refs G) touch (ws_retention w) (ws_refs w) now
      else ret_plan L (gc_states G) (gc_refs G) touch (ws_retention w) (ws_refs w) now) = Inr (st, log, refs)"
    unfolding enqueue_workspace_def by (auto split del: if_split)
  note eq = assms [unfolded enqueue_workspace_def st rbind.simps prod.case]
  from eq obtain tip refs1 where tip: "head L (gc_refs G) touch refs = Inr (tip, refs1)" by auto
  note eq = eq [unfolded tip rbind.simps prod.case Let_def]
  from eq obtain acc1 refs2 where each: "for_each_record L (gc_refs G) touch refs1 (\<lambda>acc r. Inr (enqueue_record now st
       (case tip of None \<Rightarrow> 0 | Some r \<Rightarrow> rr_sequence r) acc r)) acc = Inr (acc1, refs2)" by auto
  note eq = eq [unfolded each rbind.simps prod.case]
  have "extends_marks acc1 acc'"
    using eq enqueue_files_extend [where w = w and G = G and ?acc1.0 = acc1 and ?acc3.0 = acc']
    unfolding rbind_eq_Inr by blast
  with st tip each show ?thesis by blast
qed

lemma enqueue_workspace_extends:
  assumes "enqueue_workspace L G touch now persist acc w = Inr (acc', w')"
  shows "extends_marks acc acc'"
proof -
  from enqueue_workspace_parts [OF assms] obtain st refs1 acc1 refs2 and tip :: "ref_record option" where
    each: "for_each_record L (gc_refs G) touch refs1 (\<lambda>acc r. Inr (enqueue_record now st
       (case tip of None \<Rightarrow> 0 | Some r \<Rightarrow> rr_sequence r) acc r)) acc = Inr (acc1, refs2)"
    and ext: "extends_marks acc1 acc'" by blast
  have "extends_marks acc acc1"
  proof (cases "rl_log refs1 = None")
    case False
    with each obtain s1 where "each_record L (gc_refs G) (log_bytes s1) 0 zero_id 1 (\<lambda>acc r. Inr (enqueue_record now st
       (case tip of None \<Rightarrow> 0 | Some r \<Rightarrow> rr_sequence r) acc r)) acc = Inr acc1"
      by (auto simp: for_each_record_def)
    then show ?thesis by (rule each_record_extends [rotated]) (rule enqueue_record_extends)
  qed (use each in \<open>simp add: for_each_record_def\<close>)
  then show ?thesis using ext by (rule extends_marks_trans)
qed

lemma enqueue_workspaces_extend:
  "enqueue_workspaces L G touch now persist acc ws = Inr (acc', ws') \<Longrightarrow> extends_marks acc acc'"
proof (induction ws arbitrary: acc ws')
  case (Cons w ws)
  then obtain acc1 w1 ws1 where "enqueue_workspace L G touch now persist acc w = Inr (acc1, w1)"
    "enqueue_workspaces L G touch now persist acc1 ws = Inr (acc', ws1)" by auto
  with Cons.IH enqueue_workspace_extends show ?case by (metis extends_marks_trans)
qed simp

text \<open>A retained record of a workspace is marked with at least the mask its age asks for.\<close>

definition root_mask :: "int \<Rightarrow> retention_state \<Rightarrow> ref_record list \<Rightarrow> ref_record \<Rightarrow> mask" where
  "root_mask now st rs r = byte_mask now (rr_sealed_at r)
     (rr_sequence r = rr_sequence (last rs) \<or> is_pinned st (rr_snapshot_id r))"

lemma fold_records_mark:
  assumes "r \<in> set rs" and "retains st (rr_sequence r) (rr_snapshot_id r)"
  shows "below (Some (byte_mask now (rr_sealed_at r) (rr_sequence r = h \<or> is_pinned st (rr_snapshot_id r))))
    (masks_of (snd (foldl (enqueue_record now st h) acc rs)) (rr_snapshot_id r))"
proof -
  from assms(1) obtain xs ys where rs: "rs = xs @ r # ys" by (meson split_list)
  let ?a = "foldl (enqueue_record now st h) acc xs"
  have "below (Some (byte_mask now (rr_sealed_at r) (rr_sequence r = h \<or> is_pinned st (rr_snapshot_id r))))
    (masks_of (snd (enqueue_record now st h ?a r)) (rr_snapshot_id r))"
    using assms(2) enqueue_root_meets by (simp add: enqueue_record_def Let_def del: below.simps)
  moreover have "extends_marks (enqueue_record now st h ?a r) (foldl (enqueue_record now st h) acc rs)"
    unfolding rs foldl_append foldl_Cons by (rule foldl_extends) (rule enqueue_record_extends)
  ultimately show ?thesis unfolding extends_marks_def using below_trans by blast
qed

lemma enqueue_workspace_marks:
  assumes "digest_length L" and "js_faithful (gc_refs G)"
    and ws: "enqueue_workspace L G touch now True acc w = Inr (acc', w')"
    and st: "ret_apply L (gc_states G) (gc_refs G) touch (ws_retention w) (ws_refs w) now = Inr (st, log, refs)"
    and cur: "current L (gc_refs G) refs rs" and r: "r \<in> set rs" "retains st (rr_sequence r) (rr_snapshot_id r)"
  shows "below (Some (root_mask now st rs r)) (masks_of (snd acc') (rr_snapshot_id r))"
proof -
  have ne: "rs \<noteq> []" using r by auto
  let ?acc1 = "foldl (enqueue_record now st (rr_sequence (last rs))) acc rs"
  have "extends_marks ?acc1 acc'"
    using enqueue_workspace_parts [OF ws] ne
    by (auto simp: st head_current [OF assms(1,2) cur] for_each_current [OF assms(1,2) cur] rfold_pure)
  then show ?thesis
    using fold_records_mark [OF r, of now "rr_sequence (last rs)" acc] below_trans
    unfolding extends_marks_def root_mask_def by blast
qed

section \<open>Sizes\<close>

abbreviation add_len :: "pack_store \<Rightarrow> nat \<Rightarrow> object_id \<times> object_kind \<Rightarrow> nat result" where
  "add_len s \<equiv> (\<lambda>t (i, kind). rbind (object_len s i) (\<lambda>n. Inr (u64_saturating_add t n)))"

lemma payload_loop_rows:
  "bt_wf m \<Longrightarrow> payload_loop s m after acc = rfold (add_len s) acc (rows_after m after)"
proof (induction s m after acc rule: payload_loop.induct)
  case (1 s m after acc)
  let ?b = "mark_batch m after"
  show ?case
  proof (cases "?b = []")
    case True
    then show ?thesis using rows_after_None [of m after] by (subst payload_loop.simps) simp
  next
    case False
    let ?a = "Some (fst (last ?b))"
    have "payload_loop s m after acc = rbind (rfold (add_len s) acc ?b) (\<lambda>acc'. payload_loop s m ?a acc')"
      using False by (subst payload_loop.simps) (simp add: Let_def)
    also have "\<dots> = rbind (rfold (add_len s) acc ?b) (\<lambda>acc'. rfold (add_len s) acc' (rows_after m ?a))"
      using "1.IH" [OF refl False _ "1.prems"] by (intro rbind_cong) auto
    finally show ?thesis unfolding rows_after_split [OF "1.prems" False] rfold_append .
  qed
qed

lemma add_len_rows:
  assumes "store_ok L s" and "\<forall>(i, kd)\<in>set rows. object_kind_of s i = Inr kd"
    and "acc + sum_list (map (length \<circ> snd) (recs_of s rows)) \<le> u64_max"
  shows "rfold (add_len s) acc rows = Inr (acc + sum_list (map (length \<circ> snd) (recs_of s rows)))"
  using assms(2,3)
proof (induction rows arbitrary: acc)
  case (Cons r rows)
  obtain i kd where r: "r = (i, kd)" by (cases r)
  then have kind: "object_kind_of s i = Inr kd" using Cons.prems(1) by simp
  then obtain loc where loc: "object_row (ps_objects s) i = Some loc" by (auto simp: object_kind_of_def)
  then have "row_ok L (ps_packs s) (i, loc)"
    using assms(1) by (auto simp: store_ok_def object_row_def dest: map_of_SomeD)
  with loc have "object_len s i = Inr (length (object_bytes s i))"
    by (auto simp: object_len_def object_bytes_def abs_store_def row_ok_def split: option.splits)
  with Cons r show ?case by (simp add: u64_saturating_add_def)
qed simp

lemma sum_rec_len:
  "sum_list (map rec_len recs) = sum_list (map (length \<circ> snd) recs) + length recs * RECORD_OVERHEAD"
  by (induction recs) (simp_all add: rec_len_def RECORD_OVERHEAD_def)

lemma traverse_wf:
  assumes "store_ok L s" and "bt_wf m" and "traverse L s m = Inr (s', m')"
  shows "bt_wf m'"
  using assms(2,3)
proof (induction "weight s m" arbitrary: m rule: less_induct)
  case less
  show ?case
  proof (cases "next_mark m")
    case None
    with less.prems show ?thesis by (simp add: traverse.simps)
  next
    case (Some t)
    then obtain i kd k where nxt: "next_mark m = Some (i, kd, k)" by (cases t) auto
    from traverse_step [OF assms(1) nxt less.prems(2)] obtain refs where kind: "object_kind_of s i = Inr kd"
      and rest: "traverse L s (set_processed (enqueue_all m refs) i) = Inr (s', m')" by blast
    have "bt_wf m1 \<Longrightarrow> bt_wf (enqueue_all m1 refs)" for m1
      by (induction refs arbitrary: m1) (auto simp: enqueue_all_def enqueue_wf split: prod.splits)
    with less.prems(1) have "bt_wf (set_processed (enqueue_all m refs) i)"
      by (auto simp: set_processed_def split: option.splits)
    from less.hyps [OF step_weight [OF nxt kind] this rest] show ?thesis .
  qed
qed

lemma traverse_marks:
  assumes "store_ok L s" and "self_free L s" and "fresh_marks m0" and "traverse L s m0 = Inr (s', m)"
  shows "s' = s \<and> below_map (masks_of m0) (masks_of m) \<and> closed_under (edges L s) (masks_of m)
    \<and> (\<forall>M. below_map (masks_of m0) M \<and> closed_under (edges L s) M \<longrightarrow> below_map (masks_of m) M)
    \<and> bt_wf m \<and> marks_exist s m"
proof -
  note least = traverse_least [OF assms(1,2) fresh_traversing [OF assms(3)] assms(4)]
  have "closed_under (edges L s) (masks_of m)"
    unfolding closed_under_def
  proof (intro allI impI)
    fix i k assume "masks_of m i = Some k"
    then obtain row where "bt_get m i = Some row" "k = mk_mask row" by (auto simp: masks_of_def)
    with least show "\<forall>(j, l)\<in>edges L s i k. below (Some l) (masks_of m j)" unfolding settled_row_def by blast
  qed
  moreover have "marks_exist s m" using least unfolding marks_exist_def settled_row_def by blast
  moreover have "bt_wf m" using traverse_wf [OF assms(1) _ assms(4)] assms(3) by (simp add: fresh_marks_def)
  ultimately show ?thesis using least by blast
qed

lemma compact_store:
  assumes "digest_length L" and "store_ok L s" and "bt_wf m" and "marks_exist s m" and "validate_pack_name pack"
  shows "\<exists>s'. compact L s m pack = Inr (length (pack_of L (marked_recs s m)), s')
    \<and> compacted L pack (marked_recs s m) s' \<and> store_ok L s' \<and> abs_store s' = abs_store s |` (fst ` set m)"
proof -
  let ?recs = "marked_recs s m"
  from compact_compacted [OF assms] obtain s' where s': "compact L s m pack = Inr (length (pack_of L ?recs), s')"
    "compacted L pack ?recs s'" by blast
  note ids = marked_ids [OF assms(2-4)]
  have d: "distinct (map (rec_id L) ?recs)" unfolding ids by (rule bt_wf_distinct [OF assms(3)])
  note st = compacted_store [OF assms(1) s'(2) d]
  have "abs_store s' i = (abs_store s |` (fst ` set m)) i" for i
  proof (cases "i \<in> fst ` set m")
    case True
    then obtain row where row: "bt_get m i = Some row" by (metis map_of_eq_None_iff option.exhaust)
    then have "(i, mk_kind row) \<in> set (rows_after m None)" using assms(3) by (force simp: rows_after_def bt_get_eq_Some)
    then have mem: "(mk_kind row, object_bytes s i) \<in> set ?recs" by (force simp: recs_of_def)
    have "object_kind_of s i = Inr (mk_kind row)" using assms(4) row by (simp add: marks_exist_def)
    note rd = read_located_abs [OF assms(2) this, of True]
    with st(2) [OF mem] True show ?thesis by (simp add: rec_id_def)
  next
    case False
    have "rec_id L ` set ?recs = fst ` set m" using ids by (metis list.set_map)
    with False st(3) [of i] show ?thesis by simp
  qed
  with s' st(1) show ?thesis by (auto simp: fun_eq_iff)
qed

section \<open>Properties\<close>

text \<open>
  C28: on an intact index the traversal changes nothing in the store and ends with exactly the
  reachable objects: the marks contain the roots, are closed under the references that the objects
  make for their mask, and are below every other such marking, so no object and no class bit is
  marked without a reason. Every marked object is in the store with the kind it was marked with.
\<close>

theorem traverse_marks_reachable:
  assumes "store_ok L s" and "self_free L s" and "fresh_marks m0" and "traverse L s m0 = Inr (s', m)"
  shows "s' = s \<and> below_map (masks_of m0) (masks_of m) \<and> closed_under (edges L s) (masks_of m)
    \<and> (\<forall>M. below_map (masks_of m0) M \<and> closed_under (edges L s) M \<longrightarrow> below_map (masks_of m) M)
    \<and> marks_exist s m"
  using traverse_marks [OF assms] by blast

text \<open>
  C29: the traversal succeeds whenever everything it can reach is there: from marks inside a set of
  objects that decode and refer only to objects of the set, it ends without an error and stays
  inside the set.
\<close>

theorem traverse_succeeds_on_intact:
  assumes "store_ok L s" and "intact L s D" and "marks_in s D m"
  shows "\<exists>m'. traverse L s m = Inr (s, m') \<and> marks_in s D m'"
  by (rule traverse_succeeds [OF assms])

text \<open>
  C30: compaction of existing marked objects succeeds and leaves a store that holds exactly the
  marked objects with their old bytes, in one pack whose checkpoint is accepted as it stands, so
  the next open has nothing to scan.
\<close>

theorem compact_keeps_marked:
  assumes "digest_length L" and "store_ok L s" and "bt_wf m" and "marks_exist s m" and "validate_pack_name pack"
    and "\<forall>i\<in>fst ` set m. length (object_bytes s i) \<le> MAX_OBJECT_LEN"
  shows "\<exists>n s'. compact L s m pack = Inr (n, s') \<and> store_ok L s'
    \<and> abs_store s' = abs_store s |` (fst ` set m) \<and> ps_active s' = pack \<and> pack_is_settled s'"
proof -
  let ?recs = "marked_recs s m"
  from compact_store [OF assms(1-5)] obtain s' where s': "compact L s m pack = Inr (length (pack_of L ?recs), s')"
    "compacted L pack ?recs s'" "store_ok L s'" "abs_store s' = abs_store s |` (fst ` set m)" by blast
  have "distinct (map (rec_id L) ?recs)"
    unfolding marked_ids [OF assms(2-4)] by (rule bt_wf_distinct [OF assms(3)])
  moreover have "\<forall>r\<in>set ?recs. length (snd r) \<le> MAX_OBJECT_LEN"
    using assms(6) by (auto simp: recs_of_def rows_after_def)
  ultimately have "pack_is_settled s'" using compacted_settled [OF assms(1) s'(2)] by (simp add: recs_ok_def)
  moreover have "ps_active s' = pack" using s'(2) by (simp add: compacted_def)
  ultimately show ?thesis using s' by blast
qed


text \<open>
  C32: a collection keeps every snapshot that the retention state of its workspace retains, with
  everything that is reachable from it under the mask of its age: there is a set of objects,
  closed under references, that contains the snapshot and is unchanged by the collection. A dry
  run changes no object.
\<close>

theorem collect_keeps_retained:
  assumes "digest_length L" and "js_faithful (gc_refs G)" and "store_ok L s" and "self_free L s"
    and "validate_pack_name pack" and "w \<in> set ws"
    and "ret_apply L (gc_states G) (gc_refs G) touch (ws_retention w) (ws_refs w) now = Inr (st, log, refs)"
    and "current L (gc_refs G) refs rs" and "r \<in> set rs" and "retains st (rr_sequence r) (rr_snapshot_id r)"
    and "collect_locked_at L G touch s ws names pack dry_run now = Inr (report, s', ws')"
  shows "if dry_run then s' = s
    else \<exists>M. below (Some (root_mask now st rs r)) (M (rr_snapshot_id r)) \<and> closed_under (edges L s) M
      \<and> (\<forall>i\<in>dom M. abs_store s i \<noteq> None \<and> abs_store s' i = abs_store s i)"
proof -
  from assms(11) obtain su m0 s1 m where roots: "enqueue_roots L G touch ws now (\<not> dry_run) = Inr ((su, m0), ws')"
    and tr: "traverse L s m0 = Inr (s1, m)"
    and rest: "if dry_run then s' = s1 else \<exists>n. compact L s1 m pack = Inr (n, s')"
    by (auto simp: collect_locked_at_def Let_def split: if_splits)
  have ext: "extends_marks (\<lparr>su_roots = 0, su_published = 0, su_retained = 0\<rparr>, []) (su, m0)"
    using enqueue_workspaces_extend roots unfolding enqueue_roots_def by blast
  then have fresh: "fresh_marks m0" by (simp add: extends_marks_def fresh_marks_def)
  note marks = traverse_marks [OF assms(3,4) fresh tr]
  show ?thesis
  proof (cases dry_run)
    case True
    with rest marks show ?thesis by simp
  next
    case False
    have "below (Some (root_mask now st rs r)) (masks_of m0 (rr_snapshot_id r))"
    proof -
      have "below (Some (root_mask now st rs r)) (masks_of (snd acc') (rr_snapshot_id r))"
        if "enqueue_workspaces L G touch now True acc ws = Inr (acc', ws')" for acc acc' ws'
        using that assms(6)
      proof (induction ws arbitrary: acc ws')
        case (Cons v ws)
        then obtain acc1 v' ws1 where v: "enqueue_workspace L G touch now True acc v = Inr (acc1, v')"
          and vs: "enqueue_workspaces L G touch now True acc1 ws = Inr (acc', ws1)" by auto
        show ?case
        proof (cases "w = v")
          case True
          from enqueue_workspace_marks [OF assms(1,2) v [folded True] assms(7-10)]
            enqueue_workspaces_extend [OF vs] show ?thesis unfolding extends_marks_def using below_trans by blast
        qed (use Cons.IH [OF vs] Cons.prems(2) in simp)
      qed simp
      from this roots False show ?thesis unfolding enqueue_roots_def by fastforce
    qed
    then have root: "below (Some (root_mask now st rs r)) (masks_of m (rr_snapshot_id r))"
      using marks below_trans by blast
    from rest False marks obtain n where "compact L s m pack = Inr (n, s')" by auto
    with compact_store [OF assms(1,3) _ _ assms(5), of m] marks
    have kept: "abs_store s' = abs_store s |` (fst ` set m)" by auto
    have "abs_store s i \<noteq> None \<and> abs_store s' i = abs_store s i" if "i \<in> dom (masks_of m)" for i
    proof -
      from that obtain row where row: "bt_get m i = Some row" by (auto simp: masks_of_def)
      then have "object_kind_of s i = Inr (mk_kind row)" using marks by (simp add: marks_exist_def)
      moreover have "i \<in> fst ` set m" using row by (force dest: map_of_SomeD)
      ultimately show ?thesis using read_located_abs [OF assms(3)] kept by (metis option.distinct(1) restrict_in)
    qed
    then show ?thesis
      unfolding if_not_P [OF False] using root marks by (intro exI [of _ "masks_of m"]) blast
  qed
qed

text \<open>How long the bytes of a class are kept after a snapshot was sealed; \<^const>\<open>None\<close> is forever.\<close>

fun class_window :: "content_class \<Rightarrow> int option" where
  "class_window Database = Some (30 * DAY_SECONDS)"
| "class_window Dependency = Some (3 * DAY_SECONDS)"
| "class_window BuildOutput = Some (3 * DAY_SECONDS)"
| "class_window Scratch = Some DAY_SECONDS"
| "class_window c = None"

text \<open>
  The byte mask of a root has the bit of a class exactly when the root is the head or pinned,
  is dated in the future, or is younger than the window of the class; source, version-control
  metadata, secrets and lockfiles are never dropped.
\<close>

theorem byte_mask_classes:
  "bit (byte_mask now sealed_at exact_root) (class_discriminant c) \<longleftrightarrow>
     exact_root \<or> sealed_at > now
     \<or> (case class_window c of None \<Rightarrow> True | Some w \<Rightarrow> i64_saturating_sub now sealed_at \<le> w)"
proof (cases "exact_root \<or> sealed_at > now")
  case True
  have "bit (ALL_CLASS_MASK) (class_discriminant c)"
    by (cases c) (simp_all add: ALL_CLASS_MASK_def all_classes_def)
  moreover have "byte_mask now sealed_at exact_root = ALL_CLASS_MASK" using True by (simp add: byte_mask_def)
  ultimately show ?thesis using True by auto
next
  case False
  then show ?thesis
    by (cases c) (auto simp: byte_mask_def Let_def bit_or_iff bit_class_bit DAY_SECONDS_def)
qed

section \<open>Witnesses\<close>

text \<open>A store with one snapshot of an empty directory, and a workspace whose head it is.\<close>

definition gc_store :: pack_store where
  "gc_store = append_record short_lib (append_record short_lib empty_store Tree tree_bytes) Snapshot snap_bytes"

lemma empty_store_map: "abs_store empty_store = Map.empty"
  by (simp add: abs_store_def empty_store_def object_row_def fun_eq_iff)

lemma gc_store_ok:
  "store_ok short_lib gc_store"
  "abs_store gc_store = [tree_id \<mapsto> (Tree, tree_bytes), snap_id \<mapsto> (Snapshot, snap_bytes)]"
proof -
  let ?s1 = "append_record short_lib empty_store Tree tree_bytes"
  have "object_row (ps_objects empty_store) (object_id short_lib Tree tree_bytes) = None"
    by (simp add: empty_store_def object_row_def)
  note s1 = append_record_refines [OF short_lib_digest empty_store_ok this]
  then have m1: "abs_store ?s1 = [tree_id \<mapsto> (Tree, tree_bytes)]" by (simp add: empty_store_map tree_id_def)
  then have "abs_store ?s1 snap_id = None" using ids_differ by simp
  then have "object_row (ps_objects ?s1) snap_id = None" using abs_store_row s1 by blast
  note s2 = append_record_refines [OF short_lib_digest s1 [THEN conjunct1] this [unfolded snap_id_def]]
  from s2 show "store_ok short_lib gc_store" by (simp add: gc_store_def)
  from s2 m1 show "abs_store gc_store = [tree_id \<mapsto> (Tree, tree_bytes), snap_id \<mapsto> (Snapshot, snap_bytes)]"
    by (simp add: gc_store_def snap_id_def)
qed

lemma gc_store_kinds:
  "object_kind_of gc_store i = Inr kd \<longleftrightarrow> i = snap_id \<and> kd = Snapshot \<or> i = tree_id \<and> kd = Tree"
proof
  assume "object_kind_of gc_store i = Inr kd"
  from read_located_abs [OF gc_store_ok(1) this, of True] show "i = snap_id \<and> kd = Snapshot \<or> i = tree_id \<and> kd = Tree"
    by (auto simp: gc_store_ok(2) split: if_splits)
next
  assume *: "i = snap_id \<and> kd = Snapshot \<or> i = tree_id \<and> kd = Tree"
  then have "abs_store gc_store i \<noteq> None" by (auto simp: gc_store_ok(2))
  then obtain loc where "object_row (ps_objects gc_store) i = Some loc"
    using abs_store_row [OF gc_store_ok(1)] by (metis option.exhaust)
  then have k: "object_kind_of gc_store i = Inr (loc_kind loc)" by (simp add: object_kind_of_def)
  from read_located_abs [OF gc_store_ok(1) k, of True] * ids_differ have "loc_kind loc = kd"
    by (auto simp: gc_store_ok(2) split: if_splits)
  with k show "object_kind_of gc_store i = Inr kd" by simp
qed

lemma gc_store_reads:
  "read_located short_lib gc_store snap_id Snapshot = Inr snap_bytes"
  "read_located short_lib gc_store tree_id Tree = Inr tree_bytes"
proof -
  have "object_kind_of gc_store snap_id = Inr Snapshot" "object_kind_of gc_store tree_id = Inr Tree"
    by (simp_all add: gc_store_kinds)
  from this [THEN read_located_abs [OF gc_store_ok(1), of _ _ True]] this [THEN read_bytes_ok [OF gc_store_ok(1), of _ _ True]]
  show "read_located short_lib gc_store snap_id Snapshot = Inr snap_bytes"
    "read_located short_lib gc_store tree_id Tree = Inr tree_bytes"
    using ids_differ by (auto simp: gc_store_ok(2))
qed

lemma sample_references:
  "references short_lib Snapshot snap_bytes k = Inr [(tree_id, Tree, k)]"
  "references short_lib Tree tree_bytes k = Inr []"
  by (simp_all add: snap_bytes_def tree_bytes_def short_lib_def sample_lib_def codec_round_trip codec_snapshot
      codec_tree sample_snapshot_def)

lemma gc_store_edges: "edges short_lib gc_store i k = (if i = snap_id then {(tree_id, k)} else {})"
  using ids_differ
  by (auto simp: edges_def gc_store_kinds gc_store_reads sample_references simp del: references.simps)

lemma gc_store_self_free: "self_free short_lib gc_store"
  using ids_differ by (auto simp: self_free_def gc_store_edges)

lemma gc_store_intact: "intact short_lib gc_store {snap_id, tree_id}"
proof -
  have "\<exists>kd bs. object_kind_of gc_store snap_id = Inr kd \<and> read_located short_lib gc_store snap_id kd = Inr bs
     \<and> (\<forall>k. \<exists>refs. references short_lib kd bs k = Inr refs
          \<and> (\<forall>(j, kd', l)\<in>set refs. j \<in> {snap_id, tree_id} \<and> object_kind_of gc_store j = Inr kd'))"
    by (intro exI [of _ Snapshot] exI [of _ snap_bytes])
      (simp add: gc_store_kinds gc_store_reads sample_references del: references.simps)
  moreover have "\<exists>kd bs. object_kind_of gc_store tree_id = Inr kd \<and> read_located short_lib gc_store tree_id kd = Inr bs
     \<and> (\<forall>k. \<exists>refs. references short_lib kd bs k = Inr refs
          \<and> (\<forall>(j, kd', l)\<in>set refs. j \<in> {snap_id, tree_id} \<and> object_kind_of gc_store j = Inr kd'))"
    by (intro exI [of _ Tree] exI [of _ tree_bytes])
      (simp add: gc_store_kinds gc_store_reads sample_references del: references.simps)
  ultimately show ?thesis unfolding intact_def by blast
qed

definition root_marks :: marks where
  "root_marks = [(snap_id, \<lparr>mk_kind = Snapshot, mk_mask = 1, mk_processed = False\<rparr>)]"

lemma root_marks_fresh: "fresh_marks root_marks"
  by (auto simp: fresh_marks_def root_marks_def)

lemma root_marks_in: "marks_in gc_store {snap_id, tree_id} root_marks"
  by (auto simp: marks_in_def root_marks_def gc_store_kinds)

theorem traverse_marks_reachable_witness:
  "\<exists>m. traverse short_lib gc_store root_marks = Inr (gc_store, m) \<and> below (Some 1) (masks_of m tree_id)"
proof -
  obtain m where m: "traverse short_lib gc_store root_marks = Inr (gc_store, m)"
    using traverse_succeeds [OF gc_store_ok(1) gc_store_intact root_marks_in] by blast
  note t = traverse_marks_reachable [OF gc_store_ok(1) gc_store_self_free root_marks_fresh m]
  have "masks_of root_marks snap_id = Some 1" by (simp add: masks_of_def root_marks_def)
  then have "below (Some 1) (masks_of m snap_id)" using t by (metis (no_types))
  moreover have "(tree_id, 1) \<in> edges short_lib gc_store snap_id 1" by (simp add: gc_store_edges)
  ultimately show ?thesis using m t st.closed_below by blast
qed

theorem traverse_succeeds_on_intact_witness:
  "\<exists>m. traverse short_lib gc_store root_marks = Inr (gc_store, m)"
  using traverse_succeeds_on_intact [OF gc_store_ok(1) gc_store_intact root_marks_in] by blast

definition pack_name :: string where "pack_name = ''pack-gc-1.agp''"

lemma pack_name_valid: "validate_pack_name pack_name"
  by (simp add: validate_pack_name_def pack_name_def suffix_def)

definition tree_marks :: marks where
  "tree_marks = [(tree_id, \<lparr>mk_kind = Tree, mk_mask = 1, mk_processed = True\<rparr>)]"

lemma tree_marks_ok: "bt_wf tree_marks" "marks_exist gc_store tree_marks"
  by (auto simp: tree_marks_def marks_exist_def gc_store_kinds)

lemma tree_object_bytes: "object_bytes gc_store tree_id = tree_bytes" "length tree_bytes = 2"
  using ids_differ by (simp_all add: object_bytes_def gc_store_ok(2) tree_bytes_def short_lib_def sample_lib_def codec_simps)

theorem compact_keeps_marked_witness:
  "\<exists>n s. compact short_lib gc_store tree_marks pack_name = Inr (n, s)
     \<and> abs_store s = [tree_id \<mapsto> (Tree, tree_bytes)] \<and> pack_is_settled s"
proof -
  have "\<forall>i\<in>fst ` set tree_marks. length (object_bytes gc_store i) \<le> MAX_OBJECT_LEN"
    by (simp add: tree_marks_def tree_object_bytes MAX_OBJECT_LEN_def)
  note c = compact_keeps_marked [OF short_lib_digest gc_store_ok(1) tree_marks_ok pack_name_valid this]
  have "abs_store gc_store |` (fst ` set tree_marks) = [tree_id \<mapsto> (Tree, tree_bytes)]"
    using ids_differ by (auto simp: gc_store_ok(2) tree_marks_def restrict_map_def fun_eq_iff)
  with c show ?thesis by auto
qed


definition head_ref :: ref_record where
  "head_ref = next_record short_lib sample_refs [] snap_id 0 None Manual"

lemma head_ref_length: "length (js_enc sample_refs head_ref) = 137"
proof -
  have "length snap_id = 32" by (simp add: snap_id_def digest_simps [OF short_lib_digest])
  then show ?thesis
    by (simp add: sample_refs_def head_ref_def next_record_def tip_hash_def zero_id_def c_ref_def codec_simps)
qed

definition head_refs :: ref_log where
  "head_refs = append_index short_lib (set_log id empty_refs (log_of short_lib sample_refs [head_ref]))
     (index_record_new 0 (frame_len sample_refs head_ref)
        (frame_hash_of short_lib (js_enc sample_refs head_ref)) sample_meta)"

lemma head_refs_current: "current short_lib sample_refs head_refs [head_ref]"
  using append_current [OF short_lib_digest empty_refs_current head_ref_def, of id] sample_meta_ok
    head_ref_length by (simp add: head_refs_def MAX_RECORD_def frame_len_def empty_refs_def)

definition sample_gc :: gc_codecs where
  "sample_gc = \<lparr>gc_states = sample_states, gc_refs = sample_refs, gc_intent = (\<lambda>b. None), gc_incoming = (\<lambda>b. None)\<rparr>"

definition sample_workspace :: workspace where
  "sample_workspace = \<lparr>ws_refs = head_refs, ws_retention = None, ws_intent = None, ws_incoming = None\<rparr>"

definition head_state :: retention_state where
  "head_state = next_state short_lib sample_states [] \<lparr>rs_event_sequence = 0, rs_evaluated_through = 1,
     rs_evaluated_at = 0, rs_retained = [\<lparr>sr_first = 1, sr_last = 1\<rparr>], rs_pins = [], rs_previous_frame = zero_id\<rparr>"

lemma sample_apply:
  "ret_apply short_lib sample_states sample_refs id None head_refs 0
     = Inr (head_state, Some (ret_log_of short_lib sample_states [head_state]), head_refs)"
proof -
  let ?planned = "\<lparr>rs_event_sequence = 0, rs_evaluated_through = 1, rs_evaluated_at = 0,
    rs_retained = [\<lparr>sr_first = 1, sr_last = 1\<rparr>], rs_pins = [], rs_previous_frame = zero_id\<rparr>"
  have pins: "rs_pins (latest []) = []" by (simp add: ret_initial_def)
  have "plan_state short_lib sample_refs id head_refs 0 (rs_pins (latest [])) = Inr (?planned, head_refs)"
    unfolding pins
    by (simp add: plan_state_current [OF short_lib_digest sample_refs_faithful head_refs_current]
      plan_record_def plan_start_def plan_finish_def kept_whole_def head_ref_def next_record_def
      i64_saturating_sub_def i64_min_def i64_max_def window_consts compress_sequences_def)
  moreover have "length (js_enc sample_states (next_state short_lib sample_states [] ?planned)) \<le> RET_MAX_RECORD"
    by (simp add: codec_length)
  ultimately show ?thesis
    using ret_apply_eq [OF short_lib_digest sample_states_faithful, of "[]" None sample_refs id head_refs 0 ?planned]
    by (simp add: head_state_def same_policy_state_def ret_initial_def)
qed

lemma head_retained: "retains head_state (rr_sequence head_ref) (rr_snapshot_id head_ref)"
  by (simp add: retains_def head_state_def next_state_def head_ref_def next_record_def retains_in_ranges_iff)

lemma sample_roots:
  "\<exists>su k ws. enqueue_roots short_lib sample_gc id [sample_workspace] 0 True
     = Inr ((su, [(snap_id, \<lparr>mk_kind = Snapshot, mk_mask = k, mk_processed = False\<rparr>)]), ws)"
  using head_retained
  by (simp add: enqueue_roots_def enqueue_workspace_def sample_gc_def sample_workspace_def sample_apply
      head_current [OF short_lib_digest sample_refs_faithful head_refs_current]
      for_each_current [OF short_lib_digest sample_refs_faithful head_refs_current]
      enqueue_record_def enqueue_root_def enqueue_def Let_def)
    (simp add: head_ref_def next_record_def)

theorem collect_keeps_retained_witness:
  "\<exists>report s ws. collect_locked_at short_lib sample_gc id gc_store [sample_workspace] [''pack-000001.agp'']
       pack_name False 0 = Inr (report, s, ws) \<and> abs_store s snap_id = Some (Snapshot, snap_bytes)"
proof -
  obtain su k ws where roots: "enqueue_roots short_lib sample_gc id [sample_workspace] 0 True
     = Inr ((su, [(snap_id, \<lparr>mk_kind = Snapshot, mk_mask = k, mk_processed = False\<rparr>)]), ws)"
    using sample_roots by blast
  let ?m0 = "[(snap_id, \<lparr>mk_kind = Snapshot, mk_mask = k, mk_processed = False\<rparr>)] :: marks"
  have "marks_in gc_store {snap_id, tree_id} ?m0" by (auto simp: marks_in_def gc_store_kinds)
  from traverse_succeeds [OF gc_store_ok(1) gc_store_intact this] obtain m where
    tr: "traverse short_lib gc_store ?m0 = Inr (gc_store, m)" by blast
  have "fresh_marks ?m0" by (auto simp: fresh_marks_def)
  note marks = traverse_marks [OF gc_store_ok(1) gc_store_self_free this tr]
  obtain s where comp: "\<exists>n. compact short_lib gc_store m pack_name = Inr (n, s)"
    using compact_store [OF short_lib_digest gc_store_ok(1) _ _ pack_name_valid, of m] marks by blast
  have "\<exists>n. object_len gc_store i = Inr n" if "object_kind_of gc_store i = Inr kd" for i kd
    using that by (auto simp: object_kind_of_def object_len_def)
  then have "\<exists>n. rfold (add_len gc_store) acc rows = Inr n"
    if "\<forall>(i, kd)\<in>set rows. object_kind_of gc_store i = Inr kd" for rows acc
    using that by (induction rows arbitrary: acc) (auto, metis)
  from this [OF rows_exist, of m 0] marks obtain payload where
    "rfold (add_len gc_store) 0 (rows_after m None) = Inr payload" by blast
  with marks have "reachable_payload_bytes gc_store m = Inr payload"
    by (simp add: reachable_payload_bytes_def payload_loop_rows)
  with roots tr comp obtain report where eq: "collect_locked_at short_lib sample_gc id gc_store [sample_workspace]
      [''pack-000001.agp''] pack_name False 0 = Inr (report, s, ws)"
    by (auto simp: collect_locked_at_def Let_def)
  have "js_faithful (gc_refs sample_gc)" by (simp add: sample_gc_def sample_refs_faithful)
  from collect_keeps_retained [OF short_lib_digest this gc_store_ok(1) gc_store_self_free pack_name_valid _ _ _ _ head_retained eq,
      where w = sample_workspace and refs = head_refs and rs = "[head_ref]"]
  obtain M where "below (Some (root_mask 0 head_state [head_ref] head_ref)) (M snap_id)"
    "\<forall>i\<in>dom M. abs_store gc_store i \<noteq> None \<and> abs_store s i = abs_store gc_store i"
    using sample_apply head_refs_current
    by (auto simp: sample_gc_def sample_workspace_def head_ref_def next_record_def)
  then have "abs_store s snap_id = abs_store gc_store snap_id" by auto
  with eq show ?thesis by (simp add: gc_store_ok(2))
qed

end
