(* ===== verification/Claims.thy ===== *)
theory Claims
  imports Object_Model "HOL-Library.Product_Lexorder"
begin

text \<open>
  Advisory path claims (\<^verbatim>\<open>furrow-core/src/claims.rs\<close>).

  A \<open>Registry\<close> is the table of claims of one family; its state is the list of the rows
  of the \<open>claims\<close> table. Every operation is one immediate transaction: an operation that
  fails leaves the table as it was, so a failing operation returns only its message. The clock
  (\<open>now\<close>) and the random identifier (\<open>new_id\<close>) are arguments, either of which may fail.

  \<open>matches_path\<close> decides whether a claim pattern covers a path, by a recursion over two
  indices with a table of results already known. An index outside a slice is a panic in the
  source; \<^const>\<open>None\<close> is a panic here.
\<close>

section \<open>Validation\<close>

definition MAX_PATTERN_BYTES :: nat where "MAX_PATTERN_BYTES = 1024"
definition MAX_OWNER_BYTES :: nat where "MAX_OWNER_BYTES = 256"
definition MAX_TTL_SECONDS :: nat where "MAX_TTL_SECONDS = 7 * 24 * 60 * 60"

text \<open>
  \<open>str.chars().any(char::is_control)\<close> on the UTF-8 bytes of a string: the code points
  below 32, 127, and 128 to 159, which UTF-8 writes as 194 followed by the code point.
\<close>

fun has_control :: "string \<Rightarrow> bool" where
  "has_control [] = False"
| "has_control (c # cs) =
     ((of_char c :: nat) < 32 \<or> (of_char c :: nat) = 127 \<or>
      (of_char c :: nat) = 194 \<and> (case cs of [] \<Rightarrow> False | d # _ \<Rightarrow> (of_char d :: nat) < 160) \<or>
      has_control cs)"

definition is_ascii_hexdigit :: "byte \<Rightarrow> bool" where
  "is_ascii_hexdigit b \<longleftrightarrow>
     CHR ''0'' \<le> b \<and> b \<le> CHR ''9'' \<or> CHR ''a'' \<le> b \<and> b \<le> CHR ''f'' \<or> CHR ''A'' \<le> b \<and> b \<le> CHR ''F''"

definition validate_family_id :: "string \<Rightarrow> unit result" where
  "validate_family_id value =
     ensure (length value = 32 \<and> list_all is_ascii_hexdigit value) ''invalid family ID'' (Inr ())"

definition validate_owner :: "string \<Rightarrow> unit result" where
  "validate_owner owner =
     ensure (owner \<noteq> []) ''claim owner cannot be empty''
     (ensure (length owner \<le> MAX_OWNER_BYTES) ''claim owner is too long''
     (ensure (\<not> has_control owner) ''claim owner contains control characters'' (Inr ())))"

definition validate_pattern :: "string \<Rightarrow> unit result" where
  "validate_pattern pattern =
     ensure (pattern \<noteq> []) ''claim pattern cannot be empty''
     (ensure (length pattern \<le> MAX_PATTERN_BYTES) ''claim pattern is too long''
     (ensure (hd pattern \<noteq> CHR ''/'') ''claim pattern must be relative''
     (ensure (\<not> has_control pattern) ''claim pattern contains control characters''
     (rfold (\<lambda>_ component.
        ensure (component \<noteq> [] \<and> component \<noteq> ''.'' \<and> component \<noteq> ''..'')
          ''claim pattern contains an unsafe path component'' (Inr ()))
        () (split_on CHR ''/'' pattern)))))"

section \<open>Overlap of patterns\<close>

definition contains_wildcard :: "string \<Rightarrow> bool" where
  "contains_wildcard value \<longleftrightarrow> list_ex (\<lambda>b. b \<in> {CHR ''*'', CHR ''?'', CHR ''[''}) value"

definition literal_prefix :: "string \<Rightarrow> string list" where
  "literal_prefix pattern = takeWhile (\<lambda>c. \<not> contains_wildcard c) (split_on CHR ''/'' pattern)"

definition component_prefix :: "string list \<Rightarrow> string list \<Rightarrow> bool" where
  "component_prefix left right \<longleftrightarrow>
     length left \<le> length right \<and> list_all (\<lambda>(l, r). l = r) (zip left right)"

definition patterns_may_overlap :: "string \<Rightarrow> string \<Rightarrow> bool" where
  "patterns_may_overlap left right =
     (if left = right then True
      else
        let left_wild = contains_wildcard left; right_wild = contains_wildcard right in
        if \<not> left_wild \<and> \<not> right_wild then False
        else
          let left_prefix = literal_prefix left; right_prefix = literal_prefix right in
          component_prefix left_prefix right_prefix \<or> component_prefix right_prefix left_prefix)"

section \<open>Matching a path\<close>

text \<open>\<open>slice.get(i)\<close>.\<close>

definition slice_get :: "'a list \<Rightarrow> nat \<Rightarrow> 'a option" where
  "slice_get xs i = (if i < length xs then Some (xs ! i) else None)"

text \<open>The \<open>while\<close> loop of \<open>character_class\<close>: the index it stops at, and \<open>matched\<close>.\<close>

function class_loop :: "bytes \<Rightarrow> byte \<Rightarrow> nat \<Rightarrow> bool \<Rightarrow> nat \<times> bool" where
  "class_loop pattern value index matched =
     (if index < length pattern \<and> pattern ! index \<noteq> CHR '']'' then
        if index + 2 < length pattern \<and> pattern ! (index + 1) = CHR ''-'' \<and>
           pattern ! (index + 2) \<noteq> CHR '']''
        then class_loop pattern value (index + 3)
               (matched \<or> pattern ! index \<le> value \<and> value \<le> pattern ! (index + 2))
        else class_loop pattern value (index + 1) (matched \<or> pattern ! index = value)
      else (index, matched))"
  by pat_completeness auto
termination
  by (relation "measure (\<lambda>(pattern, value, index, matched). length pattern - index)") auto

declare class_loop.simps [simp del]

definition character_class :: "bytes \<Rightarrow> nat \<Rightarrow> byte option \<Rightarrow> (bool \<times> nat) option" where
  "character_class pattern start value =
     (case value of
        None \<Rightarrow> None
      | Some v \<Rightarrow>
          if v = CHR ''/'' then None
          else
            let negated = (slice_get pattern (start + 1) = Some (CHR ''!'') \<or>
                           slice_get pattern (start + 1) = Some (CHR ''^''));
                content_start = start + 1 + (if negated then 1 else 0);
                (index, matched) = class_loop pattern v content_start False
            in if index = length pattern \<or> index = content_start then None
               else Some (matched \<noteq> negated, index + 1))"

lemma class_loop_ge: "index \<le> fst (class_loop pattern v index matched)"
proof (induction pattern v index matched rule: class_loop.induct)
  case (1 pattern v index matched)
  then show ?case
    using class_loop.simps [of pattern v index matched] by auto
qed

lemma character_class_gt:
  assumes "character_class pattern start c = Some (m, n)"
  shows "start < n"
proof -
  obtain v where v: "c = Some v"
    using assms by (cases c) (simp_all add: character_class_def)
  let ?i = "\<lambda>s. fst (class_loop pattern v s False)"
  have "n = ?i (Suc start) + 1 \<or> n = ?i (Suc (Suc start)) + 1"
    using assms v by (auto simp: character_class_def Let_def split_beta split: if_splits)
  moreover have "Suc start \<le> ?i (Suc start)" "Suc (Suc start) \<le> ?i (Suc (Suc start))"
    by (rule class_loop_ge)+
  ultimately show ?thesis by linarith
qed

function glob_match ::
  "bytes \<Rightarrow> bytes \<Rightarrow> nat \<Rightarrow> nat \<Rightarrow> nat \<Rightarrow> bool option list \<Rightarrow> (bool \<times> bool option list) option" where
  "glob_match pattern path pattern_index path_index width memo =
     (let slot = pattern_index * width + path_index in
      if length memo \<le> slot then None
      else case memo ! slot of
        Some result \<Rightarrow> Some (result, memo)
      | None \<Rightarrow>
          map_option (\<lambda>(result, memo). (result, memo[slot := Some result]))
           (if pattern_index = length pattern then Some (path_index = length path, memo)
            else if length pattern < pattern_index then None
            else if pattern ! pattern_index = CHR ''*'' then
              let recursive = (slice_get pattern (pattern_index + 1) = Some (CHR ''*''));
                  next = pattern_index + (if recursive then 2 else 1) in
              Option.bind (glob_match pattern path next path_index width memo)
                (\<lambda>(r, memo).
                   if r then Some (True, memo)
                   else if path_index < length path \<and> (recursive \<or> path ! path_index \<noteq> CHR ''/'')
                   then glob_match pattern path pattern_index (path_index + 1) width memo
                   else Some (False, memo))
            else if pattern ! pattern_index = CHR ''?'' then
              if path_index < length path \<and> path ! path_index \<noteq> CHR ''/''
              then glob_match pattern path (pattern_index + 1) (path_index + 1) width memo
              else Some (False, memo)
            else if pattern ! pattern_index = CHR ''['' then
              (case character_class pattern pattern_index (slice_get path path_index) of
                 Some (matches, next) \<Rightarrow>
                   if matches then glob_match pattern path next (path_index + 1) width memo
                   else Some (False, memo)
               | None \<Rightarrow>
                   if slice_get path path_index = Some (CHR ''['')
                   then glob_match pattern path (pattern_index + 1) (path_index + 1) width memo
                   else Some (False, memo))
            else
              if slice_get path path_index = Some (pattern ! pattern_index)
              then glob_match pattern path (pattern_index + 1) (path_index + 1) width memo
              else Some (False, memo)))"
  by pat_completeness auto
termination
  by (relation "measure (\<lambda>(pattern, path, i, j, width, memo).
        (length pattern - i) + (length path - j))")
     (auto simp: slice_get_def dest!: character_class_gt split: if_splits)

declare glob_match.simps [simp del]

definition matches_path :: "string \<Rightarrow> bytes \<Rightarrow> bool option" where
  "matches_path pattern path =
     (let width = length path + 1;
          memo = replicate (min (2 ^ 64 - 1) ((length pattern + 1) * width)) None
      in map_option fst (glob_match pattern path 0 0 width memo))"

section \<open>The registry\<close>

type_synonym registry = "claim_record list"

text \<open>Decimal digits, as \<open>{}\<close> prints an integer.\<close>

fun decimal :: "nat \<Rightarrow> string" where
  "decimal n = (if n < 10 then [char_of (48 + n)] else decimal (n div 10) @ [char_of (48 + n mod 10)])"

declare decimal.simps [simp del]

definition decimal_int :: "int \<Rightarrow> string" where
  "decimal_int i = (if i < 0 then CHR ''-'' # decimal (nat (- i)) else decimal (nat i))"

text \<open>\<open>DELETE FROM claims WHERE expires_at <= now\<close>.\<close>

definition drop_expired :: "int \<Rightarrow> registry \<Rightarrow> registry" where
  "drop_expired now rows = filter (\<lambda>c. \<not> cl_expires_at c \<le> now) rows"

abbreviation same_holder :: "string \<Rightarrow> string \<Rightarrow> claim_record \<Rightarrow> bool" where
  "same_holder workspace_id owner c \<equiv> cl_workspace_id c = workspace_id \<and> cl_owner c = owner"

text \<open>\<open>INSERT\<close> into a table whose primary key is the identifier.\<close>

definition insert_claim :: "claim_record \<Rightarrow> registry \<Rightarrow> registry result" where
  "insert_claim c rows =
     ensure (\<forall>d\<in>set rows. cl_id d \<noteq> cl_id c) ''UNIQUE constraint failed: claims.id''
       (Inr (rows @ [c]))"

definition conflict_message :: "string \<Rightarrow> claim_record \<Rightarrow> string" where
  "conflict_message pattern c =
     ''claim `'' @ pattern @ ''` overlaps `'' @ cl_pattern c @ ''` held by '' @ cl_owner c @
     '' until '' @ decimal_int (cl_expires_at c)"

definition reg_claim ::
  "int result \<Rightarrow> string result \<Rightarrow> registry \<Rightarrow> string \<Rightarrow> string \<Rightarrow> string \<Rightarrow> nat \<Rightarrow>
   (registry \<times> claim_record) result" where
  "reg_claim clock new_id rows pattern owner workspace_id ttl_seconds =
     rbind (validate_pattern pattern) (\<lambda>_.
     rbind (validate_owner owner) (\<lambda>_.
     ensure (1 \<le> ttl_seconds \<and> ttl_seconds \<le> MAX_TTL_SECONDS)
       ''claim TTL must be between 1 second and 7 days''
     (rbind clock (\<lambda>now.
      let rows = drop_expired now rows;
          existing = sort_key (\<lambda>c. (cl_created_at c, cl_id c)) rows
      in case find (\<lambda>c. same_holder workspace_id owner c \<and> cl_pattern c = pattern) existing of
           Some c \<Rightarrow> Inr (rows, c)
         | None \<Rightarrow>
            (case find (\<lambda>c. \<not> same_holder workspace_id owner c \<and>
                           patterns_may_overlap (cl_pattern c) pattern) existing of
               Some conflict \<Rightarrow> Inl (Bail (conflict_message pattern conflict))
             | None \<Rightarrow>
                 rbind new_id (\<lambda>ident.
                 let c = \<lparr>cl_id = ident, cl_pattern = pattern, cl_owner = owner,
                          cl_workspace_id = workspace_id, cl_created_at = now,
                          cl_expires_at = i64_saturating_add now (int ttl_seconds)\<rparr>
                 in rbind (insert_claim c rows) (\<lambda>rows. Inr (rows, c))))))))"

definition reg_active :: "int result \<Rightarrow> registry \<Rightarrow> (registry \<times> claim_record list) result" where
  "reg_active clock rows =
     rbind clock (\<lambda>now.
     let rows = drop_expired now rows
     in Inr (rows, sort_key (\<lambda>c. (cl_pattern c, cl_owner c, cl_id c)) rows))"

definition reg_release ::
  "registry \<Rightarrow> string \<Rightarrow> string \<Rightarrow> string \<Rightarrow> (registry \<times> claim_record list) result" where
  "reg_release rows selector owner workspace_id =
     rbind (validate_owner owner) (\<lambda>_.
     let released = sort_key cl_id
           (filter (\<lambda>c. (cl_id c = selector \<or> cl_pattern c = selector) \<and>
                        cl_owner c = owner \<and> cl_workspace_id c = workspace_id) rows)
     in ensure (released \<noteq> [])
          (''no claim `'' @ selector @ ''` is held by '' @ owner @ '' in this workspace'')
          (Inr (foldl (\<lambda>rows c. filter (\<lambda>d. cl_id d \<noteq> cl_id c) rows) rows released, released)))"

text \<open>\<open>INSERT OR REPLACE\<close> of each given claim.\<close>

definition reg_restore :: "registry \<Rightarrow> claim_record list \<Rightarrow> registry" where
  "reg_restore rows claims =
     foldl (\<lambda>rows c. filter (\<lambda>d. cl_id d \<noteq> cl_id c) rows @ [c]) rows claims"

definition reg_release_workspace :: "registry \<Rightarrow> string \<Rightarrow> registry \<times> nat" where
  "reg_release_workspace rows workspace_id =
     (filter (\<lambda>c. cl_workspace_id c \<noteq> workspace_id) rows,
      length (filter (\<lambda>c. cl_workspace_id c = workspace_id) rows))"

end
