(* ===== verification/Claims_Theorems.thy ===== *)
theory Claims_Theorems
  imports Claims
begin

text \<open>
  What the claim registry guarantees. A pattern is read as a list of tokens, each of which
  stands for a set of byte strings; a pattern covers the paths that are a concatenation of
  words of its tokens. The memoised matcher decides exactly this, two patterns that cover a
  common path are always found to overlap, and so the registry never holds two claims of
  different holders that cover a common path.
\<close>

section \<open>The meaning of a pattern\<close>

datatype token =
    Lit byte                               \<comment> \<open>this byte\<close>
  | OneOf bool "(byte \<times> byte) list"        \<comment> \<open>a byte inside (or, negated, outside) some ranges\<close>
  | AnyByte                                \<comment> \<open>\<open>?\<close>\<close>
  | AnyName                                \<comment> \<open>\<open>*\<close>\<close>
  | AnyPath                                \<comment> \<open>\<open>**\<close>\<close>

definition in_ranges :: "(byte \<times> byte) list \<Rightarrow> byte \<Rightarrow> bool" where
  "in_ranges rs v \<longleftrightarrow> list_ex (\<lambda>(a, b). a \<le> v \<and> v \<le> b) rs"

fun token_word :: "token \<Rightarrow> bytes \<Rightarrow> bool" where
  "token_word (Lit c) w \<longleftrightarrow> w = [c]"
| "token_word (OneOf neg rs) w \<longleftrightarrow> (\<exists>v. w = [v] \<and> v \<noteq> CHR ''/'' \<and> in_ranges rs v \<noteq> neg)"
| "token_word AnyByte w \<longleftrightarrow> (\<exists>v. w = [v] \<and> v \<noteq> CHR ''/'')"
| "token_word AnyName w \<longleftrightarrow> CHR ''/'' \<notin> set w"
| "token_word AnyPath w \<longleftrightarrow> True"

primrec words_of :: "token list \<Rightarrow> bytes \<Rightarrow> bool" where
  "words_of [] s \<longleftrightarrow> s = []"
| "words_of (t # ts) s \<longleftrightarrow> (\<exists>u v. s = u @ v \<and> token_word t u \<and> words_of ts v)"

text \<open>The ranges of a bracket expression and what follows them, the closing bracket included.\<close>

fun class_items :: "bytes \<Rightarrow> (byte \<times> byte) list \<times> bytes" where
  "class_items [] = ([], [])"
| "class_items (c # cs) =
     (if c = CHR '']'' then ([], c # cs)
      else if 2 \<le> length cs \<and> hd cs = CHR ''-'' \<and> hd (tl cs) \<noteq> CHR '']''
      then apfst (Cons (c, hd (tl cs))) (class_items (tl (tl cs)))
      else apfst (Cons (c, c)) (class_items cs))"

definition parse_class :: "bytes \<Rightarrow> (bool \<times> (byte \<times> byte) list \<times> bytes) option" where
  "parse_class cs =
     (let neg = (cs \<noteq> [] \<and> (hd cs = CHR ''!'' \<or> hd cs = CHR ''^''));
          (items, rest) = class_items (if neg then tl cs else cs)
      in if items = [] \<or> rest = [] then None else Some (neg, items, tl rest))"

lemma class_items_suffix: "suffix (snd (class_items cs)) cs"
proof (induction cs rule: class_items.induct)
  case (2 c cs)
  have "suffix (tl (tl cs)) cs" by (metis suffix_order.trans suffix_tl)
  with 2 show ?case by (auto simp: suffix_Cons intro: suffix_order.trans)
qed simp

lemma class_items_shorter: "length (snd (class_items cs)) \<le> length cs"
  using class_items_suffix by (rule suffix_length_le)

lemma class_items_Nil_iff: "fst (class_items cs) = [] \<longleftrightarrow> length (snd (class_items cs)) = length cs"
proof (cases cs)
  case (Cons c ds)
  then show ?thesis
    using class_items_shorter [of ds] class_items_shorter [of "tl (tl ds)"] by auto
qed simp

lemma parse_class_suffix:
  assumes "parse_class cs = Some (neg, items, rest)"
  shows "suffix rest cs"
proof -
  let ?body = "if neg then tl cs else cs"
  have "rest = tl (snd (class_items ?body))"
    using assms by (auto simp: parse_class_def Let_def split_beta split: if_splits)
  moreover have "suffix ?body cs" by (simp add: suffix_tl)
  ultimately show ?thesis
    using class_items_suffix [of ?body] by (metis suffix_order.trans suffix_tl)
qed

function tokens :: "bytes \<Rightarrow> token list" where
  "tokens [] = []"
| "tokens (c # cs) =
     (if c = CHR ''*'' then
        (case cs of
           [] \<Rightarrow> [AnyName]
         | d # ds \<Rightarrow> if d = CHR ''*'' then AnyPath # tokens ds else AnyName # tokens cs)
      else if c = CHR ''?'' then AnyByte # tokens cs
      else if c = CHR ''['' then
        (case parse_class cs of
           None \<Rightarrow> Lit c # tokens cs
         | Some (neg, items, rest) \<Rightarrow> OneOf neg items # tokens rest)
      else Lit c # tokens cs)"
  by pat_completeness auto
termination
  by (relation "measure length") (auto dest!: parse_class_suffix suffix_length_le)

definition covers :: "string \<Rightarrow> bytes \<Rightarrow> bool" where
  "covers pattern path \<longleftrightarrow> words_of (tokens pattern) path"

section \<open>Stepping through a word\<close>

named_theorems word_steps \<open>membership in the words of a token list, one byte at a time\<close>

lemma words_of_Lit [word_steps]:
  "words_of (Lit c # ts) s \<longleftrightarrow> (\<exists>cs. s = c # cs \<and> words_of ts cs)"
  by auto

lemma words_of_single:
  assumes "\<And>w. token_word t w \<longleftrightarrow> (\<exists>v. w = [v] \<and> P v)"
  shows "words_of (t # ts) s \<longleftrightarrow> (\<exists>v cs. s = v # cs \<and> P v \<and> words_of ts cs)"
  unfolding words_of.simps assms by (metis append_Cons append_Nil)

lemma words_of_OneOf [word_steps]:
  "words_of (OneOf neg rs # ts) s \<longleftrightarrow>
     (\<exists>v cs. s = v # cs \<and> (v \<noteq> CHR ''/'' \<and> in_ranges rs v \<noteq> neg) \<and> words_of ts cs)"
  by (rule words_of_single) simp

lemma words_of_AnyByte [word_steps]:
  "words_of (AnyByte # ts) s \<longleftrightarrow> (\<exists>v cs. s = v # cs \<and> v \<noteq> CHR ''/'' \<and> words_of ts cs)"
  by (rule words_of_single) simp

lemma words_of_AnyName [word_steps]:
  "words_of (AnyName # ts) s \<longleftrightarrow>
     words_of ts s \<or> (\<exists>v cs. s = v # cs \<and> v \<noteq> CHR ''/'' \<and> words_of (AnyName # ts) cs)"
  (is "?L \<longleftrightarrow> ?R")
proof
  assume ?L
  then obtain u w where s: "s = u @ w" "CHR ''/'' \<notin> set u" "words_of ts w" by auto
  then show ?R by (cases u) auto
next
  assume ?R
  then show ?L
  proof (elim disjE exE conjE)
    assume "words_of ts s" then show ?L by (auto intro: exI [of _ "[]"])
  next
    fix v cs assume v: "s = v # cs" "v \<noteq> CHR ''/''" and "words_of (AnyName # ts) cs"
    then obtain u w where "cs = u @ w" "CHR ''/'' \<notin> set u" "words_of ts w" by auto
    with v have "s = (v # u) @ w" "CHR ''/'' \<notin> set (v # u)" by auto
    with \<open>words_of ts w\<close> show ?L by (metis token_word.simps(4) words_of.simps(2))
  qed
qed

lemma words_of_AnyPath [word_steps]:
  "words_of (AnyPath # ts) s \<longleftrightarrow>
     words_of ts s \<or> (\<exists>v cs. s = v # cs \<and> words_of (AnyPath # ts) cs)" (is "?L \<longleftrightarrow> ?R")
proof
  assume ?L
  then obtain u w where s: "s = u @ w" "words_of ts w" by auto
  then show ?R by (cases u) auto
next
  assume ?R
  then show ?L by (metis append_Cons append_Nil token_word.simps(5) words_of.simps(2))
qed

section \<open>Bracket expressions\<close>

lemma class_loop_items:
  assumes "i \<le> length pattern"
  shows "class_loop pattern v i m =
     (length pattern - length (snd (class_items (drop i pattern))),
      m \<or> in_ranges (fst (class_items (drop i pattern))) v)"
  using assms
proof (induction pattern v i m rule: class_loop.induct)
  case (1 pattern v i m)
  show ?case
  proof (cases "i < length pattern \<and> pattern ! i \<noteq> CHR '']''")
    case False
    then show ?thesis
      using "1.prems" class_loop.simps [of pattern v i m]
      by (cases "i = length pattern") (auto simp: Cons_nth_drop_Suc [symmetric] in_ranges_def)
  next
    case in_loop: True
    then have d0: "drop i pattern = pattern ! i # drop (Suc i) pattern"
      by (simp add: Cons_nth_drop_Suc)
    show ?thesis
    proof (cases "i + 2 < length pattern \<and> pattern ! (i + 1) = CHR ''-'' \<and> pattern ! (i + 2) \<noteq> CHR '']''")
      case True
      then have "2 \<le> length (drop (Suc i) pattern)" "hd (drop (Suc i) pattern) = CHR ''-''"
          "hd (tl (drop (Suc i) pattern)) = pattern ! (i + 2)"
          "tl (tl (drop (Suc i) pattern)) = drop (i + 3) pattern"
        by (auto simp: hd_drop_conv_nth tl_drop drop_Suc [symmetric] numeral_eq_Suc)
      then show ?thesis
        using "1.IH"(1)[OF in_loop True] True in_loop class_loop.simps [of pattern v i m]
        by (auto simp: d0 in_ranges_def)
    next
      case False
      then have "class_items (drop i pattern) =
          apfst (Cons (pattern ! i, pattern ! i)) (class_items (drop (Suc i) pattern))"
        using in_loop by (auto simp: d0 hd_drop_conv_nth tl_drop drop_Suc [symmetric])
      then show ?thesis
        using "1.IH"(2)[OF in_loop False] False in_loop class_loop.simps [of pattern v i m]
        by (auto simp: in_ranges_def)
    qed
  qed
qed

lemma character_class_parse:
  assumes i: "i < length pattern" and v: "v \<noteq> CHR ''/''"
  shows "character_class pattern i (Some v) =
     (case parse_class (drop (Suc i) pattern) of
        None \<Rightarrow> None
      | Some (neg, items, rest) \<Rightarrow> Some (in_ranges items v \<noteq> neg, length pattern - length rest))"
proof -
  let ?cs = "drop (Suc i) pattern"
  define neg where "neg \<longleftrightarrow> ?cs \<noteq> [] \<and> (hd ?cs = CHR ''!'' \<or> hd ?cs = CHR ''^'')"
  define start where "start = i + 1 + (if neg then 1 else 0)"
  obtain items rest where ir: "class_items (drop start pattern) = (items, rest)"
    by (cases "class_items (drop start pattern)")
  have negated: "slice_get pattern (i + 1) = Some (CHR ''!'') \<or> slice_get pattern (i + 1) = Some (CHR ''^'') \<longleftrightarrow> neg"
    by (auto simp: neg_def slice_get_def hd_drop_conv_nth)
  have start: "start \<le> length pattern" "(if neg then tl ?cs else ?cs) = drop start pattern"
    using i by (auto simp: start_def neg_def tl_drop drop_Suc)
  have suffix: "suffix rest (drop start pattern)"
    using class_items_suffix [of "drop start pattern"] ir by simp
  then have len: "length rest \<le> length pattern - start"
    using suffix_length_le by fastforce
  have empty: "items = [] \<longleftrightarrow> length rest = length pattern - start"
    using class_items_Nil_iff [of "drop start pattern"] ir by simp
  have "class_loop pattern v start False = (length pattern - length rest, in_ranges items v)"
    using class_loop_items [OF start(1), of v False] ir by simp
  then have "character_class pattern i (Some v) =
      (if length pattern - length rest = length pattern \<or> length pattern - length rest = start then None
       else Some (in_ranges items v \<noteq> neg, length pattern - length rest + 1))"
    using v negated by (auto simp: character_class_def Let_def start_def)
  moreover have "parse_class ?cs = (if items = [] \<or> rest = [] then None else Some (neg, items, tl rest))"
    unfolding parse_class_def Let_def neg_def [symmetric] start(2) ir by simp
  ultimately show ?thesis
    using len start(1) empty by (cases rest) auto
qed

section \<open>The memoised matcher\<close>

text \<open>What the two indices stand for, and when the table is right about it.\<close>

abbreviation covers_at :: "bytes \<Rightarrow> bytes \<Rightarrow> nat \<Rightarrow> nat \<Rightarrow> bool" where
  "covers_at pattern path i j \<equiv> words_of (tokens (drop i pattern)) (drop j path)"

definition slot_of :: "bytes \<Rightarrow> nat \<Rightarrow> nat \<Rightarrow> nat" where
  "slot_of path i j = i * (length path + 1) + j"

definition memo_ok :: "bytes \<Rightarrow> bytes \<Rightarrow> bool option list \<Rightarrow> bool" where
  "memo_ok pattern path memo \<longleftrightarrow>
     length memo = (length pattern + 1) * (length path + 1) \<and>
     (\<forall>i\<le>length pattern. \<forall>j\<le>length path. \<forall>r.
        memo ! slot_of path i j = Some r \<longrightarrow> r = covers_at pattern path i j)"

definition answers :: "bytes \<Rightarrow> bytes \<Rightarrow> bool \<Rightarrow> (bool \<times> bool option list) option \<Rightarrow> bool" where
  "answers pattern path b r \<longleftrightarrow> (\<exists>memo. r = Some (b, memo) \<and> memo_ok pattern path memo)"

lemma slot_less:
  assumes "i \<le> length pattern" "j \<le> length path"
  shows "slot_of path i j < (length pattern + 1) * (length path + 1)"
  using mult_le_mono1 [OF assms(1), of "length path + 1"] assms(2)
  by (simp add: slot_of_def algebra_simps)

lemma slot_inj:
  assumes "slot_of path i j = slot_of path i' j'" and "j \<le> length path" and "j' \<le> length path"
  shows "i = i' \<and> j = j'"
proof -
  have "slot_of path a b div (length path + 1) = a" if "b \<le> length path" for a b
    using that by (subst slot_of_def) (simp only: div_mult_self3, simp)
  with assms have "i = i'" by metis
  with assms(1) show ?thesis by (simp add: slot_of_def)
qed

lemma memo_ok_update:
  assumes "memo_ok pattern path memo" and "i \<le> length pattern" "j \<le> length path"
  shows "memo_ok pattern path (memo[slot_of path i j := Some (covers_at pattern path i j)])"
proof -
  have "slot_of path i j < length memo"
    using assms slot_less by (simp add: memo_ok_def)
  then show ?thesis
    using assms by (auto simp: memo_ok_def nth_list_update dest!: slot_inj)
qed

lemma answers_store:
  assumes "answers pattern path (covers_at pattern path i j) r" "i \<le> length pattern" "j \<le> length path"
  shows "answers pattern path (covers_at pattern path i j)
     (map_option (\<lambda>(result, memo). (result, memo[slot_of path i j := Some result])) r)"
  using assms memo_ok_update by (auto simp: answers_def)

lemma tokens_drop:
  "i < length pattern \<Longrightarrow> tokens (drop i pattern) = tokens (pattern ! i # drop (Suc i) pattern)"
  by (simp add: Cons_nth_drop_Suc)

lemma answers_const: "memo_ok pattern path memo \<Longrightarrow> b = r \<Longrightarrow> answers pattern path b (Some (r, memo))"
  by (simp add: answers_def)

lemma slice_get_drop: "slice_get path j = (case drop j path of [] \<Rightarrow> None | c # _ \<Rightarrow> Some c)"
  by (cases "j < length path") (simp_all add: slice_get_def Cons_nth_drop_Suc [symmetric])

lemma drop_eq_ConsD: "drop j xs = y # ys \<Longrightarrow> j < length xs \<and> xs ! j = y \<and> drop (Suc j) xs = ys"
  by (metis Cons_nth_drop_Suc drop_eq_Nil2 linorder_not_le list.distinct(1) list.inject)

lemma covers_star:
  assumes "i < length pattern" "pattern ! i = CHR ''*''"
    and "rec \<longleftrightarrow> slice_get pattern (i + 1) = Some (CHR ''*'')" "n = i + (if rec then 2 else 1)"
  shows "covers_at pattern path i j \<longleftrightarrow>
     covers_at pattern path n j \<or>
     (j < length path \<and> (rec \<or> path ! j \<noteq> CHR ''/'')) \<and> covers_at pattern path i (j + 1)"
proof -
  have "tokens (drop i pattern) = (if rec then AnyPath else AnyName) # tokens (drop n pattern)"
    using assms by (auto simp: tokens_drop slice_get_drop split: list.split dest: drop_eq_ConsD)
  moreover have "j < length path \<longleftrightarrow> (\<exists>v cs. drop j path = v # cs)"
    by (metis drop_eq_ConsD Cons_nth_drop_Suc)
  ultimately show ?thesis
    using words_of_AnyPath [of "tokens (drop n pattern)" "drop j path"]
      words_of_AnyName [of "tokens (drop n pattern)" "drop j path"]
    by (auto simp del: words_of.simps dest: drop_eq_ConsD split: if_splits)
qed

lemma covers_question:
  assumes "i < length pattern" "pattern ! i = CHR ''?''"
  shows "covers_at pattern path i j \<longleftrightarrow>
     (j < length path \<and> path ! j \<noteq> CHR ''/'') \<and> covers_at pattern path (i + 1) (j + 1)"
  using assms by (cases "drop j path")
    (auto simp: tokens_drop words_of_AnyByte simp del: words_of.simps dest: drop_eq_ConsD)

lemma covers_literal:
  assumes "i < length pattern" "tokens (drop i pattern) = Lit c # tokens (drop (i + 1) pattern)"
  shows "covers_at pattern path i j \<longleftrightarrow>
     slice_get path j = Some c \<and> covers_at pattern path (i + 1) (j + 1)"
  unfolding assms(2) words_of_Lit slice_get_drop
  by (cases "drop j path") (auto dest: drop_eq_ConsD)

lemma covers_bracket:
  assumes "i < length pattern" "pattern ! i = CHR ''[''"
  shows "covers_at pattern path i j \<longleftrightarrow>
     (case character_class pattern i (slice_get path j) of
        Some (m, n) \<Rightarrow> m \<and> covers_at pattern path n (j + 1)
      | None \<Rightarrow> slice_get path j = Some (CHR ''['') \<and> covers_at pattern path (i + 1) (j + 1))"
proof (cases "parse_class (drop (Suc i) pattern)")
  case None
  then have "tokens (drop i pattern) = Lit (CHR ''['') # tokens (drop (i + 1) pattern)"
    using assms by (simp add: tokens_drop)
  moreover have "character_class pattern i (slice_get path j) = None"
    using None character_class_parse [OF assms(1)]
    by (cases "slice_get path j") (auto simp: character_class_def)
  ultimately show ?thesis using covers_literal [OF assms(1)] by simp
next
  case (Some p)
  obtain neg items rest where p: "p = (neg, items, rest)" by (cases p)
  with Some have toks: "tokens (drop i pattern) = OneOf neg items # tokens rest"
    using assms by (simp add: tokens_drop)
  have "suffix rest pattern"
    using parse_class_suffix Some p by (metis suffix_drop suffix_order.trans)
  then have rest: "drop (length pattern - length rest) pattern = rest"
    by (auto simp: suffix_def)
  show ?thesis
  proof (cases "\<exists>v cs. drop j path = v # cs \<and> v \<noteq> CHR ''/''")
    case True
    then obtain v cs where v: "drop j path = v # cs" "v \<noteq> CHR ''/''" by blast
    then show ?thesis
      using character_class_parse [OF assms(1) v(2)] Some p rest
      by (simp add: toks words_of_OneOf slice_get_drop drop_eq_ConsD [OF v(1)] del: words_of.simps)
  next
    case False
    then have "character_class pattern i (slice_get path j) = None" "slice_get path j \<noteq> Some (CHR ''['')"
      by (auto simp: character_class_def slice_get_drop split: list.split)
    with False show ?thesis by (auto simp: toks words_of_OneOf simp del: words_of.simps)
  qed
qed

lemma character_class_le:
  assumes "i < length pattern" "character_class pattern i c = Some (m, n)"
  shows "n \<le> length pattern"
proof -
  obtain v where "c = Some v" "v \<noteq> CHR ''/''"
    using assms(2) by (cases c) (auto simp: character_class_def split: if_splits)
  then show ?thesis
    using assms character_class_parse by (auto split: option.splits)
qed

lemma answers_and:
  assumes "b \<Longrightarrow> answers pattern path c r" and "memo_ok pattern path memo"
  shows "answers pattern path (b \<and> c) (if b then r else Some (False, memo))"
  using assms by (simp add: answers_def)

lemma answers_star:
  assumes "i < length pattern" "pattern ! i = CHR ''*''"
    and "rec \<longleftrightarrow> slice_get pattern (i + 1) = Some (CHR ''*'')" "n = i + (if rec then 2 else 1)"
    and "answers pattern path (covers_at pattern path n j) r"
    and "\<And>b y. r = Some (b, y) \<Longrightarrow> \<not> b \<Longrightarrow> j < length path \<and> (rec \<or> path ! j \<noteq> CHR ''/'') \<Longrightarrow>
       memo_ok pattern path y \<Longrightarrow> answers pattern path (covers_at pattern path i (j + 1)) (f y)"
  shows "answers pattern path (covers_at pattern path i j)
     (Option.bind r (\<lambda>(b, y).
        if b then Some (True, y)
        else if j < length path \<and> (rec \<or> path ! j \<noteq> CHR ''/'') then f y
        else Some (False, y)))"
proof -
  obtain y where y: "r = Some (covers_at pattern path n j, y)" "memo_ok pattern path y"
    using assms(5) by (auto simp: answers_def)
  show ?thesis
  proof (cases "covers_at pattern path n j")
    case True
    then show ?thesis
      using y by (simp add: covers_star [OF assms(1-4), of j path] answers_const)
  next
    case False
    let ?b = "j < length path \<and> (rec \<or> path ! j \<noteq> CHR ''/'')"
    have "answers pattern path (?b \<and> covers_at pattern path i (j + 1))
        (if ?b then f y else Some (False, y))"
      by (rule answers_and [OF assms(6)[OF y(1) False _ y(2)] y(2)])
    with False show ?thesis
      unfolding covers_star [OF assms(1-4), of j path] y(1) bind.bind_lunit prod.case
      by (simp only: if_False simp_thms)
  qed
qed

lemma answers_bracket:
  assumes "i < length pattern" "pattern ! i = CHR ''[''" "memo_ok pattern path memo"
    and "\<And>n. character_class pattern i (slice_get path j) = Some (True, n) \<Longrightarrow> j < length path \<Longrightarrow>
       answers pattern path (covers_at pattern path n (j + 1)) (f n)"
    and "slice_get path j = Some (CHR ''['') \<Longrightarrow> character_class pattern i (slice_get path j) = None \<Longrightarrow>
       answers pattern path (covers_at pattern path (i + 1) (j + 1)) (f (i + 1))"
  shows "answers pattern path (covers_at pattern path i j)
     (case character_class pattern i (slice_get path j) of
        Some (matches, next) \<Rightarrow> if matches then f next else Some (False, memo)
      | None \<Rightarrow> if slice_get path j = Some (CHR ''['') then f (i + 1) else Some (False, memo))"
proof (cases "character_class pattern i (slice_get path j)")
  case None
  then show ?thesis
    using assms(3,5) by (auto simp: covers_bracket [OF assms(1,2), of j path] answers_const)
next
  case (Some mn)
  then have "j < length path"
    by (cases "j < length path") (simp_all add: slice_get_def character_class_def)
  then show ?thesis
    using assms(3,4) Some
    by (cases mn) (simp add: covers_bracket [OF assms(1,2), of j path] answers_const)
qed

lemma glob_match_answers:
  assumes "memo_ok pattern path memo" "i \<le> length pattern" "j \<le> length path"
    and "width = length path + 1"
  shows "answers pattern path (covers_at pattern path i j) (glob_match pattern path i j width memo)"
  using assms
proof (induction pattern path i j width memo rule: glob_match.induct)
  case (1 pattern path i j width memo)
  let ?slot = "i * width + j"
  have slot: "?slot = slot_of path i j" by (simp add: slot_of_def "1.prems"(4))
  then have inside: "\<not> length memo \<le> ?slot"
    using slot_less [of i pattern j path] "1.prems" by (simp add: memo_ok_def)
  show ?case
  proof (cases "memo ! ?slot")
    case (Some r)
    then have "glob_match pattern path i j width memo = Some (r, memo)"
      using inside by (simp add: glob_match.simps)
    with Some "1.prems" slot show ?thesis
      by (auto simp: memo_ok_def intro!: answers_const)
  next
    case None
    note IH = "1.IH"[OF refl inside None]
    note const = answers_const [OF "1.prems"(1)]
    have store: "answers pattern path (covers_at pattern path i j) (glob_match pattern path i j width memo)"
      if "answers pattern path (covers_at pattern path i j) body"
        and "glob_match pattern path i j width memo =
          map_option (\<lambda>(result, memo). (result, memo[?slot := Some result])) body" for body
      using answers_store [OF that(1) "1.prems"(2,3)] that(2) slot by simp
    note unfolded = glob_match.simps [of pattern path i j width memo, unfolded Let_def,
        unfolded if_not_P [OF inside] None option.case]
    show ?thesis
    proof (rule store [OF _ unfolded], goal_cases)
      case 1
      show ?case
      proof (cases "i = length pattern")
        case True
        then show ?thesis using "1.prems"(3) by (auto intro!: const)
      next
        case False
        then have i: "i < length pattern" "\<not> length pattern < i" using "1.prems"(2) by auto
        note IH = IH [OF False i(2)]
        consider (star) "pattern ! i = CHR ''*''" | (question) "pattern ! i = CHR ''?''"
          | (bracket) "pattern ! i = CHR ''[''"
          | (literal) "pattern ! i \<notin> {CHR ''*'', CHR ''?'', CHR ''[''}" by auto
        then show ?thesis
        proof cases
          case star
          let ?rec = "slice_get pattern (i + 1) = Some (CHR ''*'')"
          have n: "i + (if ?rec then 2 else 1) \<le> length pattern" using i by (auto simp: slice_get_def)
          show ?thesis
            unfolding if_not_P [OF False] if_not_P [OF i(2)] if_P [OF star]
          proof (rule answers_star [OF i(1) star refl refl])
            show "answers pattern path (covers_at pattern path (i + (if ?rec then 2 else 1)) j)
                (glob_match pattern path (i + (if ?rec then 2 else 1)) j width memo)"
              by (rule IH(1)[OF star refl refl "1.prems"(1) n "1.prems"(3,4)])
          next
            fix r y
            assume "glob_match pattern path (i + (if ?rec then 2 else 1)) j width memo = Some (r, y)" "\<not> r"
              and j: "j < length path \<and> (?rec \<or> path ! j \<noteq> CHR ''/'')" and "memo_ok pattern path y"
            with IH(2)[OF star refl refl this(1) refl this(2) j] "1.prems"(2,4)
            show "answers pattern path (covers_at pattern path i (j + 1))
                (glob_match pattern path i (j + 1) width y)"
              by simp
          qed
        next
          case question
          then show ?thesis
            using covers_question [OF i(1) question] IH(3) "1.prems" i False by (auto intro!: const)
        next
          case bracket
          then have other: "pattern ! i \<noteq> CHR ''*''" "pattern ! i \<noteq> CHR ''?''" by simp_all
          show ?thesis
            unfolding if_not_P [OF False] if_not_P [OF i(2)] if_P [OF bracket]
              if_not_P [OF other(1)] if_not_P [OF other(2)]
          proof (rule answers_bracket [OF i(1) bracket "1.prems"(1)])
            fix n assume n: "character_class pattern i (slice_get path j) = Some (True, n)" and "j < length path"
            then show "answers pattern path (covers_at pattern path n (j + 1))
                (glob_match pattern path n (j + 1) width memo)"
              using IH(5)[OF other bracket n refl TrueI "1.prems"(1) character_class_le [OF i(1) n]]
                "1.prems"(4) by simp
          next
            assume "slice_get path j = Some (CHR ''['')" "character_class pattern i (slice_get path j) = None"
            then show "answers pattern path (covers_at pattern path (i + 1) (j + 1))
                (glob_match pattern path (i + 1) (j + 1) width memo)"
              using IH(4)[OF other bracket] "1.prems"(1,4) i(1) by (simp add: slice_get_def split: if_splits)
          qed
        next
          case literal
          then have "tokens (drop i pattern) = Lit (pattern ! i) # tokens (drop (i + 1) pattern)"
            using i(1) by (simp add: tokens_drop)
          then show ?thesis
            using covers_literal [OF i(1), of _ j path] IH(6) literal "1.prems" i False
            by (auto simp: slice_get_def intro!: const)
        qed
      qed
    qed
  qed
qed

lemma matches_path_small:
  assumes "(length pattern + 1) * (length path + 1) < 2 ^ 64"
  shows "matches_path pattern path = map_option fst (glob_match pattern path 0 0 (length path + 1)
     (replicate ((length pattern + 1) * (length path + 1)) None))"
proof -
  have "min (2 ^ 64 - 1) ((length pattern + 1) * (length path + 1)) =
      (length pattern + 1) * (length path + 1)"
    using assms by simp
  then show ?thesis by (simp only: matches_path_def Let_def)
qed

lemma matcher_exact:
  assumes "(length pattern + 1) * (length path + 1) < 2 ^ 64"
  shows "matches_path pattern path = Some (covers pattern path)"
proof -
  let ?n = "(length pattern + 1) * (length path + 1)"
  have "slot_of path i j < ?n" if "i \<le> length pattern" "j \<le> length path" for i j
    by (rule slot_less [OF that])
  then have "memo_ok pattern path (replicate ?n None)"
    unfolding memo_ok_def by (simp del: mult_Suc mult_Suc_right)
  then have "answers pattern path (covers_at pattern path 0 0)
      (glob_match pattern path 0 0 (length path + 1) (replicate ?n None))"
    by (rule glob_match_answers) simp_all
  then show ?thesis
    by (auto simp only: matches_path_small [OF assms] covers_def answers_def option.map fst_conv drop_0)
qed

text \<open>
  C34: \<open>matches_path\<close> never indexes outside its table or its arguments, and it answers
  whether the path is a concatenation of words of the pattern's tokens: a literal byte, one
  byte of a bracket expression, one byte other than \<open>/\<close> for \<open>?\<close>, any bytes other than
  \<open>/\<close> for \<open>*\<close>, any bytes at all for \<open>**\<close>. The table of known results changes nothing. The
  table must be addressable, as it is for every path that a file system can hold.
\<close>

theorem matches_path_covers:
  assumes "(length pattern + 1) * (length path + 1) < 2 ^ 64"
  shows "matches_path pattern path = Some (covers pattern path)"
  using assms by (rule matcher_exact)

theorem matches_path_covers_witness:
  "matches_path ''a[0-9]/**'' ''a7/x/y'' = Some True \<and> covers ''a[0-9]/**'' ''a7/x/y'' \<and>
   matches_path ''a/*.c'' ''a/b/x.c'' = Some False \<and> \<not> covers ''a/*.c'' ''a/b/x.c''"
proof -
  have "matches_path ''a[0-9]/**'' ''a7/x/y'' = Some True"
    by (subst matches_path_small, simp) code_simp
  moreover have "matches_path ''a/*.c'' ''a/b/x.c'' = Some False"
    by (subst matches_path_small, simp) code_simp
  ultimately show ?thesis
    using matches_path_covers [of "''a[0-9]/**''" "''a7/x/y''"]
      matches_path_covers [of "''a/*.c''" "''a/b/x.c''"] by simp
qed

section \<open>Patterns that cover a common path overlap\<close>

lemma tokens_literal:
  "\<not> contains_wildcard c \<Longrightarrow> tokens (c @ rest) = map Lit c @ tokens rest"
  by (induction c) (auto simp: contains_wildcard_def)

lemma words_of_literal: "words_of (map Lit c @ ts) s \<longleftrightarrow> (\<exists>s'. s = c @ s' \<and> words_of ts s')"
  by (induction c arbitrary: s) (auto simp: words_of_Lit simp del: words_of.simps(2))

lemma covers_literal_append:
  assumes "\<not> contains_wildcard c"
  shows "covers (c @ rest) s \<longleftrightarrow> (\<exists>s'. s = c @ s' \<and> covers rest s')"
  using assms by (simp add: covers_def tokens_literal words_of_literal)

lemma covers_Nil [simp]: "covers [] s \<longleftrightarrow> s = []"
  by (simp add: covers_def)

lemma covers_slash: "covers (CHR ''/'' # rest) s \<longleftrightarrow> (\<exists>s'. s = CHR ''/'' # s' \<and> covers rest s')"
  using covers_literal_append [of "[CHR ''/'']"] by (simp add: contains_wildcard_def)

text \<open>A covered path begins with the literal components of the pattern.\<close>

lemma covers_literal_prefix:
  assumes "covers pattern path"
  shows "prefix (literal_prefix pattern) (split_on CHR ''/'' path)"
proof -
  have "prefix (takeWhile (\<lambda>c. \<not> contains_wildcard c) cs) (split_on CHR ''/'' s)"
    if "cs \<noteq> []" "\<forall>c\<in>set cs. CHR ''/'' \<notin> set c" "covers (join_with CHR ''/'' cs) s" for cs s
    using that
  proof (induction cs arbitrary: s)
    case (Cons c cs)
    show ?case
    proof (cases "contains_wildcard c")
      case False
      show ?thesis
      proof (cases "cs = []")
        case True
        then have "s = c" using Cons.prems(3) False covers_literal_append [of c "[]"] by auto
        with True Cons.prems(2) show ?thesis by (simp add: split_on_no_sep)
      next
        case rest: False
        obtain s' where s: "s = c @ CHR ''/'' # s'" "covers (join_with CHR ''/'' cs) s'"
          using Cons.prems(3) False rest by (auto simp: join_with_Cons covers_literal_append covers_slash)
        with Cons rest show ?thesis by (simp add: split_on_append_sep)
      qed
    qed simp
  qed simp
  from this [of "split_on CHR ''/'' pattern" path] assms show ?thesis
    by (simp add: literal_prefix_def split_on_pieces)
qed

lemma component_prefix_iff: "component_prefix xs ys \<longleftrightarrow> prefix xs ys"
proof
  show "prefix xs ys \<Longrightarrow> component_prefix xs ys"
    by (auto simp: component_prefix_def prefix_def nth_append list_all_iff set_zip)
next
  assume "component_prefix xs ys"
  then have "xs = take (length xs) ys"
    by (intro nth_equalityI) (auto simp: component_prefix_def list_all_length)
  then show "prefix xs ys" by (metis take_is_prefix)
qed

lemma patterns_may_overlap_sym: "patterns_may_overlap p q = patterns_may_overlap q p"
  by (auto simp: patterns_may_overlap_def Let_def)

lemma common_path_overlaps:
  assumes "covers p path" and "covers q path"
  shows "patterns_may_overlap p q"
proof (cases "contains_wildcard p \<or> contains_wildcard q")
  case True
  have "prefix (literal_prefix p) (literal_prefix q) \<or> prefix (literal_prefix q) (literal_prefix p)"
    using assms [THEN covers_literal_prefix] by (rule prefix_same_cases)
  with True show ?thesis by (auto simp: patterns_may_overlap_def component_prefix_iff Let_def)
next
  case False
  then have "path = p" "path = q"
    using assms covers_literal_append [of p "[]" path] covers_literal_append [of q "[]" path] by auto
  then show ?thesis by (simp add: patterns_may_overlap_def)
qed

section \<open>Exclusive claims\<close>

text \<open>
  What the registry needs of the test it runs on two patterns: it is symmetric, and it is true
  of patterns that cover a common path.
\<close>

locale overlap_test =
  fixes overlap :: "'p \<Rightarrow> 'p \<Rightarrow> bool"
    and denotes :: "'p \<Rightarrow> 'x \<Rightarrow> bool"
  assumes overlap_sym: "overlap p q \<Longrightarrow> overlap q p"
    and overlap_common: "denotes p x \<Longrightarrow> denotes q x \<Longrightarrow> overlap p q"
begin

definition exclusive :: "('r \<Rightarrow> 'h) \<Rightarrow> ('r \<Rightarrow> 'p) \<Rightarrow> 'r set \<Rightarrow> bool" where
  "exclusive holder pat R \<longleftrightarrow>
     (\<forall>c\<in>R. \<forall>d\<in>R. holder c \<noteq> holder d \<longrightarrow> \<not> overlap (pat c) (pat d))"

lemma exclusive_subset: "exclusive holder pat R \<Longrightarrow> S \<subseteq> R \<Longrightarrow> exclusive holder pat S"
  unfolding exclusive_def by blast

lemma exclusive_insert:
  assumes "exclusive holder pat R" and "\<forall>d\<in>R. holder d \<noteq> holder c \<longrightarrow> \<not> overlap (pat d) (pat c)"
  shows "exclusive holder pat (insert c R)"
  unfolding exclusive_def
proof (intro ballI impI)
  fix a b assume "a \<in> insert c R" "b \<in> insert c R" "holder a \<noteq> holder b"
  then consider "a \<in> R" "b \<in> R" | "a = c" "b \<in> R" | "a \<in> R" "b = c" by auto
  then show "\<not> overlap (pat a) (pat b)"
    using assms \<open>holder a \<noteq> holder b\<close> overlap_sym by cases (auto simp: exclusive_def)
qed

lemma exclusive_no_common:
  assumes "exclusive holder pat R" "c \<in> R" "d \<in> R" "holder c \<noteq> holder d"
  shows "\<not> (denotes (pat c) x \<and> denotes (pat d) x)"
  using assms overlap_common unfolding exclusive_def by blast

end

interpretation claims: overlap_test patterns_may_overlap covers
proof unfold_locales
  show "patterns_may_overlap p q \<Longrightarrow> patterns_may_overlap q p" for p q
    by (simp add: patterns_may_overlap_sym)
  show "covers p x \<Longrightarrow> covers q x \<Longrightarrow> patterns_may_overlap p q" for p q x
    by (rule common_path_overlaps)
qed

definition holder :: "claim_record \<Rightarrow> string \<times> string" where
  "holder c = (cl_workspace_id c, cl_owner c)"

definition registry_ok :: "registry \<Rightarrow> bool" where
  "registry_ok rows \<longleftrightarrow>
     claims.exclusive holder cl_pattern (set rows) \<and>
     distinct (map cl_id rows) \<and>
     (\<forall>c\<in>set rows. validate_pattern (cl_pattern c) = Inr ())"

text \<open>The successful operations of the registry, \<open>restore\<close> apart, as steps.\<close>

inductive reg_step :: "registry \<Rightarrow> registry \<Rightarrow> bool" where
  step_claim: "reg_claim clock new_id rows pattern owner ws ttl = Inr (rows', c) \<Longrightarrow> reg_step rows rows'"
| step_active: "reg_active clock rows = Inr (rows', cs) \<Longrightarrow> reg_step rows rows'"
| step_release: "reg_release rows selector owner ws = Inr (rows', cs) \<Longrightarrow> reg_step rows rows'"
| step_release_workspace: "reg_release_workspace rows ws = (rows', n) \<Longrightarrow> reg_step rows rows'"

inductive reg_reachable :: "registry \<Rightarrow> bool" where
  reach_empty: "reg_reachable []"
| reach_step: "reg_reachable rows \<Longrightarrow> reg_step rows rows' \<Longrightarrow> reg_reachable rows'"

inductive_cases reg_stepE: "reg_step rows rows'"

lemma registry_ok_filter: "registry_ok rows \<Longrightarrow> registry_ok (filter P rows)"
  unfolding registry_ok_def by (auto simp: distinct_map_filter elim: claims.exclusive_subset)

lemma registry_ok_insert:
  assumes "registry_ok rows" and "insert_claim c rows = Inr rows'"
    and "validate_pattern (cl_pattern c) = Inr ()"
    and "\<forall>d\<in>set rows. holder d \<noteq> holder c \<longrightarrow> \<not> patterns_may_overlap (cl_pattern d) (cl_pattern c)"
  shows "registry_ok rows'"
proof -
  have "rows' = rows @ [c]" "cl_id c \<notin> cl_id ` set rows"
    using assms(2) by (auto simp: insert_claim_def split: if_splits)
  then show ?thesis
    using assms(1,3,4) claims.exclusive_insert [of holder cl_pattern "set rows" c]
    by (simp add: registry_ok_def)
qed

lemma find_SomeD: "find P xs = Some x \<Longrightarrow> x \<in> set xs \<and> P x"
  by (induction xs) (auto split: if_splits)

lemma reg_claim_cases:
  assumes claim: "reg_claim clock new_id rows pattern owner ws ttl = Inr (rows', c)"
  obtains (held) now where "rows' = drop_expired now rows" "c \<in> set rows'"
  | (inserted) now where "insert_claim c (drop_expired now rows) = Inr rows'"
      "validate_pattern (cl_pattern c) = Inr ()"
      "\<forall>d\<in>set (drop_expired now rows). holder d \<noteq> holder c \<longrightarrow>
         \<not> patterns_may_overlap (cl_pattern d) (cl_pattern c)"
proof -
  have "validate_pattern pattern = Inr ()"
    using claim by (auto simp: reg_claim_def split: if_splits)
  obtain now where now: "clock = Inr now"
    using claim by (auto simp: reg_claim_def split: if_splits)
  let ?rows = "drop_expired now rows"
  let ?existing = "sort_key (\<lambda>c. (cl_created_at c, cl_id c)) ?rows"
  let ?mine = "find (\<lambda>c. same_holder ws owner c \<and> cl_pattern c = pattern) ?existing"
  let ?other = "find (\<lambda>c. \<not> same_holder ws owner c \<and> patterns_may_overlap (cl_pattern c) pattern) ?existing"
  show thesis
  proof (cases ?mine)
    case (Some d)
    then have "rows' = ?rows" "c = d" "d \<in> set ?rows"
      using claim now find_SomeD [OF Some] by (auto simp: reg_claim_def Let_def split: if_splits)
    then show thesis using held by simp
  next
    case None
    have other: "?other = None"
      using claim now None by (cases ?other) (auto simp: reg_claim_def Let_def split: if_splits)
    have "insert_claim c ?rows = Inr rows'" "cl_pattern c = pattern" "holder c = (ws, owner)"
      using claim now None other by (auto simp: reg_claim_def Let_def holder_def split: if_splits)
    then show thesis
      using inserted other \<open>validate_pattern pattern = Inr ()\<close> by (auto simp: find_None_iff holder_def)
  qed
qed

lemma registry_ok_step: "reg_step rows rows' \<Longrightarrow> registry_ok rows \<Longrightarrow> registry_ok rows'"
proof (induction rule: reg_step.induct)
  case (step_claim clock new_id rows pattern owner ws ttl rows' c)
  from step_claim.hyps show ?case
  proof (cases rule: reg_claim_cases)
    case (held now)
    then show ?thesis using step_claim.prems by (simp add: drop_expired_def registry_ok_filter)
  next
    case (inserted now)
    have "registry_ok (drop_expired now rows)"
      using step_claim.prems by (simp add: drop_expired_def registry_ok_filter)
    then show ?thesis using inserted by (rule registry_ok_insert)
  qed
next
  case (step_active clock rows rows' cs)
  then show ?case by (auto simp: reg_active_def drop_expired_def Let_def registry_ok_filter)
next
  case (step_release rows selector owner ws rows' cs)
  have "registry_ok (foldl (\<lambda>rows c. filter (\<lambda>d. cl_id d \<noteq> cl_id c) rows) rows xs)" for xs
    using step_release.prems by (induction xs arbitrary: rows) (simp_all add: registry_ok_filter)
  then show ?case
    using step_release.hyps by (auto simp: reg_release_def Let_def split: if_splits)
next
  case (step_release_workspace rows ws rows' n)
  then show ?case by (auto simp: reg_release_workspace_def registry_ok_filter)
qed

lemma registry_ok_reachable: "reg_reachable rows \<Longrightarrow> registry_ok rows"
proof (induction rule: reg_reachable.induct)
  case reach_empty
  show ?case by (simp add: registry_ok_def claims.exclusive_def)
qed (rule registry_ok_step)

lemma validate_pattern_length: "validate_pattern p = Inr () \<Longrightarrow> length p \<le> 1024"
  by (auto simp: validate_pattern_def MAX_PATTERN_BYTES_def split: if_splits)

text \<open>
  C35: Whatever claims, listings and releases have been made, at whatever times and by whatever
  holders, no path is matched by the patterns of two registered claims that different holders
  (workspace and owner) hold. Paths of less than \<open>2 ^ 50\<close> bytes keep the matcher's table
  addressable.
\<close>

theorem claims_exclusive:
  assumes "reg_reachable rows" and "c \<in> set rows" "d \<in> set rows"
    and "(cl_workspace_id c, cl_owner c) \<noteq> (cl_workspace_id d, cl_owner d)"
    and "length path < 2 ^ 50"
  shows "\<not> (matches_path (cl_pattern c) path = Some True \<and> matches_path (cl_pattern d) path = Some True)"
proof -
  have ok: "registry_ok rows" using assms(1) by (rule registry_ok_reachable)
  have small: "(length (cl_pattern e) + 1) * (length path + 1) < 2 ^ 64" if "e \<in> set rows" for e
  proof -
    have "length (cl_pattern e) + 1 \<le> 1025"
      using that ok validate_pattern_length by (fastforce simp: registry_ok_def)
    then have "(length (cl_pattern e) + 1) * (length path + 1) \<le> 1025 * 2 ^ 50"
      using assms(5) by (intro mult_le_mono) simp_all
    then show ?thesis by simp
  qed
  have "\<not> (covers (cl_pattern c) path \<and> covers (cl_pattern d) path)"
    using claims.exclusive_no_common [of holder cl_pattern "set rows" c d path] ok assms(2-4)
    by (simp add: registry_ok_def holder_def)
  then show ?thesis
    using matcher_exact [OF small] assms(2,3) by simp
qed

definition alice_claim :: claim_record where
  "alice_claim = \<lparr>cl_id = ''a'', cl_pattern = ''src/*'', cl_owner = ''alice'', cl_workspace_id = ''w'',
     cl_created_at = 10, cl_expires_at = 70\<rparr>"

definition bob_claim :: claim_record where
  "bob_claim = \<lparr>cl_id = ''b'', cl_pattern = ''doc/**'', cl_owner = ''bob'', cl_workspace_id = ''w'',
     cl_created_at = 11, cl_expires_at = 71\<rparr>"

lemma sample_claims_reachable: "reg_reachable [alice_claim, bob_claim]"
proof -
  have "reg_claim (Inr 10) (Inr ''a'') [] ''src/*'' ''alice'' ''w'' 60 = Inr ([alice_claim], alice_claim)"
    "reg_claim (Inr 11) (Inr ''b'') [alice_claim] ''doc/**'' ''bob'' ''w'' 60 =
      Inr ([alice_claim, bob_claim], bob_claim)"
    by (simp_all add: reg_claim_def validate_pattern_def validate_owner_def MAX_PATTERN_BYTES_def
        MAX_OWNER_BYTES_def MAX_TTL_SECONDS_def drop_expired_def insert_claim_def alice_claim_def
        bob_claim_def patterns_may_overlap_def contains_wildcard_def literal_prefix_def
        component_prefix_def i64_saturating_add_def i64_min_def i64_max_def of_char_def Let_def)
  then show ?thesis by (metis reach_empty reach_step step_claim)
qed

theorem claims_exclusive_witness:
  "reg_reachable [alice_claim, bob_claim] \<and>
   \<not> (matches_path (cl_pattern alice_claim) ''src/x'' = Some True \<and>
      matches_path (cl_pattern bob_claim) ''src/x'' = Some True)"
  using claims_exclusive [OF sample_claims_reachable, of alice_claim bob_claim "''src/x''"]
    sample_claims_reachable
  by (simp add: alice_claim_def bob_claim_def)

text \<open>
  \<open>restore\<close> makes no overlap test: restoring the claims of a pulled snapshot puts a claim
  of another holder beside one that covers the same path.
\<close>

definition carol_claim :: claim_record where
  "carol_claim = \<lparr>cl_id = ''c'', cl_pattern = ''src/x'', cl_owner = ''carol'', cl_workspace_id = ''v'',
     cl_created_at = 12, cl_expires_at = 72\<rparr>"

lemma restore_may_overlap:
  "reg_restore [alice_claim, bob_claim] [carol_claim] = [alice_claim, bob_claim, carol_claim] \<and>
   patterns_may_overlap (cl_pattern alice_claim) (cl_pattern carol_claim)"
  by code_simp

end
