(* ===== verification/Bundle.thy ===== *)
theory Bundle
  imports Object_Map
begin

text \<open>
  Snapshot bundles (\<^verbatim>\<open>furrow-core/src/bundle.rs\<close>): the objects reachable from a snapshot,
  written one after another and checked one by one when they are read.

  The object store is the object map of theory \<^verbatim>\<open>Object_Map\<close>. The temporary SQLite table of
  marks is a map from ids to the kind an id was reached with and whether it was processed, in the
  order of the ids, which is the order in which the source asks for the next mark. The input of an
  import is the unread rest of a byte string. The loop over the reachable objects runs at most as
  often as there are objects in the store, and has that bound as fuel; the loop over the records
  of a bundle consumes its input.
\<close>

definition BUNDLE_MAGIC :: bytes where "BUNDLE_MAGIC = ''AGSB'' @ [CHR 0x01]"
definition RECORD_MAGIC :: bytes where "RECORD_MAGIC = ''AGOR''"
definition END_MAGIC :: bytes where "END_MAGIC = ''AGSE''"
definition MAX_BUNDLE_OBJECT :: nat where "MAX_BUNDLE_OBJECT = 256 * 1024 * 1024"

section \<open>The edges of an object\<close>

type_synonym edge = "object_id \<times> object_kind"

definition entry_edges :: "tree_entry \<Rightarrow> edge list" where
  "entry_edges e =
     (case te_xattrs e of None \<Rightarrow> [] | Some x \<Rightarrow> [(x, Xattrs)])
     @ (case (te_kind e, te_target e) of
          (File, Some i) \<Rightarrow> [(i, Blob)]
        | (Directory, Some i) \<Rightarrow> [(i, Tree)]
        | _ \<Rightarrow> [])"

fun object_edges :: "lib \<Rightarrow> object_kind \<Rightarrow> bytes \<Rightarrow> edge list result" where
  "object_edges L Snapshot bs =
     rbind (of_opt ''invalid snapshot'' (parse_snapshot L bs)) (\<lambda>sn.
     Inr ((sn_root_tree sn, Tree) # map (\<lambda>b. (sb_blob b, Blob)) (sn_sqlite_backups sn)))"
| "object_edges L Tree bs =
     rbind (of_opt ''invalid tree'' (parse_tree L bs)) (\<lambda>t.
     Inr (map (\<lambda>p. (tp_target p, Tree)) (tr_pages t) @ concat (map entry_edges (tr_entries t))))"
| "object_edges L Blob bs =
     rbind (of_opt ''invalid blob'' (parse_blob L bs)) (\<lambda>b.
     Inr (map (\<lambda>c. (cr_id c, Chunk)) (bl_chunks b)))"
| "object_edges L Chunk bs = Inr []"
| "object_edges L Xattrs bs = Inr []"

section \<open>Marks\<close>

type_synonym kind_marks = "(object_id, object_kind \<times> bool) btree_map"

definition enqueue_kind :: "kind_marks \<Rightarrow> object_id \<Rightarrow> object_kind \<Rightarrow> kind_marks result" where
  "enqueue_kind m i kind =
     (case bt_get m i of
        None \<Rightarrow> Inr (bt_insert i (kind, False) m)
      | Some (actual, _) \<Rightarrow>
          ensure (actual = kind) ''object reached with conflicting kinds'' (Inr m))"

definition next_kind_mark :: "kind_marks \<Rightarrow> (object_id \<times> object_kind) option" where
  "next_kind_mark m = map_option (\<lambda>(i, kind, _). (i, kind)) (find (\<lambda>(i, kind, processed). \<not> processed) m)"

definition kind_processed :: "kind_marks \<Rightarrow> object_id \<Rightarrow> kind_marks" where
  "kind_processed m i = map (\<lambda>(j, kind, p). if j = i then (j, kind, True) else (j, kind, p)) m"

definition enqueue_edges :: "lib \<Rightarrow> kind_marks \<Rightarrow> object_kind \<Rightarrow> bytes \<Rightarrow> kind_marks result" where
  "enqueue_edges L m kind bs =
     rbind (object_edges L kind bs) (\<lambda>es. rfold (\<lambda>m (i, k). enqueue_kind m i k) m es)"

section \<open>Visiting what is reachable\<close>

type_synonym 'v visitor = "'v \<Rightarrow> object_id \<Rightarrow> object_kind \<Rightarrow> bytes \<Rightarrow> 'v result"

fun reachable_loop ::
  "nat \<Rightarrow> lib \<Rightarrow> object_map \<Rightarrow> 'v visitor \<Rightarrow> 'v \<Rightarrow> kind_marks \<Rightarrow> nat \<Rightarrow> ('v \<times> nat) result" where
  "reachable_loop 0 L s visitor v m count = Inl OutOfFuel"
| "reachable_loop (Suc n) L s visitor v m count =
     (case next_kind_mark m of
        None \<Rightarrow> Inr (v, count)
      | Some (i, expected) \<Rightarrow>
          rbind (map_read L s i expected) (\<lambda>bs.
          rbind (visitor v i expected bs) (\<lambda>v.
          rbind (enqueue_edges L m expected bs) (\<lambda>m.
          reachable_loop n L s visitor v (kind_processed m i) (count + 1)))))"

definition for_each_reachable ::
  "nat \<Rightarrow> lib \<Rightarrow> object_map \<Rightarrow> object_id \<Rightarrow> 'v visitor \<Rightarrow> 'v \<Rightarrow> ('v \<times> nat) result" where
  "for_each_reachable fuel L s snap visitor v =
     rbind (enqueue_kind [] snap Snapshot) (\<lambda>m. reachable_loop fuel L s visitor v m 0)"

section \<open>Export and import\<close>

definition bundle_record :: "lib \<Rightarrow> object_id \<Rightarrow> object_kind \<Rightarrow> bytes \<Rightarrow> bytes" where
  "bundle_record L i kind bs =
     RECORD_MAGIC @ [char_of (kind_u8 kind)] @ le_bytes 8 (length bs) @ i @ blake3 L bs @ bs"

definition bundle_export :: "nat \<Rightarrow> lib \<Rightarrow> object_map \<Rightarrow> object_id \<Rightarrow> (nat \<times> bytes) result" where
  "bundle_export fuel L s snap =
     rbind (for_each_reachable fuel L s snap
              (\<lambda>(output, count) i kind bs. Inr (output @ bundle_record L i kind bs, count + 1))
              (BUNDLE_MAGIC @ snap, 0 :: nat)) (\<lambda>((output, count), _).
     Inr (count, output @ END_MAGIC @ le_bytes 8 count))"

definition read_field :: "nat \<Rightarrow> string \<Rightarrow> bytes \<Rightarrow> (bytes \<times> bytes) result" where
  "read_field n msg input = of_opt msg (read_exact n input)"

abbreviation short_read :: string where
  "short_read \<equiv> ''failed to fill whole buffer''"

text \<open>The end of a bundle: the number of records, nothing left to process, nothing left to read.\<close>

definition import_end :: "kind_marks \<Rightarrow> nat \<Rightarrow> bytes \<Rightarrow> unit result" where
  "import_end m count input =
     rbind (read_field 8 short_read input) (\<lambda>(expected, trailing).
     ensure (le_val expected = count) ''snapshot bundle record count mismatch''
     (ensure (length (filter (\<lambda>(i, kind, processed). \<not> processed) m) = 0)
        ''snapshot bundle omits reachable objects''
     (ensure (trailing = []) ''snapshot bundle contains trailing data'' (Inr ()))))"

text \<open>One record of a bundle, after its magic number.\<close>

definition import_record ::
  "lib \<Rightarrow> object_map \<Rightarrow> kind_marks \<Rightarrow> bytes \<Rightarrow> (object_map \<times> kind_marks \<times> bytes) result" where
  "import_record L s m input =
     rbind (read_field 1 short_read input) (\<lambda>(kind, input).
     rbind (read_field 8 short_read input) (\<lambda>(len, input).
     rbind (read_field 32 short_read input) (\<lambda>(i, input).
     rbind (read_field 32 short_read input) (\<lambda>(checksum, input).
     rbind (of_opt ''invalid bundle object kind'' (kind_from_u8 (of_char (hd kind)))) (\<lambda>kind.
     rbind (of_opt ''bundle contains an unrelated object'' (bt_get m i)) (\<lambda>(expected_kind, processed).
     ensure (\<not> processed) ''bundle contains a duplicate object''
     (ensure (expected_kind = kind) ''bundle object kind mismatch''
     (let len = le_val len in
      ensure (len \<le> MAX_BUNDLE_OBJECT) ''bundle object is too large''
     (rbind (read_field len ''bundle object payload is truncated'' input) (\<lambda>(bs, input).
      ensure (blake3 L bs = checksum) ''bundle object checksum mismatch''
     (ensure (object_id L kind bs = i) ''bundle object ID mismatch''
     (rbind (map_put L s kind bs) (\<lambda>(put, s).
      ensure (put = i) ''bundle import ID mismatch''
     (rbind (enqueue_edges L m kind bs) (\<lambda>m.
      Inr (s, kind_processed m i, input))))))))))))))))"

lemma read_field_Inr: "read_field n msg input = Inr (x, rest) \<longleftrightarrow> input = x @ rest \<and> length x = n"
  by (auto simp: read_field_def read_exact_Some_iff)

lemma import_record_shorter:
  assumes "import_record L s m input = Inr (s', m', rest)"
  shows "length rest < length input"
  using assms by (auto simp: import_record_def Let_def read_field_Inr split: if_splits)

function import_loop ::
  "lib \<Rightarrow> object_map \<Rightarrow> kind_marks \<Rightarrow> nat \<Rightarrow> bytes \<Rightarrow> object_map result" where
  "import_loop L s m count input =
     rbind (read_field 4 ''snapshot bundle is truncated'' input) (\<lambda>(record_magic, input).
     if record_magic = END_MAGIC then rbind (import_end m count input) (\<lambda>_. Inr s)
     else
       ensure (record_magic = RECORD_MAGIC) ''invalid bundle record header''
       (rbind (import_record L s m input) (\<lambda>(s, m, input).
        import_loop L s m (count + 1) input)))"
  by pat_completeness auto
termination
  by (relation "measure (\<lambda>(L, s, m, count, input). length input)")
     (auto simp: read_field_Inr dest!: import_record_shorter)

declare import_loop.simps [simp del]

definition bundle_import :: "nat \<Rightarrow> lib \<Rightarrow> object_map \<Rightarrow> bytes \<Rightarrow> (object_id \<times> object_map) result" where
  "bundle_import fuel L s input =
     rbind (read_field (length BUNDLE_MAGIC) short_read input) (\<lambda>(magic, input).
     ensure (magic = BUNDLE_MAGIC) ''invalid snapshot bundle header''
     (rbind (read_field 32 short_read input) (\<lambda>(snap, input).
     rbind (enqueue_kind [] snap Snapshot) (\<lambda>m.
     rbind (import_loop L s m 0 input) (\<lambda>s.
     rbind (for_each_reachable fuel L s snap (\<lambda>_ _ _ _. Inr ()) ()) (\<lambda>_.
     Inr (snap, s)))))))"

end
