(* ===== verification/Bundle_Theorems.thy ===== *)
theory Bundle_Theorems
  imports Bundle Sample_Snapshot
begin

text \<open>
  What bundles guarantee. The objects reachable from a snapshot are the least set that contains
  the snapshot and the edges of its members; a snapshot is complete in a store when every one of
  them can be read and decoded. Visiting the reachable objects succeeds exactly on complete
  snapshots, an exported bundle is accepted by an import and carries exactly the reachable
  objects, and whatever an import accepts is complete.
\<close>

section \<open>Reachable objects\<close>

inductive reaches :: "lib \<Rightarrow> object_map \<Rightarrow> object_id \<Rightarrow> edge \<Rightarrow> bool" for L s snap where
  root: "reaches L s snap (snap, Snapshot)"
| step: "reaches L s snap (i, k) \<Longrightarrow> map_read L s i k = Inr bs \<Longrightarrow> object_edges L k bs = Inr es \<Longrightarrow>
    e \<in> set es \<Longrightarrow> reaches L s snap e"

definition complete :: "lib \<Rightarrow> object_map \<Rightarrow> object_id \<Rightarrow> bool" where
  "complete L s snap \<longleftrightarrow>
     (\<forall>i k. reaches L s snap (i, k) \<longrightarrow>
        (\<exists>bs es. map_read L s i k = Inr bs \<and> object_edges L k bs = Inr es))"

definition reached :: "lib \<Rightarrow> object_map \<Rightarrow> object_id \<Rightarrow> object_id set" where
  "reached L s snap = {i. \<exists>k. reaches L s snap (i, k)}"

lemma complete_readE:
  assumes "complete L s snap" "reaches L s snap (i, k)"
  obtains bs es where "map_read L s i k = Inr bs" "object_edges L k bs = Inr es"
  using assms unfolding complete_def by blast

lemma complete_kind_unique:
  assumes "complete L s snap" "reaches L s snap (i, k)" "reaches L s snap (i, k')"
  shows "k = k'"
proof -
  obtain bs bs' where "map_read L s i k = Inr bs" "map_read L s i k' = Inr bs'"
    using assms by (meson complete_readE)
  then show ?thesis by (simp add: map_read_Inr)
qed

lemma complete_reached_dom: "complete L s snap \<Longrightarrow> reached L s snap \<subseteq> dom s"
  unfolding reached_def complete_def map_read_Inr by blast

text \<open>Only the reachable part of a store matters.\<close>

lemma reaches_agree:
  assumes "\<And>i. i \<in> reached L s snap \<Longrightarrow> t i = s i" and "reaches L s snap e"
  shows "reaches L t snap e"
  using assms(2)
proof induction
  case (step i k bs es e)
  have "i \<in> reached L s snap" using step.hyps(1) by (auto simp: reached_def)
  then have "map_read L t i k = Inr bs" using step.hyps assms(1) by (simp add: map_read_Inr)
  with step show ?case by (blast intro: reaches.step)
qed (rule reaches.root)

lemma reaches_agree_back:
  assumes agree: "\<And>i. i \<in> reached L s snap \<Longrightarrow> t i = s i" and "reaches L t snap e"
  shows "reaches L s snap e"
  using assms(2)
proof induction
  case (step i k bs es e)
  have "i \<in> reached L s snap" using step.IH by (auto simp: reached_def)
  then have "map_read L s i k = Inr bs" using step.hyps agree by (simp add: map_read_Inr)
  with step show ?case by (blast intro: reaches.step)
qed (rule reaches.root)

lemma complete_agree:
  assumes agree: "\<And>i. i \<in> reached L s snap \<Longrightarrow> t i = s i" and "complete L s snap"
  shows "complete L t snap" and "reached L t snap = reached L s snap"
proof -
  have eq: "reaches L t snap e \<longleftrightarrow> reaches L s snap e" for e
    using reaches_agree [of L s snap t e] reaches_agree_back [of L s snap t e] agree by blast
  then show "reached L t snap = reached L s snap" by (simp add: reached_def)
  show "complete L t snap"
    unfolding complete_def
  proof (intro allI impI)
    fix i k assume "reaches L t snap (i, k)"
    then have r: "reaches L s snap (i, k)" by (simp add: eq)
    then obtain bs es where "map_read L s i k = Inr bs" "object_edges L k bs = Inr es"
      using assms(2) by (meson complete_readE)
    moreover have "t i = s i" using r agree by (auto simp: reached_def)
    ultimately show "\<exists>bs es. map_read L t i k = Inr bs \<and> object_edges L k bs = Inr es"
      by (auto simp: map_read_Inr)
  qed
qed

section \<open>Marks\<close>

lemma enqueue_kind_Inr:
  "enqueue_kind m i k = Inr m' \<longleftrightarrow>
     bt_get m i = None \<and> m' = bt_insert i (k, False) m \<or> (\<exists>p. bt_get m i = Some (k, p)) \<and> m' = m"
  by (auto simp: enqueue_kind_def split: option.splits if_splits)

lemma enqueue_list:
  assumes "rfold (\<lambda>m (i, k). enqueue_kind m i k) m es = Inr m'" and "bt_wf m"
  shows "bt_wf m'" and "bt_get m \<subseteq>\<^sub>m bt_get m'"
    and "\<forall>(j, k)\<in>set es. \<exists>p. bt_get m' j = Some (k, p)"
    and "bt_get m' j = Some x \<Longrightarrow> bt_get m j = Some x \<or> (\<exists>k. (j, k) \<in> set es \<and> x = (k, False))"
proof -
  have "bt_wf m' \<and> bt_get m \<subseteq>\<^sub>m bt_get m' \<and> (\<forall>(j, k)\<in>set es. \<exists>p. bt_get m' j = Some (k, p)) \<and>
     (\<forall>j x. bt_get m' j = Some x \<longrightarrow> bt_get m j = Some x \<or> (\<exists>k. (j, k) \<in> set es \<and> x = (k, False)))"
    using assms
  proof (induction es arbitrary: m)
    case (Cons e es)
    obtain i k where e: "e = (i, k)" by (cases e)
    then obtain m1 where m1: "enqueue_kind m i k = Inr m1"
        "rfold (\<lambda>m (i, k). enqueue_kind m i k) m1 es = Inr m'"
      using Cons.prems by auto
    have wf: "bt_wf m1" using m1(1) Cons.prems(2) by (auto simp: enqueue_kind_Inr)
    have get: "bt_get m1 = (bt_get m)(i \<mapsto> (k, False)) \<and> bt_get m i = None
        \<or> bt_get m1 = bt_get m \<and> (\<exists>p. bt_get m i = Some (k, p))"
      using m1(1) by (auto simp: enqueue_kind_Inr bt_get_insert)
    have sub: "bt_get m \<subseteq>\<^sub>m bt_get m1" using get by (auto simp: map_le_def)
    have marked: "\<exists>p. bt_get m1 i = Some (k, p)" using get by auto
    note IH = Cons.IH [OF m1(2) wf]
    have sub': "bt_get m1 \<subseteq>\<^sub>m bt_get m'" using IH by blast
    have "\<exists>p. bt_get m' i = Some (k, p)"
      using marked sub' by (metis domI map_le_def)
    moreover have "bt_get m j = Some x \<or> (\<exists>k. (j, k) \<in> set (e # es) \<and> x = (k, False))"
      if "bt_get m' j = Some x" for j x
    proof -
      have "bt_get m1 j = Some x \<or> (\<exists>k. (j, k) \<in> set es \<and> x = (k, False))" using IH that by blast
      then show ?thesis using get e by (auto split: if_splits)
    qed
    ultimately show ?case using IH sub sub' e by (auto intro: map_le_trans)
  qed simp
  then show "bt_wf m'" "bt_get m \<subseteq>\<^sub>m bt_get m'" "\<forall>(j, k)\<in>set es. \<exists>p. bt_get m' j = Some (k, p)"
    "bt_get m' j = Some x \<Longrightarrow> bt_get m j = Some x \<or> (\<exists>k. (j, k) \<in> set es \<and> x = (k, False))"
    by blast+
qed

lemma bt_get_processed:
  "bt_get (kind_processed m i) j =
     (if j = i then map_option (\<lambda>(k, _). (k, True)) (bt_get m j) else bt_get m j)"
  by (induction m) (auto simp: kind_processed_def)

lemma bt_wf_processed [simp]: "bt_wf (kind_processed m i) \<longleftrightarrow> bt_wf m"
  by (simp add: bt_wf_def kind_processed_def o_def split_beta if_distrib cong: if_cong)

lemma next_kind_mark_Some:
  assumes "next_kind_mark m = Some (i, k)" "bt_wf m"
  shows "bt_get m i = Some (k, False)"
proof -
  obtain p where p: "find (\<lambda>(i, kind, processed). \<not> processed) m = Some (i, k, p)"
    using assms(1) by (auto simp: next_kind_mark_def)
  then have "(i, k, False) \<in> set m" by (auto simp: find_Some_iff in_set_conv_nth)
  with assms(2) show ?thesis by (simp add: bt_get_eq_Some)
qed

lemma next_kind_mark_None:
  "next_kind_mark m = None \<Longrightarrow> bt_get m i = Some (k, p) \<Longrightarrow> p"
  by (auto simp: next_kind_mark_def find_None_iff dest: map_of_SomeD)

section \<open>The traversal\<close>

text \<open>
  The marks of a traversal: the snapshot is marked, every mark is reachable, and what was processed
  could be read and has its edges marked.
\<close>

definition marks_inv :: "lib \<Rightarrow> object_map \<Rightarrow> object_id \<Rightarrow> kind_marks \<Rightarrow> bool" where
  "marks_inv L s snap m \<longleftrightarrow>
     bt_wf m \<and> (\<exists>p. bt_get m snap = Some (Snapshot, p)) \<and>
     (\<forall>i k p. bt_get m i = Some (k, p) \<longrightarrow> reaches L s snap (i, k)) \<and>
     (\<forall>i k. bt_get m i = Some (k, True) \<longrightarrow>
        (\<exists>bs es. map_read L s i k = Inr bs \<and> object_edges L k bs = Inr es \<and>
           (\<forall>(j, k')\<in>set es. \<exists>p. bt_get m j = Some (k', p))))"

definition open_ids :: "kind_marks \<Rightarrow> object_id set \<Rightarrow> object_id set" where
  "open_ids m R = {i \<in> R. \<forall>k. bt_get m i \<noteq> Some (k, True)}"

lemma marks_inv_start: "enqueue_kind [] snap Snapshot = Inr m \<Longrightarrow> marks_inv L s snap m"
  by (auto simp: marks_inv_def enqueue_kind_Inr intro: reaches.root split: if_splits)

lemma marks_inv_step:
  assumes inv: "marks_inv L s snap m" and i: "bt_get m i = Some (k, False)"
    and rd: "map_read L s i k = Inr bs" and m': "enqueue_edges L m k bs = Inr m'"
  shows "marks_inv L s snap (kind_processed m' i)"
proof -
  obtain es where es: "object_edges L k bs = Inr es"
      "rfold (\<lambda>m (i, k). enqueue_kind m i k) m es = Inr m'"
    using m' by (auto simp: enqueue_edges_def)
  have wf: "bt_wf m" using inv by (simp add: marks_inv_def)
  note q = enqueue_list [OF es(2) wf]
  have keep: "bt_get m' j = Some x" if "bt_get m j = Some x" for j x
    using q(2) that by (metis domI map_le_def)
  have kept: "\<exists>p. bt_get (kind_processed m' i) j = Some (k', p)" if "bt_get m' j = Some (k', p)" for j k' p
    using that by (cases "j = i") (auto simp: bt_get_processed)
  have ri: "reaches L s snap (i, k)" using inv i unfolding marks_inv_def by blast
  have "reaches L s snap (j, k')" if mk: "bt_get (kind_processed m' i) j = Some (k', p)" for j k' p
  proof -
    obtain p' where "bt_get m' j = Some (k', p')" using mk by (auto simp: bt_get_processed split: if_splits)
    then have "bt_get m j = Some (k', p') \<or> (j, k') \<in> set es" using q(4) by blast
    then show ?thesis
      using inv reaches.step [OF ri rd es(1)] unfolding marks_inv_def by blast
  qed
  moreover have "\<exists>bs es. map_read L s j k' = Inr bs \<and> object_edges L k' bs = Inr es \<and>
      (\<forall>(a, k'')\<in>set es. \<exists>p. bt_get (kind_processed m' i) a = Some (k'', p))"
    if "bt_get (kind_processed m' i) j = Some (k', True)" for j k'
  proof (cases "j = i")
    case True
    then have "k' = k" using that keep [OF i] by (simp add: bt_get_processed)
    with True rd es(1) q(3) kept show ?thesis by (intro exI [of _ bs] exI [of _ es]) fastforce
  next
    case False
    then have "bt_get m' j = Some (k', True)" using that by (simp add: bt_get_processed)
    then have "bt_get m j = Some (k', True)" using q(4) by blast
    then obtain bs' es' where "map_read L s j k' = Inr bs'" "object_edges L k' bs' = Inr es'"
        "\<forall>(a, k'')\<in>set es'. \<exists>p. bt_get m a = Some (k'', p)"
      using inv unfolding marks_inv_def by blast
    then show ?thesis using keep kept by (intro exI [of _ bs'] exI [of _ es']) fastforce
  qed
  moreover have "\<exists>p. bt_get (kind_processed m' i) snap = Some (Snapshot, p)"
    using inv keep kept unfolding marks_inv_def by blast
  ultimately show ?thesis using q(1) unfolding marks_inv_def by simp
qed

lemma marks_inv_done:
  assumes inv: "marks_inv L s snap m" and fin: "next_kind_mark m = None"
  shows "complete L s snap" and "reaches L s snap (i, k) \<Longrightarrow> bt_get m i = Some (k, True)"
proof -
  have all: "bt_get m i = Some (k, True)" if "bt_get m i = Some (k, p)" for i k p
    using next_kind_mark_None [OF fin that] that by simp
  have marked: "bt_get m i = Some (k, True)" if "reaches L s snap (i, k)" for i k
    using that
  proof (induction "(i, k)" arbitrary: i k)
    case root
    then show ?case using inv all unfolding marks_inv_def by blast
  next
    case (step i k bs es j k')
    then obtain bs' es' where "map_read L s i k = Inr bs'" "object_edges L k bs' = Inr es'"
        "\<forall>(j, k')\<in>set es'. \<exists>p. bt_get m j = Some (k', p)"
      using inv unfolding marks_inv_def by blast
    with step show ?case using all by fastforce
  qed
  then show "reaches L s snap (i, k) \<Longrightarrow> bt_get m i = Some (k, True)" .
  show "complete L s snap"
    using marked inv unfolding complete_def marks_inv_def by blast
qed

lemma open_ids_step:
  assumes "bt_wf m" "bt_get m i = Some (k, False)" "enqueue_edges L m k bs = Inr m'"
  shows "open_ids (kind_processed m' i) R = open_ids m R - {i}"
proof -
  obtain es where es: "rfold (\<lambda>m (i, k). enqueue_kind m i k) m es = Inr m'"
    using assms(3) by (auto simp: enqueue_edges_def)
  note q = enqueue_list [OF es assms(1)]
  have keep: "bt_get m' j = Some x" if "bt_get m j = Some x" for j x
    using q(2) that by (metis domI map_le_def)
  have "bt_get m' j = Some (k', True) \<longleftrightarrow> bt_get m j = Some (k', True)" for j k'
    using q(4)[of j "(k', True)"] keep [of j "(k', True)"] by blast
  moreover have "bt_get m' i = Some (k, False)" using assms(2) by (rule keep)
  ultimately show ?thesis by (auto simp: open_ids_def bt_get_processed)
qed

lemma enqueue_edges_succeeds:
  assumes inv: "marks_inv L s snap m" and comp: "complete L s snap"
    and "reaches L s snap (i, k)" "map_read L s i k = Inr bs"
  obtains m' where "enqueue_edges L m k bs = Inr m'"
proof -
  obtain es where es: "object_edges L k bs = Inr es"
    using assms(2-4) by (metis complete_readE sum.inject(2))
  have reach: "\<forall>(j, k')\<in>set es. reaches L s snap (j, k')"
    using reaches.step [OF assms(3,4) es] by auto
  have marks: "\<forall>j k' p. bt_get m j = Some (k', p) \<longrightarrow> reaches L s snap (j, k')"
    using inv unfolding marks_inv_def by blast
  have "\<exists>m'. rfold (\<lambda>m (i, k). enqueue_kind m i k) m es = Inr m'"
    using reach marks
  proof (induction es arbitrary: m)
    case (Cons e es)
    obtain j k' where e: "e = (j, k')" by (cases e)
    have rj: "reaches L s snap (j, k')" using Cons.prems(1) e by simp
    have "bt_get m j = None \<or> (\<exists>p. bt_get m j = Some (k', p))"
    proof (cases "bt_get m j")
      case (Some x)
      obtain k'' p where x: "x = (k'', p)" by (cases x)
      then have "reaches L s snap (j, k'')" using Cons.prems(2) Some by blast
      with complete_kind_unique [OF comp rj] Some x show ?thesis by blast
    qed simp
    then obtain m1 where m1: "enqueue_kind m j k' = Inr m1"
      using enqueue_kind_Inr by blast
    then have "\<forall>a b p. bt_get m1 a = Some (b, p) \<longrightarrow> reaches L s snap (a, b)"
      using Cons.prems(2) rj by (auto simp: enqueue_kind_Inr bt_get_insert split: if_splits)
    with Cons e m1 show ?case by auto
  qed simp
  with es that show thesis by (auto simp: enqueue_edges_def)
qed

text \<open>One iteration of the traversal of a complete snapshot.\<close>

lemma traversal_step:
  assumes "marks_inv L s snap m" "complete L s snap" "next_kind_mark m = Some (i, k)"
  obtains bs m' where "map_read L s i k = Inr bs" "enqueue_edges L m k bs = Inr m'"
    "bt_get m i = Some (k, False)" "reaches L s snap (i, k)"
    "marks_inv L s snap (kind_processed m' i)"
    "open_ids (kind_processed m' i) (reached L s snap) = open_ids m (reached L s snap) - {i}"
    "i \<in> open_ids m (reached L s snap)"
proof -
  have wf: "bt_wf m" using assms(1) by (simp add: marks_inv_def)
  have i: "bt_get m i = Some (k, False)" by (rule next_kind_mark_Some [OF assms(3) wf])
  have r: "reaches L s snap (i, k)" using assms(1) i unfolding marks_inv_def by blast
  obtain bs where bs: "map_read L s i k = Inr bs" using assms(2) r by (meson complete_readE)
  obtain m' where m': "enqueue_edges L m k bs = Inr m'"
    by (rule enqueue_edges_succeeds [OF assms(1,2) r bs])
  have "i \<in> open_ids m (reached L s snap)" using i r by (auto simp: open_ids_def reached_def)
  then show thesis
    using that bs m' i r marks_inv_step [OF assms(1) i bs m'] open_ids_step [OF wf i m'] by blast
qed

lemma reachable_loop_complete:
  assumes "reachable_loop n L s visitor v m c = Inr r" "marks_inv L s snap m"
  shows "complete L s snap"
  using assms
proof (induction n arbitrary: v m c)
  case (Suc n)
  show ?case
  proof (cases "next_kind_mark m")
    case None
    then show ?thesis using Suc.prems(2) marks_inv_done by blast
  next
    case (Some ik)
    obtain i k where ik: "ik = (i, k)" by (cases ik)
    have wf: "bt_wf m" using Suc.prems(2) by (simp add: marks_inv_def)
    obtain bs v' m' where st: "map_read L s i k = Inr bs" "enqueue_edges L m k bs = Inr m'"
        "reachable_loop n L s visitor v' (kind_processed m' i) (c + 1) = Inr r"
      using Suc.prems(1) Some ik by auto
    have "bt_get m i = Some (k, False)" using Some ik wf by (simp add: next_kind_mark_Some)
    with Suc.IH [OF st(3)] marks_inv_step [OF Suc.prems(2) _ st(1,2)] show ?thesis by blast
  qed
qed simp

lemma for_each_reachable_complete:
  "for_each_reachable n L s snap visitor v = Inr r \<Longrightarrow> complete L s snap"
  by (auto simp: for_each_reachable_def dest: marks_inv_start reachable_loop_complete)

lemma reachable_loop_total:
  assumes "marks_inv L s snap m" "complete L s snap" "finite (reached L s snap)"
    and "card (open_ids m (reached L s snap)) < n"
  shows "\<exists>r. reachable_loop n L s (\<lambda>_ _ _ _. Inr ()) () m c = Inr r"
  using assms
proof (induction n arbitrary: m c)
  case (Suc n)
  show ?case
  proof (cases "next_kind_mark m")
    case (Some ik)
    obtain i k where ik: "ik = (i, k)" by (cases ik)
    obtain bs m' where st: "map_read L s i k = Inr bs" "enqueue_edges L m k bs = Inr m'"
        "marks_inv L s snap (kind_processed m' i)"
        "open_ids (kind_processed m' i) (reached L s snap) = open_ids m (reached L s snap) - {i}"
        "i \<in> open_ids m (reached L s snap)"
      using traversal_step [OF Suc.prems(1,2) Some [unfolded ik]] by blast
    have "finite (open_ids m (reached L s snap))" using Suc.prems(3) by (simp add: open_ids_def)
    then have "card (open_ids (kind_processed m' i) (reached L s snap)) < n"
      using Suc.prems(4) st(4,5) by (simp add: card_Diff_singleton) (metis Suc_pred card_gt_0_iff empty_iff not_less_eq)
    from Suc.IH [OF st(3) Suc.prems(2,3) this, of "c + 1"] Some ik st(1,2) show ?thesis by simp
  qed simp
qed simp

section \<open>Reading a bundle back\<close>

lemma read_field_append [simp]: "length x = n \<Longrightarrow> read_field n msg (x @ rest) = Inr (x, rest)"
  by (simp add: read_field_def)

lemma magics_differ [simp]: "RECORD_MAGIC \<noteq> END_MAGIC" "length RECORD_MAGIC = 4" "length END_MAGIC = 4"
  by (simp_all add: RECORD_MAGIC_def END_MAGIC_def)

lemma import_record_ok:
  assumes "digest_length L" "length bs \<le> MAX_OBJECT_LEN" "object_id L k bs = i"
    and "bt_get m i = Some (k, False)" "enqueue_edges L m k bs = Inr m'"
    and "t i = None \<or> t i = Some (k, bs)"
  shows "import_record L t m
      ([char_of (kind_u8 k)] @ le_bytes 8 (length bs) @ i @ blake3 L bs @ bs @ rest) =
      Inr (t(i \<mapsto> (k, bs)), kind_processed m' i, rest)"
proof -
  have len: "length i = 32" "length (blake3 L bs) = 32"
    using assms(1,3) by (auto simp: digest_length_def object_id_def)
  have small: "length bs < 256 ^ 8" using assms(2) by (simp add: MAX_OBJECT_LEN_def)
  have put: "map_put L t k bs = Inr (i, t(i \<mapsto> (k, bs)))"
    using assms(2,3,6) by (auto simp: map_put_Inr fun_upd_idem)
  have "length bs \<le> MAX_BUNDLE_OBJECT" using assms(2) by (simp add: MAX_OBJECT_LEN_def MAX_BUNDLE_OBJECT_def)
  moreover have "read_field 1 short_read ([char_of (kind_u8 k)] @ x) = Inr ([char_of (kind_u8 k)], x)" for x
    by (rule read_field_append) simp
  ultimately show ?thesis
    using assms(3-5) len small put unfolding import_record_def by (simp del: append_Cons append_Nil)
qed

text \<open>\<open>put_bytes\<close> refuses larger objects, so every store is sized.\<close>

definition sized :: "object_map \<Rightarrow> bool" where
  "sized s \<longleftrightarrow> (\<forall>i k bs. s i = Some (k, bs) \<longrightarrow> length bs \<le> MAX_OBJECT_LEN)"

lemma sizedD: "sized s \<Longrightarrow> s i = Some (k, bs) \<Longrightarrow> length bs \<le> MAX_OBJECT_LEN"
  by (auto simp: sized_def)

definition export_visit :: "lib \<Rightarrow> (bytes \<times> nat) visitor" where
  "export_visit L = (\<lambda>(w, count) i kind bs. Inr (w @ bundle_record L i kind bs, count + 1))"

lemma export_import_loop:
  assumes "marks_inv L s snap m" "complete L s snap" "finite (reached L s snap)"
    and "card (open_ids m (reached L s snap)) < n" and digest: "digest_length L"
    and sized: "sized s"
  shows "\<exists>recs c'. reachable_loop n L s (export_visit L) (w, c) m d = Inr ((w @ recs, c'), d + (c' - c)) \<and>
     c \<le> c' \<and> c' \<le> c + card (open_ids m (reached L s snap)) \<and>
     (\<forall>t. (\<forall>i\<in>reached L s snap. t i = None \<or> t i = s i) \<longrightarrow> c' < 256 ^ 8 \<longrightarrow>
        import_loop L t m c (recs @ END_MAGIC @ le_bytes 8 c') =
        Inr (\<lambda>i. if i \<in> open_ids m (reached L s snap) then s i else t i))"
  using assms(1-4)
proof (induction n arbitrary: m w c d)
  case (Suc n)
  let ?R = "reached L s snap"
  show ?case
  proof (cases "next_kind_mark m")
    case None
    have closed: "open_ids m ?R = {}"
      using marks_inv_done(2)[OF Suc.prems(1) None] by (auto simp: open_ids_def reached_def)
    have "filter (\<lambda>(i, kind, processed). \<not> processed) m = []"
      using None by (auto simp: next_kind_mark_def find_None_iff filter_empty_conv)
    then have "import_loop L t m c (END_MAGIC @ le_bytes 8 c) = Inr t" if "c < 256 ^ 8" for t
      using that read_field_append [of "le_bytes 8 c" 8 _ "[]"]
      by (simp add: import_loop.simps import_end_def)
    then show ?thesis using None closed by (intro exI [of _ "[]"] exI [of _ c]) simp
  next
    case (Some ik)
    obtain i k where ik: "ik = (i, k)" by (cases ik)
    obtain bs m' where st: "map_read L s i k = Inr bs" "enqueue_edges L m k bs = Inr m'"
        "bt_get m i = Some (k, False)" "reaches L s snap (i, k)"
        "marks_inv L s snap (kind_processed m' i)"
        "open_ids (kind_processed m' i) ?R = open_ids m ?R - {i}" "i \<in> open_ids m ?R"
      using traversal_step [OF Suc.prems(1,2) Some [unfolded ik]] by blast
    have si: "s i = Some (k, bs)" "object_id L k bs = i" using st(1) by (simp_all add: map_read_Inr)
    have "finite (open_ids m ?R)" using Suc.prems(3) by (simp add: open_ids_def)
    then have card: "Suc (card (open_ids (kind_processed m' i) ?R)) = card (open_ids m ?R)"
      using st(6,7) by (metis card.remove)
    then have "card (open_ids (kind_processed m' i) ?R) < n" using Suc.prems(4) by simp
    from Suc.IH [OF st(5) Suc.prems(2,3) this, of "w @ bundle_record L i k bs" "c + 1" "d + 1"]
    obtain recs c' where IH: "reachable_loop n L s (export_visit L) (w @ bundle_record L i k bs, c + 1)
          (kind_processed m' i) (d + 1) = Inr ((w @ bundle_record L i k bs @ recs, c'), d + 1 + (c' - (c + 1)))"
        "c + 1 \<le> c'" "c' \<le> c + 1 + card (open_ids (kind_processed m' i) ?R)"
        and imp: "\<And>t. \<forall>i\<in>?R. t i = None \<or> t i = s i \<Longrightarrow> c' < 256 ^ 8 \<Longrightarrow>
          import_loop L t (kind_processed m' i) (c + 1) (recs @ END_MAGIC @ le_bytes 8 c') =
          Inr (\<lambda>j. if j \<in> open_ids (kind_processed m' i) ?R then s j else t j)"
      by auto
    have "import_loop L t m c (bundle_record L i k bs @ recs @ END_MAGIC @ le_bytes 8 c') =
        Inr (\<lambda>j. if j \<in> open_ids m ?R then s j else t j)"
      if t: "\<forall>i\<in>?R. t i = None \<or> t i = s i" and "c' < 256 ^ 8" for t
    proof -
      have "t i = None \<or> t i = Some (k, bs)" using t st(4) si by (auto simp: reached_def)
      note ok = import_record_ok [where t = t, OF digest sizedD [OF sized si(1)] si(2) st(3,2) this,
          of "recs @ END_MAGIC @ le_bytes 8 c'"]
      have "\<forall>j\<in>?R. (t(i \<mapsto> (k, bs))) j = None \<or> (t(i \<mapsto> (k, bs))) j = s j" using t si by auto
      from imp [of "t(i \<mapsto> (k, bs))", OF this \<open>c' < 256 ^ 8\<close>] have "import_loop L t m c
          (bundle_record L i k bs @ recs @ END_MAGIC @ le_bytes 8 c') =
          Inr (\<lambda>j. if j \<in> open_ids (kind_processed m' i) ?R then s j else (t(i \<mapsto> (k, bs))) j)"
        using ok by (subst import_loop.simps) (simp add: bundle_record_def)
      also have "(\<lambda>j. if j \<in> open_ids (kind_processed m' i) ?R then s j else (t(i \<mapsto> (k, bs))) j) =
          (\<lambda>j. if j \<in> open_ids m ?R then s j else t j)"
        using st(6,7) si by (auto simp: fun_eq_iff)
      finally show ?thesis .
    qed
    moreover have "reachable_loop (Suc n) L s (export_visit L) (w, c) m d =
        Inr ((w @ bundle_record L i k bs @ recs, c'), d + (c' - c))"
      using IH(1,2) Some ik st(1,2) by (simp add: export_visit_def)
    ultimately show ?thesis
      using IH(2,3) card by (intro exI [of _ "bundle_record L i k bs @ recs"] exI [of _ c']) auto
  qed
qed simp

section \<open>Properties\<close>

lemma bundle_export_visit:
  "bundle_export fuel L s snap =
     rbind (for_each_reachable fuel L s snap (export_visit L) (BUNDLE_MAGIC @ snap, 0)) (\<lambda>((w, count), _).
     Inr (count, w @ END_MAGIC @ le_bytes 8 count))"
  by (simp add: bundle_export_def export_visit_def)

lemma for_each_reachable_total:
  assumes "complete L s snap" "finite (reached L s snap)" "card (reached L s snap) < fuel"
  shows "\<exists>r. for_each_reachable fuel L s snap (\<lambda>_ _ _ _. Inr ()) () = Inr r"
proof -
  have m: "enqueue_kind [] snap Snapshot = Inr [(snap, Snapshot, False)]" by (simp add: enqueue_kind_def)
  have "card (open_ids [(snap, Snapshot, False)] (reached L s snap)) \<le> card (reached L s snap)"
    by (rule card_mono [OF assms(2)]) (auto simp: open_ids_def)
  then show ?thesis
    using reachable_loop_total [OF marks_inv_start [OF m] assms(1,2), of fuel 0] assms(3)
    by (simp add: for_each_reachable_def m)
qed

lemma export_then_import:
  assumes "digest_length L" and "complete L s snap"
    and "finite (dom s)" and "card (dom s) < fuel" and "card (dom s) < 2 ^ 64"
    and "sized s" and "\<And>i. i \<in> reached L s snap \<Longrightarrow> t i = None \<or> t i = s i"
  shows "\<exists>count bs. bundle_export fuel L s snap = Inr (count, bs) \<and>
     bundle_import fuel L t bs = Inr (snap, \<lambda>i. if i \<in> reached L s snap then s i else t i)"
proof -
  let ?R = "reached L s snap" and ?m = "[(snap, Snapshot, False)]"
  let ?t = "\<lambda>i. if i \<in> ?R then s i else t i"
  have m: "enqueue_kind [] snap Snapshot = Inr ?m" by (simp add: enqueue_kind_def)
  have fin: "finite ?R" "card ?R \<le> card (dom s)"
    using complete_reached_dom [OF assms(2)] assms(3) by (auto intro: finite_subset card_mono)
  have opened: "open_ids ?m ?R = ?R" by (auto simp: open_ids_def)
  then have "card (open_ids ?m ?R) < fuel" using fin assms(4) by simp
  from export_import_loop [where w = "BUNDLE_MAGIC @ snap" and c = 0 and d = 0,
      OF marks_inv_start [OF m] assms(2) fin(1) this assms(1) assms(6)]
  obtain recs c where loop: "reachable_loop fuel L s (export_visit L) (BUNDLE_MAGIC @ snap, 0) ?m 0 =
        Inr ((BUNDLE_MAGIC @ snap @ recs, c), c)"
      "c \<le> card ?R"
      and imp: "c < 256 ^ 8 \<Longrightarrow> import_loop L t ?m 0 (recs @ END_MAGIC @ le_bytes 8 c) = Inr ?t"
    using assms(7) by (auto simp: opened)
  have "c < 256 ^ 8" using loop(2) fin(2) assms(5) by simp
  obtain sb where "object_id L Snapshot sb = snap"
    using assms(2) reaches.root by (metis complete_readE map_read_Inr)
  then have len: "length snap = 32" using assms(1) by (auto simp: digest_length_def object_id_def)
  have t: "complete L ?t snap" "reached L ?t snap = ?R"
    by (rule complete_agree [OF _ assms(2)]; simp)+
  then obtain r where r: "for_each_reachable fuel L ?t snap (\<lambda>_ _ _ _. Inr ()) () = Inr r"
    using for_each_reachable_total [of L ?t snap fuel] fin assms(4) by auto
  have "bundle_export fuel L s snap = Inr (c, BUNDLE_MAGIC @ snap @ recs @ END_MAGIC @ le_bytes 8 c)"
    using loop(1) m by (simp add: bundle_export_visit for_each_reachable_def)
  moreover have "bundle_import fuel L t (BUNDLE_MAGIC @ snap @ recs @ END_MAGIC @ le_bytes 8 c) = Inr (snap, ?t)"
    using len m imp [OF \<open>c < 256 ^ 8\<close>] r by (simp add: bundle_import_def)
  ultimately show ?thesis by blast
qed

text \<open>
  C36: Exporting a complete snapshot of a store succeeds, with enough iterations for the objects of
  the store, and importing the exported bytes succeeds in every store that holds, under the ids
  of reachable objects, nothing else: it returns the snapshot, and the store then has the
  reachable objects of the exporting store and is otherwise unchanged.
\<close>

theorem bundle_round_trip:
  assumes "digest_length L" and "complete L s snap"
    and "finite (dom s)" and "card (dom s) < fuel" and "card (dom s) < 2 ^ 64"
    and "sized s" and "\<And>i. i \<in> reached L s snap \<Longrightarrow> t i = None \<or> t i = s i"
  shows "\<exists>count bs. bundle_export fuel L s snap = Inr (count, bs) \<and>
     bundle_import fuel L t bs = Inr (snap, \<lambda>i. if i \<in> reached L s snap then s i else t i)"
  using assms by (rule export_then_import)

text \<open>The objects of the shared example, as an object map.\<close>

definition sample_objects :: object_map where
  "sample_objects = [tree_id \<mapsto> (Tree, tree_bytes), snap_id \<mapsto> (Snapshot, snap_bytes)]"

lemma sample_edges:
  "object_edges short_lib Snapshot snap_bytes = Inr [(tree_id, Tree)]"
  "object_edges short_lib Tree tree_bytes = Inr []"
  by (simp_all add: snap_bytes_def tree_bytes_def short_lib_def sample_lib_def codec_round_trip codec_snapshot
      codec_tree sample_snapshot_def)

lemma sample_reads:
  "map_read short_lib sample_objects snap_id Snapshot = Inr snap_bytes"
  "map_read short_lib sample_objects tree_id Tree = Inr tree_bytes"
  using ids_differ by (simp_all add: map_read_Inr sample_objects_def snap_id_def tree_id_def)

lemma sample_reaches:
  "reaches short_lib sample_objects snap_id (i, k) \<longleftrightarrow> (i, k) \<in> {(snap_id, Snapshot), (tree_id, Tree)}"
proof
  assume "reaches short_lib sample_objects snap_id (i, k)"
  then show "(i, k) \<in> {(snap_id, Snapshot), (tree_id, Tree)}"
    by (induction "(i, k)" arbitrary: i k)
       (auto simp: sample_reads sample_edges simp del: object_edges.simps)
next
  assume "(i, k) \<in> {(snap_id, Snapshot), (tree_id, Tree)}"
  moreover have "reaches short_lib sample_objects snap_id (tree_id, Tree)"
    by (rule reaches.step [OF reaches.root sample_reads(1) sample_edges(1)]) simp
  ultimately show "reaches short_lib sample_objects snap_id (i, k)" by (auto intro: reaches.root)
qed

lemma sample_complete: "complete short_lib sample_objects snap_id"
  by (auto simp: complete_def sample_reaches sample_reads sample_edges simp del: object_edges.simps)

lemma sample_reached: "reached short_lib sample_objects snap_id = {snap_id, tree_id}"
  by (auto simp: reached_def sample_reaches)

lemma sample_sized: "sized sample_objects"
proof -
  have "length snap_bytes \<le> MAX_OBJECT_LEN" "length tree_bytes \<le> MAX_OBJECT_LEN"
    by (simp_all add: snap_bytes_def tree_bytes_def sample_snapshot_def short_lib_def sample_lib_def
        codec_simps MAX_OBJECT_LEN_def tree_id_def object_id_def)
  then show ?thesis by (auto simp: sized_def sample_objects_def split: if_splits)
qed

lemma sample_dom: "dom sample_objects = {snap_id, tree_id}" "card {snap_id, tree_id} = 2"
  using ids_differ by (auto simp: sample_objects_def)

lemma sample_outside: "(\<lambda>i. if i \<in> {snap_id, tree_id} then sample_objects i else None) = sample_objects"
  by (auto simp: sample_objects_def fun_eq_iff)

lemma sample_bundle:
  "\<exists>count bs. bundle_export 3 short_lib sample_objects snap_id = Inr (count, bs) \<and>
     bundle_import 3 short_lib Map.empty bs = Inr (snap_id, sample_objects)"
  using export_then_import [OF short_lib_digest sample_complete _ _ _ sample_sized, of 3 Map.empty]
  by (simp only: sample_dom sample_reached sample_outside) simp

theorem bundle_round_trip_witness:
  "\<exists>count bs. bundle_export 3 short_lib sample_objects snap_id = Inr (count, bs) \<and>
     bundle_import 3 short_lib Map.empty bs = Inr (snap_id, sample_objects)"
  using bundle_round_trip [OF short_lib_digest sample_complete _ _ _ sample_sized, of 3 Map.empty]
  by (simp only: sample_dom sample_reached sample_outside) simp

lemma import_record_le:
  "import_record L s m input = Inr (s', m', rest) \<Longrightarrow> s \<subseteq>\<^sub>m s'"
  by (auto simp: import_record_def Let_def map_put_Inr map_le_def split: if_splits)

text \<open>
  C37: Whatever bytes it is given, an import that succeeds returns a snapshot that is complete in
  the resulting store: everything reachable from it can be read there, with the kind it is
  referred to by and under a verified id, and decodes. It changes nothing that was stored before.
\<close>

theorem bundle_import_complete:
  assumes "bundle_import fuel L s input = Inr (snap, s')"
  shows "complete L s' snap \<and> s \<subseteq>\<^sub>m s'"
proof
  show "complete L s' snap"
    using assms by (auto simp: bundle_import_def split: if_splits dest: for_each_reachable_complete)
  have "s \<subseteq>\<^sub>m s'" if "import_loop L s m count input = Inr s'" for s s' m count input
    using that
  proof (induction L s m count input rule: import_loop.induct)
    case (1 L s m count input)
    obtain mg rest where mg: "read_field 4 ''snapshot bundle is truncated'' input = Inr (mg, rest)"
      using "1.prems" by (subst (asm) import_loop.simps) auto
    note loop = "1.prems" [unfolded import_loop.simps [of L s] mg rbind.simps prod.case]
    show ?case
    proof (cases "mg = END_MAGIC")
      case True
      then show ?thesis using loop by auto
    next
      case False
      then obtain s1 m1 in1 where r: "import_record L s m rest = Inr (s1, m1, in1)"
          and l: "import_loop L s1 m1 (count + 1) in1 = Inr s'" and "mg = RECORD_MAGIC"
        using loop by (auto split: if_splits)
      from "1.IH" [OF mg refl False this(3) r refl refl l] import_record_le [OF r] show ?thesis
        by (rule map_le_trans [rotated])
    qed
  qed
  then show "s \<subseteq>\<^sub>m s'"
    using assms by (auto simp: bundle_import_def split: if_splits)
qed

theorem bundle_import_complete_witness:
  "\<exists>bs. bundle_import 3 short_lib Map.empty bs = Inr (snap_id, sample_objects) \<and>
     complete short_lib sample_objects snap_id"
proof -
  obtain bs where "bundle_import 3 short_lib Map.empty bs = Inr (snap_id, sample_objects)"
    using sample_bundle by blast
  with bundle_import_complete show ?thesis by blast
qed

end
