(* ===== verification/Exchange_Frame.thy ===== *)
theory Exchange_Frame
  imports Object_Model
begin

text \<open>
  The frames that carry sealed objects (\<^verbatim>\<open>furrow-core/src/exchange/frame.rs\<close>) and the ledger of
  what a store already has (\<^verbatim>\<open>furrow-core/src/exchange/ledger.rs\<close>).

  The JSON encoding of a header and SHA-256 are arguments. The iterator that \<open>pack\<close> consumes is the
  list of its results, its callback \<open>emit\<close> threads a state. A ledger is the content of its file, if
  the file exists; syncing it has no state.
\<close>

section \<open>The ledger\<close>

definition is_ascii_digit :: "byte \<Rightarrow> bool" where
  "is_ascii_digit b \<longleftrightarrow> CHR ''0'' \<le> b \<and> b \<le> CHR ''9''"

definition is_lower_hex :: "byte \<Rightarrow> bool" where
  "is_lower_hex b \<longleftrightarrow> is_ascii_digit b \<or> CHR ''a'' \<le> b \<and> b \<le> CHR ''f''"

definition parse_rid :: "string \<Rightarrow> object_id option" where
  "parse_rid txt =
     (if length txt \<noteq> 64 \<or> \<not> list_all is_lower_hex txt then None else hex_decode txt)"

definition NAME_LEN :: nat where "NAME_LEN = 16"

text \<open>\<open>Ledger::named\<close>: the file name of a ledger.\<close>

definition ledger_named :: "string \<Rightarrow> string result" where
  "ledger_named name =
     ensure (length name = NAME_LEN \<and> list_all is_lower_hex name)
       ''ledger must be 16 lowercase hexadecimal characters'' (Inr (''published.'' @ name))"

text \<open>
  \<open>fs::read_to_string\<close> accepts UTF-8 only: the ranges of lead bytes with the ranges of the byte
  that follows, as the standard library has them.
\<close>

definition utf8_cont :: "byte \<Rightarrow> bool" where
  "utf8_cont b \<longleftrightarrow> 128 \<le> (of_char b :: nat) \<and> (of_char b :: nat) < 192"

fun utf8_second :: "nat \<Rightarrow> nat \<Rightarrow> bool" where
  "utf8_second a b =
     (if a = 224 then 160 \<le> b \<and> b < 192
      else if a = 237 then 128 \<le> b \<and> b < 160
      else if a = 240 then 144 \<le> b \<and> b < 192
      else if a = 244 then 128 \<le> b \<and> b < 144
      else 128 \<le> b \<and> b < 192)"

fun utf8_valid :: "bytes \<Rightarrow> bool" where
  "utf8_valid [] = True"
| "utf8_valid (a # r) =
     (let n = of_char a :: nat in
      if n < 128 then utf8_valid r
      else case r of
        [] \<Rightarrow> False
      | b # r1 \<Rightarrow>
          194 \<le> n \<and> n < 245 \<and> utf8_second n (of_char b) \<and>
          (if n < 224 then utf8_valid r1
           else case r1 of
             [] \<Rightarrow> False
           | c # r2 \<Rightarrow>
               utf8_cont c \<and>
               (if n < 240 then utf8_valid r2
                else case r2 of [] \<Rightarrow> False | d # r3 \<Rightarrow> utf8_cont d \<and> utf8_valid r3)))"

text \<open>\<open>str::lines\<close>: a line feed, with the carriage return before it, ends a line.\<close>

definition strip_cr :: "string \<Rightarrow> string" where
  "strip_cr l = (if l \<noteq> [] \<and> last l = CHR 0x0D then butlast l else l)"

definition lines_of :: "string \<Rightarrow> string list" where
  "lines_of txt =
     (let ps = split_on (CHR 0x0A) txt in
      map strip_cr (butlast ps) @ (if last ps = [] then [] else [last ps]))"

definition ledger_recorded :: "bytes option \<Rightarrow> object_id list result" where
  "ledger_recorded file =
     (case file of
        None \<Rightarrow> Inr []
      | Some txt \<Rightarrow>
          ensure (utf8_valid txt) ''read ledger'' (Inr (List.map_filter parse_rid (lines_of txt))))"

definition ledger_append :: "bytes option \<Rightarrow> object_id list \<Rightarrow> bytes option" where
  "ledger_append file rids =
     (if rids = [] then file
      else Some ((case file of None \<Rightarrow> [] | Some txt \<Rightarrow> txt)
                 @ concat (map (\<lambda>rid. id_hex rid @ [CHR 0x0A]) rids)))"

section \<open>Frames\<close>

definition FRAME_MAGIC :: bytes where "FRAME_MAGIC = ''AGEF'' @ [CHR 0x01]"
definition SEALED_MAGIC :: bytes where "SEALED_MAGIC = ''AGEO'' @ [CHR 0x01]"
definition FRAME_VERSION :: nat where "FRAME_VERSION = 1"
definition MAX_HEADER :: nat where "MAX_HEADER = 2 ^ 20"
definition MAX_FRAME :: nat where "MAX_FRAME = 16 * 2 ^ 20"

record object_ref =
  or_rid :: string
  or_off :: nat
  or_len :: nat

record header =
  hd_version :: nat
  hd_cell_key_id :: string
  hd_objects :: "object_ref list"

text \<open>A sealed object, and a finished frame with its rids.\<close>

type_synonym sealed = "object_id \<times> bytes"

record frame =
  fr_bytes :: bytes
  fr_rids :: "object_id list"

record frame_codec =
  json_ref :: "object_ref \<Rightarrow> bytes"
  json_header :: "header \<Rightarrow> bytes"
  parse_header :: "bytes \<Rightarrow> header option"
  sha256 :: "bytes \<Rightarrow> bytes"

definition cell_key_id :: "frame_codec \<Rightarrow> bytes \<Rightarrow> string" where
  "cell_key_id J key = hex_encode (take 16 (sha256 J key))"

definition frame_file_name :: "lib \<Rightarrow> frame \<Rightarrow> string" where
  "frame_file_name L f = hex_encode (blake3 L (fr_bytes f)) @ ''.agef''"

subsection \<open>Packing\<close>

record pending =
  pd_cell_key_id :: string
  pd_max_frame :: nat
  pd_header_len :: nat
  pd_refs :: "object_ref list"
  pd_rids :: "object_id list"
  pd_payload :: bytes

definition pending_new :: "frame_codec \<Rightarrow> string \<Rightarrow> nat \<Rightarrow> pending" where
  "pending_new J key_id max_frame =
     \<lparr>pd_cell_key_id = key_id, pd_max_frame = max_frame,
      pd_header_len = length (json_header J
        \<lparr>hd_version = FRAME_VERSION, hd_cell_key_id = key_id, hd_objects = []\<rparr>),
      pd_refs = [], pd_rids = [], pd_payload = []\<rparr>"

abbreviation pending_empty :: "pending \<Rightarrow> bool" where
  "pending_empty p \<equiv> pd_refs p = []"

text \<open>\<open>len as u32\<close> keeps the low 32 bits, \<open>as u64\<close> keeps a length as it is.\<close>

definition pending_reference :: "pending \<Rightarrow> object_id \<Rightarrow> nat \<Rightarrow> object_ref" where
  "pending_reference p rid len =
     \<lparr>or_rid = id_hex rid, or_off = length (pd_payload p), or_len = len mod 2 ^ 32\<rparr>"

definition pending_fits :: "frame_codec \<Rightarrow> pending \<Rightarrow> object_id \<Rightarrow> nat \<Rightarrow> bool" where
  "pending_fits J p rid len =
     (if pending_empty p then True
      else
        let entry = length (json_ref J (pending_reference p rid len));
            grown = length FRAME_MAGIC + 4 + pd_header_len p + 1 + entry + length (pd_payload p) + len
        in grown \<le> pd_max_frame p)"

definition pending_push :: "frame_codec \<Rightarrow> pending \<Rightarrow> object_id \<Rightarrow> bytes \<Rightarrow> pending" where
  "pending_push J p rid bs =
     (let entry = pending_reference p rid (length bs) in
      p\<lparr>pd_header_len := pd_header_len p + length (json_ref J entry) + (if pending_empty p then 0 else 1),
        pd_refs := pd_refs p @ [entry],
        pd_rids := pd_rids p @ [rid],
        pd_payload := pd_payload p @ bs\<rparr>)"

definition pending_header :: "pending \<Rightarrow> header" where
  "pending_header p =
     \<lparr>hd_version = FRAME_VERSION, hd_cell_key_id = pd_cell_key_id p, hd_objects = pd_refs p\<rparr>"

definition pending_finish :: "frame_codec \<Rightarrow> pending \<Rightarrow> frame result" where
  "pending_finish J p =
     (let h = json_header J (pending_header p) in
      ensure (length h \<le> MAX_HEADER) ''frame header is too large''
      (Inr \<lparr>fr_bytes = FRAME_MAGIC @ le_bytes 4 (length h) @ h @ pd_payload p, fr_rids = pd_rids p\<rparr>))"

definition pack_object ::
  "frame_codec \<Rightarrow> string \<Rightarrow> nat \<Rightarrow> ('v \<Rightarrow> frame \<Rightarrow> 'v result) \<Rightarrow> 'v \<times> pending \<Rightarrow> sealed result \<Rightarrow>
   ('v \<times> pending) result" where
  "pack_object J key_id max_frame emit = (\<lambda>(v, p) obj.
     rbind obj (\<lambda>(rid, bs).
     rbind (if pending_fits J p rid (length bs) then Inr (v, p)
            else rbind (pending_finish J p) (\<lambda>f.
                 rbind (emit v f) (\<lambda>v. Inr (v, pending_new J key_id max_frame)))) (\<lambda>(v, p).
     Inr (v, pending_push J p rid bs))))"

definition pack ::
  "frame_codec \<Rightarrow> string \<Rightarrow> nat \<Rightarrow> sealed result list \<Rightarrow> ('v \<Rightarrow> frame \<Rightarrow> 'v result) \<Rightarrow> 'v \<Rightarrow> 'v result" where
  "pack J key_id max_frame objects emit v =
     rbind (rfold (pack_object J key_id max_frame emit) (v, pending_new J key_id max_frame) objects)
     (\<lambda>(v, p). if pending_empty p then Inr v else rbind (pending_finish J p) (emit v))"

subsection \<open>Unpacking\<close>

definition is_key_id :: "string \<Rightarrow> bool" where
  "is_key_id txt \<longleftrightarrow>
     length txt = 32 \<and> list_all (\<lambda>b. is_ascii_digit b \<or> CHR ''a'' \<le> b \<and> b \<le> CHR ''f'') txt"

definition objects_step ::
  "bytes \<Rightarrow> object_id list \<times> nat \<times> sealed list \<Rightarrow> object_ref \<Rightarrow>
   (object_id list \<times> nat \<times> sealed list) result" where
  "objects_step payload = (\<lambda>(seen, expected, objects) entry.
     ensure (or_off entry = expected) ''frame objects are not contiguous''
     (rbind (of_opt ''frame holds a malformed rid'' (parse_rid (or_rid entry))) (\<lambda>rid.
      ensure (rid \<notin> set seen) (''frame repeats rid '' @ or_rid entry)
     (let end_off = expected + or_len entry in
      rbind (of_opt ''frame objects overrun the payload''
              (if end_off \<le> length payload then Some (take (or_len entry) (drop expected payload)) else None)) (\<lambda>bs.
      ensure (take (length SEALED_MAGIC) bs = SEALED_MAGIC)
        (''frame object '' @ or_rid entry @ '' is not sealed'')
        (Inr (rid # seen, end_off, objects @ [(rid, bs)])))))))"

definition objects_of :: "object_ref list \<Rightarrow> bytes \<Rightarrow> sealed list result" where
  "objects_of refs payload =
     ensure (refs \<noteq> []) ''frame holds no objects''
     (rbind (rfold (objects_step payload) ([], 0, []) refs) (\<lambda>(_, expected, objects).
      ensure (expected = length payload) ''frame payload has trailing bytes'' (Inr objects)))"

definition frame_decode :: "frame_codec \<Rightarrow> bytes \<Rightarrow> (string \<times> sealed list) result" where
  "frame_decode J frame =
     ensure (length frame \<le> MAX_FRAME) ''frame is larger than the store allows''
     (ensure (take (length FRAME_MAGIC) frame = FRAME_MAGIC) ''not a frame: bad magic''
     (rbind (of_opt ''frame is truncated'' (read_exact 4 (drop (length FRAME_MAGIC) frame))) (\<lambda>(len, rest).
      let header_len = le_val len in
      ensure (header_len \<le> MAX_HEADER) ''frame header is too large''
     (rbind (of_opt ''frame is truncated'' (read_exact header_len rest)) (\<lambda>(h, payload).
      rbind (of_opt ''frame header'' (parse_header J h)) (\<lambda>h.
      ensure (hd_version h = FRAME_VERSION) ''unsupported frame version''
     (ensure (is_key_id (hd_cell_key_id h)) ''frame cell_key_id is malformed''
     (rbind (objects_of (hd_objects h) payload) (\<lambda>objects.
      Inr (hd_cell_key_id h, objects))))))))))"

end
