(* ===== verification/Frame_Theorems.thy ===== *)
theory Frame_Theorems
  imports Exchange_Frame Object_Map
begin

text \<open>
  Packing sealed objects into frames and unpacking them again. What \<open>pack\<close> emits is a partition of
  the objects, in order, into frames that respect the size limit, and every frame decodes to its
  part. The limit on the header is a limit of its own: objects that all fit one frame by size may
  still overrun it, and then \<open>pack\<close> fails.
\<close>

section \<open>Textual rids and the ledger\<close>

lemma is_lower_hex_digit: "n < 16 \<Longrightarrow> is_lower_hex (hex_digit n)"
proof -
  assume "n < 16"
  then have "n \<in> set [0..<16]" by simp
  moreover have "list_all (\<lambda>n. is_lower_hex (hex_digit n)) [0..<16]" by code_simp
  ultimately show ?thesis by (simp add: list_all_iff)
qed

lemma hex_encode_lower: "list_all is_lower_hex (hex_encode bs)"
proof (induction bs)
  case (Cons b bs)
  have "(of_char b :: nat) < 256" by simp
  then have "(of_char b :: nat) div 16 < 16" by linarith
  with Cons show ?case by (simp add: is_lower_hex_digit)
qed simp

lemma parse_rid_id_hex: "length rid = 32 \<Longrightarrow> parse_rid (id_hex rid) = Some rid"
  by (simp add: parse_rid_def id_hex_def hex_encode_lower)

lemma parse_rid_length: "parse_rid txt = Some rid \<Longrightarrow> length rid = 32"
  by (auto simp: parse_rid_def split: if_splits dest: hex_decode_length)

section \<open>The codec\<close>

text \<open>
  What the frame code relies on in \<open>serde_json\<close>: decoding inverts encoding, and a header is as long
  as an empty one, its entries and the commas between them.
\<close>

definition codec_laws :: "frame_codec \<Rightarrow> bool" where
  "codec_laws J \<longleftrightarrow>
     (\<forall>h. parse_header J (json_header J h) = Some h) \<and>
     (\<forall>v k rs. length (json_header J \<lparr>hd_version = v, hd_cell_key_id = k, hd_objects = rs\<rparr>) =
        length (json_header J \<lparr>hd_version = v, hd_cell_key_id = k, hd_objects = []\<rparr>)
        + sum_list (map (\<lambda>r. length (json_ref J r)) rs) + (length rs - 1))"

fun refs_from :: "nat \<Rightarrow> sealed list \<Rightarrow> object_ref list" where
  "refs_from off [] = []"
| "refs_from off ((rid, bs) # os) =
     \<lparr>or_rid = id_hex rid, or_off = off, or_len = length bs mod 2 ^ 32\<rparr> # refs_from (off + length bs) os"

abbreviation payload_of :: "sealed list \<Rightarrow> bytes" where
  "payload_of os \<equiv> concat (map snd os)"

definition header_of :: "string \<Rightarrow> sealed list \<Rightarrow> header" where
  "header_of key os = \<lparr>hd_version = FRAME_VERSION, hd_cell_key_id = key, hd_objects = refs_from 0 os\<rparr>"

definition header_size :: "frame_codec \<Rightarrow> string \<Rightarrow> sealed list \<Rightarrow> nat" where
  "header_size J key os = length (json_header J (header_of key os))"

definition frame_size :: "frame_codec \<Rightarrow> string \<Rightarrow> sealed list \<Rightarrow> nat" where
  "frame_size J key os = 9 + header_size J key os + length (payload_of os)"

definition frame_of :: "frame_codec \<Rightarrow> string \<Rightarrow> sealed list \<Rightarrow> frame" where
  "frame_of J key os =
     \<lparr>fr_bytes = FRAME_MAGIC @ le_bytes 4 (header_size J key os) @ json_header J (header_of key os) @ payload_of os,
      fr_rids = map fst os\<rparr>"

lemma length_frame_of: "length (fr_bytes (frame_of J key os)) = frame_size J key os"
  by (simp add: frame_of_def frame_size_def header_size_def FRAME_MAGIC_def)

lemma fr_rids_frame_of [simp]: "fr_rids (frame_of J key os) = map fst os"
  by (simp add: frame_of_def)

lemma length_refs_from [simp]: "length (refs_from off os) = length os"
  by (induction off os rule: refs_from.induct) auto

lemma refs_from_append:
  "refs_from off (xs @ ys) = refs_from off xs @ refs_from (off + length (payload_of xs)) ys"
  by (induction off xs rule: refs_from.induct) (auto simp: add.assoc)

lemma header_size_snoc:
  assumes "codec_laws J"
  shows "header_size J key (os @ [(rid, bs)]) = header_size J key os
     + length (json_ref J \<lparr>or_rid = id_hex rid, or_off = length (payload_of os), or_len = length bs mod 2 ^ 32\<rparr>)
     + (if os = [] then 0 else 1)"
proof -
  have sz: "header_size J key qs = header_size J key []
      + sum_list (map (\<lambda>r. length (json_ref J r)) (refs_from 0 qs)) + (length qs - 1)" for qs
    using assms length_refs_from [of 0 qs] unfolding codec_laws_def header_size_def header_of_def
    by (metis refs_from.simps(1))
  show ?thesis
    unfolding sz [of "os @ [(rid, bs)]"] sz [of os] refs_from_append by (cases os) auto
qed

section \<open>Decoding a frame\<close>

definition sealed_ok :: "sealed list \<Rightarrow> bool" where
  "sealed_ok os \<longleftrightarrow> distinct (map fst os) \<and>
     (\<forall>(rid, bs)\<in>set os. length rid = 32 \<and> take 5 bs = SEALED_MAGIC \<and> length bs < 2 ^ 32)"

lemma length_SEALED_MAGIC: "length SEALED_MAGIC = 5"
  by (simp add: SEALED_MAGIC_def)

lemma sealed_ok_sub: "sealed_ok (xs @ ys @ zs) \<Longrightarrow> sealed_ok ys"
  by (auto simp: sealed_ok_def)

lemma objects_step_refs:
  assumes "sealed_ok os" "set seen \<inter> fst ` set os = {}"
  shows "rfold (objects_step (pre @ payload_of os @ post)) (seen, length pre, acc) (refs_from (length pre) os) =
     Inr (rev (map fst os) @ seen, length pre + length (payload_of os), acc @ os)"
  using assms
proof (induction os arbitrary: pre seen acc)
  case (Cons o1 os)
  obtain rid bs where o1: "o1 = (rid, bs)" by (cases o1)
  have ok: "length rid = 32" "take 5 bs = SEALED_MAGIC" "length bs < 2 ^ 32" "sealed_ok os"
      "rid \<notin> fst ` set os"
    using Cons.prems(1) o1 by (auto simp: sealed_ok_def)
  have "rid \<notin> set seen" using Cons.prems(2) o1 by auto
  then have "objects_step (pre @ payload_of (o1 # os) @ post) (seen, length pre, acc)
      \<lparr>or_rid = id_hex rid, or_off = length pre, or_len = length bs mod 2 ^ 32\<rparr> =
      Inr (rid # seen, length (pre @ bs), acc @ [o1])"
    using ok(1-3) o1 by (simp add: objects_step_def parse_rid_id_hex length_SEALED_MAGIC)
  moreover have "rfold (objects_step ((pre @ bs) @ payload_of os @ post)) (rid # seen, length (pre @ bs), acc @ [o1])
      (refs_from (length (pre @ bs)) os) =
      Inr (rev (map fst os) @ rid # seen, length (pre @ bs) + length (payload_of os), (acc @ [o1]) @ os)"
    using Cons.prems(2) ok(4,5) o1 by (intro Cons.IH) auto
  ultimately show ?case using o1 by simp
qed simp

lemma objects_of_refs:
  assumes "sealed_ok os" "os \<noteq> []"
  shows "objects_of (refs_from 0 os) (payload_of os) = Inr os"
proof -
  have "refs_from 0 os \<noteq> []" using assms(2) by (metis length_0_conv length_refs_from)
  then show ?thesis
    using objects_step_refs [OF assms(1), of "[]" "[]" "[]" "[]"] by (simp add: objects_of_def)
qed

lemma decode_frame_of:
  assumes "codec_laws J" "is_key_id key" "sealed_ok os" "os \<noteq> []"
    and "header_size J key os \<le> MAX_HEADER" "frame_size J key os \<le> MAX_FRAME"
  shows "frame_decode J (fr_bytes (frame_of J key os)) = Inr (key, os)"
proof -
  let ?f = "fr_bytes (frame_of J key os)"
  have small: "header_size J key os < 256 ^ 4" using assms(5) by (simp add: MAX_HEADER_def)
  have magic: "take (length FRAME_MAGIC) ?f = FRAME_MAGIC"
    and rest: "drop (length FRAME_MAGIC) ?f =
      le_bytes 4 (header_size J key os) @ json_header J (header_of key os) @ payload_of os"
    by (simp_all add: frame_of_def)
  have "read_exact (header_size J key os) (json_header J (header_of key os) @ payload_of os) =
      Some (json_header J (header_of key os), payload_of os)"
    by (rule read_exact_append) (simp add: header_size_def)
  moreover have "parse_header J (json_header J (header_of key os)) = Some (header_of key os)"
    using assms(1) by (simp add: codec_laws_def)
  ultimately show ?thesis
    unfolding frame_decode_def length_frame_of magic rest
    using assms(2,5,6) small objects_of_refs [OF assms(3,4)] by (simp add: header_of_def)
qed

section \<open>Packing\<close>

text \<open>What a pending frame stands for: the objects pushed so far.\<close>

definition pending_for :: "frame_codec \<Rightarrow> string \<Rightarrow> nat \<Rightarrow> sealed list \<Rightarrow> pending" where
  "pending_for J key max_frame os =
     \<lparr>pd_cell_key_id = key, pd_max_frame = max_frame, pd_header_len = header_size J key os,
      pd_refs = refs_from 0 os, pd_rids = map fst os, pd_payload = payload_of os\<rparr>"

lemma pending_new_for: "pending_new J key max_frame = pending_for J key max_frame []"
  by (simp add: pending_new_def pending_for_def header_size_def header_of_def)

lemma pending_for_empty [simp]: "pd_refs (pending_for J key max_frame os) = [] \<longleftrightarrow> os = []"
  by (metis length_0_conv length_refs_from pending.select_convs(4) pending_for_def)

lemma pending_push_for:
  assumes "codec_laws J"
  shows "pending_push J (pending_for J key max_frame os) rid bs = pending_for J key max_frame (os @ [(rid, bs)])"
  using header_size_snoc [OF assms, of key os rid bs]
  by (cases os) (auto simp: pending_push_def pending_for_def pending_reference_def Let_def refs_from_append)

lemma pending_fits_for:
  assumes "codec_laws J"
  shows "pending_fits J (pending_for J key max_frame os) rid (length bs) \<longleftrightarrow>
     os = [] \<or> frame_size J key (os @ [(rid, bs)]) \<le> max_frame"
proof (cases "os = []")
  case False
  then have "pending_fits J (pending_for J key max_frame os) rid (length bs) \<longleftrightarrow>
      length FRAME_MAGIC + 4 + header_size J key os + 1
      + length (json_ref J \<lparr>or_rid = id_hex rid, or_off = length (payload_of os), or_len = length bs mod 2 ^ 32\<rparr>)
      + length (payload_of os) + length bs \<le> max_frame"
    unfolding pending_fits_def pending_for_empty Let_def pending_reference_def by (simp add: pending_for_def)
  also have "\<dots> \<longleftrightarrow> frame_size J key (os @ [(rid, bs)]) \<le> max_frame"
    using header_size_snoc [OF assms, of key os rid bs] False by (simp add: frame_size_def FRAME_MAGIC_def add.assoc)
  finally show ?thesis using False by simp
qed (simp add: pending_fits_def)

lemma pending_finish_for:
  "pending_finish J (pending_for J key max_frame os) =
     ensure (header_size J key os \<le> MAX_HEADER) ''frame header is too large'' (Inr (frame_of J key os))"
  by (simp add: pending_finish_def pending_for_def pending_header_def frame_of_def header_size_def
      header_of_def Let_def)

text \<open>The callback that keeps the frames.\<close>

definition collect :: "frame list \<Rightarrow> frame \<Rightarrow> frame list result" where
  "collect fs f = Inr (fs @ [f])"

text \<open>A part of the objects that one frame may hold.\<close>

definition framed :: "frame_codec \<Rightarrow> string \<Rightarrow> nat \<Rightarrow> sealed list \<Rightarrow> bool" where
  "framed J key max_frame g \<longleftrightarrow>
     g \<noteq> [] \<and> (length g = 1 \<or> frame_size J key g \<le> max_frame)"

lemma pack_object_step:
  assumes "codec_laws J" and fits: "cur = [] \<or> framed J key mx cur"
    and hdr: "cur = [] \<or> header_size J key cur \<le> MAX_HEADER"
  obtains (grows) "framed J key mx (cur @ [(rid, bs)])"
      "pack_object J key mx collect (fs, pending_for J key mx cur) (Inr (rid, bs)) =
         Inr (fs, pending_for J key mx (cur @ [(rid, bs)]))"
  | (starts) "framed J key mx [(rid, bs)]" "cur \<noteq> []"
      "pack_object J key mx collect (fs, pending_for J key mx cur) (Inr (rid, bs)) =
         Inr (fs @ [frame_of J key cur], pending_for J key mx [(rid, bs)])"
proof (cases "pending_fits J (pending_for J key mx cur) rid (length bs)")
  case True
  then have "framed J key mx (cur @ [(rid, bs)])"
    by (auto simp: framed_def pending_fits_for [OF assms(1)])
  moreover have "pack_object J key mx collect (fs, pending_for J key mx cur) (Inr (rid, bs)) =
      Inr (fs, pending_for J key mx (cur @ [(rid, bs)]))"
    using True by (simp add: pack_object_def pending_push_for [OF assms(1)])
  ultimately show thesis by (rule grows)
next
  case False
  then have "cur \<noteq> []" by (auto simp: pending_fits_for [OF assms(1)])
  moreover have "framed J key mx [(rid, bs)]" by (simp add: framed_def)
  moreover have "pack_object J key mx collect (fs, pending_for J key mx cur) (Inr (rid, bs)) =
      Inr (fs @ [frame_of J key cur], pending_for J key mx [(rid, bs)])"
    using False hdr \<open>cur \<noteq> []\<close> pending_push_for [OF assms(1), of key mx "[]" rid bs]
    by (simp add: pack_object_def collect_def pending_finish_for pending_new_for)
  ultimately show thesis using starts by blast
qed

text \<open>The rest of a run of \<open>pack\<close>, from a state of its loop.\<close>

definition pack_rest ::
  "frame_codec \<Rightarrow> string \<Rightarrow> nat \<Rightarrow> frame list \<times> pending \<Rightarrow> sealed list \<Rightarrow> frame list result" where
  "pack_rest J key mx st os =
     rbind (rfold (pack_object J key mx collect) st (map Inr os))
       (\<lambda>(v, p). if pending_empty p then Inr v else rbind (pending_finish J p) (collect v))"

lemma pack_rest_Cons:
  "pack_object J key mx collect st (Inr x) = Inr st' \<Longrightarrow>
   pack_rest J key mx st (x # os) = pack_rest J key mx st' os"
  by (simp add: pack_rest_def)

lemma pack_pack_rest: "pack J key mx (map Inr os) collect [] = pack_rest J key mx ([], pending_for J key mx []) os"
  by (simp add: pack_def pack_rest_def pending_new_for)

lemma pack_partitions:
  assumes J: "codec_laws J"
    and hdr: "\<And>g. framed J key mx g \<Longrightarrow> sublist g whole \<Longrightarrow> header_size J key g \<le> MAX_HEADER"
    and "whole = pre @ cur @ os" "cur = [] \<or> framed J key mx cur"
  shows "\<exists>groups. (\<forall>g\<in>set groups. framed J key mx g \<and> sublist g whole) \<and> concat groups = cur @ os \<and>
     pack_rest J key mx (fs, pending_for J key mx cur) os = Inr (fs @ map (frame_of J key) groups)"
  using assms(3,4)
proof (induction os arbitrary: pre cur fs)
  case Nil
  have "sublist cur whole" using Nil.prems(1) by (simp add: sublist_append_leftI)
  with Nil.prems(2) show ?case
    using hdr [of cur]
    by (intro exI [of _ "if cur = [] then [] else [cur]"])
       (auto simp: pack_rest_def pending_finish_for collect_def)
next
  case (Cons o1 os)
  obtain rid bs where o1: "o1 = (rid, bs)" by (cases o1)
  have cur: "sublist cur whole" using Cons.prems(1) by (simp add: sublist_appendI)
  then have h: "cur = [] \<or> header_size J key cur \<le> MAX_HEADER" using Cons.prems(2) hdr by blast
  show ?case
  proof (cases rule: pack_object_step [OF J Cons.prems(2) h, of rid bs fs, case_names grows starts])
    case grows
    have "whole = pre @ (cur @ [o1]) @ os" using Cons.prems(1) by simp
    from Cons.IH [OF this, of fs] grows(1) show ?thesis
      by (simp add: o1 pack_rest_Cons [OF grows(2)])
  next
    case starts
    have "whole = (pre @ cur) @ [o1] @ os" using Cons.prems(1) by simp
    from Cons.IH [OF this, of "fs @ [frame_of J key cur]"] starts(1)
    obtain groups where g: "\<forall>g\<in>set groups. framed J key mx g \<and> sublist g whole" "concat groups = o1 # os"
        "pack_rest J key mx (fs @ [frame_of J key cur], pending_for J key mx [o1]) os =
         Inr ((fs @ [frame_of J key cur]) @ map (frame_of J key) groups)"
      by (auto simp: o1)
    moreover have "framed J key mx cur" using Cons.prems starts(2) by auto
    ultimately show ?thesis
      using cur by (intro exI [of _ "cur # groups"]) (simp add: o1 pack_rest_Cons [OF starts(3)])
  qed
qed

lemma sealed_ok_sublist: "sealed_ok os \<Longrightarrow> sublist g os \<Longrightarrow> sealed_ok g"
  by (auto simp: sublist_def dest: sealed_ok_sub)

definition header_fits :: "frame_codec \<Rightarrow> string \<Rightarrow> nat \<Rightarrow> sealed list \<Rightarrow> bool" where
  "header_fits J key max_frame os \<longleftrightarrow>
     max_frame \<le> MAX_HEADER \<or> (\<forall>g. sublist g os \<longrightarrow> header_size J key g \<le> MAX_HEADER)"

lemma pack_frames:
  assumes "codec_laws J" "is_key_id key" "sealed_ok os" "max_frame \<le> MAX_FRAME"
    and singles: "\<forall>x\<in>set os. frame_size J key [x] \<le> max_frame"
    and hdr: "header_fits J key max_frame os"
  obtains parts where "pack J key max_frame (map Inr os) collect [] = Inr (map (frame_of J key) parts)"
    "concat parts = os" "\<forall>g\<in>set parts. sublist g os \<and> g \<noteq> [] \<and> frame_size J key g \<le> max_frame \<and>
       frame_decode J (fr_bytes (frame_of J key g)) = Inr (key, g)"
proof -
  have size: "frame_size J key g \<le> max_frame" if "framed J key max_frame g" "sublist g os" for g
  proof (cases "length g = 1")
    case True
    then obtain x where "g = [x]" by (metis One_nat_def length_0_conv length_Suc_conv)
    moreover have "x \<in> set os" using that(2) \<open>g = [x]\<close> by (auto simp: sublist_def)
    ultimately show ?thesis using singles by simp
  qed (use that in \<open>simp add: framed_def\<close>)
  have h: "header_size J key g \<le> MAX_HEADER" if "framed J key max_frame g" "sublist g os" for g
    using size [OF that] that(2) hdr by (auto simp: header_fits_def frame_size_def)
  obtain parts where parts: "\<forall>g\<in>set parts. framed J key max_frame g \<and> sublist g os" "concat parts = os"
      "pack J key max_frame (map Inr os) collect [] = Inr (map (frame_of J key) parts)"
    using pack_partitions [where key = key and mx = max_frame and whole = os and pre = "[]" and cur = "[]"
        and os = os and fs = "[]", OF assms(1)] h by (auto simp: pack_pack_rest)
  have "sublist g os \<and> g \<noteq> [] \<and> frame_size J key g \<le> max_frame \<and>
      frame_decode J (fr_bytes (frame_of J key g)) = Inr (key, g)" if "g \<in> set parts" for g
  proof -
    have g: "framed J key max_frame g" "sublist g os" "g \<noteq> []"
      using parts(1) that by (auto simp: framed_def)
    then have "frame_decode J (fr_bytes (frame_of J key g)) = Inr (key, g)"
      using assms(4) size [OF g(1,2)] h [OF g(1,2)] sealed_ok_sublist [OF assms(3) g(2)]
      by (intro decode_frame_of [OF assms(1,2)]) auto
    with g size [OF g(1,2)] show ?thesis by simp
  qed
  then show thesis using that parts by blast
qed

text \<open>
  C38: Packing sealed objects (distinct rids, each object small enough for a frame of its own)
  succeeds; every frame is within the limit and decodes, with the key id it was packed under, to
  consecutive objects; together the frames carry all objects, once each and in order. The
  headers must be within their own limit: they are when the frame limit is at most the header
  limit, and otherwise when no run of the objects overruns it.
\<close>

theorem pack_decode:
  assumes "codec_laws J" "is_key_id key" "sealed_ok os" "max_frame \<le> MAX_FRAME"
    and "\<forall>x\<in>set os. frame_size J key [x] \<le> max_frame"
    and "header_fits J key max_frame os"
  shows "\<exists>frames parts. pack J key max_frame (map Inr os) collect [] = Inr frames \<and>
     (\<forall>f\<in>set frames. length (fr_bytes f) \<le> max_frame) \<and>
     map (\<lambda>f. frame_decode J (fr_bytes f)) frames = map (\<lambda>g. Inr (key, g)) parts \<and>
     map fr_rids frames = map (map fst) parts \<and> concat parts = os"
proof -
  obtain parts where "pack J key max_frame (map Inr os) collect [] = Inr (map (frame_of J key) parts)"
    "concat parts = os" "\<forall>g\<in>set parts. sublist g os \<and> g \<noteq> [] \<and> frame_size J key g \<le> max_frame \<and>
       frame_decode J (fr_bytes (frame_of J key g)) = Inr (key, g)"
    by (rule pack_frames [OF assms])
  then show ?thesis
    by (intro exI [of _ "map (frame_of J key) parts"] exI [of _ parts])
       (auto simp: length_frame_of o_def)
qed

section \<open>A concrete codec\<close>

text \<open>
  A self-delimiting encoding with the length law of the comma-separated one: a list of \<open>n + 1\<close>
  entries is preceded by \<open>n\<close> marks and a stop, an empty list is a mark of its own.
\<close>

definition c_ref :: "object_ref codec" where
  "c_ref = c_iso (\<lambda>r. (or_rid r, or_off r, or_len r)) (\<lambda>(a, b, c). \<lparr>or_rid = a, or_off = b, or_len = c\<rparr>)
     (c_pair c_bytes (c_pair c_nat c_nat))"

definition c_refs :: "object_ref list codec" where
  "c_refs = \<lparr>enc = \<lambda>rs. if rs = [] then ''E'' else enc c_nat (length rs - 1) @ concat (map (enc c_ref) rs),
     dec = \<lambda>bs. case bs of [] \<Rightarrow> None | b # r \<Rightarrow>
       if b = CHR ''E'' then Some ([], r)
       else Option.bind (dec c_nat bs) (\<lambda>(n, r). dec_list (dec c_ref) (Suc n) r)\<rparr>"

definition c_header :: "header codec" where
  "c_header = c_iso (\<lambda>h. (hd_version h, hd_cell_key_id h, hd_objects h))
     (\<lambda>(a, b, c). \<lparr>hd_version = a, hd_cell_key_id = b, hd_objects = c\<rparr>) (c_pair c_nat (c_pair c_bytes c_refs))"

definition sample_frames :: frame_codec where
  "sample_frames = \<lparr>json_ref = enc c_ref, json_header = enc c_header,
     parse_header = \<lambda>bs. map_option fst (dec c_header bs), sha256 = \<lambda>bs. take 32 (bs @ replicate 32 (CHR 0x00))\<rparr>"

lemma codec_ref [intro]: "codec_ok c_ref"
  unfolding c_ref_def by (rule codec_iso) (auto intro!: codec_pair)

lemma codec_refs [intro]: "codec_ok c_refs"
proof -
  have entries: "dec_list (dec c_ref) (length xs) (concat (map (enc c_ref) xs) @ r) = Some (xs, r)" for xs r
    using codec_ref by (induction xs) (auto simp: codec_ok_def)
  have "dec c_refs (enc c_refs xs @ r) = Some (xs, r)" for xs r
  proof (cases xs)
    case (Cons y ys)
    let ?z = "concat (map (enc c_ref) xs) @ r"
    have "dec c_nat (enc c_nat (length ys) @ ?z) = Some (length ys, ?z)"
      using codec_nat by (simp add: codec_ok_def)
    moreover obtain b t where "enc c_nat (length ys) = b # t" "b \<noteq> CHR ''E''"
      by (cases "length ys") (simp_all add: c_nat_def)
    ultimately show ?thesis
      using entries [of xs r] Cons by (simp add: c_refs_def del: dec_list.simps)
  qed (simp add: c_refs_def)
  then show ?thesis by (simp add: codec_ok_def)
qed

lemma codec_header [intro]: "codec_ok c_header"
  unfolding c_header_def by (rule codec_iso) (auto intro!: codec_pair)

lemma sample_frames_laws: "codec_laws sample_frames"
proof -
  have "length (enc c_header \<lparr>hd_version = v, hd_cell_key_id = k, hd_objects = rs\<rparr>) =
        length (enc c_header \<lparr>hd_version = v, hd_cell_key_id = k, hd_objects = []\<rparr>)
        + sum_list (map (\<lambda>r. length (enc c_ref r)) rs) + (length rs - 1)" for v k rs
    by (simp add: c_header_def c_iso_def c_pair_def c_refs_def c_nat_def length_concat o_def)
  then show ?thesis
    unfolding codec_laws_def sample_frames_def frame_codec.select_convs
    using codec_round_trip [OF codec_header] by blast
qed

text \<open>Two sealed objects of five bytes.\<close>

definition sample_sealed :: "sealed list" where
  "sample_sealed = [(replicate 32 (CHR ''a''), SEALED_MAGIC), (replicate 32 (CHR ''b''), SEALED_MAGIC)]"

definition sample_key_id :: string where "sample_key_id = replicate 32 (CHR ''0'')"

lemmas frame_codec_simps = sample_frames_def c_header_def c_ref_def c_refs_def c_iso_def c_pair_def
  c_nat_def c_bytes_def

lemma length_id_hex [simp]: "length (id_hex i) = 2 * length i"
  by (simp add: id_hex_def)

lemma sample_sealed_ok: "sealed_ok sample_sealed"
  by (simp add: sealed_ok_def sample_sealed_def SEALED_MAGIC_def)

lemma sample_singles: "\<forall>x\<in>set sample_sealed. frame_size sample_frames sample_key_id [x] \<le> MAX_HEADER"
  by (simp add: sample_sealed_def frame_size_def header_size_def header_of_def frame_codec_simps
      FRAME_VERSION_def sample_key_id_def SEALED_MAGIC_def MAX_HEADER_def)

lemma sample_key_ok: "is_key_id sample_key_id"
  by (simp add: is_key_id_def sample_key_id_def is_ascii_digit_def list_all_iff)

theorem pack_decode_witness:
  "\<exists>frames parts. pack sample_frames sample_key_id (2 ^ 20) (map Inr sample_sealed) collect [] = Inr frames \<and>
     (\<forall>f\<in>set frames. length (fr_bytes f) \<le> 2 ^ 20) \<and>
     map (\<lambda>f. frame_decode sample_frames (fr_bytes f)) frames = map (\<lambda>g. Inr (sample_key_id, g)) parts \<and>
     map fr_rids frames = map (map fst) parts \<and> concat parts = sample_sealed"
proof -
  have "(2 :: nat) ^ 20 \<le> MAX_FRAME" "header_fits sample_frames sample_key_id (2 ^ 20) sample_sealed"
    by (simp_all add: MAX_FRAME_def header_fits_def MAX_HEADER_def)
  then show ?thesis
    using pack_decode [OF sample_frames_laws sample_key_ok sample_sealed_ok, of "2 ^ 20"] sample_singles
    by (simp only: MAX_HEADER_def)
qed

section \<open>When the header overruns its limit\<close>

lemma header_size_mono:
  assumes "codec_laws J"
  shows "header_size J key xs \<le> header_size J key (xs @ ys)"
proof (induction ys rule: rev_induct)
  case (snoc y ys)
  then show ?case
    using header_size_snoc [OF assms, of key "xs @ ys" "fst y" "snd y"] by simp
qed simp

lemma pack_rest_whole:
  assumes "codec_laws J" and "frame_size J key (cur @ os) \<le> mx"
  shows "pack_rest J key mx (fs, pending_for J key mx cur) os =
     pack_rest J key mx (fs, pending_for J key mx (cur @ os)) []"
  using assms(2)
proof (induction os arbitrary: cur)
  case (Cons o1 os)
  obtain rid bs where o1: "o1 = (rid, bs)" by (cases o1)
  have "frame_size J key (cur @ [o1]) \<le> mx"
    using Cons.prems header_size_mono [OF assms(1), of key "cur @ [o1]" os] by (simp add: frame_size_def)
  then have "pack_object J key mx collect (fs, pending_for J key mx cur) (Inr o1) =
      Inr (fs, pending_for J key mx (cur @ [o1]))"
    using pending_fits_for [OF assms(1)] pending_push_for [OF assms(1)] o1 by (simp add: pack_object_def)
  then show ?case using Cons by (simp add: pack_rest_Cons)
qed simp

text \<open>
  Objects that fit one frame by size, and are so many that the header naming them is longer than
  the header limit, make \<open>pack\<close> fail, although packing them into more frames would be possible:
  \<open>fits\<close> compares only the size of the frame.
\<close>

lemma pack_header_overflow:
  assumes "codec_laws J" "frame_size J key os \<le> max_frame" "MAX_HEADER < header_size J key os" "os \<noteq> []"
  shows "pack J key max_frame (map Inr os) collect [] = Inl (Bail ''frame header is too large'')"
  using pack_rest_whole [OF assms(1), of key "[]" os max_frame "[]"] assms(2-4)
  by (simp add: pack_pack_rest) (simp add: pack_rest_def pending_finish_for)

end
