(* ===== verification/Sealing.thy ===== *)
theory Sealing
  imports Object_Map
begin

text \<open>
  Opaque remote ids and authenticated encryption (\<^verbatim>\<open>furrow-core/src/remote_crypto.rs\<close>) and the
  sealer of one identity (\<^verbatim>\<open>furrow-core/src/sealer.rs\<close>).

  The keyed BLAKE3 hash and XChaCha20-Poly1305 are third-party code: \<open>keyed_xof C key msg n\<close> is
  the first \<open>n\<close> bytes of the keyed hash of the concatenated updates (\<open>finalize\<close> gives 32 of them),
  \<open>aead_encrypt\<close> and \<open>aead_decrypt\<close> take a key, a nonce, the associated data and a message. The
  trait \<open>Sealer\<close> is a record of its three operations.
\<close>

record crypto =
  keyed_xof :: "bytes \<Rightarrow> bytes \<Rightarrow> nat \<Rightarrow> bytes"
  aead_encrypt :: "bytes \<Rightarrow> bytes \<Rightarrow> bytes \<Rightarrow> bytes \<Rightarrow> bytes option"
  aead_decrypt :: "bytes \<Rightarrow> bytes \<Rightarrow> bytes \<Rightarrow> bytes \<Rightarrow> bytes option"

text \<open>
  Documented behaviour of the two: the hash has the length asked for; encryption does not fail on
  a message of at most \<open>n\<close> bytes, adds a tag of 16 bytes, and decryption inverts it.
\<close>

definition crypto_ok :: "crypto \<Rightarrow> nat \<Rightarrow> bool" where
  "crypto_ok C n \<longleftrightarrow>
     (\<forall>key msg len. length (keyed_xof C key msg len) = len) \<and>
     (\<forall>key nonce aad msg. length msg \<le> n \<longrightarrow>
        (\<exists>c. aead_encrypt C key nonce aad msg = Some c \<and> length c = length msg + 16 \<and>
             aead_decrypt C key nonce aad c = Some msg))"

section \<open>Remote objects and metadata\<close>

definition REMOTE_OBJECT_MAGIC :: bytes where "REMOTE_OBJECT_MAGIC = ''AGEO'' @ [CHR 0x01]"
definition HEAD_MAGIC :: bytes where "HEAD_MAGIC = ''AGEH'' @ [CHR 0x01]"
definition NONCE_LEN :: nat where "NONCE_LEN = 24"
definition MAX_METADATA_LEN :: nat where "MAX_METADATA_LEN = 1024 * 1024"

definition remote_id :: "crypto \<Rightarrow> bytes \<Rightarrow> object_id \<Rightarrow> object_id" where
  "remote_id C key i = keyed_xof C key (''furrow:remote-id:v1'' @ [CHR 0x00] @ i) 32"

definition object_nonce :: "crypto \<Rightarrow> bytes \<Rightarrow> object_id \<Rightarrow> bytes" where
  "object_nonce C key i = keyed_xof C key (''furrow:object-nonce:v1'' @ [CHR 0x00] @ i) NONCE_LEN"

definition seal_with ::
  "crypto \<Rightarrow> bytes \<Rightarrow> object_id \<Rightarrow> bytes \<Rightarrow> object_id \<Rightarrow> object_kind \<Rightarrow> bytes \<Rightarrow> bytes result" where
  "seal_with C key rid nonce i kind bs =
     (let plaintext = [char_of (kind_u8 kind)] @ i @ bs in
      rbind (of_opt ''encrypt remote object'' (aead_encrypt C key nonce rid plaintext)) (\<lambda>ciphertext.
      Inr (REMOTE_OBJECT_MAGIC @ nonce @ ciphertext)))"

definition encrypt_object ::
  "lib \<Rightarrow> crypto \<Rightarrow> bytes \<Rightarrow> object_id \<Rightarrow> object_kind \<Rightarrow> bytes \<Rightarrow> bytes result" where
  "encrypt_object L C key i kind bs =
     ensure (object_id L kind bs = i) ''object ID does not match bytes''
     (seal_with C key (remote_id C key i) (object_nonce C key i) i kind bs)"

definition open_with ::
  "lib \<Rightarrow> crypto \<Rightarrow> bytes \<Rightarrow> object_id \<Rightarrow> bytes \<Rightarrow> object_id \<Rightarrow> bytes \<Rightarrow> (object_kind \<times> bytes) result" where
  "open_with L C key rid expected_nonce expected_id framed =
     (let m = length REMOTE_OBJECT_MAGIC in
      ensure (m + NONCE_LEN + 16 \<le> length framed) ''encrypted object is truncated''
     (ensure (take m framed = REMOTE_OBJECT_MAGIC) ''invalid encrypted object header''
     (let nonce = take NONCE_LEN (drop m framed) in
      ensure (nonce = expected_nonce) ''object nonce mismatch''
     (rbind (of_opt ''remote object authentication failed''
               (aead_decrypt C key nonce rid (drop (m + NONCE_LEN) framed))) (\<lambda>plaintext.
      ensure (33 \<le> length plaintext) ''remote object payload is truncated''
     (rbind (of_opt ''invalid remote object kind'' (kind_from_u8 (of_char (plaintext ! 0)))) (\<lambda>kind.
      ensure (take 32 (drop 1 plaintext) = expected_id) ''remote object ID mismatch''
     (let bs = drop 33 plaintext in
      ensure (object_id L kind bs = expected_id) ''remote object content failed verification''
        (Inr (kind, bs))))))))))"

definition decrypt_object ::
  "lib \<Rightarrow> crypto \<Rightarrow> bytes \<Rightarrow> object_id \<Rightarrow> bytes \<Rightarrow> (object_kind \<times> bytes) result" where
  "decrypt_object L C key expected_id framed =
     open_with L C key (remote_id C key expected_id) (object_nonce C key expected_id) expected_id framed"

text \<open>The nonce of metadata is random, and drawing it may fail.\<close>

definition encrypt_metadata ::
  "crypto \<Rightarrow> bytes \<Rightarrow> bytes result \<Rightarrow> bytes \<Rightarrow> bytes \<Rightarrow> bytes result" where
  "encrypt_metadata C key random_nonce plaintext context =
     ensure (length plaintext \<le> MAX_METADATA_LEN) ''sync metadata exceeds the 1 MiB limit''
     (rbind random_nonce (\<lambda>nonce.
      rbind (of_opt ''encrypt sync head'' (aead_encrypt C key nonce context plaintext)) (\<lambda>ciphertext.
      Inr (HEAD_MAGIC @ nonce @ ciphertext))))"

definition decrypt_metadata :: "crypto \<Rightarrow> bytes \<Rightarrow> bytes \<Rightarrow> bytes \<Rightarrow> bytes result" where
  "decrypt_metadata C key framed context =
     (let m = length HEAD_MAGIC in
      ensure (m + NONCE_LEN + 16 \<le> length framed) ''encrypted sync head is truncated''
     (ensure (take m framed = HEAD_MAGIC) ''invalid encrypted sync-head header''
     (let nonce = take NONCE_LEN (drop m framed) in
      ensure (length framed \<le> m + NONCE_LEN + 16 + MAX_METADATA_LEN)
        ''encrypted sync metadata exceeds the 1 MiB limit''
        (of_opt ''sync-head authentication failed''
           (aead_decrypt C key nonce context (drop (m + NONCE_LEN) framed))))))"

definition encrypt_head ::
  "crypto \<Rightarrow> bytes \<Rightarrow> bytes result \<Rightarrow> object_id \<Rightarrow> bytes \<Rightarrow> bytes result" where
  "encrypt_head C key random_nonce snap context = encrypt_metadata C key random_nonce snap context"

definition decrypt_head :: "crypto \<Rightarrow> bytes \<Rightarrow> bytes \<Rightarrow> bytes \<Rightarrow> object_id result" where
  "decrypt_head C key framed context =
     rbind (decrypt_metadata C key framed context) (\<lambda>plaintext.
     ensure (length plaintext = 32) ''invalid sync-head snapshot ID'' (Inr plaintext))"

section \<open>The sealer of an identity\<close>

record keys =
  cell_key :: bytes
  dedup :: bytes

record sealer =
  sl_remote_id :: "object_kind \<Rightarrow> object_id \<Rightarrow> object_id"
  sl_seal :: "object_kind \<Rightarrow> object_id \<Rightarrow> bytes \<Rightarrow> (object_id \<times> bytes) result"
  sl_open :: "object_kind \<Rightarrow> object_id \<Rightarrow> object_id \<Rightarrow> bytes \<Rightarrow> bytes result"

definition CHUNK_RID :: bytes where "CHUNK_RID = ''codeaf:chunk-rid:v1'' @ [CHR 0x00]"
definition CHUNK_KEY :: bytes where "CHUNK_KEY = ''codeaf:chunk-key:v1'' @ [CHR 0x00]"
definition CHUNK_NONCE :: bytes where "CHUNK_NONCE = ''codeaf:chunk-nonce:v1'' @ [CHR 0x00]"

definition keyed :: "crypto \<Rightarrow> bytes \<Rightarrow> bytes \<Rightarrow> object_id \<Rightarrow> bytes" where
  "keyed C key domain i = keyed_xof C key (domain @ i) 32"

text \<open>What a \<open>Scheme\<close> answers for one object: its cipher key, its remote id and its nonce.\<close>

record scheme =
  sc_key :: bytes
  sc_remote_id :: object_id
  sc_nonce :: bytes

definition structure_scheme :: "crypto \<Rightarrow> bytes \<Rightarrow> object_id \<Rightarrow> scheme" where
  "structure_scheme C cell i =
     \<lparr>sc_key = cell, sc_remote_id = remote_id C cell i, sc_nonce = object_nonce C cell i\<rparr>"

definition convergent_scheme :: "crypto \<Rightarrow> bytes \<Rightarrow> object_id \<Rightarrow> scheme" where
  "convergent_scheme C secret i =
     (let key = keyed C secret CHUNK_KEY i in
      \<lparr>sc_key = key, sc_remote_id = keyed C secret CHUNK_RID i,
       sc_nonce = keyed_xof C key (CHUNK_NONCE @ []) NONCE_LEN\<rparr>)"

definition scheme_of :: "crypto \<Rightarrow> keys \<Rightarrow> object_kind \<Rightarrow> object_id \<Rightarrow> scheme" where
  "scheme_of C K kind i =
     (case kind of
        Chunk \<Rightarrow> convergent_scheme C (dedup K) i
      | _ \<Rightarrow> structure_scheme C (cell_key K) i)"

definition cell_seal ::
  "lib \<Rightarrow> crypto \<Rightarrow> keys \<Rightarrow> object_kind \<Rightarrow> object_id \<Rightarrow> bytes \<Rightarrow> (object_id \<times> bytes) result" where
  "cell_seal L C K kind i bs =
     ensure (object_id L kind bs = i) ''object ID does not match bytes''
     (let sc = scheme_of C K kind i; rid = sc_remote_id sc in
      rbind (seal_with C (sc_key sc) rid (sc_nonce sc) i kind bs) (\<lambda>sealed. Inr (rid, sealed)))"

definition cell_open ::
  "lib \<Rightarrow> crypto \<Rightarrow> keys \<Rightarrow> object_kind \<Rightarrow> object_id \<Rightarrow> object_id \<Rightarrow> bytes \<Rightarrow> bytes result" where
  "cell_open L C K kind i rid sealed =
     (let sc = scheme_of C K kind i in
      ensure (sc_remote_id sc = rid) ''remote id does not name object''
      (rbind (open_with L C (sc_key sc) rid (sc_nonce sc) i sealed) (\<lambda>(opened, bs).
       ensure (opened = kind) ''object kind mismatch'' (Inr bs))))"

definition cell_sealer :: "lib \<Rightarrow> crypto \<Rightarrow> keys \<Rightarrow> sealer" where
  "cell_sealer L C K =
     \<lparr>sl_remote_id = \<lambda>kind i. sc_remote_id (scheme_of C K kind i),
      sl_seal = cell_seal L C K, sl_open = cell_open L C K\<rparr>"

section \<open>What a sealer promises\<close>

text \<open>
  The contract of the trait \<open>Sealer\<close>, for objects of at most \<open>n\<close> bytes: sealing an object under its
  id succeeds, gives its remote id and bytes that carry the object magic, and opening them gives
  the object back; whatever opens is the content that its id names.
\<close>

locale sealing =
  fixes L :: lib and S :: sealer and n :: nat and ok :: bool
  assumes seal_open: "ok \<Longrightarrow> object_id L kind bs = i \<Longrightarrow> length i = 32 \<Longrightarrow> length bs \<le> n \<Longrightarrow>
      \<exists>sealed. sl_seal S kind i bs = Inr (sl_remote_id S kind i, sealed) \<and>
        sl_open S kind i (sl_remote_id S kind i) sealed = Inr bs \<and>
        take 5 sealed = REMOTE_OBJECT_MAGIC \<and> length sealed = length bs + 78"
    and open_verified: "sl_open S kind i rid sealed = Inr bs \<Longrightarrow> object_id L kind bs = i"
    and remote_id_length: "ok \<Longrightarrow> length (sl_remote_id S kind i) = 32"
begin

lemma seal_remote_id:
  assumes ok "object_id L kind bs = i" "length i = 32" "length bs \<le> n"
    and "sl_seal S kind i bs = Inr (rid, sealed)"
  shows "rid = sl_remote_id S kind i" and "sl_open S kind i rid sealed = Inr bs"
    and "take 5 sealed = REMOTE_OBJECT_MAGIC" and "length sealed = length bs + 78"
  using seal_open [OF assms(1-4)] assms(5) by auto

end

lemma open_with_seal_with:
  assumes "crypto_ok C n" "length nonce = NONCE_LEN" "length i = 32" "length bs + 33 \<le> n"
    and "object_id L kind bs = i"
  obtains sealed where "seal_with C key rid nonce i kind bs = Inr sealed"
    "open_with L C key rid nonce i sealed = Inr (kind, bs)"
    "take 5 sealed = REMOTE_OBJECT_MAGIC" "length sealed = length bs + 78"
proof -
  let ?p = "[char_of (kind_u8 kind)] @ i @ bs"
  have "length ?p \<le> n" using assms(3,4) by simp
  then obtain c where c: "aead_encrypt C key nonce rid ?p = Some c" "length c = length ?p + 16"
      "aead_decrypt C key nonce rid c = Some ?p"
    using assms(1) unfolding crypto_ok_def by blast
  let ?s = "REMOTE_OBJECT_MAGIC @ nonce @ c"
  have "seal_with C key rid nonce i kind bs = Inr ?s"
    using c(1) by (simp add: seal_with_def)
  moreover have "open_with L C key rid nonce i ?s = Inr (kind, bs)"
    using assms(2,3,5) c(2,3) by (simp add: open_with_def REMOTE_OBJECT_MAGIC_def)
  moreover have "take 5 ?s = REMOTE_OBJECT_MAGIC" "length ?s = length bs + 78"
    using assms(2,3) c(2) by (simp_all add: REMOTE_OBJECT_MAGIC_def NONCE_LEN_def)
  ultimately show thesis using that by blast
qed

lemma open_with_verified:
  "open_with L C key rid nonce i sealed = Inr (kind, bs) \<Longrightarrow> object_id L kind bs = i"
  by (auto simp: open_with_def Let_def split: if_splits)

lemma scheme_lengths:
  assumes "crypto_ok C n"
  shows "length (sc_nonce (scheme_of C K kind i)) = NONCE_LEN"
    and "length (sc_remote_id (scheme_of C K kind i)) = 32"
  using assms by (auto simp: crypto_ok_def scheme_of_def structure_scheme_def convergent_scheme_def
      object_nonce_def remote_id_def keyed_def Let_def split: object_kind.split)

interpretation cell: sealing L "cell_sealer L C K" n "crypto_ok C (n + 33)" for L C K n
proof
  fix kind :: object_kind and bs i
  assume ok: "crypto_ok C (n + 33)" "object_id L kind bs = i" "length i = 32" "length bs \<le> n"
  let ?sc = "scheme_of C K kind i"
  obtain sealed where "seal_with C (sc_key ?sc) (sc_remote_id ?sc) (sc_nonce ?sc) i kind bs = Inr sealed"
      "open_with L C (sc_key ?sc) (sc_remote_id ?sc) (sc_nonce ?sc) i sealed = Inr (kind, bs)"
      "take 5 sealed = REMOTE_OBJECT_MAGIC" "length sealed = length bs + 78"
    using open_with_seal_with [OF ok(1) scheme_lengths(1)[OF ok(1)] ok(3) _ ok(2)] ok(4) by (metis add_le_mono1)
  with ok(2) show "\<exists>sealed. sl_seal (cell_sealer L C K) kind i bs =
        Inr (sl_remote_id (cell_sealer L C K) kind i, sealed) \<and>
      sl_open (cell_sealer L C K) kind i (sl_remote_id (cell_sealer L C K) kind i) sealed = Inr bs \<and>
      take 5 sealed = REMOTE_OBJECT_MAGIC \<and> length sealed = length bs + 78"
    by (simp add: cell_sealer_def cell_seal_def cell_open_def Let_def)
next
  show "sl_open (cell_sealer L C K) kind i rid sealed = Inr bs \<Longrightarrow> object_id L kind bs = i"
    for kind i rid sealed bs
    by (auto simp: cell_sealer_def cell_open_def Let_def split: if_splits dest: open_with_verified)
  show "crypto_ok C (n + 33) \<Longrightarrow> length (sl_remote_id (cell_sealer L C K) kind i) = 32" for kind i
    by (simp add: cell_sealer_def scheme_lengths)
qed

lemma decrypt_encrypt_head:
  assumes "crypto_ok C n" "32 \<le> n" "length nonce = NONCE_LEN" "length snap = 32"
  shows "\<exists>framed. encrypt_head C key (Inr nonce) snap context = Inr framed \<and>
     decrypt_head C key framed context = Inr snap"
proof -
  obtain c where c: "aead_encrypt C key nonce context snap = Some c" "length c = length snap + 16"
      "aead_decrypt C key nonce context c = Some snap"
    using assms(1,2,4) unfolding crypto_ok_def by metis
  then show ?thesis
    using assms(3,4) by (simp add: encrypt_head_def encrypt_metadata_def decrypt_head_def
        decrypt_metadata_def HEAD_MAGIC_def NONCE_LEN_def MAX_METADATA_LEN_def)
qed

end
