(* ===== verification/Exchange.thy ===== *)
theory Exchange
  imports Bundle Sealing Exchange_Frame "HOL-Library.Product_Lexorder"
begin

text \<open>
  Moving a snapshot between stores as sealed frames: the resumable walk
  (\<^verbatim>\<open>furrow-core/src/exchange/survey.rs\<close>), the sending side
  (\<^verbatim>\<open>furrow-core/src/exchange/export.rs\<close>) and the receiving side
  (\<^verbatim>\<open>furrow-core/src/exchange/fetch.rs\<close>).

  A store is an object map, a directory is the list of its files with their content, a ledger is
  the content of its file. The loops of the walk and of the import are bounded by fuel; theory
  \<^verbatim>\<open>Exchange_Theorems\<close> gives enough of it. An error of the file system is not modelled, except a
  file that is not there.
\<close>

type_synonym object = "object_kind \<times> object_id"
type_synonym directory = "(string \<times> bytes) list"

abbreviation usize_max :: nat where "usize_max \<equiv> 2 ^ 64 - 1"

section \<open>The walk\<close>

record survey =
  sv_present :: "object list"
  sv_missing :: "object list"

record walk =
  wk_seen :: "object_id list"
  wk_queue :: "object list"

definition walk_new :: "object_id \<Rightarrow> walk" where
  "walk_new i = \<lparr>wk_seen = [i], wk_queue = [(Snapshot, i)]\<rparr>"

definition is_leaf :: "object_kind \<Rightarrow> bool" where
  "is_leaf kind \<longleftrightarrow> kind = Chunk \<or> kind = Xattrs"

definition walk_add :: "walk \<Rightarrow> edge \<Rightarrow> walk" where
  "walk_add w = (\<lambda>(child, child_kind).
     if child \<in> set (wk_seen w) then w
     else w\<lparr>wk_seen := child # wk_seen w, wk_queue := wk_queue w @ [(child_kind, child)]\<rparr>)"

definition walk_expand :: "lib \<Rightarrow> walk \<Rightarrow> object_kind \<Rightarrow> bytes \<Rightarrow> walk result" where
  "walk_expand L w kind bs = rbind (object_edges L kind bs) (\<lambda>es. Inr (foldl walk_add w es))"

fun explore_loop ::
  "nat \<Rightarrow> lib \<Rightarrow> object_map \<Rightarrow> nat \<Rightarrow> walk \<Rightarrow> survey \<Rightarrow> (walk \<times> survey) result" where
  "explore_loop 0 L s limit w found = Inl OutOfFuel"
| "explore_loop (Suc n) L s limit w found =
     (if length (sv_missing found) < limit then
        (case wk_queue w of
           [] \<Rightarrow> Inr (w, found)
         | (kind, i) # q \<Rightarrow>
             let w = w\<lparr>wk_queue := q\<rparr> in
             if s i = None
             then explore_loop n L s limit w (found\<lparr>sv_missing := sv_missing found @ [(kind, i)]\<rparr>)
             else
               let found = found\<lparr>sv_present := sv_present found @ [(kind, i)]\<rparr> in
               if is_leaf kind then explore_loop n L s limit w found
               else rbind (map_read L s i kind) (\<lambda>bs.
                    rbind (walk_expand L w kind bs) (\<lambda>w.
                    explore_loop n L s limit w found)))
      else Inr (w, found))"

definition explore :: "nat \<Rightarrow> lib \<Rightarrow> object_map \<Rightarrow> nat \<Rightarrow> walk \<Rightarrow> (walk \<times> survey) result" where
  "explore fuel L s limit w = explore_loop fuel L s limit w \<lparr>sv_present = [], sv_missing = []\<rparr>"

definition survey_of :: "nat \<Rightarrow> lib \<Rightarrow> object_map \<Rightarrow> object_id \<Rightarrow> nat \<Rightarrow> survey result" where
  "survey_of fuel L s i limit = rbind (explore fuel L s limit (walk_new i)) (\<lambda>(_, found). Inr found)"

section \<open>Sending\<close>

definition DEFAULT_MAX_FRAME :: nat where "DEFAULT_MAX_FRAME = 8 * 2 ^ 20"

definition SEND_ORDER :: "object_kind list" where
  "SEND_ORDER = [Snapshot, Tree, Xattrs, Blob, Chunk]"

definition send_rank :: "object_kind \<Rightarrow> nat" where
  "send_rank kind = length (takeWhile (\<lambda>k. k \<noteq> kind) SEND_ORDER)"

definition unsent ::
  "nat \<Rightarrow> lib \<Rightarrow> sealer \<Rightarrow> object_map \<Rightarrow> object_id \<Rightarrow> bytes option \<Rightarrow> object list result" where
  "unsent fuel L S store i ledger =
     rbind (survey_of fuel L store i 1) (\<lambda>found.
     ensure (sv_missing found = []) (''head '' @ id_hex i @ '' is not complete in this store'')
     (rbind (ledger_recorded ledger) (\<lambda>sent.
      Inr (sort_key (\<lambda>(kind, j). (send_rank kind, j))
             (filter (\<lambda>(kind, j). sl_remote_id S kind j \<notin> set sent) (sv_present found))))))"

definition seal_stored :: "lib \<Rightarrow> sealer \<Rightarrow> object_map \<Rightarrow> object \<Rightarrow> sealed result" where
  "seal_stored L S store = (\<lambda>(kind, j). rbind (map_read L store j kind) (\<lambda>bs. sl_seal S kind j bs))"

record frame_info =
  fi_path :: string
  fi_objects :: nat
  fi_bytes :: nat

record export_report =
  er_frames :: "frame_info list"
  er_head_rid :: string
  er_objects :: nat
  er_bytes :: nat

definition write_file :: "directory \<Rightarrow> string \<Rightarrow> bytes \<Rightarrow> directory" where
  "write_file d name bs = (name, bs) # filter (\<lambda>(n, _). n \<noteq> name) d"

definition remove_file :: "directory \<Rightarrow> string \<Rightarrow> directory" where
  "remove_file d name = filter (\<lambda>(n, _). n \<noteq> name) d"

text \<open>The frame is written under a partial name and renamed; only the renamed file stays.\<close>

definition write_frame :: "lib \<Rightarrow> directory \<times> frame_info list \<Rightarrow> frame \<Rightarrow> (directory \<times> frame_info list) result" where
  "write_frame L = (\<lambda>(outbox, infos) f.
     let path = frame_file_name L f in
     Inr (write_file outbox path (fr_bytes f),
          infos @ [\<lparr>fi_path = path, fi_objects = length (fr_rids f), fi_bytes = length (fr_bytes f)\<rparr>]))"

definition export_run ::
  "nat \<Rightarrow> lib \<Rightarrow> frame_codec \<Rightarrow> sealer \<Rightarrow> bytes \<Rightarrow> object_map \<Rightarrow> object_id \<Rightarrow> bytes option \<Rightarrow> directory \<Rightarrow> nat \<Rightarrow>
   (directory \<times> export_report) result" where
  "export_run fuel L J S key store i ledger outbox max_frame =
     ensure (max_frame \<le> MAX_FRAME) ''max-frame is larger than the 16777216 bytes a store accepts''
     (rbind (unsent fuel L S store i ledger) (\<lambda>objects.
      rbind (pack J (cell_key_id J key) max_frame (map (seal_stored L S store) objects)
               (write_frame L) (outbox, [])) (\<lambda>(outbox, infos).
      Inr (outbox,
           \<lparr>er_frames = infos, er_head_rid = id_hex (sl_remote_id S Snapshot i),
            er_objects = sum_list (map fi_objects infos), er_bytes = sum_list (map fi_bytes infos)\<rparr>))))"

text \<open>Recording uploaded frames: a frame that is not there counts for nothing.\<close>

definition published ::
  "frame_codec \<Rightarrow> directory \<Rightarrow> bytes option \<Rightarrow> string list \<Rightarrow> (directory \<times> bytes option \<times> nat) result" where
  "published J d ledger frames =
     rbind (rfold (\<lambda>(rids, present) path.
              case map_of d path of
                None \<Rightarrow> Inr (rids, present)
              | Some bs \<Rightarrow>
                  rbind (frame_decode J bs) (\<lambda>(_, objects). Inr (rids @ map fst objects, present @ [path])))
              ([], []) frames) (\<lambda>(rids, present).
     Inr (foldl remove_file d present, ledger_append ledger rids, length rids))"

section \<open>Receiving\<close>

definition WANT_LIMIT :: nat where "WANT_LIMIT = 1000"

definition want :: "nat \<Rightarrow> lib \<Rightarrow> sealer \<Rightarrow> object_map \<Rightarrow> object_id \<Rightarrow> object_id list result" where
  "want fuel L S store i =
     rbind (survey_of fuel L store i WANT_LIMIT) (\<lambda>found.
     Inr (map (\<lambda>(kind, j). sl_remote_id S kind j) (sv_missing found)))"

datatype leftovers = Refuse | Delete | Keep

record taken =
  tk_imported :: nat
  tk_extras_deleted :: nat

record import_state =
  im_store :: object_map
  im_inbox :: directory
  im_ledger :: "bytes option"

text \<open>A name that starts with a dot is a file still being written.\<close>

definition inbox_files :: "directory \<Rightarrow> (object_id, string) btree_map result" where
  "inbox_files d =
     rfold (\<lambda>files (name, _).
       if name \<noteq> [] \<and> hd name = CHR ''.'' then Inr files
       else rbind (of_opt (''inbox file '' @ name @ '' is not named by a rid'') (parse_rid name)) (\<lambda>rid.
            Inr (bt_insert rid name files))) [] d"

definition wanted ::
  "nat \<Rightarrow> lib \<Rightarrow> sealer \<Rightarrow> object_map \<Rightarrow> walk \<Rightarrow> (walk \<times> (object_id, object) btree_map) result" where
  "wanted fuel L S store w =
     rbind (explore fuel L store usize_max w) (\<lambda>(w, found).
     Inr (w, foldl (\<lambda>m (kind, j). bt_insert (sl_remote_id S kind j) (kind, j) m) [] (sv_missing found)))"

definition store_verified ::
  "lib \<Rightarrow> sealer \<Rightarrow> object_map \<Rightarrow> object_kind \<Rightarrow> object_id \<Rightarrow> object_id \<Rightarrow> bytes option \<Rightarrow> (object_map \<times> bytes) result" where
  "store_verified L S store kind j rid file =
     rbind (of_opt ''No such file or directory'' file) (\<lambda>sealed.
     rbind (sl_open S kind j rid sealed) (\<lambda>bs.
     rbind (map_put L store kind bs) (\<lambda>(put, store).
     ensure (put = j) ''stored id does not match'' (Inr (store, bs)))))"

record pass_state =
  pa_store :: object_map
  pa_walk :: walk
  pa_taken :: "object_id list"
  pa_stored :: "string list"

text \<open>One wanted object of a pass: nothing without its file, otherwise store it and queue its children.\<close>

definition pass_object ::
  "lib \<Rightarrow> sealer \<Rightarrow> directory \<Rightarrow> (object_id, string) btree_map \<Rightarrow> pass_state \<Rightarrow> object_id \<times> object \<Rightarrow> pass_state result" where
  "pass_object L S d files = (\<lambda>p (rid, kind, j).
     case bt_get files rid of
       None \<Rightarrow> Inr p
     | Some name \<Rightarrow>
         (case store_verified L S (pa_store p) kind j rid (map_of d name) of
            Inl (Bail e) \<Rightarrow> Inl (Bail (''import object '' @ id_hex rid @ '': '' @ e))
          | Inl OutOfFuel \<Rightarrow> Inl OutOfFuel
          | Inr (store, bs) \<Rightarrow>
              rbind (walk_expand L (pa_walk p) kind bs) (\<lambda>w.
              Inr (p\<lparr>pa_store := store, pa_walk := w, pa_taken := pa_taken p @ [rid],
                     pa_stored := pa_stored p @ [name]\<rparr>))))"

definition import_pass ::
  "nat \<Rightarrow> lib \<Rightarrow> sealer \<Rightarrow> directory \<Rightarrow> (object_id, string) btree_map \<Rightarrow> object_map \<Rightarrow> walk \<Rightarrow> string list \<Rightarrow> pass_state result" where
  "import_pass fuel L S d files store w stored =
     rbind (wanted fuel L S store w) (\<lambda>(w, m).
     rfold (pass_object L S d files)
       \<lparr>pa_store = store, pa_walk = w, pa_taken = [], pa_stored = stored\<rparr> m)"

text \<open>
  The passes of one batch. The ledger is a file and keeps what was appended to it when a later pass
  fails, so it is returned beside the result.
\<close>

fun take_loop ::
  "nat \<Rightarrow> lib \<Rightarrow> sealer \<Rightarrow> directory \<Rightarrow> (object_id, string) btree_map \<Rightarrow> bytes option \<Rightarrow> object_map \<Rightarrow> walk \<Rightarrow>
   string list \<Rightarrow> nat \<Rightarrow> bytes option \<times> (object_map \<times> string list \<times> nat) result" where
  "take_loop 0 L S d files ledger store w stored imported = (ledger, Inl OutOfFuel)"
| "take_loop (Suc n) L S d files ledger store w stored imported =
     (case import_pass (Suc n) L S d files store w stored of
        Inl e \<Rightarrow> (ledger, Inl e)
      | Inr p \<Rightarrow>
          if pa_taken p = [] then (ledger, Inr (pa_store p, pa_stored p, imported))
          else take_loop n L S d files (ledger_append ledger (pa_taken p)) (pa_store p) (pa_walk p)
                 (pa_stored p) (imported + length (pa_taken p)))"

definition held_rids :: "nat \<Rightarrow> lib \<Rightarrow> sealer \<Rightarrow> object_map \<Rightarrow> object_id \<Rightarrow> object_id list result" where
  "held_rids fuel L S store i =
     rbind (survey_of fuel L store i usize_max) (\<lambda>found.
     Inr (map (\<lambda>(kind, j). sl_remote_id S kind j) (sv_present found)))"

definition settle_leftovers ::
  "nat \<Rightarrow> lib \<Rightarrow> sealer \<Rightarrow> object_map \<Rightarrow> object_id \<Rightarrow> directory \<Rightarrow> bool \<Rightarrow> (directory \<times> nat) result" where
  "settle_leftovers fuel L S store i d primed =
     rbind (inbox_files d) (\<lambda>files.
     if files = [] then Inr (d, 0)
     else rbind (held_rids fuel L S store i) (\<lambda>held.
       let extras = filter (\<lambda>(rid, _). rid \<notin> set held) files in
       if \<not> primed \<and> extras \<noteq> []
       then Inl (Bail (''import object '' @ id_hex (fst (hd extras)) @ '': not wanted for head '' @ id_hex i))
       else Inr (foldl remove_file d (map snd files), length extras)))"

text \<open>
  \<open>Import::take\<close>. The batch commits the store only when the passes succeed; the files go after it
  committed; leftovers are settled last, so an error there leaves the imported objects stored.
\<close>

definition import_take ::
  "nat \<Rightarrow> lib \<Rightarrow> sealer \<Rightarrow> object_id \<Rightarrow> leftovers \<Rightarrow> import_state \<Rightarrow> import_state \<times> taken result" where
  "import_take fuel L S i mode st =
     (case inbox_files (im_inbox st) of
        Inl e \<Rightarrow> (st, Inl e)
      | Inr files \<Rightarrow>
          (case take_loop fuel L S (im_inbox st) files (im_ledger st) (im_store st) (walk_new i) [] 0 of
             (ledger, Inl e) \<Rightarrow> (st\<lparr>im_ledger := ledger\<rparr>, Inl e)
           | (ledger, Inr (store, stored, imported)) \<Rightarrow>
               let st = \<lparr>im_store = store, im_inbox = foldl remove_file (im_inbox st) stored,
                         im_ledger = ledger\<rparr> in
               if mode = Keep then (st, Inr \<lparr>tk_imported = imported, tk_extras_deleted = 0\<rparr>)
               else case settle_leftovers fuel L S store i (im_inbox st) (mode = Delete) of
                 Inl e \<Rightarrow> (st, Inl e)
               | Inr (inbox, extras) \<Rightarrow>
                   (st\<lparr>im_inbox := inbox\<rparr>, Inr \<lparr>tk_imported = imported, tk_extras_deleted = extras\<rparr>)))"

definition import_run ::
  "nat \<Rightarrow> lib \<Rightarrow> sealer \<Rightarrow> object_id \<Rightarrow> import_state \<Rightarrow> import_state \<times> nat result" where
  "import_run fuel L S i st =
     (case import_take fuel L S i Refuse st of (st, r) \<Rightarrow> (st, rbind r (\<lambda>t. Inr (tk_imported t))))"

definition import_run_primed ::
  "nat \<Rightarrow> lib \<Rightarrow> sealer \<Rightarrow> object_id \<Rightarrow> import_state \<Rightarrow> import_state \<times> taken result" where
  "import_run_primed fuel L S i st = import_take fuel L S i Delete st"

definition import_run_partial ::
  "nat \<Rightarrow> lib \<Rightarrow> sealer \<Rightarrow> object_id \<Rightarrow> import_state \<Rightarrow> import_state \<times> nat result" where
  "import_run_partial fuel L S i st =
     (case import_take fuel L S i Keep st of (st, r) \<Rightarrow> (st, rbind r (\<lambda>t. Inr (tk_imported t))))"

end
