(* ===== verification/Exchange_Walk.thy ===== *)
theory Exchange_Walk
  imports Exchange Bundle_Theorems
begin

text \<open>
  The resumable walk over a store that holds part of a complete snapshot: every exploration pops
  each reachable id at most once, reports those that are absent, and leaves everything else it
  has seen expanded.
\<close>

section \<open>The complete snapshot that is being transferred\<close>

text \<open>A store that has, under reachable ids, nothing but the objects of the complete store.\<close>

definition part_of :: "lib \<Rightarrow> object_map \<Rightarrow> object_id \<Rightarrow> object_map \<Rightarrow> bool" where
  "part_of L s i t \<longleftrightarrow> (\<forall>j\<in>reached L s i. t j = None \<or> t j = s j)"

definition edges_seen :: "lib \<Rightarrow> object_map \<Rightarrow> object_id \<Rightarrow> object_id set \<Rightarrow> bool" where
  "edges_seen L s j A \<longleftrightarrow>
     (\<exists>k bs es. map_read L s j k = Inr bs \<and> object_edges L k bs = Inr es \<and> fst ` set es \<subseteq> A)"

text \<open>
  The walk \<open>w\<close> over the part \<open>t\<close>: what it has seen is reachable, what is queued is queued once and
  with its kind, and what was popped is expanded unless it is one of the ids \<open>P\<close>, which are absent.
\<close>

definition popped :: "walk \<Rightarrow> object_id set" where
  "popped w = set (wk_seen w) - snd ` set (wk_queue w)"

definition walk_inv :: "lib \<Rightarrow> object_map \<Rightarrow> object_id \<Rightarrow> object_map \<Rightarrow> object_id set \<Rightarrow> walk \<Rightarrow> bool" where
  "walk_inv L s i t P w \<longleftrightarrow>
     i \<in> set (wk_seen w) \<and> set (wk_seen w) \<subseteq> reached L s i \<and>
     (\<forall>(k, j)\<in>set (wk_queue w). reaches L s i (j, k)) \<and>
     snd ` set (wk_queue w) \<subseteq> set (wk_seen w) \<and> distinct (map snd (wk_queue w)) \<and>
     P \<subseteq> popped w \<and> (\<forall>j\<in>P. t j = None) \<and>
     (\<forall>j\<in>popped w - P. t j = s j \<and> edges_seen L s j (set (wk_seen w)))"

lemma walk_inv_new: "walk_inv L s i t {} (walk_new i)"
  by (auto simp: walk_inv_def walk_new_def popped_def reached_def intro: reaches.root)

lemma edges_seen_mono: "edges_seen L s j A \<Longrightarrow> A \<subseteq> B \<Longrightarrow> edges_seen L s j B"
  unfolding edges_seen_def by blast

text \<open>Adding the children of an object keeps what was popped and the order of the queue.\<close>

lemma walk_add_fold:
  defines "w' w es \<equiv> foldl walk_add w es"
  assumes "snd ` set (wk_queue w) \<subseteq> set (wk_seen w)" "distinct (map snd (wk_queue w))"
  shows "set (wk_seen (w' w es)) = set (wk_seen w) \<union> fst ` set es"
    and "snd ` set (wk_queue (w' w es)) \<subseteq> set (wk_seen (w' w es))"
    and "distinct (map snd (wk_queue (w' w es)))"
    and "popped (w' w es) = popped w"
    and "set (wk_queue w) \<subseteq> set (wk_queue (w' w es))"
    and "set (wk_queue (w' w es)) \<subseteq> set (wk_queue w) \<union> (\<lambda>(j, k). (k, j)) ` set es"
proof -
  let ?Q = "\<lambda>w es. set (wk_seen (foldl walk_add w es)) = set (wk_seen w) \<union> fst ` set es \<and>
    snd ` set (wk_queue (foldl walk_add w es)) \<subseteq> set (wk_seen (foldl walk_add w es)) \<and>
    distinct (map snd (wk_queue (foldl walk_add w es))) \<and> popped (foldl walk_add w es) = popped w \<and>
    set (wk_queue w) \<subseteq> set (wk_queue (foldl walk_add w es)) \<and>
    set (wk_queue (foldl walk_add w es)) \<subseteq> set (wk_queue w) \<union> (\<lambda>(j, k). (k, j)) ` set es"
  have "?Q w es"
    using assms(2,3)
  proof (induction es arbitrary: w)
    case (Cons e es)
    obtain j k where e: "e = (j, k)" by (cases e)
    let ?w = "walk_add w e"
    have q: "snd ` set (wk_queue ?w) \<subseteq> set (wk_seen ?w)" "distinct (map snd (wk_queue ?w))"
        "set (wk_seen ?w) = insert j (set (wk_seen w))" "popped ?w = popped w"
        "set (wk_queue w) \<subseteq> set (wk_queue ?w)" "set (wk_queue ?w) \<subseteq> insert (k, j) (set (wk_queue w))"
      using Cons.prems e by (auto simp: walk_add_def popped_def)
    from Cons.IH [OF q(1,2)] q(3-6) e show ?case by auto
  qed simp
  then show "set (wk_seen (w' w es)) = set (wk_seen w) \<union> fst ` set es"
    "snd ` set (wk_queue (w' w es)) \<subseteq> set (wk_seen (w' w es))"
    "distinct (map snd (wk_queue (w' w es)))" "popped (w' w es) = popped w"
    "set (wk_queue w) \<subseteq> set (wk_queue (w' w es))"
    "set (wk_queue (w' w es)) \<subseteq> set (wk_queue w) \<union> (\<lambda>(j, k). (k, j)) ` set es"
    unfolding w'_def by blast+
qed

lemma edges_reached:
  assumes "reaches L s i (j, k)" "map_read L s j k = Inr bs" "object_edges L k bs = Inr es"
  shows "\<forall>(a, b)\<in>set es. reaches L s i (a, b)" and "fst ` set es \<subseteq> reached L s i"
proof -
  show "\<forall>(a, b)\<in>set es. reaches L s i (a, b)" using reaches.step [OF assms] by auto
  then show "fst ` set es \<subseteq> reached L s i" by (auto simp: reached_def)
qed

text \<open>The children of an object that the walk has reached are added.\<close>

lemma walk_inv_children:
  assumes inv: "i \<in> set (wk_seen w)" "set (wk_seen w) \<subseteq> reached L s i"
      "\<forall>(k, j)\<in>set (wk_queue w). reaches L s i (j, k)"
      "snd ` set (wk_queue w) \<subseteq> set (wk_seen w)" "distinct (map snd (wk_queue w))"
      "P \<subseteq> popped w" "\<forall>j\<in>P. t j = None"
      "\<forall>a\<in>popped w - P - {j}. t a = s a \<and> edges_seen L s a (set (wk_seen w))"
    and j: "reaches L s i (j, k)" "map_read L s j k = Inr bs" "object_edges L k bs = Inr es"
    and tj: "t j = s j"
  shows "walk_inv L s i t P (foldl walk_add w es)" and "popped (foldl walk_add w es) = popped w"
proof -
  let ?w = "foldl walk_add w es"
  note q = walk_add_fold [OF inv(4,5), of es]
  have seen: "set (wk_seen w) \<subseteq> set (wk_seen ?w)" "fst ` set es \<subseteq> set (wk_seen ?w)" using q(1) by auto
  have "edges_seen L s j (set (wk_seen ?w))"
    unfolding edges_seen_def using j(2,3) seen(2) by blast
  then have ok: "\<forall>a\<in>popped ?w - P. t a = s a \<and> edges_seen L s a (set (wk_seen ?w))"
    using inv(8) q(4) tj edges_seen_mono [OF _ seen(1)] by blast
  have queue: "\<forall>(k, j)\<in>set (wk_queue ?w). reaches L s i (j, k)"
    using q(6) inv(3) edges_reached(1)[OF j] by fastforce
  have "i \<in> set (wk_seen ?w)" using seen(1) inv(1) by blast
  moreover have "set (wk_seen ?w) \<subseteq> reached L s i" using q(1) inv(2) edges_reached(2)[OF j] by simp
  moreover have "P \<subseteq> popped ?w" using inv(6) q(4) by simp
  ultimately show "walk_inv L s i t P ?w"
    unfolding walk_inv_def by (intro conjI queue ok q(2,3) inv(7))
  show "popped ?w = popped w" by (rule q(4))
qed

lemma popped_pop:
  assumes "wk_queue w = (k, j) # q" "snd ` set (wk_queue w) \<subseteq> set (wk_seen w)" "distinct (map snd (wk_queue w))"
  shows "popped (w\<lparr>wk_queue := q\<rparr>) = insert j (popped w)" "j \<notin> popped w"
  using assms by (auto simp: popped_def)

lemma walk_inv_absent:
  assumes inv: "walk_inv L s i t P w" and q: "wk_queue w = (k, j) # q" and "t j = None"
  shows "walk_inv L s i t (insert j P) (w\<lparr>wk_queue := q\<rparr>)"
proof -
  have "snd ` set (wk_queue w) \<subseteq> set (wk_seen w)" "distinct (map snd (wk_queue w))"
    using inv by (auto simp: walk_inv_def)
  note p = popped_pop [OF q this]
  show ?thesis
    using inv q assms(3) unfolding walk_inv_def p(1) by auto
qed

lemma walk_inv_visit:
  assumes inv: "walk_inv L s i t P w" and q: "wk_queue w = (k, j) # q" and tj: "t j = s j"
    and j: "map_read L s j k = Inr bs" "object_edges L k bs = Inr es"
  shows "walk_inv L s i t P (foldl walk_add (w\<lparr>wk_queue := q\<rparr>) es)"
    and "popped (foldl walk_add (w\<lparr>wk_queue := q\<rparr>) es) = insert j (popped w)"
proof -
  have wf: "snd ` set (wk_queue w) \<subseteq> set (wk_seen w)" "distinct (map snd (wk_queue w))"
    using inv by (auto simp: walk_inv_def)
  note p = popped_pop [OF q wf]
  have r: "reaches L s i (j, k)" using inv q by (auto simp: walk_inv_def)
  have pre: "i \<in> set (wk_seen (w\<lparr>wk_queue := q\<rparr>))" "set (wk_seen (w\<lparr>wk_queue := q\<rparr>)) \<subseteq> reached L s i"
      "\<forall>(k, j)\<in>set (wk_queue (w\<lparr>wk_queue := q\<rparr>)). reaches L s i (j, k)"
      "snd ` set (wk_queue (w\<lparr>wk_queue := q\<rparr>)) \<subseteq> set (wk_seen (w\<lparr>wk_queue := q\<rparr>))"
      "distinct (map snd (wk_queue (w\<lparr>wk_queue := q\<rparr>)))"
      "P \<subseteq> popped (w\<lparr>wk_queue := q\<rparr>)" "\<forall>j\<in>P. t j = None"
      "\<forall>a\<in>popped (w\<lparr>wk_queue := q\<rparr>) - P - {j}. t a = s a \<and> edges_seen L s a (set (wk_seen (w\<lparr>wk_queue := q\<rparr>)))"
    using inv q unfolding walk_inv_def p(1) by auto
  show "walk_inv L s i t P (foldl walk_add (w\<lparr>wk_queue := q\<rparr>) es)"
    by (rule walk_inv_children(1)[OF pre r j tj])
  show "popped (foldl walk_add (w\<lparr>wk_queue := q\<rparr>) es) = insert j (popped w)"
    using walk_inv_children(2)[OF pre r j tj] p(1) by simp
qed

lemma walk_inv_store:
  assumes inv: "walk_inv L s i t P w" and "j \<in> P"
    and j: "reaches L s i (j, k)" "map_read L s j k = Inr bs" "object_edges L k bs = Inr es"
  shows "walk_inv L s i (t(j := s j)) (P - {j}) (foldl walk_add w es)"
    and "popped (foldl walk_add w es) = popped w"
proof -
  have pre: "i \<in> set (wk_seen w)" "set (wk_seen w) \<subseteq> reached L s i"
      "\<forall>(k, j)\<in>set (wk_queue w). reaches L s i (j, k)"
      "snd ` set (wk_queue w) \<subseteq> set (wk_seen w)" "distinct (map snd (wk_queue w))"
      "P - {j} \<subseteq> popped w" "\<forall>a\<in>P - {j}. (t(j := s j)) a = None"
      "\<forall>a\<in>popped w - (P - {j}) - {j}. (t(j := s j)) a = s a \<and> edges_seen L s a (set (wk_seen w))"
    using inv unfolding walk_inv_def by auto
  have tj: "(t(j := s j)) j = s j" by simp
  show "walk_inv L s i (t(j := s j)) (P - {j}) (foldl walk_add w es)"
    by (rule walk_inv_children(1)[OF pre j tj])
  show "popped (foldl walk_add w es) = popped w"
    by (rule walk_inv_children(2)[OF pre j tj])
qed

section \<open>Exploring\<close>

text \<open>What an exploration from \<open>w\<close> to \<open>w'\<close> finds: the objects \<open>ps\<close> and \<open>ms\<close>, once each.\<close>

definition explored ::
  "lib \<Rightarrow> object_map \<Rightarrow> object_id \<Rightarrow> object_map \<Rightarrow> object_id set \<Rightarrow> walk \<Rightarrow> walk \<Rightarrow> object list \<Rightarrow> object list \<Rightarrow> bool" where
  "explored L s i t P w w' ps ms \<longleftrightarrow>
     walk_inv L s i t (P \<union> snd ` set ms) w' \<and> wk_queue w' = [] \<and>
     (\<forall>(k, j)\<in>set ms. reaches L s i (j, k) \<and> t j = None) \<and>
     (\<forall>(k, j)\<in>set ps. reaches L s i (j, k) \<and> t j \<noteq> None) \<and>
     distinct (map snd (ps @ ms)) \<and> popped w \<subseteq> popped w' \<and>
     snd ` set (ps @ ms) = popped w' - popped w"

lemma explored_absent:
  assumes "explored L s i t (insert j P) w1 w' ps ms" "popped w1 = insert j (popped w)" "j \<notin> popped w"
    and "reaches L s i (j, k)" "t j = None"
  shows "explored L s i t P w w' ps ((k, j) # ms)"
  using assms unfolding explored_def by (auto simp: insert_Diff_if)

lemma explored_present:
  assumes "explored L s i t P w1 w' ps ms" "popped w1 = insert j (popped w)" "j \<notin> popped w"
    and "reaches L s i (j, k)" "t j \<noteq> None"
  shows "explored L s i t P w w' ((k, j) # ps) ms"
  using assms unfolding explored_def by auto

lemma walk_inv_queue:
  assumes "walk_inv L s i t P w" "wk_queue w = (k, j) # q"
  shows "reaches L s i (j, k)" "popped (w\<lparr>wk_queue := q\<rparr>) = insert j (popped w)" "j \<notin> popped w"
    "j \<in> reached L s i"
  using assms popped_pop [OF assms(2)] by (auto simp: walk_inv_def reached_def)

lemma explore_loop_ok:
  assumes comp: "complete L s i" and fin: "finite (reached L s i)" and part: "part_of L s i t"
    and "walk_inv L s i t P w" and "card (reached L s i - popped w) < n"
    and "length (sv_missing found) + card {j \<in> reached L s i - popped w. t j = None} < limit"
  shows "\<exists>w' ps ms. explore_loop n L t limit w found =
       Inr (w', found\<lparr>sv_present := sv_present found @ ps, sv_missing := sv_missing found @ ms\<rparr>) \<and>
     explored L s i t P w w' ps ms"
  using assms(4-6)
proof (induction n arbitrary: w P found)
  case (Suc n)
  let ?R = "reached L s i"
  have lim: "length (sv_missing found) < limit" using Suc.prems(3) by simp
  show ?case
  proof (cases "wk_queue w")
    case Nil
    then have "explored L s i t P w w [] []" using Suc.prems(1) by (simp add: explored_def)
    then show ?thesis using Nil lim by (intro exI [of _ w] exI [of _ "[]"]) simp
  next
    case (Cons kj q)
    obtain k j where kj: "kj = (k, j)" by (cases kj)
    note Q = Cons [unfolded kj]
    note pj = walk_inv_queue [OF Suc.prems(1) Q]
    have less: "Suc (card (?R - popped w1)) = card (?R - popped w)" if "popped w1 = insert j (popped w)" for w1
    proof -
      have "?R - popped w1 = (?R - popped w) - {j}" using that by auto
      then show ?thesis using fin pj(3,4) card_Suc_Diff1 [of "?R - popped w" j] by simp
    qed
    show ?thesis
    proof (cases "t j")
      case None
      let ?w1 = "w\<lparr>wk_queue := q\<rparr>" and ?f = "found\<lparr>sv_missing := sv_missing found @ [(k, j)]\<rparr>"
      have "{a \<in> ?R - popped ?w1. t a = None} = {a \<in> ?R - popped w. t a = None} - {j}" using pj(2) by auto
      then have "Suc (card {a \<in> ?R - popped ?w1. t a = None}) = card {a \<in> ?R - popped w. t a = None}"
        using fin pj(3,4) None card_Suc_Diff1 [of "{a \<in> ?R - popped w. t a = None}" j] by simp
      then have "card (?R - popped ?w1) < n"
          "length (sv_missing ?f) + card {a \<in> ?R - popped ?w1. t a = None} < limit"
        using less [OF pj(2)] Suc.prems(2,3) by simp_all
      from Suc.IH [OF walk_inv_absent [OF Suc.prems(1) Q None] this]
      obtain w' ps ms where r: "explore_loop n L t limit ?w1 ?f =
            Inr (w', ?f\<lparr>sv_present := sv_present ?f @ ps, sv_missing := sv_missing ?f @ ms\<rparr>)"
          "explored L s i t (insert j P) ?w1 w' ps ms" by blast
      have "explored L s i t P w w' ps ((k, j) # ms)"
        by (rule explored_absent [OF r(2) pj(2,3,1) None])
      then show ?thesis
        using r(1) Q None lim by (intro exI [of _ w'] exI [of _ ps] exI [of _ "(k, j) # ms"]) simp
    next
      case (Some x)
      then have tj: "t j = s j" using part pj(4) by (auto simp: part_of_def)
      obtain bs es where rd: "map_read L s j k = Inr bs" "object_edges L k bs = Inr es"
        using comp pj(1) by (meson complete_readE)
      then have rt: "map_read L t j k = Inr bs" using tj by (simp add: map_read_Inr)
      let ?w1 = "foldl walk_add (w\<lparr>wk_queue := q\<rparr>) es" and ?f = "found\<lparr>sv_present := sv_present found @ [(k, j)]\<rparr>"
      note vis = walk_inv_visit [OF Suc.prems(1) Q tj rd]
      have "{a \<in> ?R - popped ?w1. t a = None} \<subseteq> {a \<in> ?R - popped w. t a = None}" using vis(2) by auto
      then have "card {a \<in> ?R - popped ?w1. t a = None} \<le> card {a \<in> ?R - popped w. t a = None}"
        using fin by (intro card_mono) simp_all
      then have "card (?R - popped ?w1) < n"
          "length (sv_missing ?f) + card {a \<in> ?R - popped ?w1. t a = None} < limit"
        using less [OF vis(2)] Suc.prems(2,3) by simp_all
      from Suc.IH [OF vis(1) this]
      obtain w' ps ms where r: "explore_loop n L t limit ?w1 ?f =
            Inr (w', ?f\<lparr>sv_present := sv_present ?f @ ps, sv_missing := sv_missing ?f @ ms\<rparr>)"
          "explored L s i t P ?w1 w' ps ms" by blast
      have "explored L s i t P w w' ((k, j) # ps) ms"
        using r(2) vis(2) pj(3,1) by (rule explored_present) (simp add: Some)
      moreover have "is_leaf k \<Longrightarrow> es = []" using rd(2) by (auto simp: is_leaf_def)
      ultimately show ?thesis
        using r(1) Q Some lim rt rd(2)
        by (intro exI [of _ w'] exI [of _ "(k, j) # ps"] exI [of _ ms]) (auto simp: walk_expand_def Let_def)
    qed
  qed
qed simp

end
