(* ===== verification/Exchange_Theorems.thy ===== *)
theory Exchange_Theorems
  imports Exchange_Walk Frame_Theorems
begin

text \<open>
  Transferring a snapshot: exporting a complete snapshot and importing what was exported makes the
  snapshot complete in the receiving store.
\<close>

section \<open>Importing what was delivered\<close>

lemma walk_inv_done:
  assumes inv: "walk_inv L s i t {} w" and "wk_queue w = []" and comp: "complete L s i"
  shows "\<And>j. j \<in> reached L s i \<Longrightarrow> j \<in> set (wk_seen w) \<and> t j = s j"
proof -
  have ok: "t j = s j" "edges_seen L s j (set (wk_seen w))" if "j \<in> set (wk_seen w)" for j
    using inv assms(2) that by (auto simp: walk_inv_def popped_def)
  have seen: "j \<in> set (wk_seen w)" if "reaches L s i (j, k)" for j k
    using that
  proof (induction "(j, k)" arbitrary: j k)
    case root
    then show ?case using inv by (simp add: walk_inv_def)
  next
    case (step j k bs es j' k')
    obtain k1 bs1 es1 where e: "map_read L s j k1 = Inr bs1" "object_edges L k1 bs1 = Inr es1"
        "fst ` set es1 \<subseteq> set (wk_seen w)"
      using ok(2)[OF step.hyps(2)] unfolding edges_seen_def by blast
    then have "k1 = k \<and> bs1 = bs" using step.hyps(3) by (simp add: map_read_Inr)
    with e step.hyps(4,5) show ?case by force
  qed
  show "j \<in> set (wk_seen w) \<and> t j = s j" if "j \<in> reached L s i" for j
    using that seen ok(1) by (auto simp: reached_def)
qed

definition rids_distinct :: "lib \<Rightarrow> sealer \<Rightarrow> object_map \<Rightarrow> object_id \<Rightarrow> bool" where
  "rids_distinct L S s i \<longleftrightarrow>
     (\<forall>j k j' k'. reaches L s i (j, k) \<longrightarrow> reaches L s i (j', k') \<longrightarrow>
        sl_remote_id S k j = sl_remote_id S k' j' \<longrightarrow> j = j')"

text \<open>Every reachable object that the store lacks has a file, named by its rid, that opens to it.\<close>

definition delivered ::
  "lib \<Rightarrow> sealer \<Rightarrow> object_map \<Rightarrow> object_id \<Rightarrow> object_map \<Rightarrow> directory \<Rightarrow> (object_id, string) btree_map \<Rightarrow> bool" where
  "delivered L S s i t d files \<longleftrightarrow>
     (\<forall>j k. reaches L s i (j, k) \<longrightarrow> t j = None \<longrightarrow>
        (\<exists>name sealed bs. bt_get files (sl_remote_id S k j) = Some name \<and> map_of d name = Some sealed \<and>
           sl_open S k j (sl_remote_id S k j) sealed = Inr bs \<and> s j = Some (k, bs)))"

lemma bt_fold_insert:
  assumes "\<forall>x\<in>set xs. \<forall>y\<in>set xs. f x = f y \<longrightarrow> x = y"
  shows "bt_wf (foldl (\<lambda>m x. bt_insert (f x) x m) [] xs)"
    and "set (foldl (\<lambda>m x. bt_insert (f x) x m) [] xs) = (\<lambda>x. (f x, x)) ` set xs"
proof -
  let ?m = "\<lambda>xs. foldl (\<lambda>m x. bt_insert (f x) x m) [] xs"
  have "bt_wf (?m xs) \<and> (\<forall>r x. bt_get (?m xs) r = Some x \<longleftrightarrow> x \<in> set xs \<and> r = f x)"
    using assms
  proof (induction xs rule: rev_induct)
    case (snoc y ys)
    then have "bt_wf (?m ys)" "\<forall>r x. bt_get (?m ys) r = Some x \<longleftrightarrow> x \<in> set ys \<and> r = f x" by auto
    then show ?case using snoc.prems by (auto simp: bt_get_insert)
  qed simp
  moreover from this have "(r, x) \<in> set (?m xs) \<longleftrightarrow> x \<in> set xs \<and> r = f x" for r x
    by (simp add: bt_get_eq_Some [symmetric])
  ultimately show "bt_wf (?m xs)" "set (?m xs) = (\<lambda>x. (f x, x)) ` set xs" by auto
qed

text \<open>One object of a pass.\<close>

lemma pass_object_ok:
  assumes comp: "complete L s i" and "sized s" and del: "delivered L S s i t d files"
    and r: "reaches L s i (j, k)" and tj: "t j = None" and "pa_store p j = None" "j \<in> P"
    and inv: "walk_inv L s i (pa_store p) P (pa_walk p)"
  obtains w name where "pass_object L S d files p (sl_remote_id S k j, k, j) =
      Inr (p\<lparr>pa_store := (pa_store p)(j := s j), pa_walk := w,
             pa_taken := pa_taken p @ [sl_remote_id S k j], pa_stored := pa_stored p @ [name]\<rparr>)"
    "walk_inv L s i ((pa_store p)(j := s j)) (P - {j}) w" "popped w = popped (pa_walk p)"
proof -
  obtain name sealed bs where f: "bt_get files (sl_remote_id S k j) = Some name" "map_of d name = Some sealed"
      "sl_open S k j (sl_remote_id S k j) sealed = Inr bs" "s j = Some (k, bs)"
    using del r tj unfolding delivered_def by blast
  obtain bs' es where rd: "map_read L s j k = Inr bs'" "object_edges L k bs' = Inr es"
    using comp r by (meson complete_readE)
  then have eq: "bs' = bs" "object_id L k bs = j" using f(4) by (simp_all add: map_read_Inr)
  have put: "map_put L (pa_store p) k bs = Inr (j, (pa_store p)(j := s j))"
    using assms(6) eq(2) f(4) sizedD [OF assms(2) f(4)] by (simp add: map_put_Inr)
  have "store_verified L S (pa_store p) k j (sl_remote_id S k j) (map_of d name) =
      Inr ((pa_store p)(j := s j), bs)"
    using f(2,3) put by (simp add: store_verified_def)
  moreover have "walk_expand L (pa_walk p) k bs = Inr (foldl walk_add (pa_walk p) es)"
    using rd(2) eq by (simp add: walk_expand_def)
  ultimately have "pass_object L S d files p (sl_remote_id S k j, k, j) =
      Inr (p\<lparr>pa_store := (pa_store p)(j := s j), pa_walk := foldl walk_add (pa_walk p) es,
             pa_taken := pa_taken p @ [sl_remote_id S k j], pa_stored := pa_stored p @ [name]\<rparr>)"
    using f(1) by (simp add: pass_object_def)
  then show thesis
    using that walk_inv_store [OF inv assms(7) r rd] by blast
qed

definition fill :: "object_map \<Rightarrow> object_id set \<Rightarrow> object_map \<Rightarrow> object_map" where
  "fill s A t = (\<lambda>j. if j \<in> A then s j else t j)"

lemma fill_insert: "fill s A (t(j := s j)) = fill s (insert j A) t"
  by (auto simp: fill_def fun_eq_iff)

lemma pass_fold_ok:
  assumes "complete L s i" "sized s" "delivered L S s i t d files"
    and "\<forall>(rid, k, j)\<in>set m. rid = sl_remote_id S k j \<and> reaches L s i (j, k) \<and> t j = None \<and>
           pa_store p j = None \<and> j \<in> P"
    and "distinct (map (\<lambda>e. snd (snd e)) m)" and "walk_inv L s i (pa_store p) P (pa_walk p)"
  shows "\<exists>w names. rfold (pass_object L S d files) p m =
      Inr (p\<lparr>pa_store := fill s (snd ` snd ` set m) (pa_store p), pa_walk := w,
             pa_taken := pa_taken p @ map fst m, pa_stored := pa_stored p @ names\<rparr>) \<and>
     walk_inv L s i (fill s (snd ` snd ` set m) (pa_store p)) (P - snd ` snd ` set m) w \<and>
     popped w = popped (pa_walk p)"
  using assms(4-6)
proof (induction m arbitrary: p P)
  case Nil
  have "fill s {} (pa_store p) = pa_store p" by (simp add: fill_def)
  then show ?case using Nil.prems(3) by (intro exI [of _ "pa_walk p"] exI [of _ "[]"]) simp
next
  case (Cons e m)
  obtain rid k j where e: "e = (rid, k, j)" by (cases e)
  then have h: "rid = sl_remote_id S k j" "reaches L s i (j, k)" "t j = None" "pa_store p j = None" "j \<in> P"
    using Cons.prems(1) by auto
  obtain w name where st: "pass_object L S d files p (sl_remote_id S k j, k, j) =
      Inr (p\<lparr>pa_store := (pa_store p)(j := s j), pa_walk := w,
             pa_taken := pa_taken p @ [sl_remote_id S k j], pa_stored := pa_stored p @ [name]\<rparr>)"
      "walk_inv L s i ((pa_store p)(j := s j)) (P - {j}) w" "popped w = popped (pa_walk p)"
    by (rule pass_object_ok [OF assms(1-3) h(2-5) Cons.prems(3)])
  let ?p = "p\<lparr>pa_store := (pa_store p)(j := s j), pa_walk := w,
     pa_taken := pa_taken p @ [sl_remote_id S k j], pa_stored := pa_stored p @ [name]\<rparr>"
  have "\<forall>(rid, k, a)\<in>set m. rid = sl_remote_id S k a \<and> reaches L s i (a, k) \<and> t a = None \<and>
      pa_store ?p a = None \<and> a \<in> P - {j}"
  proof (clarify, goal_cases)
    case (1 rid' k' a)
    then have "a \<noteq> j" using Cons.prems(2) e by force
    then show ?case using Cons.prems(1) 1 by auto
  qed
  moreover have "distinct (map (\<lambda>e. snd (snd e)) m)" using Cons.prems(2) by simp
  moreover have "walk_inv L s i (pa_store ?p) (P - {j}) (pa_walk ?p)" using st(2) by simp
  ultimately obtain w' names where r: "rfold (pass_object L S d files) ?p m =
        Inr (?p\<lparr>pa_store := fill s (snd ` snd ` set m) (pa_store ?p), pa_walk := w',
               pa_taken := pa_taken ?p @ map fst m, pa_stored := pa_stored ?p @ names\<rparr>)"
      "walk_inv L s i (fill s (snd ` snd ` set m) (pa_store ?p)) (P - {j} - snd ` snd ` set m) w'"
      "popped w' = popped (pa_walk ?p)"
    using Cons.IH by blast
  have "P - {j} - snd ` snd ` set m = P - snd ` snd ` set (e # m)" using e by auto
  with r st(1,3) e h(1) show ?case
    by (intro exI [of _ w'] exI [of _ "name # names"]) (simp add: fill_insert)
qed

text \<open>A whole pass: every object that the exploration finds absent is stored.\<close>

lemma import_pass_ok:
  assumes comp: "complete L s i" and sz: "sized s" and del: "delivered L S s i t d files"
    and rids: "rids_distinct L S s i" and fin: "finite (reached L s i)" and part: "part_of L s i t"
    and inv: "walk_inv L s i t {} w" and fuel: "card (reached L s i - popped w) < n"
    and lim: "card (reached L s i) < usize_max"
  obtains w' ps ms taken names where
    "import_pass n L S d files t w stored =
       Inr \<lparr>pa_store = fill s (snd ` set ms) t, pa_walk = w', pa_taken = taken, pa_stored = stored @ names\<rparr>"
    "length taken = card (snd ` set ms)" "walk_inv L s i (fill s (snd ` set ms) t) {} w'"
    "popped w \<subseteq> popped w'" "snd ` set (ps @ ms) = popped w' - popped w"
    "\<forall>(k, j)\<in>set ms. reaches L s i (j, k) \<and> t j = None" "ms = [] \<longrightarrow> wk_queue w' = []"
proof -
  have "card {j \<in> reached L s i - popped w. t j = None} \<le> card (reached L s i)"
    by (rule card_mono [OF fin]) auto
  then have "length (sv_missing \<lparr>sv_present = [], sv_missing = []\<rparr>) +
      card {j \<in> reached L s i - popped w. t j = None} < usize_max"
    using lim by simp
  from explore_loop_ok [OF comp fin part inv fuel this]
  obtain w1 ps ms where x: "explore n L t usize_max w = Inr (w1, \<lparr>sv_present = ps, sv_missing = ms\<rparr>)"
      "explored L s i t {} w w1 ps ms"
    unfolding explore_def by auto
  let ?rid = "\<lambda>(k, j). sl_remote_id S k j" and ?js = "snd ` set ms"
  define m where "m = foldl (\<lambda>m x. bt_insert (?rid x) x m) [] ms"
  have ms: "\<forall>(k, j)\<in>set ms. reaches L s i (j, k) \<and> t j = None" and dist: "distinct (map snd ms)"
    using x(2) by (auto simp: explored_def)
  have "\<forall>x\<in>set ms. \<forall>y\<in>set ms. ?rid x = ?rid y \<longrightarrow> x = y"
  proof (intro ballI impI)
    fix x y assume xy: "x \<in> set ms" "y \<in> set ms" "?rid x = ?rid y"
    obtain k j k' j' where e: "x = (k, j)" "y = (k', j')" by (cases x, cases y)
    then have "reaches L s i (j, k)" "reaches L s i (j', k')" using ms xy(1,2) by auto
    then have "snd x = snd y" using rids xy(3) e unfolding rids_distinct_def by simp
    with xy(1,2) dist show "x = y" by (metis distinct_map inj_onD)
  qed
  note bt = bt_fold_insert [OF this, folded m_def]
  have m: "wanted n L S t w = Inr (w1, m)"
    using x(1) by (simp add: wanted_def m_def split_beta')
  have set_m: "snd ` set m = set ms" using bt(2) by (auto simp: image_iff)
  have dm: "distinct (map (\<lambda>e. snd (snd e)) m)"
  proof -
    have "distinct m" using bt(1) bt_wf_distinct distinct_map by blast
    moreover have "inj_on (\<lambda>e. snd (snd e)) (set m)"
      using dist bt(2) by (auto simp: inj_on_def distinct_map)
    ultimately show ?thesis by (simp add: distinct_map)
  qed
  let ?p = "\<lparr>pa_store = t, pa_walk = w1, pa_taken = [], pa_stored = stored\<rparr>"
  have "\<forall>(rid, k, j)\<in>set m. rid = sl_remote_id S k j \<and> reaches L s i (j, k) \<and> t j = None \<and>
      pa_store ?p j = None \<and> j \<in> ?js"
  proof (clarify, goal_cases)
    case (1 rid k j)
    then have kj: "(k, j) \<in> set ms" "rid = sl_remote_id S k j" using bt(2) by auto
    then have "reaches L s i (j, k)" "t j = None" using ms by auto
    with kj show ?case by (simp add: rev_image_eqI)
  qed
  moreover have "walk_inv L s i (pa_store ?p) ?js (pa_walk ?p)" using x(2) by (simp add: explored_def)
  ultimately obtain w' names where f: "rfold (pass_object L S d files) ?p m =
        Inr (?p\<lparr>pa_store := fill s ?js t, pa_walk := w', pa_taken := map fst m, pa_stored := stored @ names\<rparr>)"
      "walk_inv L s i (fill s ?js t) {} w'" "popped w' = popped w1"
    using pass_fold_ok [OF comp sz del _ dm, of ?p ?js] set_m by (auto simp: image_image [symmetric])
  have "length (map fst m) = card ?js"
    using distinct_card [OF dm] set_m by (simp add: image_image [symmetric])
  moreover have "ms = [] \<Longrightarrow> w' = w1" using f(1) by (simp add: m_def)
  ultimately show thesis
    using that [of ms w' "map fst m" names ps] m f x(2) ms
    by (simp add: import_pass_def explored_def)
qed

lemma fill_fill: "fill s A (fill s B t) = fill s (A \<union> B) t"
  by (auto simp: fill_def fun_eq_iff)

lemma fill_same: "(\<And>j. j \<in> A \<Longrightarrow> t j = s j) \<Longrightarrow> fill s A t = t"
  by (auto simp: fill_def fun_eq_iff)

lemma fill_none: "R \<subseteq> dom s \<Longrightarrow> {j \<in> R. fill s A t j = None} = {j \<in> R. t j = None} - A"
  by (auto simp: fill_def)

lemma delivered_fill:
  assumes "delivered L S s i t d files" "complete L s i" "A \<subseteq> reached L s i"
  shows "delivered L S s i (fill s A t) d files"
proof -
  have "t j = None" if "fill s A t j = None" for j
    using that assms(3) complete_reached_dom [OF assms(2)] by (auto simp: fill_def split: if_splits)
  with assms(1) show ?thesis unfolding delivered_def by blast
qed

lemma take_loop_ok:
  assumes comp: "complete L s i" and sz: "sized s" and rids: "rids_distinct L S s i"
    and fin: "finite (reached L s i)" and lim: "card (reached L s i) < usize_max"
    and "delivered L S s i t d files" "part_of L s i t" "walk_inv L s i t {} w"
    and "card (reached L s i - popped w) < n"
  shows "\<exists>ledger' names. take_loop n L S d files ledger t w stored imported =
     (ledger', Inr (fill s (reached L s i) t, stored @ names,
        imported + card {j \<in> reached L s i. t j = None}))"
  using assms(6-9)
proof (induction n arbitrary: t w ledger stored imported)
  case (Suc n)
  let ?R = "reached L s i"
  obtain w' ps ms taken names where p:
      "import_pass (Suc n) L S d files t w stored =
         Inr \<lparr>pa_store = fill s (snd ` set ms) t, pa_walk = w', pa_taken = taken, pa_stored = stored @ names\<rparr>"
      "length taken = card (snd ` set ms)" "walk_inv L s i (fill s (snd ` set ms) t) {} w'"
      "popped w \<subseteq> popped w'" "snd ` set (ps @ ms) = popped w' - popped w"
      "\<forall>(k, j)\<in>set ms. reaches L s i (j, k) \<and> t j = None" "ms = [] \<longrightarrow> wk_queue w' = []"
    by (rule import_pass_ok [where stored = stored, OF comp sz Suc.prems(1) rids fin Suc.prems(2-4) lim])
  have ms: "snd ` set ms \<subseteq> ?R" "\<forall>j\<in>snd ` set ms. t j = None"
    using p(6) unfolding reached_def by fastforce+
  show ?case
  proof (cases "ms = []")
    case True
    then have "fill s {} t = t" by (simp add: fill_def)
    then have "walk_inv L s i t {} w'" "wk_queue w' = []" using p(3,7) True by simp_all
    from walk_inv_done [OF this comp] have done_t: "\<And>j. j \<in> ?R \<Longrightarrow> t j = s j" by blast
    then have "{j \<in> ?R. t j = None} = {}"
      using complete_reached_dom [OF comp] by (auto simp: domIff)
    then have "card {j \<in> ?R. t j = None} = 0" by (simp only: card.empty)
    moreover have "fill s ?R t = t" by (rule fill_same) (simp add: done_t)
    ultimately show ?thesis
      using p(1,2) True \<open>fill s {} t = t\<close> by (intro exI [of _ ledger] exI [of _ names]) simp
  next
    case False
    let ?t = "fill s (snd ` set ms) t"
    have new: "popped w' - popped w \<noteq> {}" using False p(5) by (metis empty_is_image set_empty append_is_Nil_conv)
    have "popped w' \<subseteq> ?R" using p(3) by (auto simp: walk_inv_def popped_def)
    then have "?R - popped w' \<subset> ?R - popped w" using new p(4) by blast
    then have "card (?R - popped w') < card (?R - popped w)" using fin by (simp add: psubset_card_mono)
    then have fuel: "card (?R - popped w') < n" using Suc.prems(4) by simp
    have part: "part_of L s i ?t" using Suc.prems(2) by (auto simp: part_of_def fill_def)
    have del: "delivered L S s i ?t d files" by (rule delivered_fill [OF Suc.prems(1) comp ms(1)])
    obtain ledger' names' where IH: "take_loop n L S d files (ledger_append ledger taken) ?t w' (stored @ names)
          (imported + length taken) =
        (ledger', Inr (fill s ?R ?t, (stored @ names) @ names', imported + length taken + card {j \<in> ?R. ?t j = None}))"
      using Suc.IH [OF del part p(3) fuel] by blast
    have "taken \<noteq> []" using p(2) False by auto
    then have loop: "take_loop (Suc n) L S d files ledger t w stored imported =
        take_loop n L S d files (ledger_append ledger taken) ?t w' (stored @ names) (imported + length taken)"
      using p(1) by simp
    have "fill s ?R ?t = fill s ?R t" using ms(1) by (simp add: fill_fill Un_absorb2)
    moreover have "length taken + card {j \<in> ?R. ?t j = None} = card {j \<in> ?R. t j = None}"
    proof -
      have "{j \<in> ?R. ?t j = None} = {j \<in> ?R. t j = None} - snd ` set ms"
        using complete_reached_dom [OF comp] by (rule fill_none)
      moreover have "snd ` set ms \<subseteq> {j \<in> ?R. t j = None}"
        using ms(1) bspec [OF ms(2)] by (intro subsetI CollectI conjI) (rule subsetD)
      moreover from this fin have "card (snd ` set ms) \<le> card {j \<in> ?R. t j = None}"
        by (intro card_mono) simp_all
      ultimately show ?thesis
        using p(2) card_Diff_subset [of "snd ` set ms" "{j \<in> ?R. t j = None}"] by (simp only: finite_imageI finite_set)
    qed
    ultimately show ?thesis
      using loop IH by (intro exI [of _ ledger'] exI [of _ "names @ names'"]) (simp add: add.assoc)
  qed
qed simp

lemma survey_of_ok:
  assumes "complete L s i" "finite (reached L s i)" "part_of L s i t"
    and "card (reached L s i) < n" "card {j \<in> reached L s i. t j = None} < limit"
  obtains w ps ms where "survey_of n L t i limit = Inr \<lparr>sv_present = ps, sv_missing = ms\<rparr>"
    "explored L s i t {} (walk_new i) w ps ms"
proof -
  have new: "popped (walk_new i) = {}" by (simp add: popped_def walk_new_def)
  have "card (reached L s i - popped (walk_new i)) < n"
      "length (sv_missing \<lparr>sv_present = [], sv_missing = []\<rparr>)
         + card {j \<in> reached L s i - popped (walk_new i). t j = None} < limit"
    using assms(4,5) by (simp_all add: new)
  from explore_loop_ok [OF assms(1-3) walk_inv_new this] that show thesis
    by (auto simp: survey_of_def explore_def)
qed

text \<open>The result of an import to which everything absent was delivered.\<close>

lemma import_take_ok:
  assumes comp: "complete L s i" and "sized s" "rids_distinct L S s i"
    and fin: "finite (reached L s i)" and "card (reached L s i) < usize_max" "card (reached L s i) < fuel"
    and part: "part_of L s i (im_store st)" and files: "inbox_files (im_inbox st) = Inr files"
    and "delivered L S s i (im_store st) (im_inbox st) files"
  shows "\<exists>st' . import_take fuel L S i Keep st =
     (st', Inr \<lparr>tk_imported = card {j \<in> reached L s i. im_store st j = None}, tk_extras_deleted = 0\<rparr>) \<and>
     im_store st' = fill s (reached L s i) (im_store st)"
proof -
  have "card (reached L s i - popped (walk_new i)) \<le> card (reached L s i)"
    by (rule card_mono [OF fin]) auto
  then have "card (reached L s i - popped (walk_new i)) < fuel" using assms(6) by simp
  from take_loop_ok [OF assms(1-5,9) part walk_inv_new this, of "im_ledger st" "[]" 0]
  show ?thesis using files by (auto simp: import_take_def)
qed

section \<open>Exporting\<close>

lemma part_of_refl: "part_of L s i s"
  by (simp add: part_of_def)

text \<open>The survey of a complete store lists every reachable object once.\<close>

lemma survey_complete:
  assumes comp: "complete L s i" and fin: "finite (reached L s i)" and "card (reached L s i) < n" "0 < limit"
  obtains ps where "survey_of n L s i limit = Inr \<lparr>sv_present = ps, sv_missing = []\<rparr>"
    "\<forall>(k, j)\<in>set ps. reaches L s i (j, k)" "distinct (map snd ps)" "snd ` set ps = reached L s i"
proof -
  have "{j \<in> reached L s i. s j = None} = {}" using complete_reached_dom [OF comp] by auto
  then have "card {j \<in> reached L s i. s j = None} < limit" using assms(4) by (simp only: card.empty)
  then obtain w ps ms where x: "survey_of n L s i limit = Inr \<lparr>sv_present = ps, sv_missing = ms\<rparr>"
      "explored L s i s {} (walk_new i) w ps ms"
    by (rule survey_of_ok [OF comp fin part_of_refl assms(3)])
  have "ms = []"
  proof (cases ms)
    case (Cons kj rest)
    then have "reaches L s i (snd kj, fst kj)" "s (snd kj) = None"
      using x(2) by (auto simp: explored_def split: prod.splits)
    moreover from this(1) obtain bs where "map_read L s (snd kj) (fst kj) = Inr bs"
      using comp by (meson complete_readE)
    ultimately show ?thesis by (simp add: map_read_Inr)
  qed simp
  then have inv: "walk_inv L s i s {} w" "wk_queue w = []"
      "snd ` set ps = popped w - popped (walk_new i)" "distinct (map snd ps)"
      "\<forall>(k, j)\<in>set ps. reaches L s i (j, k)"
    using x(2) by (auto simp: explored_def)
  have "popped (walk_new i) = {}" by (simp add: popped_def walk_new_def)
  moreover have "popped w = reached L s i"
    using walk_inv_done [OF inv(1,2) comp] inv(1,2) by (auto simp: popped_def walk_inv_def)
  ultimately show thesis using that x(1) inv \<open>ms = []\<close> by simp
qed

text \<open>A callback that cannot fail sees the frames that \<open>collect\<close> keeps.\<close>

lemma pack_callback:
  assumes "pack J key mx objects collect fs = Inr frames"
  shows "\<exists>new. frames = fs @ new \<and> pack J key mx objects (\<lambda>v f. Inr (g v f)) v = Inr (foldl g v new)"
proof -
  have fold: "\<exists>new. fs' = fs @ new \<and>
      rfold (pack_object J key mx (\<lambda>v f. Inr (g v f))) (v, p) objects = Inr (foldl g v new, p')"
    if "rfold (pack_object J key mx collect) (fs, p) objects = Inr (fs', p')" for fs p fs' p' v objects
    using that
  proof (induction objects arbitrary: fs p v)
    case (Cons x xs)
    obtain fs1 p1 where st: "pack_object J key mx collect (fs, p) x = Inr (fs1, p1)"
        "rfold (pack_object J key mx collect) (fs1, p1) xs = Inr (fs', p')"
      using Cons.prems by auto
    then obtain new1 where n1: "fs1 = fs @ new1"
        "pack_object J key mx (\<lambda>v f. Inr (g v f)) (v, p) x = Inr (foldl g v new1, p1)"
      by (auto simp: pack_object_def collect_def split: if_splits)
    from Cons.IH [OF st(2), of "foldl g v new1"] n1 show ?case by fastforce
  qed simp
  obtain fs' p' where st: "rfold (pack_object J key mx collect) (fs, pending_new J key mx) objects = Inr (fs', p')"
      "(if pending_empty p' then Inr fs' else rbind (pending_finish J p') (collect fs')) = Inr frames"
    using assms by (auto simp: pack_def)
  obtain new where n: "fs' = fs @ new" "rfold (pack_object J key mx (\<lambda>v f. Inr (g v f)))
      (v, pending_new J key mx) objects = Inr (foldl g v new, p')"
    using fold [OF st(1)] by blast
  show ?thesis
  proof (cases "pending_empty p'")
    case True
    then show ?thesis using st n by (intro exI [of _ new]) (simp add: pack_def)
  next
    case False
    then obtain f where "pending_finish J p' = Inr f" "frames = fs' @ [f]"
      using st(2) by (auto simp: collect_def)
    then show ?thesis using st n False by (intro exI [of _ "new @ [f]"]) (simp add: pack_def)
  qed
qed

text \<open>Sealing the reachable objects with the sealer of an identity.\<close>

lemma seal_reachable:
  assumes ok: "crypto_ok C (n + 33)" and S: "S = cell_sealer L C K" and comp: "complete L s i"
    and "digest_length L" and len: "\<forall>j k bs. s j = Some (k, bs) \<longrightarrow> length bs \<le> n"
    and "\<forall>(k, j)\<in>set xs. reaches L s i (j, k)"
  shows "\<exists>os. map (seal_stored L S s) xs = map Inr os \<and> map fst os = map (\<lambda>(k, j). sl_remote_id S k j) xs \<and>
     (\<forall>(rid, sealed)\<in>set os. length rid = 32 \<and> take 5 sealed = SEALED_MAGIC \<and> length sealed \<le> n + 78) \<and>
     (\<forall>(k, j)\<in>set xs. \<exists>sealed bs. (sl_remote_id S k j, sealed) \<in> set os \<and> s j = Some (k, bs) \<and>
        sl_open S k j (sl_remote_id S k j) sealed = Inr bs)"
  using assms(6)
proof (induction xs)
  case (Cons x xs)
  obtain k j where x: "x = (k, j)" by (cases x)
  obtain os where os: "map (seal_stored L S s) xs = map Inr os" "map fst os = map (\<lambda>(k, j). sl_remote_id S k j) xs"
      "\<forall>(rid, sealed)\<in>set os. length rid = 32 \<and> take 5 sealed = SEALED_MAGIC \<and> length sealed \<le> n + 78"
      "\<forall>(k, j)\<in>set xs. \<exists>sealed bs. (sl_remote_id S k j, sealed) \<in> set os \<and> s j = Some (k, bs) \<and>
        sl_open S k j (sl_remote_id S k j) sealed = Inr bs"
    using Cons by auto
  obtain bs where bs: "map_read L s j k = Inr bs"
    using comp Cons.prems x by (metis case_prodD complete_readE list.set_intros(1))
  then have sj: "s j = Some (k, bs)" "object_id L k bs = j" by (simp_all add: map_read_Inr)
  then have lens: "length j = 32" "length bs \<le> n"
    using assms(4) len by (auto simp: digest_length_def object_id_def)
  obtain sealed where sl: "sl_seal S k j bs = Inr (sl_remote_id S k j, sealed)"
      "sl_open S k j (sl_remote_id S k j) sealed = Inr bs"
      "take 5 sealed = REMOTE_OBJECT_MAGIC" "length sealed = length bs + 78"
    using cell.seal_open [OF ok sj(2) lens] unfolding S by blast
  have "length (sl_remote_id S k j) = 32" using cell.remote_id_length [OF ok] unfolding S .
  moreover have "REMOTE_OBJECT_MAGIC = SEALED_MAGIC" by (simp add: REMOTE_OBJECT_MAGIC_def SEALED_MAGIC_def)
  moreover have "seal_stored L S s x = Inr (sl_remote_id S k j, sealed)"
    using bs sl(1) x by (simp add: seal_stored_def)
  ultimately show ?case
    using os sl lens(2) sj(1) x
    by (intro exI [of _ "(sl_remote_id S k j, sealed) # os"]) fastforce
qed simp

text \<open>The caller carries frames and hands over the objects in them, each in a file named by its rid.\<close>

definition carry :: "frame_codec \<Rightarrow> directory \<Rightarrow> string list \<Rightarrow> directory" where
  "carry J outbox paths = concat (map (\<lambda>path.
     case map_of outbox path of
       None \<Rightarrow> []
     | Some bs \<Rightarrow>
         (case frame_decode J bs of
            Inl _ \<Rightarrow> []
          | Inr (_, os) \<Rightarrow> map (\<lambda>(rid, sealed). (id_hex rid, sealed)) os)) paths)"

lemma inbox_files_sealed:
  assumes "\<forall>(rid, sealed)\<in>set os. length rid = 32"
  shows "\<exists>files. inbox_files (map (\<lambda>(rid, sealed). (id_hex rid, sealed)) os) = Inr files \<and>
     (\<forall>rid\<in>fst ` set os. bt_get files rid = Some (id_hex rid))"
proof -
  let ?step = "\<lambda>files (name, _). if name \<noteq> [] \<and> hd name = CHR ''.'' then Inr files
       else rbind (of_opt (''inbox file '' @ name @ '' is not named by a rid'') (parse_rid name)) (\<lambda>rid.
            Inr (bt_insert rid name files))"
  have "\<exists>files. rfold ?step fs (map (\<lambda>(rid, sealed). (id_hex rid, sealed)) os) = Inr files \<and>
      (\<forall>rid. bt_get files rid = (if rid \<in> fst ` set os then Some (id_hex rid) else bt_get fs rid))" for fs
    using assms
  proof (induction os arbitrary: fs)
    case (Cons x xs)
    obtain rid sealed where x: "x = (rid, sealed)" by (cases x)
    have rid: "length rid = 32" using Cons.prems x by simp
    have "hd (id_hex rid) \<noteq> CHR ''.''"
    proof -
      have "id_hex rid \<noteq> []" using rid by (cases rid) (simp_all add: id_hex_def)
      then have "is_lower_hex (hd (id_hex rid))"
        using hex_encode_lower [of rid] by (simp add: id_hex_def list_all_iff)
      moreover have "\<not> is_lower_hex (CHR ''.'')" by code_simp
      ultimately show ?thesis by metis
    qed
    then have "?step fs (id_hex rid, sealed) = Inr (bt_insert rid (id_hex rid) fs)"
      using rid by (simp add: parse_rid_id_hex)
    moreover have "\<forall>(rid, sealed)\<in>set xs. length rid = 32" using Cons.prems by simp
    from Cons.IH [OF this, of "bt_insert rid (id_hex rid) fs"]
    obtain files where "rfold ?step (bt_insert rid (id_hex rid) fs)
          (map (\<lambda>(rid, sealed). (id_hex rid, sealed)) xs) = Inr files"
        "\<forall>r. bt_get files r = (if r \<in> fst ` set xs then Some (id_hex r) else bt_get (bt_insert rid (id_hex rid) fs) r)"
      by blast
    ultimately show ?case using x by (auto simp: bt_get_insert)
  qed simp
  from this [of "[]"] show ?thesis unfolding inbox_files_def by auto
qed

end
