(* ===== verification/Exchange_Transfer.thy ===== *)
theory Exchange_Transfer
  imports Exchange_Theorems
begin

text \<open>
  The exchange from end to end: the frames that an export writes, carried to the other store and
  imported there, complete the snapshot.
\<close>

section \<open>The export\<close>

text \<open>Room for the header of a frame that names up to \<open>m\<close> objects.\<close>

definition header_room :: "frame_codec \<Rightarrow> string \<Rightarrow> nat \<Rightarrow> nat \<Rightarrow> bool" where
  "header_room J key max_frame m \<longleftrightarrow>
     max_frame \<le> MAX_HEADER \<or>
     (\<forall>os. sealed_ok os \<longrightarrow> length os \<le> m \<longrightarrow> header_size J key os \<le> MAX_HEADER)"

lemma header_room_fits:
  assumes "header_room J key max_frame m" "sealed_ok os" "length os \<le> m"
  shows "header_fits J key max_frame os"
proof -
  have "header_size J key g \<le> MAX_HEADER" if "\<not> max_frame \<le> MAX_HEADER" "sublist g os" for g
  proof -
    have "sealed_ok g" "length g \<le> m"
      using sealed_ok_sublist [OF assms(2) that(2)] sublist_length_le [OF that(2)] assms(3) by simp_all
    then show ?thesis using assms(1) that(1) by (simp add: header_room_def)
  qed
  then show ?thesis by (auto simp: header_fits_def)
qed

text \<open>What the writing of frames leaves in the outbox and in the report.\<close>

definition put_frame :: "lib \<Rightarrow> directory \<times> frame_info list \<Rightarrow> frame \<Rightarrow> directory \<times> frame_info list" where
  "put_frame L v f =
     (write_file (fst v) (frame_file_name L f) (fr_bytes f),
      snd v @ [\<lparr>fi_path = frame_file_name L f, fi_objects = length (fr_rids f), fi_bytes = length (fr_bytes f)\<rparr>])"

lemma write_frame_put: "write_frame L = (\<lambda>v f. Inr (put_frame L v f))"
  by (auto simp: write_frame_def put_frame_def Let_def fun_eq_iff)

lemma map_of_write_file: "map_of (write_file d name bs) = (map_of d)(name \<mapsto> bs)"
proof -
  have "map_of (filter (\<lambda>(n, _). n \<noteq> name) d) m = (if m = name then None else map_of d m)" for m
    by (induction d) auto
  then show ?thesis by (auto simp: write_file_def fun_eq_iff)
qed

lemma put_frames_infos:
  "snd (foldl (put_frame L) v fs) = snd v @ map (\<lambda>f. \<lparr>fi_path = frame_file_name L f,
     fi_objects = length (fr_rids f), fi_bytes = length (fr_bytes f)\<rparr>) fs"
  by (induction fs arbitrary: v) (auto simp: put_frame_def)

lemma put_frames_outbox:
  "map_of (fst (foldl (put_frame L) v fs)) =
     map_of (fst v) ++ map_of (rev (map (\<lambda>f. (frame_file_name L f, fr_bytes f)) fs))"
  by (induction fs rule: rev_induct) (auto simp: put_frame_def map_of_write_file map_add_def fun_eq_iff)

lemma put_frames_lookup:
  assumes "distinct (map (frame_file_name L) fs)" "f \<in> set fs"
  shows "map_of (fst (foldl (put_frame L) v fs)) (frame_file_name L f) = Some (fr_bytes f)"
proof -
  have "distinct (map fst (rev (map (\<lambda>f. (frame_file_name L f, fr_bytes f)) fs)))"
    using assms(1) by (simp add: rev_map [symmetric] o_def)
  then have "map_of (rev (map (\<lambda>f. (frame_file_name L f, fr_bytes f)) fs)) (frame_file_name L f) = Some (fr_bytes f)"
    using assms(2) by (intro map_of_is_SomeI) auto
  then show ?thesis by (simp add: put_frames_outbox)
qed

text \<open>The objects that an export sends: every reachable one that the ledger does not record.\<close>

lemma unsent_ok:
  assumes comp: "complete L s i" and fin: "finite (reached L s i)" and "card (reached L s i) < fuel"
    and sent: "ledger_recorded ledger = Inr sent"
  obtains objects where "unsent fuel L S s i ledger = Inr objects" "distinct (map snd objects)"
    "set objects = {(k, j). reaches L s i (j, k) \<and> sl_remote_id S k j \<notin> set sent}"
proof -
  obtain ps where ps: "survey_of fuel L s i 1 = Inr \<lparr>sv_present = ps, sv_missing = []\<rparr>"
      "\<forall>(k, j)\<in>set ps. reaches L s i (j, k)" "distinct (map snd ps)" "snd ` set ps = reached L s i"
    by (rule survey_complete [OF comp fin assms(3) zero_less_one])
  let ?new = "filter (\<lambda>(kind, j). sl_remote_id S kind j \<notin> set sent) ps"
  define objects where "objects = sort_key (\<lambda>(kind, j). (send_rank kind, j)) ?new"
  have mem: "(k, j) \<in> set ps \<longleftrightarrow> reaches L s i (j, k)" for k j
  proof
    assume r: "reaches L s i (j, k)"
    then have "j \<in> snd ` set ps" using ps(4) by (auto simp: reached_def)
    then obtain k' where k': "(k', j) \<in> set ps" by auto
    then have "reaches L s i (j, k')" using ps(2) by auto
    with k' complete_kind_unique [OF comp r] show "(k, j) \<in> set ps" by simp
  qed (use ps(2) in auto)
  have "unsent fuel L S s i ledger = Inr objects"
    using ps(1) sent by (simp add: unsent_def objects_def)
  moreover have "distinct (map snd objects)"
  proof -
    have "distinct (map snd ?new)" using ps(3) by (rule distinct_map_filter)
    then have "distinct ?new" "inj_on snd (set ?new)" by (simp_all add: distinct_map)
    then show ?thesis by (simp add: objects_def distinct_map)
  qed
  moreover have "set objects = {(k, j). reaches L s i (j, k) \<and> sl_remote_id S k j \<notin> set sent}"
    by (auto simp: objects_def mem)
  ultimately show thesis using that by blast
qed

lemma sealed_ok_rids:
  assumes fst_os: "map fst os = map (\<lambda>(k, j). sl_remote_id S k j) xs"
    and os: "\<forall>(rid, sealed)\<in>set os. length rid = 32 \<and> take 5 sealed = SEALED_MAGIC \<and> length sealed \<le> m"
    and dist: "distinct (map snd xs)" and reach: "\<forall>(k, j)\<in>set xs. reaches L s i (j, k)"
    and rids: "rids_distinct L S s i" and single: "\<forall>x\<in>set os. frame_size J key [x] \<le> mx" and "mx \<le> MAX_FRAME"
  shows "sealed_ok os"
proof -
  have "inj_on (\<lambda>(k, j). sl_remote_id S k j) (set xs)"
  proof (rule inj_onI)
    fix x y assume xy: "x \<in> set xs" "y \<in> set xs"
      "(\<lambda>(k, j). sl_remote_id S k j) x = (\<lambda>(k, j). sl_remote_id S k j) y"
    obtain k j k' j' where e: "x = (k, j)" "y = (k', j')" by (cases x, cases y)
    then have "reaches L s i (j, k)" "reaches L s i (j', k')" using reach xy(1,2) by auto
    then have "snd x = snd y" using rids xy(3) e unfolding rids_distinct_def by simp
    with xy(1,2) dist show "x = y" by (metis distinct_map inj_onD)
  qed
  then have "distinct (map fst os)" using dist fst_os by (simp add: distinct_map)
  moreover have "length sealed < 2 ^ 32" if "(rid, sealed) \<in> set os" for rid sealed
  proof -
    have "frame_size J key [(rid, sealed)] \<le> MAX_FRAME" using single that assms(7) by fastforce
    then show ?thesis by (simp add: frame_size_def MAX_FRAME_def)
  qed
  ultimately show ?thesis using os by (fastforce simp: sealed_ok_def)
qed

lemma carry_frames:
  assumes "distinct (map (frame_file_name L) (map (frame_of J key) parts))"
    and "\<forall>g\<in>set parts. sublist g os \<and> g \<noteq> [] \<and> frame_size J key g \<le> mx \<and>
       frame_decode J (fr_bytes (frame_of J key g)) = Inr (key, g)"
  shows "carry J (fst (foldl (put_frame L) v (map (frame_of J key) parts)))
       (map (frame_file_name L) (map (frame_of J key) parts)) =
     map (\<lambda>(rid, sealed). (id_hex rid, sealed)) (concat parts)"
proof -
  let ?d = "fst (foldl (put_frame L) v (map (frame_of J key) parts))"
  have one: "carry J ?d [frame_file_name L (frame_of J key g)] = map (\<lambda>(rid, sealed). (id_hex rid, sealed)) g"
    if "g \<in> set parts" for g
    using put_frames_lookup [OF assms(1), of "frame_of J key g" v] assms(2) that by (simp add: carry_def)
  have all: "carry J ?d paths = concat (map (\<lambda>p. carry J ?d [p]) paths)" for paths
    by (simp add: carry_def)
  show ?thesis by (subst all) (simp add: one map_concat o_def cong: map_cong)
qed

lemma pack_written:
  assumes "codec_laws J" "is_key_id key" "sealed_ok os" "max_frame \<le> MAX_FRAME"
    and "\<forall>x\<in>set os. frame_size J key [x] \<le> max_frame" "header_fits J key max_frame os"
  obtains outbox' infos where
    "pack J key max_frame (map Inr os) (write_frame L) (outbox, []) = Inr (outbox', infos)"
    "sum_list (map fi_objects infos) = length os" "\<forall>f\<in>set infos. 0 < fi_objects f \<and> fi_bytes f \<le> max_frame"
    "distinct (map fi_path infos) \<longrightarrow>
       carry J outbox' (map fi_path infos) = map (\<lambda>(rid, sealed). (id_hex rid, sealed)) os"
proof -
  obtain parts where parts: "pack J key max_frame (map Inr os) collect [] = Inr (map (frame_of J key) parts)"
      "concat parts = os" "\<forall>g\<in>set parts. sublist g os \<and> g \<noteq> [] \<and> frame_size J key g \<le> max_frame \<and>
       frame_decode J (fr_bytes (frame_of J key g)) = Inr (key, g)"
    by (rule pack_frames [OF assms])
  let ?v = "foldl (put_frame L) (outbox, []) (map (frame_of J key) parts)"
  have "pack J key max_frame (map Inr os) (write_frame L) (outbox, []) = Inr (fst ?v, snd ?v)"
    using pack_callback [OF parts(1), of "put_frame L" "(outbox, [])"] by (simp add: write_frame_put)
  moreover have "sum_list (map fi_objects (snd ?v)) = length os"
    using parts(2) by (auto simp: put_frames_infos o_def length_concat)
  moreover have "\<forall>f\<in>set (snd ?v). 0 < fi_objects f \<and> fi_bytes f \<le> max_frame"
    using parts(3) by (auto simp: put_frames_infos length_frame_of)
  moreover have "distinct (map fi_path (snd ?v)) \<longrightarrow>
      carry J (fst ?v) (map fi_path (snd ?v)) = map (\<lambda>(rid, sealed). (id_hex rid, sealed)) os"
    using carry_frames [OF _ parts(3), of L "(outbox, [])"] parts(2) by (simp add: put_frames_infos o_def)
  ultimately show thesis using that by blast
qed

text \<open>
  An export succeeds, and its frames, when no two have the same file name, carry the sealed
  objects: the sealed form of every object to send, under its rid, opens to the object.
\<close>

lemma export_ok:
  assumes comp: "complete L s i" and fin: "finite (reached L s i)" and fuel: "card (reached L s i) < fuel"
    and sent: "ledger_recorded ledger = Inr sent"
    and C: "crypto_ok C (n + 33)" and S: "S = cell_sealer L C K" and dig: "digest_length L"
    and len: "\<forall>j k bs. s j = Some (k, bs) \<longrightarrow> length bs \<le> n" and rids: "rids_distinct L S s i"
    and J: "codec_laws J" and key: "is_key_id (cell_key_id J key)" and mx: "max_frame \<le> MAX_FRAME"
    and room: "header_room J (cell_key_id J key) max_frame (card (reached L s i))"
    and single: "\<forall>rid sealed. length rid = 32 \<longrightarrow> length sealed \<le> n + 78 \<longrightarrow>
       frame_size J (cell_key_id J key) [(rid, sealed)] \<le> max_frame"
  shows "\<exists>outbox' report os. export_run fuel L J S key s i ledger outbox max_frame = Inr (outbox', report) \<and>
     sealed_ok os \<and> er_objects report = length os \<and>
     er_objects report = sum_list (map fi_objects (er_frames report)) \<and>
     (\<forall>f\<in>set (er_frames report). 0 < fi_objects f \<and> fi_bytes f \<le> max_frame) \<and>
     length os = card {j. \<exists>k. reaches L s i (j, k) \<and> sl_remote_id S k j \<notin> set sent} \<and>
     (distinct (map fi_path (er_frames report)) \<longrightarrow>
        carry J outbox' (map fi_path (er_frames report)) = map (\<lambda>(rid, sealed). (id_hex rid, sealed)) os) \<and>
     (\<forall>k j. reaches L s i (j, k) \<longrightarrow> sl_remote_id S k j \<notin> set sent \<longrightarrow>
        (\<exists>sealed bs. (sl_remote_id S k j, sealed) \<in> set os \<and> s j = Some (k, bs) \<and>
           sl_open S k j (sl_remote_id S k j) sealed = Inr bs))"
proof -
  let ?key = "cell_key_id J key"
  obtain xs where xs: "unsent fuel L S s i ledger = Inr xs" "distinct (map snd xs)"
      "set xs = {(k, j). reaches L s i (j, k) \<and> sl_remote_id S k j \<notin> set sent}"
    by (rule unsent_ok [OF comp fin fuel sent])
  then have reach: "\<forall>(k, j)\<in>set xs. reaches L s i (j, k)" by auto
  obtain os where os: "map (seal_stored L S s) xs = map Inr os"
      "map fst os = map (\<lambda>(k, j). sl_remote_id S k j) xs"
      "\<forall>(rid, sealed)\<in>set os. length rid = 32 \<and> take 5 sealed = SEALED_MAGIC \<and> length sealed \<le> n + 78"
      "\<forall>(k, j)\<in>set xs. \<exists>sealed bs. (sl_remote_id S k j, sealed) \<in> set os \<and> s j = Some (k, bs) \<and>
        sl_open S k j (sl_remote_id S k j) sealed = Inr bs"
    using seal_reachable [OF C S comp dig len reach] by blast
  have single': "\<forall>x\<in>set os. frame_size J ?key [x] \<le> max_frame" using os(3) single by auto
  have "sealed_ok os" by (rule sealed_ok_rids [OF os(2,3) xs(2) reach rids single' mx])
  have lens: "length os = length xs" using os(2) by (metis length_map)
  have img: "snd ` set xs = {j. \<exists>k. reaches L s i (j, k) \<and> sl_remote_id S k j \<notin> set sent}"
    using xs(3) by (auto simp: image_iff)
  have card: "length os = card (snd ` set xs)" using distinct_card [OF xs(2)] lens by simp
  also have "\<dots> \<le> card (reached L s i)"
    using fin unfolding img by (intro card_mono) (auto simp: reached_def)
  finally have fits: "header_fits J ?key max_frame os"
    by (rule header_room_fits [OF room \<open>sealed_ok os\<close>])
  obtain outbox' infos where w:
      "pack J ?key max_frame (map Inr os) (write_frame L) (outbox, []) = Inr (outbox', infos)"
      "sum_list (map fi_objects infos) = length os" "\<forall>f\<in>set infos. 0 < fi_objects f \<and> fi_bytes f \<le> max_frame"
      "distinct (map fi_path infos) \<longrightarrow>
         carry J outbox' (map fi_path infos) = map (\<lambda>(rid, sealed). (id_hex rid, sealed)) os"
    by (rule pack_written [where outbox = outbox, OF J key \<open>sealed_ok os\<close> mx single' fits])
  define report where "report = \<lparr>er_frames = infos, er_head_rid = id_hex (sl_remote_id S Snapshot i),
       er_objects = sum_list (map fi_objects infos), er_bytes = sum_list (map fi_bytes infos)\<rparr>"
  have run: "export_run fuel L J S key s i ledger outbox max_frame = Inr (outbox', report)"
    using w(1) mx xs(1) os(1) by (simp add: export_run_def report_def)
  have report: "er_frames report = infos" "er_objects report = length os"
      "er_objects report = sum_list (map fi_objects (er_frames report))"
    using w(2) by (simp_all add: report_def)
  have opens: "\<forall>k j. reaches L s i (j, k) \<longrightarrow> sl_remote_id S k j \<notin> set sent \<longrightarrow>
      (\<exists>sealed bs. (sl_remote_id S k j, sealed) \<in> set os \<and> s j = Some (k, bs) \<and>
         sl_open S k j (sl_remote_id S k j) sealed = Inr bs)"
    using os(4) xs(3) by fastforce
  show ?thesis
    using run report(2,3) w(3,4) [folded report(1)] opens \<open>sealed_ok os\<close> card [unfolded img] by blast
qed

section \<open>The transfer\<close>

lemma inbox_lookup:
  assumes "sealed_ok os" "(rid, sealed) \<in> set os"
  shows "map_of (map (\<lambda>(rid, sealed). (id_hex rid, sealed)) os) (id_hex rid) = Some sealed"
proof -
  have "inj_on id_hex (fst ` set os)"
    by (auto intro!: inj_onI dest: id_hex_inj)
  moreover have "distinct (map fst os)" using assms(1) by (simp add: sealed_ok_def)
  ultimately have "distinct (map fst (map (\<lambda>(rid, sealed). (id_hex rid, sealed)) os))"
    by (simp add: o_def split_beta comp_inj_on distinct_map [of id_hex "map fst os", simplified, unfolded o_def])
  then show ?thesis using assms(2) by (intro map_of_is_SomeI) force+
qed

lemma carried_delivered:
  assumes "sealed_ok os" and files: "\<forall>rid\<in>fst ` set os. bt_get files rid = Some (id_hex rid)"
    and os: "\<forall>k j. reaches L s i (j, k) \<longrightarrow> sl_remote_id S k j \<notin> set sent \<longrightarrow>
        (\<exists>sealed bs. (sl_remote_id S k j, sealed) \<in> set os \<and> s j = Some (k, bs) \<and>
           sl_open S k j (sl_remote_id S k j) sealed = Inr bs)"
    and sent: "\<forall>j k. reaches L s i (j, k) \<longrightarrow> sl_remote_id S k j \<in> set sent \<longrightarrow> t j \<noteq> None"
  shows "delivered L S s i t (map (\<lambda>(rid, sealed). (id_hex rid, sealed)) os) files"
  unfolding delivered_def
proof (intro allI impI)
  fix j k assume r: "reaches L s i (j, k)" and "t j = None"
  then have "sl_remote_id S k j \<notin> set sent" using sent by blast
  with r os obtain sealed bs where o: "(sl_remote_id S k j, sealed) \<in> set os" "s j = Some (k, bs)"
      "sl_open S k j (sl_remote_id S k j) sealed = Inr bs" by blast
  have "bt_get files (sl_remote_id S k j) = Some (id_hex (sl_remote_id S k j))"
    using files o(1) by (metis fst_conv image_eqI)
  with o inbox_lookup [OF assms(1) o(1)] show "\<exists>name sealed bs.
      bt_get files (sl_remote_id S k j) = Some name \<and>
      map_of (map (\<lambda>(rid, sealed). (id_hex rid, sealed)) os) name = Some sealed \<and>
      sl_open S k j (sl_remote_id S k j) sealed = Inr bs \<and> s j = Some (k, bs)" by blast
qed

text \<open>
  C39: A complete snapshot is exported in frames and, when these are carried to another store, an
  import there completes the snapshot. The other store may hold any part of the snapshot, and the
  ledger may record any objects that the other store holds: the export sends the remaining ones,
  once each and in frames within the limit, and the import stores exactly those that were absent. The assumptions on the
  third-party code are that decryption inverts encryption, that the header codec inverts, and that
  the remote ids of the reachable objects and the names of the written frames are distinct; the
  frames must have room for any single object and for the header.
\<close>

theorem exchange_completes:
  assumes "complete L s i" "finite (dom s)" "card (dom s) < fuel" "card (dom s) < usize_max"
    and "\<forall>j k bs. s j = Some (k, bs) \<longrightarrow> length bs \<le> n" "n \<le> MAX_OBJECT_LEN" "digest_length L"
    and "crypto_ok C (n + 33)" "S = cell_sealer L C K" "rids_distinct L S s i"
    and "codec_laws J" "is_key_id (cell_key_id J (cell_key K))" "max_frame \<le> MAX_FRAME"
    and "header_room J (cell_key_id J (cell_key K)) max_frame (card (reached L s i))"
    and "\<forall>rid sealed. length rid = 32 \<longrightarrow> length sealed \<le> n + 78 \<longrightarrow>
       frame_size J (cell_key_id J (cell_key K)) [(rid, sealed)] \<le> max_frame"
    and "part_of L s i t" "ledger_recorded ledger = Inr sent"
    and "\<forall>j k. reaches L s i (j, k) \<longrightarrow> sl_remote_id S k j \<in> set sent \<longrightarrow> t j \<noteq> None"
  shows "\<exists>outbox' report. export_run fuel L J S (cell_key K) s i ledger outbox max_frame = Inr (outbox', report) \<and>
     er_objects report = card {j. \<exists>k. reaches L s i (j, k) \<and> sl_remote_id S k j \<notin> set sent} \<and>
     er_objects report = sum_list (map fi_objects (er_frames report)) \<and>
     (\<forall>f\<in>set (er_frames report). 0 < fi_objects f \<and> fi_bytes f \<le> max_frame) \<and>
     (distinct (map fi_path (er_frames report)) \<longrightarrow>
       (\<exists>st. import_run_partial fuel L S i
          \<lparr>im_store = t, im_inbox = carry J outbox' (map fi_path (er_frames report)), im_ledger = other\<rparr> =
             (st, Inr (card {j \<in> reached L s i. t j = None})) \<and>
          im_store st = fill s (reached L s i) t \<and> complete L (im_store st) i))"
proof -
  have sub: "reached L s i \<subseteq> dom s" by (rule complete_reached_dom [OF assms(1)])
  then have fin: "finite (reached L s i)" using assms(2) by (rule finite_subset)
  have "card (reached L s i) \<le> card (dom s)" using assms(2) sub by (rule card_mono)
  then have fuel: "card (reached L s i) < fuel" and lim: "card (reached L s i) < usize_max"
    using assms(3,4) by simp_all
  have sz: "sized s" using assms(5,6) by (fastforce simp: sized_def)
  obtain outbox' report os where ex:
      "export_run fuel L J S (cell_key K) s i ledger outbox max_frame = Inr (outbox', report)"
      "sealed_ok os" "er_objects report = length os"
      "er_objects report = sum_list (map fi_objects (er_frames report))"
      "\<forall>f\<in>set (er_frames report). 0 < fi_objects f \<and> fi_bytes f \<le> max_frame"
      "length os = card {j. \<exists>k. reaches L s i (j, k) \<and> sl_remote_id S k j \<notin> set sent}"
      "distinct (map fi_path (er_frames report)) \<longrightarrow>
        carry J outbox' (map fi_path (er_frames report)) = map (\<lambda>(rid, sealed). (id_hex rid, sealed)) os"
      "\<forall>k j. reaches L s i (j, k) \<longrightarrow> sl_remote_id S k j \<notin> set sent \<longrightarrow>
        (\<exists>sealed bs. (sl_remote_id S k j, sealed) \<in> set os \<and> s j = Some (k, bs) \<and>
           sl_open S k j (sl_remote_id S k j) sealed = Inr bs)"
    using export_ok [OF assms(1) fin fuel assms(17,8,9,7,5,10-15), of outbox] by blast
  let ?d = "map (\<lambda>(rid, sealed). (id_hex rid, sealed)) os"
  have "\<forall>(rid, sealed)\<in>set os. length rid = 32" using ex(2) by (auto simp: sealed_ok_def)
  from inbox_files_sealed [OF this] obtain files where files: "inbox_files ?d = Inr files"
      "\<forall>rid\<in>fst ` set os. bt_get files rid = Some (id_hex rid)" by blast
  have del: "delivered L S s i t ?d files"
    by (rule carried_delivered [OF ex(2) files(2) _ assms(18)]) (use ex(8) in blast)
  let ?st = "\<lparr>im_store = t, im_inbox = ?d, im_ledger = other\<rparr>"
  obtain st where st: "import_take fuel L S i Keep ?st =
        (st, Inr \<lparr>tk_imported = card {j \<in> reached L s i. t j = None}, tk_extras_deleted = 0\<rparr>)"
      "im_store st = fill s (reached L s i) t"
    using import_take_ok [OF assms(1) sz assms(10) fin lim fuel, of ?st files] assms(16) files(1) del by auto
  have "complete L (im_store st) i"
    unfolding st(2) by (rule complete_agree(1) [OF _ assms(1)]) (simp add: fill_def)
  moreover have "import_run_partial fuel L S i ?st = (st, Inr (card {j \<in> reached L s i. t j = None}))"
    using st(1) by (simp add: import_run_partial_def)
  ultimately show ?thesis using ex(1,3-7) st(2) by (intro exI [of _ outbox'] exI [of _ report]) auto
qed

section \<open>What the ledger records\<close>

text \<open>
  After an append the ledger records the appended rids after the earlier ones, provided its last
  line is whole; rids after a torn line are glued to it and lost.
\<close>

lemma utf8_valid_ascii:
  assumes "utf8_valid a" "list_all (\<lambda>c. (of_char c :: nat) < 128) b"
  shows "utf8_valid (a @ b)"
  using assms(1)
proof (induction a rule: length_induct)
  case (1 a)
  show ?case
  proof (cases a)
    case Nil
    then show ?thesis using assms(2) by (induction b arbitrary: a) auto
  next
    case (Cons x r)
    note step = 1(2) [unfolded Cons utf8_valid.simps Let_def]
    have IH: "utf8_valid q \<Longrightarrow> length q < length a \<Longrightarrow> utf8_valid (q @ b)" for q using 1(1) by blast
    note head = utf8_valid.simps(2) [of x]
    show ?thesis
    proof (cases "(of_char x :: nat) < 128")
      case True
      then show ?thesis using step IH [of r] Cons by (simp del: utf8_valid.simps add: head)
    next
      case big: False
      then obtain y r1 where r: "r = y # r1" using step by (cases r) auto
      show ?thesis
      proof (cases "(of_char x :: nat) < 224")
        case True
        then show ?thesis using big step IH [of r1] Cons r by (simp del: utf8_valid.simps utf8_second.simps add: head)
      next
        case bigger: False
        then obtain z r2 where r1: "r1 = z # r2" using big r step by (cases r1) auto
        show ?thesis
          using big bigger step IH [of r2] IH [of "tl r2"] Cons r r1
          by (cases r2) (simp_all del: utf8_valid.simps utf8_second.simps add: head split: if_splits)
      qed
    qed
  qed
qed

lemma split_on_append:
  "split_on sep (a @ sep # b) = split_on sep a @ split_on sep b"
proof (induction a)
  case (Cons x a)
  obtain p ps where "split_on sep a = p # ps" by (cases "split_on sep a") auto
  with Cons show ?case by auto
qed simp

definition whole_lines :: "bytes \<Rightarrow> bool" where
  "whole_lines txt \<longleftrightarrow> txt = [] \<or> last txt = CHR 0x0A"

lemma lines_of_line:
  assumes "whole_lines txt" "CHR 0x0A \<notin> set l"
  shows "lines_of (txt @ l @ [CHR 0x0A]) = lines_of txt @ [strip_cr l]"
proof -
  have l: "split_on (CHR 0x0A) (l @ [CHR 0x0A]) = [l, []]"
    using split_on_append_sep [OF assms(2), of "[]"] by simp
  show ?thesis
  proof (cases "txt = []")
    case False
    then obtain t0 where "txt = t0 @ [CHR 0x0A]"
      using assms(1) by (metis append_butlast_last_id whole_lines_def)
    then show ?thesis
      using l split_on_append [of "CHR 0x0A" t0 "l @ [CHR 0x0A]"] split_on_append [of "CHR 0x0A" t0 "[]"]
      by (simp add: lines_of_def Let_def butlast_append)
  qed (use l in \<open>simp add: lines_of_def\<close>)
qed

lemma id_hex_line: "CHR 0x0A \<notin> set (id_hex rid)" "strip_cr (id_hex rid) = id_hex rid"
  "list_all (\<lambda>c. (of_char c :: nat) < 128) (id_hex rid)"
proof -
  have hex: "list_all is_lower_hex (id_hex rid)" by (simp add: id_hex_def hex_encode_lower)
  have no: "\<not> is_lower_hex (CHR 0x0A)" "\<not> is_lower_hex (CHR 0x0D)" by code_simp+
  show "CHR 0x0A \<notin> set (id_hex rid)" using hex no(1) by (auto simp: list_all_iff)
  show "strip_cr (id_hex rid) = id_hex rid"
    using hex no(2) by (auto simp: strip_cr_def list_all_iff dest: last_in_set)
  have "(of_char c :: nat) < 128" if "is_lower_hex c" for c
    using that by (auto simp: is_lower_hex_def is_ascii_digit_def less_eq_char_def)
  with hex show "list_all (\<lambda>c. (of_char c :: nat) < 128) (id_hex rid)" by (simp add: list_all_iff)
qed

lemma ledger_recorded_append:
  assumes "ledger_recorded ledger = Inr sent" "\<forall>body. ledger = Some body \<longrightarrow> whole_lines body"
    and "\<forall>rid\<in>set rids. length rid = 32"
  shows "ledger_recorded (ledger_append ledger rids) = Inr (sent @ rids)"
proof -
  define body where "body = (case ledger of None \<Rightarrow> [] | Some body \<Rightarrow> body)"
  have body: "utf8_valid body" "whole_lines body" "List.map_filter parse_rid (lines_of body) = sent"
    using assms(1,2) by (auto simp: body_def ledger_recorded_def whole_lines_def lines_of_def
        map_filter_simps split: option.splits if_splits)
  have "utf8_valid (body @ concat (map (\<lambda>rid. id_hex rid @ [CHR 0x0A]) rids)) \<and>
      List.map_filter parse_rid (lines_of (body @ concat (map (\<lambda>rid. id_hex rid @ [CHR 0x0A]) rids))) = sent @ rids"
    using assms(3) body
  proof (induction rids arbitrary: body sent)
    case (Cons rid rids)
    let ?t = "body @ id_hex rid @ [CHR 0x0A]"
    have "utf8_valid ?t" using Cons.prems id_hex_line(3) [of rid] by (intro utf8_valid_ascii) auto
    moreover have "whole_lines ?t" by (simp add: whole_lines_def)
    moreover have "List.map_filter parse_rid (lines_of ?t) = sent @ [rid]"
      using Cons.prems by (simp add: lines_of_line id_hex_line map_filter_def parse_rid_id_hex)
    ultimately show ?case using Cons.IH [of ?t "sent @ [rid]"] Cons.prems(1) by simp
  qed simp
  then show ?thesis
    using assms(1) by (auto simp: ledger_append_def ledger_recorded_def body_def)
qed

section \<open>An exchange\<close>

text \<open>
  A concrete instance of the third-party code: the keyed hash takes the last bytes of the message,
  the cipher appends a tag of zeros. The receiving store holds the tree of the shared example, the
  ledger records it, and the export sends the snapshot alone.
\<close>

definition plain_crypto :: crypto where
  "plain_crypto = \<lparr>keyed_xof = \<lambda>key msg n. take n (rev msg @ replicate n (CHR 0x00)),
     aead_encrypt = \<lambda>key nonce aad msg. Some (msg @ replicate 16 (CHR 0x00)),
     aead_decrypt = \<lambda>key nonce aad c. Some (take (length c - 16) c)\<rparr>"

definition sample_keys :: keys where
  "sample_keys = \<lparr>cell_key = replicate 32 (CHR 0x01), dedup = replicate 32 (CHR 0x02)\<rparr>"

definition sample_sealer :: sealer where
  "sample_sealer = cell_sealer short_lib plain_crypto sample_keys"

definition sample_ledger :: "bytes option" where
  "sample_ledger = ledger_append None [sl_remote_id sample_sealer Tree tree_id]"

lemma plain_crypto_ok: "crypto_ok plain_crypto n"
  by (auto simp: crypto_ok_def plain_crypto_def min_def)

lemma sample_id_lengths: "length snap_id = 32" "length tree_id = 32"
  using short_lib_digest by (simp_all add: snap_id_def tree_id_def object_id_def digest_length_def)

lemma sample_rids:
  "sl_remote_id sample_sealer Snapshot snap_id = rev snap_id"
  "sl_remote_id sample_sealer Tree tree_id = rev tree_id"
  by (simp_all add: sample_sealer_def cell_sealer_def scheme_of_def structure_scheme_def remote_id_def
      plain_crypto_def sample_id_lengths)

lemma sample_rids_distinct: "rids_distinct short_lib sample_sealer sample_objects snap_id"
  by (auto simp: rids_distinct_def sample_reaches sample_rids)

lemma sample_ledger_recorded: "ledger_recorded sample_ledger = Inr [rev tree_id]"
  using ledger_recorded_append [of None "[]" "[rev tree_id]"]
  by (simp add: sample_ledger_def sample_rids sample_id_lengths ledger_recorded_def)

lemma sample_cell_key: "is_key_id (cell_key_id sample_frames (cell_key sample_keys))"
  by code_simp

lemma sample_frame_room:
  assumes "length rid = 32" "length sealed \<le> 1078"
  shows "frame_size sample_frames (cell_key_id sample_frames (cell_key sample_keys)) [(rid, sealed)] \<le> MAX_HEADER"
proof -
  have "length sealed mod 2 ^ 32 = length sealed" using assms(2) by simp
  moreover have "length (cell_key_id sample_frames (cell_key sample_keys)) = 32" by code_simp
  ultimately show ?thesis
    using assms by (simp add: frame_size_def header_size_def header_of_def frame_codec_simps
      FRAME_VERSION_def MAX_HEADER_def)
qed

lemma sample_lengths: "sample_objects j = Some (k, bs) \<Longrightarrow> length bs \<le> 1000"
proof -
  have "length snap_bytes \<le> 1000" "length tree_bytes \<le> 1000"
    by (simp_all add: snap_bytes_def tree_bytes_def sample_snapshot_def short_lib_def sample_lib_def
        codec_simps tree_id_def object_id_def)
  then show "sample_objects j = Some (k, bs) \<Longrightarrow> length bs \<le> 1000"
    by (auto simp: sample_objects_def split: if_splits)
qed

lemma one_object_distinct:
  assumes "sum_list (map fi_objects fs) = (1 :: nat)" "\<forall>f\<in>set fs. 0 < fi_objects f"
  shows "distinct (map fi_path fs)"
proof -
  have "length fs \<le> sum_list (map fi_objects fs)" using assms(2) by (induction fs) auto
  then have "length fs \<le> 1" using assms(1) by simp
  then show ?thesis by (cases fs) auto
qed

definition tree_only :: object_map where
  "tree_only = [tree_id \<mapsto> (Tree, tree_bytes)]"

lemma sample_sent: "{j. \<exists>k. reaches short_lib sample_objects snap_id (j, k) \<and>
    sl_remote_id sample_sealer k j \<notin> set [rev tree_id]} = {snap_id}"
  using ids_differ by (auto simp: sample_reaches sample_rids)

lemma sample_absent: "{j \<in> {snap_id, tree_id}. tree_only j = None} = {snap_id}"
  using ids_differ by (auto simp: tree_only_def)

theorem exchange_completes_witness:
  "\<exists>outbox report st.
     export_run 3 short_lib sample_frames sample_sealer (cell_key sample_keys) sample_objects snap_id
       sample_ledger [] MAX_HEADER = Inr (outbox, report) \<and> er_objects report = 1 \<and>
     import_run_partial 3 short_lib sample_sealer snap_id
       \<lparr>im_store = tree_only, im_inbox = carry sample_frames outbox (map fi_path (er_frames report)),
        im_ledger = None\<rparr> = (st, Inr 1) \<and>
     complete short_lib (im_store st) snap_id"
proof -
  have part: "part_of short_lib sample_objects snap_id tree_only"
    using ids_differ by (auto simp: part_of_def sample_reached sample_objects_def tree_only_def)
  have held: "\<forall>j k. reaches short_lib sample_objects snap_id (j, k) \<longrightarrow>
      sl_remote_id sample_sealer k j \<in> set [rev tree_id] \<longrightarrow> tree_only j \<noteq> None"
    using ids_differ by (auto simp: sample_reaches sample_rids tree_only_def)
  have dom: "finite (dom sample_objects)" "card (dom sample_objects) < 3" "card (dom sample_objects) < usize_max"
    by (simp_all add: sample_dom)
  have lens: "\<forall>j k bs. sample_objects j = Some (k, bs) \<longrightarrow> length bs \<le> 1000" using sample_lengths by blast
  have sizes: "1000 \<le> MAX_OBJECT_LEN" "MAX_HEADER \<le> MAX_FRAME"
    by (simp_all add: MAX_OBJECT_LEN_def MAX_HEADER_def MAX_FRAME_def)
  have room: "header_room sample_frames (cell_key_id sample_frames (cell_key sample_keys)) MAX_HEADER
      (card (reached short_lib sample_objects snap_id))"
    by (simp add: header_room_def)
  have single: "\<forall>rid sealed. length rid = 32 \<longrightarrow> length sealed \<le> 1000 + 78 \<longrightarrow>
      frame_size sample_frames (cell_key_id sample_frames (cell_key sample_keys)) [(rid, sealed)] \<le> MAX_HEADER"
    using sample_frame_room by simp
  obtain outbox report where ex: "export_run 3 short_lib sample_frames sample_sealer (cell_key sample_keys)
        sample_objects snap_id sample_ledger [] MAX_HEADER = Inr (outbox, report)"
      "er_objects report = card {snap_id}" "er_objects report = sum_list (map fi_objects (er_frames report))"
      "\<forall>f\<in>set (er_frames report). 0 < fi_objects f \<and> fi_bytes f \<le> MAX_HEADER"
      "distinct (map fi_path (er_frames report)) \<longrightarrow>
       (\<exists>st. import_run_partial 3 short_lib sample_sealer snap_id \<lparr>im_store = tree_only,
            im_inbox = carry sample_frames outbox (map fi_path (er_frames report)), im_ledger = None\<rparr> =
             (st, Inr (card {snap_id})) \<and>
          im_store st = fill sample_objects {snap_id, tree_id} tree_only \<and>
          complete short_lib (im_store st) snap_id)"
    using exchange_completes [OF sample_complete dom lens sizes(1) short_lib_digest plain_crypto_ok
        sample_sealer_def sample_rids_distinct sample_frames_laws sample_cell_key sizes(2) room single
        part sample_ledger_recorded held, where outbox = "[]" and other = None]
    unfolding sample_sent sample_reached sample_absent by blast
  then have "distinct (map fi_path (er_frames report))" by (intro one_object_distinct) simp_all
  with ex show ?thesis by auto
qed

end
