(* ===== verification/Chunker_Theorems.thy ===== *)
theory Chunker_Theorems
  imports Chunker
begin

text \<open>
  The chunks of a stream are a function of its content: the reference chunking cuts after the
  shortest prefix that the boundary test accepts, and the stream yields it however the reader
  splits the content over its calls.
\<close>

section \<open>The reference chunking\<close>

definition gear_hash :: "bytes \<Rightarrow> 64 word" where
  "gear_hash bs = foldl gear_step 0 bs"

definition cuts :: "bytes \<Rightarrow> bool" where
  "cuts bs \<longleftrightarrow> chunk_boundary (length bs) (gear_hash bs) \<or> length bs = MAX_CHUNK"

definition chunk_len :: "bytes \<Rightarrow> nat" where
  "chunk_len bs = (case find (\<lambda>n. cuts (take n bs)) [1..<length bs] of None \<Rightarrow> length bs | Some n \<Rightarrow> n)"

lemma find_upt_Some:
  "find P [a..<b] = Some k \<longleftrightarrow> a \<le> k \<and> k < b \<and> P k \<and> (\<forall>m. a \<le> m \<and> m < k \<longrightarrow> \<not> P m)"
proof
  assume "find P [a..<b] = Some k"
  then obtain i where i: "i < b - a" "P (a + i)" "k = a + i" "\<forall>j<i. \<not> P ([a..<b] ! j)"
    by (auto simp: find_Some_iff)
  have "\<not> P m" if "a \<le> m" "m < k" for m
  proof -
    have "m - a < i" using that i(3) by simp
    moreover from this have "[a..<b] ! (m - a) = m" using that(1) i(1) by simp
    ultimately show ?thesis using i(4) by metis
  qed
  with i show "a \<le> k \<and> k < b \<and> P k \<and> (\<forall>m. a \<le> m \<and> m < k \<longrightarrow> \<not> P m)" by auto
next
  assume k: "a \<le> k \<and> k < b \<and> P k \<and> (\<forall>m. a \<le> m \<and> m < k \<longrightarrow> \<not> P m)"
  then have "\<forall>j<k - a. \<not> P ([a..<b] ! j)" by auto
  with k show "find P [a..<b] = Some k" by (auto simp: find_Some_iff intro!: exI [of _ "k - a"])
qed

text \<open>The length of the first chunk is the only cut before which there is none.\<close>

lemma chunk_len_iff:
  assumes "bs \<noteq> []"
  shows "chunk_len bs = n \<longleftrightarrow> 0 < n \<and> n \<le> length bs \<and> (cuts (take n bs) \<or> n = length bs) \<and>
     (\<forall>m. 0 < m \<and> m < n \<longrightarrow> \<not> cuts (take m bs))"
proof (cases "find (\<lambda>n. cuts (take n bs)) [1..<length bs]")
  case None
  then have no: "\<not> cuts (take m bs)" if "0 < m" "m < length bs" for m
    using that by (auto simp: find_None_iff)
  have "chunk_len bs = length bs" unfolding chunk_len_def None by simp
  then show ?thesis using no assms by (cases "n = length bs") auto
next
  case (Some k)
  then have k: "0 < k" "k < length bs" "cuts (take k bs)" "\<forall>m. 0 < m \<and> m < k \<longrightarrow> \<not> cuts (take m bs)"
    unfolding find_upt_Some by auto
  have "chunk_len bs = k" unfolding chunk_len_def Some by simp
  then show ?thesis using k by (cases n k rule: linorder_cases) auto
qed

lemma chunk_len_pos: "bs \<noteq> [] \<Longrightarrow> 0 < chunk_len bs"
  using chunk_len_iff by blast

lemma chunk_len_le: "chunk_len bs \<le> length bs"
  using chunk_len_iff [of bs "chunk_len bs"] by (cases "bs = []") (auto simp: chunk_len_def)

function chunks_of :: "bytes \<Rightarrow> bytes list" where
  "chunks_of bs = (if bs = [] then [] else take (chunk_len bs) bs # chunks_of (drop (chunk_len bs) bs))"
  by pat_completeness auto
termination
  by (relation "measure length") (use chunk_len_pos in \<open>auto simp: diff_less\<close>)

declare chunks_of.simps [simp del]

lemma chunk_len_first: "0 < m \<Longrightarrow> m < chunk_len bs \<Longrightarrow> \<not> cuts (take m bs)"
  using chunk_len_iff [of bs "chunk_len bs"] chunk_len_le [of bs] by (cases "bs = []") auto

lemma chunk_len_cut: "chunk_len bs < length bs \<Longrightarrow> cuts (take (chunk_len bs) bs)"
  using chunk_len_iff [of bs "chunk_len bs"] by (cases "bs = []") auto

lemma chunk_len_max: "chunk_len bs \<le> MAX_CHUNK"
proof (rule ccontr)
  assume *: "\<not> ?thesis"
  then have "length (take MAX_CHUNK bs) = MAX_CHUNK" using chunk_len_le [of bs] by auto
  moreover have "0 < MAX_CHUNK" by (simp add: MAX_CHUNK_def)
  ultimately show False using * chunk_len_first [of MAX_CHUNK bs] by (simp add: cuts_def)
qed

lemma chunk_len_min: "chunk_len bs < length bs \<Longrightarrow> MIN_CHUNK \<le> chunk_len bs"
  using chunk_len_cut [of bs] by (auto simp: cuts_def chunk_boundary_def MAX_CHUNK_def MIN_CHUNK_def split: if_splits)

text \<open>The chunks make up the content, none is empty or too long, and only the last may be short.\<close>

lemma chunks_of_concat: "concat (chunks_of bs) = bs"
  by (induction bs rule: chunks_of.induct) (subst chunks_of.simps, auto)

lemma chunks_of_sizes: "c \<in> set (chunks_of bs) \<Longrightarrow> c \<noteq> [] \<and> length c \<le> MAX_CHUNK"
proof (induction bs rule: chunks_of.induct)
  case (1 bs)
  then show ?case
    using chunk_len_pos [of bs] chunk_len_le [of bs] chunk_len_max [of bs]
    by (subst (asm) (2) chunks_of.simps) (auto split: if_splits)
qed

lemma chunks_of_short: "c \<in> set (butlast (chunks_of bs)) \<Longrightarrow> MIN_CHUNK \<le> length c"
proof (induction bs rule: chunks_of.induct)
  case (1 bs)
  have ne: "bs \<noteq> []" using "1.prems" by (auto simp: chunks_of.simps)
  let ?rest = "drop (chunk_len bs) bs"
  have split: "chunks_of bs = take (chunk_len bs) bs # chunks_of ?rest"
    using ne by (simp add: chunks_of.simps [of bs])
  show ?case
  proof (cases "?rest = []")
    case True
    then have "chunks_of ?rest = []" by (simp add: chunks_of.simps)
    then show ?thesis using "1.prems" split by simp
  next
    case False
    then have "chunks_of ?rest \<noteq> []" by (simp add: chunks_of.simps [of ?rest])
    then have "c = take (chunk_len bs) bs \<or> c \<in> set (butlast (chunks_of ?rest))"
      using "1.prems" split by auto
    then show ?thesis
    proof
      assume "c = take (chunk_len bs) bs"
      then show ?thesis using False chunk_len_min [of bs] chunk_len_le [of bs] by auto
    next
      assume "c \<in> set (butlast (chunks_of ?rest))"
      with "1.IH" [OF ne] show ?thesis by blast
    qed
  qed
qed

section \<open>The stream yields the reference chunking\<close>

text \<open>No boundary after any of the bytes taken so far.\<close>

definition quiet :: "bytes \<Rightarrow> bool" where
  "quiet bs \<longleftrightarrow> (\<forall>n. 0 < n \<and> n \<le> length bs \<longrightarrow> \<not> chunk_boundary n (gear_hash (take n bs)))"

lemma gear_hash_simps [simp]: "gear_hash [] = 0" "gear_hash (bs @ [v]) = gear_step (gear_hash bs) v"
  by (simp_all add: gear_hash_def)

lemma quiet_Nil [simp]: "quiet []"
  by (simp add: quiet_def)

lemma quiet_snoc:
  "quiet (bs @ [v]) \<longleftrightarrow> quiet bs \<and> \<not> chunk_boundary (Suc (length bs)) (gear_hash (bs @ [v]))"
  by (auto simp: quiet_def le_Suc_eq)

lemma scan_bytes_quiet:
  assumes "quiet out" "scan_bytes out (gear_hash out) offset vs = Inr (out', hash')"
  shows "out' = out @ vs \<and> hash' = gear_hash (out @ vs) \<and> quiet (out @ vs)"
  using assms
proof (induction vs arbitrary: out offset)
  case (Cons v vs)
  from Cons.prems have "\<not> chunk_boundary (Suc (length out)) (gear_hash (out @ [v]))"
      "scan_bytes (out @ [v]) (gear_hash (out @ [v])) (offset + 1) vs = Inr (out', hash')"
    by (auto simp: Let_def split: if_splits)
  with Cons.IH [of "out @ [v]" "offset + 1"] Cons.prems(1) show ?case by (simp add: quiet_snoc)
qed simp

lemma scan_bytes_cut:
  assumes "quiet out" "scan_bytes out (gear_hash out) offset vs = Inl (offset', out')"
  shows "\<exists>ys v zs. vs = ys @ v # zs \<and> offset' = offset + length ys \<and> out' = out @ ys @ [v] \<and>
     quiet (out @ ys) \<and> chunk_boundary (length out') (gear_hash out')"
  using assms
proof (induction vs arbitrary: out offset)
  case (Cons v vs)
  show ?case
  proof (cases "chunk_boundary (Suc (length out)) (gear_hash (out @ [v]))")
    case True
    with Cons.prems show ?thesis by (intro exI [of _ "[]"] exI [of _ v] exI [of _ vs]) (auto simp: Let_def)
  next
    case False
    then obtain ys w zs where "vs = ys @ w # zs" "offset' = offset + 1 + length ys" "out' = (out @ [v]) @ ys @ [w]"
        "quiet ((out @ [v]) @ ys)" "chunk_boundary (length out') (gear_hash out')"
      using Cons.IH [of "out @ [v]" "offset + 1"] Cons.prems by (auto simp: quiet_snoc Let_def)
    then show ?thesis by (intro exI [of _ "v # ys"] exI [of _ w] exI [of _ zs]) auto
  qed
qed simp

lemma quiet_cuts: "quiet bs \<Longrightarrow> length bs \<le> MAX_CHUNK \<Longrightarrow> 0 < m \<Longrightarrow> m < length bs \<Longrightarrow> \<not> cuts (take m bs)"
  by (auto simp: quiet_def cuts_def)

text \<open>When the bytes taken are the first chunk.\<close>

lemma chunk_len_quiet:
  assumes "quiet out" "out \<noteq> []" "length out = MAX_CHUNK \<or> length out < MAX_CHUNK \<and> rest = []"
  shows "chunk_len (out @ rest) = length out"
  using assms quiet_cuts [OF assms(1)] by (subst chunk_len_iff) (auto simp: cuts_def)

lemma chunk_len_boundary:
  assumes "quiet ys" "chunk_boundary (Suc (length ys)) (gear_hash (ys @ [v]))" "length ys < MAX_CHUNK"
  shows "chunk_len (ys @ v # rest) = Suc (length ys)"
proof -
  have "\<not> cuts (take m (ys @ v # rest))" if "0 < m" "m < Suc (length ys)" for m
    using that assms(1,3) by (auto simp: quiet_def cuts_def)
  moreover have "cuts (take (Suc (length ys)) (ys @ v # rest))"
    using assms(2) by (simp add: cuts_def)
  ultimately show ?thesis by (subst chunk_len_iff) auto
qed

text \<open>The bytes that a stream has yet to give, and its invariant.\<close>

definition reader_bytes :: "reader \<Rightarrow> bytes" where
  "reader_bytes r = concat (map (\<lambda>x. case x of Inl _ \<Rightarrow> [] | Inr bs \<Rightarrow> bs) r)"

definition stream_rest :: "chunk_stream \<Rightarrow> bytes" where
  "stream_rest c = drop (cs_position c) (take (cs_filled c) (cs_buffer c)) @ reader_bytes (cs_reader c)"

definition reads_bytes :: "reader \<Rightarrow> bool" where
  "reads_bytes r \<longleftrightarrow> (\<forall>x\<in>set r. \<exists>bs. x = Inr bs \<and> bs \<noteq> [])"

definition stream_ok :: "chunk_stream \<Rightarrow> bool" where
  "stream_ok c \<longleftrightarrow> length (cs_buffer c) = READ_BUFFER \<and> cs_position c \<le> cs_filled c \<and>
     cs_filled c \<le> READ_BUFFER \<and> reads_bytes (cs_reader c) \<and> (cs_eof c \<longrightarrow> stream_rest c = [])"

lemma fill_buffer_ok:
  assumes "stream_ok c" "\<not> cs_eof c"
  obtains c' where "fill_buffer c = (c', Inr ())" "stream_ok c'" "stream_rest c' = stream_rest c"
    "cs_eof c' \<longleftrightarrow> stream_rest c = []" "cs_eof c' \<or> cs_position c' < cs_filled c'"
proof (cases "cs_position c = cs_filled c")
  case False
  then have "stream_rest c \<noteq> []" using assms by (auto simp: stream_ok_def stream_rest_def)
  then show thesis
    using False assms by (intro that [of c]) (auto simp: fill_buffer_def stream_ok_def)
next
  case at_end: True
  then have rest: "stream_rest c = reader_bytes (cs_reader c)" by (simp add: stream_rest_def)
  have buf: "length (cs_buffer c) = READ_BUFFER" "reads_bytes (cs_reader c)" "0 < READ_BUFFER"
    using assms by (auto simp: stream_ok_def READ_BUFFER_def)
  show thesis
  proof (cases "cs_reader c")
    case Nil
    then show thesis
      using at_end buf rest
      by (intro that [of "c\<lparr>cs_reader := [], cs_filled := 0, cs_position := 0, cs_eof := True\<rparr>"])
         (auto simp: fill_buffer_def reader_read_def stream_ok_def stream_rest_def reader_bytes_def reads_bytes_def)
  next
    case (Cons x r)
    then obtain bs where bs: "x = Inr bs" "bs \<noteq> []" "reads_bytes r" using buf by (auto simp: reads_bytes_def)
    let ?got = "take READ_BUFFER bs" and ?left = "drop READ_BUFFER bs"
    let ?r = "(if ?left = [] then [] else [Inr ?left]) @ r"
    let ?c = "c\<lparr>cs_reader := ?r, cs_buffer := ?got @ drop (length ?got) (cs_buffer c),
                cs_filled := length ?got, cs_position := 0, cs_eof := False\<rparr>"
    have "fill_buffer c = (?c, Inr ())"
      using at_end buf Cons bs by (auto simp: fill_buffer_def reader_read_def)
    moreover have "stream_rest ?c = stream_rest c"
      unfolding rest using Cons bs by (simp add: stream_rest_def reader_bytes_def)
    moreover have "stream_ok ?c"
      using buf bs by (auto simp: stream_ok_def reads_bytes_def)
    moreover have "stream_rest c \<noteq> []" using rest Cons bs by (simp add: reader_bytes_def)
    ultimately show thesis using bs buf(3) by (intro that [of ?c]) auto
  qed
qed

lemma stream_advance:
  assumes "stream_ok c" "\<not> cs_eof c" "cs_position c + k \<le> cs_filled c"
  shows "stream_rest c = take k (drop (cs_position c) (cs_buffer c)) @ stream_rest (c\<lparr>cs_position := cs_position c + k\<rparr>)"
    and "stream_ok (c\<lparr>cs_position := cs_position c + k\<rparr>)"
proof -
  let ?p = "cs_position c" and ?f = "cs_filled c" and ?b = "cs_buffer c"
  have "take (k + (?f - ?p - k)) (drop ?p ?b) = take k (drop ?p ?b) @ take (?f - ?p - k) (drop k (drop ?p ?b))"
    by (rule take_add)
  moreover have "k + (?f - ?p - k) = ?f - ?p" using assms(3) by simp
  ultimately have "drop ?p (take ?f ?b) = take k (drop ?p ?b) @ drop (?p + k) (take ?f ?b)"
    by (simp add: drop_take add.commute)
  then show "stream_rest c = take k (drop ?p ?b) @ stream_rest (c\<lparr>cs_position := ?p + k\<rparr>)"
    by (simp add: stream_rest_def)
  show "stream_ok (c\<lparr>cs_position := ?p + k\<rparr>)" using assms by (simp add: stream_ok_def)
qed

definition first_chunk :: "bytes \<Rightarrow> bytes option" where
  "first_chunk bs = (if bs = [] then None else Some (take (chunk_len bs) bs))"

definition yields :: "chunk_stream \<times> bytes option result \<Rightarrow> bytes \<Rightarrow> bool" where
  "yields r bs \<longleftrightarrow> (\<exists>c. r = (c, Inr (first_chunk bs)) \<and> stream_ok c \<and> stream_rest c = drop (chunk_len bs) bs)"

lemma yields_all:
  assumes "stream_ok c" "stream_rest c = rest" "quiet out"
    and "length out = MAX_CHUNK \<or> length out < MAX_CHUNK \<and> rest = []"
  shows "yields (c, Inr (finish_chunk out)) (out @ rest)"
proof (cases "out = []")
  case True
  then have "rest = []" using assms(4) by (auto simp: MAX_CHUNK_def)
  then show ?thesis using assms True by (simp add: yields_def first_chunk_def finish_chunk_def)
next
  case False
  then show ?thesis
    using assms chunk_len_quiet [OF assms(3) False assms(4)]
    by (simp add: yields_def first_chunk_def finish_chunk_def)
qed

lemma boundary_ok:
  assumes "stream_ok c" "\<not> cs_eof c" "quiet out" "length out < MAX_CHUNK" "cs_position c + n \<le> cs_filled c"
    and "length (take n (drop (cs_position c) (cs_buffer c))) = n" "n \<le> MAX_CHUNK - length out"
    and scan: "scan_bytes out (gear_hash out) 0 (take n (drop (cs_position c) (cs_buffer c))) = Inl (offset, out')"
  shows "yields (c\<lparr>cs_position := cs_position c + offset + 1\<rparr>, Inr (Some out')) (out @ stream_rest c)"
proof -
  let ?vs = "take n (drop (cs_position c) (cs_buffer c))"
  obtain ys v zs where y: "?vs = ys @ v # zs" "offset = length ys" "out' = out @ ys @ [v]" "quiet (out @ ys)"
      "chunk_boundary (length out') (gear_hash out')"
    using scan_bytes_cut [OF assms(3) scan] by auto
  have len: "length ys + 1 \<le> n" using arg_cong [OF y(1), of length] assms(6) by simp
  then have "cs_position c + (length ys + 1) \<le> cs_filled c" using assms(5) by simp
  note adv = stream_advance [OF assms(1,2) this]
  have "take (length ys + 1) (drop (cs_position c) (cs_buffer c)) = take (length ys + 1) ?vs"
    using len by (simp add: min_def)
  then have rest: "stream_rest c = ys @ v # stream_rest (c\<lparr>cs_position := cs_position c + (length ys + 1)\<rparr>)"
    using adv(1) y(1) by simp
  have "gear_hash out' = gear_hash ((out @ ys) @ [v])" "length out' = Suc (length (out @ ys))" using y(3) by simp_all
  moreover have "length (out @ ys) < MAX_CHUNK" using len assms(4,7) by simp
  ultimately have "chunk_len ((out @ ys) @ v # stream_rest (c\<lparr>cs_position := cs_position c + (length ys + 1)\<rparr>)) = length out'"
    using chunk_len_boundary [OF y(4)] y(5) by (simp del: gear_hash_simps)
  then show ?thesis using adv(2) rest y(2,3) by (auto simp: yields_def first_chunk_def)
qed

lemma chunk_loop_ok:
  assumes "stream_ok c" "\<not> cs_eof c" "quiet out" "length out \<le> MAX_CHUNK"
  shows "yields (chunk_loop c out (gear_hash out)) (out @ stream_rest c)"
  using assms
proof (induction "MAX_CHUNK - length out" arbitrary: c out rule: less_induct)
  case less
  show ?case
  proof (cases "length out < MAX_CHUNK")
    case False
    then have "length out = MAX_CHUNK" using less.prems(4) by simp
    moreover from this have "chunk_loop c out (gear_hash out) = (c, Inr (finish_chunk out))"
      by (subst chunk_loop.simps) simp
    ultimately show ?thesis using yields_all [OF less.prems(1) refl less.prems(3)] by simp
  next
    case room: True
    obtain c1 where fill: "fill_buffer c = (c1, Inr ())" "stream_ok c1" "stream_rest c1 = stream_rest c"
        "cs_eof c1 \<longleftrightarrow> stream_rest c = []" "cs_eof c1 \<or> cs_position c1 < cs_filled c1"
      by (rule fill_buffer_ok [OF less.prems(1,2)])
    show ?thesis
    proof (cases "cs_eof c1")
      case True
      then have "chunk_loop c out (gear_hash out) = (c1, Inr (finish_chunk out))"
        using room fill(1) by (subst chunk_loop.simps) simp
      then show ?thesis using yields_all [OF fill(2,3) less.prems(3)] room fill(4) True by simp
    next
      case False
      let ?n = "min (cs_filled c1 - cs_position c1) (MAX_CHUNK - length out)"
      let ?vs = "take ?n (drop (cs_position c1) (cs_buffer c1))"
      have pos: "cs_position c1 < cs_filled c1" "cs_filled c1 \<le> length (cs_buffer c1)"
        using fill(2,5) False by (auto simp: stream_ok_def)
      then have len: "length ?vs = ?n" "0 < ?n" using room by auto
      have loop: "chunk_loop c out (gear_hash out) =
          (case scan_bytes out (gear_hash out) 0 ?vs of
             Inl (offset, out) \<Rightarrow> (c1\<lparr>cs_position := cs_position c1 + offset + 1\<rparr>, Inr (Some out))
           | Inr (out, hash) \<Rightarrow> chunk_loop (c1\<lparr>cs_position := cs_position c1 + ?n\<rparr>) out hash)"
        using room fill(1) False pos by (subst chunk_loop.simps) (simp add: Let_def)
      show ?thesis
      proof (cases "scan_bytes out (gear_hash out) 0 ?vs")
        case (Inl r)
        then have "yields (c1\<lparr>cs_position := cs_position c1 + fst r + 1\<rparr>, Inr (Some (snd r))) (out @ stream_rest c1)"
          using boundary_ok [OF fill(2) False less.prems(3) room, of ?n "fst r" "snd r"] pos len by simp
        then show ?thesis using loop Inl fill(3) by (simp add: split_beta)
      next
        case (Inr r)
        then have r: "fst r = out @ ?vs" "snd r = gear_hash (out @ ?vs)" "quiet (out @ ?vs)"
          using scan_bytes_quiet [OF less.prems(3), of 0 ?vs "fst r" "snd r"] by simp_all
        have "cs_position c1 + ?n \<le> cs_filled c1" using pos by simp
        note adv = stream_advance [OF fill(2) False this]
        have size: "length (out @ ?vs) \<le> MAX_CHUNK" "MAX_CHUNK - length (out @ ?vs) < MAX_CHUNK - length out"
          unfolding length_append len(1) using len(2) room by linarith+
        have "yields (chunk_loop (c1\<lparr>cs_position := cs_position c1 + ?n\<rparr>) (out @ ?vs) (gear_hash (out @ ?vs)))
            ((out @ ?vs) @ stream_rest (c1\<lparr>cs_position := cs_position c1 + ?n\<rparr>))"
          by (rule less.hyps [OF size(2) adv(2) _ r(3) size(1)]) (simp add: False)
        moreover have "(out @ ?vs) @ stream_rest (c1\<lparr>cs_position := cs_position c1 + ?n\<rparr>) = out @ stream_rest c"
          using adv(1) fill(3) by (metis append_assoc)
        moreover have "r = (out @ ?vs, gear_hash (out @ ?vs))" using r(1,2) by (metis prod.collapse)
        ultimately show ?thesis unfolding loop Inr by simp
      qed
    qed
  qed
qed

text \<open>The chunks that a stream gives are the reference chunks of the bytes it has yet to give.\<close>

lemma next_chunk_ok: "stream_ok c \<Longrightarrow> yields (next_chunk c) (stream_rest c)"
  using chunk_loop_ok [of c "[]"]
  by (auto simp: next_chunk_def yields_def first_chunk_def stream_ok_def)

lemma all_chunks_ok:
  assumes "stream_ok c" "length (stream_rest c) < fuel"
  shows "all_chunks fuel c = Inr (chunks_of (stream_rest c))"
  using assms
proof (induction fuel arbitrary: c)
  case (Suc n)
  let ?bs = "stream_rest c"
  obtain c' where c': "next_chunk c = (c', Inr (first_chunk ?bs))" "stream_ok c'"
      "stream_rest c' = drop (chunk_len ?bs) ?bs"
    using next_chunk_ok [OF Suc.prems(1)] by (auto simp: yields_def)
  show ?case
  proof (cases "?bs = []")
    case True
    then show ?thesis using c'(1) by (simp add: first_chunk_def chunks_of.simps)
  next
    case False
    then have "length (stream_rest c') < n" using c'(3) chunk_len_pos [OF False] Suc.prems(2) False by (simp add: less_Suc_eq_le diff_less_mono2 less_le_trans [OF diff_less])
    from Suc.IH [OF c'(2) this] show ?thesis
      using c'(1,3) False by (simp add: first_chunk_def chunks_of.simps [of ?bs])
  qed
qed simp

lemma stream_new_ok:
  assumes "\<forall>p\<in>set pieces. p \<noteq> []"
  shows "stream_ok (stream_new (map Inr pieces))" "stream_rest (stream_new (map Inr pieces)) = concat pieces"
  using assms by (auto simp: stream_new_def stream_ok_def stream_rest_def reader_bytes_def reads_bytes_def o_def)

text \<open>
  C40: However the reader hands over the content of a file, in pieces of any length, taking chunks
  from the stream ends and gives the reference chunking of the content. The chunks together are the
  content, none is empty or longer than the maximum, and every chunk but the last has the minimum
  length.
\<close>

theorem stream_chunks:
  assumes "\<forall>p\<in>set pieces. p \<noteq> []" and "length (concat pieces) < fuel"
  shows "\<exists>chunks. all_chunks fuel (stream_new (map Inr pieces)) = Inr chunks \<and>
     chunks = chunks_of (concat pieces) \<and> concat chunks = concat pieces \<and>
     (\<forall>c\<in>set chunks. c \<noteq> [] \<and> length c \<le> MAX_CHUNK) \<and>
     (\<forall>c\<in>set (butlast chunks). MIN_CHUNK \<le> length c)"
  using all_chunks_ok [OF stream_new_ok(1) [OF assms(1)]] stream_new_ok(2) [OF assms(1)] assms(2)
    chunks_of_concat chunks_of_sizes chunks_of_short by simp

theorem stream_chunks_witness:
  "all_chunks 6 (stream_new [Inr ''ab'', Inr ''cde'']) = Inr [''abcde''] \<and>
   all_chunks 6 (stream_new [Inr ''abcd'', Inr ''e'']) = Inr [''abcde'']"
proof -
  have "chunk_len ''abcde'' = 5"
    by (simp add: chunk_len_def cuts_def chunk_boundary_def MIN_CHUNK_def MAX_CHUNK_def upt_rec)
  then have "chunks_of ''abcde'' = [''abcde'']" by (simp add: chunks_of.simps)
  then show ?thesis
    using stream_chunks [of "[''ab'', ''cde'']" 6] stream_chunks [of "[''abcd'', ''e'']" 6] by simp
qed

section \<open>The hash never forgets\<close>

text \<open>
  Rotation keeps every bit, so, unlike in a gear hash that shifts, bytes do not leave the window:
  two chunks whose hashes differ at some point have different hashes after any common bytes.
\<close>

lemma gear_step_inj: "gear_step h v = gear_step h' v \<longleftrightarrow> h = h'"
  by (auto simp: gear_step_def) (metis word_rot_lr)

lemma gear_never_forgets:
  "gear_hash (a @ bs) = gear_hash (a' @ bs) \<longleftrightarrow> gear_hash a = gear_hash a'"
  unfolding gear_hash_def foldl_append
  by (induction bs arbitrary: a a' rule: rev_induct) (simp_all add: gear_step_inj)

end
