(* ===== verification/Workspace_Paths.thy ===== *)
theory Workspace_Paths
  imports Merge_Plan
begin

text \<open>
  Paths of a workspace and which of them an operation may touch: the path functions of
  \<^verbatim>\<open>furrow-core/src/repository.rs\<close>, the capture policy (\<^verbatim>\<open>policy.rs\<close>), the overlay
  (\<^verbatim>\<open>overlay.rs\<close>) and the attributes the system keeps for itself (\<^verbatim>\<open>system_attrs.rs\<close>).

  A path inside the repository is a byte string with \<open>/\<close> between names. The matcher of ignore
  files is an argument, a record of the answers that capture and planning ask of it.
\<close>

section \<open>Components\<close>

text \<open>\<open>Path::components\<close> on Unix: empty names and inner dots are skipped.\<close>

datatype path_component = RootDir | CurDir | ParentDir | Normal bytes

definition component_of :: "bytes \<Rightarrow> path_component list" where
  "component_of name =
     (if name = [] \<or> name = ''.'' then [] else if name = ''..'' then [ParentDir] else [Normal name])"

definition components :: "bytes \<Rightarrow> path_component list" where
  "components path =
     (let names = split_on (CHR ''/'') path;
          rest = concat (map component_of names) in
      if path \<noteq> [] \<and> hd path = CHR ''/'' then RootDir # rest
      else if hd names = ''.'' then CurDir # rest
      else rest)"

type_synonym fpath = "bytes list"

fun normal_names :: "path_component list \<Rightarrow> fpath option" where
  "normal_names [] = Some []"
| "normal_names (Normal name # cs) = map_option ((#) name) (normal_names cs)"
| "normal_names (_ # cs) = None"

definition safe_join :: "bytes \<Rightarrow> fpath result" where
  "safe_join relative = of_opt ''unsafe rewind path'' (normal_names (components relative))"

definition validate_name :: "bytes \<Rightarrow> unit result" where
  "validate_name name =
     ensure (name \<noteq> []) ''empty path component in snapshot''
     (ensure (name \<noteq> ''.'' \<and> name \<noteq> ''..'') ''unsafe path component in snapshot''
     (ensure (CHR 0x00 \<notin> set name \<and> CHR ''/'' \<notin> set name) ''invalid path component in snapshot'' (Inr ())))"

definition split_parent :: "bytes \<Rightarrow> bytes \<times> bytes" where
  "split_parent path =
     (let names = split_on (CHR ''/'') path in (join_with (CHR ''/'') (butlast names), last names))"

definition is_identity_path :: "bytes \<Rightarrow> bool" where
  "is_identity_path path \<longleftrightarrow> path = ''.furrow'' \<or> take 8 path = ''.furrow/''"

text \<open>\<open>Path::starts_with\<close> compares components; a selection is given by its path.\<close>

definition path_starts_with :: "bytes \<Rightarrow> bytes \<Rightarrow> bool" where
  "path_starts_with path base \<longleftrightarrow>
     take (length (components base)) (components path) = components base"

definition selected :: "bytes \<Rightarrow> bytes list \<Rightarrow> bool" where
  "selected path selections \<longleftrightarrow>
     selections = [] \<or>
     list_ex (\<lambda>selection. components path = components selection \<or> path_starts_with path selection) selections"

definition subtree_intersects :: "bytes \<Rightarrow> bytes list \<Rightarrow> bool" where
  "subtree_intersects path selections \<longleftrightarrow>
     selections = [] \<or>
     list_ex (\<lambda>selection. path_starts_with path selection \<or> path_starts_with selection path) selections"

section \<open>The capture policy\<close>

definition MAX_RULES :: nat where "MAX_RULES = 1024"

record matcher =
  mt_excludes :: "bytes \<Rightarrow> bool"
  mt_contains_ignored :: "bytes \<Rightarrow> bool"
  mt_tracked_children :: "bytes \<Rightarrow> bytes list option"

record policy =
  po_excluded :: "bytes list"
  po_gitignore :: bool
  po_matcher :: "matcher option"
  po_virtual :: "bytes option"

definition default_policy :: policy where
  "default_policy = \<lparr>po_excluded = [], po_gitignore = False, po_matcher = None, po_virtual = None\<rparr>"

definition validate_rule :: "bytes \<Rightarrow> unit result" where
  "validate_rule rule =
     ensure (rule \<noteq> []) ''exclude path cannot be empty''
     (ensure (hd rule \<noteq> CHR ''/'') ''exclude path must be relative''
     (ensure (CHR 0x00 \<notin> set rule) ''exclude path contains NUL''
     (ensure (list_all (\<lambda>part. part \<noteq> [] \<and> part \<noteq> ''.'' \<and> part \<noteq> ''..'') (split_on (CHR ''/'') rule))
        ''exclude path contains an unsafe component''
     (let first = hd (split_on (CHR ''/'') rule) in
      ensure (first \<noteq> ''.git'' \<and> first \<noteq> ''.furrow'' \<and> rule \<noteq> ''.furrowpolicy'')
        ''Git and furrow control state cannot be excluded'' (Inr ())))))"

definition from_rules :: "bytes list \<Rightarrow> policy result" where
  "from_rules rules =
     ensure (length rules \<le> MAX_RULES) ''snapshot policy exceeds 1024 rules''
     (rbind (rfold (\<lambda>_ rule. validate_rule rule) () rules) (\<lambda>_.
      Inr (default_policy\<lparr>po_excluded := bs_of rules\<rparr>)))"

definition or_else :: "'a option \<Rightarrow> 'a option \<Rightarrow> 'a option" where
  "or_else a b = (case a of None \<Rightarrow> b | Some _ \<Rightarrow> a)"

definition policy_union :: "policy \<Rightarrow> policy \<Rightarrow> policy" where
  "policy_union p q =
     \<lparr>po_excluded = bs_of (po_excluded p @ po_excluded q),
      po_gitignore = (po_gitignore p \<or> po_gitignore q),
      po_matcher = or_else (po_matcher p) (po_matcher q),
      po_virtual = or_else (po_virtual p) (po_virtual q)\<rparr>"

text \<open>A rule covers its path and everything below it.\<close>

definition covers_path :: "bytes \<Rightarrow> bytes \<Rightarrow> bool" where
  "covers_path rule relative \<longleftrightarrow>
     relative = rule \<or>
     (take (length rule) relative = rule \<and> length rule < length relative \<and> relative ! length rule = CHR ''/'')"

definition is_virtual :: "policy \<Rightarrow> bytes \<Rightarrow> bool" where
  "is_virtual p relative = (case po_virtual p of None \<Rightarrow> False | Some pre \<Rightarrow> covers_path pre relative)"

definition excludes_bytes :: "policy \<Rightarrow> bytes \<Rightarrow> bool" where
  "excludes_bytes p relative =
     (if list_ex (\<lambda>rule. covers_path rule relative) (po_excluded p) then True
      else if is_virtual p relative then False
      else case po_matcher p of None \<Rightarrow> False | Some m \<Rightarrow> mt_excludes m relative)"

definition contains_ignored :: "policy \<Rightarrow> bytes \<Rightarrow> bool" where
  "contains_ignored p relative =
     (if is_virtual p relative then False
      else case po_matcher p of None \<Rightarrow> False | Some m \<Rightarrow> mt_contains_ignored m relative)"

definition tracked_children :: "policy \<Rightarrow> bytes \<Rightarrow> bytes list option" where
  "tracked_children p relative =
     (if is_virtual p relative then None
      else case po_matcher p of None \<Rightarrow> None | Some m \<Rightarrow> mt_tracked_children m relative)"

section \<open>The overlay\<close>

definition overlay_name :: bytes where "overlay_name = ''.cell''"

text \<open>\<open>physical\<close> answers for the overlay's own name and the paths below it.\<close>

definition overlay_physical :: "bytes \<Rightarrow> bool" where
  "overlay_physical relative \<longleftrightarrow>
     take (length overlay_name) relative = overlay_name \<and>
     (case drop (length overlay_name) relative of [] \<Rightarrow> True | c # _ \<Rightarrow> c = CHR ''/'')"

definition in_overlay :: "bool \<Rightarrow> bytes \<Rightarrow> bool" where
  "in_overlay composed raw_path \<longleftrightarrow> composed \<and> overlay_physical raw_path"

section \<open>Attributes the system keeps for itself\<close>

definition MANAGED_NAMES :: "bytes list" where
  "MANAGED_NAMES = [''com.apple.provenance'', ''com.apple.quarantine'', ''com.apple.macl'',
     ''com.apple.lastuseddate#PS'']"

definition MANAGED_PREFIXES :: "bytes list" where
  "MANAGED_PREFIXES = [''com.apple.metadata:'', ''com.apple.diskimages.'']"

definition is_system_managed :: "bytes \<Rightarrow> bool" where
  "is_system_managed name \<longleftrightarrow>
     List.member MANAGED_NAMES name \<or> list_ex (\<lambda>pre. take (length pre) name = pre) MANAGED_PREFIXES"

definition restorable_xattrs :: "xattr_entry list \<Rightarrow> xattr_entry list" where
  "restorable_xattrs entries = filter (\<lambda>e. \<not> is_system_managed (xa_name e)) entries"

section \<open>Valid paths\<close>

text \<open>The paths that trees name: valid names, joined.\<close>

definition valid_name :: "bytes \<Rightarrow> bool" where
  "valid_name name \<longleftrightarrow> name \<noteq> [] \<and> name \<noteq> ''.'' \<and> name \<noteq> ''..'' \<and> CHR 0x00 \<notin> set name \<and> CHR ''/'' \<notin> set name"

definition valid_fpath :: "fpath \<Rightarrow> bool" where
  "valid_fpath p \<longleftrightarrow> p \<noteq> [] \<and> (\<forall>name\<in>set p. valid_name name)"

definition raw :: "fpath \<Rightarrow> bytes" where
  "raw p = join_with (CHR ''/'') p"

lemma validate_name_iff: "validate_name name = Inr () \<longleftrightarrow> valid_name name"
  by (auto simp: validate_name_def valid_name_def)

lemma split_raw [simp]: "valid_fpath p \<Longrightarrow> split_on (CHR ''/'') (raw p) = p"
  by (auto simp: raw_def valid_fpath_def valid_name_def intro!: split_on_join)

lemma raw_inj: "valid_fpath p \<Longrightarrow> valid_fpath q \<Longrightarrow> raw p = raw q \<longleftrightarrow> p = q"
  by (metis split_raw)

lemma raw_hd: "valid_fpath p \<Longrightarrow> raw p \<noteq> [] \<and> hd (raw p) \<noteq> CHR ''/''"
proof -
  assume v: "valid_fpath p"
  then obtain a q where p: "p = a # q" "a \<noteq> []" "CHR ''/'' \<notin> set a"
    by (cases p) (auto simp: valid_fpath_def valid_name_def)
  then show ?thesis by (cases q; cases a) (auto simp: raw_def)
qed

lemma components_raw: "valid_fpath p \<Longrightarrow> components (raw p) = map Normal p"
proof -
  assume v: "valid_fpath p"
  have "concat (map component_of q) = map Normal q" if "\<forall>name\<in>set q. valid_name name" for q
    using that by (induction q) (auto simp: component_of_def valid_name_def)
  moreover have "hd p \<noteq> ''.''" using v by (cases p) (auto simp: valid_fpath_def valid_name_def)
  ultimately show ?thesis using v raw_hd [OF v] by (simp add: components_def valid_fpath_def)
qed

lemma normal_names_map [simp]: "normal_names (map Normal p) = Some p"
  by (induction p) auto

lemma safe_join_raw [simp]: "valid_fpath p \<Longrightarrow> safe_join (raw p) = Inr p"
  by (simp add: safe_join_def components_raw)

lemma path_starts_with_raw:
  "valid_fpath p \<Longrightarrow> valid_fpath q \<Longrightarrow> path_starts_with (raw p) (raw q) \<longleftrightarrow> take (length q) p = q"
  by (auto simp: path_starts_with_def components_raw take_map inj_map_eq_map [of Normal] inj_def)

lemma join_path_raw: "valid_fpath p \<Longrightarrow> join_path (raw p) name = raw (p @ [name])"
proof -
  assume v: "valid_fpath p"
  then have "raw p \<noteq> []" using raw_hd by blast
  moreover have "p \<noteq> [] \<Longrightarrow> join_with c (p @ [name]) = join_with c p @ c # name" for c
    by (induction p rule: join_with.induct) auto
  ultimately show ?thesis using v by (simp add: join_path_def raw_def valid_fpath_def)
qed

lemma raw_single [simp]: "raw [name] = name"
  by (simp add: raw_def)


end
