(* ===== verification/File_Content.thy ===== *)
theory File_Content
  imports Object_Map Chunker_Theorems Workspace_Paths
begin

text \<open>
  The content of files in the store (\<^verbatim>\<open>furrow-core/src/repository.rs\<close>): \<open>store_chunks\<close> cuts a file
  into chunk objects, \<open>capture_xattrs\<close> puts its attributes, \<open>read_file_guarded\<close> puts the blob that
  lists the chunks, and the reading half of
  \<open>restore_file_with_sync\<close> puts the chunks together again.
\<close>

definition sqlite_header :: bytes where "sqlite_header = ''SQLite format 3'' @ [CHR 0x00]"

definition has_header :: "bytes \<Rightarrow> bool" where
  "has_header bs \<longleftrightarrow> take (length sqlite_header) bs = sqlite_header"

record chunked =
  ck_chunks :: "chunk_ref list"
  ck_total_len :: "64 word"
  ck_sqlite :: bool

definition add_chunk :: "chunked \<Rightarrow> object_id \<Rightarrow> bytes \<Rightarrow> chunked" where
  "add_chunk c i chunk =
     \<lparr>ck_chunks = ck_chunks c @ [\<lparr>cr_id = i, cr_len = of_nat (length chunk)\<rparr>],
      ck_total_len = ck_total_len c + of_nat (length chunk),
      ck_sqlite = (if ck_chunks c = [] then has_header chunk else ck_sqlite c)\<rparr>"

fun store_loop :: "nat \<Rightarrow> lib \<Rightarrow> object_map \<Rightarrow> chunk_stream \<Rightarrow> chunked \<Rightarrow> (chunked \<times> object_map) result" where
  "store_loop 0 L s c acc = Inl OutOfFuel"
| "store_loop (Suc n) L s c acc =
     (case next_chunk c of
        (c, Inl e) \<Rightarrow> Inl e
      | (c, Inr None) \<Rightarrow> Inr (acc, s)
      | (c, Inr (Some chunk)) \<Rightarrow>
          rbind (map_put L s Chunk chunk) (\<lambda>(i, s). store_loop n L s c (add_chunk acc i chunk)))"

definition store_chunks :: "nat \<Rightarrow> lib \<Rightarrow> object_map \<Rightarrow> reader \<Rightarrow> (chunked \<times> object_map) result" where
  "store_chunks n L s file =
     store_loop n L s (stream_new file) \<lparr>ck_chunks = [], ck_total_len = 0, ck_sqlite = False\<rparr>"

text \<open>
  The attributes that are content, sorted by name; a file whose attributes may not be listed has
  none. \<open>jx\<close> writes the object that lists them.
\<close>

definition capture_xattrs ::
  "(xattrs \<Rightarrow> bytes) \<Rightarrow> lib \<Rightarrow> object_map \<Rightarrow> xattr_entry list option \<Rightarrow> (object_id option \<times> object_map) result" where
  "capture_xattrs jx L s listed =
     (case listed of
        None \<Rightarrow> Inr (None, s)
      | Some es \<Rightarrow>
          let entries = sort_key xa_name (filter (\<lambda>e. \<not> is_system_managed (xa_name e)) es) in
          if entries = [] then Inr (None, s)
          else rbind (map_put L s Xattrs (jx \<lparr>xs_entries = entries\<rparr>)) (\<lambda>(i, s). Inr (Some i, s)))"

text \<open>
  One attempt to read a file is what it observes: the metadata before, the attributes, the reads,
  the metadata after. A file that changes underneath is read again, three times at most.
\<close>

record stat =
  st_dev :: nat
  st_ino :: nat
  st_len :: nat
  st_mtime :: "int \<times> int"
  st_ctime :: "int \<times> int"
  st_mode :: "32 word"

definition stable_metadata :: "stat \<Rightarrow> stat \<Rightarrow> bool" where
  "stable_metadata before after \<longleftrightarrow>
     st_dev before = st_dev after \<and> st_ino before = st_ino after \<and> st_len before = st_len after \<and>
     st_mtime before = st_mtime after \<and> st_ctime before = st_ctime after \<and> st_mode before = st_mode after"

record attempt =
  at_before :: stat
  at_xattrs :: "xattr_entry list option"
  at_file :: reader
  at_after :: stat

record file_read =
  fr_blob :: object_id
  fr_xattrs :: "object_id option"
  fr_sqlite :: bool
  fr_stat :: stat

fun read_attempts ::
  "nat \<Rightarrow> (xattrs \<Rightarrow> bytes) \<Rightarrow> lib \<Rightarrow> object_map \<Rightarrow> attempt list \<Rightarrow> (file_read \<times> object_map) result" where
  "read_attempts n jx L s [] = Inl (Bail ''file changed repeatedly while being captured'')"
| "read_attempts n jx L s (a # attempts) =
     rbind (capture_xattrs jx L s (at_xattrs a)) (\<lambda>(xattrs, s).
     rbind (store_chunks n L s (at_file a)) (\<lambda>(c, s).
     if stable_metadata (at_before a) (at_after a)
     then rbind (map_put L s Blob (json_blob L \<lparr>bl_chunks = ck_chunks c, bl_total_len = ck_total_len c\<rparr>))
            (\<lambda>(blob, s). Inr (\<lparr>fr_blob = blob, fr_xattrs = xattrs, fr_sqlite = ck_sqlite c, fr_stat = at_after a\<rparr>, s))
     else read_attempts n jx L s attempts))"

definition read_file_guarded ::
  "nat \<Rightarrow> (xattrs \<Rightarrow> bytes) \<Rightarrow> lib \<Rightarrow> object_map \<Rightarrow> attempt list \<Rightarrow> (file_read \<times> object_map) result" where
  "read_file_guarded n jx L s attempts = read_attempts n jx L s (take 3 attempts)"

text \<open>The reading half of a restore.\<close>

definition append_chunk :: "lib \<Rightarrow> object_map \<Rightarrow> bytes \<Rightarrow> chunk_ref \<Rightarrow> bytes result" where
  "append_chunk L s content r =
     rbind (map_read L s (cr_id r) Chunk) (\<lambda>bs.
     ensure (length bs = unat (cr_len r)) ''chunk length mismatch'' (Inr (content @ bs)))"

definition read_blob :: "lib \<Rightarrow> object_map \<Rightarrow> object_id option \<Rightarrow> blob result" where
  "read_blob L s target =
     rbind (of_opt ''file missing blob ID'' target) (\<lambda>i.
     rbind (map_read L s i Blob) (\<lambda>bs. of_opt ''invalid blob'' (parse_blob L bs)))"

definition read_chunks :: "lib \<Rightarrow> object_map \<Rightarrow> blob \<Rightarrow> bytes result" where
  "read_chunks L s blob = rfold (append_chunk L s) [] (bl_chunks blob)"

definition restore_content :: "lib \<Rightarrow> object_map \<Rightarrow> object_id option \<Rightarrow> bytes result" where
  "restore_content L s target = rbind (read_blob L s target) (read_chunks L s)"

section \<open>Capturing and restoring\<close>

text \<open>The blob of a content: its reference chunks.\<close>

definition chunk_refs :: "lib \<Rightarrow> bytes list \<Rightarrow> chunk_ref list" where
  "chunk_refs L cs = map (\<lambda>c. \<lparr>cr_id = object_id L Chunk c, cr_len = of_nat (length c)\<rparr>) cs"

definition blob_of :: "lib \<Rightarrow> bytes \<Rightarrow> blob" where
  "blob_of L content =
     \<lparr>bl_chunks = chunk_refs L (chunks_of content), bl_total_len = of_nat (length content)\<rparr>"

definition blob_id :: "lib \<Rightarrow> bytes \<Rightarrow> object_id" where
  "blob_id L content = object_id L Blob (json_blob L (blob_of L content))"

lemma MAX_CHUNK_fits: "length c \<le> MAX_CHUNK \<Longrightarrow> length c \<le> MAX_OBJECT_LEN \<and> length c < 2 ^ 32"
  by (simp add: MAX_CHUNK_def MAX_OBJECT_LEN_def)

text \<open>What reads before a put reads after it.\<close>

definition keeps :: "lib \<Rightarrow> object_map \<Rightarrow> object_map \<Rightarrow> bool" where
  "keeps L s s' \<longleftrightarrow> (\<forall>i k bs. map_read L s i k = Inr bs \<longrightarrow> map_read L s' i k = Inr bs)"

lemma keeps_refl [simp]: "keeps L s s" and keeps_trans: "keeps L s t \<Longrightarrow> keeps L t u \<Longrightarrow> keeps L s u"
  by (auto simp: keeps_def)

lemma map_put_total:
  assumes "map_inv L s" "length bs \<le> MAX_OBJECT_LEN"
  obtains s' where "map_put L s k bs = Inr (object_id L k bs, s')" "map_inv L s'" "keeps L s s'"
    "map_read L s' (object_id L k bs) k = Inr bs"
proof -
  obtain s' where put: "map_put L s k bs = Inr (object_id L k bs, s')"
    using assms(2) by (cases "s (object_id L k bs)") (auto simp: map_put_def Let_def)
  then show thesis
    using that map_inv_put [OF assms(1) put] map_put_read [OF assms(1) put] map_put_keeps [OF put]
    by (simp add: keeps_def)
qed

lemma store_loop_ok:
  assumes "map_inv L s" "stream_ok c" "length (stream_rest c) < n"
  shows "\<exists>acc' s'. store_loop n L s c acc = Inr (acc', s') \<and> map_inv L s' \<and> keeps L s s' \<and>
     ck_chunks acc' = ck_chunks acc @ chunk_refs L (chunks_of (stream_rest c)) \<and>
     ck_total_len acc' = ck_total_len acc + of_nat (length (stream_rest c)) \<and>
     (\<forall>b\<in>set (chunks_of (stream_rest c)). map_read L s' (object_id L Chunk b) Chunk = Inr b)"
  using assms
proof (induction n arbitrary: s c acc)
  case (Suc n)
  let ?bs = "stream_rest c"
  obtain c' where c': "next_chunk c = (c', Inr (first_chunk ?bs))" "stream_ok c'"
      "stream_rest c' = drop (chunk_len ?bs) ?bs"
    using next_chunk_ok [OF Suc.prems(2)] by (auto simp: yields_def)
  show ?case
  proof (cases "?bs = []")
    case True
    then show ?thesis using c'(1) Suc.prems(1) by (simp add: first_chunk_def chunks_of.simps chunk_refs_def)
  next
    case False
    let ?b = "take (chunk_len ?bs) ?bs" and ?r = "drop (chunk_len ?bs) ?bs"
    have split: "chunks_of ?bs = ?b # chunks_of ?r" using False by (simp add: chunks_of.simps [of ?bs])
    have "length ?b \<le> MAX_OBJECT_LEN" using chunk_len_max [of ?bs] MAX_CHUNK_fits [of ?b] by simp
    then obtain s1 where put: "map_put L s Chunk ?b = Inr (object_id L Chunk ?b, s1)" "map_inv L s1"
        "keeps L s s1" "map_read L s1 (object_id L Chunk ?b) Chunk = Inr ?b"
      by (rule map_put_total [OF Suc.prems(1)])
    have "length (stream_rest c') < n"
      using c'(3) chunk_len_pos [OF False] Suc.prems(3) False
      by (simp add: less_Suc_eq_le diff_less_mono2 less_le_trans [OF diff_less])
    from Suc.IH [OF put(2) c'(2) this, of "add_chunk acc (object_id L Chunk ?b) ?b"]
    obtain acc' s' where r: "store_loop n L s1 c' (add_chunk acc (object_id L Chunk ?b) ?b) = Inr (acc', s')"
        "map_inv L s'" "keeps L s1 s'"
        "ck_chunks acc' = ck_chunks (add_chunk acc (object_id L Chunk ?b) ?b) @ chunk_refs L (chunks_of ?r)"
        "ck_total_len acc' = ck_total_len (add_chunk acc (object_id L Chunk ?b) ?b) + of_nat (length ?r)"
        "\<forall>b\<in>set (chunks_of ?r). map_read L s' (object_id L Chunk b) Chunk = Inr b"
      unfolding c'(3) by blast
    have "store_loop (Suc n) L s c acc = Inr (acc', s')"
      using c'(1) False put(1) r(1) by (simp add: first_chunk_def)
    moreover have "(of_nat (length ?bs) :: 64 word) = of_nat (length ?b) + of_nat (length ?r)"
      using chunk_len_le [of ?bs] by (simp flip: of_nat_add)
    moreover have "map_read L s' (object_id L Chunk ?b) Chunk = Inr ?b"
      using put(4) r(3) by (simp add: keeps_def)
    ultimately show ?thesis
      using r put(3) keeps_trans [OF put(3) r(3)] split by (auto simp: add_chunk_def chunk_refs_def)
  qed
qed simp

lemma restore_chunks:
  assumes "\<forall>b\<in>set cs. map_read L s (object_id L Chunk b) Chunk = Inr b \<and> length b \<le> MAX_CHUNK"
  shows "rfold (append_chunk L s) content (chunk_refs L cs) = Inr (content @ concat cs)"
  using assms
proof (induction cs arbitrary: content)
  case (Cons c cs)
  then have "append_chunk L s content \<lparr>cr_id = object_id L Chunk c, cr_len = of_nat (length c)\<rparr> = Inr (content @ c)"
    using MAX_CHUNK_fits [of c] by (simp add: append_chunk_def unat_of_nat)
  with Cons show ?case by (simp add: chunk_refs_def)
qed (simp add: chunk_refs_def)

text \<open>A store that holds the blob of a content and its chunks.\<close>

definition has_content :: "lib \<Rightarrow> object_map \<Rightarrow> bytes \<Rightarrow> bool" where
  "has_content L s content \<longleftrightarrow>
     map_read L s (blob_id L content) Blob = Inr (json_blob L (blob_of L content)) \<and>
     (\<forall>c\<in>set (chunks_of content). map_read L s (object_id L Chunk c) Chunk = Inr c)"

lemma read_content_ok:
  assumes "json_faithful L" "has_content L s content"
  shows "read_blob L s (Some (blob_id L content)) = Inr (blob_of L content)"
    "read_chunks L s (blob_of L content) = Inr content"
proof -
  show "read_blob L s (Some (blob_id L content)) = Inr (blob_of L content)"
    using assms by (simp add: read_blob_def has_content_def json_faithful_def)
  have "\<forall>b\<in>set (chunks_of content). map_read L s (object_id L Chunk b) Chunk = Inr b \<and> length b \<le> MAX_CHUNK"
    using assms(2) chunks_of_sizes by (auto simp: has_content_def)
  from restore_chunks [OF this, of "[]"] show "read_chunks L s (blob_of L content) = Inr content"
    by (simp add: read_chunks_def blob_of_def chunks_of_concat)
qed

lemma restore_content_ok:
  assumes "json_faithful L" "has_content L s content"
  shows "restore_content L s (Some (blob_id L content)) = Inr content"
  using read_content_ok [OF assms] by (simp add: restore_content_def)

lemma has_content_keeps: "has_content L s content \<Longrightarrow> keeps L s s' \<Longrightarrow> has_content L s' content"
  by (simp add: has_content_def keeps_def)

text \<open>The attributes of a file fit into an object.\<close>

definition xattrs_fit :: "(xattrs \<Rightarrow> bytes) \<Rightarrow> xattr_entry list option \<Rightarrow> bool" where
  "xattrs_fit jx listed \<longleftrightarrow>
     (case listed of
        None \<Rightarrow> True
      | Some es \<Rightarrow> length (jx \<lparr>xs_entries = sort_key xa_name (restorable_xattrs es)\<rparr>) \<le> MAX_OBJECT_LEN)"

lemma capture_xattrs_ok:
  assumes "map_inv L s" "xattrs_fit jx listed"
  obtains x s' where "capture_xattrs jx L s listed = Inr (x, s')" "map_inv L s'" "keeps L s s'"
proof (cases listed)
  case None
  then show thesis using that assms(1) by (simp add: capture_xattrs_def)
next
  case (Some es)
  let ?es = "sort_key xa_name (restorable_xattrs es)"
  let ?bs = "jx \<lparr>xs_entries = ?es\<rparr>"
  have eq: "capture_xattrs jx L s listed =
      (if ?es = [] then Inr (None, s) else rbind (map_put L s Xattrs ?bs) (\<lambda>(i, s). Inr (Some i, s)))"
    by (simp add: Some capture_xattrs_def restorable_xattrs_def Let_def)
  have "length ?bs \<le> MAX_OBJECT_LEN" using assms(2) by (simp add: Some xattrs_fit_def)
  then obtain s' where put: "map_put L s Xattrs ?bs = Inr (object_id L Xattrs ?bs, s')" "map_inv L s'" "keeps L s s'"
    by (rule map_put_total [OF assms(1)])
  show thesis
  proof (cases "?es = []")
    case True
    then show thesis using that [of None s] assms(1) eq by simp
  next
    case False
    then show thesis using that [OF _ put(2,3)] put(1) eq by simp
  qed
qed

text \<open>A stable file is captured as the blob of its content.\<close>

lemma read_attempts_stable:
  assumes "map_inv L s" "stable_metadata before after" "xattrs_fit jx listed" "\<forall>p\<in>set pieces. p \<noteq> []"
    and "length (concat pieces) < n" "length (json_blob L (blob_of L (concat pieces))) \<le> MAX_OBJECT_LEN"
  obtains x q s' where "read_attempts n jx L s
      (\<lparr>at_before = before, at_xattrs = listed, at_file = map Inr pieces, at_after = after\<rparr> # attempts) =
      Inr (\<lparr>fr_blob = blob_id L (concat pieces), fr_xattrs = x, fr_sqlite = q, fr_stat = after\<rparr>, s')"
    "map_inv L s'" "keeps L s s'" "has_content L s' (concat pieces)"
proof -
  let ?c = "concat pieces"
  note new = stream_new_ok [OF assms(4)]
  obtain x s0 where x: "capture_xattrs jx L s listed = Inr (x, s0)" "map_inv L s0" "keeps L s s0"
    by (rule capture_xattrs_ok [OF assms(1,3)])
  obtain acc s1 where st: "store_chunks n L s0 (map Inr pieces) = Inr (acc, s1)" "map_inv L s1" "keeps L s0 s1"
      "ck_chunks acc = chunk_refs L (chunks_of ?c)" "ck_total_len acc = of_nat (length ?c)"
      "\<forall>b\<in>set (chunks_of ?c). map_read L s1 (object_id L Chunk b) Chunk = Inr b"
    using store_loop_ok [OF x(2) new(1), of n "\<lparr>ck_chunks = [], ck_total_len = 0, ck_sqlite = False\<rparr>"] new(2) assms(5)
    by (auto simp: store_chunks_def)
  obtain s' where put: "map_put L s1 Blob (json_blob L (blob_of L ?c)) = Inr (blob_id L ?c, s')" "map_inv L s'"
      "keeps L s1 s'" "map_read L s' (blob_id L ?c) Blob = Inr (json_blob L (blob_of L ?c))"
    unfolding blob_id_def by (rule map_put_total [OF st(2) assms(6)])
  have "has_content L s' ?c" using put(3,4) st(6) by (auto simp: has_content_def keeps_def)
  with that x st(1,4,5) put(1,2) keeps_trans [OF x(3) keeps_trans [OF st(3) put(3)]] assms(2) show thesis
    by (simp add: blob_of_def)
qed

end
