(* ===== verification/File_Theorems.thy ===== *)
theory File_Theorems
  imports File_Content
begin

text \<open>
  Capturing a file and restoring it: the round trip of a content through the store, with the
  attempts that observe a change in between, and that a blob id stands for one content.
\<close>

definition readable :: "nat \<Rightarrow> (xattrs \<Rightarrow> bytes) \<Rightarrow> attempt \<Rightarrow> bool" where
  "readable n jx a \<longleftrightarrow> xattrs_fit jx (at_xattrs a) \<and>
     (\<exists>pieces. at_file a = map Inr pieces \<and> (\<forall>p\<in>set pieces. p \<noteq> []) \<and> length (concat pieces) < n)"

lemma read_attempts_unstable:
  assumes "map_inv L s" "readable n jx a" "\<not> stable_metadata (at_before a) (at_after a)"
  obtains s' where "read_attempts n jx L s (a # attempts) = read_attempts n jx L s' attempts" "map_inv L s'" "keeps L s s'"
proof -
  obtain pieces where p: "at_file a = map Inr pieces" "\<forall>p\<in>set pieces. p \<noteq> []" "length (concat pieces) < n"
    and fit: "xattrs_fit jx (at_xattrs a)" using assms(2) by (auto simp: readable_def)
  obtain x s0 where x: "capture_xattrs jx L s (at_xattrs a) = Inr (x, s0)" "map_inv L s0" "keeps L s s0"
    by (rule capture_xattrs_ok [OF assms(1) fit])
  note new = stream_new_ok [OF p(2)]
  obtain acc s1 where st: "store_chunks n L s0 (map Inr pieces) = Inr (acc, s1)" "map_inv L s1" "keeps L s0 s1"
    using store_loop_ok [OF x(2) new(1), of n "\<lparr>ck_chunks = [], ck_total_len = 0, ck_sqlite = False\<rparr>"] new(2) p(3)
    by (auto simp: store_chunks_def)
  have "read_attempts n jx L s (a # attempts) = read_attempts n jx L s1 attempts"
    using x(1) st(1) p(1) assms(3) by simp
  then show thesis using that st(2) keeps_trans [OF x(3) st(3)] by blast
qed

lemma read_attempts_skip:
  assumes "map_inv L s" "\<forall>a\<in>set us. readable n jx a \<and> \<not> stable_metadata (at_before a) (at_after a)"
  shows "\<exists>s'. read_attempts n jx L s (us @ attempts) = read_attempts n jx L s' attempts \<and> map_inv L s' \<and> keeps L s s'"
  using assms
proof (induction us arbitrary: s)
  case (Cons a us)
  obtain s1 where s1: "read_attempts n jx L s (a # us @ attempts) = read_attempts n jx L s1 (us @ attempts)" "map_inv L s1" "keeps L s s1"
    using read_attempts_unstable [OF Cons.prems(1), of n jx a] Cons.prems(2) by auto
  obtain s2 where "read_attempts n jx L s1 (us @ attempts) = read_attempts n jx L s2 attempts" "map_inv L s2" "keeps L s1 s2"
    using Cons.IH [OF s1(2)] Cons.prems(2) by auto
  then show ?case using s1 keeps_trans [OF s1(3)] by auto
qed (use assms(1) in auto)

section \<open>Blob ids\<close>

lemma chunk_refs_inj:
  assumes "collision_free L" "chunk_refs L cs = chunk_refs L ds"
  shows "cs = ds"
  using assms(2)
proof (induction cs arbitrary: ds)
  case (Cons c cs)
  then obtain d ds' where d: "ds = d # ds'" by (cases ds) (auto simp: chunk_refs_def)
  with Cons have "object_id L Chunk c = object_id L Chunk d" "chunk_refs L cs = chunk_refs L ds'"
    by (simp_all add: chunk_refs_def)
  then show ?case using Cons.IH d assms(1) by (auto simp: collision_free_def)
qed (simp add: chunk_refs_def)

lemma blob_of_inj:
  assumes "collision_free L" "blob_of L a = blob_of L b"
  shows "a = b"
proof -
  have "chunk_refs L (chunks_of a) = chunk_refs L (chunks_of b)" using assms(2) by (simp add: blob_of_def)
  then have "chunks_of a = chunks_of b" by (rule chunk_refs_inj [OF assms(1)])
  then show ?thesis by (metis chunks_of_concat)
qed

lemma blob_id_inj:
  assumes "collision_free L" "json_faithful L" "blob_id L a = blob_id L b"
  shows "a = b"
proof -
  have "json_blob L (blob_of L a) = json_blob L (blob_of L b)"
    using assms(1,3) unfolding blob_id_def collision_free_def by blast
  then have "blob_of L a = blob_of L b" using assms(2) unfolding json_faithful_def by (metis option.inject)
  then show ?thesis by (rule blob_of_inj [OF assms(1)])
qed

section \<open>Properties\<close>

text \<open>
  C20: a captured file is restored byte for byte. When one of the first three attempts to read a
  file sees it unchanged, and the reads succeed however they are split, the capture ends with a blob
  from which a restore puts together exactly the content of that attempt; the blob depends on the
  content only, and everything that could be read before can still be read.
\<close>

theorem file_round_trip:
  assumes "map_inv L s" "json_faithful L"
    and "\<forall>u\<in>set us. readable n jx u \<and> \<not> stable_metadata (at_before u) (at_after u)" "length us \<le> 2"
    and "readable n jx a" "stable_metadata (at_before a) (at_after a)" "at_file a = map Inr pieces"
    and "length (json_blob L (blob_of L (concat pieces))) \<le> MAX_OBJECT_LEN"
  shows "\<exists>r s'. read_file_guarded n jx L s (us @ a # rest) = Inr (r, s') \<and>
     restore_content L s' (Some (fr_blob r)) = Inr (concat pieces) \<and>
     fr_blob r = blob_id L (concat pieces) \<and> map_inv L s' \<and> keeps L s s'"
proof -
  have "take 3 (us @ a # rest) = us @ a # take (2 - length us) rest"
    using assms(4) by (simp add: take_Cons' Suc_diff_le numeral_3_eq_3 numeral_2_eq_2)
  then have read: "read_file_guarded n jx L s (us @ a # rest) = read_attempts n jx L s (us @ a # take (2 - length us) rest)"
    by (simp add: read_file_guarded_def)
  obtain s1 where s1: "read_attempts n jx L s (us @ a # take (2 - length us) rest) =
      read_attempts n jx L s1 (a # take (2 - length us) rest)" "map_inv L s1" "keeps L s s1"
    using read_attempts_skip [OF assms(1,3)] by blast
  obtain ps where ps: "at_file a = map Inr ps" "\<forall>p\<in>set ps. p \<noteq> []" "length (concat ps) < n" "xattrs_fit jx (at_xattrs a)"
    using assms(5) by (auto simp: readable_def)
  have "ps = pieces" using ps(1) assms(7) by (metis inj_Inr map_injective)
  then have pieces: "\<forall>p\<in>set pieces. p \<noteq> []" "length (concat pieces) < n" using ps by auto
  obtain before listed after where a: "a = \<lparr>at_before = before, at_xattrs = listed, at_file = map Inr pieces, at_after = after\<rparr>"
    using assms(7) by (cases a) auto
  have a': "stable_metadata before after" "xattrs_fit jx listed" using assms(6) ps(4) a by auto
  obtain x q s' where r: "read_attempts n jx L s1 (a # take (2 - length us) rest) =
      Inr (\<lparr>fr_blob = blob_id L (concat pieces), fr_xattrs = x, fr_sqlite = q, fr_stat = after\<rparr>, s')"
    "map_inv L s'" "keeps L s1 s'" "has_content L s' (concat pieces)"
    using read_attempts_stable [OF s1(2) a' pieces assms(8)] unfolding a by metis
  have "read_file_guarded n jx L s (us @ a # rest) =
      Inr (\<lparr>fr_blob = blob_id L (concat pieces), fr_xattrs = x, fr_sqlite = q, fr_stat = after\<rparr>, s')"
    unfolding read s1(1) r(1) by simp
  then show ?thesis
    using r(2) restore_content_ok [OF assms(2) r(4)] keeps_trans [OF s1(3) r(3)]
    by (intro exI [of _ "\<lparr>fr_blob = blob_id L (concat pieces), fr_xattrs = x, fr_sqlite = q, fr_stat = after\<rparr>"] exI [of _ s'])
      simp
qed

definition sample_stat :: "nat \<Rightarrow> stat" where
  "sample_stat len = \<lparr>st_dev = 1, st_ino = 7, st_len = len, st_mtime = (0, 0), st_ctime = (0, 0), st_mode = 0x81A4\<rparr>"

definition sample_attempt :: "nat \<Rightarrow> bytes list \<Rightarrow> nat \<Rightarrow> attempt" where
  "sample_attempt l pieces l' = \<lparr>at_before = sample_stat l, at_xattrs = Some [\<lparr>xa_name = ''user.a'', xa_value = ''1''\<rparr>],
     at_file = map Inr pieces, at_after = sample_stat l'\<rparr>"

lemma chunks_of_small: "bs \<noteq> [] \<Longrightarrow> length bs < MIN_CHUNK \<Longrightarrow> chunks_of bs = [bs]"
proof -
  assume bs: "bs \<noteq> []" "length bs < MIN_CHUNK"
  have "chunk_len bs = length bs" using chunk_len_min [of bs] chunk_len_le [of bs] bs(2) by linarith
  then show ?thesis using bs(1) by (simp add: chunks_of.simps)
qed

lemma small_blob:
  assumes "bs \<noteq> []" "length bs < 1000"
  shows "length (json_blob sample_lib (blob_of sample_lib bs)) \<le> MAX_OBJECT_LEN"
proof -
  have "chunks_of bs = [bs]" using assms by (intro chunks_of_small) (simp_all add: MIN_CHUNK_def)
  then have "length (json_blob sample_lib (blob_of sample_lib bs)) \<le> 100000"
    using assms(2)
    by (simp add: blob_of_def chunk_refs_def sample_lib_def c_blob_def c_chunk_ref_def c_iso_def c_pair_def c_list_def
        c_bytes_def c_word_def c_nat_def object_id_def unat_of_nat)
  then show ?thesis by (simp add: MAX_OBJECT_LEN_def)
qed

theorem file_round_trip_witness:
  "\<exists>r s'. read_file_guarded 6 (\<lambda>_. []) sample_lib Map.empty
       ([sample_attempt 2 [''ab''] 5] @ sample_attempt 5 [''ab'', ''cde''] 5 # []) = Inr (r, s') \<and>
     restore_content sample_lib s' (Some (fr_blob r)) = Inr ''abcde'' \<and>
     fr_blob r = blob_id sample_lib ''abcde'' \<and> map_inv sample_lib s' \<and> keeps sample_lib Map.empty s'"
proof -
  have "readable 6 (\<lambda>_. []) (sample_attempt l ps l')" if "length (concat ps) < 6" "[] \<notin> set ps" for l ps l'
    using that by (auto simp: readable_def sample_attempt_def xattrs_fit_def intro!: exI [of _ ps])
  then have r: "readable 6 (\<lambda>_. []) (sample_attempt 2 [''ab''] 5)" "readable 6 (\<lambda>_. []) (sample_attempt 5 [''ab'', ''cde''] 5)"
    by simp_all
  show ?thesis
    using file_round_trip [OF map_inv_empty sample_lib_json, of "[sample_attempt 2 [''ab''] 5]" 6 "\<lambda>_. []"
        "sample_attempt 5 [''ab'', ''cde''] 5" "[''ab'', ''cde'']" "[]"] r small_blob [of "''abcde''"]
    by (simp add: sample_attempt_def sample_stat_def stable_metadata_def)
qed

text \<open>A file that changes during each of three attempts is not captured.\<close>

lemma file_changes_refused:
  assumes "map_inv L s" "\<forall>u\<in>set us. readable n jx u \<and> \<not> stable_metadata (at_before u) (at_after u)" "length us = 3"
  shows "read_file_guarded n jx L s (us @ rest) = Inl (Bail ''file changed repeatedly while being captured'')"
  using read_attempts_skip [OF assms(1,2), of "[]"] assms(3) by (auto simp: read_file_guarded_def)

end
