(* ===== verification/Workspace_Fs.thy ===== *)
theory Workspace_Fs
  imports File_Content
begin

text \<open>
  The directory tree of a workspace on a Unix file system, and the file operations that a restore
  performs on it (\<^verbatim>\<open>furrow-core/src/repository.rs\<close> and \<^verbatim>\<open>platform.rs\<close>).

  A file system maps the names from the workspace root to a node. Modes carry their file type bits,
  as \<open>st_mode\<close> does. Adding, replacing or removing an entry needs the owner's write permission on
  its directory and gives that directory a new modification time. What the operating system
  contributes is an argument: the time, the umask, and the extended attributes it refuses.
\<close>

datatype node_kind = RegularFile bytes | FolderNode | LinkNode bytes | FifoNode | SocketNode | DeviceNode

type_synonym file_time = "int \<times> 32 word"

record node =
  nd_kind :: node_kind
  nd_mode :: "32 word"
  nd_mtime :: file_time
  nd_xattrs :: "(bytes, bytes) btree_map"

type_synonym fs = "(fpath, node) btree_map"

record os =
  os_now :: file_time
  os_umask :: "32 word"
  os_refuses :: "bytes \<Rightarrow> bool"
  os_json_xattrs :: "xattrs \<Rightarrow> bytes"
  os_parse_xattrs :: "bytes \<Rightarrow> xattrs option"

definition PERMISSIONS :: "32 word" where "PERMISSIONS = 0xFFF"
definition OWNER_WRITE :: "32 word" where "OWNER_WRITE = 0x80"
definition S_IFREG :: "32 word" where "S_IFREG = 0x8000"
definition S_IFDIR :: "32 word" where "S_IFDIR = 0x4000"
definition S_IFLNK :: "32 word" where "S_IFLNK = 0xA000"
definition S_IFIFO :: "32 word" where "S_IFIFO = 0x1000"

definition is_folder :: "node \<Rightarrow> bool" where
  "is_folder n \<longleftrightarrow> nd_kind n = FolderNode"

definition is_link :: "node \<Rightarrow> bool" where
  "is_link n = (case nd_kind n of LinkNode _ \<Rightarrow> True | _ \<Rightarrow> False)"

section \<open>System calls\<close>

text \<open>The directory that holds an entry, ready to be changed.\<close>

definition open_parent :: "fs \<Rightarrow> fpath \<Rightarrow> node result" where
  "open_parent fs p =
     rbind (of_opt ''No such file or directory'' (bt_get fs (butlast p))) (\<lambda>d.
     ensure (is_folder d) ''Not a directory''
     (ensure (nd_mode d AND OWNER_WRITE \<noteq> 0) ''Permission denied'' (Inr d)))"

definition touch :: "os \<Rightarrow> fs \<Rightarrow> fpath \<Rightarrow> node \<Rightarrow> fs" where
  "touch E fs p d = bt_insert (butlast p) (d\<lparr>nd_mtime := os_now E\<rparr>) fs"

definition put_node :: "os \<Rightarrow> fs \<Rightarrow> fpath \<Rightarrow> node \<Rightarrow> fs result" where
  "put_node E fs p n = rbind (open_parent fs p) (\<lambda>d. Inr (bt_insert p n (touch E fs p d)))"

definition create_node :: "os \<Rightarrow> fs \<Rightarrow> fpath \<Rightarrow> node \<Rightarrow> fs result" where
  "create_node E fs p n = ensure (bt_get fs p = None) ''File exists'' (put_node E fs p n)"

definition below :: "fpath \<Rightarrow> fpath \<Rightarrow> bool" where
  "below p q \<longleftrightarrow> length p < length q \<and> take (length p) q = p"

definition drop_tree :: "fpath \<Rightarrow> fs \<Rightarrow> fs" where
  "drop_tree p fs = filter (\<lambda>(q, _). \<not> (q = p \<or> below p q)) fs"

text \<open>\<open>remove_dir_all\<close> needs write permission on every directory that it empties.\<close>

definition remove_path :: "os \<Rightarrow> fs \<Rightarrow> fpath \<Rightarrow> fs result" where
  "remove_path E fs p =
     rbind (of_opt ''No such file or directory'' (bt_get fs p)) (\<lambda>n.
     rbind (open_parent fs p) (\<lambda>d.
     if is_folder n
     then rbind (rfold (\<lambda>_ (q, _). if below p q then rbind (open_parent fs q) (\<lambda>_. Inr ()) else Inr ()) () fs)
            (\<lambda>_. Inr (drop_tree p (touch E fs p d)))
     else Inr (drop_tree p (touch E fs p d))))"

definition new_folder :: "os \<Rightarrow> node" where
  "new_folder E = \<lparr>nd_kind = FolderNode, nd_mode = S_IFDIR OR (0x1FF AND NOT (os_umask E)),
     nd_mtime = os_now E, nd_xattrs = []\<rparr>"

definition create_dir_all :: "os \<Rightarrow> fs \<Rightarrow> fpath \<Rightarrow> fs result" where
  "create_dir_all E fs p =
     rfold (\<lambda>fs n. case bt_get fs (take n p) of
       None \<Rightarrow> put_node E fs (take n p) (new_folder E)
     | Some d \<Rightarrow> ensure (is_folder d) ''Not a directory'' (Inr fs)) fs [1..<Suc (length p)]"

definition chmod :: "32 word \<Rightarrow> 32 word \<Rightarrow> 32 word" where
  "chmod old mode = (old AND NOT PERMISSIONS) OR (mode AND PERMISSIONS)"

definition set_mode :: "fs \<Rightarrow> fpath \<Rightarrow> 32 word \<Rightarrow> fs result" where
  "set_mode fs p mode =
     rbind (of_opt ''No such file or directory'' (bt_get fs p)) (\<lambda>n.
     Inr (bt_insert p (n\<lparr>nd_mode := chmod (nd_mode n) mode\<rparr>) fs))"

definition set_mtime :: "fs \<Rightarrow> fpath \<Rightarrow> file_time \<Rightarrow> fs result" where
  "set_mtime fs p t =
     rbind (of_opt ''No such file or directory'' (bt_get fs p)) (\<lambda>n.
     Inr (bt_insert p (n\<lparr>nd_mtime := t\<rparr>) fs))"

section \<open>Restoring entries\<close>

definition entry_mtime :: "tree_entry \<Rightarrow> file_time" where
  "entry_mtime e = (te_mtime_secs e, te_mtime_nanos e)"

definition OWNER_WRITABLE_DIR :: "32 word" where "OWNER_WRITABLE_DIR = 0x1C0"

text \<open>A path below a link is never followed: the walk over its parents refuses the link.\<close>

definition ensure_safe_parent :: "fs \<Rightarrow> fpath \<Rightarrow> unit result" where
  "ensure_safe_parent fs p =
     rfold (\<lambda>_ n. case bt_get fs (take n p) of
        None \<Rightarrow> Inr ()
      | Some d \<Rightarrow> ensure (\<not> is_link d) ''refusing to traverse symlink parent during rewind'' (Inr ()))
       () [1..<length p]"

definition prepare_directory :: "os \<Rightarrow> fs \<Rightarrow> fpath \<Rightarrow> tree_entry \<Rightarrow> fs result" where
  "prepare_directory E fs p e =
     rbind (create_dir_all E fs p) (\<lambda>fs. set_mode fs p (te_mode e OR OWNER_WRITABLE_DIR))"

definition finish_directory :: "fs \<Rightarrow> fpath \<Rightarrow> tree_entry \<Rightarrow> fs result" where
  "finish_directory fs p e =
     rbind (set_mode fs p (te_mode e)) (\<lambda>fs. set_mtime fs p (entry_mtime e))"

text \<open>The attributes of an entry, and what is left of them where some are refused.\<close>

definition read_xattrs :: "os \<Rightarrow> lib \<Rightarrow> object_map \<Rightarrow> object_id option \<Rightarrow> xattr_entry list result" where
  "read_xattrs E L s target =
     (case target of
        None \<Rightarrow> Inr []
      | Some i \<Rightarrow>
          rbind (map_read L s i Xattrs) (\<lambda>bs.
          rbind (of_opt ''invalid xattrs'' (os_parse_xattrs E bs)) (\<lambda>x.
          Inr (restorable_xattrs (xs_entries x)))))"

definition set_xattrs :: "os \<Rightarrow> xattr_entry list \<Rightarrow> (bytes, bytes) btree_map \<Rightarrow> (bytes, bytes) btree_map" where
  "set_xattrs E xs m =
     foldl (\<lambda>m x. if os_refuses E (xa_name x) then m else bt_insert (xa_name x) (xa_value x) m) m xs"

text \<open>
  The file is written under a temporary name in its directory and renamed over the destination.
  A rename does not replace a directory.
\<close>

definition restore_file_with_sync ::
  "os \<Rightarrow> lib \<Rightarrow> object_map \<Rightarrow> fs \<Rightarrow> fpath \<Rightarrow> tree_entry \<Rightarrow> fs result" where
  "restore_file_with_sync E L s fs p e =
     rbind (read_blob L s (te_target e)) (\<lambda>blob.
     rbind (open_parent fs p) (\<lambda>_.
     rbind (read_chunks L s blob) (\<lambda>content.
     rbind (read_xattrs E L s (te_xattrs e)) (\<lambda>xs.
     ensure (case bt_get fs p of None \<Rightarrow> True | Some n \<Rightarrow> \<not> is_folder n) ''Is a directory''
     (put_node E fs p
        \<lparr>nd_kind = RegularFile content, nd_mode = chmod S_IFREG (te_mode e), nd_mtime = entry_mtime e,
         nd_xattrs = set_xattrs E xs []\<rparr>)))))"

definition restore_link :: "os \<Rightarrow> fs \<Rightarrow> fpath \<Rightarrow> tree_entry \<Rightarrow> fs result" where
  "restore_link E fs p e =
     create_node E fs p \<lparr>nd_kind = LinkNode (te_link_target e), nd_mode = S_IFLNK OR 0x1FF,
       nd_mtime = entry_mtime e, nd_xattrs = []\<rparr>"

definition create_fifo :: "os \<Rightarrow> fs \<Rightarrow> fpath \<Rightarrow> 32 word \<Rightarrow> fs result" where
  "create_fifo E fs p mode =
     create_node E fs p \<lparr>nd_kind = FifoNode, nd_mode = S_IFIFO OR (mode AND 0x1FF AND NOT (os_umask E)),
       nd_mtime = os_now E, nd_xattrs = []\<rparr>"

section \<open>Comparing with an entry\<close>

definition kind_matches :: "entry_kind \<Rightarrow> node \<Rightarrow> bool" where
  "kind_matches kind n =
     (case kind of
        File \<Rightarrow> (case nd_kind n of RegularFile _ \<Rightarrow> True | _ \<Rightarrow> False)
      | Directory \<Rightarrow> is_folder n
      | Symlink \<Rightarrow> is_link n
      | Fifo \<Rightarrow> nd_kind n = FifoNode
      | SocketMarker \<Rightarrow> True)"

definition time_matches :: "node \<Rightarrow> tree_entry \<Rightarrow> bool" where
  "time_matches n e \<longleftrightarrow> nd_mtime n = entry_mtime e"

text \<open>
  \<open>xattrs_match_best_effort\<close>: every recorded attribute that differs is set, and one that is refused
  counts as a match.
\<close>

definition xattrs_match_best_effort ::
  "os \<Rightarrow> lib \<Rightarrow> object_map \<Rightarrow> node \<Rightarrow> object_id option \<Rightarrow> (node \<times> bool) result" where
  "xattrs_match_best_effort E L s n expected =
     rbind (read_xattrs E L s expected) (\<lambda>xs.
     Inr (n\<lparr>nd_xattrs := set_xattrs E xs (nd_xattrs n)\<rparr>, True))"

text \<open>
  The content is captured to compare it, which puts its blob into the store again; a file that
  nobody else writes is stable, so one attempt is enough.
\<close>

definition file_script :: "bytes \<Rightarrow> reader" where
  "file_script content = (if content = [] then [] else [Inr content])"

definition listed_xattrs :: "node \<Rightarrow> xattr_entry list" where
  "listed_xattrs n = map (\<lambda>(name, v). \<lparr>xa_name = name, xa_value = v\<rparr>) (nd_xattrs n)"

definition stat_of :: "node \<Rightarrow> nat \<Rightarrow> stat" where
  "stat_of n len = \<lparr>st_dev = 0, st_ino = 0, st_len = len,
     st_mtime = (fst (nd_mtime n), uint (snd (nd_mtime n))), st_ctime = (0, 0), st_mode = nd_mode n\<rparr>"

definition capture_file :: "nat \<Rightarrow> os \<Rightarrow> lib \<Rightarrow> object_map \<Rightarrow> node \<Rightarrow> bytes \<Rightarrow> (object_id \<times> object_map) result" where
  "capture_file fuel E L s n content =
     (let st = stat_of n (length content) in
      rbind (read_file_guarded fuel (os_json_xattrs E) L s
        [\<lparr>at_before = st, at_xattrs = Some (listed_xattrs n), at_file = file_script content, at_after = st\<rparr>])
        (\<lambda>(r, s). Inr (fr_blob r, s)))"

definition content_matches ::
  "nat \<Rightarrow> os \<Rightarrow> lib \<Rightarrow> object_map \<Rightarrow> node \<Rightarrow> tree_entry \<Rightarrow> (object_map \<times> bool) result" where
  "content_matches fuel E L s n e =
     (case nd_kind n of
        RegularFile content \<Rightarrow>
          if length content \<noteq> unat (te_size e) then Inr (s, False)
          else rbind (capture_file fuel E L s n content) (\<lambda>(blob, s).
               Inr (s, Some blob = te_target e))
      | _ \<Rightarrow> Inr (s, True))"

text \<open>A path below something that is not a directory has no metadata, and is not just absent.\<close>

definition not_a_directory :: "fs \<Rightarrow> fpath \<Rightarrow> bool" where
  "not_a_directory fs p \<longleftrightarrow>
     list_ex (\<lambda>n. case bt_get fs (take n p) of None \<Rightarrow> False | Some d \<Rightarrow> \<not> is_folder d) [0..<length p]"

definition path_matches_entry ::
  "nat \<Rightarrow> os \<Rightarrow> lib \<Rightarrow> object_map \<times> fs \<Rightarrow> fpath \<Rightarrow> tree_entry \<Rightarrow> ((object_map \<times> fs) \<times> bool) result" where
  "path_matches_entry fuel E L = (\<lambda>(s, fs) p e.
     case bt_get fs p of
       None \<Rightarrow>
         ensure (\<not> not_a_directory fs p) ''Not a directory'' (Inr ((s, fs), te_kind e = SocketMarker))
     | Some n \<Rightarrow>
         if te_kind e = SocketMarker then Inr ((s, fs), True)
         else if \<not> kind_matches (te_kind e) n then Inr ((s, fs), False)
         else if te_kind e = Symlink then Inr ((s, fs), nd_kind n = LinkNode (te_link_target e))
         else if nd_mode n \<noteq> te_mode e \<or> \<not> time_matches n e then Inr ((s, fs), False)
         else rbind (content_matches fuel E L s n e) (\<lambda>(s, same).
              if \<not> same then Inr ((s, fs), False)
              else if te_kind e = File \<or> te_kind e = Directory
              then rbind (xattrs_match_best_effort E L s n (te_xattrs e)) (\<lambda>(n, same).
                   Inr ((s, bt_insert p n fs), same))
              else Inr ((s, fs), True)))"

end
