(* ===== verification/Rewind.thy ===== *)
theory Rewind
  imports Workspace_Fs
begin

text \<open>
  Rewinding a workspace to a snapshot (\<^verbatim>\<open>furrow-core/src/repository.rs\<close>): comparing the captured
  tree with the target, planning the changes, looking up their entries, applying them to the
  directory tree and verifying the result. The trees are read from the object map; the fuel bounds
  the depth and the size of the trees that are read.
\<close>

record rewind_change =
  rc_path :: bytes
  rc_action :: string

record held_path =
  hp_path :: bytes
  hp_twin :: bytes

record rewind_plan =
  rp_target :: string
  rp_current_tree :: "string option"
  rp_changes :: "rewind_change list"
  rp_preview_digest :: string
  rp_held :: "held_path list"

section \<open>Comparing two trees\<close>

definition directory_target_only_difference :: "tree_entry option \<Rightarrow> tree_entry option \<Rightarrow> bool" where
  "directory_target_only_difference before after =
     (case (before, after) of
        (Some b, Some a) \<Rightarrow>
          te_kind b = Directory \<and> te_kind a = Directory \<and> b\<lparr>te_target := None\<rparr> = a\<lparr>te_target := None\<rparr>
      | _ \<Rightarrow> False)"

definition subtree_of :: "tree_entry option \<Rightarrow> object_id option" where
  "subtree_of e = (case e of None \<Rightarrow> None | Some e \<Rightarrow> if te_kind e = Directory then te_target e else None)"

definition change_action :: "tree_entry option \<Rightarrow> tree_entry option \<Rightarrow> string" where
  "change_action before after =
     (if before = None then ''restore'' else if after = None then ''remove'' else ''replace'')"

text \<open>
  \<open>diff_directory\<close> and \<open>record_tree_difference\<close> call one another. The second takes the comparison of
  the subdirectories as an argument.
\<close>

definition record_tree_difference ::
  "(object_id option \<Rightarrow> object_id option \<Rightarrow> bytes \<Rightarrow> rewind_change list \<Rightarrow> rewind_change list result) \<Rightarrow>
   bytes \<Rightarrow> bytes list \<Rightarrow> rewind_change list \<Rightarrow> tree_entry option \<Rightarrow> tree_entry option \<Rightarrow> rewind_change list result" where
  "record_tree_difference subdirectories pre selections changes before after =
     rbind (of_opt ''tree difference has no entry''
              (map_option te_name (or_else before after))) (\<lambda>name.
     rbind (validate_name name) (\<lambda>_.
     let path = join_path pre name in
     if before = None \<and> (case after of None \<Rightarrow> False | Some e \<Rightarrow> te_kind e = SocketMarker) then Inr changes
     else
       let parent_selected = selected path selections;
           start = length changes;
           changes = (if parent_selected
                      then changes @ [\<lparr>rc_path = path, rc_action = change_action before after\<rparr>] else changes) in
       rbind (if subtree_intersects path selections \<and> (subtree_of before \<noteq> None \<or> subtree_of after \<noteq> None)
              then subdirectories (subtree_of before) (subtree_of after) path changes
              else Inr changes) (\<lambda>changes.
       if parent_selected \<and> length changes = start + 1 \<and> directory_target_only_difference before after
       then Inr (butlast changes) else Inr changes)))"

fun diff_directory ::
  "'s read_tree \<Rightarrow> nat \<Rightarrow> 's \<Rightarrow> bytes list \<Rightarrow> object_id option \<Rightarrow> object_id option \<Rightarrow> bytes \<Rightarrow>
   rewind_change list \<Rightarrow> rewind_change list result" where
  "diff_directory read 0 s selections before after pre changes = Inl OutOfFuel"
| "diff_directory read (Suc n) s selections before after pre changes =
     (case (before, after) of
        (Some b, Some a) \<Rightarrow>
          diff_entries read n s b a (record_tree_difference (diff_directory read n s selections) pre selections) changes
      | (Some b, None) \<Rightarrow>
          for_each_entry read n s b (\<lambda>changes entry.
            record_tree_difference (diff_directory read n s selections) pre selections changes (Some entry) None) changes
      | (None, Some a) \<Rightarrow>
          for_each_entry read n s a (\<lambda>changes entry.
            record_tree_difference (diff_directory read n s selections) pre selections changes None (Some entry)) changes
      | (None, None) \<Rightarrow> Inr changes)"

section \<open>Looking up paths\<close>

fun lookup_components ::
  "'s read_tree \<Rightarrow> nat \<Rightarrow> 's \<Rightarrow> object_id \<Rightarrow> bytes list \<Rightarrow> tree_entry option result" where
  "lookup_components read n s tree [] = Inr None"
| "lookup_components read n s tree (name # names) =
     rbind (validate_name name) (\<lambda>_.
     rbind (find_entry read n s tree name) (\<lambda>found.
     case found of
       None \<Rightarrow> Inr None
     | Some entry \<Rightarrow>
         if names = [] then Inr (Some entry)
         else if te_kind entry \<noteq> Directory then Inr None
         else rbind (of_opt ''directory missing tree ID'' (te_target entry)) (\<lambda>t.
              lookup_components read n s t names)))"

definition lookup_tree_path ::
  "'s read_tree \<Rightarrow> nat \<Rightarrow> 's \<Rightarrow> object_id \<Rightarrow> bytes \<Rightarrow> tree_entry option result" where
  "lookup_tree_path read n s root path = lookup_components read n s root (split_on (CHR ''/'') path)"

type_synonym flat_entries = "(bytes, tree_entry) btree_map"

definition entries_for_plan ::
  "'s read_tree \<Rightarrow> nat \<Rightarrow> 's \<Rightarrow> object_id \<Rightarrow> rewind_change list \<Rightarrow> flat_entries result" where
  "entries_for_plan read n s root changes =
     rfold (\<lambda>entries c.
       if rc_action c = ''remove'' then Inr entries
       else rbind (lookup_tree_path read n s root (rc_path c)) (\<lambda>found.
            rbind (of_opt (''target snapshot is missing '' @ rc_path c) found) (\<lambda>e.
            Inr (bt_insert (rc_path c) e entries)))) [] changes"

definition entries_for_changed_paths ::
  "'s read_tree \<Rightarrow> nat \<Rightarrow> 's \<Rightarrow> object_id \<Rightarrow> rewind_change list \<Rightarrow> flat_entries result" where
  "entries_for_changed_paths read n s root changes =
     rfold (\<lambda>entries c.
       rbind (lookup_tree_path read n s root (rc_path c)) (\<lambda>found.
       case found of None \<Rightarrow> Inr entries | Some e \<Rightarrow> Inr (bt_insert (rc_path c) e entries))) [] changes"

section \<open>Paths that cannot be kept apart\<close>

text \<open>\<open>fold_key\<close> is \<open>NameFolding::key\<close>, if the file system folds names at all.\<close>

definition kept_names ::
  "'s read_tree \<Rightarrow> nat \<Rightarrow> 's \<Rightarrow> object_id \<Rightarrow> bytes \<Rightarrow> (bytes \<Rightarrow> bytes) \<Rightarrow> (bytes, bytes) btree_map result" where
  "kept_names read n s target_root parent fold_key =
     rbind (if parent = [] then Inr (Some target_root)
            else rbind (lookup_tree_path read n s target_root parent) (\<lambda>found.
                 Inr (Option.bind found te_target))) (\<lambda>tree.
     case tree of
       None \<Rightarrow> Inr []
     | Some t \<Rightarrow> for_each_entry read n s t (\<lambda>kept e.
         Inr (if bt_get kept (fold_key (te_name e)) = None
              then bt_insert (fold_key (te_name e)) (te_name e) kept else kept)) [])"

definition colliding_paths_at ::
  "'s read_tree \<Rightarrow> nat \<Rightarrow> 's \<Rightarrow> object_id \<Rightarrow> (bytes \<Rightarrow> bytes) option \<Rightarrow> rewind_change list \<Rightarrow> held_path list result" where
  "colliding_paths_at read n s target_root name_folding changes =
     (case name_folding of
        None \<Rightarrow> Inr []
      | Some fold_key \<Rightarrow>
          rfold (\<lambda>held c.
            let (parent, name) = split_parent (rc_path c) in
            rbind (kept_names read n s target_root parent fold_key) (\<lambda>kept.
            case bt_get kept (fold_key name) of
              Some twin \<Rightarrow>
                if twin \<noteq> name
                then Inr (held @ [\<lparr>hp_path = rc_path c, hp_twin = join_path parent twin\<rparr>]) else Inr held
            | None \<Rightarrow> Inr held)) [] (filter (\<lambda>c. rc_action c \<noteq> ''remove'') changes))"

definition held_covers :: "held_path \<Rightarrow> bytes \<Rightarrow> bool" where
  "held_covers h path = covers_path (hp_path h) path"

section \<open>The plan\<close>

definition rewind_preview_digest :: "lib \<Rightarrow> string \<Rightarrow> string option \<Rightarrow> rewind_change list \<Rightarrow> string" where
  "rewind_preview_digest L target current_tree changes =
     hex_encode (blake3 L (''furrow:rewind-preview:v1'' @ [CHR 0x00] @ target @ [CHR 0x00]
       @ (case current_tree of None \<Rightarrow> [] | Some t \<Rightarrow> t)
       @ concat (map (\<lambda>c. [CHR 0x00] @ rc_action c @ [CHR 0x00] @ rc_path c) changes)))"

definition may_touch :: "policy \<Rightarrow> bool \<Rightarrow> rewind_change \<Rightarrow> bool" where
  "may_touch protected composed c \<longleftrightarrow>
     rc_path c \<noteq> ''.furrow'' \<and> \<not> is_identity_path (rc_path c) \<and>
     \<not> excludes_bytes protected (rc_path c) \<and> \<not> contains_ignored protected (rc_path c) \<and>
     \<not> in_overlay composed (rc_path c)"

text \<open>
  \<open>plan_rewind\<close>: the paths whose content the store does not hold, the capture policy, the current
  tree and the folding of names are arguments.
\<close>

definition plan_rewind ::
  "lib \<Rightarrow> nat \<Rightarrow> object_map \<Rightarrow> bytes list \<Rightarrow> policy \<Rightarrow> bool \<Rightarrow> (bytes \<Rightarrow> bytes) option \<Rightarrow> object_id \<Rightarrow> object_id \<Rightarrow>
   bytes list \<Rightarrow> rewind_plan result" where
  "plan_rewind L n s missing current_policy composed name_folding current_tree target paths =
     (let unavailable = filter (\<lambda>p. selected p paths) missing in
      ensure (unavailable = []) ''snapshot is partial and cannot restore selected paths''
     (rbind (map_read L s target Snapshot) (\<lambda>bs.
      rbind (of_opt ''invalid snapshot'' (parse_snapshot L bs)) (\<lambda>snap.
      rbind (from_rules (sn_excluded_paths snap)) (\<lambda>target_policy.
      let protected = policy_union current_policy target_policy in
      rbind (diff_directory (map_read_tree L) n s paths (Some current_tree) (Some (sn_root_tree snap)) [] [])
        (\<lambda>changes.
      let changes = filter (may_touch protected composed) changes in
      rbind (colliding_paths_at (map_read_tree L) n s (sn_root_tree snap) name_folding changes) (\<lambda>held.
      let changes = filter (\<lambda>c. \<not> list_ex (\<lambda>h. held_covers h (rc_path c)) held) changes in
      Inr \<lparr>rp_target = id_hex target, rp_current_tree = Some (id_hex current_tree), rp_changes = changes,
           rp_preview_digest = rewind_preview_digest L (id_hex target) (Some (id_hex current_tree)) changes,
           rp_held = held\<rparr>)))))))"

section \<open>Applying a plan\<close>

definition apply_directory ::
  "os \<Rightarrow> bytes list \<Rightarrow> bytes list \<Rightarrow> fs \<Rightarrow> bytes \<times> tree_entry \<Rightarrow> fs result" where
  "apply_directory E changed paths = (\<lambda>fs (path, e).
     if \<not> List.member changed path \<or> \<not> selected path paths \<or> te_kind e \<noteq> Directory then Inr fs
     else rbind (safe_join path) (\<lambda>p.
          rbind (ensure_safe_parent fs p) (\<lambda>_.
          rbind (case bt_get fs p of
                   None \<Rightarrow> Inr fs
                 | Some n \<Rightarrow> if is_folder n then Inr fs else remove_path E fs p) (\<lambda>fs.
          prepare_directory E fs p e))))"

definition apply_entry ::
  "os \<Rightarrow> lib \<Rightarrow> object_map \<Rightarrow> bytes list \<Rightarrow> bytes list \<Rightarrow> fs \<Rightarrow> bytes \<times> tree_entry \<Rightarrow> fs result" where
  "apply_entry E L s changed paths = (\<lambda>fs (path, e).
     if \<not> List.member changed path \<or> \<not> selected path paths \<or> te_kind e = Directory then Inr fs
     else rbind (safe_join path) (\<lambda>p.
          rbind (ensure_safe_parent fs p) (\<lambda>_.
          rbind (create_dir_all E fs (butlast p)) (\<lambda>fs.
          rbind (case bt_get fs p of
                   None \<Rightarrow> Inr fs
                 | Some n \<Rightarrow> if is_folder n \<or> te_kind e \<noteq> File \<or> is_link n then remove_path E fs p else Inr fs) (\<lambda>fs.
          case te_kind e of
            File \<Rightarrow> restore_file_with_sync E L s fs p e
          | Symlink \<Rightarrow> restore_link E fs p e
          | Fifo \<Rightarrow> create_fifo E fs p (te_mode e)
          | _ \<Rightarrow> Inr fs)))))"

definition apply_removal :: "os \<Rightarrow> bytes list \<Rightarrow> fs \<Rightarrow> bytes \<Rightarrow> fs result" where
  "apply_removal E paths = (\<lambda>fs path.
     if selected path paths
     then rbind (safe_join path) (\<lambda>p.
          rbind (ensure_safe_parent fs p) (\<lambda>_.
          if bt_get fs p = None then Inr fs else remove_path E fs p))
     else Inr fs)"

definition apply_finish :: "bytes list \<Rightarrow> bytes list \<Rightarrow> fs \<Rightarrow> bytes \<times> tree_entry \<Rightarrow> fs result" where
  "apply_finish changed paths = (\<lambda>fs (path, e).
     if \<not> List.member changed path \<or> \<not> selected path paths \<or> te_kind e \<noteq> Directory then Inr fs
     else rbind (safe_join path) (\<lambda>p. finish_directory fs p e))"

text \<open>Longest first; paths of one length keep the order of the plan.\<close>

definition removals :: "rewind_change list \<Rightarrow> bytes list" where
  "removals changes =
     sort_key (\<lambda>path. - int (length path))
       (map rc_path (filter (\<lambda>c. rc_action c = ''remove'') changes))"

definition apply_plan_at ::
  "os \<Rightarrow> lib \<Rightarrow> object_map \<Rightarrow> fs \<Rightarrow> flat_entries \<Rightarrow> rewind_change list \<Rightarrow> bytes list \<Rightarrow> fs result" where
  "apply_plan_at E L s fs target changes paths =
     (let changed = map rc_path changes in
      rbind (rfold (apply_directory E changed paths) fs target) (\<lambda>fs.
      rbind (rfold (apply_entry E L s changed paths) fs target) (\<lambda>fs.
      rbind (rfold (apply_removal E paths) fs (removals changes)) (\<lambda>fs.
      rfold (apply_finish changed paths) fs (rev target)))))"

definition verify_change ::
  "nat \<Rightarrow> os \<Rightarrow> lib \<Rightarrow> flat_entries \<Rightarrow> bytes list \<Rightarrow> object_map \<times> fs \<Rightarrow> rewind_change \<Rightarrow> (object_map \<times> fs) result" where
  "verify_change fuel E L expected paths = (\<lambda>(s, fs) c.
     if rc_path c = ''.furrow'' \<or> is_identity_path (rc_path c) \<or> \<not> selected (rc_path c) paths then Inr (s, fs)
     else rbind (safe_join (rc_path c)) (\<lambda>p.
          rbind (ensure_safe_parent fs p) (\<lambda>_.
          rbind (case bt_get expected (rc_path c) of
                   Some e \<Rightarrow> path_matches_entry fuel E L (s, fs) p e
                 | None \<Rightarrow> Inr ((s, fs), bt_get fs p = None)) (\<lambda>(st, same).
          ensure same (''workspace path changed during rewind: '' @ rc_path c) (Inr st)))))"

definition verify_plan_state ::
  "nat \<Rightarrow> os \<Rightarrow> lib \<Rightarrow> object_map \<times> fs \<Rightarrow> flat_entries \<Rightarrow> rewind_change list \<Rightarrow> bytes list \<Rightarrow> (object_map \<times> fs) result" where
  "verify_plan_state fuel E L st expected changes paths =
     rfold (verify_change fuel E L expected paths) st changes"

text \<open>
  The steps of \<open>rewind\<close> between the plan and the removal of the restore intent: the workspace must
  still be as it was captured, the plan is applied, and the result is verified. The snapshot records
  no hard links and no database backups are asked for, so neither is put back.
\<close>

definition rewind_steps ::
  "nat \<Rightarrow> os \<Rightarrow> lib \<Rightarrow> object_map \<times> fs \<Rightarrow> object_id \<Rightarrow> object_id \<Rightarrow> rewind_change list \<Rightarrow> bytes list \<Rightarrow>
   (object_map \<times> fs) result" where
  "rewind_steps fuel E L st current target changes paths =
     rbind (entries_for_changed_paths (map_read_tree L) fuel (fst st) current changes) (\<lambda>pre_entries.
     rbind (entries_for_plan (map_read_tree L) fuel (fst st) target changes) (\<lambda>target_entries.
     rbind (verify_plan_state fuel E L st pre_entries changes paths) (\<lambda>(s, fs).
     rbind (apply_plan_at E L s fs target_entries changes paths) (\<lambda>fs.
     verify_plan_state fuel E L (s, fs) target_entries changes paths))))"

end
