(* ===== verification/Rewind_Apply.thy ===== *)
theory Rewind_Apply
  imports Rewind
begin

text \<open>
  What the four passes of \<open>apply_plan_at\<close> do to a directory tree: the directories of the target are
  created and opened for writing, its other entries are restored, what the target lacks is removed,
  and the directories get their recorded mode and time.
\<close>

section \<open>Modes\<close>

lemma word_ao_split: "(m AND k) OR (m AND NOT k) = m" for m k :: "'a::len word"
  by (rule bit_word_eqI) (auto simp: bit_simps)

lemma chmod_same: "old AND NOT PERMISSIONS = mode AND NOT PERMISSIONS \<Longrightarrow> chmod old mode = mode"
  by (simp add: chmod_def word_ao_split or.commute)

lemma chmod_type [simp]: "chmod old mode AND NOT PERMISSIONS = old AND NOT PERMISSIONS"
  by (rule bit_word_eqI) (auto simp: chmod_def bit_simps)

lemma chmod_type_only: "t AND NOT PERMISSIONS = t \<Longrightarrow> mode AND NOT PERMISSIONS = t \<Longrightarrow> chmod t mode = mode"
  by (rule chmod_same) simp

lemma chmod_write: "mode AND OWNER_WRITE \<noteq> 0 \<Longrightarrow> chmod old mode AND OWNER_WRITE \<noteq> 0"
proof -
  have "PERMISSIONS AND OWNER_WRITE = OWNER_WRITE" "NOT PERMISSIONS AND OWNER_WRITE = 0"
    by (simp_all add: PERMISSIONS_def OWNER_WRITE_def)
  then have "chmod old mode AND OWNER_WRITE = mode AND OWNER_WRITE"
    by (simp add: chmod_def word_bw_assocs word_ao_dist)
  then show "mode AND OWNER_WRITE \<noteq> 0 \<Longrightarrow> ?thesis" by simp
qed

lemma owner_writable: "(mode OR OWNER_WRITABLE_DIR) AND OWNER_WRITE \<noteq> 0"
proof -
  have "OWNER_WRITABLE_DIR AND OWNER_WRITE = OWNER_WRITE"
    by (simp add: OWNER_WRITABLE_DIR_def OWNER_WRITE_def)
  then have "(mode OR OWNER_WRITABLE_DIR) AND OWNER_WRITE = (mode AND OWNER_WRITE) OR OWNER_WRITE"
    by (simp add: word_ao_dist)
  also have "\<dots> = OWNER_WRITE" by (rule bit_word_eqI) (auto simp: bit_simps)
  finally show ?thesis by (simp add: OWNER_WRITE_def)
qed

definition folder_ok :: "node \<Rightarrow> bool" where
  "folder_ok n \<longleftrightarrow> is_folder n \<and> nd_mode n AND OWNER_WRITE \<noteq> 0 \<and> nd_mode n AND NOT PERMISSIONS = S_IFDIR"

lemma folder_ok_time [simp]: "folder_ok (n\<lparr>nd_mtime := t\<rparr>) = folder_ok n"
  by (simp add: folder_ok_def is_folder_def)

section \<open>What the operations do to the tree\<close>

lemma open_parent_ok: "bt_get fs (butlast p) = Some d \<Longrightarrow> folder_ok d \<Longrightarrow> open_parent fs p = Inr d"
  by (simp add: open_parent_def folder_ok_def)

lemma touch_get: "bt_get (touch E fs p d) = (bt_get fs)(butlast p \<mapsto> d\<lparr>nd_mtime := os_now E\<rparr>)"
  by (simp add: touch_def bt_get_insert)

lemma put_node_ok:
  assumes "bt_get fs (butlast p) = Some d" "folder_ok d"
  obtains fs' where "put_node E fs p n = Inr fs'"
    "bt_get fs' = (bt_get fs)(butlast p \<mapsto> d\<lparr>nd_mtime := os_now E\<rparr>, p \<mapsto> n)"
  using that open_parent_ok [OF assms] by (simp add: put_node_def bt_get_insert touch_get)

lemma drop_tree_get: "bt_get (drop_tree p fs) q = (if q = p \<or> below p q then None else bt_get fs q)"
  by (induction fs) (auto simp: drop_tree_def)

lemma below_butlast: "p \<noteq> [] \<Longrightarrow> \<not> (butlast p = p \<or> below p (butlast p))"
  by (cases p rule: rev_cases) (auto simp: below_def)

lemma remove_path_ok:
  assumes "bt_get fs p = Some n" "bt_get fs (butlast p) = Some d" "folder_ok d"
    and "\<And>q m. is_folder n \<Longrightarrow> below p q \<Longrightarrow> bt_get fs q = Some m \<Longrightarrow>
       \<exists>d. bt_get fs (butlast q) = Some d \<and> is_folder d \<and> nd_mode d AND OWNER_WRITE \<noteq> 0"
  obtains fs' where "remove_path E fs p = Inr fs'"
    "bt_get fs' = (\<lambda>q. if q = p \<or> below p q then None
       else ((bt_get fs)(butlast p \<mapsto> d\<lparr>nd_mtime := os_now E\<rparr>)) q)"
proof -
  let ?step = "\<lambda>_ (q, _). if below p q then rbind (open_parent fs q) (\<lambda>_. Inr ()) else Inr ()"
  have "rfold ?step () xs = Inr ()" if "is_folder n" "set xs \<subseteq> set fs" for xs
    using that(2)
  proof (induction xs)
    case (Cons x xs)
    obtain q m where x: "x = (q, m)" by (cases x)
    then have "(q, m) \<in> set fs" using Cons.prems by auto
    then have "bt_get fs q \<noteq> None" unfolding map_of_eq_None_iff by (metis fst_conv image_eqI)
    then obtain y where y: "bt_get fs q = Some y" by auto
    have "open_parent fs q = Inr d'" if "bt_get fs (butlast q) = Some d'" "is_folder d'" "nd_mode d' AND OWNER_WRITE \<noteq> 0" for d'
      using that by (simp add: open_parent_def)
    then have "?step () x = Inr ()"
      using assms(4) [OF that(1) _ y] x by fastforce
    with Cons show ?case by simp
  qed simp
  then have "remove_path E fs p = Inr (drop_tree p (touch E fs p d))"
    using assms(1) open_parent_ok [OF assms(2,3)] by (simp add: remove_path_def)
  with that show thesis by (auto simp: drop_tree_get touch_get fun_eq_iff)
qed

text \<open>A path whose parents are all folders.\<close>

definition parents_ok :: "(fpath \<rightharpoonup> node) \<Rightarrow> fpath \<Rightarrow> bool" where
  "parents_ok G p \<longleftrightarrow> (\<forall>q. below q p \<and> q \<noteq> [] \<longrightarrow> (\<exists>d. G q = Some d \<and> is_folder d))"

lemma below_take: "0 < n \<Longrightarrow> n < length p \<Longrightarrow> below (take n p) p \<and> take n p \<noteq> []"
  by (auto simp: below_def)

lemma rfold_unchanged:
  assumes "\<And>x. x \<in> set xs \<Longrightarrow> f v x = Inr v"
  shows "rfold f v xs = Inr v"
  using assms by (induction xs) auto

lemma ensure_safe_parent_ok:
  assumes "\<And>q d. below q p \<Longrightarrow> q \<noteq> [] \<Longrightarrow> bt_get fs q = Some d \<Longrightarrow> \<not> is_link d"
  shows "ensure_safe_parent fs p = Inr ()"
  unfolding ensure_safe_parent_def
proof (rule rfold_unchanged, goal_cases)
  case (1 n)
  then show ?case using assms [of "take n p"] below_take [of n p] by (auto split: option.split)
qed

lemma folder_not_link: "is_folder d \<Longrightarrow> \<not> is_link d"
  by (simp add: is_folder_def is_link_def)

lemma ensure_safe_parent_folders: "parents_ok (bt_get fs) p \<Longrightarrow> ensure_safe_parent fs p = Inr ()"
  by (rule ensure_safe_parent_ok) (auto simp: parents_ok_def folder_not_link)

lemma create_dir_all_exists:
  assumes "parents_ok (bt_get fs) p" "p \<noteq> [] \<Longrightarrow> \<exists>d. bt_get fs p = Some d \<and> is_folder d"
  shows "create_dir_all E fs p = Inr fs"
  unfolding create_dir_all_def
proof (rule rfold_unchanged, goal_cases)
  case (1 n)
  then have "\<exists>d. bt_get fs (take n p) = Some d \<and> is_folder d"
    using assms(1) assms(2) below_take [of n p] by (cases "n = length p"; cases "p = []") (auto simp: parents_ok_def)
  then show ?case by auto
qed

lemma create_dir_all_new:
  assumes "parents_ok (bt_get fs) p" "p \<noteq> []" "bt_get fs p = None"
  shows "create_dir_all E fs p = put_node E fs p (new_folder E)"
proof -
  let ?f = "\<lambda>fs n. case bt_get fs (take n p) of None \<Rightarrow> put_node E fs (take n p) (new_folder E)
     | Some d \<Rightarrow> ensure (is_folder d) ''Not a directory'' (Inr fs)"
  have "[1..<Suc (length p)] = [1..<length p] @ [length p]" using assms(2) by (cases p) auto
  moreover have "rfold ?f fs [1..<length p] = Inr fs"
  proof (rule rfold_unchanged, goal_cases)
    case (1 n)
    then have "\<exists>d. bt_get fs (take n p) = Some d \<and> is_folder d"
      using assms(1) below_take [of n p] by (auto simp: parents_ok_def)
    then show ?case by auto
  qed
  ultimately show ?thesis using assms(3) by (simp add: create_dir_all_def rfold_append)
qed

lemma set_mode_ok:
  assumes "bt_get fs p = Some n"
  obtains fs' where "set_mode fs p mode = Inr fs'"
    "bt_get fs' = (bt_get fs)(p \<mapsto> n\<lparr>nd_mode := chmod (nd_mode n) mode\<rparr>)"
  using that assms by (simp add: set_mode_def bt_get_insert)

lemma prepare_directory_ok:
  assumes "parents_ok (bt_get fs) p" "p \<noteq> []" "bt_get fs (butlast p) = Some d" "folder_ok d"
    and "bt_get fs p = None \<or> (\<exists>n. bt_get fs p = Some n \<and> is_folder n \<and> nd_mode n AND NOT PERMISSIONS = S_IFDIR)"
  obtains fs' n d' where "prepare_directory E fs p e = Inr fs'" "folder_ok n" "folder_ok d'"
    "bt_get fs' = (bt_get fs)(butlast p \<mapsto> d', p \<mapsto> n)"
proof -
  have type: "new_type AND NOT PERMISSIONS = S_IFDIR" if "new_type = nd_mode (new_folder E)" for new_type
  proof -
    have "(S_IFDIR OR (0x1FF AND NOT (os_umask E))) AND NOT PERMISSIONS =
        (S_IFDIR AND NOT PERMISSIONS) OR (NOT (os_umask E) AND (0x1FF AND NOT PERMISSIONS))"
      by (rule bit_word_eqI) (auto simp: bit_simps)
    also have "\<dots> = S_IFDIR" by (simp add: S_IFDIR_def PERMISSIONS_def)
    finally show ?thesis by (simp add: that new_folder_def)
  qed
  have mode: "folder_ok (m\<lparr>nd_mode := chmod (nd_mode m) (te_mode e OR OWNER_WRITABLE_DIR)\<rparr>)"
    if "is_folder m" "nd_mode m AND NOT PERMISSIONS = S_IFDIR" for m
    using that chmod_write [OF owner_writable] by (simp add: folder_ok_def is_folder_def)
  show thesis
  proof (cases "bt_get fs p")
    case None
    obtain fs1 where p1: "put_node E fs p (new_folder E) = Inr fs1"
        "bt_get fs1 = (bt_get fs)(butlast p \<mapsto> d\<lparr>nd_mtime := os_now E\<rparr>, p \<mapsto> new_folder E)"
      by (rule put_node_ok [OF assms(3,4)])
    obtain fs2 where p2: "set_mode fs1 p (te_mode e OR OWNER_WRITABLE_DIR) = Inr fs2"
        "bt_get fs2 = (bt_get fs1)(p \<mapsto> (new_folder E)\<lparr>nd_mode :=
           chmod (nd_mode (new_folder E)) (te_mode e OR OWNER_WRITABLE_DIR)\<rparr>)"
      using set_mode_ok [of fs1 p "new_folder E"] p1(2) by auto
    have "is_folder (new_folder E)" by (simp add: new_folder_def is_folder_def)
    note n = mode [OF this type [OF refl]]
    have "folder_ok (d\<lparr>nd_mtime := os_now E\<rparr>)" using assms(4) by simp
    moreover have "bt_get fs2 = (bt_get fs)(butlast p \<mapsto> d\<lparr>nd_mtime := os_now E\<rparr>, p \<mapsto> (new_folder E)\<lparr>nd_mode :=
           chmod (nd_mode (new_folder E)) (te_mode e OR OWNER_WRITABLE_DIR)\<rparr>)"
      using p1(2) p2(2) by simp
    moreover have "prepare_directory E fs p e = Inr fs2"
      using create_dir_all_new [OF assms(1,2) None] p1(1) p2(1) by (simp add: prepare_directory_def)
    ultimately show thesis using that n by blast
  next
    case (Some n)
    then have n: "is_folder n" "nd_mode n AND NOT PERMISSIONS = S_IFDIR" using assms(5) by auto
    obtain fs2 where p2: "set_mode fs p (te_mode e OR OWNER_WRITABLE_DIR) = Inr fs2"
        "bt_get fs2 = (bt_get fs)(p \<mapsto> n\<lparr>nd_mode := chmod (nd_mode n) (te_mode e OR OWNER_WRITABLE_DIR)\<rparr>)"
      by (rule set_mode_ok [OF Some])
    have "(bt_get fs)(butlast p \<mapsto> d) = bt_get fs" using assms(3) by auto
    then show thesis
      using that [of fs2 _ d] mode [OF n] create_dir_all_exists [OF assms(1)] Some n(1) p2 assms(4)
      by (simp add: prepare_directory_def)
  qed
qed

section \<open>What a rewind has to do\<close>

type_synonym tree_map = "fpath \<Rightarrow> tree_entry option"

definition folder_at :: "tree_map \<Rightarrow> fpath \<Rightarrow> bool" where
  "folder_at Y q \<longleftrightarrow> (\<exists>e. Y q = Some e \<and> te_kind e = Directory)"

text \<open>The entries of a tree by their paths: names are valid and parents are directories.\<close>

definition tree_like :: "tree_map \<Rightarrow> bool" where
  "tree_like Y \<longleftrightarrow> Y [] = None \<and>
     (\<forall>q name. Y (q @ [name]) \<noteq> None \<longrightarrow> valid_name name \<and> (q = [] \<or> folder_at Y q))"

lemma below_snoc: "below p (q @ [name]) \<longleftrightarrow> p = q \<or> below p q"
  by (cases "length p = length q") (auto simp: below_def)

lemma path_below_trans: "below p q \<Longrightarrow> below q r \<Longrightarrow> below p r"
  unfolding below_def by (metis less_trans min.strict_order_iff min.commute take_take)

lemma below_shorter: "length t < length q \<Longrightarrow> take (length t) r = t \<Longrightarrow> take (length q) r = q \<Longrightarrow> below t q"
  unfolding below_def by (metis less_imp_le min.absorb1 take_take)

lemma below_linear:
  assumes "below t r" "r = q \<or> below q r"
  shows "t = q \<or> below t q \<or> below q t"
proof -
  have t: "take (length t) r = t" and q: "take (length q) r = q" using assms by (auto simp: below_def)
  show ?thesis
  proof (cases "length t" "length q" rule: linorder_cases)
    case less
    then show ?thesis using below_shorter [OF _ t q] by blast
  next
    case equal
    then show ?thesis using t q by metis
  next
    case greater
    then show ?thesis using below_shorter [OF _ q t] by blast
  qed
qed

lemma below_Nil [simp]: "\<not> below p []" "below [] q \<longleftrightarrow> q \<noteq> []"
  by (auto simp: below_def)

lemma below_irrefl [simp]: "\<not> below p p"
  by (simp add: below_def)

lemma tree_like_parent: "tree_like Y \<Longrightarrow> Y q \<noteq> None \<Longrightarrow> below p q \<Longrightarrow> p \<noteq> [] \<Longrightarrow> folder_at Y p"
proof (induction q rule: rev_induct)
  case (snoc name q)
  then have "q = [] \<or> folder_at Y q" by (auto simp: tree_like_def)
  with snoc show ?case by (auto simp: below_snoc folder_at_def)
qed simp

lemma tree_like_valid: "tree_like Y \<Longrightarrow> Y q \<noteq> None \<Longrightarrow> valid_fpath q"
proof (induction q rule: rev_induct)
  case (snoc name q)
  then have "valid_name name" "q = [] \<or> folder_at Y q" by (auto simp: tree_like_def)
  then show ?case using snoc.IH [OF snoc.prems(1)] by (auto simp: valid_fpath_def folder_at_def)
qed (simp add: tree_like_def)

definition differs :: "tree_entry option \<Rightarrow> tree_entry option \<Rightarrow> bool" where
  "differs x y \<longleftrightarrow> x \<noteq> y \<and> \<not> directory_target_only_difference x y \<and>
     \<not> (x = None \<and> (\<exists>e. y = Some e \<and> te_kind e = SocketMarker))"

definition changed_paths :: "tree_map \<Rightarrow> tree_map \<Rightarrow> fpath set" where
  "changed_paths X Y = {q. q \<noteq> [] \<and> (\<exists>r. (r = q \<or> below q r) \<and> differs (X r) (Y r))}"

text \<open>When a node is what an entry records.\<close>

definition node_ok :: "lib \<Rightarrow> tree_entry \<Rightarrow> node \<Rightarrow> bool" where
  "node_ok L e n =
     (case te_kind e of
        File \<Rightarrow> nd_mode n = te_mode e \<and> nd_mtime n = entry_mtime e \<and>
          (\<exists>c. nd_kind n = RegularFile c \<and> te_target e = Some (blob_id L c) \<and> length c = unat (te_size e))
      | Directory \<Rightarrow> is_folder n \<and> nd_mode n = te_mode e \<and> nd_mtime n = entry_mtime e
      | Symlink \<Rightarrow> nd_kind n = LinkNode (te_link_target e)
      | Fifo \<Rightarrow> nd_kind n = FifoNode \<and> nd_mode n = te_mode e \<and> nd_mtime n = entry_mtime e
      | SocketMarker \<Rightarrow> nd_kind n = SocketNode)"

text \<open>The paths outside \<open>U\<close> hold what the tree records and nothing else.\<close>

definition holds_tree :: "lib \<Rightarrow> fpath set \<Rightarrow> tree_map \<Rightarrow> (fpath \<rightharpoonup> node) \<Rightarrow> bool" where
  "holds_tree L U X G \<longleftrightarrow> (\<forall>q. q \<noteq> [] \<longrightarrow> q \<notin> U \<longrightarrow>
     (case X q of None \<Rightarrow> G q = None | Some e \<Rightarrow> \<exists>n. G q = Some n \<and> node_ok L e n))"

text \<open>A directory tree as an operating system keeps it, with a root that may be written.\<close>

definition proper_fs :: "(fpath \<rightharpoonup> node) \<Rightarrow> bool" where
  "proper_fs G \<longleftrightarrow> (\<exists>n. G [] = Some n \<and> folder_ok n) \<and>
     (\<forall>q name. G (q @ [name]) \<noteq> None \<longrightarrow> (\<exists>d. G q = Some d \<and> is_folder d)) \<and>
     (\<forall>q n. G q = Some n \<longrightarrow> is_folder n \<longrightarrow> nd_mode n AND NOT PERMISSIONS = S_IFDIR)"

definition restorable :: "os \<Rightarrow> lib \<Rightarrow> object_map \<Rightarrow> tree_entry \<Rightarrow> bool" where
  "restorable E L s e \<longleftrightarrow>
     (case te_kind e of
        File \<Rightarrow> te_mode e AND NOT PERMISSIONS = S_IFREG \<and> (\<exists>xs. read_xattrs E L s (te_xattrs e) = Inr xs) \<and>
          (\<exists>c. has_content L s c \<and> te_target e = Some (blob_id L c) \<and> length c = unat (te_size e))
      | Directory \<Rightarrow> te_mode e AND NOT PERMISSIONS = S_IFDIR
      | Fifo \<Rightarrow> False
      | _ \<Rightarrow> True)"

text \<open>
  What a rewind from \<open>X\<close> to \<open>Y\<close> needs besides: the paths \<open>U\<close> that it leaves alone have no other
  path below them, and none of them is below a directory that goes away; a directory that goes away
  may be written; no directory with entries becomes a link.
\<close>

definition rewind_ready :: "os \<Rightarrow> lib \<Rightarrow> object_map \<Rightarrow> fpath set \<Rightarrow> tree_map \<Rightarrow> tree_map \<Rightarrow> (fpath \<rightharpoonup> node) \<Rightarrow> bool" where
  "rewind_ready E L s U X Y F \<longleftrightarrow>
     tree_like X \<and> tree_like Y \<and> json_faithful L \<and> proper_fs F \<and> holds_tree L U X F \<and>
     [] \<notin> U \<and> (\<forall>q name. q \<in> U \<longrightarrow> q @ [name] \<in> U) \<and>
     (\<forall>q\<in>changed_paths X Y - U.
        (\<forall>e. Y q = Some e \<longrightarrow> restorable E L s e) \<and>
        (\<not> folder_at Y q \<longrightarrow>
           (\<forall>u\<in>U. below q u \<longrightarrow> F u = None) \<and>
           (\<forall>e. X q = Some e \<longrightarrow> te_kind e = Directory \<longrightarrow> te_mode e AND OWNER_WRITE \<noteq> 0) \<and>
           (\<forall>e r. Y q = Some e \<longrightarrow> te_kind e = Symlink \<longrightarrow> below q r \<longrightarrow> X r = None)))"

lemma readyD:
  assumes "rewind_ready E L s U X Y F"
  shows "tree_like X" "tree_like Y" "json_faithful L" "proper_fs F" "holds_tree L U X F" "[] \<notin> U"
    "\<forall>q name. q \<in> U \<longrightarrow> q @ [name] \<in> U"
  using assms by (simp_all add: rewind_ready_def)

lemma ready_restorable:
  "rewind_ready E L s U X Y F \<Longrightarrow> q \<in> changed_paths X Y - U \<Longrightarrow> Y q = Some e \<Longrightarrow> restorable E L s e"
  unfolding rewind_ready_def by blast

lemma ready_gone:
  assumes "rewind_ready E L s U X Y F" "q \<in> changed_paths X Y - U" "\<not> folder_at Y q"
  shows "u \<in> U \<Longrightarrow> below q u \<Longrightarrow> F u = None"
    and "X q = Some e \<Longrightarrow> te_kind e = Directory \<Longrightarrow> te_mode e AND OWNER_WRITE \<noteq> 0"
    and "Y q = Some e \<Longrightarrow> te_kind e = Symlink \<Longrightarrow> below q r \<Longrightarrow> X r = None"
  using assms unfolding rewind_ready_def by blast+

lemma holds_treeD:
  assumes "holds_tree L U X G" "q \<noteq> []" "q \<notin> U" "G q = Some n"
  obtains e where "X q = Some e" "node_ok L e n"
  using assms by (cases "X q") (auto simp: holds_tree_def)

lemma U_below:
  assumes "\<forall>q name. q \<in> U \<longrightarrow> q @ [name] \<in> U" "p \<in> U" "below p q"
  shows "q \<in> U"
  using assms(3) by (induction q rule: rev_induct) (auto simp: below_snoc assms(1,2))

lemma proper_below:
  assumes "proper_fs G" "G q \<noteq> None" "below p q"
  shows "\<exists>d. G p = Some d \<and> is_folder d"
  using assms(2,3)
proof (induction q rule: rev_induct)
  case (snoc name q)
  then have "\<exists>d. G q = Some d \<and> is_folder d" using assms(1) unfolding proper_fs_def by blast
  with snoc show ?case by (auto simp: below_snoc)
qed simp

text \<open>The directories, the other entries and the removals of a plan.\<close>

definition new_folders :: "fpath set \<Rightarrow> tree_map \<Rightarrow> tree_map \<Rightarrow> fpath set" where
  "new_folders U X Y = {q \<in> changed_paths X Y - U. folder_at Y q}"

definition new_entries :: "fpath set \<Rightarrow> tree_map \<Rightarrow> tree_map \<Rightarrow> fpath set" where
  "new_entries U X Y = {q \<in> changed_paths X Y - U. Y q \<noteq> None \<and> \<not> folder_at Y q}"

definition lost_paths :: "fpath set \<Rightarrow> tree_map \<Rightarrow> tree_map \<Rightarrow> fpath set" where
  "lost_paths U X Y = {q \<in> changed_paths X Y - U. Y q = None}"

lemmas plan_sets = new_folders_def new_entries_def lost_paths_def

lemma changed_parent:
  assumes "rewind_ready E L s U X Y F" "q \<in> changed_paths X Y - U" "below p q" "p \<noteq> []"
  shows "p \<in> changed_paths X Y - U"
proof -
  have "p \<in> changed_paths X Y"
    using assms(2-4) path_below_trans by (auto simp: changed_paths_def)
  moreover have "p \<notin> U"
    using assms(2,3) U_below [OF readyD(7) [OF assms(1)], of p q] by blast
  ultimately show ?thesis by simp
qed

lemma changed_parent_folder:
  assumes "rewind_ready E L s U X Y F" "q \<in> changed_paths X Y - U" "Y q \<noteq> None" "below p q" "p \<noteq> []"
  shows "p \<in> new_folders U X Y"
  using changed_parent [OF assms(1,2,4,5)] tree_like_parent [OF readyD(2) [OF assms(1)] assms(3-5)]
  by (simp add: new_folders_def)

lemma differs_cases: "differs (X r) (Y r) \<Longrightarrow> X r \<noteq> None \<or> Y r \<noteq> None"
  by (auto simp: differs_def)

lemma changed_exists:
  assumes "tree_like X" "tree_like Y" "q \<in> changed_paths X Y"
  shows "X q \<noteq> None \<or> Y q \<noteq> None"
proof -
  obtain r where "r = q \<or> below q r" "differs (X r) (Y r)" "q \<noteq> []"
    using assms(3) by (auto simp: changed_paths_def)
  then show ?thesis
    using differs_cases [of X r Y] tree_like_parent [OF assms(1), of r q] tree_like_parent [OF assms(2), of r q]
    by (auto simp: folder_at_def)
qed

lemma changed_valid: "rewind_ready E L s U X Y F \<Longrightarrow> q \<in> changed_paths X Y \<Longrightarrow> valid_fpath q"
  using changed_exists [of X Y q] tree_like_valid [of X q] tree_like_valid [of Y q] readyD(1,2) by blast

text \<open>What an unmanaged or unchanged tree says about the paths below a path that goes away.\<close>

lemma lost_below:
  assumes "rewind_ready E L s U X Y F" "q \<in> changed_paths X Y - U" "\<not> folder_at Y q" "below q r" "F r \<noteq> None"
  shows "r \<in> lost_paths U X Y" and "X r \<noteq> None"
proof -
  have "q \<noteq> []" using assms(2) by (simp add: changed_paths_def)
  have "r \<notin> U" using ready_gone(1) [OF assms(1-3) _ assms(4)] assms(5) by blast
  moreover have "r \<noteq> []" using assms(4) by auto
  ultimately show x: "X r \<noteq> None"
    using holds_treeD [OF readyD(5) [OF assms(1)]] assms(5) by blast
  have y: "Y r = None"
    using tree_like_parent [OF readyD(2) [OF assms(1)], of r q] assms(3,4) \<open>q \<noteq> []\<close> by blast
  then have "differs (X r) (Y r)" using x by (auto simp: differs_def directory_target_only_difference_def)
  then show "r \<in> lost_paths U X Y"
    using y \<open>r \<notin> U\<close> \<open>r \<noteq> []\<close> by (auto simp: lost_paths_def changed_paths_def)
qed

text \<open>A directory that goes away may be written.\<close>

lemma lost_folder:
  assumes "rewind_ready E L s U X Y F" "q \<in> changed_paths X Y - U" "\<not> folder_at Y q" "F q = Some n" "is_folder n"
  shows "folder_ok n"
proof -
  have "q \<noteq> []" "q \<notin> U" using assms(2) by (simp_all add: changed_paths_def)
  then obtain e where e: "X q = Some e" "node_ok L e n"
    using holds_treeD [OF readyD(5) [OF assms(1)] _ _ assms(4)] by blast
  then have "te_kind e = Directory" "nd_mode n = te_mode e"
    using assms(5) by (auto simp: node_ok_def is_folder_def split: entry_kind.splits)
  moreover have "te_mode e AND OWNER_WRITE \<noteq> 0"
    by (rule ready_gone(2) [OF assms(1-3) e(1) calculation(1)])
  moreover have "nd_mode n AND NOT PERMISSIONS = S_IFDIR"
    using readyD(4) [OF assms(1)] assms(4,5) by (simp add: proper_fs_def)
  ultimately show ?thesis using assms(5) by (simp add: folder_ok_def)
qed

section \<open>The order of a plan\<close>

lemma rfold_steps:
  assumes "I [] v" and step: "\<And>ds x rest v. xs = ds @ x # rest \<Longrightarrow> I ds v \<Longrightarrow> \<exists>v'. f v x = Inr v' \<and> I (ds @ [x]) v'"
  shows "\<exists>v'. rfold f v xs = Inr v' \<and> I xs v'"
proof -
  have "\<exists>v'. rfold f v rest = Inr v' \<and> I xs v'" if "xs = ds @ rest" "I ds v" for ds rest v
    using that
  proof (induction rest arbitrary: ds v)
    case (Cons x rest)
    obtain v' where "f v x = Inr v'" "I (ds @ [x]) v'" using step [OF Cons.prems] by blast
    with Cons.IH [of "ds @ [x]" v'] Cons.prems(1) show ?case by simp
  qed simp
  from this [of "[]" xs v] assms(1) show ?thesis by simp
qed

lemma join_with_append: "p \<noteq> [] \<Longrightarrow> r \<noteq> [] \<Longrightarrow> join_with c (p @ r) = join_with c p @ c # join_with c r"
  by (induction p rule: join_with.induct) (auto simp: join_with_Cons)

lemma less_append: "xs < xs @ y # ys" for xs :: bytes
  by (induction xs) auto

lemma raw_below:
  assumes "below p q" "p \<noteq> []"
  shows "raw p < raw q" "length (raw p) < length (raw q)"
proof -
  have "q = p @ drop (length p) q" using assms(1) unfolding below_def by (metis append_take_drop_id)
  moreover have "drop (length p) q \<noteq> []" using assms(1) by (simp add: below_def)
  ultimately have "raw q = raw p @ CHR ''/'' # raw (drop (length p) q)"
    using join_with_append [OF assms(2)] unfolding raw_def by metis
  then show "raw p < raw q" "length (raw p) < length (raw q)" by (simp_all add: less_append)
qed

text \<open>The entries of a plan: the changed paths that the target has, in the order of their bytes.\<close>

definition plan_map :: "fpath set \<Rightarrow> tree_map \<Rightarrow> tree_map \<Rightarrow> flat_entries \<Rightarrow> bool" where
  "plan_map U X Y M \<longleftrightarrow> bt_wf M \<and>
     (\<forall>path e. (path, e) \<in> set M \<longleftrightarrow> (\<exists>q\<in>changed_paths X Y - U. path = raw q \<and> Y q = Some e))"

definition reached_of :: "fpath set \<Rightarrow> flat_entries \<Rightarrow> fpath set" where
  "reached_of A ds = {q \<in> A. raw q \<in> fst ` set ds}"

lemma plan_map_entry:
  assumes "rewind_ready E L s U X Y F" "plan_map U X Y (ds @ (path, e) # rest)"
  obtains q where "path = raw q" "q \<in> changed_paths X Y - U" "Y q = Some e" "valid_fpath q" "q \<noteq> []"
proof -
  have "(path, e) \<in> set (ds @ (path, e) # rest)" by simp
  then obtain q where "path = raw q" "q \<in> changed_paths X Y - U" "Y q = Some e"
    using assms(2) unfolding plan_map_def by blast
  with that changed_valid [OF assms(1)] show thesis by (auto simp: valid_fpath_def)
qed

lemma reached_of_snoc:
  assumes "rewind_ready E L s U X Y F" "A \<subseteq> changed_paths X Y - U" "valid_fpath q"
  shows "reached_of A (ds @ [(raw q, e)]) = (if q \<in> A then insert q (reached_of A ds) else reached_of A ds)"
  using assms(2,3) changed_valid [OF assms(1)] raw_inj [of _ q] by (auto simp: reached_of_def)

text \<open>A directory of the plan comes before the paths below it.\<close>

lemma parent_before:
  assumes "plan_map U X Y (ds @ (raw q, e) # rest)" "below p q" "p \<in> new_folders U X Y"
  shows "p \<in> reached_of (new_folders U X Y) ds"
proof -
  obtain e' where "Y p = Some e'" "p \<in> changed_paths X Y - U"
    using assms(3) by (auto simp: new_folders_def folder_at_def)
  then have mem: "(raw p, e') \<in> set (ds @ (raw q, e) # rest)" using assms(1) unfolding plan_map_def by blast
  have "p \<noteq> []" using assms(3) by (auto simp: new_folders_def changed_paths_def)
  then have "raw p < raw q" using raw_below(1) assms(2) by blast
  moreover have "\<forall>k\<in>fst ` set rest. raw q < k"
    using assms(1) by (auto simp: plan_map_def bt_wf_def sorted_wrt_append)
  ultimately have "(raw p, e') \<in> set ds" using mem by fastforce
  then show ?thesis using assms(3) by (force simp: reached_of_def)
qed

section \<open>First pass: directories\<close>

definition first_pass :: "(fpath \<rightharpoonup> node) \<Rightarrow> fpath set \<Rightarrow> (fpath \<rightharpoonup> node) \<Rightarrow> bool" where
  "first_pass F S G \<longleftrightarrow> (\<forall>q. q \<in> S \<or> q = [] \<longrightarrow> (\<exists>n. G q = Some n \<and> folder_ok n)) \<and>
     (\<forall>q. q \<notin> S \<longrightarrow> q \<noteq> [] \<longrightarrow> G q = F q)"

lemma first_pass_parents:
  assumes "rewind_ready E L s U X Y F" "q \<in> changed_paths X Y - U" "Y q \<noteq> None"
    and S: "\<And>p. below p q \<Longrightarrow> p \<in> new_folders U X Y \<Longrightarrow> p \<in> S"
    and folders: "\<And>p. p \<in> S \<or> p = [] \<Longrightarrow> \<exists>n. G p = Some n \<and> folder_ok n"
  shows "parents_ok G q" "\<exists>d. G (butlast q) = Some d \<and> folder_ok d"
    "butlast q = [] \<or> butlast q \<in> S"
proof -
  have in_S: "p \<in> S" if "below p q" "p \<noteq> []" for p
    using S [OF that(1)] changed_parent_folder [OF assms(1-3) that] by blast
  show "parents_ok G q"
    unfolding parents_ok_def using in_S folders by (metis folder_ok_def)
  have "q \<noteq> []" using assms(2) by (simp add: changed_paths_def)
  then have "below (butlast q) q" by (cases q rule: rev_cases) (auto simp: below_snoc)
  with in_S show "butlast q = [] \<or> butlast q \<in> S" by blast
  with folders show "\<exists>d. G (butlast q) = Some d \<and> folder_ok d" by blast
qed

lemma first_pass_parents_after:
  assumes "first_pass F S G" "q \<notin> S" "q \<noteq> []" "butlast q = [] \<or> butlast q \<in> S"
    and "G' q = Some n" "folder_ok n" "G' (butlast q) = Some d" "folder_ok d"
    and "\<And>p. p \<noteq> q \<Longrightarrow> p \<noteq> butlast q \<Longrightarrow> G' p = G p"
  shows "first_pass F (insert q S) G'"
  unfolding first_pass_def
proof (intro conjI allI impI)
  fix p assume "p \<in> insert q S \<or> p = []"
  then show "\<exists>n. G' p = Some n \<and> folder_ok n"
    using assms(1,5-9) unfolding first_pass_def by (cases "p = q"; cases "p = butlast q") auto
next
  fix p assume "p \<notin> insert q S" "p \<noteq> []"
  then show "G' p = F p" using assms(1,4,9) unfolding first_pass_def by (metis insertCI)
qed

text \<open>The entry that is in the way of a directory is removed; it is not a directory, so nothing is below it.\<close>

lemma clear_way:
  assumes ready: "rewind_ready E L s U X Y F" and inv: "first_pass F S (bt_get fs)"
    and "q \<notin> S" "q \<noteq> []" and d: "bt_get fs (butlast q) = Some d" "folder_ok d"
    and below: "\<And>p. below q p \<Longrightarrow> p \<notin> S"
  obtains fs1 d1 where "(case bt_get fs q of None \<Rightarrow> Inr fs
        | Some n \<Rightarrow> if is_folder n then Inr fs else remove_path E fs q) = Inr fs1"
      "bt_get fs1 (butlast q) = Some d1" "folder_ok d1"
      "bt_get fs1 q = None \<or> (\<exists>n. bt_get fs1 q = Some n \<and> is_folder n \<and> nd_mode n AND NOT PERMISSIONS = S_IFDIR)"
      "\<forall>p. p \<noteq> q \<longrightarrow> p \<noteq> butlast q \<longrightarrow> bt_get fs1 p = bt_get fs p"
proof (cases "bt_get fs q")
  case None
  then show thesis using that [of fs d] d by simp
next
  case (Some n)
  have orig: "bt_get fs p = F p" if "p \<notin> S" "p \<noteq> []" for p using inv that by (simp add: first_pass_def)
  then have Fq: "F q = Some n" using Some assms(3,4) by metis
  show thesis
  proof (cases "is_folder n")
    case True
    then have "nd_mode n AND NOT PERMISSIONS = S_IFDIR"
      using readyD(4) [OF ready] Fq by (simp add: proper_fs_def)
    then show thesis using that [of fs d] d Some True by simp
  next
    case False
    obtain fs' where r: "remove_path E fs q = Inr fs'" "bt_get fs' = (\<lambda>p. if p = q \<or> below q p then None
         else ((bt_get fs)(butlast q \<mapsto> d\<lparr>nd_mtime := os_now E\<rparr>)) p)"
      using remove_path_ok [OF Some d] False by blast
    have none: "bt_get fs p = None" if "below q p" for p
    proof -
      have "F p = None"
        using proper_below [OF readyD(4) [OF ready] _ that] Fq False by (cases "F p") auto
      moreover have "p \<noteq> []" using that by (cases p) auto
      ultimately show ?thesis using orig [OF below [OF that]] by simp
    qed
    show thesis
    proof (rule that)
      show "bt_get fs' (butlast q) = Some (d\<lparr>nd_mtime := os_now E\<rparr>)"
        using below_butlast [OF \<open>q \<noteq> []\<close>] by (simp add: r(2))
    qed (use r Some False d(2) none in auto)
  qed
qed

lemma first_pass_step:
  assumes ready: "rewind_ready E L s U X Y F" and q: "q \<in> new_folders U X Y" "Y q = Some e"
    and S: "\<And>p. below p q \<Longrightarrow> p \<in> new_folders U X Y \<Longrightarrow> p \<in> S" and "q \<notin> S"
    and below: "\<And>p. below q p \<Longrightarrow> p \<notin> S"
    and inv: "first_pass F S (bt_get fs)" and "List.member changed (raw q)"
  shows "\<exists>fs'. apply_directory E changed [] fs (raw q, e) = Inr fs' \<and> first_pass F (insert q S) (bt_get fs')"
proof -
  have c: "q \<in> changed_paths X Y - U" "te_kind e = Directory" "valid_fpath q" "q \<noteq> []"
    using q changed_valid [OF ready] by (auto simp: new_folders_def folder_at_def changed_paths_def)
  have folders: "\<exists>n. bt_get fs p = Some n \<and> folder_ok n" if "p \<in> S \<or> p = []" for p
    using inv that unfolding first_pass_def by blast
  have "Y q \<noteq> None" using q(2) by simp
  note par = first_pass_parents [where G = "bt_get fs" and S = S, OF ready c(1) this S folders, simplified]
  obtain d where d: "bt_get fs (butlast q) = Some d" "folder_ok d" using par(2) by (elim exE conjE)
  obtain fs1 d1 where fs1: "(case bt_get fs q of None \<Rightarrow> Inr fs
        | Some n \<Rightarrow> if is_folder n then Inr fs else remove_path E fs q) = Inr fs1"
      "bt_get fs1 (butlast q) = Some d1" "folder_ok d1"
      "bt_get fs1 q = None \<or> (\<exists>n. bt_get fs1 q = Some n \<and> is_folder n \<and> nd_mode n AND NOT PERMISSIONS = S_IFDIR)"
      "\<forall>p. p \<noteq> q \<longrightarrow> p \<noteq> butlast q \<longrightarrow> bt_get fs1 p = bt_get fs p"
    by (rule clear_way [OF ready inv \<open>q \<notin> S\<close> c(4) d below])
  have "parents_ok (bt_get fs1) q"
    unfolding parents_ok_def
  proof (intro allI impI)
    fix p assume p: "below p q \<and> p \<noteq> []"
    then have "p \<noteq> q" by auto
    then show "\<exists>d. bt_get fs1 p = Some d \<and> is_folder d"
      using fs1(2,3,5) par(1) p unfolding parents_ok_def folder_ok_def by (cases "p = butlast q") auto
  qed
  from prepare_directory_ok [OF this c(4) fs1(2-4), of E e]
  obtain fs' n d' where r: "prepare_directory E fs1 q e = Inr fs'" "folder_ok n" "folder_ok d'"
      "bt_get fs' = (bt_get fs1)(butlast q \<mapsto> d', q \<mapsto> n)"
    by blast
  have "butlast q \<noteq> q" using below_butlast [OF c(4)] by blast
  then have "first_pass F (insert q S) (bt_get fs')"
    using first_pass_parents_after [OF inv \<open>q \<notin> S\<close> c(4) par(3), of "bt_get fs'" n d'] r fs1(5) by simp
  moreover have "apply_directory E changed [] fs (raw q, e) = Inr fs'"
    using c(2) assms(8) fs1(1) r(1) ensure_safe_parent_folders [OF par(1)] safe_join_raw [OF c(3)]
    by (simp add: apply_directory_def selected_def)
  ultimately show ?thesis by blast
qed

end
