(* ===== verification/Rewind_Passes.thy ===== *)
theory Rewind_Passes
  imports Rewind_Apply
begin

text \<open>
  The passes of \<open>apply_plan_at\<close> one after the other: what the directory tree holds after the
  directories, after the other entries, after the removals and after the final modes and times.
\<close>

section \<open>After the first pass\<close>

lemma plan_map_order:
  assumes "plan_map U X Y (ds @ (raw q, e) # rest)" "q \<noteq> []"
  shows "q \<notin> reached_of A ds" and "below q p \<Longrightarrow> p \<notin> reached_of A ds"
proof -
  have before: "\<forall>k\<in>fst ` set ds. k < raw q"
    using assms(1) by (auto simp: plan_map_def bt_wf_def sorted_wrt_append)
  then show "q \<notin> reached_of A ds" by (auto simp: reached_of_def)
  show "p \<notin> reached_of A ds" if "below q p"
    using before raw_below(1) [OF that assms(2)] by (auto simp: reached_of_def)
qed

lemma reached_all:
  assumes "plan_map U X Y M" "A \<subseteq> changed_paths X Y - U" "\<And>q. q \<in> A \<Longrightarrow> Y q \<noteq> None"
  shows "reached_of A M = A"
proof -
  have "raw q \<in> fst ` set M" if q: "q \<in> A" for q
  proof -
    obtain e where "Y q = Some e" using assms(3) [OF q] by auto
    then have "(raw q, e) \<in> set M" using assms(1,2) q unfolding plan_map_def by blast
    then show ?thesis by force
  qed
  then show ?thesis by (auto simp: reached_of_def)
qed

lemma first_pass_all:
  assumes ready: "rewind_ready E L s U X Y (bt_get fs)" and plan: "plan_map U X Y M"
    and changed: "\<forall>q\<in>changed_paths X Y - U. List.member changed (raw q)"
  shows "\<exists>fs'. rfold (apply_directory E changed []) fs M = Inr fs' \<and>
     first_pass (bt_get fs) (new_folders U X Y) (bt_get fs')"
proof -
  let ?N = "new_folders U X Y" and ?F = "bt_get fs"
  have sub: "?N \<subseteq> changed_paths X Y - U" by (auto simp: new_folders_def)
  have "\<exists>fs'. rfold (apply_directory E changed []) fs M = Inr fs' \<and> first_pass ?F (reached_of ?N M) (bt_get fs')"
  proof (rule rfold_steps [where I = "\<lambda>ds fs'. first_pass ?F (reached_of ?N ds) (bt_get fs')"])
    show "first_pass ?F (reached_of ?N []) (bt_get fs)"
      using readyD(4) [OF ready] by (auto simp: first_pass_def reached_of_def proper_fs_def)
  next
    fix ds x rest v assume M: "M = ds @ x # rest" and inv: "first_pass ?F (reached_of ?N ds) (bt_get v)"
    obtain path e where x: "x = (path, e)" by (cases x)
    obtain q where q: "path = raw q" "q \<in> changed_paths X Y - U" "Y q = Some e" "valid_fpath q" "q \<noteq> []"
      using plan_map_entry [OF ready] plan M x by metis
    have plan': "plan_map U X Y (ds @ (raw q, e) # rest)" using plan M x q(1) by simp
    note snoc = reached_of_snoc [OF ready sub q(4), of ds e]
    show "\<exists>v'. apply_directory E changed [] v x = Inr v' \<and> first_pass ?F (reached_of ?N (ds @ [x])) (bt_get v')"
    proof (cases "te_kind e = Directory")
      case True
      then have n: "q \<in> ?N" using q(2,3) by (simp add: new_folders_def folder_at_def)
      have "List.member changed (raw q)" using changed q(2) by blast
      with first_pass_step [OF ready n q(3) parent_before [OF plan'] plan_map_order(1) [OF plan' q(5)]
          plan_map_order(2) [OF plan' q(5)] inv]
      show ?thesis using snoc n x q(1) by simp
    next
      case False
      then have "q \<notin> ?N" using q(3) by (simp add: new_folders_def folder_at_def)
      then show ?thesis using snoc x q(1) False inv by (simp add: apply_directory_def)
    qed
  qed
  moreover have "reached_of ?N M = ?N"
    by (rule reached_all [OF plan sub]) (auto simp: new_folders_def folder_at_def)
  ultimately show ?thesis by simp
qed

section \<open>After the second pass\<close>

text \<open>What an entry is restored to; a file gets the recorded attributes that are not refused.\<close>

definition file_xattrs :: "os \<Rightarrow> lib \<Rightarrow> object_map \<Rightarrow> tree_entry \<Rightarrow> node \<Rightarrow> bool" where
  "file_xattrs E L s e n \<longleftrightarrow>
     (te_kind e = File \<longrightarrow> (\<exists>xs. read_xattrs E L s (te_xattrs e) = Inr xs \<and> nd_xattrs n = set_xattrs E xs []))"

definition entry_done :: "os \<Rightarrow> lib \<Rightarrow> object_map \<Rightarrow> tree_entry \<Rightarrow> node option \<Rightarrow> bool" where
  "entry_done E L s e x \<longleftrightarrow>
     (if te_kind e = SocketMarker then x = None
      else \<exists>n. x = Some n \<and> node_ok L e n \<and> file_xattrs E L s e n)"

definition second_pass ::
  "os \<Rightarrow> lib \<Rightarrow> object_map \<Rightarrow> tree_map \<Rightarrow> (fpath \<rightharpoonup> node) \<Rightarrow> fpath set \<Rightarrow> fpath set \<Rightarrow> (fpath \<rightharpoonup> node) \<Rightarrow> bool" where
  "second_pass E L s Y F S T G \<longleftrightarrow>
     (\<forall>q. q \<in> S \<or> q = [] \<longrightarrow> (\<exists>n. G q = Some n \<and> folder_ok n)) \<and>
     (\<forall>q\<in>T. \<forall>e. Y q = Some e \<longrightarrow> entry_done E L s e (G q)) \<and>
     (\<forall>q\<in>T. \<forall>r. below q r \<longrightarrow> G r = None) \<and>
     (\<forall>q. q \<notin> S \<longrightarrow> q \<noteq> [] \<longrightarrow> q \<notin> T \<longrightarrow> (\<forall>t\<in>T. \<not> below t q) \<longrightarrow> G q = F q)"

lemma second_passD:
  assumes "second_pass E L s Y F S T G"
  shows "q \<in> S \<or> q = [] \<Longrightarrow> \<exists>n. G q = Some n \<and> folder_ok n"
    and "q \<in> T \<Longrightarrow> Y q = Some e \<Longrightarrow> entry_done E L s e (G q)"
    and "q \<in> T \<Longrightarrow> below q r \<Longrightarrow> G r = None"
    and "q \<notin> S \<Longrightarrow> q \<noteq> [] \<Longrightarrow> q \<notin> T \<Longrightarrow> \<forall>t\<in>T. \<not> below t q \<Longrightarrow> G q = F q"
  using assms unfolding second_pass_def by blast+

lemma second_pass_start: "first_pass F S G \<Longrightarrow> second_pass E L s Y F S {} G"
  by (simp add: first_pass_def second_pass_def)

text \<open>Nothing that the target has lies below an entry that is not a directory.\<close>

lemma target_below:
  assumes "rewind_ready E L s U X Y F" "q \<in> new_entries U X Y" "below q r"
  shows "Y r = None" "r \<notin> new_folders U X Y" "r \<notin> new_entries U X Y"
proof -
  have "q \<noteq> []" "\<not> folder_at Y q" using assms(2) by (auto simp: new_entries_def changed_paths_def)
  then show "Y r = None" using tree_like_parent [OF readyD(2) [OF assms(1)] _ assms(3)] by blast
  then show "r \<notin> new_folders U X Y" "r \<notin> new_entries U X Y" by (auto simp: plan_sets folder_at_def)
qed

text \<open>An entry that is still to be restored, and what is below it, is as it was.\<close>

lemma second_pass_rest:
  assumes "rewind_ready E L s U X Y F" "second_pass E L s Y F (new_folders U X Y) T G"
    "T \<subseteq> new_entries U X Y" "q \<in> new_entries U X Y" "q \<notin> T" "r = q \<or> below q r"
  shows "G r = F r"
proof (rule second_passD(4) [OF assms(2)])
  have q: "q \<in> changed_paths X Y - U" "Y q \<noteq> None" "\<not> folder_at Y q" "q \<noteq> []"
    using assms(4) by (auto simp: new_entries_def changed_paths_def)
  show "r \<notin> new_folders U X Y" using target_below(2) [OF assms(1,4)] q(3) assms(6) by (auto simp: new_folders_def)
  show "r \<noteq> []" using q(4) assms(6) by auto
  show "r \<notin> T" using target_below(3) [OF assms(1,4)] assms(3,5,6) by auto
  show "\<forall>t\<in>T. \<not> below t r"
  proof (intro ballI notI)
    fix t assume t: "t \<in> T" "below t r"
    then have te: "t \<in> new_entries U X Y" "t \<noteq> q" using assms(3,5) by auto
    have "t = q \<or> below t q \<or> below q t" using t(2) assms(6) below_linear by blast
    then show False using target_below(1) [OF assms(1) te(1)] target_below(3) [OF assms(1,4)] q(2) te by auto
  qed
qed

text \<open>What stands in the way of an entry is removed with everything below it.\<close>

lemma clear_entry:
  assumes ready: "rewind_ready E L s U X Y F" and q: "q \<in> new_entries U X Y" "Y q = Some e"
    and orig: "\<And>r. r = q \<or> below q r \<Longrightarrow> bt_get fs r = F r"
    and d: "bt_get fs (butlast q) = Some d" "folder_ok d"
  obtains fs1 d1 where
    "(case bt_get fs q of None \<Rightarrow> Inr fs
      | Some n \<Rightarrow> if is_folder n \<or> te_kind e \<noteq> File \<or> is_link n then remove_path E fs q else Inr fs) = Inr fs1"
    "bt_get fs1 (butlast q) = Some d1" "folder_ok d1" "te_kind e \<noteq> File \<longrightarrow> bt_get fs1 q = None"
    "\<forall>n. bt_get fs1 q = Some n \<longrightarrow> \<not> is_folder n" "\<forall>r. below q r \<longrightarrow> bt_get fs1 r = None"
    "\<forall>p. p \<noteq> q \<longrightarrow> p \<noteq> butlast q \<longrightarrow> \<not> below q p \<longrightarrow> bt_get fs1 p = bt_get fs p"
proof -
  have c: "q \<in> changed_paths X Y - U" "\<not> folder_at Y q" "q \<noteq> []"
    using q(1) by (auto simp: new_entries_def changed_paths_def)
  have nofile: "bt_get fs r = None" if "\<not> (\<exists>n. bt_get fs q = Some n \<and> is_folder n)" "below q r" for r
  proof -
    have "F r = None"
      using proper_below [OF readyD(4) [OF ready] _ that(2)] that(1) orig [of q] by (cases "F r") auto
    then show ?thesis using orig [of r] that(2) by simp
  qed
  show thesis
  proof (cases "bt_get fs q")
    case None
    with that [of fs d] d nofile show thesis by simp
  next
    case (Some n)
    show thesis
    proof (cases "is_folder n \<or> te_kind e \<noteq> File \<or> is_link n")
      case True
      have writable: "\<exists>d. bt_get fs (butlast r) = Some d \<and> is_folder d \<and> nd_mode d AND OWNER_WRITE \<noteq> 0"
        if r: "below q r" "bt_get fs r = Some m" for r m
      proof -
        have Fr: "F r = Some m" using orig [of r] r by simp
        obtain r0 name where r0: "r = r0 @ [name]" using r(1) by (cases r rule: rev_cases) auto
        then have b: "r0 = q \<or> below q r0" using r(1) by (auto simp: below_snoc)
        obtain d' where d': "F r0 = Some d'" "is_folder d'"
          using proper_below [OF readyD(4) [OF ready], of r r0] Fr r0 by (auto simp: below_snoc)
        have "r0 \<in> changed_paths X Y - U" "\<not> folder_at Y r0"
          using b c lost_below(1) [OF ready c(1,2), of r0] d'(1) by (auto simp: lost_paths_def folder_at_def)
        from lost_folder [OF ready this d'] have "folder_ok d'" .
        then show ?thesis using orig [OF b] d'(1) r0 by (simp add: folder_ok_def)
      qed
      obtain fs' where r: "remove_path E fs q = Inr fs'" "bt_get fs' = (\<lambda>p. if p = q \<or> below q p then None
         else ((bt_get fs)(butlast q \<mapsto> d\<lparr>nd_mtime := os_now E\<rparr>)) p)"
      proof (rule remove_path_ok [OF Some d])
        show "\<exists>d. bt_get fs (butlast r) = Some d \<and> is_folder d \<and> nd_mode d AND OWNER_WRITE \<noteq> 0"
          if "is_folder n" "below q r" "bt_get fs r = Some m" for r m
          using writable that by simp
      qed
      have "(case bt_get fs q of None \<Rightarrow> Inr fs
          | Some n \<Rightarrow> if is_folder n \<or> te_kind e \<noteq> File \<or> is_link n then remove_path E fs q else Inr fs) = Inr fs'"
        using Some True r(1) by simp
      then show thesis
        by (rule that [of fs' "d\<lparr>nd_mtime := os_now E\<rparr>"]) (use r(2) d(2) below_butlast [OF c(3)] in simp_all)
    next
      case False
      have "bt_get fs r = None" if "below q r" for r
        using nofile [OF _ that] False Some by simp
      then show thesis
        by (intro that [of fs d]) (use False Some d in auto)
    qed
  qed
qed

lemma second_pass_update:
  assumes "rewind_ready E L s U X Y F" "second_pass E L s Y F (new_folders U X Y) T G"
    and "T \<subseteq> new_entries U X Y" "q \<in> new_entries U X Y" "Y q = Some e"
    and "butlast q = [] \<or> butlast q \<in> new_folders U X Y"
    and "entry_done E L s e (G' q)" "\<forall>r. below q r \<longrightarrow> G' r = None" "G' (butlast q) = Some d" "folder_ok d"
    and same: "\<forall>p. p \<noteq> q \<longrightarrow> p \<noteq> butlast q \<longrightarrow> \<not> below q p \<longrightarrow> G' p = G p"
  shows "second_pass E L s Y F (new_folders U X Y) (insert q T) G'"
  unfolding second_pass_def
proof (intro conjI allI impI ballI)
  have q: "q \<noteq> []" "q \<notin> new_folders U X Y" using assms(4) by (auto simp: plan_sets changed_paths_def)
  note D = second_passD [OF assms(2)]
  have T: "t \<notin> new_folders U X Y" "t \<noteq> []" "t \<noteq> butlast q" if "t \<in> T" for t
    using that assms(3,6) by (auto simp: plan_sets changed_paths_def)
  fix p
  show "\<exists>n. G' p = Some n \<and> folder_ok n" if "p \<in> new_folders U X Y \<or> p = []"
  proof (cases "p = butlast q")
    case False
    have "p \<noteq> q" "\<not> below q p" using that q target_below(2) [OF assms(1,4)] by auto
    then show ?thesis using same False D(1) [OF that] by simp
  qed (use assms(9,10) in simp)
  show "G' p = F p" if "p \<notin> new_folders U X Y" "p \<noteq> []" "p \<notin> insert q T" "\<forall>t\<in>insert q T. \<not> below t p"
  proof -
    have "p \<noteq> butlast q" using assms(6) that by auto
    then show ?thesis using same that D(4) [OF that(1,2)] by simp
  qed
  fix t assume t: "t \<in> insert q T"
  show "entry_done E L s e' (G' t)" if "Y t = Some e'" for e'
  proof (cases "t = q")
    case False
    then have "t \<in> T" using t by simp
    moreover have "\<not> below q t" using target_below(3) [OF assms(1,4)] assms(3) calculation by auto
    ultimately show ?thesis using same False T D(2) that by simp
  qed (use assms(5,7) that in simp)
  show "G' r = None" if "below t r" for r
  proof (cases "t = q \<or> below q r")
    case False
    then have tT: "t \<in> T" using t by simp
    then have "r \<noteq> q" using target_below(3) [OF assms(1)] assms(3,4) that by auto
    moreover have "r \<noteq> butlast q"
      using target_below(2) [OF assms(1) _ that] assms(3,6) tT that by auto
    ultimately show ?thesis using same False D(3) [OF tT that] by simp
  qed (use assms(8) that in auto)
qed

lemma restore_file_ok:
  assumes "json_faithful L" "te_kind e = File" "restorable E L s e" "bt_get fs (butlast p) = Some d" "folder_ok d"
    and "\<forall>n. bt_get fs p = Some n \<longrightarrow> \<not> is_folder n"
  obtains fs' n where "restore_file_with_sync E L s fs p e = Inr fs'" "node_ok L e n" "file_xattrs E L s e n"
    "bt_get fs' = (bt_get fs)(butlast p \<mapsto> d\<lparr>nd_mtime := os_now E\<rparr>, p \<mapsto> n)"
proof -
  obtain xs c where r: "te_mode e AND NOT PERMISSIONS = S_IFREG" "read_xattrs E L s (te_xattrs e) = Inr xs"
      "has_content L s c" "te_target e = Some (blob_id L c)" "length c = unat (te_size e)"
    using assms(2,3) by (auto simp: restorable_def)
  let ?n = "\<lparr>nd_kind = RegularFile c, nd_mode = chmod S_IFREG (te_mode e), nd_mtime = entry_mtime e,
         nd_xattrs = set_xattrs E xs []\<rparr>"
  obtain fs' where put: "put_node E fs p ?n = Inr fs'"
      "bt_get fs' = (bt_get fs)(butlast p \<mapsto> d\<lparr>nd_mtime := os_now E\<rparr>, p \<mapsto> ?n)"
    by (rule put_node_ok [OF assms(4,5)])
  have "chmod S_IFREG (te_mode e) = te_mode e"
    using r(1) by (intro chmod_type_only) (simp_all add: S_IFREG_def PERMISSIONS_def)
  then have "node_ok L e ?n" using assms(2) r(4,5) by (simp add: node_ok_def)
  moreover have "(case bt_get fs p of None \<Rightarrow> True | Some n \<Rightarrow> \<not> is_folder n)"
    using assms(6) by (simp split: option.split)
  then have "restore_file_with_sync E L s fs p e = Inr fs'"
    using read_content_ok [OF assms(1) r(3)] r(2,4) put(1) open_parent_ok [OF assms(4,5)]
    by (simp add: restore_file_with_sync_def)
  moreover have "file_xattrs E L s e ?n" using r(2) by (simp add: file_xattrs_def)
  ultimately show thesis using that put(2) by blast
qed

lemma restore_entry_ok:
  assumes "json_faithful L" "restorable E L s e" "te_kind e \<noteq> Directory" "p \<noteq> []"
    and d: "bt_get fs (butlast p) = Some d" "folder_ok d"
    and clear: "te_kind e \<noteq> File \<longrightarrow> bt_get fs p = None" "\<forall>n. bt_get fs p = Some n \<longrightarrow> \<not> is_folder n"
  obtains fs' d' where "(case te_kind e of File \<Rightarrow> restore_file_with_sync E L s fs p e
          | Symlink \<Rightarrow> restore_link E fs p e | Fifo \<Rightarrow> create_fifo E fs p (te_mode e) | _ \<Rightarrow> Inr fs) = Inr fs'"
    "entry_done E L s e (bt_get fs' p)" "bt_get fs' (butlast p) = Some d'" "folder_ok d'"
    "\<forall>q. q \<noteq> p \<longrightarrow> q \<noteq> butlast p \<longrightarrow> bt_get fs' q = bt_get fs q"
proof (cases "te_kind e")
  have neq: "butlast p \<noteq> p" using below_butlast [OF assms(4)] by blast
  case File
  obtain fs' n where r: "restore_file_with_sync E L s fs p e = Inr fs'" "node_ok L e n" "file_xattrs E L s e n"
      "bt_get fs' = (bt_get fs)(butlast p \<mapsto> d\<lparr>nd_mtime := os_now E\<rparr>, p \<mapsto> n)"
    by (rule restore_file_ok [OF assms(1) File assms(2) d clear(2)])
  show thesis
    by (rule that [of fs' "d\<lparr>nd_mtime := os_now E\<rparr>"]) (use r File neq d(2) in \<open>simp_all add: entry_done_def\<close>)
next
  have neq: "butlast p \<noteq> p" using below_butlast [OF assms(4)] by blast
  case Symlink
  let ?n = "\<lparr>nd_kind = LinkNode (te_link_target e), nd_mode = S_IFLNK OR 0x1FF,
       nd_mtime = entry_mtime e, nd_xattrs = []\<rparr>"
  obtain fs' where r: "put_node E fs p ?n = Inr fs'"
      "bt_get fs' = (bt_get fs)(butlast p \<mapsto> d\<lparr>nd_mtime := os_now E\<rparr>, p \<mapsto> ?n)"
    by (rule put_node_ok [OF d])
  have "node_ok L e ?n \<and> file_xattrs E L s e ?n" using Symlink by (simp add: node_ok_def file_xattrs_def)
  moreover have "restore_link E fs p e = Inr fs'"
    using clear(1) Symlink r(1) by (simp add: restore_link_def create_node_def)
  ultimately show thesis
    by (intro that [of fs' "d\<lparr>nd_mtime := os_now E\<rparr>"]) (use r Symlink neq d(2) in \<open>simp_all add: entry_done_def\<close>)
next
  case SocketMarker
  show thesis by (rule that [of fs d]) (use SocketMarker clear(1) d in \<open>simp_all add: entry_done_def\<close>)
qed (use assms(2,3) in \<open>simp_all add: restorable_def\<close>)

lemma second_pass_step:
  assumes ready: "rewind_ready E L s U X Y F" and inv: "second_pass E L s Y F (new_folders U X Y) T (bt_get fs)"
    and T: "T \<subseteq> new_entries U X Y" and q: "q \<in> new_entries U X Y" "Y q = Some e" "q \<notin> T"
    and changed: "List.member changed (raw q)"
  shows "\<exists>fs'. apply_entry E L s changed [] fs (raw q, e) = Inr fs' \<and>
     second_pass E L s Y F (new_folders U X Y) (insert q T) (bt_get fs')"
proof -
  have c: "q \<in> changed_paths X Y - U" "te_kind e \<noteq> Directory" "valid_fpath q" "q \<noteq> []" "Y q \<noteq> None"
    using q changed_valid [OF ready] by (auto simp: new_entries_def folder_at_def changed_paths_def)
  note par = first_pass_parents [where G = "bt_get fs" and S = "new_folders U X Y", OF ready c(1,5) _
      second_passD(1) [OF inv], simplified]
  obtain d where d: "bt_get fs (butlast q) = Some d" "folder_ok d" using par(2) by (elim exE conjE)
  note orig = second_pass_rest [OF ready inv T q(1,3)]
  obtain fs1 d1 where fs1:
    "(case bt_get fs q of None \<Rightarrow> Inr fs
      | Some n \<Rightarrow> if is_folder n \<or> te_kind e \<noteq> File \<or> is_link n then remove_path E fs q else Inr fs) = Inr fs1"
    "bt_get fs1 (butlast q) = Some d1" "folder_ok d1" "te_kind e \<noteq> File \<longrightarrow> bt_get fs1 q = None"
    "\<forall>n. bt_get fs1 q = Some n \<longrightarrow> \<not> is_folder n" "\<forall>r. below q r \<longrightarrow> bt_get fs1 r = None"
    "\<forall>p. p \<noteq> q \<longrightarrow> p \<noteq> butlast q \<longrightarrow> \<not> below q p \<longrightarrow> bt_get fs1 p = bt_get fs p"
    by (rule clear_entry [OF ready q(1,2) orig d])
  have rest: "restorable E L s e" by (rule ready_restorable [OF ready c(1) q(2)])
  obtain fs' d' where r: "(case te_kind e of File \<Rightarrow> restore_file_with_sync E L s fs1 q e
          | Symlink \<Rightarrow> restore_link E fs1 q e | Fifo \<Rightarrow> create_fifo E fs1 q (te_mode e) | _ \<Rightarrow> Inr fs1) = Inr fs'"
    "entry_done E L s e (bt_get fs' q)" "bt_get fs' (butlast q) = Some d'" "folder_ok d'"
    "\<forall>p. p \<noteq> q \<longrightarrow> p \<noteq> butlast q \<longrightarrow> bt_get fs' p = bt_get fs1 p"
    by (rule restore_entry_ok [OF readyD(3) [OF ready] rest c(2,4) fs1(2-5)])
  have "create_dir_all E fs (butlast q) = Inr fs"
  proof (rule create_dir_all_exists)
    have "below (butlast q) q" using c(4) by (cases q rule: rev_cases) (auto simp: below_snoc)
    then show "parents_ok (bt_get fs) (butlast q)"
      using par(1) path_below_trans unfolding parents_ok_def by blast
  qed (use d in \<open>auto simp: folder_ok_def\<close>)
  then have "apply_entry E L s changed [] fs (raw q, e) = Inr fs'"
    using c(2) changed fs1(1) r(1) ensure_safe_parent_folders [OF par(1)] safe_join_raw [OF c(3)]
    by (simp add: apply_entry_def selected_def)
  moreover have "second_pass E L s Y F (new_folders U X Y) (insert q T) (bt_get fs')"
  proof (rule second_pass_update [OF ready inv T q(1,2) _ r(2) _ r(3,4)])
    show "butlast q = [] \<or> butlast q \<in> new_folders U X Y" using par(3) .
    show "\<forall>x. below q x \<longrightarrow> bt_get fs' x = None"
    proof (intro allI impI)
      fix x assume x: "below q x"
      then have "x \<noteq> q" "x \<noteq> butlast q" using below_butlast [OF c(4)] by auto
      then show "bt_get fs' x = None" using r(5) fs1(6) x by metis
    qed
    show "\<forall>p. p \<noteq> q \<longrightarrow> p \<noteq> butlast q \<longrightarrow> \<not> below q p \<longrightarrow> bt_get fs' p = bt_get fs p"
      using r(5) fs1(7) by metis
  qed
  ultimately show ?thesis by blast
qed

lemma second_pass_all:
  assumes ready: "rewind_ready E L s U X Y F" and plan: "plan_map U X Y M"
    and changed: "\<forall>q\<in>changed_paths X Y - U. List.member changed (raw q)"
    and first: "first_pass F (new_folders U X Y) (bt_get fs)"
  shows "\<exists>fs'. rfold (apply_entry E L s changed []) fs M = Inr fs' \<and>
     second_pass E L s Y F (new_folders U X Y) (new_entries U X Y) (bt_get fs')"
proof -
  let ?N = "new_entries U X Y" and ?I = "\<lambda>T G. second_pass E L s Y F (new_folders U X Y) T G"
  have sub: "?N \<subseteq> changed_paths X Y - U" by (auto simp: new_entries_def)
  have "\<exists>fs'. rfold (apply_entry E L s changed []) fs M = Inr fs' \<and> ?I (reached_of ?N M) (bt_get fs')"
  proof (rule rfold_steps [where I = "\<lambda>ds fs'. ?I (reached_of ?N ds) (bt_get fs')"])
    show "?I (reached_of ?N []) (bt_get fs)"
      using second_pass_start [OF first] by (simp add: reached_of_def)
  next
    fix ds x rest v assume M: "M = ds @ x # rest" and inv: "?I (reached_of ?N ds) (bt_get v)"
    obtain path e where x: "x = (path, e)" by (cases x)
    obtain q where q: "path = raw q" "q \<in> changed_paths X Y - U" "Y q = Some e" "valid_fpath q" "q \<noteq> []"
      using plan_map_entry [OF ready] plan M x by metis
    have plan': "plan_map U X Y (ds @ (raw q, e) # rest)" using plan M x q(1) by simp
    note snoc = reached_of_snoc [OF ready sub q(4), of ds e]
    show "\<exists>v'. apply_entry E L s changed [] v x = Inr v' \<and> ?I (reached_of ?N (ds @ [x])) (bt_get v')"
    proof (cases "te_kind e = Directory")
      case False
      then have n: "q \<in> ?N" using q(2,3) by (simp add: new_entries_def folder_at_def)
      have "List.member changed (raw q)" using changed q(2) by blast
      moreover have "reached_of ?N ds \<subseteq> ?N" by (auto simp: reached_of_def)
      ultimately show ?thesis
        using second_pass_step [OF ready inv _ n q(3) plan_map_order(1) [OF plan' q(5)]] snoc n x q(1) by simp
    next
      case True
      then have "q \<notin> ?N" using q(3) by (simp add: new_entries_def folder_at_def)
      then show ?thesis using snoc x q(1) True inv by (simp add: apply_entry_def)
    qed
  qed
  moreover have "reached_of ?N M = ?N" by (rule reached_all [OF plan sub]) (auto simp: new_entries_def)
  ultimately show ?thesis by simp
qed

section \<open>After the third pass\<close>

text \<open>
  \<open>A\<close> are the paths that go away and \<open>R\<close> those that are removed by now. The directories that wait
  for their removal change their time when something inside them is removed.
\<close>

definition third_pass ::
  "os \<Rightarrow> lib \<Rightarrow> object_map \<Rightarrow> tree_map \<Rightarrow> (fpath \<rightharpoonup> node) \<Rightarrow> fpath set \<Rightarrow> fpath set \<Rightarrow> fpath set \<Rightarrow> fpath set \<Rightarrow>
   (fpath \<rightharpoonup> node) \<Rightarrow> bool" where
  "third_pass E L s Y F S T A R G \<longleftrightarrow>
     (\<forall>q. q \<in> S \<or> q = [] \<longrightarrow> (\<exists>n. G q = Some n \<and> folder_ok n)) \<and>
     (\<forall>q\<in>T. \<forall>e. Y q = Some e \<longrightarrow> entry_done E L s e (G q)) \<and>
     (\<forall>q\<in>T. \<forall>r. below q r \<longrightarrow> G r = None) \<and>
     (\<forall>q\<in>R. G q = None) \<and>
     (\<forall>q\<in>A - R. (\<forall>t\<in>T. \<not> below t q) \<longrightarrow> (\<exists>t. G q = map_option (nd_mtime_update (\<lambda>_. t)) (F q))) \<and>
     (\<forall>q. q \<notin> S \<longrightarrow> q \<noteq> [] \<longrightarrow> q \<notin> T \<longrightarrow> q \<notin> A \<longrightarrow> (\<forall>t\<in>T. \<not> below t q) \<longrightarrow> G q = F q)"

lemma third_passD:
  assumes "third_pass E L s Y F S T A R G"
  shows "q \<in> S \<or> q = [] \<Longrightarrow> \<exists>n. G q = Some n \<and> folder_ok n"
    and "q \<in> T \<Longrightarrow> Y q = Some e \<Longrightarrow> entry_done E L s e (G q)"
    and "q \<in> T \<Longrightarrow> below q r \<Longrightarrow> G r = None"
    and "q \<in> R \<Longrightarrow> G q = None"
    and "q \<in> A \<Longrightarrow> q \<notin> R \<Longrightarrow> \<forall>t\<in>T. \<not> below t q \<Longrightarrow> \<exists>t. G q = map_option (nd_mtime_update (\<lambda>_. t)) (F q)"
    and "q \<notin> S \<Longrightarrow> q \<noteq> [] \<Longrightarrow> q \<notin> T \<Longrightarrow> q \<notin> A \<Longrightarrow> \<forall>t\<in>T. \<not> below t q \<Longrightarrow> G q = F q"
proof -
  note c1 = assms [unfolded third_pass_def]
  note c2 = conjunct2 [OF c1]
  note c3 = conjunct2 [OF c2]
  note c4 = conjunct2 [OF c3]
  note c5 = conjunct2 [OF c4]
  show "q \<in> S \<or> q = [] \<Longrightarrow> \<exists>n. G q = Some n \<and> folder_ok n" using conjunct1 [OF c1] by blast
  show "q \<in> T \<Longrightarrow> Y q = Some e \<Longrightarrow> entry_done E L s e (G q)" using conjunct1 [OF c2] by blast
  show "q \<in> T \<Longrightarrow> below q r \<Longrightarrow> G r = None" using conjunct1 [OF c3] by blast
  show "q \<in> R \<Longrightarrow> G q = None" using conjunct1 [OF c4] by blast
  show "q \<in> A \<Longrightarrow> q \<notin> R \<Longrightarrow> \<forall>t\<in>T. \<not> below t q \<Longrightarrow> \<exists>t. G q = map_option (nd_mtime_update (\<lambda>_. t)) (F q)"
    using conjunct1 [OF c5] by blast
  show "q \<notin> S \<Longrightarrow> q \<noteq> [] \<Longrightarrow> q \<notin> T \<Longrightarrow> q \<notin> A \<Longrightarrow> \<forall>t\<in>T. \<not> below t q \<Longrightarrow> G q = F q"
    using conjunct2 [OF c5] by blast
qed

lemma mtime_same: "\<exists>t. x = map_option (nd_mtime_update (\<lambda>_. t)) x"
proof (cases x)
  case (Some n)
  then have "x = map_option (nd_mtime_update (\<lambda>_. nd_mtime n)) x" by simp
  then show ?thesis by blast
qed simp

lemma third_pass_start:
  assumes "second_pass E L s Y F S T G" "A \<inter> S = {}" "A \<inter> T = {}" "[] \<notin> A"
  shows "third_pass E L s Y F S T A {} G"
proof -
  note D = second_passD [OF assms(1)]
  have "G q = F q" if "q \<in> A" "\<forall>t\<in>T. \<not> below t q" for q
    using D(4) [OF _ _ _ that(2)] that(1) assms(2-4) by auto
  then have "\<exists>t. G q = map_option (nd_mtime_update (\<lambda>_. t)) (F q)" if "q \<in> A" "\<forall>t\<in>T. \<not> below t q" for q
    using that mtime_same [of "F q"] by simp
  then show ?thesis
    unfolding third_pass_def
    by (intro conjI allI impI ballI) (simp_all add: D(1) D(2) D(3) D(4))
qed

lemma lost_path:
  assumes "rewind_ready E L s U X Y F" "q \<in> lost_paths U X Y"
  shows "q \<in> changed_paths X Y - U" "Y q = None" "X q \<noteq> None" "\<not> folder_at Y q" "q \<noteq> []" "valid_fpath q"
proof -
  show c: "q \<in> changed_paths X Y - U" "Y q = None" using assms(2) by (auto simp: lost_paths_def)
  show "X q \<noteq> None" using changed_exists [OF readyD(1,2) [OF assms(1)]] c by blast
  show "\<not> folder_at Y q" using c(2) by (simp add: folder_at_def)
  show "q \<noteq> []" using c(1) by (simp add: changed_paths_def)
  show "valid_fpath q" using changed_valid [OF assms(1)] c(1) by simp
qed

text \<open>The parents of a path that goes away are not links.\<close>

lemma lost_parent_cases:
  assumes "rewind_ready E L s U X Y F" "q \<in> lost_paths U X Y" "below p q" "p \<noteq> []"
  shows "p \<in> new_folders U X Y \<or> p \<in> new_entries U X Y \<or> p \<in> lost_paths U X Y"
  using changed_parent [OF assms(1) lost_path(1) [OF assms(1,2)] assms(3,4)]
  by (auto simp: plan_sets)

lemma lost_safe_parent:
  assumes ready: "rewind_ready E L s U X Y F" and q: "q \<in> lost_paths U X Y"
    and inv: "third_pass E L s Y F (new_folders U X Y) (new_entries U X Y) (lost_paths U X Y) R (bt_get fs)"
  shows "ensure_safe_parent fs q = Inr ()"
proof (rule ensure_safe_parent_ok)
  fix p d assume p: "below p q" "p \<noteq> []" "bt_get fs p = Some d"
  note D = third_passD [OF inv]
  from lost_parent_cases [OF ready q p(1,2)] show "\<not> is_link d"
  proof (elim disjE)
    assume "p \<in> new_folders U X Y"
    then obtain n where "bt_get fs p = Some n" "folder_ok n" using D(1) [of p] by (elim exE conjE disjI1 meta_impE) auto
    then show ?thesis using p(3) by (simp add: folder_ok_def folder_not_link)
  next
    assume n: "p \<in> new_entries U X Y"
    then obtain e where e: "Y p = Some e" "p \<in> changed_paths X Y - U" "\<not> folder_at Y p" by (auto simp: new_entries_def)
    have "te_kind e \<noteq> Symlink"
      using ready_gone(3) [OF ready e(2,3,1) _ p(1)] lost_path(3) [OF ready q] by blast
    moreover have "restorable E L s e" by (rule ready_restorable [OF ready e(2,1)])
    moreover have "te_kind e \<noteq> Directory" using e(1,3) by (simp add: folder_at_def)
    ultimately show ?thesis using D(2) [OF n e(1)] p(3)
      by (auto simp: entry_done_def node_ok_def restorable_def is_link_def split: if_splits entry_kind.splits)
  next
    assume l: "p \<in> lost_paths U X Y"
    then have pl: "p \<notin> U" using lost_path(1) [OF ready l] by simp
    show ?thesis
    proof (cases "p \<in> R \<or> (\<exists>t\<in>new_entries U X Y. below t p)")
      case True
      then show ?thesis using D(3,4) p(3) by (metis option.distinct(1))
    next
      case False
      then obtain t where "bt_get fs p = map_option (nd_mtime_update (\<lambda>_. t)) (F p)" using D(5) [OF l] by blast
      then obtain n where n: "F p = Some n" "d = n\<lparr>nd_mtime := t\<rparr>" using p(3) by (cases "F p") auto
      obtain e where e: "X p = Some e" "node_ok L e n"
        by (rule holds_treeD [OF readyD(5) [OF ready] p(2) pl n(1)])
      have "folder_at X p" by (rule tree_like_parent [OF readyD(1) [OF ready] lost_path(3) [OF ready q] p(1,2)])
      then show ?thesis using e n(2) by (auto simp: folder_at_def node_ok_def is_folder_def is_link_def)
    qed
  qed
qed

text \<open>Below a path whose own longer paths are removed, nothing is left.\<close>

lemma lost_nothing_below:
  assumes ready: "rewind_ready E L s U X Y F" and q: "q \<in> lost_paths U X Y"
    and inv: "third_pass E L s Y F (new_folders U X Y) (new_entries U X Y) (lost_paths U X Y) R G"
    and deeper: "\<And>r. r \<in> lost_paths U X Y \<Longrightarrow> below q r \<Longrightarrow> r \<in> R" and r: "below q r"
  shows "G r = None"
proof (cases "r \<in> R \<or> (\<exists>t\<in>new_entries U X Y. below t r)")
  case True
  then show ?thesis using third_passD(3,4) [OF inv] by blast
next
  case False
  note l = lost_path [OF ready q]
  have "Y r = None" using tree_like_parent [OF readyD(2) [OF ready] _ r l(5)] l(4) by blast
  then have out: "r \<notin> new_folders U X Y" "r \<notin> new_entries U X Y" by (auto simp: plan_sets folder_at_def)
  have nl: "r \<notin> lost_paths U X Y" using deeper [OF _ r] False by blast
  then have "F r = None" using lost_below(1) [OF ready l(1,4) r] by blast
  moreover have "r \<noteq> []" using r by (cases r) auto
  then have "G r = F r" by (rule third_passD(6) [OF inv out(1) _ out(2) nl]) (use False in blast)
  ultimately show ?thesis by simp
qed

lemma lost_parent_folder:
  assumes ready: "rewind_ready E L s U X Y F" and q: "q \<in> lost_paths U X Y"
    and inv: "third_pass E L s Y F (new_folders U X Y) (new_entries U X Y) (lost_paths U X Y) R G"
    and parent: "butlast q \<notin> R" and present: "G q \<noteq> None"
  shows "\<exists>d. G (butlast q) = Some d \<and> folder_ok d" and "q \<notin> R"
    "butlast q = [] \<or> butlast q \<in> new_folders U X Y \<or>
     (butlast q \<in> lost_paths U X Y \<and> (\<forall>t\<in>new_entries U X Y. \<not> below t (butlast q)))"
proof -
  note D = third_passD [OF inv] and l = lost_path [OF ready q]
  show qR: "q \<notin> R" using D(4) [of q] present by auto
  have bq: "below (butlast q) q" using l(5) by (cases q rule: rev_cases) (auto simp: below_snoc)
  have noT: "\<forall>t\<in>new_entries U X Y. \<not> below t q" using D(3) [of _ q] present by auto
  then have noT': "\<forall>t\<in>new_entries U X Y. \<not> below t (butlast q)" using path_below_trans [OF _ bq] by blast
  have notT: "butlast q \<notin> new_entries U X Y" using noT bq by blast
  show cases: "butlast q = [] \<or> butlast q \<in> new_folders U X Y \<or>
     (butlast q \<in> lost_paths U X Y \<and> (\<forall>t\<in>new_entries U X Y. \<not> below t (butlast q)))"
    using lost_parent_cases [OF ready q bq] notT noT' by blast
  show "\<exists>d. G (butlast q) = Some d \<and> folder_ok d"
  proof (cases "butlast q \<in> new_folders U X Y \<or> butlast q = []")
    case False
    then have p: "butlast q \<in> lost_paths U X Y" using cases by blast
    obtain t where "G q = map_option (nd_mtime_update (\<lambda>_. t)) (F q)" using D(5) [OF q qR noT] by blast
    then have "F q \<noteq> None" using present by auto
    from proper_below [OF readyD(4) [OF ready] this bq]
    obtain d where d: "F (butlast q) = Some d" "is_folder d" by blast
    note pl = lost_path [OF ready p]
    have "folder_ok d" by (rule lost_folder [OF ready pl(1,4) d])
    moreover obtain t where "G (butlast q) = map_option (nd_mtime_update (\<lambda>_. t)) (F (butlast q))"
      using D(5) [OF p parent noT'] by blast
    ultimately show ?thesis using d(1) by simp
  qed (rule D(1))
qed

lemma third_pass_update:
  assumes inv: "third_pass E L s Y F S T A R G" and "q \<in> A" "A \<inter> S = {}" "A \<inter> T = {}" "S \<inter> T = {}" "[] \<notin> T" "[] \<notin> A"
    and same: "G' = (\<lambda>p. if p = q \<or> below q p then None else (G(butlast q \<mapsto> d\<lparr>nd_mtime := t\<rparr>)) p)"
    and none: "\<And>r. below q r \<Longrightarrow> G r = None" and d: "G (butlast q) = Some d" "folder_ok d"
    and parent: "butlast q = [] \<or> butlast q \<in> S \<or> (butlast q \<in> A \<and> (\<forall>t\<in>T. \<not> below t (butlast q)))"
    and "butlast q \<notin> R" "q \<noteq> []"
  shows "third_pass E L s Y F S T A (insert q R) G'"
proof -
  note D = third_passD [OF inv]
  have G': "G' p = (if p = q then None else if p = butlast q then Some (d\<lparr>nd_mtime := t\<rparr>) else G p)" for p
    using none below_butlast [OF \<open>q \<noteq> []\<close>] by (auto simp: same)
  have other: "G' p = G p" if "p \<noteq> q" "p \<noteq> butlast q" for p using G' that by simp
  have qn: "q \<notin> S" "q \<notin> T" using assms(2-4) by auto
  have pT: "butlast q \<notin> T" using parent assms(4-6) by auto
  show ?thesis
    unfolding third_pass_def
  proof (intro conjI allI impI ballI)
    fix p
    show "\<exists>n. G' p = Some n \<and> folder_ok n" if "p \<in> S \<or> p = []"
    proof (cases "p = butlast q")
      case False
      moreover have "p \<noteq> q" using that qn assms(14) by auto
      ultimately show ?thesis using other D(1) [OF that] by simp
    next
      case True
      then have "p \<noteq> q" using below_butlast [OF \<open>q \<noteq> []\<close>] by auto
      then show ?thesis using G' True d(2) by simp
    qed
    show "entry_done E L s e (G' p)" if "p \<in> T" "Y p = Some e" for e
      using other [of p] qn pT D(2) [OF that] that(1) by (cases "p = q"; cases "p = butlast q") auto
    show "G' r = None" if "p \<in> T" "below p r" for r
    proof (cases "r = butlast q")
      case True
      then show ?thesis using D(3) [OF that] d(1) by simp
    qed (use G' [of r] D(3) [OF that] in simp)
    show "G' p = None" if "p \<in> insert q R"
    proof (cases "p = q")
      case False
      then have "p \<in> R" "p \<noteq> butlast q" using that assms(13) by auto
      then show ?thesis using other [OF False] D(4) by simp
    qed (simp add: G')
    show "\<exists>t. G' p = map_option (nd_mtime_update (\<lambda>_. t)) (F p)" if pA: "p \<in> A - insert q R" and pT: "\<forall>t\<in>T. \<not> below t p"
    proof -
      have p: "p \<in> A" "p \<notin> R" "p \<noteq> q" using pA by auto
      obtain t' where t': "G p = map_option (nd_mtime_update (\<lambda>_. t')) (F p)" using D(5) [OF p(1,2) pT] by blast
      show ?thesis
      proof (cases "p = butlast q")
        case True
        then have "map_option (nd_mtime_update (\<lambda>_. t')) (F p) = Some d" using t' d(1) by metis
        then obtain n where "F p = Some n" "d = n\<lparr>nd_mtime := t'\<rparr>" by (cases "F p") auto
        then have "G' p = map_option (nd_mtime_update (\<lambda>_. t)) (F p)" using G' p(3) True by simp
        then show ?thesis by blast
      next
        case False
        then have "G' p = map_option (nd_mtime_update (\<lambda>_. t')) (F p)" using other p(3) t' by simp
        then show ?thesis by blast
      qed
    qed
    show "G' p = F p" if "p \<notin> S" "p \<noteq> []" "p \<notin> T" "p \<notin> A" "\<forall>t\<in>T. \<not> below t p"
    proof -
      have "p \<noteq> q" "p \<noteq> butlast q" using that assms(2) parent by auto
      then show ?thesis using other D(6) [OF that] by simp
    qed
  qed
qed

text \<open>The changes of a plan: every changed path, removed where the target lacks it.\<close>

definition plan_changes :: "fpath set \<Rightarrow> tree_map \<Rightarrow> tree_map \<Rightarrow> rewind_change list \<Rightarrow> bool" where
  "plan_changes U X Y changes \<longleftrightarrow>
     (\<forall>c\<in>set changes. \<exists>q\<in>changed_paths X Y - U. rc_path c = raw q \<and> (rc_action c = ''remove'' \<longleftrightarrow> Y q = None)) \<and>
     (\<forall>q\<in>changed_paths X Y - U. \<exists>c\<in>set changes. rc_path c = raw q)"

lemma plan_changes_member:
  "plan_changes U X Y changes \<Longrightarrow> \<forall>q\<in>changed_paths X Y - U. List.member (map rc_path changes) (raw q)"
  by (force simp: plan_changes_def)

lemma removals_set:
  assumes "rewind_ready E L s U X Y F" "plan_changes U X Y changes"
  shows "path \<in> set (removals changes) \<longleftrightarrow> (\<exists>q\<in>lost_paths U X Y. path = raw q)"
proof
  assume "path \<in> set (removals changes)"
  then obtain c where c: "c \<in> set changes" "rc_action c = ''remove''" "path = rc_path c"
    by (auto simp: removals_def)
  then show "\<exists>q\<in>lost_paths U X Y. path = raw q"
    using assms(2) unfolding plan_changes_def lost_paths_def by fastforce
next
  assume "\<exists>q\<in>lost_paths U X Y. path = raw q"
  then obtain q where q: "q \<in> lost_paths U X Y" "path = raw q" by blast
  note l = lost_path [OF assms(1) q(1)]
  obtain c where c: "c \<in> set changes" "rc_path c = raw q"
    using assms(2) l(1) unfolding plan_changes_def by blast
  then obtain q' where q': "q' \<in> changed_paths X Y - U" "raw q = raw q'" "rc_action c = ''remove'' \<longleftrightarrow> Y q' = None"
    using assms(2) unfolding plan_changes_def by fastforce
  then have "q' = q" using raw_inj [OF changed_valid [OF assms(1)] l(6)] by auto
  then show "path \<in> set (removals changes)" using c q(2) q'(3) l(2) by (force simp: removals_def)
qed

lemma removals_order:
  assumes "removals changes = ds @ x # rest" "path \<in> set (removals changes)" "length x < length path"
  shows "path \<in> set ds"
proof -
  have "sorted (map (\<lambda>path. - int (length path)) (removals changes))" by (simp add: removals_def)
  then have "\<forall>y\<in>set (x # rest). length y \<le> length x" by (auto simp: assms(1) sorted_append)
  then show ?thesis using assms by fastforce
qed

lemma removals_order_parent:
  assumes "removals changes = ds @ x # rest" "path \<in> set ds"
  shows "length x \<le> length path"
proof -
  have "sorted (map (\<lambda>path. - int (length path)) (removals changes))" by (simp add: removals_def)
  then show ?thesis using assms by (auto simp: sorted_append)
qed

lemma plan_disjoint:
  "lost_paths U X Y \<inter> new_folders U X Y = {}" "lost_paths U X Y \<inter> new_entries U X Y = {}"
  "new_folders U X Y \<inter> new_entries U X Y = {}" "[] \<notin> new_entries U X Y" "[] \<notin> lost_paths U X Y"
  by (auto simp: plan_sets folder_at_def changed_paths_def)

lemma third_pass_step:
  assumes ready: "rewind_ready E L s U X Y F" and q: "q \<in> lost_paths U X Y"
    and inv: "third_pass E L s Y F (new_folders U X Y) (new_entries U X Y) (lost_paths U X Y) R (bt_get fs)"
    and deeper: "\<And>r. r \<in> lost_paths U X Y \<Longrightarrow> below q r \<Longrightarrow> r \<in> R" and parent: "butlast q \<notin> R"
  shows "\<exists>fs'. apply_removal E [] fs (raw q) = Inr fs' \<and>
     third_pass E L s Y F (new_folders U X Y) (new_entries U X Y) (lost_paths U X Y) (insert q R) (bt_get fs')"
proof -
  note l = lost_path [OF ready q] and safe = lost_safe_parent [OF ready q inv]
  show ?thesis
  proof (cases "bt_get fs q")
    case None
    then have "third_pass E L s Y F (new_folders U X Y) (new_entries U X Y) (lost_paths U X Y) (insert q R) (bt_get fs)"
      using inv unfolding third_pass_def by (elim conjE, intro conjI) auto
    then show ?thesis using None safe l(6) by (simp add: apply_removal_def selected_def)
  next
    case (Some n)
    then have present: "bt_get fs q \<noteq> None" by simp
    note p = lost_parent_folder [OF ready q inv parent present]
    obtain d where d: "bt_get fs (butlast q) = Some d" "folder_ok d" using p(1) by (elim exE conjE)
    note none = lost_nothing_below [OF ready q inv deeper]
    obtain fs' where r: "remove_path E fs q = Inr fs'" "bt_get fs' = (\<lambda>p. if p = q \<or> below q p then None
         else ((bt_get fs)(butlast q \<mapsto> d\<lparr>nd_mtime := os_now E\<rparr>)) p)"
      by (rule remove_path_ok [OF Some d]) (use none in simp_all)
    have "apply_removal E [] fs (raw q) = Inr fs'"
      using Some safe l(6) r(1) by (simp add: apply_removal_def selected_def)
    moreover have "third_pass E L s Y F (new_folders U X Y) (new_entries U X Y) (lost_paths U X Y) (insert q R) (bt_get fs')"
      by (rule third_pass_update [OF inv q plan_disjoint r(2) none d p(3) parent l(5)])
    ultimately show ?thesis by blast
  qed
qed

lemma third_pass_all:
  assumes ready: "rewind_ready E L s U X Y F" and plan: "plan_changes U X Y changes"
    and second: "second_pass E L s Y F (new_folders U X Y) (new_entries U X Y) (bt_get fs)"
  shows "\<exists>fs'. rfold (apply_removal E []) fs (removals changes) = Inr fs' \<and>
     third_pass E L s Y F (new_folders U X Y) (new_entries U X Y) (lost_paths U X Y) (lost_paths U X Y) (bt_get fs')"
proof -
  let ?A = "lost_paths U X Y"
  let ?R = "\<lambda>ds. {q \<in> ?A. raw q \<in> set ds}"
  let ?I = "\<lambda>R G. third_pass E L s Y F (new_folders U X Y) (new_entries U X Y) ?A R G"
  note set = removals_set [OF ready plan]
  have "\<exists>fs'. rfold (apply_removal E []) fs (removals changes) = Inr fs' \<and> ?I (?R (removals changes)) (bt_get fs')"
  proof (rule rfold_steps [where I = "\<lambda>ds fs'. ?I (?R ds) (bt_get fs')"])
    show "?I (?R []) (bt_get fs)"
      using third_pass_start [OF second plan_disjoint(1,2,5)] by simp
  next
    fix ds x rest v assume R: "removals changes = ds @ x # rest" and inv: "?I (?R ds) (bt_get v)"
    obtain q where q: "q \<in> ?A" "x = raw q" using set [of x] R by auto
    note l = lost_path [OF ready q(1)]
    have deeper: "r \<in> ?R ds" if "r \<in> ?A" "below q r" for r
      using removals_order [OF R, of "raw r"] set that raw_below(2) [OF that(2) l(5)] q(2) by auto
    have parent: "butlast q \<notin> ?R ds"
    proof
      assume b: "butlast q \<in> ?R ds"
      then have "butlast q \<noteq> []" using lost_path(5) [OF ready] by blast
      moreover have "below (butlast q) q" using l(5) by (cases q rule: rev_cases) (auto simp: below_snoc)
      ultimately show False
        using raw_below(2) [of "butlast q" q] removals_order_parent [OF R, of "raw (butlast q)"] b q(2) by auto
    qed
    have "?R (ds @ [x]) = insert q (?R ds)"
      using q lost_path(6) [OF ready] raw_inj [OF _ l(6)] by auto
    then show "\<exists>v'. apply_removal E [] v x = Inr v' \<and> ?I (?R (ds @ [x])) (bt_get v')"
      using third_pass_step [OF ready q(1) inv deeper parent] q(2) by simp
  qed
  moreover have "?R (removals changes) = ?A" using set by auto
  ultimately show ?thesis by simp
qed

end
