(* ===== verification/Rewind_Restores.thy ===== *)
theory Rewind_Restores
  imports Rewind_Passes
begin

text \<open>
  The last pass, which gives the directories their recorded mode and time, and what all four passes
  do together: outside the paths that are left alone the workspace holds the target.
\<close>

section \<open>After the fourth pass\<close>

definition fourth_pass ::
  "lib \<Rightarrow> tree_map \<Rightarrow> fpath set \<Rightarrow> fpath set \<Rightarrow> (fpath \<rightharpoonup> node) \<Rightarrow> (fpath \<rightharpoonup> node) \<Rightarrow> bool" where
  "fourth_pass L Y S T H G \<longleftrightarrow>
     (\<forall>q\<in>S. \<exists>n. G q = Some n \<and> is_folder n \<and> nd_mode n AND NOT PERMISSIONS = S_IFDIR) \<and>
     (\<forall>q\<in>T. \<forall>e. Y q = Some e \<longrightarrow> (\<exists>n. G q = Some n \<and> node_ok L e n)) \<and>
     (\<forall>q. q \<notin> S \<longrightarrow> G q = H q)"

lemma fourth_passD:
  assumes "fourth_pass L Y S T H G"
  shows "q \<in> S \<Longrightarrow> \<exists>n. G q = Some n \<and> is_folder n \<and> nd_mode n AND NOT PERMISSIONS = S_IFDIR"
    and "q \<in> T \<Longrightarrow> Y q = Some e \<Longrightarrow> \<exists>n. G q = Some n \<and> node_ok L e n"
    and "q \<notin> S \<Longrightarrow> G q = H q"
  using assms unfolding fourth_pass_def by blast+

lemma finish_directory_ok:
  assumes "bt_get fs p = Some n" "is_folder n" "nd_mode n AND NOT PERMISSIONS = S_IFDIR"
    and "te_kind e = Directory" "te_mode e AND NOT PERMISSIONS = S_IFDIR"
  obtains fs' n' where "finish_directory fs p e = Inr fs'" "bt_get fs' = (bt_get fs)(p \<mapsto> n')" "node_ok L e n'"
    "is_folder n'" "nd_mode n' AND NOT PERMISSIONS = S_IFDIR"
proof -
  let ?n = "n\<lparr>nd_mode := te_mode e, nd_mtime := entry_mtime e\<rparr>"
  have "chmod (nd_mode n) (te_mode e) = te_mode e" using assms(3,5) by (intro chmod_same) simp
  then have "\<exists>fs'. finish_directory fs p e = Inr fs' \<and> bt_get fs' = (bt_get fs)(p \<mapsto> ?n)"
    using assms(1) by (simp add: finish_directory_def set_mode_def set_mtime_def bt_get_insert)
  moreover have "node_ok L e ?n" "is_folder ?n" "nd_mode ?n AND NOT PERMISSIONS = S_IFDIR"
    using assms(2,4,5) by (simp_all add: node_ok_def is_folder_def)
  ultimately show thesis using that by blast
qed

lemma fourth_pass_step:
  assumes ready: "rewind_ready E L s U X Y F" and q: "q \<in> new_folders U X Y" "Y q = Some e"
    and inv: "fourth_pass L Y (new_folders U X Y) T H (bt_get fs)" and changed: "List.member changed (raw q)"
  shows "\<exists>fs'. apply_finish changed [] fs (raw q, e) = Inr fs' \<and>
     fourth_pass L Y (new_folders U X Y) (insert q T) H (bt_get fs')"
proof -
  have c: "q \<in> changed_paths X Y - U" "te_kind e = Directory" "valid_fpath q"
    using q changed_valid [OF ready] by (auto simp: new_folders_def folder_at_def)
  note D = fourth_passD [OF inv]
  obtain n where n: "bt_get fs q = Some n" "is_folder n" "nd_mode n AND NOT PERMISSIONS = S_IFDIR"
    using D(1) [OF q(1)] by (elim exE conjE)
  have "te_mode e AND NOT PERMISSIONS = S_IFDIR"
    using ready_restorable [OF ready c(1) q(2)] c(2) by (simp add: restorable_def)
  then obtain fs' n' where r: "finish_directory fs q e = Inr fs'" "bt_get fs' = (bt_get fs)(q \<mapsto> n')" "node_ok L e n'"
      "is_folder n'" "nd_mode n' AND NOT PERMISSIONS = S_IFDIR"
    by (rule finish_directory_ok [OF n c(2)])
  have "fourth_pass L Y (new_folders U X Y) (insert q T) H (bt_get fs')"
    unfolding fourth_pass_def
  proof (intro conjI allI impI ballI)
    fix p
    show "\<exists>n. bt_get fs' p = Some n \<and> is_folder n \<and> nd_mode n AND NOT PERMISSIONS = S_IFDIR" if "p \<in> new_folders U X Y"
      using D(1) [OF that] r(2,4,5) by (cases "p = q") simp_all
    show "\<exists>n. bt_get fs' p = Some n \<and> node_ok L e' n" if "p \<in> insert q T" "Y p = Some e'" for e'
      using D(2) [of p e'] that r(2,3) q(2) by (cases "p = q") simp_all
    show "bt_get fs' p = H p" if "p \<notin> new_folders U X Y" using D(3) [OF that] r(2) that q(1) by (cases "p = q") simp_all
  qed
  moreover have "apply_finish changed [] fs (raw q, e) = Inr fs'"
    using c(2,3) changed r(1) by (simp add: apply_finish_def selected_def)
  ultimately show ?thesis by blast
qed

lemma fourth_pass_all:
  assumes ready: "rewind_ready E L s U X Y F" and plan: "plan_map U X Y M"
    and changed: "\<forall>q\<in>changed_paths X Y - U. List.member changed (raw q)"
    and folders: "\<And>q. q \<in> new_folders U X Y \<Longrightarrow> \<exists>n. bt_get fs q = Some n \<and> folder_ok n"
  shows "\<exists>fs'. rfold (apply_finish changed []) fs (rev M) = Inr fs' \<and>
     fourth_pass L Y (new_folders U X Y) (new_folders U X Y) (bt_get fs) (bt_get fs')"
proof -
  let ?N = "new_folders U X Y" and ?I = "\<lambda>T G. fourth_pass L Y (new_folders U X Y) T (bt_get fs) G"
  have sub: "?N \<subseteq> changed_paths X Y - U" by (auto simp: new_folders_def)
  have "\<exists>fs'. rfold (apply_finish changed []) fs (rev M) = Inr fs' \<and> ?I (reached_of ?N (rev M)) (bt_get fs')"
  proof (rule rfold_steps [where I = "\<lambda>ds fs'. ?I (reached_of ?N ds) (bt_get fs')"])
    show "?I (reached_of ?N []) (bt_get fs)"
    proof -
      have "\<exists>n. bt_get fs q = Some n \<and> is_folder n \<and> nd_mode n AND NOT PERMISSIONS = S_IFDIR" if "q \<in> ?N" for q
        using folders [OF that] by (auto simp: folder_ok_def)
      then show ?thesis by (simp add: reached_of_def fourth_pass_def)
    qed
  next
    fix ds x rest v assume M: "rev M = ds @ x # rest" and inv: "?I (reached_of ?N ds) (bt_get v)"
    obtain path e where x: "x = (path, e)" by (cases x)
    have "M = rev rest @ (path, e) # rev ds" using M x by (simp add: rev_eq_append_conv)
    then obtain q where q: "path = raw q" "q \<in> changed_paths X Y - U" "Y q = Some e" "valid_fpath q" "q \<noteq> []"
      using plan_map_entry [OF ready] plan by metis
    note snoc = reached_of_snoc [OF ready sub q(4), of ds e]
    show "\<exists>v'. apply_finish changed [] v x = Inr v' \<and> ?I (reached_of ?N (ds @ [x])) (bt_get v')"
    proof (cases "te_kind e = Directory")
      case True
      then have n: "q \<in> ?N" using q(2,3) by (simp add: new_folders_def folder_at_def)
      have "List.member changed (raw q)" using changed q(2) by blast
      with fourth_pass_step [OF ready n q(3) inv] show ?thesis using snoc n x q(1) by simp
    next
      case False
      then have "q \<notin> ?N" using q(3) by (simp add: new_folders_def folder_at_def)
      then show ?thesis using snoc x q(1) False inv by (simp add: apply_finish_def)
    qed
  qed
  moreover have "reached_of ?N (rev M) = ?N"
    using reached_all [OF plan sub] by (auto simp: new_folders_def folder_at_def reached_of_def)
  ultimately show ?thesis by simp
qed

section \<open>All passes\<close>

text \<open>
  The workspace outside \<open>U\<close> is what the tree records. A socket cannot be created again: where a
  tree marks one there is a socket or nothing.
\<close>

definition restored_tree :: "lib \<Rightarrow> fpath set \<Rightarrow> tree_map \<Rightarrow> (fpath \<rightharpoonup> node) \<Rightarrow> bool" where
  "restored_tree L U Y G \<longleftrightarrow> (\<forall>q. q \<noteq> [] \<longrightarrow> q \<notin> U \<longrightarrow>
     (case Y q of
        None \<Rightarrow> G q = None
      | Some e \<Rightarrow> (te_kind e = SocketMarker \<and> G q = None) \<or> (\<exists>n. G q = Some n \<and> node_ok L e n)))"

lemma unchanged_held:
  assumes ready: "rewind_ready E L s U X Y F" and q: "q \<noteq> []" "q \<notin> U" "q \<notin> changed_paths X Y" and "G q = F q"
  shows "case Y q of None \<Rightarrow> G q = None
     | Some e \<Rightarrow> (te_kind e = SocketMarker \<and> G q = None) \<or> (\<exists>n. G q = Some n \<and> node_ok L e n)"
proof -
  have held: "case X q of None \<Rightarrow> F q = None | Some e \<Rightarrow> \<exists>n. F q = Some n \<and> node_ok L e n"
    using readyD(5) [OF ready] q(1,2) unfolding holds_tree_def by blast
  have "\<not> differs (X q) (Y q)" using q(1,3) by (auto simp: changed_paths_def)
  then consider "X q = Y q" | "directory_target_only_difference (X q) (Y q)"
    | e where "X q = None" "Y q = Some e" "te_kind e = SocketMarker"
    by (auto simp: differs_def)
  then show ?thesis
  proof cases
    case 1
    then show ?thesis using held assms(5) by (auto split: option.splits)
  next
    case 2
    then obtain b a where ba: "X q = Some b" "Y q = Some a" "te_kind b = Directory" "te_kind a = Directory"
        "b\<lparr>te_target := None\<rparr> = a\<lparr>te_target := None\<rparr>"
      by (auto simp: directory_target_only_difference_def split: option.splits)
    have "te_mode b = te_mode a" "entry_mtime b = entry_mtime a"
      using arg_cong [OF ba(5), of te_mode] arg_cong [OF ba(5), of entry_mtime] by (simp_all add: entry_mtime_def)
    then show ?thesis using held ba(1-4) assms(5) by (simp add: node_ok_def)
  next
    case 3
    then show ?thesis using held assms(5) by simp
  qed
qed

lemma passes_restored:
  assumes ready: "rewind_ready E L s U X Y F"
    and third: "third_pass E L s Y F (new_folders U X Y) (new_entries U X Y) (lost_paths U X Y) (lost_paths U X Y) H"
    and fourth: "fourth_pass L Y (new_folders U X Y) (new_folders U X Y) H G"
  shows "restored_tree L U Y G" "u \<in> U \<Longrightarrow> G u = F u" "\<exists>d. G [] = Some d \<and> is_folder d"
    "q \<in> changed_paths X Y - U \<Longrightarrow> Y q = Some e \<Longrightarrow> te_kind e = File \<Longrightarrow> G q = Some n \<Longrightarrow> file_xattrs E L s e n"
proof -
  note D = third_passD [OF third] and E = fourth_passD [OF fourth]
  have "[] \<notin> new_folders U X Y" by (simp add: new_folders_def changed_paths_def)
  then show "\<exists>d. G [] = Some d \<and> is_folder d" using D(1) [of "[]"] E(3) [of "[]"] by (auto simp: folder_ok_def)
  show "file_xattrs E L s e n" if "q \<in> changed_paths X Y - U" "Y q = Some e" "te_kind e = File" "G q = Some n"
  proof -
    have q: "q \<in> new_entries U X Y" "q \<notin> new_folders U X Y" using that by (auto simp: plan_sets folder_at_def)
    then show ?thesis using D(2) [OF q(1) that(2)] E(3) [OF q(2)] that(3,4) by (auto simp: entry_done_def)
  qed
  have rest: "G q = F q" if "q \<noteq> []" "q \<notin> changed_paths X Y - U" for q
  proof -
    have out: "q \<notin> new_folders U X Y" "q \<notin> new_entries U X Y" "q \<notin> lost_paths U X Y"
      using that(2) by (auto simp: plan_sets)
    show ?thesis
    proof (cases "\<exists>t\<in>new_entries U X Y. below t q")
      case True
      then obtain t where t: "t \<in> new_entries U X Y" "below t q" by blast
      then have "t \<in> changed_paths X Y - U" "\<not> folder_at Y t" by (auto simp: new_entries_def)
      then have "F q = None" using lost_below(1) [OF ready _ _ t(2)] out(3) by blast
      then show ?thesis using D(3) [OF t] E(3) [OF out(1)] by simp
    next
      case False
      then show ?thesis using D(6) [OF out(1) that(1) out(2,3)] E(3) [OF out(1)] by simp
    qed
  qed
  show "u \<in> U \<Longrightarrow> G u = F u" using rest [of u] readyD(6) [OF ready] by auto
  show "restored_tree L U Y G"
    unfolding restored_tree_def
  proof (intro allI impI)
    fix q assume q: "q \<noteq> []" "q \<notin> U"
    show "case Y q of None \<Rightarrow> G q = None
     | Some e \<Rightarrow> (te_kind e = SocketMarker \<and> G q = None) \<or> (\<exists>n. G q = Some n \<and> node_ok L e n)"
    proof (cases "q \<in> changed_paths X Y")
      case False
      then have "G q = F q" using rest [OF q(1)] by simp
      then show ?thesis by (rule unchanged_held [OF ready q False])
    next
      case True
      show ?thesis
      proof (cases "Y q")
        case None
        then have "q \<in> lost_paths U X Y" using True q by (simp add: lost_paths_def)
        moreover have "q \<notin> new_folders U X Y" using None by (simp add: new_folders_def folder_at_def)
        ultimately show ?thesis using D(4) E(3) None by simp
      next
        case (Some e)
        show ?thesis
        proof (cases "te_kind e = Directory")
          case True
          then have "q \<in> new_folders U X Y" using \<open>q \<in> changed_paths X Y\<close> q Some by (simp add: new_folders_def folder_at_def)
          then show ?thesis using E(2) Some by simp
        next
          case False
          then have n: "q \<in> new_entries U X Y" "q \<notin> new_folders U X Y"
            using True q Some by (simp_all add: plan_sets folder_at_def)
          then show ?thesis using D(2) [OF n(1) Some] E(3) [OF n(2)] Some by (auto simp: entry_done_def split: if_splits)
        qed
      qed
    qed
  qed
qed

lemma apply_plan_restores:
  assumes ready: "rewind_ready E L s U X Y (bt_get fs)" and plan: "plan_map U X Y M" "plan_changes U X Y changes"
  shows "\<exists>fs'. apply_plan_at E L s fs M changes [] = Inr fs' \<and> restored_tree L U Y (bt_get fs') \<and>
     (\<forall>u\<in>U. bt_get fs' u = bt_get fs u) \<and> (\<exists>d. bt_get fs' [] = Some d \<and> is_folder d) \<and>
     (\<forall>q\<in>changed_paths X Y - U. \<forall>e n. Y q = Some e \<longrightarrow> te_kind e = File \<longrightarrow> bt_get fs' q = Some n \<longrightarrow> file_xattrs E L s e n)"
proof -
  note changed = plan_changes_member [OF plan(2)]
  let ?ch = "map rc_path changes" and ?F = "bt_get fs"
  obtain fs1 where 1: "rfold (apply_directory E ?ch []) fs M = Inr fs1" "first_pass ?F (new_folders U X Y) (bt_get fs1)"
    using first_pass_all [OF ready plan(1) changed] by blast
  obtain fs2 where 2: "rfold (apply_entry E L s ?ch []) fs1 M = Inr fs2"
      "second_pass E L s Y ?F (new_folders U X Y) (new_entries U X Y) (bt_get fs2)"
    using second_pass_all [OF ready plan(1) changed 1(2)] by blast
  obtain fs3 where 3: "rfold (apply_removal E []) fs2 (removals changes) = Inr fs3"
      "third_pass E L s Y ?F (new_folders U X Y) (new_entries U X Y) (lost_paths U X Y) (lost_paths U X Y) (bt_get fs3)"
    using third_pass_all [OF ready plan(2) 2(2)] by blast
  obtain fs4 where 4: "rfold (apply_finish ?ch []) fs3 (rev M) = Inr fs4"
      "fourth_pass L Y (new_folders U X Y) (new_folders U X Y) (bt_get fs3) (bt_get fs4)"
    using fourth_pass_all [OF ready plan(1) changed, of fs3] third_passD(1) [OF 3(2)] by blast
  have "apply_plan_at E L s fs M changes [] = Inr fs4" using 1(1) 2(1) 3(1) 4(1) by (simp add: apply_plan_at_def)
  then show ?thesis using passes_restored [OF ready 3(2) 4(2)] by (intro exI [of _ fs4]) blast
qed

end
