(* ===== verification/Rewind_Diff.thy ===== *)
theory Rewind_Diff
  imports Rewind_Restores
begin

text \<open>
  What the comparison of two trees finds: a hierarchy of paged directories is a map from paths to
  entries, and \<open>diff_directory\<close> lists exactly the paths at which, or below which, two such maps
  differ. Looking a path up gives the entry of the map.
\<close>

section \<open>Directories with what is below them\<close>

definition subtree_at :: "tree_map \<Rightarrow> bytes \<Rightarrow> tree_map" where
  "subtree_at X name = (\<lambda>q. if q = [] then None else X (name # q))"

definition no_tree :: tree_map where "no_tree = (\<lambda>_. None)"

definition is_dir :: "tree_entry option \<Rightarrow> bool" where
  "is_dir x \<longleftrightarrow> (\<exists>e. x = Some e \<and> te_kind e = Directory)"

text \<open>\<open>forest read s d i X\<close>: the directory \<open>i\<close>, at most \<open>d\<close> levels deep, holds the entries \<open>X\<close>.\<close>

fun forest :: "'s read_tree \<Rightarrow> 's \<Rightarrow> nat \<Rightarrow> object_id \<Rightarrow> tree_map \<Rightarrow> bool" where
  "forest read s 0 i X \<longleftrightarrow> False"
| "forest read s (Suc d) i X \<longleftrightarrow>
     (\<exists>es. paged read s i es \<and> names_sorted es \<and> (\<forall>e\<in>set es. valid_name (te_name e)) \<and>
        X [] = None \<and> (\<forall>name. X [name] = lookup_entry es name) \<and>
        (\<forall>name. \<not> is_dir (lookup_entry es name) \<longrightarrow> subtree_at X name = no_tree) \<and>
        (\<forall>e\<in>set es. te_kind e = Directory \<longrightarrow>
           (\<exists>t. te_target e = Some t \<and> forest read s d t (subtree_at X (te_name e)))))"

declare forest.simps(2) [simp del]

lemma forestE:
  assumes "forest read s d i X"
  obtains d' es where "d = Suc d'" "paged read s i es" "names_sorted es" "\<forall>e\<in>set es. valid_name (te_name e)"
    "X [] = None" "\<forall>name. X [name] = lookup_entry es name"
    "\<forall>name. \<not> is_dir (lookup_entry es name) \<longrightarrow> subtree_at X name = no_tree"
    "\<forall>e\<in>set es. te_kind e = Directory \<longrightarrow> (\<exists>t. te_target e = Some t \<and> forest read s d' t (subtree_at X (te_name e)))"
proof (cases d)
  case (Suc d')
  then have "forest read s (Suc d') i X" using assms by simp
  then show thesis unfolding forest.simps by (elim exE conjE) (rule that [OF Suc])
qed (use assms in simp)

lemma forest_mono: "forest read s d i X \<Longrightarrow> d \<le> d' \<Longrightarrow> forest read s d' i X"
proof (induction d arbitrary: d' i X)
  case (Suc d)
  then obtain k where k: "d' = Suc k" "d \<le> k" by (cases d') auto
  from Suc.prems(1) obtain es where es: "paged read s i es" "names_sorted es" "\<forall>e\<in>set es. valid_name (te_name e)"
    "X [] = None" "\<forall>name. X [name] = lookup_entry es name"
    "\<forall>name. \<not> is_dir (lookup_entry es name) \<longrightarrow> subtree_at X name = no_tree"
    "\<forall>e\<in>set es. te_kind e = Directory \<longrightarrow> (\<exists>t. te_target e = Some t \<and> forest read s d t (subtree_at X (te_name e)))"
    unfolding forest.simps by (elim exE conjE)
  have "\<forall>e\<in>set es. te_kind e = Directory \<longrightarrow> (\<exists>t. te_target e = Some t \<and> forest read s k t (subtree_at X (te_name e)))"
    using es(7) Suc.IH k(2) by blast
  with es(1-6) show ?case unfolding k(1) forest.simps by blast
qed simp

lemma forest_child:
  assumes "forest read s (Suc d) i X" "X [name] = Some e"
  shows "valid_name name" "te_name e = name"
    "te_kind e = Directory \<Longrightarrow> \<exists>t. te_target e = Some t \<and> forest read s d t (subtree_at X name)"
proof -
  obtain es where es: "\<forall>e\<in>set es. valid_name (te_name e)" "\<forall>name. X [name] = lookup_entry es name"
    "\<forall>e\<in>set es. te_kind e = Directory \<longrightarrow> (\<exists>t. te_target e = Some t \<and> forest read s d t (subtree_at X (te_name e)))"
    using assms(1) unfolding forest.simps by blast
  have "e \<in> set es" "te_name e = name" using assms(2) es(2) lookup_entry_SomeD by metis+
  with es show "valid_name name" "te_name e = name"
    "te_kind e = Directory \<Longrightarrow> \<exists>t. te_target e = Some t \<and> forest read s d t (subtree_at X name)"
    by auto
qed

lemma forest_none_below:
  assumes "forest read s d i X" "\<not> is_dir (X [name])"
  shows "subtree_at X name = no_tree"
  using assms by (elim forestE) simp

lemma subtree_at_apply: "q \<noteq> [] \<Longrightarrow> X (name # q) = subtree_at X name q"
  by (simp add: subtree_at_def)

lemma forest_unique: "forest read s d i X \<Longrightarrow> forest read s d' i Y \<Longrightarrow> X = Y"
proof (induction d arbitrary: d' i X Y)
  case (Suc d)
  obtain k where k: "d' = Suc k" using Suc.prems(2) by (cases d') auto
  obtain es where es: "paged read s i es" "X [] = None" "\<forall>name. X [name] = lookup_entry es name"
    using Suc.prems(1) by (rule forestE) blast
  obtain fs where fs: "paged read s i fs" "Y [] = None" "\<forall>name. Y [name] = lookup_entry fs name"
    using Suc.prems(2) by (rule forestE) blast
  have single: "X [name] = Y [name]" for name using es fs paged_unique [OF es(1) fs(1)] by simp
  have sub: "subtree_at X name = subtree_at Y name" for name
  proof (cases "is_dir (X [name])")
    case False
    then show ?thesis using forest_none_below [OF Suc.prems(1)] forest_none_below [OF Suc.prems(2)] single by metis
  next
    case True
    then obtain e where e: "X [name] = Some e" "te_kind e = Directory" by (auto simp: is_dir_def)
    then show ?thesis
      using forest_child(3) [OF Suc.prems(1) e] forest_child(3) [of read s k i Y name e] Suc.prems(2) k single Suc.IH
      by fastforce
  qed
  show ?case
  proof
    fix q
    show "X q = Y q"
    proof (cases q)
      case Nil
      then show ?thesis using es(2) fs(2) by simp
    next
      case (Cons name r)
      then show ?thesis using single subtree_at_apply [of r X] subtree_at_apply [of r Y] sub by (cases "r = []") auto
    qed
  qed
qed simp

lemma forest_tree_like: "forest read s d i X \<Longrightarrow> tree_like X"
proof (induction d arbitrary: i X)
  case (Suc d)
  have empty: "X [] = None" using Suc.prems by (rule forestE)
  have "valid_name name \<and> (q = [] \<or> folder_at X q)" if x: "X (q @ [name]) \<noteq> None" for q name
  proof (cases q)
    case Nil
    then show ?thesis using x forest_child(1) [OF Suc.prems] by auto
  next
    case (Cons a r)
    then have s: "subtree_at X a (r @ [name]) \<noteq> None" using x subtree_at_apply [of "r @ [name]" X a] by simp
    then have "subtree_at X a \<noteq> no_tree" by (auto simp: no_tree_def)
    then have "is_dir (X [a])" using forest_none_below [OF Suc.prems] by blast
    then obtain e where e: "X [a] = Some e" "te_kind e = Directory" by (auto simp: is_dir_def)
    then obtain t where "forest read s d t (subtree_at X a)" using forest_child(3) [OF Suc.prems e] by blast
    then have "tree_like (subtree_at X a)" by (rule Suc.IH)
    then have v: "valid_name name" "r = [] \<or> folder_at (subtree_at X a) r" using s by (auto simp: tree_like_def)
    then show ?thesis using Cons e by (cases "r = []") (auto simp: folder_at_def subtree_at_def)
  qed
  then show ?case using empty by (simp add: tree_like_def)
qed simp

section \<open>Looking up a path\<close>

lemma lookup_components_forest:
  "forest read s d i X \<Longrightarrow> \<forall>name\<in>set q. valid_name name \<Longrightarrow>
     \<exists>N. \<forall>n\<ge>N. lookup_components read n s i q = Inr (X q)"
proof (induction q arbitrary: d i X)
  case Nil
  then show ?case by (auto elim: forestE)
next
  case (Cons name q)
  obtain k es where es: "d = Suc k" "paged read s i es" "names_sorted es" "\<forall>name. X [name] = lookup_entry es name"
    using Cons.prems(1) by (rule forestE) blast
  obtain N where N: "\<forall>n\<ge>N. find_entry read n s i name = Inr (X [name])"
    using find_entry_paged [OF es(2,3), of name] es(4) by auto
  have v: "validate_name name = Inr ()" using Cons.prems(2) by (simp add: validate_name_iff)
  consider "q = []" | "q \<noteq> []" "\<not> is_dir (X [name])" | e where "q \<noteq> []" "X [name] = Some e" "te_kind e = Directory"
    by (auto simp: is_dir_def)
  then show ?case
  proof cases
    case 1
    then have "\<forall>n\<ge>N. lookup_components read n s i (name # q) = Inr (X (name # q))"
      using N v by (auto split: option.split)
    then show ?thesis by blast
  next
    case 2
    then have "X (name # q) = None"
      using subtree_at_apply [OF 2(1), of X name] forest_none_below [OF Cons.prems(1) 2(2)] by (simp add: no_tree_def)
    then have "\<forall>n\<ge>N. lookup_components read n s i (name # q) = Inr (X (name # q))"
      using N v 2 by (auto simp: is_dir_def split: option.split)
    then show ?thesis by blast
  next
    case (3 e)
    obtain t where t: "te_target e = Some t" "forest read s k t (subtree_at X name)"
      using forest_child(3) [OF Cons.prems(1) [unfolded es(1)] 3(2,3)] by blast
    obtain M where M: "\<forall>n\<ge>M. lookup_components read n s t q = Inr (subtree_at X name q)"
      using Cons.IH [OF t(2)] Cons.prems(2) by auto
    have "\<forall>n\<ge>max N M. lookup_components read n s i (name # q) = Inr (X (name # q))"
      using N M v 3 t(1) subtree_at_apply [OF 3(1), of X name] by simp
    then show ?thesis by blast
  qed
qed

lemma lookup_tree_path_forest:
  assumes "forest read s d i X" "valid_fpath q"
  shows "\<exists>N. \<forall>n\<ge>N. lookup_tree_path read n s i (raw q) = Inr (X q)"
  unfolding lookup_tree_path_def split_raw [OF assms(2)]
  by (rule lookup_components_forest [OF assms(1)]) (use assms(2) in \<open>simp add: valid_fpath_def\<close>)

section \<open>Comparing two trees\<close>

text \<open>The changes \<open>cs\<close>, with the names \<open>p\<close> before them, are those of the paths \<open>Q\<close>, each once.\<close>

definition lists_paths :: "fpath \<Rightarrow> fpath set \<Rightarrow> tree_map \<Rightarrow> rewind_change list \<Rightarrow> bool" where
  "lists_paths p Q Y cs \<longleftrightarrow>
     (\<forall>c\<in>set cs. \<exists>q\<in>Q. rc_path c = raw (p @ q) \<and> (rc_action c = ''remove'' \<longleftrightarrow> Y q = None)) \<and>
     (\<forall>q\<in>Q. \<exists>c\<in>set cs. rc_path c = raw (p @ q)) \<and> distinct (map rc_path cs)"

lemma lists_paths_Nil [simp]: "lists_paths p {} Y []"
  by (simp add: lists_paths_def)

lemma lists_paths_append:
  assumes "lists_paths p Q Y cs" "lists_paths p R Y ds" "\<forall>q\<in>Q. \<forall>r\<in>R. raw (p @ q) \<noteq> raw (p @ r)"
  shows "lists_paths p (Q \<union> R) Y (cs @ ds)"
  unfolding lists_paths_def set_append
proof (intro conjI ballI)
  fix c assume "c \<in> set cs \<union> set ds"
  then show "\<exists>q\<in>Q \<union> R. rc_path c = raw (p @ q) \<and> (rc_action c = ''remove'' \<longleftrightarrow> Y q = None)"
    using assms unfolding lists_paths_def by (metis Un_iff)
next
  fix q assume "q \<in> Q \<union> R"
  then show "\<exists>c\<in>set cs \<union> set ds. rc_path c = raw (p @ q)"
    using assms unfolding lists_paths_def by (metis Un_iff)
next
  have "rc_path c \<noteq> rc_path d" if "c \<in> set cs" "d \<in> set ds" for c d
    using assms that unfolding lists_paths_def by metis
  then show "distinct (map rc_path (cs @ ds))" using assms(1,2) unfolding lists_paths_def by auto
qed

lemma lists_paths_empty: "lists_paths p Q Y cs \<Longrightarrow> cs = [] \<longleftrightarrow> Q = {}"
  by (auto simp: lists_paths_def)

lemma lists_paths_below:
  assumes "lists_paths (p @ [name]) Q (subtree_at Y name) cs" "[] \<notin> Q"
  shows "lists_paths p ((#) name ` Q) Y cs"
proof -
  have "Y (name # q) = subtree_at Y name q" if "q \<in> Q" for q
    using that assms(2) subtree_at_apply [of q Y name] by (cases "q = []") auto
  then show ?thesis using assms(1) unfolding lists_paths_def by auto
qed

definition changed_at :: "tree_map \<Rightarrow> tree_map \<Rightarrow> bytes \<Rightarrow> fpath set" where
  "changed_at X Y name = {q \<in> changed_paths X Y. hd q = name}"

lemma below_Cons: "below p (a # r) \<longleftrightarrow> p = [] \<or> (\<exists>p'. p = a # p' \<and> below p' r)"
  by (cases p) (auto simp: below_def)

lemma below_single: "below [a] r \<longleftrightarrow> (\<exists>r'. r = a # r' \<and> r' \<noteq> [])"
  by (cases r) (auto simp: below_Cons)

lemma changed_below:
  assumes "q \<noteq> []"
  shows "name # q \<in> changed_paths X Y \<longleftrightarrow> q \<in> changed_paths (subtree_at X name) (subtree_at Y name)"
proof
  assume "name # q \<in> changed_paths X Y"
  then obtain r where r: "r = name # q \<or> below (name # q) r" "differs (X r) (Y r)" by (auto simp: changed_paths_def)
  then obtain r' where r': "r = name # r'" "r' = q \<or> below q r'" by (cases r) (auto simp: below_Cons)
  then have "r' \<noteq> []" using assms by auto
  then have "differs (subtree_at X name r') (subtree_at Y name r')" using r(2) r'(1) by (simp add: subtree_at_def)
  then show "q \<in> changed_paths (subtree_at X name) (subtree_at Y name)" using r'(2) assms by (auto simp: changed_paths_def)
next
  assume "q \<in> changed_paths (subtree_at X name) (subtree_at Y name)"
  then obtain r where r: "r = q \<or> below q r" "differs (subtree_at X name r) (subtree_at Y name r)"
    by (auto simp: changed_paths_def)
  then have "r \<noteq> []" using assms by auto
  then have "differs (X (name # r)) (Y (name # r))" using r(2) by (simp add: subtree_at_def)
  moreover have "name # r = name # q \<or> below (name # q) (name # r)" using r(1) by (auto simp: below_Cons)
  ultimately show "name # q \<in> changed_paths X Y" unfolding changed_paths_def by blast
qed

lemma changed_single:
  "[name] \<in> changed_paths X Y \<longleftrightarrow>
     differs (X [name]) (Y [name]) \<or> changed_paths (subtree_at X name) (subtree_at Y name) \<noteq> {}"
proof -
  have "(\<exists>r. below [name] r \<and> differs (X r) (Y r)) \<longleftrightarrow> changed_paths (subtree_at X name) (subtree_at Y name) \<noteq> {}"
  proof
    assume "\<exists>r. below [name] r \<and> differs (X r) (Y r)"
    then obtain r where "r \<noteq> []" "differs (X (name # r)) (Y (name # r))" by (auto simp: below_single)
    then have "r \<in> changed_paths (subtree_at X name) (subtree_at Y name)"
      by (auto simp: changed_paths_def subtree_at_def)
    then show "changed_paths (subtree_at X name) (subtree_at Y name) \<noteq> {}" by blast
  next
    assume "changed_paths (subtree_at X name) (subtree_at Y name) \<noteq> {}"
    then obtain q r where "q \<noteq> []" "r = q \<or> below q r" "differs (subtree_at X name r) (subtree_at Y name r)"
      by (auto simp: changed_paths_def)
    moreover from this have "r \<noteq> []" by auto
    ultimately have "r \<noteq> []" "differs (X (name # r)) (Y (name # r))" by (simp_all add: subtree_at_def)
    then show "\<exists>r. below [name] r \<and> differs (X r) (Y r)" by (auto simp: below_single)
  qed
  then show ?thesis by (auto simp: changed_paths_def)
qed

lemma changed_at_eq:
  "changed_at X Y name =
     (if differs (X [name]) (Y [name]) \<or> changed_paths (subtree_at X name) (subtree_at Y name) \<noteq> {} then {[name]} else {})
     \<union> (#) name ` changed_paths (subtree_at X name) (subtree_at Y name)"
proof (intro set_eqI)
  fix q
  have "[] \<notin> changed_paths X Y" "[] \<notin> changed_paths (subtree_at X name) (subtree_at Y name)" by (simp_all add: changed_paths_def)
  then show "q \<in> changed_at X Y name \<longleftrightarrow> q \<in> (if differs (X [name]) (Y [name]) \<or>
      changed_paths (subtree_at X name) (subtree_at Y name) \<noteq> {} then {[name]} else {})
     \<union> (#) name ` changed_paths (subtree_at X name) (subtree_at Y name)"
  proof (cases q)
    case (Cons a r)
    then show ?thesis
      using changed_below [of r name X Y] changed_single [of name X Y] \<open>[] \<notin> changed_paths (subtree_at X name) (subtree_at Y name)\<close>
      by (cases "r = []") (auto simp: changed_at_def)
  qed (auto simp: changed_at_def)
qed

lemma changed_paths_same [simp]: "changed_paths X X = {}"
  by (auto simp: changed_paths_def differs_def)

lemma raw_apart:
  assumes "\<forall>x\<in>set p. valid_name x" "valid_fpath q" "valid_fpath r" "q \<noteq> r"
  shows "raw (p @ q) \<noteq> raw (p @ r)"
proof -
  have "valid_fpath (p @ q)" "valid_fpath (p @ r)" using assms(1-3) by (auto simp: valid_fpath_def)
  then show ?thesis using assms(4) raw_inj by simp
qed

lemma changed_paths_valid: "tree_like X \<Longrightarrow> tree_like Y \<Longrightarrow> q \<in> changed_paths X Y \<Longrightarrow> valid_fpath q"
  using changed_exists [of X Y q] tree_like_valid [of X q] tree_like_valid [of Y q] by blast

definition forest_opt :: "'s read_tree \<Rightarrow> 's \<Rightarrow> nat \<Rightarrow> object_id option \<Rightarrow> tree_map \<Rightarrow> bool" where
  "forest_opt read s d io X \<longleftrightarrow> (case io of None \<Rightarrow> X = no_tree | Some i \<Rightarrow> forest read s d i X)"

lemma forest_opt_none_below: "forest_opt read s d io X \<Longrightarrow> \<not> is_dir (X [name]) \<Longrightarrow> subtree_at X name = no_tree"
  using forest_none_below by (auto simp: forest_opt_def no_tree_def subtree_at_def split: option.splits)

lemma forest_opt_child:
  assumes "forest_opt read s (Suc d) io X"
  shows "forest_opt read s d (subtree_of (X [name])) (subtree_at X name)"
    "X [name] = Some e \<Longrightarrow> te_name e = name \<and> valid_name name"
proof -
  show "X [name] = Some e \<Longrightarrow> te_name e = name \<and> valid_name name"
    using assms forest_child(1,2) by (auto simp: forest_opt_def no_tree_def split: option.splits)
  show "forest_opt read s d (subtree_of (X [name])) (subtree_at X name)"
  proof (cases "is_dir (X [name])")
    case False
    then have "subtree_of (X [name]) = None" by (auto simp: is_dir_def subtree_of_def split: option.splits)
    then show ?thesis using forest_opt_none_below [OF assms False] by (simp add: forest_opt_def)
  next
    case True
    then obtain e i where e: "X [name] = Some e" "te_kind e = Directory" "io = Some i"
      using assms by (auto simp: is_dir_def forest_opt_def no_tree_def split: option.splits)
    then have "forest read s (Suc d) i X" using assms by (simp add: forest_opt_def)
    from forest_child(3) [OF this e(1,2)] show ?thesis
      using e by (auto simp: subtree_of_def forest_opt_def)
  qed
qed

lemma forest_opt_pair:
  assumes "forest_opt read s (Suc d) b X" "forest_opt read s (Suc d) a Y" "X [name] \<noteq> Y [name]"
  shows "pair_name (X [name], Y [name]) = name" "valid_name name"
    "map_option te_name (or_else (X [name]) (Y [name])) = Some name"
proof -
  note x = forest_opt_child(2) [OF assms(1), of name] and y = forest_opt_child(2) [OF assms(2), of name]
  have "pair_name (X [name], Y [name]) = name \<and> valid_name name \<and>
      map_option te_name (or_else (X [name]) (Y [name])) = Some name"
  proof (cases "X [name]")
    case None
    then obtain e where e: "Y [name] = Some e" using assms(3) by (cases "Y [name]") auto
    then show ?thesis using None y [OF e] by (simp add: or_else_def)
  next
    case (Some e)
    then show ?thesis using x [OF Some] by (simp add: or_else_def)
  qed
  then show "pair_name (X [name], Y [name]) = name" "valid_name name"
    "map_option te_name (or_else (X [name]) (Y [name])) = Some name" by simp_all
qed

lemma raw_snoc: "\<forall>x\<in>set p. valid_name x \<Longrightarrow> join_path (raw p) name = raw (p @ [name])"
proof (cases "p = []")
  case False
  assume "\<forall>x\<in>set p. valid_name x"
  then have "valid_fpath p" using False by (simp add: valid_fpath_def)
  then have "raw p \<noteq> []" using raw_hd by blast
  then show ?thesis using join_with_append [OF False, of "[name]"] by (simp add: join_path_def raw_def)
qed (simp add: join_path_def raw_def)

lemma selected_Nil: "selected path [] = True" and subtree_intersects_Nil: "subtree_intersects path [] = True"
  by (simp_all add: selected_def subtree_intersects_def)

lemma no_tree_like [simp]: "tree_like no_tree"
  by (simp add: tree_like_def no_tree_def)

lemma forest_opt_tree_like: "forest_opt read s d io X \<Longrightarrow> tree_like X"
  by (auto simp: forest_opt_def split: option.splits intro: forest_tree_like)

lemma forest_opt_changed:
  assumes "forest_opt read s d b X" "forest_opt read s d a Y" "q \<in> changed_paths X Y"
  shows "valid_fpath q"
  by (rule changed_paths_valid [OF forest_opt_tree_like [OF assms(1)] forest_opt_tree_like [OF assms(2)] assms(3)])

text \<open>One name at which two directories differ.\<close>

lemma record_tree_difference_ok:
  assumes X: "forest_opt read s (Suc d) b X" and Y: "forest_opt read s (Suc d) a Y" and ne: "X [name] \<noteq> Y [name]"
    and p: "\<forall>x\<in>set p. valid_name x"
    and below: "\<And>changes. \<exists>cs. subdirectories (subtree_of (X [name])) (subtree_of (Y [name])) (raw (p @ [name])) changes
        = Inr (changes @ cs) \<and>
        lists_paths (p @ [name]) (changed_paths (subtree_at X name) (subtree_at Y name)) (subtree_at Y name) cs"
  shows "\<exists>cs. record_tree_difference subdirectories (raw p) [] changes (X [name]) (Y [name]) = Inr (changes @ cs) \<and>
     lists_paths p (changed_at X Y name) Y cs"
proof -
  let ?S = "changed_paths (subtree_at X name) (subtree_at Y name)"
  have sX: "forest_opt read s d (subtree_of (X [name])) (subtree_at X name)"
    and sY: "forest_opt read s d (subtree_of (Y [name])) (subtree_at Y name)"
    using forest_opt_child(1) [OF X] forest_opt_child(1) [OF Y] by blast+
  note head = forest_opt_pair(3) [OF X Y ne] forest_opt_pair(2) [OF X Y ne, folded validate_name_iff]
  show ?thesis
  proof (cases "X [name] = None \<and> (\<exists>e. Y [name] = Some e \<and> te_kind e = SocketMarker)")
    case True
    then have "subtree_at X name = no_tree" "subtree_at Y name = no_tree"
      using forest_opt_none_below [OF X, of name] forest_opt_none_below [OF Y, of name] by (auto simp: is_dir_def)
    moreover have "\<not> differs (X [name]) (Y [name])" using True by (auto simp: differs_def)
    ultimately have "changed_at X Y name = {}" by (simp add: changed_at_eq)
    moreover have "record_tree_difference subdirectories (raw p) [] changes (X [name]) (Y [name]) = Inr changes"
      using head True by (auto simp: record_tree_difference_def)
    ultimately show ?thesis by simp
  next
    case False
    let ?c = "\<lparr>rc_path = raw (p @ [name]), rc_action = change_action (X [name]) (Y [name])\<rparr>"
    have "\<exists>cs. (if subtree_of (X [name]) \<noteq> None \<or> subtree_of (Y [name]) \<noteq> None
          then subdirectories (subtree_of (X [name])) (subtree_of (Y [name])) (raw (p @ [name])) (changes @ [?c])
          else Inr (changes @ [?c])) = Inr (changes @ [?c] @ cs) \<and> lists_paths (p @ [name]) ?S (subtree_at Y name) cs"
    proof (cases "subtree_of (X [name]) \<noteq> None \<or> subtree_of (Y [name]) \<noteq> None")
      case True
      then show ?thesis using below [of "changes @ [?c]"] by simp
    next
      case False
      then have "subtree_at X name = subtree_at Y name" using sX sY by (simp add: forest_opt_def)
      then show ?thesis using False by simp
    qed
    then obtain cs where cs: "(if subtree_of (X [name]) \<noteq> None \<or> subtree_of (Y [name]) \<noteq> None
          then subdirectories (subtree_of (X [name])) (subtree_of (Y [name])) (raw (p @ [name])) (changes @ [?c])
          else Inr (changes @ [?c])) = Inr (changes @ [?c] @ cs)" "lists_paths (p @ [name]) ?S (subtree_at Y name) cs"
      by blast
    let ?same = "directory_target_only_difference (X [name]) (Y [name])"
    have notsocket: "\<not> (X [name] = None \<and> (case Y [name] of None \<Rightarrow> False | Some e \<Rightarrow> te_kind e = SocketMarker))"
      using False by (auto split: option.splits)
    have run: "record_tree_difference subdirectories (raw p) [] changes (X [name]) (Y [name]) =
        Inr (changes @ (if cs = [] \<and> ?same then [] else ?c # cs))"
      unfolding record_tree_difference_def
      by (simp only: head of_opt_simps rbind.simps Let_def if_not_P [OF notsocket] raw_snoc [OF p] selected_Nil
          subtree_intersects_Nil simp_thms if_True cs(1)) (simp add: butlast_append)
    have sub: "lists_paths p ((#) name ` ?S) Y cs"
      by (rule lists_paths_below [OF cs(2)]) (simp add: changed_paths_def)
    have dif: "differs (X [name]) (Y [name]) \<longleftrightarrow> \<not> ?same" using ne False by (auto simp: differs_def)
    have c: "lists_paths p {[name]} Y [?c]"
      using ne by (auto simp: lists_paths_def change_action_def)
    show ?thesis
    proof (cases "cs = [] \<and> ?same")
      case True
      then have "changed_at X Y name = {}" using dif lists_paths_empty [OF cs(2)] by (simp add: changed_at_eq)
      then show ?thesis using run True by simp
    next
      case False
      then have "changed_at X Y name = {[name]} \<union> (#) name ` ?S"
        using dif lists_paths_empty [OF cs(2)] by (auto simp: changed_at_eq)
      moreover have "\<forall>q\<in>{[name]}. \<forall>r\<in>(#) name ` ?S. raw (p @ q) \<noteq> raw (p @ r)"
      proof (intro ballI)
        fix q r assume qr: "q \<in> {[name]}" "r \<in> (#) name ` ?S"
        then have "r \<in> changed_paths X Y" "q \<in> changed_paths X Y" "q \<noteq> r"
          using \<open>changed_at X Y name = {[name]} \<union> (#) name ` ?S\<close> by (auto simp: changed_at_def changed_paths_def)
        then show "raw (p @ q) \<noteq> raw (p @ r)"
          using raw_apart [OF p forest_opt_changed [OF X Y] forest_opt_changed [OF X Y]] by blast
      qed
      ultimately have "lists_paths p (changed_at X Y name) Y (?c # cs)" using lists_paths_append [OF c sub] by simp
      then show ?thesis using run False by (intro exI [of _ "?c # cs"]) simp
    qed
  qed
qed

lemma rfold_pairs_left: "visit_pairs V v (map (\<lambda>e. (Some e, None)) es) = rfold (\<lambda>v e. V v (Some e) None) v es"
  by (induction es arbitrary: v) auto

lemma rfold_pairs_right: "visit_pairs V v (map (\<lambda>e. (None, Some e)) es) = rfold (\<lambda>v e. V v None (Some e)) v es"
  by (induction es arbitrary: v) auto

text \<open>The entries of a directory that may be absent.\<close>

lemma forest_optE:
  assumes "forest_opt read s (Suc d) io X"
  obtains es where "case io of None \<Rightarrow> es = [] | Some i \<Rightarrow> paged read s i es" "names_sorted es"
    "\<forall>name. X [name] = lookup_entry es name" "X [] = None"
proof (cases io)
  case None
  with that [of "[]"] assms show thesis by (simp add: forest_opt_def no_tree_def)
next
  case (Some i)
  then have "forest read s (Suc d) i X" using assms by (simp add: forest_opt_def)
  then show thesis
  proof (rule forestE)
    fix d' es assume "paged read s i es" "names_sorted es" "\<forall>name. X [name] = lookup_entry es name" "X [] = None"
    then show thesis using that [of es] Some by simp
  qed
qed

lemma diff_directory_visits:
  assumes "case b of None \<Rightarrow> es = [] | Some i \<Rightarrow> paged read s i es" "case a of None \<Rightarrow> fs = [] | Some i \<Rightarrow> paged read s i fs"
    and "names_sorted es" "names_sorted fs"
  shows "\<exists>N. \<forall>n\<ge>N. \<forall>pre changes. diff_directory read (Suc n) s [] b a pre changes =
     visit_pairs (record_tree_difference (diff_directory read n s []) pre []) changes (diff_list es fs)"
proof (cases b)
  case None
  show ?thesis
  proof (cases a)
    case None
    then show ?thesis using \<open>b = None\<close> assms(1,2) by simp
  next
    case (Some i)
    obtain N where N: "\<forall>n\<ge>N. \<forall>(visitor :: rewind_change list \<Rightarrow> tree_entry \<Rightarrow> rewind_change list result) v.
        for_each_entry read n s i visitor v = rfold visitor v fs"
      using for_each_entry_paged [of read s i fs] assms(2) Some by auto
    then show ?thesis using None Some assms(1)
      by (intro exI [of _ N]) (simp add: diff_list_Nil_left rfold_pairs_right)
  qed
next
  case (Some i)
  show ?thesis
  proof (cases a)
    case None
    obtain N where N: "\<forall>n\<ge>N. \<forall>(visitor :: rewind_change list \<Rightarrow> tree_entry \<Rightarrow> rewind_change list result) v.
        for_each_entry read n s i visitor v = rfold visitor v es"
      using for_each_entry_paged [of read s i es] assms(1) Some by auto
    then show ?thesis using None Some assms(2)
      by (intro exI [of _ N]) (simp add: diff_list_Nil_right rfold_pairs_left)
  next
    fix j assume a: "a = Some j"
    obtain N where N: "\<forall>n\<ge>N. \<forall>(visitor :: rewind_change list diff_visitor) v.
        diff_entries read n s i j visitor v = visit_pairs visitor v (diff_list es fs)"
      using diff_entries_paged [of read s i es j fs] assms Some a by auto
    then show ?thesis using Some a by (intro exI [of _ N]) simp
  qed
qed

lemma fuel_for_all:
  fixes P :: "nat \<Rightarrow> 'a \<Rightarrow> bool"
  assumes "\<And>x. x \<in> set xs \<Longrightarrow> \<exists>N. \<forall>n\<ge>N. P n x"
  shows "\<exists>N. \<forall>n\<ge>N. \<forall>x\<in>set xs. P n x"
  using assms
proof (induction xs)
  case (Cons x xs)
  obtain N M where "\<forall>n\<ge>N. P n x" "\<forall>n\<ge>M. \<forall>x\<in>set xs. P n x" using Cons by fastforce
  then have "\<forall>n\<ge>max N M. \<forall>x\<in>set (x # xs). P n x" by simp
  then show ?case by blast
qed simp

lemma visit_pairs_lists:
  assumes "\<And>x changes. x \<in> set ps \<Longrightarrow> \<exists>cs. V changes (fst x) (snd x) = Inr (changes @ cs) \<and> lists_paths p (Q x) Y cs"
    and "distinct ps" "\<And>x y. x \<in> set ps \<Longrightarrow> y \<in> set ps \<Longrightarrow> x \<noteq> y \<Longrightarrow> \<forall>q\<in>Q x. \<forall>r\<in>Q y. raw (p @ q) \<noteq> raw (p @ r)"
  shows "\<exists>cs. visit_pairs V changes ps = Inr (changes @ cs) \<and> lists_paths p (\<Union>x\<in>set ps. Q x) Y cs"
  using assms
proof (induction ps arbitrary: changes)
  case (Cons x ps)
  obtain cs where cs: "V changes (fst x) (snd x) = Inr (changes @ cs)" "lists_paths p (Q x) Y cs"
    using Cons.prems(1) [of x changes] by auto
  obtain ds where ds: "visit_pairs V (changes @ cs) ps = Inr (changes @ cs @ ds)" "lists_paths p (\<Union>x\<in>set ps. Q x) Y ds"
  proof -
    have "distinct ps" using Cons.prems(2) by simp
    from Cons.IH [OF Cons.prems(1) this Cons.prems(3), of "changes @ cs"] that show thesis by auto
  qed
  have "visit_pairs V changes (x # ps) = Inr (changes @ cs @ ds)" using cs(1) ds(1) by (simp add: case_prod_unfold)
  moreover have "\<forall>q\<in>Q x. \<forall>r\<in>(\<Union>x\<in>set ps. Q x). raw (p @ q) \<noteq> raw (p @ r)"
  proof (intro ballI)
    fix q r assume q: "q \<in> Q x" and "r \<in> (\<Union>x\<in>set ps. Q x)"
    then obtain y where y: "y \<in> set ps" "r \<in> Q y" by blast
    then show "raw (p @ q) \<noteq> raw (p @ r)" using Cons.prems(3) [of x y] Cons.prems(2) q by auto
  qed
  ultimately show ?case using lists_paths_append [OF cs(2) ds(2)] by auto
qed simp

lemma forest_opt_unique: "forest_opt read s d i X \<Longrightarrow> forest_opt read s d' i Y \<Longrightarrow> X = Y"
  using forest_unique by (auto simp: forest_opt_def split: option.splits)

lemma changed_at_same:
  assumes "forest_opt read s (Suc d) b X" "forest_opt read s (Suc d) a Y" "X [name] = Y [name]"
  shows "changed_at X Y name = {}"
proof -
  have "subtree_at X name = subtree_at Y name"
    using forest_opt_unique [OF forest_opt_child(1) [OF assms(1), of name]] forest_opt_child(1) [OF assms(2), of name]
      assms(3) by simp
  then show ?thesis using assms(3) by (simp add: changed_at_eq differs_def)
qed

lemma diff_directory_forest:
  "forest_opt read s d b X \<Longrightarrow> forest_opt read s d a Y \<Longrightarrow>
   \<exists>N. \<forall>n\<ge>N. \<forall>p changes. (\<forall>x\<in>set p. valid_name x) \<longrightarrow>
     (\<exists>cs. diff_directory read n s [] b a (raw p) changes = Inr (changes @ cs) \<and> lists_paths p (changed_paths X Y) Y cs)"
proof (induction d arbitrary: b a X Y)
  case 0
  then have "b = None" "a = None" "X = Y" by (auto simp: forest_opt_def split: option.splits)
  then have "\<forall>n\<ge>1. \<forall>p changes. diff_directory read n s [] b a (raw p) changes = Inr (changes @ []) \<and>
      lists_paths p (changed_paths X Y) Y []"
    by (auto simp: Suc_le_eq gr0_conv_Suc)
  then show ?case by blast
next
  case (Suc d)
  obtain es where es: "case b of None \<Rightarrow> es = [] | Some i \<Rightarrow> paged read s i es" "names_sorted es"
    "\<forall>name. X [name] = lookup_entry es name" "X [] = None" by (rule forest_optE [OF Suc.prems(1)])
  obtain fs where fs: "case a of None \<Rightarrow> fs = [] | Some i \<Rightarrow> paged read s i fs" "names_sorted fs"
    "\<forall>name. Y [name] = lookup_entry fs name" "Y [] = None" by (rule forest_optE [OF Suc.prems(2)])
  let ?ps = "diff_list es fs"
  let ?ok = "\<lambda>n name. \<forall>p changes. (\<forall>x\<in>set p. valid_name x) \<longrightarrow>
     (\<exists>cs. diff_directory read n s [] (subtree_of (X [name])) (subtree_of (Y [name])) (raw p) changes = Inr (changes @ cs) \<and>
        lists_paths p (changed_paths (subtree_at X name) (subtree_at Y name)) (subtree_at Y name) cs)"
  have pairs: "set ?ps = (\<lambda>name. (X [name], Y [name])) ` {name. X [name] \<noteq> Y [name]}"
    using set_diff_list [OF es(2) fs(2)] es(3) fs(3) by (simp add: diffs_def)
  note name = forest_opt_pair(1) [OF Suc.prems]
  have distinct_names: "distinct (map pair_name ?ps)"
    using diff_list_sorted [OF es(2) fs(2)] by (simp add: strict_sorted_iff)
  then have distinct: "distinct ?ps" by (simp add: distinct_map)
  obtain N where N: "\<forall>n\<ge>N. \<forall>pre changes. diff_directory read (Suc n) s [] b a pre changes =
     visit_pairs (record_tree_difference (diff_directory read n s []) pre []) changes ?ps"
    using diff_directory_visits [OF es(1) fs(1) es(2) fs(2)] by blast
  have "\<exists>N. \<forall>n\<ge>N. \<forall>name\<in>set (map pair_name ?ps). ?ok n name"
    by (rule fuel_for_all) (rule Suc.IH [OF forest_opt_child(1) [OF Suc.prems(1)] forest_opt_child(1) [OF Suc.prems(2)]])
  then obtain M where M: "\<forall>n\<ge>M. \<forall>name\<in>set (map pair_name ?ps). ?ok n name" by blast
  have union: "(\<Union>x\<in>set ?ps. changed_at X Y (pair_name x)) = changed_paths X Y"
  proof (intro equalityI subsetI)
    fix q assume q: "q \<in> changed_paths X Y"
    then have "q \<in> changed_at X Y (hd q)" by (simp add: changed_at_def)
    then have ne: "X [hd q] \<noteq> Y [hd q]" using changed_at_same [OF Suc.prems, of "hd q"] by auto
    then have "(X [hd q], Y [hd q]) \<in> set ?ps" using pairs by blast
    then show "q \<in> (\<Union>x\<in>set ?ps. changed_at X Y (pair_name x))"
      using name [OF ne] \<open>q \<in> changed_at X Y (hd q)\<close> by (metis UN_I)
  qed (auto simp: changed_at_def)
  have "\<exists>cs. diff_directory read (Suc n) s [] b a (raw p) changes = Inr (changes @ cs) \<and> lists_paths p (changed_paths X Y) Y cs"
    if n: "n \<ge> max N M" and p: "\<forall>x\<in>set p. valid_name x" for n p changes
  proof -
    have apart: "\<forall>q\<in>changed_at X Y (pair_name x). \<forall>r\<in>changed_at X Y (pair_name y). raw (p @ q) \<noteq> raw (p @ r)"
      if "x \<in> set ?ps" "y \<in> set ?ps" "x \<noteq> y" for x y
    proof (intro ballI)
      fix q r assume qr: "q \<in> changed_at X Y (pair_name x)" "r \<in> changed_at X Y (pair_name y)"
      have "pair_name x \<noteq> pair_name y" using that distinct_names by (metis distinct_map inj_on_eq_iff)
      then have "q \<in> changed_paths X Y" "r \<in> changed_paths X Y" "q \<noteq> r" using qr by (auto simp: changed_at_def)
      then show "raw (p @ q) \<noteq> raw (p @ r)"
        using raw_apart [OF p forest_opt_changed [OF Suc.prems] forest_opt_changed [OF Suc.prems]] by blast
    qed
    have "\<exists>cs. record_tree_difference (diff_directory read n s []) (raw p) [] changes (fst x) (snd x) = Inr (changes @ cs) \<and>
        lists_paths p (changed_at X Y (pair_name x)) Y cs" if x: "x \<in> set ?ps" for x changes
    proof -
      obtain nm where nm: "x = (X [nm], Y [nm])" "X [nm] \<noteq> Y [nm]" using x pairs by blast
      have pn: "pair_name x = nm" using nm name by simp
      have "valid_name nm" by (rule forest_opt_pair(2) [OF Suc.prems nm(2)])
      then have p': "\<forall>x\<in>set (p @ [nm]). valid_name x" using p by simp
      have "?ok n nm" using M n x pn by auto
      then have "\<exists>cs. diff_directory read n s [] (subtree_of (X [nm])) (subtree_of (Y [nm])) (raw (p @ [nm])) changes
          = Inr (changes @ cs) \<and> lists_paths (p @ [nm]) (changed_paths (subtree_at X nm) (subtree_at Y nm)) (subtree_at Y nm) cs" for changes
        using p' by blast
      from record_tree_difference_ok [where subdirectories = "diff_directory read n s []", OF Suc.prems nm(2) p this]
      show ?thesis using pn nm(1) by simp
    qed
    from visit_pairs_lists [where V = "record_tree_difference (diff_directory read n s []) (raw p) []"
        and Q = "\<lambda>x. changed_at X Y (pair_name x)" and ps = ?ps and changes = changes, OF this distinct apart]
    have "\<exists>cs. visit_pairs (record_tree_difference (diff_directory read n s []) (raw p) []) changes ?ps = Inr (changes @ cs) \<and>
        lists_paths p (changed_paths X Y) Y cs" unfolding union by simp
    moreover have "diff_directory read (Suc n) s [] b a (raw p) changes =
        visit_pairs (record_tree_difference (diff_directory read n s []) (raw p) []) changes ?ps"
      using N n by (simp del: diff_directory.simps)
    ultimately show ?thesis by (simp del: diff_directory.simps)
  qed
  note step = this
  show ?case
  proof (intro exI [of _ "Suc (max N M)"] allI impI)
    fix n p changes assume "Suc (max N M) \<le> n" and p: "\<forall>x\<in>set p. valid_name x"
    then obtain m where m: "n = Suc m" "max N M \<le> m" using fuel_SucD by blast
    show "\<exists>cs. diff_directory read n s [] b a (raw p) changes = Inr (changes @ cs) \<and>
        lists_paths p (changed_paths X Y) Y cs"
      unfolding m(1) by (rule step [OF m(2) p])
  qed
qed

end
