(* ===== verification/Rewind_Plan.thy ===== *)
theory Rewind_Plan
  imports Rewind_Diff
begin

text \<open>
  The plan of a rewind: the changes it keeps are the changed paths outside those that the policy,
  the control directory and the overlay protect, and the entries it looks up are the target's.
\<close>

section \<open>Protected paths\<close>

definition untouched :: "policy \<Rightarrow> bool \<Rightarrow> fpath set" where
  "untouched protected composed =
     {q. q \<noteq> [] \<and> \<not> may_touch protected composed \<lparr>rc_path = raw q, rc_action = []\<rparr>}"

lemma may_touch_path: "may_touch P composed c \<longleftrightarrow> may_touch P composed \<lparr>rc_path = rc_path c, rc_action = a\<rparr>"
  by (simp add: may_touch_def)

lemma untouched_iff: "rc_path c = raw q \<Longrightarrow> q \<noteq> [] \<Longrightarrow> q \<in> untouched P composed \<longleftrightarrow> \<not> may_touch P composed c"
  using may_touch_path [of P composed c "[]"] by (simp add: untouched_def)

lemma covers_path_extend: "covers_path rule path \<Longrightarrow> covers_path rule (path @ CHR ''/'' # name)"
  by (auto simp: covers_path_def nth_append)

lemma identity_extend: "is_identity_path path \<Longrightarrow> is_identity_path (path @ CHR ''/'' # name)"
proof -
  assume "is_identity_path path"
  then consider "path = ''.furrow''" | "take 8 path = ''.furrow/''" by (auto simp: is_identity_path_def)
  then show ?thesis
  proof cases
    case 2
    have "length (take 8 path) = 8" unfolding 2 by simp
    then have "8 \<le> length path" by simp
    then show ?thesis using 2 by (simp add: is_identity_path_def)
  qed (simp add: is_identity_path_def)
qed

lemma overlay_extend: "overlay_physical path \<Longrightarrow> overlay_physical (path @ CHR ''/'' # name)"
proof -
  assume o: "overlay_physical path"
  then have "length overlay_name \<le> length path"
    unfolding overlay_physical_def by (metis length_take min.cobounded1)
  then show ?thesis using o by (auto simp: overlay_physical_def split: list.splits)
qed

lemma raw_append: "q \<noteq> [] \<Longrightarrow> raw (q @ [name]) = raw q @ CHR ''/'' # name"
  using join_with_append [of q "[name]"] by (simp add: raw_def)

lemma untouched_closed:
  assumes "po_matcher P = None" "q \<in> untouched P composed"
  shows "q @ [name] \<in> untouched P composed"
proof -
  have q: "q \<noteq> []" "\<not> may_touch P composed \<lparr>rc_path = raw q, rc_action = []\<rparr>" using assms(2) by (auto simp: untouched_def)
  have "\<not> may_touch P composed \<lparr>rc_path = raw q @ CHR ''/'' # name, rc_action = []\<rparr>"
    using q(2) assms(1) covers_path_extend identity_extend [of "raw q"] overlay_extend
    by (auto simp: may_touch_def excludes_bytes_def contains_ignored_def in_overlay_def list_ex_iff is_identity_path_def
        split: if_splits)
  then show ?thesis using q(1) by (simp add: untouched_def raw_append)
qed

lemma lists_pathsD:
  assumes "lists_paths p Q Y cs"
  shows "c \<in> set cs \<Longrightarrow> \<exists>q\<in>Q. rc_path c = raw (p @ q) \<and> (rc_action c = ''remove'' \<longleftrightarrow> Y q = None)"
    "q \<in> Q \<Longrightarrow> \<exists>c\<in>set cs. rc_path c = raw (p @ q)" "distinct (map rc_path cs)"
  using assms by (simp_all add: lists_paths_def)

lemma plan_changes_touchable:
  assumes "tree_like X" "tree_like Y" "lists_paths [] (changed_paths X Y) Y changes"
  shows "plan_changes (untouched P composed) X Y (filter (may_touch P composed) changes)"
  unfolding plan_changes_def
proof (intro conjI ballI)
  fix c assume c: "c \<in> set (filter (may_touch P composed) changes)"
  then obtain q where q: "q \<in> changed_paths X Y" "rc_path c = raw q" "rc_action c = ''remove'' \<longleftrightarrow> Y q = None"
    using lists_pathsD(1) [OF assms(3), of c] by auto
  then have "q \<notin> untouched P composed" using c untouched_iff [OF q(2)] by (auto simp: changed_paths_def)
  then show "\<exists>q\<in>changed_paths X Y - untouched P composed. rc_path c = raw q \<and> (rc_action c = ''remove'' \<longleftrightarrow> Y q = None)"
    by (intro bexI [of _ q] conjI q(2,3)) (use q(1) in simp)
next
  fix q assume q: "q \<in> changed_paths X Y - untouched P composed"
  then obtain c where c: "c \<in> set changes" "rc_path c = raw q" using lists_pathsD(2) [OF assms(3), of q] by auto
  then have "may_touch P composed c" using q untouched_iff [OF c(2)] by (auto simp: changed_paths_def)
  then show "\<exists>c\<in>set (filter (may_touch P composed) changes). rc_path c = raw q" using c by auto
qed

text \<open>Without name folding nothing is held back.\<close>

lemma plan_rewind_ok:
  assumes "map_read L s target Snapshot = Inr bs" "parse_snapshot L bs = Some snap"
    and "from_rules (sn_excluded_paths snap) = Inr tp"
    and X: "forest (map_read_tree L) s d current X" and Y: "forest (map_read_tree L) s d (sn_root_tree snap) Y"
  shows "\<exists>N. \<forall>n\<ge>N. \<exists>plan. plan_rewind L n s [] P composed None current target [] = Inr plan \<and>
     plan_changes (untouched (policy_union P tp) composed) X Y (rp_changes plan) \<and> distinct (map rc_path (rp_changes plan))"
proof -
  let ?P = "policy_union P tp"
  have "forest_opt (map_read_tree L) s d (Some current) X" "forest_opt (map_read_tree L) s d (Some (sn_root_tree snap)) Y"
    using X Y by (simp_all add: forest_opt_def)
  from diff_directory_forest [OF this] obtain N where N: "\<forall>n\<ge>N. \<forall>p changes. (\<forall>x\<in>set p. valid_name x) \<longrightarrow>
     (\<exists>cs. diff_directory (map_read_tree L) n s [] (Some current) (Some (sn_root_tree snap)) (raw p) changes =
        Inr (changes @ cs) \<and> lists_paths p (changed_paths X Y) Y cs)" by blast
  have "\<exists>plan. plan_rewind L n s [] P composed None current target [] = Inr plan \<and>
     plan_changes (untouched ?P composed) X Y (rp_changes plan) \<and> distinct (map rc_path (rp_changes plan))" if n: "n \<ge> N" for n
  proof -
    obtain cs where cs: "diff_directory (map_read_tree L) n s [] (Some current) (Some (sn_root_tree snap)) [] [] = Inr cs"
        "lists_paths [] (changed_paths X Y) Y cs"
      using N [rule_format, of n "[]" "[]"] n by (auto simp: raw_def)
    let ?cs = "filter (may_touch ?P composed) cs"
    have "plan_rewind L n s [] P composed None current target [] =
        Inr \<lparr>rp_target = id_hex target, rp_current_tree = Some (id_hex current), rp_changes = ?cs,
           rp_preview_digest = rewind_preview_digest L (id_hex target) (Some (id_hex current)) ?cs, rp_held = []\<rparr>"
      using assms(1-3) cs(1) by (simp add: plan_rewind_def colliding_paths_at_def Let_def)
    moreover have "distinct (map rc_path ?cs)" using cs(2) by (auto simp: lists_paths_def distinct_map_filter)
    ultimately show ?thesis
      using plan_changes_touchable [OF forest_tree_like [OF X] forest_tree_like [OF Y] cs(2)] by simp
  qed
  then show ?thesis by blast
qed

section \<open>The entries of a plan\<close>

lemma plan_changesD:
  assumes "plan_changes U X Y changes" "c \<in> set changes"
  shows "\<exists>q\<in>changed_paths X Y - U. rc_path c = raw q \<and> (rc_action c = ''remove'' \<longleftrightarrow> Y q = None)"
  by (rule bspec [OF conjunct1 [OF assms(1) [unfolded plan_changes_def]] assms(2)])

lemma plan_changes_valid:
  assumes "tree_like X" "tree_like Y" "plan_changes U X Y changes" "c \<in> set changes"
  obtains q where "rc_path c = raw q" "q \<in> changed_paths X Y - U" "valid_fpath q" "rc_action c = ''remove'' \<longleftrightarrow> Y q = None"
proof -
  obtain q where "q \<in> changed_paths X Y - U" "rc_path c = raw q" "rc_action c = ''remove'' \<longleftrightarrow> Y q = None"
    using plan_changesD [OF assms(3,4)] by (elim bexE conjE)
  moreover from this have "valid_fpath q" using changed_paths_valid [OF assms(1,2), of q] by simp
  ultimately show thesis by (intro that)
qed

text \<open>Looking the changed paths up, with enough fuel for all of them.\<close>

lemma lookup_changes:
  assumes X: "tree_like X" "tree_like Y" and plan: "plan_changes U X Y changes" and Z: "forest read s d root Z"
  shows "\<exists>N. \<forall>n\<ge>N. \<forall>q\<in>changed_paths X Y - U. lookup_tree_path read n s root (raw q) = Inr (Z q)"
proof -
  have "\<exists>N. \<forall>n\<ge>N. \<forall>c\<in>set changes. \<forall>q. rc_path c = raw q \<longrightarrow> valid_fpath q \<longrightarrow>
     lookup_tree_path read n s root (raw q) = Inr (Z q)"
  proof (rule fuel_for_all)
    fix c assume "c \<in> set changes"
    then obtain q where q: "rc_path c = raw q" "valid_fpath q" by (rule plan_changes_valid [OF X plan])
    obtain N where N: "\<forall>n\<ge>N. lookup_tree_path read n s root (raw q) = Inr (Z q)"
      using lookup_tree_path_forest [OF Z q(2)] by blast
    have "\<forall>n\<ge>N. \<forall>q. rc_path c = raw q \<longrightarrow> valid_fpath q \<longrightarrow> lookup_tree_path read n s root (raw q) = Inr (Z q)"
      using N q raw_inj by metis
    then show "\<exists>N. \<forall>n\<ge>N. \<forall>q. rc_path c = raw q \<longrightarrow> valid_fpath q \<longrightarrow> lookup_tree_path read n s root (raw q) = Inr (Z q)"
      by blast
  qed
  then obtain N where N: "\<forall>n\<ge>N. \<forall>c\<in>set changes. \<forall>q. rc_path c = raw q \<longrightarrow> valid_fpath q \<longrightarrow>
     lookup_tree_path read n s root (raw q) = Inr (Z q)" by blast
  have "lookup_tree_path read n s root (raw q) = Inr (Z q)" if n: "n \<ge> N" and q: "q \<in> changed_paths X Y - U" for n q
  proof -
    obtain c where "c \<in> set changes" "rc_path c = raw q" using plan q unfolding plan_changes_def by blast
    then show ?thesis using N n changed_paths_valid [OF X] q by blast
  qed
  then show ?thesis by blast
qed

text \<open>The map of the entries of the changes so far.\<close>

definition entries_of :: "tree_map \<Rightarrow> rewind_change list \<Rightarrow> flat_entries \<Rightarrow> bool" where
  "entries_of Z changes M \<longleftrightarrow> bt_wf M \<and>
     (\<forall>path e. bt_get M path = Some e \<longleftrightarrow>
        (\<exists>c\<in>set changes. \<exists>q. rc_path c = path \<and> path = raw q \<and> valid_fpath q \<and> Z q = Some e))"

lemma entries_of_snoc:
  assumes "entries_of Z ds M" "rc_path c = raw q" "valid_fpath q"
  shows "Z q = Some e \<Longrightarrow> entries_of Z (ds @ [c]) (bt_insert (rc_path c) e M)"
    and "Z q = None \<Longrightarrow> entries_of Z (ds @ [c]) M"
proof -
  have uniq: "q' = q" if "raw q = raw q'" "valid_fpath q'" for q' using that raw_inj [OF assms(3)] by blast
  show "entries_of Z (ds @ [c]) (bt_insert (rc_path c) e M)" if Z: "Z q = Some e"
    unfolding entries_of_def
  proof (intro conjI allI)
    show "bt_wf (bt_insert (rc_path c) e M)" using assms(1) by (simp add: entries_of_def)
    fix path e'
    show "bt_get (bt_insert (rc_path c) e M) path = Some e' \<longleftrightarrow>
        (\<exists>c\<in>set (ds @ [c]). \<exists>q. rc_path c = path \<and> path = raw q \<and> valid_fpath q \<and> Z q = Some e')"
    proof (cases "path = raw q")
      case True
      then show ?thesis using Z assms(2,3) uniq by (auto simp: bt_get_insert)
    next
      case False
      then show ?thesis using assms(1,2) unfolding entries_of_def by (auto simp: bt_get_insert)
    qed
  qed
  show "entries_of Z (ds @ [c]) M" if Z: "Z q = None"
    using assms(1,2) Z uniq unfolding entries_of_def by auto
qed

lemma entries_for_plan_ok:
  assumes X: "tree_like X" "tree_like Y" and plan: "plan_changes U X Y changes"
    and lookup: "\<forall>q\<in>changed_paths X Y - U. lookup_tree_path read n s root (raw q) = Inr (Y q)"
  shows "\<exists>M. entries_for_plan read n s root changes = Inr M \<and> entries_of Y changes M"
  unfolding entries_for_plan_def
proof (rule rfold_steps)
  show "entries_of Y [] []" by (simp add: entries_of_def)
  fix ds c rest M assume ch: "changes = ds @ c # rest" and inv: "entries_of Y ds M"
  then have "c \<in> set changes" by simp
  then obtain q where q: "rc_path c = raw q" "q \<in> changed_paths X Y - U" "valid_fpath q" "rc_action c = ''remove'' \<longleftrightarrow> Y q = None"
    by (rule plan_changes_valid [OF X plan])
  have l: "lookup_tree_path read n s root (rc_path c) = Inr (Y q)" using lookup q(1,2) by simp
  note snoc = entries_of_snoc [OF inv q(1,3)]
  show "\<exists>M'. (if rc_action c = ''remove'' then Inr M
      else rbind (lookup_tree_path read n s root (rc_path c)) (\<lambda>found.
           rbind (of_opt (''target snapshot is missing '' @ rc_path c) found) (\<lambda>e. Inr (bt_insert (rc_path c) e M)))) = Inr M' \<and>
      entries_of Y (ds @ [c]) M'"
    using l q(4) snoc by (cases "Y q") auto
qed

lemma entries_for_changed_paths_ok:
  assumes X: "tree_like X" "tree_like Y" and plan: "plan_changes U X Y changes"
    and lookup: "\<forall>q\<in>changed_paths X Y - U. lookup_tree_path read n s root (raw q) = Inr (Z q)"
  shows "\<exists>M. entries_for_changed_paths read n s root changes = Inr M \<and> entries_of Z changes M"
  unfolding entries_for_changed_paths_def
proof (rule rfold_steps)
  show "entries_of Z [] []" by (simp add: entries_of_def)
  fix ds c rest M assume ch: "changes = ds @ c # rest" and inv: "entries_of Z ds M"
  then have "c \<in> set changes" by simp
  then obtain q where q: "rc_path c = raw q" "q \<in> changed_paths X Y - U" "valid_fpath q" by (rule plan_changes_valid [OF X plan])
  have l: "lookup_tree_path read n s root (rc_path c) = Inr (Z q)" using lookup q(1,2) by simp
  note snoc = entries_of_snoc [OF inv q(1,3)]
  show "\<exists>M'. rbind (lookup_tree_path read n s root (rc_path c)) (\<lambda>found.
      case found of None \<Rightarrow> Inr M | Some e \<Rightarrow> Inr (bt_insert (rc_path c) e M)) = Inr M' \<and> entries_of Z (ds @ [c]) M'"
    using l snoc by (cases "Z q") auto
qed

lemma entries_plan_map:
  assumes X: "tree_like X" "tree_like Y" and plan: "plan_changes U X Y changes" and M: "entries_of Y changes M"
  shows "plan_map U X Y M"
  unfolding plan_map_def
proof (intro conjI allI iffI)
  show wf: "bt_wf M" using M by (simp add: entries_of_def)
  fix path e
  { assume "(path, e) \<in> set M"
    then obtain c q where c: "c \<in> set changes" "rc_path c = path" "path = raw q" "valid_fpath q" "Y q = Some e"
      using M bt_get_eq_Some [OF wf] unfolding entries_of_def by blast
    then obtain q' where "raw q = raw q'" "q' \<in> changed_paths X Y - U" "valid_fpath q'"
      using plan_changes_valid [OF X plan c(1)] by metis
    then show "\<exists>q\<in>changed_paths X Y - U. path = raw q \<and> Y q = Some e"
      using c(3-5) raw_inj [of q q'] by blast }
  { assume "\<exists>q\<in>changed_paths X Y - U. path = raw q \<and> Y q = Some e"
    then obtain q where q: "q \<in> changed_paths X Y - U" "path = raw q" "Y q = Some e" by blast
    then obtain c where "c \<in> set changes" "rc_path c = raw q" using plan unfolding plan_changes_def by blast
    moreover have "valid_fpath q" using changed_paths_valid [OF X] q(1) by blast
    ultimately have "bt_get M path = Some e" using M q(2,3) unfolding entries_of_def by blast
    then show "(path, e) \<in> set M" using bt_get_eq_Some [OF wf] by blast }
qed

end
