(* ===== verification/Rewind_Verify.thy ===== *)
theory Rewind_Verify
  imports Rewind_Plan
begin

text \<open>
  The comparison of the workspace with the entries it should hold, before and after a plan is
  applied. It captures the files that it compares, and sets attributes that differ.
\<close>

section \<open>What reads before a capture reads after it\<close>

lemma read_xattrs_keeps: "read_xattrs E L s x = Inr xs \<Longrightarrow> keeps L s s' \<Longrightarrow> read_xattrs E L s' x = Inr xs"
  by (auto simp: read_xattrs_def keeps_def split: option.splits)

lemma restorable_keeps:
  assumes "restorable E L s e" "keeps L s s'"
  shows "restorable E L s' e"
proof (cases "te_kind e")
  case File
  then obtain xs c where r: "te_mode e AND NOT PERMISSIONS = S_IFREG" "read_xattrs E L s (te_xattrs e) = Inr xs"
      "has_content L s c" "te_target e = Some (blob_id L c)" "length c = unat (te_size e)"
    using assms(1) by (auto simp: restorable_def)
  then show ?thesis
    using File read_xattrs_keeps [OF r(2) assms(2)] has_content_keeps [OF r(3) assms(2)] by (auto simp: restorable_def)
qed (use assms(1) in \<open>simp_all add: restorable_def\<close>)

section \<open>Comparing one path\<close>

text \<open>An entry whose attributes can be read, and a file that can be captured.\<close>

definition checkable :: "nat \<Rightarrow> os \<Rightarrow> lib \<Rightarrow> object_map \<Rightarrow> tree_entry \<Rightarrow> node \<Rightarrow> bool" where
  "checkable fuel E L s e n \<longleftrightarrow>
     (\<exists>xs. read_xattrs E L s (te_xattrs e) = Inr xs) \<and>
     (\<forall>c. nd_kind n = RegularFile c \<longrightarrow>
        length c < fuel \<and> length (json_blob L (blob_of L c)) \<le> MAX_OBJECT_LEN \<and>
        xattrs_fit (os_json_xattrs E) (Some (listed_xattrs n)))"

lemma checkable_keeps:
  assumes "checkable fuel E L s e n" "keeps L s s'"
  shows "checkable fuel E L s' e n"
proof -
  note c = assms(1) [unfolded checkable_def]
  obtain xs where "read_xattrs E L s (te_xattrs e) = Inr xs" using conjunct1 [OF c] by blast
  then have "\<exists>xs. read_xattrs E L s' (te_xattrs e) = Inr xs" using read_xattrs_keeps assms(2) by blast
  then show ?thesis unfolding checkable_def using conjunct2 [OF c] by (rule conjI)
qed

lemma capture_file_ok:
  assumes "map_inv L s" "length c < fuel" "length (json_blob L (blob_of L c)) \<le> MAX_OBJECT_LEN"
    and "xattrs_fit (os_json_xattrs E) (Some (listed_xattrs n))"
  obtains s' where "capture_file fuel E L s n c = Inr (blob_id L c, s')" "map_inv L s'" "keeps L s s'"
proof -
  let ?st = "stat_of n (length c)" and ?ps = "if c = [] then [] else [c]"
  have c: "file_script c = map Inr ?ps" "concat ?ps = c" "\<forall>p\<in>set ?ps. p \<noteq> []" by (simp_all add: file_script_def)
  have "stable_metadata ?st ?st" by (simp add: stable_metadata_def)
  from read_attempts_stable [OF assms(1) this assms(4) c(3), of fuel "[]"]
  obtain x q s' where r: "read_attempts fuel (os_json_xattrs E) L s
      [\<lparr>at_before = ?st, at_xattrs = Some (listed_xattrs n), at_file = map Inr ?ps, at_after = ?st\<rparr>] =
      Inr (\<lparr>fr_blob = blob_id L c, fr_xattrs = x, fr_sqlite = q, fr_stat = ?st\<rparr>, s')" "map_inv L s'" "keeps L s s'"
    using assms(2,3) unfolding c(2) by blast
  have "take 3 [a] = [a]" for a :: attempt by simp
  then have "capture_file fuel E L s n c = Inr (blob_id L c, s')"
    unfolding capture_file_def read_file_guarded_def c(1) Let_def by (simp only: r(1)) simp
  then show thesis using r(2,3) by (rule that)
qed

text \<open>A directory tree that differs from another in the attributes of some nodes only.\<close>

definition strip :: "node \<Rightarrow> node" where "strip n = n\<lparr>nd_xattrs := []\<rparr>"

definition xattr_only :: "fpath set \<Rightarrow> (fpath \<rightharpoonup> node) \<Rightarrow> (fpath \<rightharpoonup> node) \<Rightarrow> bool" where
  "xattr_only D F G \<longleftrightarrow>
     (\<forall>q. q \<notin> D \<longrightarrow> G q = F q) \<and> (\<forall>q. map_option strip (G q) = map_option strip (F q))"

lemma xattr_only_refl [simp]: "xattr_only D F F"
  by (simp add: xattr_only_def)

lemma xattr_only_trans: "xattr_only D F G \<Longrightarrow> xattr_only D' G H \<Longrightarrow> xattr_only (D \<union> D') F H"
  by (simp add: xattr_only_def)

lemma strip_same [simp]: "strip (n\<lparr>nd_xattrs := m\<rparr>) = strip n"
  by (simp add: strip_def)

lemma strip_kinds:
  assumes "strip n = strip m"
  shows "nd_kind n = nd_kind m" "nd_mode n = nd_mode m" "nd_mtime n = nd_mtime m"
  using arg_cong [OF assms, of nd_kind] arg_cong [OF assms, of nd_mode] arg_cong [OF assms, of nd_mtime]
  by (simp_all add: strip_def)

lemma xattr_onlyD:
  assumes "xattr_only D F G"
  shows "F q = Some n \<Longrightarrow> \<exists>m. G q = Some m \<and> strip m = strip n" "F q = None \<longleftrightarrow> G q = None" "q \<notin> D \<Longrightarrow> G q = F q"
proof -
  have "map_option strip (G q) = map_option strip (F q)" using assms by (simp add: xattr_only_def)
  then show "F q = Some n \<Longrightarrow> \<exists>m. G q = Some m \<and> strip m = strip n" "F q = None \<longleftrightarrow> G q = None"
    by (cases "G q"; cases "F q"; simp)+
  show "q \<notin> D \<Longrightarrow> G q = F q" using assms by (simp add: xattr_only_def)
qed

lemma xattr_only_sym: "xattr_only D F G \<Longrightarrow> xattr_only D G F"
  by (simp add: xattr_only_def)

lemma path_matches_ok:
  assumes "map_inv L s" "bt_get fs p = Some n" "node_ok L e n" "te_kind e \<noteq> SocketMarker" "checkable fuel E L s e n"
  obtains s' fs' where "path_matches_entry fuel E L (s, fs) p e = Inr ((s', fs'), True)" "map_inv L s'" "keeps L s s'"
    "xattr_only {p} (bt_get fs) (bt_get fs')"
proof -
  obtain xs where xs: "read_xattrs E L s (te_xattrs e) = Inr xs" using assms(5) by (auto simp: checkable_def)
  have set: "xattr_only {p} (bt_get fs) (bt_get (bt_insert p (n\<lparr>nd_xattrs := m\<rparr>) fs))" for m
    using assms(2) by (simp add: xattr_only_def bt_get_insert)
  show thesis
  proof (cases "te_kind e")
    case File
    then obtain c where n: "nd_mode n = te_mode e" "nd_mtime n = entry_mtime e" "nd_kind n = RegularFile c"
        "te_target e = Some (blob_id L c)" "length c = unat (te_size e)"
      using assms(3) by (auto simp: node_ok_def)
    have fit: "length c < fuel" "length (json_blob L (blob_of L c)) \<le> MAX_OBJECT_LEN"
        "xattrs_fit (os_json_xattrs E) (Some (listed_xattrs n))"
      using assms(5) n(3) by (auto simp: checkable_def)
    obtain s' where cap: "capture_file fuel E L s n c = Inr (blob_id L c, s')" "map_inv L s'" "keeps L s s'"
      by (rule capture_file_ok [OF assms(1) fit])
    have "path_matches_entry fuel E L (s, fs) p e =
        Inr ((s', bt_insert p (n\<lparr>nd_xattrs := set_xattrs E xs (nd_xattrs n)\<rparr>) fs), True)"
      using assms(2) File n cap(1) read_xattrs_keeps [OF xs cap(3)]
      by (simp add: path_matches_entry_def kind_matches_def time_matches_def content_matches_def
          xattrs_match_best_effort_def)
    then show thesis using that cap(2,3) set by blast
  next
    case Directory
    then have n: "nd_mode n = te_mode e" "nd_mtime n = entry_mtime e" "nd_kind n = FolderNode"
      using assms(3) by (simp_all add: node_ok_def is_folder_def)
    have "path_matches_entry fuel E L (s, fs) p e =
        Inr ((s, bt_insert p (n\<lparr>nd_xattrs := set_xattrs E xs (nd_xattrs n)\<rparr>) fs), True)"
      using assms(2) Directory n xs
      by (simp add: path_matches_entry_def kind_matches_def is_folder_def time_matches_def content_matches_def
          xattrs_match_best_effort_def)
    then show thesis using that assms(1) set by (meson keeps_refl)
  next
    case Symlink
    then have "path_matches_entry fuel E L (s, fs) p e = Inr ((s, fs), True)"
      using assms(2,3) by (simp add: path_matches_entry_def kind_matches_def is_link_def node_ok_def)
    then show thesis using that assms(1) by simp
  next
    case Fifo
    then have "path_matches_entry fuel E L (s, fs) p e = Inr ((s, fs), True)"
      using assms(2,3)
      by (simp add: path_matches_entry_def kind_matches_def time_matches_def content_matches_def node_ok_def)
    then show thesis using that assms(1) by simp
  qed (use assms(4) in simp)
qed

section \<open>Comparing the changes of a plan\<close>

text \<open>What a path is expected to hold, and that the comparison can say so.\<close>

definition path_ready ::
  "nat \<Rightarrow> os \<Rightarrow> lib \<Rightarrow> object_map \<Rightarrow> (fpath \<rightharpoonup> node) \<Rightarrow> fpath \<Rightarrow> tree_entry option \<Rightarrow> bool" where
  "path_ready fuel E L s G q x \<longleftrightarrow>
     (\<forall>p d. below p q \<longrightarrow> p \<noteq> [] \<longrightarrow> G p = Some d \<longrightarrow> \<not> is_link d) \<and>
     (case x of
        None \<Rightarrow> G q = None
      | Some e \<Rightarrow>
          (if te_kind e = SocketMarker
           then G q \<noteq> None \<or> (\<forall>p d. below p q \<longrightarrow> G p = Some d \<longrightarrow> is_folder d)
           else \<exists>n. G q = Some n \<and> node_ok L e n \<and> checkable fuel E L s e n))"

lemma not_a_directory_ok:
  assumes "\<forall>p d. below p q \<longrightarrow> bt_get fs p = Some d \<longrightarrow> is_folder d"
  shows "\<not> not_a_directory fs q"
proof -
  have "below (take n q) q" if "n < length q" for n using that by (simp add: below_def)
  then have "is_folder d" if "n < length q" "bt_get fs (take n q) = Some d" for n d
    using assms that by blast
  then show ?thesis by (auto simp: not_a_directory_def list_ex_iff split: option.splits)
qed

lemma verify_change_ok:
  assumes "map_inv L s" "rc_path c = raw q" "valid_fpath q" "path_ready fuel E L s (bt_get fs) q (bt_get expected (raw q))"
  obtains s' fs' where "verify_change fuel E L expected [] (s, fs) c = Inr (s', fs')" "map_inv L s'" "keeps L s s'"
    "xattr_only {q} (bt_get fs) (bt_get fs')"
proof (cases "rc_path c = ''.furrow'' \<or> is_identity_path (rc_path c)")
  case True
  then show thesis using that [of s fs] assms(1) by (auto simp: verify_change_def)
next
  case False
  let ?x = "bt_get expected (raw q)"
  note r = assms(4) [unfolded path_ready_def]
  have safe: "ensure_safe_parent fs q = Inr ()"
    by (rule ensure_safe_parent_ok) (use conjunct1 [OF r] in blast)
  have run: "verify_change fuel E L expected [] (s, fs) c = Inr st"
    if "(case ?x of Some e \<Rightarrow> path_matches_entry fuel E L (s, fs) q e | None \<Rightarrow> Inr ((s, fs), bt_get fs q = None)) = Inr (st, True)" for st
    unfolding verify_change_def prod.case assms(2)
    using False safe assms(2,3) that by (simp add: selected_def)
  show thesis
  proof (cases ?x)
    case None
    then have "bt_get fs q = None" using conjunct2 [OF r] by simp
    then show thesis using that [OF run [of "(s, fs)"]] None assms(1) by simp
  next
    case (Some e)
    note re = conjunct2 [OF r, unfolded Some option.case]
    show thesis
    proof (cases "te_kind e = SocketMarker")
      case True
      then have "bt_get fs q \<noteq> None \<or> \<not> not_a_directory fs q" using re not_a_directory_ok by auto
      then have "path_matches_entry fuel E L (s, fs) q e = Inr ((s, fs), True)"
        using True by (auto simp: path_matches_entry_def split: option.splits)
      then show thesis using that [OF run [of "(s, fs)"]] Some assms(1) by simp
    next
      case False
      then obtain n where n: "bt_get fs q = Some n" "node_ok L e n" "checkable fuel E L s e n" using re by auto
      obtain s' fs' where "path_matches_entry fuel E L (s, fs) q e = Inr ((s', fs'), True)" "map_inv L s'" "keeps L s s'"
          "xattr_only {q} (bt_get fs) (bt_get fs')"
        by (rule path_matches_ok [OF assms(1) n(1,2) False n(3)])
      then show thesis using that [OF run [of "(s', fs')"]] Some by simp
    qed
  qed
qed

text \<open>Attributes that change elsewhere do not matter.\<close>

lemma path_ready_transfer:
  assumes "path_ready fuel E L s F q x" "xattr_only D F G" "q \<notin> D" "keeps L s s'"
  shows "path_ready fuel E L s' G q x"
proof -
  note r = assms(1) [unfolded path_ready_def]
  have kind: "\<exists>m. F p = Some m \<and> nd_kind m = nd_kind d" if "G p = Some d" for p d
    using xattr_onlyD(1) [OF xattr_only_sym [OF assms(2)] that] strip_kinds(1) by blast
  have links: "\<forall>p d. below p q \<longrightarrow> p \<noteq> [] \<longrightarrow> G p = Some d \<longrightarrow> \<not> is_link d"
    using conjunct1 [OF r] kind unfolding is_link_def by metis
  have folders: "\<forall>p d. below p q \<longrightarrow> G p = Some d \<longrightarrow> is_folder d" if "\<forall>p d. below p q \<longrightarrow> F p = Some d \<longrightarrow> is_folder d"
    using that kind unfolding is_folder_def by metis
  have same: "G q = F q" by (rule xattr_onlyD(3) [OF assms(2,3)])
  show ?thesis
    unfolding path_ready_def
  proof (intro conjI links)
    show "case x of None \<Rightarrow> G q = None
      | Some e \<Rightarrow> (if te_kind e = SocketMarker
           then G q \<noteq> None \<or> (\<forall>p d. below p q \<longrightarrow> G p = Some d \<longrightarrow> is_folder d)
           else \<exists>n. G q = Some n \<and> node_ok L e n \<and> checkable fuel E L s' e n)"
    proof (cases x)
      case None
      then show ?thesis using conjunct2 [OF r] same by simp
    next
      case (Some e)
      note re = conjunct2 [OF r, unfolded Some option.case]
      show ?thesis
      proof (cases "te_kind e = SocketMarker")
        case True
        then have "F q \<noteq> None \<or> (\<forall>p d. below p q \<longrightarrow> F p = Some d \<longrightarrow> is_folder d)" using re by simp
        then have "G q \<noteq> None \<or> (\<forall>p d. below p q \<longrightarrow> G p = Some d \<longrightarrow> is_folder d)"
          using same folders by metis
        then show ?thesis using True Some by simp
      next
        case False
        then obtain n where "F q = Some n" "node_ok L e n" "checkable fuel E L s e n" using re by auto
        then have "\<exists>n. G q = Some n \<and> node_ok L e n \<and> checkable fuel E L s' e n"
          using same checkable_keeps [OF _ assms(4)] by auto
        then show ?thesis using False Some by simp
      qed
    qed
  qed
qed

lemma verify_plan_ok:
  assumes inv: "map_inv L s" and "distinct (map rc_path changes)"
    and ready: "\<And>c. c \<in> set changes \<Longrightarrow> \<exists>q\<in>D. rc_path c = raw q \<and> valid_fpath q \<and>
      path_ready fuel E L s (bt_get fs) q (bt_get expected (raw q))"
  obtains s' fs' where "verify_plan_state fuel E L (s, fs) expected changes [] = Inr (s', fs')" "map_inv L s'" "keeps L s s'"
    "xattr_only D (bt_get fs) (bt_get fs')"
proof -
  let ?D = "\<lambda>ds. {q \<in> D. valid_fpath q \<and> raw q \<in> rc_path ` set ds}"
  let ?I = "\<lambda>ds (s', fs'). map_inv L s' \<and> keeps L s s' \<and> xattr_only (?D ds) (bt_get fs) (bt_get fs')"
  have "\<exists>st. verify_plan_state fuel E L (s, fs) expected changes [] = Inr st \<and> ?I changes st"
    unfolding verify_plan_state_def
  proof (rule rfold_steps)
    show "?I [] (s, fs)" using inv by simp
    fix ds c rest st assume ch: "changes = ds @ c # rest" and I: "?I ds st"
    obtain s1 fs1 where st: "st = (s1, fs1)" by (cases st)
    then have i: "map_inv L s1" "keeps L s s1" "xattr_only (?D ds) (bt_get fs) (bt_get fs1)" using I by auto
    obtain q where q: "q \<in> D" "rc_path c = raw q" "valid_fpath q"
        "path_ready fuel E L s (bt_get fs) q (bt_get expected (raw q))"
      using ready [of c] ch by auto
    have "rc_path c \<notin> rc_path ` set ds" using assms(2) ch by auto
    then have "q \<notin> ?D ds" using q(2) by auto
    note r = path_ready_transfer [OF q(4) i(3) this i(2)]
    obtain s2 fs2 where v: "verify_change fuel E L expected [] (s1, fs1) c = Inr (s2, fs2)" "map_inv L s2" "keeps L s1 s2"
        "xattr_only {q} (bt_get fs1) (bt_get fs2)"
      by (rule verify_change_ok [OF i(1) q(2,3) r])
    have "?D ds \<union> {q} \<subseteq> ?D (ds @ [c])" using q(1-3) by auto
    then have "xattr_only (?D (ds @ [c])) (bt_get fs) (bt_get fs2)"
      using xattr_only_trans [OF i(3) v(4)] unfolding xattr_only_def by blast
    then show "\<exists>st'. verify_change fuel E L expected [] st c = Inr st' \<and> ?I (ds @ [c]) st'"
      using v(1,2) keeps_trans [OF i(2) v(3)] st by auto
  qed
  then obtain s' fs' where r: "verify_plan_state fuel E L (s, fs) expected changes [] = Inr (s', fs')" "map_inv L s'" "keeps L s s'"
      "xattr_only (?D changes) (bt_get fs) (bt_get fs')" by auto
  then have "xattr_only D (bt_get fs) (bt_get fs')" unfolding xattr_only_def by blast
  then show thesis using that r(1-3) by blast
qed

end
