(* ===== verification/Rewind_Steps.thy ===== *)
theory Rewind_Steps
  imports Rewind_Verify
begin

text \<open>
  The steps of a rewind put together: the check before the changes, applying the plan, and the check
  after them, for a workspace that holds the captured tree and a store that holds the target.
\<close>

section \<open>The checks of a rewind succeed\<close>

definition links_apart :: "fpath set \<Rightarrow> tree_map \<Rightarrow> tree_map \<Rightarrow> bool" where
  "links_apart U X Y \<longleftrightarrow>
     (\<forall>q\<in>changed_paths X Y - U. \<forall>e r. X q = Some e \<longrightarrow> te_kind e = Symlink \<longrightarrow> below q r \<longrightarrow> Y r = None)"

text \<open>The files on both sides can be captured with the fuel \<open>k\<close>, and all attributes can be read.\<close>

definition rewind_checkable ::
  "nat \<Rightarrow> os \<Rightarrow> lib \<Rightarrow> object_map \<Rightarrow> fpath set \<Rightarrow> tree_map \<Rightarrow> tree_map \<Rightarrow> (fpath \<rightharpoonup> node) \<Rightarrow> bool" where
  "rewind_checkable k E L s U X Y F \<longleftrightarrow> (\<forall>q\<in>changed_paths X Y - U.
     (\<forall>e n. X q = Some e \<longrightarrow> F q = Some n \<longrightarrow> te_kind e \<noteq> SocketMarker \<longrightarrow> checkable k E L s e n) \<and>
     (\<forall>e n. Y q = Some e \<longrightarrow> te_kind e \<noteq> SocketMarker \<longrightarrow> node_ok L e n \<longrightarrow> file_xattrs E L s e n \<longrightarrow>
        checkable k E L s e n))"

lemma checkable_mono: "checkable k E L s e n \<Longrightarrow> k \<le> m \<Longrightarrow> checkable m E L s e n"
  by (fastforce simp: checkable_def)

lemma rewind_checkableD:
  assumes "rewind_checkable k E L s U X Y F" "q \<in> changed_paths X Y - U" "te_kind e \<noteq> SocketMarker" "k \<le> m"
  shows "X q = Some e \<Longrightarrow> F q = Some n \<Longrightarrow> checkable m E L s e n"
    "Y q = Some e \<Longrightarrow> node_ok L e n \<Longrightarrow> file_xattrs E L s e n \<Longrightarrow> checkable m E L s e n"
  using assms(1-3) checkable_mono [OF _ assms(4)] unfolding rewind_checkable_def by blast+

lemma node_ok_link: "node_ok L e n \<Longrightarrow> is_link n \<Longrightarrow> te_kind e = Symlink"
  by (auto simp: node_ok_def is_link_def is_folder_def split: entry_kind.splits)

lemma entries_of_get:
  assumes "entries_of Z changes M" "c \<in> set changes" "rc_path c = raw q" "valid_fpath q"
  shows "bt_get M (raw q) = Z q"
proof -
  have "bt_get M (raw q) = Some e \<longleftrightarrow> Z q = Some e" for e
    using assms raw_inj [of q] unfolding entries_of_def by metis
  then show ?thesis by (cases "Z q"; cases "bt_get M (raw q)") auto
qed

lemma path_ready_before:
  assumes ready: "rewind_ready E L s U X Y F" and apart: "links_apart U X Y"
    and check: "rewind_checkable k E L s U X Y F" "k \<le> m" and q: "q \<in> changed_paths X Y - U"
  shows "path_ready m E L s F q (X q)"
  unfolding path_ready_def
proof (intro conjI allI impI)
  note held = readyD(5) [OF ready]
  show "\<not> is_link d" if p: "below p q" "p \<noteq> []" "F p = Some d" for p d
  proof
    assume "is_link d"
    have pc: "p \<in> changed_paths X Y - U" by (rule changed_parent [OF ready q p(1,2)])
    then obtain e where e: "X p = Some e" "node_ok L e d" using holds_treeD [OF held p(2) _ p(3)] by blast
    have l: "te_kind e = Symlink" by (rule node_ok_link [OF e(2) \<open>is_link d\<close>])
    then have "\<not> folder_at X p" using e(1) by (simp add: folder_at_def)
    then have "X q = None" using tree_like_parent [OF readyD(1) [OF ready] _ p(1,2)] by blast
    moreover have "Y q = None" using apart pc e(1) l p(1) unfolding links_apart_def by blast
    ultimately show False using changed_exists [OF readyD(1,2) [OF ready]] q by blast
  qed
  have "q \<noteq> []" "q \<notin> U" using q by (simp_all add: changed_paths_def)
  then have h: "case X q of None \<Rightarrow> F q = None | Some e \<Rightarrow> \<exists>n. F q = Some n \<and> node_ok L e n"
    using held unfolding holds_tree_def by blast
  show "case X q of None \<Rightarrow> F q = None
      | Some e \<Rightarrow> (if te_kind e = SocketMarker
           then F q \<noteq> None \<or> (\<forall>p d. below p q \<longrightarrow> F p = Some d \<longrightarrow> is_folder d)
           else \<exists>n. F q = Some n \<and> node_ok L e n \<and> checkable m E L s e n)"
    using h rewind_checkableD(1) [OF check(1) q _ check(2)] by (auto split: option.splits)
qed

lemma path_ready_after:
  assumes ready: "rewind_ready E L s U X Y F"
    and check: "rewind_checkable k E L s U X Y F'" "k \<le> m" and q: "q \<in> changed_paths X Y - U"
    and restored: "restored_tree L U Y G" and root: "\<exists>d. G [] = Some d \<and> is_folder d"
    and attrs: "\<And>e n. Y q = Some e \<Longrightarrow> te_kind e = File \<Longrightarrow> G q = Some n \<Longrightarrow> file_xattrs E L s e n"
  shows "path_ready m E L s G q (Y q)"
  unfolding path_ready_def
proof (intro conjI allI impI)
  have at: "case Y p of None \<Rightarrow> G p = None
      | Some e \<Rightarrow> (te_kind e = SocketMarker \<and> G p = None) \<or> (\<exists>n. G p = Some n \<and> node_ok L e n)"
    if "p \<noteq> []" "p \<notin> U" for p
    using restored that unfolding restored_tree_def by blast
  have parent: "\<exists>e. Y p = Some e \<and> node_ok L e d" if "below p q" "p \<noteq> []" "G p = Some d" for p d
    using at [of p] changed_parent [OF ready q that(1,2)] that(2,3) by (auto split: option.splits)
  show "\<not> is_link d" if p: "below p q" "p \<noteq> []" "G p = Some d" for p d
  proof
    assume "is_link d"
    obtain e where e: "Y p = Some e" "node_ok L e d" using parent [OF p] by blast
    have l: "te_kind e = Symlink" by (rule node_ok_link [OF e(2) \<open>is_link d\<close>])
    then have nf: "\<not> folder_at Y p" using e(1) by (simp add: folder_at_def)
    then have "Y q = None" using tree_like_parent [OF readyD(2) [OF ready] _ p(1,2)] by blast
    moreover have "X q = None" by (rule ready_gone(3) [OF ready changed_parent [OF ready q p(1,2)] nf e(1) l p(1)])
    ultimately show False using changed_exists [OF readyD(1,2) [OF ready]] q by blast
  qed
  have folders: "is_folder d" if yq: "Y q \<noteq> None" and pq: "below p q" and gp: "G p = Some d" for p d
  proof (cases "p = []")
    case True
    then show ?thesis using root gp by auto
  next
    case False
    then obtain e where e: "Y p = Some e" "node_ok L e d" using parent [OF pq _ gp] by blast
    have "folder_at Y p" by (rule tree_like_parent [OF readyD(2) [OF ready] yq pq False])
    then show ?thesis using e by (auto simp: folder_at_def node_ok_def)
  qed
  have q': "q \<noteq> []" "q \<notin> U" using q by (simp_all add: changed_paths_def)
  show "case Y q of None \<Rightarrow> G q = None
      | Some e \<Rightarrow> (if te_kind e = SocketMarker
           then G q \<noteq> None \<or> (\<forall>p d. below p q \<longrightarrow> G p = Some d \<longrightarrow> is_folder d)
           else \<exists>n. G q = Some n \<and> node_ok L e n \<and> checkable m E L s e n)"
  proof (cases "Y q")
    case None
    then show ?thesis using at [OF q'] by simp
  next
    case (Some e)
    show ?thesis
    proof (cases "te_kind e = SocketMarker")
      case True
      have "\<forall>p d. below p q \<longrightarrow> G p = Some d \<longrightarrow> is_folder d" using folders Some by blast
      then show ?thesis using Some True by simp
    next
      case False
      then obtain n where n: "G q = Some n" "node_ok L e n" using at [OF q'] Some by auto
      have "file_xattrs E L s e n" using attrs [OF Some _ n(1)] by (cases "te_kind e = File") (simp_all add: file_xattrs_def)
      then have "checkable m E L s e n" by (rule rewind_checkableD(2) [OF check(1) q False check(2) Some n(2)])
      then show ?thesis using Some False n by auto
    qed
  qed
qed

text \<open>The check before the changes leaves a workspace that is as ready as it was.\<close>

lemma node_ok_strip: "strip n = strip m \<Longrightarrow> node_ok L e n \<longleftrightarrow> node_ok L e m"
  using strip_kinds [of n m] unfolding node_ok_def is_folder_def by (cases "te_kind e") simp_all

lemma folder_ok_strip: "strip n = strip m \<Longrightarrow> folder_ok n \<longleftrightarrow> folder_ok m"
  using strip_kinds [of n m] by (simp add: folder_ok_def is_folder_def)

lemma is_folder_strip: "strip n = strip m \<Longrightarrow> is_folder n \<longleftrightarrow> is_folder m"
  using strip_kinds [of n m] by (simp add: is_folder_def)

lemma proper_fs_strip:
  assumes "proper_fs F" "xattr_only D F G"
  shows "proper_fs G"
  unfolding proper_fs_def
proof (intro conjI allI impI)
  note X = xattr_onlyD(1,2) [OF assms(2)] and S = xattr_onlyD(1) [OF xattr_only_sym [OF assms(2)]]
  obtain n where "F [] = Some n" "folder_ok n" using assms(1) unfolding proper_fs_def by blast
  then show "\<exists>n. G [] = Some n \<and> folder_ok n" using X(1) folder_ok_strip by metis
  show "\<exists>d. G q = Some d \<and> is_folder d" if "G (q @ [name]) \<noteq> None" for q name
  proof -
    have "F (q @ [name]) \<noteq> None" using X(2) that by auto
    then obtain d where "F q = Some d" "is_folder d" using assms(1) unfolding proper_fs_def by blast
    then show ?thesis using X(1) is_folder_strip by metis
  qed
  show "nd_mode n AND NOT PERMISSIONS = S_IFDIR" if g: "G q = Some n" "is_folder n" for q n
  proof -
    obtain m where m: "F q = Some m" "strip m = strip n" using S [OF g(1)] by blast
    then have "is_folder m" "nd_mode m = nd_mode n" using is_folder_strip [OF m(2)] strip_kinds(2) [OF m(2)] g(2) by auto
    then show ?thesis using assms(1) m(1) unfolding proper_fs_def by metis
  qed
qed

lemma holds_tree_strip:
  assumes "holds_tree L U X F" "xattr_only D F G"
  shows "holds_tree L U X G"
  unfolding holds_tree_def
proof (intro allI impI)
  fix q assume q: "q \<noteq> []" "q \<notin> U"
  have h: "case X q of None \<Rightarrow> F q = None | Some e \<Rightarrow> \<exists>n. F q = Some n \<and> node_ok L e n"
    using assms(1) q unfolding holds_tree_def by blast
  show "case X q of None \<Rightarrow> G q = None | Some e \<Rightarrow> \<exists>n. G q = Some n \<and> node_ok L e n"
  proof (cases "X q")
    case None
    then show ?thesis using h xattr_onlyD(2) [OF assms(2), of q] by simp
  next
    case (Some e)
    then obtain n where "F q = Some n" "node_ok L e n" using h by auto
    then have "\<exists>n. G q = Some n \<and> node_ok L e n" using xattr_onlyD(1) [OF assms(2), of q n] node_ok_strip by blast
    then show ?thesis using Some by simp
  qed
qed

lemma ready_strip:
  assumes "rewind_ready E L s U X Y F" "xattr_only D F G" "keeps L s s'"
  shows "rewind_ready E L s' U X Y G"
proof -
  have "restorable E L s' e" if "q \<in> changed_paths X Y - U" "Y q = Some e" for q e
    by (rule restorable_keeps [OF ready_restorable [OF assms(1) that] assms(3)])
  moreover have "G u = None" if "q \<in> changed_paths X Y - U" "\<not> folder_at Y q" "u \<in> U" "below q u" for q u
    using ready_gone(1) [OF assms(1) that] xattr_onlyD(2) [OF assms(2)] by blast
  ultimately show ?thesis
    unfolding rewind_ready_def
    using readyD [OF assms(1)] proper_fs_strip [OF _ assms(2)] holds_tree_strip [OF _ assms(2)]
      ready_gone(2,3) [OF assms(1)] by blast
qed

lemma restored_tree_strip:
  assumes "restored_tree L U Y F" "xattr_only D F G"
  shows "restored_tree L U Y G"
  unfolding restored_tree_def
proof (intro allI impI)
  fix q assume q: "q \<noteq> []" "q \<notin> U"
  have h: "case Y q of None \<Rightarrow> F q = None
      | Some e \<Rightarrow> (te_kind e = SocketMarker \<and> F q = None) \<or> (\<exists>n. F q = Some n \<and> node_ok L e n)"
    using assms(1) q unfolding restored_tree_def by blast
  have none: "F q = None \<longleftrightarrow> G q = None" by (rule xattr_onlyD(2) [OF assms(2)])
  have some: "\<exists>m. G q = Some m \<and> node_ok L e m" if "F q = Some n" "node_ok L e n" for e n
    using xattr_onlyD(1) [OF assms(2) that(1)] node_ok_strip that(2) by blast
  show "case Y q of None \<Rightarrow> G q = None
      | Some e \<Rightarrow> (te_kind e = SocketMarker \<and> G q = None) \<or> (\<exists>n. G q = Some n \<and> node_ok L e n)"
    using h none some by (cases "Y q") auto
qed

lemma checkable_strip:
  assumes "rewind_checkable k E L s U X Y F" "keeps L s s'" "rewind_ready E L s U X Y F'"
  shows "rewind_checkable k E L s' U X Y Map.empty"
  unfolding rewind_checkable_def
proof (intro ballI conjI allI impI)
  fix q e n assume q: "q \<in> changed_paths X Y - U" "Y q = Some e" "te_kind e \<noteq> SocketMarker" "node_ok L e n"
    and a: "file_xattrs E L s' e n"
  have "file_xattrs E L s e n"
  proof (cases "te_kind e = File")
    case True
    then obtain xs where xs: "read_xattrs E L s (te_xattrs e) = Inr xs"
      using ready_restorable [OF assms(3) q(1,2)] by (auto simp: restorable_def)
    from a True xs read_xattrs_keeps [OF xs assms(2)] show ?thesis by (auto simp: file_xattrs_def)
  qed (simp add: file_xattrs_def)
  then have "checkable k E L s e n" by (rule rewind_checkableD(2) [OF assms(1) q(1,3) order_refl q(2,4)])
  then show "checkable k E L s' e n" by (rule checkable_keeps [OF _ assms(2)])
qed simp

text \<open>The steps after the plan, with fuel that is enough for the lookups.\<close>

lemma rewind_steps_ok:
  assumes inv: "map_inv L s" and ready: "rewind_ready E L s U X Y (bt_get fs)" and apart: "links_apart U X Y"
    and check: "rewind_checkable k E L s U X Y (bt_get fs)" "k \<le> n"
    and plan: "plan_changes U X Y changes" "distinct (map rc_path changes)"
    and pre: "entries_for_changed_paths (map_read_tree L) n s current changes = Inr pre" "entries_of X changes pre"
    and M: "entries_for_plan (map_read_tree L) n s root changes = Inr M" "entries_of Y changes M"
  shows "\<exists>s' fs'. rewind_steps n E L (s, fs) current root changes [] = Inr (s', fs') \<and> map_inv L s' \<and> keeps L s s' \<and>
     restored_tree L U Y (bt_get fs') \<and> (\<forall>u\<in>U. bt_get fs' u = bt_get fs u)"
proof -
  note tl = readyD(1,2) [OF ready]
  let ?C = "changed_paths X Y - U"
  have "\<exists>q\<in>?C. rc_path c = raw q \<and> valid_fpath q \<and> path_ready n E L s (bt_get fs) q (bt_get pre (raw q))"
    if c: "c \<in> set changes" for c
  proof -
    obtain q where q: "rc_path c = raw q" "q \<in> ?C" "valid_fpath q" by (rule plan_changes_valid [OF tl plan(1) c])
    then have "path_ready n E L s (bt_get fs) q (bt_get pre (raw q))"
      using path_ready_before [OF ready apart check q(2)] entries_of_get [OF pre(2) c q(1,3)] by simp
    then show ?thesis using q by blast
  qed
  then obtain s1 fs1 where v1: "verify_plan_state n E L (s, fs) pre changes [] = Inr (s1, fs1)" "map_inv L s1" "keeps L s s1"
      "xattr_only ?C (bt_get fs) (bt_get fs1)"
    by (rule verify_plan_ok [OF inv plan(2)])
  note ready1 = ready_strip [OF ready v1(4,3)]
  obtain fs2 where a: "apply_plan_at E L s1 fs1 M changes [] = Inr fs2" "restored_tree L U Y (bt_get fs2)"
      "\<forall>u\<in>U. bt_get fs2 u = bt_get fs1 u" "\<exists>d. bt_get fs2 [] = Some d \<and> is_folder d"
      "\<forall>q\<in>?C. \<forall>e n. Y q = Some e \<longrightarrow> te_kind e = File \<longrightarrow> bt_get fs2 q = Some n \<longrightarrow> file_xattrs E L s1 e n"
    using apply_plan_restores [OF ready1 entries_plan_map [OF tl plan(1) M(2)] plan(1)] by blast
  note check1 = checkable_strip [OF check(1) v1(3) ready]
  have "\<exists>q\<in>?C. rc_path c = raw q \<and> valid_fpath q \<and> path_ready n E L s1 (bt_get fs2) q (bt_get M (raw q))"
    if c: "c \<in> set changes" for c
  proof -
    obtain q where q: "rc_path c = raw q" "q \<in> ?C" "valid_fpath q" by (rule plan_changes_valid [OF tl plan(1) c])
    then have "path_ready n E L s1 (bt_get fs2) q (Y q)"
      using path_ready_after [OF ready1 check1 check(2) q(2) a(2,4)] a(5) by blast
    then show ?thesis using q entries_of_get [OF M(2) c q(1,3)] by auto
  qed
  then obtain s2 fs3 where v2: "verify_plan_state n E L (s1, fs2) M changes [] = Inr (s2, fs3)" "map_inv L s2" "keeps L s1 s2"
      "xattr_only ?C (bt_get fs2) (bt_get fs3)"
    by (rule verify_plan_ok [OF v1(2) plan(2)])
  have "rewind_steps n E L (s, fs) current root changes [] = Inr (s2, fs3)"
    using pre(1) M(1) v1(1) a(1) v2(1) by (simp add: rewind_steps_def)
  moreover have "\<forall>u\<in>U. bt_get fs3 u = bt_get fs u"
    using a(3) xattr_onlyD(3) [OF v1(4)] xattr_onlyD(3) [OF v2(4)] by auto
  ultimately show ?thesis
    using v2(2) keeps_trans [OF v1(3) v2(3)] restored_tree_strip [OF a(2) v2(4)] by blast
qed

section \<open>The whole rewind\<close>

lemma rewind_succeeds:
  assumes "map_inv L s"
    and "map_read L s target Snapshot = Inr bs" "parse_snapshot L bs = Some snap"
    and "from_rules (sn_excluded_paths snap) = Inr tp"
    and "forest (map_read_tree L) s d current X" "forest (map_read_tree L) s d (sn_root_tree snap) Y"
    and "rewind_ready E L s (untouched (policy_union P tp) composed) X Y (bt_get fs)"
    and "links_apart (untouched (policy_union P tp) composed) X Y"
    and "rewind_checkable k E L s (untouched (policy_union P tp) composed) X Y (bt_get fs)"
  shows "\<exists>N. \<forall>n\<ge>N. \<exists>plan s' fs'. plan_rewind L n s [] P composed None current target [] = Inr plan \<and>
     rewind_steps n E L (s, fs) current (sn_root_tree snap) (rp_changes plan) [] = Inr (s', fs') \<and>
     restored_tree L (untouched (policy_union P tp) composed) Y (bt_get fs') \<and>
     (\<forall>u\<in>untouched (policy_union P tp) composed. bt_get fs' u = bt_get fs u) \<and> map_inv L s' \<and> keeps L s s'"
proof -
  let ?U = "untouched (policy_union P tp) composed"
  note tl = readyD(1,2) [OF assms(7)]
  obtain N where N: "\<forall>n\<ge>N. \<exists>plan. plan_rewind L n s [] P composed None current target [] = Inr plan \<and>
      plan_changes ?U X Y (rp_changes plan) \<and> distinct (map rc_path (rp_changes plan))"
    using plan_rewind_ok [OF assms(2-6)] by blast
  from this [rule_format, OF order_refl] obtain plan :: rewind_plan
    where "plan_changes ?U X Y (rp_changes plan)" by blast
  note lookup = lookup_changes [OF tl this]
  obtain A where A: "\<forall>n\<ge>A. \<forall>q\<in>changed_paths X Y - ?U. lookup_tree_path (map_read_tree L) n s current (raw q) = Inr (X q)"
    using lookup [OF assms(5)] by blast
  obtain B where B: "\<forall>n\<ge>B. \<forall>q\<in>changed_paths X Y - ?U. lookup_tree_path (map_read_tree L) n s (sn_root_tree snap) (raw q) = Inr (Y q)"
    using lookup [OF assms(6)] by blast
  show ?thesis
  proof (intro exI [of _ "max (max N k) (max A B)"] allI impI)
    fix n assume n: "max (max N k) (max A B) \<le> n"
    then obtain plan where plan: "plan_rewind L n s [] P composed None current target [] = Inr plan"
        "plan_changes ?U X Y (rp_changes plan)" "distinct (map rc_path (rp_changes plan))"
      using N by auto
    obtain pre where pre: "entries_for_changed_paths (map_read_tree L) n s current (rp_changes plan) = Inr pre"
        "entries_of X (rp_changes plan) pre"
      using entries_for_changed_paths_ok [OF tl plan(2)] A n by (metis max.bounded_iff)
    obtain M where M: "entries_for_plan (map_read_tree L) n s (sn_root_tree snap) (rp_changes plan) = Inr M"
        "entries_of Y (rp_changes plan) M"
      using entries_for_plan_ok [OF tl plan(2)] B n by (metis max.bounded_iff)
    have "k \<le> n" using n by simp
    from rewind_steps_ok [OF assms(1,7-9) this plan(2,3) pre M] plan(1)
    show "\<exists>plan s' fs'. plan_rewind L n s [] P composed None current target [] = Inr plan \<and>
       rewind_steps n E L (s, fs) current (sn_root_tree snap) (rp_changes plan) [] = Inr (s', fs') \<and>
       restored_tree L ?U Y (bt_get fs') \<and> (\<forall>u\<in>?U. bt_get fs' u = bt_get fs u) \<and> map_inv L s' \<and> keeps L s s'"
      by blast
  qed
qed

end
