(* ===== verification/Rewind_Sample.thy ===== *)
theory Rewind_Sample
  imports Rewind_Steps File_Theorems
begin

text \<open>
  A closed example of a rewind: the workspace holds the file \<open>old\<close>, the target a directory \<open>d\<close> with
  a file \<open>f\<close>.
\<close>

definition store_of :: "(object_kind \<times> bytes) list \<Rightarrow> object_map" where
  "store_of xs = map_of (map (\<lambda>(k, b). (object_id sample_lib k b, (k, b))) xs)"

lemma store_of_inv: "map_inv sample_lib (store_of xs)"
  by (auto simp: map_inv_def sample_lib_collision_free sample_lib_json store_of_def dest!: map_of_SomeD)

lemma store_of_read:
  assumes "(k, b) \<in> set xs"
  shows "map_read sample_lib (store_of xs) (object_id sample_lib k b) k = Inr b"
proof -
  let ?m = "map (\<lambda>(k, b). (object_id sample_lib k b, (k, b))) xs"
  have "(object_id sample_lib k b, (k, b)) \<in> set ?m" using assms by force
  from weak_map_of_SomeI [OF this] obtain k' b' where m: "map_of ?m (object_id sample_lib k b) = Some (k', b')" by auto
  then have "object_id sample_lib k' b' = object_id sample_lib k b" by (auto dest!: map_of_SomeD)
  then have "k' = k" "b' = b" using sample_lib_collision_free unfolding collision_free_def by blast+
  then show ?thesis using m by (simp add: map_read_Inr store_of_def)
qed

definition file_node_entry :: "bytes \<Rightarrow> bytes \<Rightarrow> tree_entry" where
  "file_node_entry name c = \<lparr>te_name = name, te_kind = File, te_target = Some (blob_id sample_lib c), te_link_target = [],
     te_mode = 0x81A4, te_size = of_nat (length c), te_mtime_secs = 5, te_mtime_nanos = 0, te_xattrs = None,
     te_class = Source\<rparr>"

definition leaf :: "tree_entry list \<Rightarrow> bytes" where
  "leaf es = json_tree sample_lib \<lparr>tr_entries = es, tr_pages = []\<rparr>"

definition old_entry :: tree_entry where "old_entry = file_node_entry ''old'' ''o''"

definition new_entry :: tree_entry where "new_entry = file_node_entry ''f'' ''hi''"

definition dir_entry :: tree_entry where
  "dir_entry = \<lparr>te_name = ''d'', te_kind = Directory, te_target = Some (object_id sample_lib Tree (leaf [new_entry])),
     te_link_target = [], te_mode = 0x416D, te_size = 0, te_mtime_secs = 7, te_mtime_nanos = 0, te_xattrs = None,
     te_class = Source\<rparr>"

definition old_tree :: tree_map where "old_tree = [[''old''] \<mapsto> old_entry]"

definition new_tree :: tree_map where "new_tree = [[''d''] \<mapsto> dir_entry, [''d'', ''f''] \<mapsto> new_entry]"

definition target_snapshot :: snapshot where
  "target_snapshot = \<lparr>sn_root_tree = object_id sample_lib Tree (leaf [dir_entry]), sn_parent = None, sn_merge_parents = [],
     sn_sealed_at_secs = 0, sn_sealed_at_nanos = 0, sn_quality = Quiescent, sn_trigger = Manual, sn_label = None,
     sn_sqlite_backups = [], sn_claims = [], sn_excluded_paths = [], sn_hardlinks = [], sn_ignored = None\<rparr>"

definition file_objects :: "bytes \<Rightarrow> (object_kind \<times> bytes) list" where
  "file_objects c = [(Chunk, c), (Blob, json_blob sample_lib (blob_of sample_lib c))]"

definition rewind_objects :: "(object_kind \<times> bytes) list" where
  "rewind_objects = file_objects ''o'' @ file_objects ''hi'' @
     [(Tree, leaf [old_entry]), (Tree, leaf [new_entry]), (Tree, leaf [dir_entry]),
      (Snapshot, json_snapshot sample_lib target_snapshot)]"

abbreviation rewind_store :: object_map where "rewind_store \<equiv> store_of rewind_objects"

definition sample_os :: os where
  "sample_os = \<lparr>os_now = (9, 0), os_umask = 0x12, os_refuses = (\<lambda>_. False), os_json_xattrs = (\<lambda>_. []),
     os_parse_xattrs = (\<lambda>_. None)\<rparr>"

definition folder_node :: node where
  "folder_node = \<lparr>nd_kind = FolderNode, nd_mode = 0x41ED, nd_mtime = (3, 0), nd_xattrs = []\<rparr>"

definition old_node :: node where
  "old_node = \<lparr>nd_kind = RegularFile ''o'', nd_mode = 0x81A4, nd_mtime = (5, 0), nd_xattrs = []\<rparr>"

definition sample_fs :: fs where
  "sample_fs = [([], folder_node), ([''old''], old_node)]"

section \<open>The trees\<close>

lemma leaf_paged:
  assumes "(Tree, leaf es) \<in> set xs"
  shows "paged (map_read_tree sample_lib) (store_of xs) (object_id sample_lib Tree (leaf es)) es"
proof (rule paged_leaf)
  show "map_read_tree sample_lib (store_of xs) (object_id sample_lib Tree (leaf es)) = Inr \<lparr>tr_entries = es, tr_pages = []\<rparr>"
    using store_of_read [OF assms] sample_lib_json by (simp add: map_read_tree_def leaf_def json_faithful_def)
qed

lemma forest_of_file:
  assumes "(Tree, leaf [e]) \<in> set xs" "te_kind e \<noteq> Directory" "valid_name (te_name e)"
  shows "forest (map_read_tree sample_lib) (store_of xs) (Suc d) (object_id sample_lib Tree (leaf [e])) [[te_name e] \<mapsto> e]"
  unfolding forest.simps
  by (intro exI [of _ "[e]"] conjI leaf_paged [OF assms(1)])
    (use assms(2,3) in \<open>auto simp: subtree_at_def no_tree_def fun_eq_iff\<close>)

lemma old_forest: "forest (map_read_tree sample_lib) rewind_store 2 (object_id sample_lib Tree (leaf [old_entry])) old_tree"
  using forest_of_file [of old_entry rewind_objects 1]
  by (simp add: rewind_objects_def old_tree_def old_entry_def file_node_entry_def valid_name_def numeral_2_eq_2)

lemma new_forest: "forest (map_read_tree sample_lib) rewind_store 2 (sn_root_tree target_snapshot) new_tree"
proof -
  have sub: "subtree_at new_tree ''d'' = [[te_name new_entry] \<mapsto> new_entry]"
    by (auto simp: subtree_at_def new_tree_def fun_eq_iff new_entry_def file_node_entry_def)
  have f: "forest (map_read_tree sample_lib) rewind_store 1 (object_id sample_lib Tree (leaf [new_entry])) (subtree_at new_tree ''d'')"
    unfolding sub One_nat_def
    by (rule forest_of_file) (simp_all add: rewind_objects_def new_entry_def file_node_entry_def valid_name_def)
  have "forest (map_read_tree sample_lib) rewind_store (Suc 1) (object_id sample_lib Tree (leaf [dir_entry])) new_tree"
    unfolding forest.simps
  proof (intro exI [of _ "[dir_entry]"] conjI)
    show "paged (map_read_tree sample_lib) rewind_store (object_id sample_lib Tree (leaf [dir_entry])) [dir_entry]"
      by (rule leaf_paged) (simp add: rewind_objects_def)
    show "\<forall>e\<in>set [dir_entry]. te_kind e = Directory \<longrightarrow>
        (\<exists>t. te_target e = Some t \<and> forest (map_read_tree sample_lib) rewind_store 1 t (subtree_at new_tree (te_name e)))"
      using f by (simp add: dir_entry_def)
  qed (auto simp: new_tree_def dir_entry_def valid_name_def subtree_at_def no_tree_def fun_eq_iff is_dir_def)
  then show ?thesis by (simp add: target_snapshot_def numeral_2_eq_2)
qed

lemma target_read:
  "map_read sample_lib rewind_store (object_id sample_lib Snapshot (json_snapshot sample_lib target_snapshot)) Snapshot =
     Inr (json_snapshot sample_lib target_snapshot)"
  by (rule store_of_read) (simp add: rewind_objects_def)

lemma rewind_content: "has_content sample_lib rewind_store ''hi''"
proof -
  have "chunks_of ''hi'' = [''hi'']" by (rule chunks_of_small) (simp_all add: MIN_CHUNK_def)
  then show ?thesis
    unfolding has_content_def blob_id_def
    by (auto intro!: store_of_read simp: rewind_objects_def file_objects_def)
qed

section \<open>The example is ready\<close>

definition sample_policy :: policy where "sample_policy = default_policy\<lparr>po_excluded := [''cache'']\<rparr>"

lemma sample_rules: "from_rules [] = Inr default_policy"
  by (simp add: from_rules_def default_policy_def)

abbreviation sample_untouched :: "fpath set" where
  "sample_untouched \<equiv> untouched (policy_union sample_policy default_policy) False"

lemma policy_union_matcher: "po_matcher (policy_union sample_policy default_policy) = None"
  by (simp add: policy_union_def sample_policy_def default_policy_def or_else_def)

lemma sample_changed:
  assumes "q \<in> changed_paths old_tree new_tree"
  shows "q = [''old''] \<or> q = [''d''] \<or> q = [''d'', ''f'']"
  using changed_exists [OF forest_tree_like [OF old_forest] forest_tree_like [OF new_forest] assms]
  by (auto simp: old_tree_def new_tree_def split: if_splits)

lemma sample_nodes: "bt_get sample_fs q = (if q = [] then Some folder_node else if q = [''old''] then Some old_node else None)"
  by (simp add: sample_fs_def)

lemma sample_proper: "proper_fs (bt_get sample_fs)"
  unfolding proper_fs_def sample_nodes
  by (auto simp: folder_ok_def folder_node_def is_folder_def old_node_def OWNER_WRITE_def PERMISSIONS_def S_IFDIR_def
      split: if_splits)

lemma entry_kinds [simp]:
  "te_kind old_entry = File" "te_kind new_entry = File" "te_kind dir_entry = Directory"
  by (simp_all add: old_entry_def new_entry_def dir_entry_def file_node_entry_def)

lemma old_node_ok: "node_ok sample_lib old_entry old_node"
  by (simp add: node_ok_def) (simp add: old_entry_def old_node_def file_node_entry_def entry_mtime_def)

lemma sample_holds: "holds_tree sample_lib sample_untouched old_tree (bt_get sample_fs)"
  unfolding holds_tree_def sample_nodes using old_node_ok by (auto simp: old_tree_def)

lemma no_xattrs [simp]: "te_xattrs old_entry = None" "te_xattrs new_entry = None" "te_xattrs dir_entry = None"
  by (simp_all add: old_entry_def new_entry_def dir_entry_def file_node_entry_def)

lemma read_no_xattrs [simp]: "read_xattrs E L s None = Inr []"
  by (simp add: read_xattrs_def)

lemma sample_restorable: "restorable sample_os sample_lib rewind_store new_entry"
  "restorable sample_os sample_lib rewind_store dir_entry"
proof -
  have "te_target new_entry = Some (blob_id sample_lib ''hi'')" "te_mode new_entry = 0x81A4" "te_size new_entry = 2"
    by (simp_all add: new_entry_def file_node_entry_def)
  then show "restorable sample_os sample_lib rewind_store new_entry"
    using rewind_content unfolding restorable_def by (auto simp: PERMISSIONS_def S_IFREG_def intro!: exI [of _ "''hi''"])
  have "te_mode dir_entry = 0x416D" by (simp add: dir_entry_def)
  then show "restorable sample_os sample_lib rewind_store dir_entry" by (simp add: restorable_def PERMISSIONS_def S_IFDIR_def)
qed

lemma sample_ready:
  "rewind_ready sample_os sample_lib rewind_store sample_untouched old_tree new_tree (bt_get sample_fs)"
proof -
  have closed: "\<forall>q name. q \<in> sample_untouched \<longrightarrow> q @ [name] \<in> sample_untouched"
    using untouched_closed [OF policy_union_matcher] by blast
  have each: "(\<forall>e. new_tree q = Some e \<longrightarrow> restorable sample_os sample_lib rewind_store e) \<and>
      (\<not> folder_at new_tree q \<longrightarrow>
         (\<forall>u\<in>sample_untouched. below q u \<longrightarrow> bt_get sample_fs u = None) \<and>
         (\<forall>e. old_tree q = Some e \<longrightarrow> te_kind e = Directory \<longrightarrow> te_mode e AND OWNER_WRITE \<noteq> 0) \<and>
         (\<forall>e r. new_tree q = Some e \<longrightarrow> te_kind e = Symlink \<longrightarrow> below q r \<longrightarrow> old_tree r = None))"
    if "q \<in> changed_paths old_tree new_tree - sample_untouched" for q
  proof -
    have q: "q = [''old''] \<or> q = [''d''] \<or> q = [''d'', ''f'']" using sample_changed that by blast
    have res: "\<forall>e. new_tree q = Some e \<longrightarrow> restorable sample_os sample_lib rewind_store e \<and> te_kind e \<noteq> Symlink"
      using q sample_restorable by (auto simp: new_tree_def split: if_splits)
    have "\<forall>e. old_tree q = Some e \<longrightarrow> te_kind e \<noteq> Directory" by (auto simp: old_tree_def split: if_splits)
    moreover have "\<forall>u. below q u \<longrightarrow> bt_get sample_fs u = None" using q by (auto simp: sample_nodes below_def)
    ultimately show ?thesis using res by auto
  qed
  show ?thesis
    unfolding rewind_ready_def
    using forest_tree_like [OF old_forest] forest_tree_like [OF new_forest] sample_lib_json sample_proper sample_holds closed each
    by (simp add: untouched_def)
qed

lemma sample_apart: "links_apart U old_tree new_tree"
  by (auto simp: links_apart_def old_tree_def split: if_splits)

lemma sample_checkable:
  "rewind_checkable 6 sample_os sample_lib rewind_store sample_untouched old_tree new_tree (bt_get sample_fs)"
  unfolding rewind_checkable_def
proof (intro ballI conjI allI impI)
  fix q e n assume "old_tree q = Some e" "bt_get sample_fs q = Some n"
  then have "e = old_entry" "n = old_node" by (auto simp: old_tree_def sample_nodes split: if_splits)
  then show "checkable 6 sample_os sample_lib rewind_store e n"
    using small_blob [of "''o''"] by (simp add: checkable_def xattrs_fit_def sample_os_def) (simp add: old_node_def)
next
  fix q e n assume e: "new_tree q = Some e" and n: "node_ok sample_lib e n"
  show "checkable 6 sample_os sample_lib rewind_store e n"
  proof (cases "e = dir_entry")
    case True
    then show ?thesis using n by (auto simp: checkable_def node_ok_def is_folder_def)
  next
    case False
    then have e': "e = new_entry" using e by (auto simp: new_tree_def split: if_splits)
    then obtain c where c: "nd_kind n = RegularFile c" "te_target e = Some (blob_id sample_lib c)"
      using n by (auto simp: node_ok_def)
    then have "blob_id sample_lib ''hi'' = blob_id sample_lib c" using e' by (simp add: new_entry_def file_node_entry_def)
    then have "c = ''hi''" using blob_id_inj [OF sample_lib_collision_free sample_lib_json] by metis
    then show ?thesis using c(1) e' small_blob [of "''hi''"] by (simp add: checkable_def xattrs_fit_def sample_os_def)
  qed
qed

end
