(* ===== verification/Rewind_Refusals.thy ===== *)
theory Rewind_Refusals
  imports Rewind_Sample
begin

text \<open>
  Rewinds that cannot end well: a directory with entries on one side and a link on the other, and a
  FIFO that has to be created. The checks of the plan never change what kind of node a path is, and
  they refuse every path below a link.
\<close>

lemma rfold_every: "rfold (\<lambda>_ x. f x) () xs = Inr () \<Longrightarrow> x \<in> set xs \<Longrightarrow> f x = Inr ()"
  by (induction xs) auto

lemma ensure_safe_parent_refuses:
  assumes "below p q" "p \<noteq> []" "bt_get fs p = Some d" "is_link d"
  shows "ensure_safe_parent fs q \<noteq> Inr ()"
proof
  assume ok: "ensure_safe_parent fs q = Inr ()"
  have "length p \<in> set [1..<length q]" "take (length p) q = p" using assms(1,2) by (cases p; simp add: below_def)+
  with rfold_every [OF ok [unfolded ensure_safe_parent_def], of "length p"] assms(3,4) show False by auto
qed

definition same_kinds :: "fs \<Rightarrow> fs \<Rightarrow> bool" where
  "same_kinds fs fs' \<longleftrightarrow> (\<forall>q. map_option nd_kind (bt_get fs' q) = map_option nd_kind (bt_get fs q))"

lemma same_kinds_refl [simp]: "same_kinds fs fs"
  by (simp add: same_kinds_def)

lemma same_kinds_trans: "same_kinds a b \<Longrightarrow> same_kinds b c \<Longrightarrow> same_kinds a c"
  by (simp add: same_kinds_def)

lemma same_kinds_link: "same_kinds fs fs' \<Longrightarrow> (\<exists>d. bt_get fs' p = Some d \<and> is_link d) \<longleftrightarrow> (\<exists>d. bt_get fs p = Some d \<and> is_link d)"
proof -
  assume "same_kinds fs fs'"
  then have "map_option nd_kind (bt_get fs' p) = map_option nd_kind (bt_get fs p)" by (simp add: same_kinds_def)
  then show ?thesis by (cases "bt_get fs' p"; cases "bt_get fs p") (auto simp: is_link_def)
qed

lemma path_matches_kinds:
  assumes "path_matches_entry fuel E L (s, fs) p e = Inr ((s', fs'), b)"
  shows "same_kinds fs fs'"
proof -
  have "fs' = fs \<or> (\<exists>n m. bt_get fs p = Some n \<and> fs' = bt_insert p (n\<lparr>nd_xattrs := m\<rparr>) fs)"
    using assms by (fastforce simp: path_matches_entry_def xattrs_match_best_effort_def split: option.splits if_splits)
  then show ?thesis by (auto simp: same_kinds_def bt_get_insert)
qed

lemma verify_change_kinds:
  assumes "verify_change fuel E L expected [] (s, fs) c = Inr (s', fs')"
  shows "same_kinds fs fs'"
  using assms path_matches_kinds by (fastforce simp: verify_change_def split: if_splits option.splits)

lemma verify_change_refuses:
  assumes "rc_path c = raw q" "valid_fpath q" "\<not> is_identity_path (raw q)" "below p q" "p \<noteq> []"
    and "\<exists>d. bt_get fs p = Some d \<and> is_link d"
  shows "verify_change fuel E L expected [] (s, fs) c \<noteq> Inr st"
proof -
  have "rc_path c \<noteq> ''.furrow''" using assms(1,3) by (auto simp: is_identity_path_def)
  moreover have "ensure_safe_parent fs q \<noteq> Inr ()" using ensure_safe_parent_refuses [OF assms(4,5)] assms(6) by blast
  ultimately show ?thesis using assms(1-3) by (auto simp: verify_change_def selected_def)
qed

lemma verify_prefix:
  assumes "rfold (verify_change fuel E L expected []) (s, fs) changes = Inr (s', fs')"
  shows "same_kinds fs fs'"
proof -
  have "same_kinds fs (snd (s', fs'))"
    by (rule rfold_invariant [OF assms, where I = "\<lambda>st. same_kinds fs (snd st)"])
      (use verify_change_kinds same_kinds_trans in \<open>fastforce+\<close>)
  then show ?thesis by simp
qed

lemma verify_refuses:
  assumes "c \<in> set changes" "rc_path c = raw q" "valid_fpath q" "\<not> is_identity_path (raw q)" "below p q" "p \<noteq> []"
    and "\<exists>d. bt_get fs p = Some d \<and> is_link d"
  shows "verify_plan_state fuel E L (s, fs) expected changes [] \<noteq> Inr st"
proof
  assume ok: "verify_plan_state fuel E L (s, fs) expected changes [] = Inr st"
  obtain ds rest where ch: "changes = ds @ c # rest" using assms(1) by (meson split_list)
  then obtain s1 fs1 st2 where 1: "rfold (verify_change fuel E L expected []) (s, fs) ds = Inr (s1, fs1)"
      "verify_change fuel E L expected [] (s1, fs1) c = Inr st2"
    using ok by (auto simp: verify_plan_state_def rfold_append)
  have "\<exists>d. bt_get fs1 p = Some d \<and> is_link d" using same_kinds_link [OF verify_prefix [OF 1(1)]] assms(7) by blast
  then show False using verify_change_refuses [OF assms(2-6)] 1(2) by blast
qed

text \<open>A path whose entry is a link passes the check only if it is a link.\<close>

lemma verify_needs_link:
  assumes ok: "verify_plan_state fuel E L (s, fs) expected changes [] = Inr st"
    and c: "c \<in> set changes" "rc_path c = raw p" "valid_fpath p" "\<not> is_identity_path (raw p)"
    and e: "bt_get expected (raw p) = Some e" "te_kind e = Symlink"
  shows "\<exists>d. bt_get fs p = Some d \<and> is_link d"
proof -
  obtain ds rest where ch: "changes = ds @ c # rest" using c(1) by (meson split_list)
  then obtain s1 fs1 st2 where 1: "rfold (verify_change fuel E L expected []) (s, fs) ds = Inr (s1, fs1)"
      "verify_change fuel E L expected [] (s1, fs1) c = Inr st2"
    using ok by (auto simp: verify_plan_state_def rfold_append)
  have "rc_path c \<noteq> ''.furrow''" using c(2,4) by (auto simp: is_identity_path_def)
  then have "\<exists>st. path_matches_entry fuel E L (s1, fs1) p e = Inr (st, True)"
    using 1(2) c(2-4) e(1) by (auto simp: verify_change_def selected_def split: if_splits)
  then have "\<exists>d. bt_get fs1 p = Some d \<and> is_link d"
    using e(2) by (auto simp: path_matches_entry_def kind_matches_def split: option.splits if_splits)
  then show ?thesis using same_kinds_link [OF verify_prefix [OF 1(1)]] by blast
qed

lemma entries_for_plan_entry:
  assumes "entries_for_plan read n s root changes = Inr M" "c \<in> set changes" "rc_action c \<noteq> ''remove''"
    and "lookup_tree_path read n s root (rc_path c) = Inr (Some e)"
  shows "bt_get M (rc_path c) = Some e"
proof -
  let ?f = "\<lambda>entries c. if rc_action c = ''remove'' then Inr entries
       else rbind (lookup_tree_path read n s root (rc_path c)) (\<lambda>found.
            rbind (of_opt (''target snapshot is missing '' @ rc_path c) found) (\<lambda>e.
            Inr (bt_insert (rc_path c) e entries)))"
  obtain ds rest where ch: "changes = ds @ c # rest" using assms(2) by (meson split_list)
  then obtain M1 where "rfold ?f [] ds = Inr M1" "rfold ?f (bt_insert (rc_path c) e M1) rest = Inr M"
    using assms(1,3,4) by (auto simp: entries_for_plan_def rfold_append)
  note r = this
  show ?thesis
    by (rule rfold_invariant [OF r(2), where I = "\<lambda>M. bt_get M (rc_path c) = Some e"])
      (use assms(4) in \<open>auto simp: bt_get_insert split: if_splits\<close>)
qed

section \<open>What a removal takes along\<close>

text \<open>
  Exclusion is checked for the path that is removed and not for what is below it: a directory that the
  target does not have goes away with the excluded paths in it. A directory that may not be written
  cannot be removed while it has entries.
\<close>

definition build_fs :: "32 word \<Rightarrow> fs" where
  "build_fs mode = [([], folder_node), ([''build''], folder_node\<lparr>nd_mode := mode\<rparr>), ([''build'', ''cache''], old_node)]"

definition build_policy :: policy where "build_policy = default_policy\<lparr>po_excluded := [''build/cache'']\<rparr>"

lemma removal_takes_excluded:
  "excludes_bytes build_policy ''build/cache'' \<and>
   may_touch build_policy False \<lparr>rc_path = ''build'', rc_action = ''remove''\<rparr> \<and>
   map_sum id (\<lambda>fs. bt_get fs [''build'', ''cache'']) (apply_removal sample_os [] (build_fs 0x41ED) ''build'') = Inr None"
  by code_simp

lemma removal_of_read_only: "apply_removal sample_os [] (build_fs 0x416D) ''build'' = Inl (Bail ''Permission denied'')"
  by code_simp

definition link_fs :: fs where
  "link_fs = [([], folder_node), ([''d''], \<lparr>nd_kind = LinkNode ''e'', nd_mode = 0xA1FF, nd_mtime = (3, 0), nd_xattrs = []\<rparr>)]"

section \<open>Properties\<close>



text \<open>
  A FIFO that is created has the time of its creation, so that the check after the changes refuses
  it unless the recorded time happens to be the same.
\<close>

lemma created_fifo_refused:
  assumes "create_fifo E fs p (te_mode e) = Inr fs'" "te_kind e = Fifo" "os_now E \<noteq> entry_mtime e"
  shows "path_matches_entry fuel E L (s, fs') p e = Inr ((s, fs'), False)"
  using assms
  by (auto simp: create_fifo_def create_node_def put_node_def path_matches_entry_def kind_matches_def time_matches_def
      bt_get_insert split: if_splits)

end
