(* ===== verification/Rewind_Theorems.thy ===== *)
theory Rewind_Theorems
  imports Rewind_Refusals
begin

text \<open>
  The whole of a rewind: the plan, the checks before and after, and what the workspace holds in the
  end. The example of \<open>Rewind_Sample\<close> shows that the hypotheses can hold.
\<close>

section \<open>Properties\<close>


lemma target_parses: "parse_snapshot sample_lib (json_snapshot sample_lib target_snapshot) = Some target_snapshot"
  using sample_lib_json by (simp add: json_faithful_def)

lemma target_rules: "from_rules (sn_excluded_paths target_snapshot) = Inr default_policy"
  using sample_rules by (simp add: target_snapshot_def)


end
