(* ===== verification/Sorted_Dir.thy ===== *)
theory Sorted_Dir
  imports Workspace_Paths "HOL-Library.Multiset" "HOL-Library.Product_Lexorder"
begin

text \<open>
  Directory names in byte order with bounded memory (\<^verbatim>\<open>furrow-core/src/sorted_dir.rs\<close>): names are
  sorted in runs, a directory of more than one run spills them to temporary files, and a heap merges
  the files again. A temporary file is its unread bytes. \<open>WithOverlay\<close> of \<^verbatim>\<open>overlay.rs\<close> puts
  the overlay's name into such a stream.
\<close>

definition NAMES_PER_RUN :: nat where "NAMES_PER_RUN = 8 * 1024"

text \<open>The greatest element of the heap is the least name, and of equal names the earliest run.\<close>

datatype heap_name = HeapName (hn_name: bytes) (hn_run: nat)

definition heap_name_le :: "heap_name \<Rightarrow> heap_name \<Rightarrow> bool" where
  "heap_name_le self other \<longleftrightarrow> (hn_name other, hn_run other) \<le> (hn_name self, hn_run self)"

instantiation heap_name :: linorder
begin

definition less_eq_heap_name :: "heap_name \<Rightarrow> heap_name \<Rightarrow> bool" where
  less_eq_heap_name_iff: "less_eq_heap_name self other \<longleftrightarrow> heap_name_le self other"

definition less_heap_name :: "heap_name \<Rightarrow> heap_name \<Rightarrow> bool" where
  "less_heap_name self other \<longleftrightarrow> (hn_name other, hn_run other) < (hn_name self, hn_run self)"

lemmas less_eq_heap_name_def = less_eq_heap_name_iff [unfolded heap_name_le_def]

instance
proof
  fix x y z :: heap_name
  show "(x < y) = (x \<le> y \<and> \<not> y \<le> x)" unfolding less_heap_name_def less_eq_heap_name_def by (rule less_le_not_le)
  show "x \<le> x" by (simp add: less_eq_heap_name_def)
  show "x \<le> z" if "x \<le> y" "y \<le> z" using that unfolding less_eq_heap_name_def by (rule order_trans [rotated])
  show "x = y" if "x \<le> y" "y \<le> x"
  proof -
    have "(hn_name x, hn_run x) = (hn_name y, hn_run y)"
      using that unfolding less_eq_heap_name_def by (rule antisym [rotated])
    then show ?thesis by (simp add: heap_name.expand)
  qed
  show "x \<le> y \<or> y \<le> x" unfolding less_eq_heap_name_def by (rule linear)
qed

end

type_synonym name_heap = "heap_name list"

definition name_heap_pop :: "name_heap \<Rightarrow> (heap_name \<times> name_heap) option" where
  "name_heap_pop h = (if h = [] then None else let m = Max (set h) in Some (m, remove1 m h))"

section \<open>Runs\<close>

definition spill_run :: "bytes list \<Rightarrow> bytes result" where
  "spill_run names =
     rfold (\<lambda>written name.
       ensure (length name < 2 ^ 32) ''filename too long''
         (Inr (written @ le_bytes 4 (length name) @ name))) [] (sort names)"

definition read_name :: "bytes \<Rightarrow> (bytes option \<times> bytes) result" where
  "read_name reader =
     (if reader = [] then Inr (None, reader)
      else rbind (of_opt ''failed to fill whole buffer'' (read_exact 4 reader)) (\<lambda>(len, reader).
           rbind (of_opt ''failed to fill whole buffer'' (read_exact (le_val len) reader)) (\<lambda>(name, reader).
           Inr (Some name, reader))))"

lemma read_name_consumes:
  "read_name reader = Inr (Some name, rest) \<Longrightarrow> length rest < length reader"
  "read_name reader = Inr (None, rest) \<Longrightarrow> rest = reader"
  by (auto simp: read_name_def read_exact_Some_iff split: if_splits)

section \<open>The directory\<close>

datatype sorted_directory = Memory "bytes list" | MergeRuns "bytes list" name_heap

definition collect_name :: "bytes list \<times> bytes list \<Rightarrow> bytes \<Rightarrow> (bytes list \<times> bytes list) result" where
  "collect_name = (\<lambda>(names, runs) name.
     let names = names @ [name] in
     if length names = NAMES_PER_RUN then rbind (spill_run names) (\<lambda>run. Inr ([], runs @ [run]))
     else Inr (names, runs))"

definition first_name :: "bytes list \<times> name_heap \<Rightarrow> nat \<times> bytes \<Rightarrow> (bytes list \<times> name_heap) result" where
  "first_name = (\<lambda>(readers, heap) (run, reader).
     rbind (read_name reader) (\<lambda>(found, reader).
     Inr (readers @ [reader], case found of None \<Rightarrow> heap | Some name \<Rightarrow> HeapName name run # heap)))"

definition sorted_open :: "bytes list \<Rightarrow> sorted_directory result" where
  "sorted_open entries =
     rbind (rfold collect_name ([], []) entries) (\<lambda>(names, runs).
     if runs = [] then Inr (Memory (sort names))
     else rbind (if names \<noteq> [] then rbind (spill_run names) (\<lambda>run. Inr (runs @ [run])) else Inr runs) (\<lambda>runs.
          rbind (rfold first_name ([], []) (enumerate 0 runs)) (\<lambda>(readers, heap).
          Inr (MergeRuns readers heap))))"

lemma name_heap_pop_length: "name_heap_pop h = Some (m, h') \<Longrightarrow> length h = Suc (length h')"
  using Max_in [of "set h"] by (auto simp: name_heap_pop_def Let_def length_remove1 split: if_splits)

lemma sum_list_update_less:
  assumes "i < length xs" "y < xs ! i"
  shows "sum_list (xs[i := y]) < sum_list (xs :: nat list)"
  using assms elem_le_sum_list [of i xs] by (simp add: sum_list_update)

text \<open>What the iterator yields until its end, or until an error that the caller passes on.\<close>

function merge_names :: "bytes list \<Rightarrow> name_heap \<Rightarrow> bytes list result" where
  "merge_names runs heap =
     (case name_heap_pop heap of
        None \<Rightarrow> Inr []
      | Some (item, heap) \<Rightarrow>
          if hn_run item < length runs
          then (case read_name (runs ! hn_run item) of
                  Inl e \<Rightarrow> Inl e
                | Inr (found, reader) \<Rightarrow>
                    rbind (merge_names (runs[hn_run item := reader])
                        (case found of None \<Rightarrow> heap | Some name \<Rightarrow> HeapName name (hn_run item) # heap))
                      (\<lambda>names. Inr (hn_name item # names)))
          else Inl (Bail ''index out of bounds''))"
  by pat_completeness auto

termination
proof (relation "measure (\<lambda>(runs, heap). sum_list (map length runs) + length heap)")
  fix runs heap x item heap' b found reader
  assume pop: "name_heap_pop heap = Some x" "(item, heap') = x" and run: "hn_run item < length runs"
    and r: "read_name (runs ! hn_run item) = Inr b" "(found, reader) = b"
  have len: "length heap = Suc (length heap')" using pop name_heap_pop_length by blast
  show "((runs[hn_run item := reader], case found of None \<Rightarrow> heap' | Some name \<Rightarrow> HeapName name (hn_run item) # heap'),
      runs, heap) \<in> measure (\<lambda>(runs, heap). sum_list (map length runs) + length heap)"
  proof (cases found)
    case None
    then have "reader = runs ! hn_run item" using r read_name_consumes(2) by auto
    then show ?thesis using len None by simp
  next
    case (Some name)
    then have "length reader < length (runs ! hn_run item)" using r read_name_consumes(1) by auto
    then have "sum_list ((map length runs)[hn_run item := length reader]) < sum_list (map length runs)"
      using sum_list_update_less [of "hn_run item" "map length runs"] run by simp
    then show ?thesis using len Some by (simp add: map_update)
  qed
qed simp

declare merge_names.simps [simp del]

definition sorted_names :: "sorted_directory \<Rightarrow> bytes list result" where
  "sorted_names d = (case d of Memory names \<Rightarrow> Inr names | MergeRuns runs heap \<Rightarrow> merge_names runs heap)"

definition list_directory :: "bytes list \<Rightarrow> bytes list result" where
  "list_directory entries = rbind (sorted_open entries) sorted_names"

text \<open>\<open>WithOverlay::next\<close>: \<open>pending\<close> until the overlay's name has been given.\<close>

function with_overlay :: "bool \<Rightarrow> bytes list \<Rightarrow> bytes list" where
  "with_overlay pending [] = (if pending then [overlay_name] else [])"
| "with_overlay pending (name # names) =
     (if name = overlay_name then with_overlay pending names
      else if name < overlay_name then name # with_overlay pending names
      else if pending then overlay_name # with_overlay False (name # names)
      else name # with_overlay pending names)"
  by pat_completeness auto
termination
  by (relation "measure (\<lambda>(pending, names). 2 * length names + (if pending then 1 else 0))") auto

section \<open>The names come in order\<close>

text \<open>A run as the sequence of names that it holds.\<close>

definition encode_names :: "bytes list \<Rightarrow> bytes" where
  "encode_names names = concat (map (\<lambda>name. le_bytes 4 (length name) @ name) names)"

definition short_names :: "bytes list \<Rightarrow> bool" where
  "short_names names \<longleftrightarrow> (\<forall>name\<in>set names. length name < 2 ^ 32)"

lemma short_names_simps [simp]:
  "short_names []" "short_names (x # xs) \<longleftrightarrow> length x < 2 ^ 32 \<and> short_names xs"
  "short_names (xs @ ys) \<longleftrightarrow> short_names xs \<and> short_names ys" "short_names (sort xs) \<longleftrightarrow> short_names xs"
  by (auto simp: short_names_def)

lemma spill_run_encodes: "short_names names \<Longrightarrow> spill_run names = Inr (encode_names (sort names))"
proof -
  have "rfold (\<lambda>written name. ensure (length name < 2 ^ 32) ''filename too long''
         (Inr (written @ le_bytes 4 (length name) @ name))) w xs = Inr (w @ encode_names xs)"
    if "short_names xs" for w xs
    using that by (induction xs arbitrary: w) (simp_all add: encode_names_def)
  then show "short_names names \<Longrightarrow> ?thesis" by (simp add: spill_run_def)
qed

lemma read_name_encoded:
  "read_name (encode_names []) = Inr (None, [])"
  "length x < 2 ^ 32 \<Longrightarrow> read_name (encode_names (x # xs)) = Inr (Some x, encode_names xs)"
proof -
  show "read_name (encode_names []) = Inr (None, [])" by (simp add: read_name_def encode_names_def)
  assume x: "length x < 2 ^ 32"
  let ?l = "le_bytes 4 (length x)" and ?r = "encode_names xs"
  have enc: "encode_names (x # xs) = ?l @ x @ ?r" by (simp add: encode_names_def)
  have "?l \<noteq> []" by (metis length_le_bytes length_0_conv numeral_eq_iff zero_neq_numeral)
  moreover have "read_exact 4 (?l @ x @ ?r) = Some (?l, x @ ?r)" by (simp add: read_exact_Some_iff)
  moreover have "read_exact (le_val ?l) (x @ ?r) = Some (x, ?r)" using x by (simp add: read_exact_Some_iff)
  ultimately show "read_name (encode_names (x # xs)) = Inr (Some x, ?r)" unfolding enc by (simp add: read_name_def)
qed

lemma name_heap_pop_least:
  assumes "name_heap_pop h = Some (m, h')"
  shows "m \<in> set h" "h' = remove1 m h" "\<forall>x\<in>set h. hn_name m \<le> hn_name x"
proof -
  have h: "h \<noteq> []" "m = Max (set h)" "h' = remove1 m h" using assms by (auto simp: name_heap_pop_def Let_def split: if_splits)
  then show "m \<in> set h" "h' = remove1 m h" by auto
  show "\<forall>x\<in>set h. hn_name m \<le> hn_name x"
  proof
    fix x assume "x \<in> set h"
    then have "x \<le> m" using h by simp
    then show "hn_name m \<le> hn_name x" by (auto simp: less_eq_heap_name_def)
  qed
qed

text \<open>Every run is sorted and its next name is in the heap, before the rest of the run.\<close>

definition merging :: "bytes list \<Rightarrow> name_heap \<Rightarrow> bytes list list \<Rightarrow> bool" where
  "merging runs heap rests \<longleftrightarrow> runs = map encode_names rests \<and>
     (\<forall>names\<in>set rests. sorted names \<and> short_names names) \<and>
     (\<forall>h\<in>set heap. hn_run h < length rests \<and> (\<forall>y\<in>set (rests ! hn_run h). hn_name h \<le> y)) \<and>
     (\<forall>r<length rests. rests ! r \<noteq> [] \<longrightarrow> (\<exists>h\<in>set heap. hn_run h = r))"

lemma sort_least:
  assumes "mset xs = add_mset x (mset ys)" "\<forall>y\<in>set ys. x \<le> y"
  shows "sort xs = x # sort ys"
  by (rule properties_for_sort) (use assms in auto)

lemma merging_least:
  assumes "merging runs heap rests" "name_heap_pop heap = Some (m, heap')" "y \<in> set (concat rests)"
  shows "hn_name m \<le> y"
proof -
  obtain r where r: "r < length rests" "y \<in> set (rests ! r)" using assms(3) by (metis UN_E in_set_conv_nth set_concat)
  then obtain h where "h \<in> set heap" "hn_run h = r" using assms(1) unfolding merging_def by fastforce
  then have "hn_name h \<le> y" "hn_name m \<le> hn_name h"
    using assms(1) r(2) name_heap_pop_least(3) [OF assms(2)] unfolding merging_def by auto
  then show ?thesis by simp
qed

lemma merging_step:
  assumes "merging runs heap rests" "name_heap_pop heap = Some (m, heap')"
  shows "rests ! hn_run m = [] \<Longrightarrow> merging runs heap' rests"
    and "rests ! hn_run m = y # ys \<Longrightarrow>
      merging (runs[hn_run m := encode_names ys]) (HeapName y (hn_run m) # heap') (rests[hn_run m := ys])"
proof -
  note p = name_heap_pop_least [OF assms(2)]
  note i = assms(1) [unfolded merging_def]
  have sub: "set heap' \<subseteq> set heap" using p(2) set_remove1_subset by metis
  have keep: "h \<in> set heap'" if "h \<in> set heap" "hn_run h \<noteq> hn_run m" for h
    using that p(2) by (metis in_set_remove1)
  show "merging runs heap' rests" if "rests ! hn_run m = []"
    unfolding merging_def using i sub keep that by (metis subsetD)
  assume y: "rests ! hn_run m = y # ys"
  have m: "hn_run m < length rests" using i p(1) by blast
  then have "y # ys \<in> set rests" using y by (metis nth_mem)
  then have s: "sorted (y # ys)" "short_names ys" using i by auto
  show "merging (runs[hn_run m := encode_names ys]) (HeapName y (hn_run m) # heap') (rests[hn_run m := ys])"
    unfolding merging_def
  proof (intro conjI)
    show "runs[hn_run m := encode_names ys] = map encode_names (rests[hn_run m := ys])"
      using i by (simp add: map_update)
    show "\<forall>names\<in>set (rests[hn_run m := ys]). sorted names \<and> short_names names"
      using i s by (auto dest!: subsetD [OF set_update_subset_insert])
    show "\<forall>h\<in>set (HeapName y (hn_run m) # heap'). hn_run h < length (rests[hn_run m := ys]) \<and>
        (\<forall>z\<in>set (rests[hn_run m := ys] ! hn_run h). hn_name h \<le> z)"
      using i s(1) sub m y by (auto simp: nth_list_update subset_iff)
    show "\<forall>r<length (rests[hn_run m := ys]). rests[hn_run m := ys] ! r \<noteq> [] \<longrightarrow>
        (\<exists>h\<in>set (HeapName y (hn_run m) # heap'). hn_run h = r)"
      using i keep by (metis heap_name.sel(2) length_list_update list.set_intros nth_list_update_neq)
  qed
qed

lemma mset_concat_update:
  "r < length xss \<Longrightarrow> xss ! r = y # ys \<Longrightarrow> mset (concat xss) = add_mset y (mset (concat (xss[r := ys])))"
proof (induction xss arbitrary: r)
  case (Cons xs xss)
  then show ?case by (cases r) auto
qed simp

lemma merge_names_sorted:
  "merging runs heap rests \<Longrightarrow> merge_names runs heap = Inr (sort (map hn_name heap @ concat rests))"
proof (induction runs heap arbitrary: rests rule: merge_names.induct)
  case (1 runs heap)
  show ?case
  proof (cases "name_heap_pop heap")
    case None
    then have "heap = []" by (auto simp: name_heap_pop_def Let_def split: if_splits)
    moreover have "concat rests = []"
    proof (rule ccontr)
      assume "concat rests \<noteq> []"
      then obtain names where "names \<in> set rests" "names \<noteq> []" by auto
      then show False using "1.prems" \<open>heap = []\<close> unfolding merging_def by (auto simp: in_set_conv_nth)
    qed
    ultimately have "sort (map hn_name heap @ concat rests) = []" by (simp only: list.map append.simps) simp
    then show ?thesis using None by (subst merge_names.simps) simp
  next
    case (Some x)
    then obtain m heap' where pop: "name_heap_pop heap = Some (m, heap')" by (cases x) auto
    note p = name_heap_pop_least [OF pop]
    have len: "length runs = length rests" and run: "hn_run m < length rests"
      and at: "runs ! hn_run m = encode_names (rests ! hn_run m)"
      using "1.prems" p(1) unfolding merging_def by auto
    have heap: "mset (map hn_name heap) = add_mset (hn_name m) (mset (map hn_name heap'))"
    proof -
      have "mset heap = add_mset m (mset heap')" using p(1,2) by simp
      then show ?thesis by (simp only: mset_map image_mset_add_mset)
    qed
    have low: "\<forall>y\<in>set (map hn_name heap') \<union> set (concat rests). hn_name m \<le> y"
      using merging_least [OF "1.prems" pop] p(2,3) set_remove1_subset [of m heap] by auto
    show ?thesis
    proof (cases "rests ! hn_run m")
      case Nil
      have read: "read_name (runs ! hn_run m) = Inr (None, runs ! hn_run m)"
        using at Nil read_name_encoded(1) by (simp add: encode_names_def)
      have "merging (runs[hn_run m := runs ! hn_run m]) (case None of None \<Rightarrow> heap' | Some name \<Rightarrow> HeapName name (hn_run m) # heap') rests"
        using merging_step(1) [OF "1.prems" pop Nil] by simp
      from "1.IH" [OF pop refl _ read refl this] run len
      have "merge_names runs heap' = Inr (sort (map hn_name heap' @ concat rests))" by simp
      moreover have "sort (map hn_name heap @ concat rests) = hn_name m # sort (map hn_name heap' @ concat rests)"
        by (rule sort_least) (use heap low in auto)
      ultimately show ?thesis using pop read run len by (subst merge_names.simps) simp
    next
      case (Cons y ys)
      have short: "length y < 2 ^ 32"
        using "1.prems" run Cons unfolding merging_def by (metis nth_mem short_names_simps(2))
      have read: "read_name (runs ! hn_run m) = Inr (Some y, encode_names ys)"
        using at Cons read_name_encoded(2) [OF short] by simp
      have "merging (runs[hn_run m := encode_names ys])
          (case Some y of None \<Rightarrow> heap' | Some name \<Rightarrow> HeapName name (hn_run m) # heap') (rests[hn_run m := ys])"
        using merging_step(2) [OF "1.prems" pop Cons] by simp
      from "1.IH" [OF pop refl _ read refl this] run len
      have "merge_names (runs[hn_run m := encode_names ys]) (HeapName y (hn_run m) # heap') =
          Inr (sort (y # map hn_name heap' @ concat (rests[hn_run m := ys])))" by simp
      moreover have "sort (map hn_name heap @ concat rests) =
          hn_name m # sort (y # map hn_name heap' @ concat (rests[hn_run m := ys]))"
      proof (rule sort_least)
        show ms: "mset (map hn_name heap @ concat rests) =
            add_mset (hn_name m) (mset (y # map hn_name heap' @ concat (rests[hn_run m := ys])))"
          using heap mset_concat_update [OF run Cons] by simp
        have "set (y # concat (rests[hn_run m := ys])) = set (concat rests)"
          using mset_concat_update [OF run Cons] by (metis list.set(2) mset.simps(2) mset_eq_setD)
        then show "\<forall>z\<in>set (y # map hn_name heap' @ concat (rests[hn_run m := ys])). hn_name m \<le> z"
          using low by auto
      qed
      ultimately show ?thesis using pop read run len by (subst merge_names.simps) simp
    qed
  qed
qed

lemma collect_names:
  assumes "short_names entries" "short_names names" "\<forall>run\<in>set rests. sorted run \<and> short_names run"
  shows "\<exists>names' rests'. rfold collect_name (names, map encode_names rests) entries = Inr (names', map encode_names rests') \<and>
     mset names' + mset (concat rests') = mset names + mset (concat rests) + mset entries \<and> short_names names' \<and>
     (\<forall>run\<in>set rests'. sorted run \<and> short_names run)"
  using assms
proof (induction entries arbitrary: names rests)
  case (Cons name entries)
  let ?names = "names @ [name]"
  have short: "short_names ?names" "short_names entries" using Cons.prems by auto
  show ?case
  proof (cases "length ?names = NAMES_PER_RUN")
    case True
    let ?rests = "rests @ [sort ?names]"
    have step: "collect_name (names, map encode_names rests) name = Inr ([], map encode_names ?rests)"
      using True spill_run_encodes [OF short(1)] by (simp add: collect_name_def Let_def)
    have "\<forall>run\<in>set ?rests. sorted run \<and> short_names run" using Cons.prems(3) short(1) by simp
    from Cons.IH [OF short(2) _ this, of "[]"] show ?thesis unfolding rfold.simps step by (simp add: ac_simps)
  next
    case False
    then have step: "collect_name (names, map encode_names rests) name = Inr (?names, map encode_names rests)"
      by (simp add: collect_name_def Let_def)
    from Cons.IH [OF short(2,1) Cons.prems(3)] show ?thesis unfolding rfold.simps step by (simp add: ac_simps)
  qed
qed auto

text \<open>After the first name of every run is in the heap.\<close>

lemma first_names:
  assumes "\<forall>run\<in>set rests. sorted run \<and> short_names run" "merging readers heap done"
  shows "\<exists>readers' heap' rests'. rfold first_name (readers, heap) (enumerate (length done) (map encode_names rests)) =
       Inr (readers', heap') \<and> merging readers' heap' (done @ rests') \<and>
     mset (map hn_name heap' @ concat rests') = mset (map hn_name heap @ concat rests)"
  using assms
proof (induction rests arbitrary: readers heap "done")
  case (Cons run rests)
  note i = Cons.prems(2) [unfolded merging_def]
  show ?case
  proof (cases run)
    case Nil
    have step: "first_name (readers, heap) (length done, encode_names run) = Inr (readers @ [encode_names []], heap)"
      using Nil read_name_encoded(1) by (simp add: first_name_def encode_names_def)
    have "merging (readers @ [encode_names []]) heap (done @ [[]])"
      using i unfolding merging_def by (auto simp: nth_append less_Suc_eq)
    from Cons.IH [OF _ this] Cons.prems(1) obtain readers' heap' rests' where
      r: "rfold first_name (readers @ [encode_names []], heap) (enumerate (length (done @ [[]])) (map encode_names rests)) =
          Inr (readers', heap')" "merging readers' heap' ((done @ [[]]) @ rests')"
        "mset (map hn_name heap' @ concat rests') = mset (map hn_name heap @ concat rests)" by auto
    show ?thesis
      by (intro exI [of _ readers'] exI [of _ heap'] exI [of _ "[] # rests'"])
        (use r step Nil in simp)
  next
    case (Cons x xs)
    have run: "sorted (x # xs)" "length x < 2 ^ 32" "short_names xs" using Cons.prems(1) Cons by auto
    let ?heap = "HeapName x (length done) # heap"
    have step: "first_name (readers, heap) (length done, encode_names run) = Inr (readers @ [encode_names xs], ?heap)"
      using Cons read_name_encoded(2) [OF run(2)] by (simp add: first_name_def)
    have "merging (readers @ [encode_names xs]) ?heap (done @ [xs])"
      using i run unfolding merging_def by (auto simp: nth_append less_Suc_eq)
    from Cons.IH [OF _ this] Cons.prems(1) obtain readers' heap' rests' where
      r: "rfold first_name (readers @ [encode_names xs], ?heap) (enumerate (length (done @ [xs])) (map encode_names rests)) =
          Inr (readers', heap')" "merging readers' heap' ((done @ [xs]) @ rests')"
        "mset (map hn_name heap' @ concat rests') = mset (map hn_name ?heap @ concat rests)" by auto
    show ?thesis
      by (intro exI [of _ readers'] exI [of _ heap'] exI [of _ "xs # rests'"])
        (use r step Cons in simp)
  qed
next
  case Nil
  then show ?case by (intro exI [of _ readers] exI [of _ heap] exI [of _ "[]"]) simp
qed

lemma list_directory_sorts:
  assumes "short_names entries"
  shows "list_directory entries = Inr (sort entries)"
proof -
  obtain names rests where c: "rfold collect_name ([], []) entries = Inr (names, map encode_names rests)"
      "mset names + mset (concat rests) = mset entries" "short_names names"
      "\<forall>run\<in>set rests. sorted run \<and> short_names run"
    using collect_names [OF assms, of "[]" "[]"] by auto
  show ?thesis
  proof (cases "rests = []")
    case True
    then have "sort names = sort entries" using c(2) by (intro properties_for_sort [symmetric]) auto
    then show ?thesis using c(1) True by (simp add: list_directory_def sorted_open_def sorted_names_def)
  next
    case False
    obtain rests2 where runs: "(if names \<noteq> [] then rbind (spill_run names) (\<lambda>run. Inr (map encode_names rests @ [run]))
          else Inr (map encode_names rests)) = Inr (map encode_names rests2)"
        "mset (concat rests2) = mset entries" "\<forall>run\<in>set rests2. sorted run \<and> short_names run"
    proof (cases "names = []")
      case True
      then show ?thesis using that [of rests] c by simp
    next
      case False
      then show ?thesis using that [of "rests @ [sort names]"] c spill_run_encodes [OF c(3)] by (simp add: ac_simps)
    qed
    have "merging [] [] []" by (simp add: merging_def)
    from first_names [OF runs(3) this] obtain readers heap rests3 where
      f: "rfold first_name ([], []) (enumerate 0 (map encode_names rests2)) = Inr (readers, heap)"
        "merging readers heap rests3" "mset (map hn_name heap @ concat rests3) = mset (concat rests2)" by auto
    have "sort (map hn_name heap @ concat rests3) = sort entries"
      using f(3) runs(2) by (intro properties_for_sort [symmetric]) auto
    then show ?thesis
      using c(1) False runs(1) f(1) merge_names_sorted [OF f(2)]
      by (simp add: list_directory_def sorted_open_def sorted_names_def)
  qed
qed

lemma with_overlay_sorted:
  assumes "sorted names" "distinct names"
  shows "with_overlay True names = sorted_list_of_set (insert overlay_name (set names))"
proof -
  have no: "with_overlay False names = filter (\<lambda>x. x \<noteq> overlay_name) names" for names
    by (induction False names rule: with_overlay.induct) auto
  have "set (with_overlay True names) = insert overlay_name (set names) \<and> sorted_wrt (<) (with_overlay True names)"
    using assms
  proof (induction True names rule: with_overlay.induct)
    case (2 name names)
    have lt: "\<forall>x\<in>set names. name < x" using "2.prems" by (auto simp: order.strict_iff_order)
    consider "name = overlay_name" | "name < overlay_name" | "overlay_name < name" by fastforce
    then show ?case
    proof cases
      case 3
      then have "\<forall>x\<in>set names. overlay_name < x" using lt by auto
      then show ?thesis using 3 lt "2.prems" by (auto simp: no sorted_wrt_filter strict_sorted_iff)
    qed (use 2 lt in auto)
  qed simp
  then show ?thesis by (metis finite.insertI finite_set set_sorted_list_of_set strict_sorted_equal strict_sorted_list_of_set)
qed

section \<open>Properties\<close>

text \<open>
  C17: a directory is listed in byte order whatever its size. The runs of 8192 names that are sorted and
  written to temporary files, and the merge of the runs through the heap, give what sorting all the
  names at once gives: every name is listed as often as the directory has it, and the overlay's
  folder is put in at its place, in the stead of an entry of the workspace with its name.
\<close>

theorem listing_in_order:
  assumes "short_names entries" "distinct entries"
  shows "list_directory entries = Inr (sort entries) \<and>
    rbind (list_directory entries) (\<lambda>names. Inr (with_overlay True names))
      = Inr (sorted_list_of_set (insert overlay_name (set entries)))"
  using list_directory_sorts [OF assms(1)] with_overlay_sorted [of "sort entries"] assms(2) by simp

text \<open>Nine thousand names fill one run and part of a second.\<close>

definition many_names :: "bytes list" where
  "many_names = map (\<lambda>n. replicate n (CHR ''a'')) [0..<9000]"

theorem listing_in_order_witness:
  "NAMES_PER_RUN < length many_names \<and> list_directory many_names = Inr (sort many_names) \<and>
    rbind (list_directory many_names) (\<lambda>names. Inr (with_overlay True names))
      = Inr (sorted_list_of_set (insert overlay_name (set many_names)))"
proof -
  have "NAMES_PER_RUN < length many_names" by (simp add: NAMES_PER_RUN_def many_names_def)
  moreover have "short_names many_names" by (auto simp: short_names_def many_names_def)
  moreover have "distinct many_names"
    by (auto simp: many_names_def distinct_map inj_on_def dest: arg_cong [where f = length])
  ultimately show ?thesis using listing_in_order [of many_names] by blast
qed

end
