(* ===== verification/Path_Index.thy ===== *)
theory Path_Index
  imports Workspace_Paths "HOL-Library.Product_Lexorder"
begin

text \<open>
  The working index of captured paths (\<^verbatim>\<open>furrow-core/src/path_index.rs\<close>): one row for each path
  with the directory that holds it and its tree entry, the identities of files that have several
  names, and the tree that the rows describe. A transaction keeps the tables as they were when it
  began, so that a rollback brings them back. The entries are kept as JSON; \<open>parse_entry\<close> is the
  decoder of \<open>serde_json\<close> at type \<open>TreeEntry\<close>.
\<close>

definition CHILD_BATCH :: nat where "CHILD_BATCH = 512"

record index_row =
  ir_parent :: bytes
  ir_name :: bytes
  ir_entry :: bytes

type_synonym file_identity = "nat \<times> nat"

record index_tables =
  it_entries :: "(bytes, index_row) btree_map"
  it_links :: "(bytes, file_identity) btree_map"
  it_state :: "(object_id \<times> string) option"

record path_index =
  px_tables :: index_tables
  px_saved :: "index_tables option"

definition empty_tables :: index_tables where
  "empty_tables = \<lparr>it_entries = [], it_links = [], it_state = None\<rparr>"

definition index_open :: path_index where
  "index_open = \<lparr>px_tables = empty_tables, px_saved = None\<rparr>"

section \<open>Transactions\<close>

definition index_begin :: "path_index \<Rightarrow> path_index result" where
  "index_begin ix =
     ensure (px_saved ix = None) ''path-index transaction is active''
       (Inr (ix\<lparr>px_saved := Some (px_tables ix)\<rparr>))"

definition index_commit :: "path_index \<Rightarrow> path_index result" where
  "index_commit ix =
     ensure (px_saved ix \<noteq> None) ''path-index transaction is not active'' (Inr (ix\<lparr>px_saved := None\<rparr>))"

definition index_rollback :: "path_index \<Rightarrow> path_index" where
  "index_rollback ix = (case px_saved ix of None \<Rightarrow> ix | Some t \<Rightarrow> \<lparr>px_tables = t, px_saved = None\<rparr>)"

definition on_tables :: "(index_tables \<Rightarrow> index_tables) \<Rightarrow> path_index \<Rightarrow> path_index" where
  "on_tables f ix = ix\<lparr>px_tables := f (px_tables ix)\<rparr>"

section \<open>Rows\<close>

definition index_reset :: "path_index \<Rightarrow> path_index" where
  "index_reset = on_tables (\<lambda>_. empty_tables)"

definition index_upsert :: "lib \<Rightarrow> bytes \<Rightarrow> bytes \<Rightarrow> tree_entry \<Rightarrow> path_index \<Rightarrow> path_index" where
  "index_upsert L path parent e = on_tables (\<lambda>t.
     t\<lparr>it_entries := bt_insert path \<lparr>ir_parent = parent, ir_name = te_name e, ir_entry = json_entry L e\<rparr> (it_entries t)\<rparr>)"

definition index_entry :: "(bytes \<Rightarrow> tree_entry option) \<Rightarrow> path_index \<Rightarrow> bytes \<Rightarrow> tree_entry option result" where
  "index_entry parse_entry ix path =
     (case bt_get (it_entries (px_tables ix)) path of
        None \<Rightarrow> Inr None
      | Some row \<Rightarrow> rbind (of_opt ''decode indexed tree entry'' (parse_entry (ir_entry row))) (\<lambda>e. Inr (Some e)))"

text \<open>
  The recursive query of \<open>remove_subtree\<close>, level by level: a path, the rows whose parent it is, and so
  on. A level is never deeper than there are rows.
\<close>

fun descendants :: "nat \<Rightarrow> (bytes, index_row) btree_map \<Rightarrow> bytes list \<Rightarrow> bytes list" where
  "descendants 0 rows level = level"
| "descendants (Suc n) rows level =
     level @ (if level = [] then []
              else descendants n rows (map fst (filter (\<lambda>(_, row). List.member level (ir_parent row)) rows)))"

definition bt_without :: "'k list \<Rightarrow> ('k, 'v) btree_map \<Rightarrow> ('k, 'v) btree_map" where
  "bt_without ks m = filter (\<lambda>(k, _). \<not> List.member ks k) m"

definition subtree_rows :: "index_tables \<Rightarrow> bytes \<Rightarrow> bytes list" where
  "subtree_rows t path =
     descendants (length (it_entries t)) (it_entries t) (if bt_get (it_entries t) path = None then [] else [path])"

definition index_remove_subtree :: "bytes \<Rightarrow> path_index \<Rightarrow> path_index \<times> nat" where
  "index_remove_subtree path ix =
     (let t = px_tables ix; gone = subtree_rows t path in
      (on_tables (\<lambda>t. t\<lparr>it_links := bt_without gone (it_links t), it_entries := bt_without gone (it_entries t)\<rparr>) ix,
       length (it_entries t) - length (bt_without gone (it_entries t))))"

definition index_remove :: "bytes \<Rightarrow> path_index \<Rightarrow> path_index \<times> bool" where
  "index_remove path ix =
     (on_tables (\<lambda>t. t\<lparr>it_links := bt_without [path] (it_links t), it_entries := bt_without [path] (it_entries t)\<rparr>) ix,
      bt_get (it_entries (px_tables ix)) path \<noteq> None)"

section \<open>Files with several names\<close>

definition index_note_link :: "bytes \<Rightarrow> file_identity option \<Rightarrow> path_index \<Rightarrow> path_index" where
  "index_note_link path identity = on_tables (\<lambda>t.
     t\<lparr>it_links := (case identity of
         Some i \<Rightarrow> bt_insert path i (it_links t)
       | None \<Rightarrow> bt_without [path] (it_links t))\<rparr>)"

definition index_link_identity :: "path_index \<Rightarrow> bytes \<Rightarrow> file_identity option" where
  "index_link_identity ix path = bt_get (it_links (px_tables ix)) path"

definition index_link_has_no_known_sibling :: "path_index \<Rightarrow> bytes \<Rightarrow> bool" where
  "index_link_has_no_known_sibling ix path =
     (case bt_get (it_links (px_tables ix)) path of
        None \<Rightarrow> False
      | Some i \<Rightarrow> \<not> list_ex (\<lambda>(p, j). j = i \<and> p \<noteq> path) (it_links (px_tables ix)))"

fun group_rows :: "(file_identity \<times> bytes) list \<Rightarrow> bytes list list" where
  "group_rows [] = []"
| "group_rows [(i, p)] = [[p]]"
| "group_rows ((i, p) # (j, q) # rows) =
     (case group_rows ((j, q) # rows) of
        [] \<Rightarrow> [[p]]
      | g # gs \<Rightarrow> if i = j then (p # g) # gs else [p] # g # gs)"

definition index_link_groups :: "path_index \<Rightarrow> bytes list list" where
  "index_link_groups ix =
     (let links = it_links (px_tables ix);
          shared = filter (\<lambda>(p, i). 1 < length (filter (\<lambda>(_, j). j = i) links)) links in
      sort (group_rows (sort (map (\<lambda>(p, i). (i, p)) shared))))"

section \<open>Reading in batches\<close>

definition decode_rows :: "(bytes \<Rightarrow> tree_entry option) \<Rightarrow> index_row list \<Rightarrow> tree_entry list result" where
  "decode_rows parse_entry rows =
     rfold (\<lambda>es row. rbind (of_opt ''decode indexed tree entry'' (parse_entry (ir_entry row))) (\<lambda>e. Inr (es @ [e]))) [] rows"

definition index_children_after ::
  "(bytes \<Rightarrow> tree_entry option) \<Rightarrow> path_index \<Rightarrow> bytes \<Rightarrow> bytes option \<Rightarrow> nat \<Rightarrow> tree_entry list result" where
  "index_children_after parse_entry ix parent after_name limit =
     (let after = (case after_name of None \<Rightarrow> [] | Some name \<Rightarrow> name);
          rows = filter (\<lambda>row. ir_parent row = parent \<and> after < ir_name row) (map snd (it_entries (px_tables ix))) in
      decode_rows parse_entry (take limit (sort_key ir_name rows)))"

definition index_entries_after ::
  "(bytes \<Rightarrow> tree_entry option) \<Rightarrow> path_index \<Rightarrow> bytes option \<Rightarrow> nat \<Rightarrow> (bytes \<times> tree_entry) list result" where
  "index_entries_after parse_entry ix after_path limit =
     (let after = (case after_path of None \<Rightarrow> [] | Some path \<Rightarrow> path);
          rows = take limit (filter (\<lambda>(path, _). after < path) (it_entries (px_tables ix))) in
      rbind (decode_rows parse_entry (map snd rows)) (\<lambda>es. Inr (zip (map fst rows) es)))"

section \<open>The tree that the rows describe\<close>

definition index_set_root :: "object_id \<Rightarrow> string \<Rightarrow> path_index \<Rightarrow> path_index" where
  "index_set_root root generation = on_tables (\<lambda>t. t\<lparr>it_state := Some (root, generation)\<rparr>)"

definition index_root :: "path_index \<Rightarrow> string \<Rightarrow> object_id option result" where
  "index_root ix generation =
     (case it_state (px_tables ix) of
        Some (root, g) \<Rightarrow>
          if g = generation then ensure (length root = 32) ''invalid path-index root ID'' (Inr (Some root)) else Inr None
      | None \<Rightarrow> Inr None)"

definition index_row_count :: "path_index \<Rightarrow> nat" where
  "index_row_count ix = length (it_entries (px_tables ix))"

record path_usage =
  pu_files :: nat
  pu_directories :: nat
  pu_symlinks :: nat
  pu_fifos :: nat
  pu_special :: nat
  pu_logical_bytes :: nat

definition u64_saturating_add :: "nat \<Rightarrow> nat \<Rightarrow> nat" where
  "u64_saturating_add a b = min (2 ^ 64 - 1) (a + b)"

definition count_entry :: "path_usage \<Rightarrow> tree_entry \<Rightarrow> path_usage" where
  "count_entry u e =
     (case te_kind e of
        File \<Rightarrow> u\<lparr>pu_files := u64_saturating_add (pu_files u) 1,
                 pu_logical_bytes := u64_saturating_add (pu_logical_bytes u) (unat (te_size e))\<rparr>
      | Directory \<Rightarrow> u\<lparr>pu_directories := u64_saturating_add (pu_directories u) 1\<rparr>
      | Symlink \<Rightarrow> u\<lparr>pu_symlinks := u64_saturating_add (pu_symlinks u) 1\<rparr>
      | Fifo \<Rightarrow> u\<lparr>pu_fifos := u64_saturating_add (pu_fifos u) 1\<rparr>
      | SocketMarker \<Rightarrow> u\<lparr>pu_special := u64_saturating_add (pu_special u) 1\<rparr>)"

definition index_usage :: "(bytes \<Rightarrow> tree_entry option) \<Rightarrow> path_index \<Rightarrow> path_usage result" where
  "index_usage parse_entry ix =
     rbind (decode_rows parse_entry (map snd (it_entries (px_tables ix)))) (\<lambda>es.
     Inr (foldl count_entry
       \<lparr>pu_files = 0, pu_directories = 1, pu_symlinks = 0, pu_fifos = 0, pu_special = 0, pu_logical_bytes = 0\<rparr> es))"

end
