(* ===== verification/Capture.thy ===== *)
theory Capture
  imports Sorted_Dir Path_Index Workspace_Fs
begin

text \<open>
  Capturing a workspace (\<^verbatim>\<open>furrow-core/src/repository.rs\<close>): a walk over the directories that puts
  every file, link and directory into the store, reuses what the stat cache knows
  (\<^verbatim>\<open>catalog.rs\<close>), and records every entry in the path index.

  The workspace is what one walk sees of it, a \<open>view\<close>: the nodes under their paths in the tree (the
  overlay's own under the name it is composed as), the names that each directory lists, in any
  order, the numbers of the file system and the clock. The walk is not limited by a capture plan.
\<close>

record inode_meta =
  im_dev :: nat
  im_ino :: nat
  im_nlink :: nat
  im_ctime :: "int \<times> int"

record view =
  vw_fs :: fs
  vw_names :: "fpath \<Rightarrow> bytes list"
  vw_meta :: "fpath \<Rightarrow> inode_meta"
  vw_now :: int

record capture_env =
  ce_os :: os
  ce_lib :: lib
  ce_fuel :: nat
  ce_policy :: policy
  ce_composed :: bool
  ce_store_root :: "fpath option"
  ce_view :: view

abbreviation ce_fs :: "capture_env \<Rightarrow> fs" where "ce_fs C \<equiv> vw_fs (ce_view C)"

definition stat_at :: "capture_env \<Rightarrow> fpath \<Rightarrow> node \<Rightarrow> stat" where
  "stat_at C p n =
     (let m = vw_meta (ce_view C) p in
      \<lparr>st_dev = im_dev m, st_ino = im_ino m,
       st_len = (case nd_kind n of RegularFile c \<Rightarrow> length c | LinkNode t \<Rightarrow> length t | _ \<Rightarrow> 0),
       st_mtime = (fst (nd_mtime n), uint (snd (nd_mtime n))), st_ctime = im_ctime m, st_mode = nd_mode n\<rparr>)"

definition identity_at :: "capture_env \<Rightarrow> fpath \<Rightarrow> node \<Rightarrow> file_identity option" where
  "identity_at C p n =
     (let m = vw_meta (ce_view C) p in
      if (case nd_kind n of RegularFile _ \<Rightarrow> True | _ \<Rightarrow> False) \<and> 1 < im_nlink m
      then Some (im_dev m, im_ino m) else None)"

text \<open>\<open>metadata_time\<close>: seconds and nanoseconds, the latter cast to an unsigned number.\<close>

definition metadata_time :: "stat \<Rightarrow> int \<times> 32 word" where
  "metadata_time st = (fst (st_mtime st), word_of_int (max 0 (snd (st_mtime st))))"

section \<open>The stat cache\<close>

record cached_file =
  cf_device :: nat
  cf_inode :: nat
  cf_size :: nat
  cf_mtime_secs :: int
  cf_mtime_nanos :: int
  cf_ctime_secs :: int
  cf_ctime_nanos :: int
  cf_mode :: "32 word"
  cf_blob_id :: object_id
  cf_xattrs :: "object_id option"
  cf_sqlite :: bool
  cf_cached_at_nanos :: int

definition RACY_WINDOW_NANOS :: int where "RACY_WINDOW_NANOS = 2000000000"

definition i64_saturating_mul :: "int \<Rightarrow> int \<Rightarrow> int" where
  "i64_saturating_mul a b = max i64_min (min i64_max (a * b))"

definition nanos_total :: "int \<Rightarrow> int \<Rightarrow> int" where
  "nanos_total secs nanos = i64_saturating_add (i64_saturating_mul secs 1000000000) nanos"

definition is_racy :: "cached_file \<Rightarrow> bool" where
  "is_racy row \<longleftrightarrow>
     (let newest = max (nanos_total (cf_mtime_secs row) (cf_mtime_nanos row))
                       (nanos_total (cf_ctime_secs row) (cf_ctime_nanos row)) in
      i64_saturating_add newest RACY_WINDOW_NANOS \<ge> cf_cached_at_nanos row)"

definition cached_matches :: "cached_file \<Rightarrow> stat \<Rightarrow> bool" where
  "cached_matches row st \<longleftrightarrow>
     cf_device row = st_dev st \<and> cf_inode row = st_ino st \<and> cf_size row = st_len st \<and>
     cf_mtime_secs row = fst (st_mtime st) \<and> cf_mtime_nanos row = snd (st_mtime st) \<and>
     cf_ctime_secs row = fst (st_ctime st) \<and> cf_ctime_nanos row = snd (st_ctime st) \<and>
     cf_mode row = st_mode st"

definition cached_from_read :: "file_read \<Rightarrow> int \<Rightarrow> cached_file" where
  "cached_from_read r read_at_nanos =
     (let st = fr_stat r in
      \<lparr>cf_device = st_dev st, cf_inode = st_ino st, cf_size = st_len st,
       cf_mtime_secs = fst (st_mtime st), cf_mtime_nanos = snd (st_mtime st),
       cf_ctime_secs = fst (st_ctime st), cf_ctime_nanos = snd (st_ctime st), cf_mode = st_mode st,
       cf_blob_id = fr_blob r, cf_xattrs = fr_xattrs r, cf_sqlite = fr_sqlite r,
       cf_cached_at_nanos = read_at_nanos\<rparr>)"

record capture_state =
  cs_store :: object_map
  cs_rows :: "(bytes, cached_file) btree_map"
  cs_index :: path_index

definition unchanged_row :: "capture_state \<Rightarrow> bytes \<Rightarrow> stat \<Rightarrow> cached_file option" where
  "unchanged_row st relative metadata =
     (case bt_get (cs_rows st) relative of
        None \<Rightarrow> None
      | Some row \<Rightarrow> if cached_matches row metadata \<and> \<not> is_racy row then Some row else None)"

definition cache_read :: "capture_env \<Rightarrow> bytes \<Rightarrow> file_read \<Rightarrow> capture_state \<Rightarrow> cached_file \<times> capture_state" where
  "cache_read C relative r st =
     (let row = cached_from_read r (vw_now (ce_view C)) in (row, st\<lparr>cs_rows := bt_insert relative row (cs_rows st)\<rparr>))"

section \<open>Entries\<close>

definition file_entry :: "bytes \<Rightarrow> content_class \<Rightarrow> cached_file \<Rightarrow> tree_entry" where
  "file_entry name class row =
     \<lparr>te_name = name, te_kind = File, te_target = Some (cf_blob_id row), te_link_target = [], te_mode = cf_mode row,
      te_size = of_nat (cf_size row), te_mtime_secs = cf_mtime_secs row,
      te_mtime_nanos = word_of_int (max 0 (cf_mtime_nanos row)), te_xattrs = cf_xattrs row, te_class = class\<rparr>"

definition special_entry :: "bytes \<Rightarrow> entry_kind \<Rightarrow> 32 word \<Rightarrow> int \<Rightarrow> 32 word \<Rightarrow> tree_entry" where
  "special_entry name kind mode secs nanos =
     \<lparr>te_name = name, te_kind = kind, te_target = None, te_link_target = [], te_mode = mode, te_size = 0,
      te_mtime_secs = secs, te_mtime_nanos = nanos, te_xattrs = None, te_class = Scratch\<rparr>"

text \<open>A file that nobody writes during the walk is stable at the first attempt.\<close>

definition read_file ::
  "capture_env \<Rightarrow> fpath \<Rightarrow> node \<Rightarrow> bytes \<Rightarrow> object_map \<Rightarrow> (file_read \<times> object_map) result" where
  "read_file C p n content s =
     (let st = stat_at C p n in
      read_file_guarded (ce_fuel C) (os_json_xattrs (ce_os C)) (ce_lib C) s
        [\<lparr>at_before = st, at_xattrs = Some (listed_xattrs n), at_file = file_script content, at_after = st\<rparr>])"

definition capture_file_entry ::
  "capture_env \<Rightarrow> fpath \<Rightarrow> node \<Rightarrow> bytes \<Rightarrow> capture_state \<Rightarrow> (tree_entry \<times> capture_state) result" where
  "capture_file_entry C p n content st =
     rbind (case unchanged_row st (raw p) (stat_at C p n) of
              Some row \<Rightarrow> Inr (row, st)
            | None \<Rightarrow> rbind (read_file C p n content (cs_store st)) (\<lambda>(r, s).
                      Inr (cache_read C (raw p) r (st\<lparr>cs_store := s\<rparr>)))) (\<lambda>(row, st).
     Inr (file_entry (last p) (classify (raw p)) row, st))"

type_synonym capture_walk = "fpath \<Rightarrow> capture_state \<Rightarrow> (object_id \<times> capture_state) result"

definition capture_path_entry ::
  "capture_env \<Rightarrow> capture_walk \<Rightarrow> fpath \<Rightarrow> capture_state \<Rightarrow> (tree_entry option \<times> capture_state) result" where
  "capture_path_entry C walk p st =
     rbind (of_opt ''No such file or directory'' (bt_get (ce_fs C) p)) (\<lambda>n.
     let metadata = stat_at C p n; (secs, nanos) = metadata_time metadata;
         name = last p; class = classify (raw p); mode = st_mode metadata in
     case nd_kind n of
       RegularFile content \<Rightarrow>
         rbind (capture_file_entry C p n content
             (st\<lparr>cs_index := index_note_link (raw p) (identity_at C p n) (cs_index st)\<rparr>)) (\<lambda>(e, st). Inr (Some e, st))
     | FolderNode \<Rightarrow>
         rbind (capture_xattrs (os_json_xattrs (ce_os C)) (ce_lib C) (cs_store st) (Some (listed_xattrs n)))
           (\<lambda>(xattrs, s).
         rbind (walk p (st\<lparr>cs_store := s\<rparr>)) (\<lambda>(target, st).
         Inr (Some \<lparr>te_name = name, te_kind = Directory, te_target = Some target, te_link_target = [], te_mode = mode,
                te_size = 0, te_mtime_secs = secs, te_mtime_nanos = nanos, te_xattrs = xattrs, te_class = class\<rparr>, st)))
     | LinkNode target \<Rightarrow>
         Inr (Some \<lparr>te_name = name, te_kind = Symlink, te_target = None, te_link_target = target, te_mode = mode,
                te_size = of_nat (st_len metadata), te_mtime_secs = secs, te_mtime_nanos = nanos, te_xattrs = None,
                te_class = class\<rparr>, st)
     | FifoNode \<Rightarrow> Inr (Some (special_entry name Fifo mode secs nanos), st)
     | SocketNode \<Rightarrow> Inr (Some (special_entry name SocketMarker mode secs nanos), st)
     | DeviceNode \<Rightarrow> Inr (None, st))"

section \<open>Directories\<close>

text \<open>What the walk leaves out: the store, the control directory and its files.\<close>

definition skips_child :: "capture_env \<Rightarrow> fpath \<Rightarrow> bool" where
  "skips_child C child \<longleftrightarrow>
     (case ce_store_root C of None \<Rightarrow> False | Some r \<Rightarrow> take (length r) child = r) \<or>
     child = [''.furrow''] \<or> child = [''.furrow'', ''workspace-id''] \<or> child = [''.furrow'', ''family-id''] \<or>
     child = [''.furrow'', ''fork-id'']"

definition children :: "capture_env \<Rightarrow> fpath \<Rightarrow> bytes list result" where
  "children C p =
     rbind (list_directory (vw_names (ce_view C) p)) (\<lambda>names.
     Inr (if ce_composed C \<and> p = [] \<and>
             (case bt_get (ce_fs C) [overlay_name] of None \<Rightarrow> False | Some n \<Rightarrow> is_folder n)
          then with_overlay True names else names))"

definition capture_child ::
  "capture_env \<Rightarrow> capture_walk \<Rightarrow> fpath \<Rightarrow> bool \<Rightarrow> builder \<times> capture_state \<Rightarrow> bytes \<Rightarrow> (builder \<times> capture_state) result" where
  "capture_child C walk p tracked_only = (\<lambda>(b, st) name.
     let child = p @ [name] in
     if skips_child C child \<or> excludes_bytes (ce_policy C) (raw child) then Inr (b, st)
     else if tracked_only \<and> bt_get (ce_fs C) child = None then Inr (b, st)
     else rbind (capture_path_entry C walk child st) (\<lambda>(found, st).
          case found of
            None \<Rightarrow> Inr (b, st)
          | Some e \<Rightarrow>
              let st = st\<lparr>cs_index := index_upsert (ce_lib C) (raw child) (raw p) e (cs_index st)\<rparr> in
              rbind (builder_push (ce_lib C) (map_put_tree (ce_lib C)) (cs_store st) b e) (\<lambda>(b, s).
              Inr (b, st\<lparr>cs_store := s\<rparr>))))"

text \<open>The first argument bounds the depth of the tree.\<close>

fun capture_directory :: "nat \<Rightarrow> capture_env \<Rightarrow> capture_walk" where
  "capture_directory 0 C p st = Inl OutOfFuel"
| "capture_directory (Suc d) C p st =
     (let tracked = tracked_children (ce_policy C) (raw p) in
      rbind (case tracked of Some names \<Rightarrow> Inr names | None \<Rightarrow> children C p) (\<lambda>names.
      rbind (rfold (capture_child C (capture_directory d C) p (tracked \<noteq> None)) (builder_new, st) names) (\<lambda>(b, st).
      rbind (builder_finish (ce_lib C) (map_put_tree (ce_lib C)) (ce_fuel C) (cs_store st) b) (\<lambda>(root, s).
      Inr (root, st\<lparr>cs_store := s\<rparr>)))))"

text \<open>One attempt of \<open>capture_root_retry_with_policy\<close>: the index is rebuilt in a transaction.\<close>

definition capture_root :: "capture_env \<Rightarrow> string \<Rightarrow> capture_state \<Rightarrow> (object_id \<times> capture_state) result" where
  "capture_root C generation st =
     rbind (index_begin (cs_index st)) (\<lambda>ix.
     rbind (capture_directory (ce_fuel C) C [] (st\<lparr>cs_index := index_reset ix\<rparr>)) (\<lambda>(root, st).
     rbind (index_commit (index_set_root root generation (cs_index st))) (\<lambda>ix.
     Inr (root, st\<lparr>cs_index := ix\<rparr>))))"

end
