(* ===== verification/Capture_Steps.thy ===== *)
theory Capture_Steps
  imports Capture Rewind_Verify Tree_Theorems
begin

text \<open>
  What the steps of a capture do: every one ends, fails only because something is larger than the
  store takes, and otherwise leaves in the store what its result stands for.
\<close>

section \<open>Outcomes\<close>

definition too_large :: "failure \<Rightarrow> bool" where
  "too_large e \<longleftrightarrow> e \<in> Bail ` {''object exceeds size limit'', ''tree leaf exceeded page limit'',
     ''tree branch exceeded page limit'', ''single directory entry exceeds 64 KiB'',
     ''single tree page reference exceeds 64 KiB''}"

definition ends_in :: "('a \<Rightarrow> bool) \<Rightarrow> 'a result \<Rightarrow> bool" where
  "ends_in P r \<longleftrightarrow> (case r of Inl e \<Rightarrow> too_large e | Inr x \<Rightarrow> P x)"

lemma ends_in_Inr [simp]: "ends_in P (Inr x) \<longleftrightarrow> P x"
  by (simp add: ends_in_def)

lemma ends_in_bind:
  assumes "ends_in P r" "\<And>x. r = Inr x \<Longrightarrow> P x \<Longrightarrow> ends_in Q (f x)"
  shows "ends_in Q (rbind r f)"
  using assms by (cases r) (auto simp: ends_in_def)

lemma ends_in_bind2:
  assumes "ends_in (\<lambda>(x, y). P x y) r" "\<And>x y. P x y \<Longrightarrow> ends_in Q (f x y)"
  shows "ends_in Q (rbind r (\<lambda>(x, y). f x y))"
  by (rule ends_in_bind [OF assms(1)]) (use assms(2) in auto)

lemma ends_in_mono: "ends_in P r \<Longrightarrow> (\<And>x. r = Inr x \<Longrightarrow> P x \<Longrightarrow> Q x) \<Longrightarrow> ends_in Q r"
  by (auto simp: ends_in_def split: sum.splits)

lemma ends_inD: "ends_in P r \<Longrightarrow> r = Inr x \<Longrightarrow> P x"
  by (simp add: ends_in_def)

lemma ends_in_ensure: "(b \<Longrightarrow> ends_in P r) \<Longrightarrow> too_large (Bail m) \<Longrightarrow> ends_in P (ensure b m r)"
  by (auto simp: ends_in_def)

lemma too_large_messages [simp]:
  "too_large (Bail ''object exceeds size limit'')" "too_large (Bail ''tree leaf exceeded page limit'')"
  "too_large (Bail ''tree branch exceeded page limit'')" "too_large (Bail ''single directory entry exceeds 64 KiB'')"
  "too_large (Bail ''single tree page reference exceeds 64 KiB'')" "\<not> too_large OutOfFuel"
  by (auto simp: too_large_def)

section \<open>Putting objects\<close>

lemma keeps_put: "map_put L s k b = Inr (i, s') \<Longrightarrow> keeps L s s'"
  unfolding keeps_def using map_put_keeps by blast

lemma keeps_extends: "keeps L s s' \<Longrightarrow> extends (map_read_tree L) s s'"
  by (auto simp: extends_def map_read_tree_def keeps_def)

lemma map_put_ends:
  assumes "map_inv L s"
  shows "ends_in (\<lambda>(i, s'). i = object_id L k bs \<and> length bs \<le> MAX_OBJECT_LEN \<and> map_inv L s' \<and> keeps L s s' \<and>
     map_read L s' i k = Inr bs) (map_put L s k bs)"
proof (cases "map_put L s k bs")
  case (Inl e)
  then show ?thesis by (auto simp: ends_in_def map_put_def Let_def split: if_splits option.splits)
next
  case (Inr x)
  then obtain i s' where put: "map_put L s k bs = Inr (i, s')" by (cases x) auto
  have "i = object_id L k bs" "length bs \<le> MAX_OBJECT_LEN" using put by (simp_all add: map_put_Inr)
  then show ?thesis
    unfolding put using map_inv_put [OF assms put] map_put_read [OF assms put] keeps_put [OF put] by simp
qed

text \<open>The pages of a directory are put into a store that keeps everything else.\<close>

interpretation kept: tree_store "map_put_tree L" "map_read_tree L" "\<lambda>s. map_inv L s \<and> keeps L s0 s" for L s0
proof
  fix s t i s' assume inv: "map_inv L s \<and> keeps L s0 s" and put: "map_put_tree L s t = Inr (i, s')"
  show "map_inv L s' \<and> keeps L s0 s'"
    using inv om.put_inv [OF _ put] keeps_put put keeps_trans by (metis map_put_tree_def)
  show "map_read_tree L s' i = Inr t" "extends (map_read_tree L) s s'"
    using inv om.put_read [OF _ put] om.put_extends [OF _ put] by blast+
qed

section \<open>Attributes and contents\<close>

text \<open>What a snapshot records of the attributes of a node, and that it can be read again.\<close>

definition recorded_xattrs :: "node \<Rightarrow> xattr_entry list" where
  "recorded_xattrs n = sort_key xa_name (restorable_xattrs (listed_xattrs n))"

definition xattrs_faithful :: "os \<Rightarrow> bool" where
  "xattrs_faithful E \<longleftrightarrow> (\<forall>x. os_parse_xattrs E (os_json_xattrs E x) = Some x)"

lemma restorable_again: "restorable_xattrs (sort_key f (restorable_xattrs es)) = sort_key f (restorable_xattrs es)"
  by (auto simp: restorable_xattrs_def filter_sort)

lemma capture_xattrs_ends:
  assumes "map_inv L s" "xattrs_faithful E"
  shows "ends_in (\<lambda>(x, s'). map_inv L s' \<and> keeps L s s' \<and> read_xattrs E L s' x = Inr (recorded_xattrs n))
     (capture_xattrs (os_json_xattrs E) L s (Some (listed_xattrs n)))"
proof -
  let ?es = "recorded_xattrs n"
  have eq: "capture_xattrs (os_json_xattrs E) L s (Some (listed_xattrs n)) =
      (if ?es = [] then Inr (None, s)
       else rbind (map_put L s Xattrs (os_json_xattrs E \<lparr>xs_entries = ?es\<rparr>)) (\<lambda>(i, s). Inr (Some i, s)))"
    by (simp add: capture_xattrs_def recorded_xattrs_def restorable_xattrs_def Let_def)
  show ?thesis
  proof (cases "?es = []")
    case True
    then show ?thesis using assms(1) by (simp add: eq read_xattrs_def)
  next
    case False
    show ?thesis
      unfolding eq using False
      by (simp add: ends_in_bind [OF map_put_ends [OF assms(1)]])
        (rule ends_in_bind [OF map_put_ends [OF assms(1)]],
          use assms(2) in \<open>auto simp: read_xattrs_def xattrs_faithful_def recorded_xattrs_def restorable_again\<close>)
  qed
qed

text \<open>A store that holds a content whose blob fits an object.\<close>

definition stored_content :: "lib \<Rightarrow> object_map \<Rightarrow> bytes \<Rightarrow> bool" where
  "stored_content L s c \<longleftrightarrow> has_content L s c \<and> length (json_blob L (blob_of L c)) \<le> MAX_OBJECT_LEN"

lemma stored_content_keeps: "stored_content L s c \<Longrightarrow> keeps L s s' \<Longrightarrow> stored_content L s' c"
  using has_content_keeps by (auto simp: stored_content_def)

lemma store_chunks_ok:
  assumes "map_inv L s" "length c < n"
  obtains acc s' where "store_chunks n L s (file_script c) = Inr (acc, s')" "map_inv L s'" "keeps L s s'"
    "ck_chunks acc = chunk_refs L (chunks_of c)" "ck_total_len acc = of_nat (length c)"
    "\<forall>b\<in>set (chunks_of c). map_read L s' (object_id L Chunk b) Chunk = Inr b"
proof -
  let ?ps = "if c = [] then [] else [c]"
  have script: "file_script c = map Inr ?ps" "concat ?ps = c" "\<forall>p\<in>set ?ps. p \<noteq> []" by (auto simp: file_script_def)
  note new = stream_new_ok [OF script(3)]
  show thesis
    using that store_loop_ok [OF assms(1) new(1), of n "\<lparr>ck_chunks = [], ck_total_len = 0, ck_sqlite = False\<rparr>"]
      new(2) assms(2) script(1,2) by (auto simp: store_chunks_def)
qed

lemma read_file_ends:
  assumes "map_inv (ce_lib C) s" "xattrs_faithful (ce_os C)" "length c < ce_fuel C"
  shows "ends_in (\<lambda>(r, s'). map_inv (ce_lib C) s' \<and> keeps (ce_lib C) s s' \<and> stored_content (ce_lib C) s' c \<and>
       fr_blob r = blob_id (ce_lib C) c \<and> fr_stat r = stat_at C p n \<and>
       read_xattrs (ce_os C) (ce_lib C) s' (fr_xattrs r) = Inr (recorded_xattrs n)) (read_file C p n c s)"
proof -
  let ?L = "ce_lib C" and ?E = "ce_os C" and ?n = "ce_fuel C" and ?st = "stat_at C p n"
  have eq: "read_file C p n c s =
     rbind (capture_xattrs (os_json_xattrs ?E) ?L s (Some (listed_xattrs n))) (\<lambda>(x, s).
     rbind (store_chunks ?n ?L s (file_script c)) (\<lambda>(k, s).
     rbind (map_put ?L s Blob (json_blob ?L \<lparr>bl_chunks = ck_chunks k, bl_total_len = ck_total_len k\<rparr>))
       (\<lambda>(blob, s). Inr (\<lparr>fr_blob = blob, fr_xattrs = x, fr_sqlite = ck_sqlite k, fr_stat = ?st\<rparr>, s))))"
    by (simp add: read_file_def read_file_guarded_def Let_def stable_metadata_def)
  show ?thesis
    unfolding eq
  proof (rule ends_in_bind [OF capture_xattrs_ends [OF assms(1,2), of n]], clarsimp)
    fix x s1 assume s1: "map_inv ?L s1" "keeps ?L s s1" "read_xattrs ?E ?L s1 x = Inr (recorded_xattrs n)"
    obtain k s2 where k: "store_chunks ?n ?L s1 (file_script c) = Inr (k, s2)" "map_inv ?L s2" "keeps ?L s1 s2"
        "\<lparr>bl_chunks = ck_chunks k, bl_total_len = ck_total_len k\<rparr> = blob_of ?L c"
        "\<forall>b\<in>set (chunks_of c). map_read ?L s2 (object_id ?L Chunk b) Chunk = Inr b"
      using store_chunks_ok [OF s1(1) assms(3)] unfolding blob_of_def by metis
    show "ends_in (\<lambda>(r, s'). map_inv ?L s' \<and> keeps ?L s s' \<and> stored_content ?L s' c \<and> fr_blob r = blob_id ?L c \<and>
         fr_stat r = ?st \<and> read_xattrs ?E ?L s' (fr_xattrs r) = Inr (recorded_xattrs n))
       (rbind (store_chunks ?n ?L s1 (file_script c)) (\<lambda>(k, s).
        rbind (map_put ?L s Blob (json_blob ?L \<lparr>bl_chunks = ck_chunks k, bl_total_len = ck_total_len k\<rparr>))
         (\<lambda>(blob, s). Inr (\<lparr>fr_blob = blob, fr_xattrs = x, fr_sqlite = ck_sqlite k, fr_stat = ?st\<rparr>, s))))"
      unfolding k(1) rbind.simps prod.case k(4)
    proof (rule ends_in_bind [OF map_put_ends [OF k(2)]], clarsimp)
      fix s3 assume s3: "length (json_blob ?L (blob_of ?L c)) \<le> MAX_OBJECT_LEN" "map_inv ?L s3" "keeps ?L s2 s3"
        "map_read ?L s3 (object_id ?L Blob (json_blob ?L (blob_of ?L c))) Blob = Inr (json_blob ?L (blob_of ?L c))"
      have "stored_content ?L s3 c"
        using s3 k(5) by (auto simp: stored_content_def has_content_def blob_id_def keeps_def)
      then show "keeps ?L s s3 \<and> stored_content ?L s3 c \<and> object_id ?L Blob (json_blob ?L (blob_of ?L c)) = blob_id ?L c \<and>
          read_xattrs ?E ?L s3 x = Inr (recorded_xattrs n)"
        using keeps_trans [OF s1(2) keeps_trans [OF k(3) s3(3)]] read_xattrs_keeps [OF s1(3) keeps_trans [OF k(3) s3(3)]]
        by (simp add: blob_id_def)
    qed
  qed
qed

section \<open>Building directories\<close>

lemma map_put_tree_fails: "map_put_tree L s t = Inl e \<Longrightarrow> too_large e"
  by (auto simp: map_put_tree_def map_put_def Let_def split: if_splits option.splits)

lemma store_leaf_fails: "store_leaf L (map_put_tree L) s es = Inl e \<Longrightarrow> es \<noteq> [] \<Longrightarrow> too_large e"
  by (auto simp: store_leaf_def Let_def result_simps split: if_splits dest: map_put_tree_fails)

lemma store_branch_fails: "store_branch L (map_put_tree L) s ps = Inl e \<Longrightarrow> ps \<noteq> [] \<Longrightarrow> too_large e"
  by (auto simp: store_branch_def Let_def result_simps split: if_splits dest: map_put_tree_fails)

lemma flush_leaf_fails: "flush_leaf L (map_put_tree L) s b = Inl e \<Longrightarrow> b_page b \<noteq> [] \<Longrightarrow> too_large e"
  by (auto simp: flush_leaf_def result_simps dest: store_leaf_fails)

lemma builder_push_fails:
  "builder_push L (map_put_tree L) s b x = Inl e \<Longrightarrow> push_ordered b x \<Longrightarrow> too_large e"
  by (auto simp: builder_push_def page_room_def result_simps split: if_splits dest: flush_leaf_fails)

lemma branch_push_fails:
  assumes "branch_push L (map_put_tree L) (st, s) p = Inl e"
  shows "too_large e"
  using assms by (auto simp: branch_push_def branch_room_def result_simps split: if_splits dest: store_branch_fails)

lemma rfold_fails:
  assumes "rfold f s xs = Inl e" "\<And>s x e. f s x = Inl e \<Longrightarrow> P e"
  shows "P e"
  using assms(1)
proof (induction xs arbitrary: s)
  case (Cons x xs)
  then show ?case using assms(2) by (cases "f s x") auto
qed simp

lemma write_branch_level_fails:
  assumes "write_branch_level L (map_put_tree L) s ps = Inl e"
  shows "too_large e"
proof -
  have "rfold (branch_push L (map_put_tree L)) st ps = Inl e \<Longrightarrow> too_large e" for st
    by (erule rfold_fails) (use branch_push_fails in auto)
  then show ?thesis
    using assms by (auto simp: write_branch_level_def result_simps split: if_splits dest: store_branch_fails)
qed

lemma write_branch_level_nonempty:
  assumes "write_branch_level L put s (p # ps) = Inr (qs, s')"
  shows "qs \<noteq> []"
proof -
  have ne: "bs_branch st' \<noteq> []" if "branch_push L put (st, s) p = Inr (st', s')" for st s p st' s'
    using that by (auto simp: branch_push_def split: if_splits)
  have fold: "bs_branch st' \<noteq> []" if "rfold (branch_push L put) (st, s) (p # ps) = Inr (st', s')" for st s st' s'
    using that
  proof (induction ps arbitrary: st s p)
    case Nil
    then show ?case using ne by auto
  next
    case (Cons q ps)
    then show ?case by fastforce
  qed
  obtain st s1 where st: "rfold (branch_push L put) (\<lparr>bs_output = [], bs_branch = [], bs_encoded = BRANCH_OVERHEAD\<rparr>, s) (p # ps)
      = Inr (st, s1)"
      "(if bs_branch st \<noteq> [] then rbind (store_branch L put s1 (bs_branch st)) (\<lambda>(p, s''). Inr (bs_output st @ [p], s''))
        else Inr (bs_output st, s1)) = Inr (qs, s')"
    using assms by (auto simp: write_branch_level_def simp del: rfold.simps)
  then show ?thesis using fold [OF st(1)] by auto
qed

lemma finish_levels_fails:
  "finish_levels L (map_put_tree L) n s level = Inl e \<Longrightarrow> level \<noteq> [] \<Longrightarrow> e \<noteq> OutOfFuel \<Longrightarrow> too_large e"
proof (induction n arbitrary: s level)
  case 0
  then show ?case by (subst (asm) finish_levels.simps) (auto split: if_splits list.splits)
next
  case (Suc n)
  then obtain p ps where level: "level = p # ps" by (cases level) auto
  show ?case
  proof (cases "length level > 1")
    case True
    then have "rbind (write_branch_level L (map_put_tree L) s level)
        (\<lambda>(level', s'). finish_levels L (map_put_tree L) n s' level') = Inl e"
      using Suc.prems(1) by (subst (asm) finish_levels.simps) simp
    then show ?thesis
      using write_branch_level_fails write_branch_level_nonempty [of L "map_put_tree L" s p ps] Suc.IH Suc.prems(3) level
      by (fastforce simp: result_simps)
  next
    case False
    then show ?thesis using Suc.prems level by (subst (asm) finish_levels.simps) (auto split: list.splits)
  qed
qed

text \<open>A builder that holds these entries ends in a directory that lists them.\<close>

lemma builder_finish_repr:
  assumes "map_inv L s" "builder_repr (map_read_tree L) s b es" "builder_finish L (map_put_tree L) n s b = Inr (root, s')"
  shows "map_inv L s' \<and> keeps L s s' \<and> paged (map_read_tree L) s' root es"
proof -
  have inv: "map_inv L s \<and> keeps L s s" using assms(1) by simp
  from assms(3) obtain b2 s2 where
    flush: "(if b_page b \<noteq> [] then flush_leaf L (map_put_tree L) s b else Inr (b, s)) = Inr (b2, s2)"
    and rest: "(if b_leaves b2 = [] then map_put_tree L s2 \<lparr>tr_entries = [], tr_pages = []\<rparr>
       else if length (b_leaves b2) = 1 then Inr (tp_target (hd (b_leaves b2)), s2)
       else finish_levels L (map_put_tree L) n s2 (b_leaves b2)) = Inr (root, s')"
    by (auto simp: builder_finish_def split: prod.splits)
  have r: "(map_inv L s2 \<and> keeps L s s2) \<and> builder_repr (map_read_tree L) s2 b2 es \<and> b_page b2 = []"
    using flush kept.flush_leaf_repr [OF inv assms(2)] inv assms(2) by (auto split: if_splits)
  then obtain ess where ess: "list_all2 (page_repr (map_read_tree L) s2) (b_leaves b2) ess" "es = concat ess"
    by (auto simp: builder_repr_def)
  consider "b_leaves b2 = []" | p where "b_leaves b2 = [p]" | "length (b_leaves b2) > 1"
    by (cases "b_leaves b2" rule: list.exhaust; cases "tl (b_leaves b2)") auto
  then show ?thesis
  proof cases
    case 1
    then have put: "map_put_tree L s2 \<lparr>tr_entries = [], tr_pages = []\<rparr> = Inr (root, s')" "es = []"
      using rest ess by simp_all
    have "paged (map_read_tree L) s' root []" using om.put_read [OF _ put(1)] r by (intro paged_leaf) blast
    then show ?thesis using kept.put_inv [OF conjunct1 [OF r] put(1)] put(2) by simp
  next
    case (2 p)
    then show ?thesis using rest ess r by (auto simp: list_all2_Cons1 page_repr_def)
  next
    case 3
    then have "finish_levels L (map_put_tree L) n s2 (b_leaves b2) = Inr (root, s')" using rest by (auto split: if_splits)
    from kept.finish_levels_repr [OF conjunct1 [OF r] ess(1) this] ess(2) show ?thesis by simp
  qed
qed

lemma builder_finish_ends:
  assumes "map_inv L s" "builder_repr (map_read_tree L) s b es" "pages_fit L (te_name ` set es)" "length es \<le> Suc n"
  shows "ends_in (\<lambda>(root, s'). map_inv L s' \<and> keeps L s s' \<and> paged (map_read_tree L) s' root es)
     (builder_finish L (map_put_tree L) n s b)"
proof (cases "builder_finish L (map_put_tree L) n s b")
  case (Inl e)
  have "e \<noteq> OutOfFuel" using builder_finish_fuel [OF assms] Inl by simp
  then show ?thesis
    using Inl finish_levels_fails [of L n] unfolding builder_finish_def
    by (auto simp: ends_in_def result_simps split: if_splits dest: flush_leaf_fails map_put_tree_fails)
next
  case (Inr x)
  then show ?thesis using builder_finish_repr [OF assms(1,2)] by (cases x) auto
qed

lemma builder_push_ends:
  assumes "map_inv L s" "builder_repr (map_read_tree L) s b es" "\<forall>x\<in>set es. te_name x < te_name e"
  shows "ends_in (\<lambda>(b', s'). map_inv L s' \<and> keeps L s s' \<and> builder_repr (map_read_tree L) s' b' (es @ [e]))
     (builder_push L (map_put_tree L) s b e)"
proof (cases "builder_push L (map_put_tree L) s b e")
  case (Inl x)
  obtain ess where ess: "list_all2 (page_repr (map_read_tree L) s) (b_leaves b) ess" "es = concat ess @ b_page b"
    using assms(2) by (auto simp: builder_repr_def)
  have "push_ordered b e"
  proof (cases "b_page b = []")
    case True
    have "tp_last_name (last (b_leaves b)) \<in> te_name ` set es" if "b_leaves b \<noteq> []"
      using list_all2_last [OF ess(1) that] ess(2) True
      by (auto simp: page_repr_def intro!: imageI) (metis UN_I last_in_set set_concat)
    then show ?thesis using True assms(3) by (auto simp: push_ordered_def)
  next
    case False
    then show ?thesis using ess(2) assms(3) by (simp add: push_ordered_def)
  qed
  then show ?thesis using Inl builder_push_fails by (simp add: ends_in_def)
next
  case (Inr x)
  then obtain b' s' where push: "builder_push L (map_put_tree L) s b e = Inr (b', s')" by (cases x) auto
  have inv: "map_inv L s \<and> keeps L s s" using assms(1) by simp
  show ?thesis unfolding push using kept.builder_push_repr [OF inv assms(2) push] by simp
qed

end
