(* ===== verification/Index_Rows.thy ===== *)
theory Index_Rows
  imports Path_Index Rewind_Diff
begin

text \<open>
  The rows of the path index as a map from paths to entries: what inserting a row, removing a subtree
  and reading the children of a directory do to that map.
\<close>

definition row_of :: "lib \<Rightarrow> fpath \<Rightarrow> tree_entry \<Rightarrow> index_row" where
  "row_of L q e = \<lparr>ir_parent = raw (butlast q), ir_name = te_name e, ir_entry = json_entry L e\<rparr>"

definition mirrors :: "lib \<Rightarrow> path_index \<Rightarrow> tree_map \<Rightarrow> bool" where
  "mirrors L ix Z \<longleftrightarrow> bt_wf (it_entries (px_tables ix)) \<and>
     (\<forall>q e. Z q = Some e \<longrightarrow> valid_fpath q \<and> te_name e = last q) \<and>
     (\<forall>key row. bt_get (it_entries (px_tables ix)) key = Some row \<longleftrightarrow>
        (\<exists>q e. Z q = Some e \<and> key = raw q \<and> row = row_of L q e))"

lemma mirrorsD:
  assumes "mirrors L ix Z"
  shows "bt_wf (it_entries (px_tables ix))"
    and "Z q = Some e \<Longrightarrow> valid_fpath q \<and> te_name e = last q"
    and "Z q = Some e \<Longrightarrow> bt_get (it_entries (px_tables ix)) (raw q) = Some (row_of L q e)"
    and "bt_get (it_entries (px_tables ix)) key = Some row \<Longrightarrow> \<exists>q e. Z q = Some e \<and> key = raw q \<and> row = row_of L q e"
  using assms unfolding mirrors_def by blast+

lemma mirrors_entries: "it_entries (px_tables ix') = it_entries (px_tables ix) \<Longrightarrow> mirrors L ix' Z = mirrors L ix Z"
  by (simp add: mirrors_def)

lemma mirrors_reset: "mirrors L (index_reset ix) no_tree"
  by (simp add: mirrors_def index_reset_def on_tables_def empty_tables_def no_tree_def)

lemma mirrors_note_link [simp]: "mirrors L (index_note_link path i ix) Z = mirrors L ix Z"
  by (rule mirrors_entries) (simp add: index_note_link_def on_tables_def)

lemma mirrors_set_root [simp]: "mirrors L (index_set_root r g ix) Z = mirrors L ix Z"
  by (rule mirrors_entries) (simp add: index_set_root_def on_tables_def)

lemma mirrors_get:
  assumes "mirrors L ix Z" "valid_fpath q"
  shows "bt_get (it_entries (px_tables ix)) (raw q) = map_option (row_of L q) (Z q)"
proof (cases "Z q")
  case None
  have "bt_get (it_entries (px_tables ix)) (raw q) \<noteq> Some row" for row
  proof
    assume "bt_get (it_entries (px_tables ix)) (raw q) = Some row"
    from mirrorsD(4) [OF assms(1) this] obtain p e where "Z p = Some e" "raw q = raw p" by blast
    then show False using None raw_inj [OF assms(2)] mirrorsD(2) [OF assms(1), of p] by auto
  qed
  then have "bt_get (it_entries (px_tables ix)) (raw q) = None" by (cases "bt_get (it_entries (px_tables ix)) (raw q)") auto
  then show ?thesis using None by simp
next
  case (Some e)
  then show ?thesis using mirrorsD(3) [OF assms(1)] by simp
qed

lemma mirrors_upsert:
  assumes "mirrors L ix Z" "valid_fpath q" "te_name e = last q"
  shows "mirrors L (index_upsert L (raw q) (raw (butlast q)) e ix) (Z(q \<mapsto> e))"
proof -
  let ?t = "it_entries (px_tables ix)"
  have t: "it_entries (px_tables (index_upsert L (raw q) (raw (butlast q)) e ix)) = bt_insert (raw q) (row_of L q e) ?t"
    by (simp add: index_upsert_def on_tables_def row_of_def)
  have "bt_get (bt_insert (raw q) (row_of L q e) ?t) key = Some row \<longleftrightarrow>
      (\<exists>p f. (Z(q \<mapsto> e)) p = Some f \<and> key = raw p \<and> row = row_of L p f)" for key row
  proof (cases "key = raw q")
    case True
    have same: "p = q \<and> f = e" if "(Z(q \<mapsto> e)) p = Some f" "raw q = raw p" for p f
    proof (cases "p = q")
      case False
      then have "valid_fpath p" using that(1) mirrorsD(2) [OF assms(1), of p f] by simp
      then show ?thesis using raw_inj [OF assms(2), of p] that(2) False by simp
    qed (use that in simp)
    show ?thesis
    proof
      assume "bt_get (bt_insert (raw q) (row_of L q e) ?t) key = Some row"
      then have "row = row_of L q e" using True by (simp add: bt_get_insert)
      then show "\<exists>p f. (Z(q \<mapsto> e)) p = Some f \<and> key = raw p \<and> row = row_of L p f" using True by (intro exI [of _ q] exI [of _ e]) simp
    next
      assume "\<exists>p f. (Z(q \<mapsto> e)) p = Some f \<and> key = raw p \<and> row = row_of L p f"
      then obtain p f where f: "(Z(q \<mapsto> e)) p = Some f" "key = raw p" "row = row_of L p f" by blast
      have "raw q = raw p" using trans [OF True [symmetric] f(2)] .
      from same [OF f(1) this] have "row = row_of L q e" using f(3) by blast
      then show "bt_get (bt_insert (raw q) (row_of L q e) ?t) key = Some row" using True by (simp add: bt_get_insert)
    qed
  next
    case False
    then have "(\<exists>p f. (Z(q \<mapsto> e)) p = Some f \<and> key = raw p \<and> row = row_of L p f) \<longleftrightarrow>
        (\<exists>p f. Z p = Some f \<and> key = raw p \<and> row = row_of L p f)" by auto
    then show ?thesis using False assms(1) by (simp add: bt_get_insert mirrors_def)
  qed
  moreover have "valid_fpath p \<and> te_name f = last p" if "(Z(q \<mapsto> e)) p = Some f" for p f
    using that assms mirrorsD(2) [OF assms(1), of p f] by (auto split: if_splits)
  ultimately show ?thesis
    unfolding mirrors_def t using mirrorsD(1) [OF assms(1)] by simp
qed

section \<open>Subtrees\<close>

lemma descendants_only:
  "\<forall>k\<in>set level. P k \<Longrightarrow> (\<And>k row. (k, row) \<in> set rows \<Longrightarrow> P (ir_parent row) \<Longrightarrow> P k) \<Longrightarrow>
   k \<in> set (descendants n rows level) \<Longrightarrow> P k"
proof (induction n rows level rule: descendants.induct)
  case (2 n rows level)
  show ?case
  proof (cases "k \<in> set level")
    case True
    then show ?thesis using "2.prems"(1) by blast
  next
    case False
    let ?next = "map fst (filter (\<lambda>(_, row). List.member level (ir_parent row)) rows)"
    have "level \<noteq> []" "k \<in> set (descendants n rows ?next)" using "2.prems"(3) False by (auto split: if_splits)
    moreover have "\<forall>k\<in>set ?next. P k" using "2.prems"(1,2) by (auto)
    ultimately show ?thesis using "2.IH" "2.prems"(2) by blast
  qed
qed simp

lemma descendants_level: "set level \<subseteq> set (descendants n rows level)"
  by (cases n) auto

text \<open>A chain of rows, each the parent of the one that follows.\<close>

lemma descendants_chain:
  "raw p \<in> set level \<Longrightarrow> length q \<le> n \<Longrightarrow>
   (\<And>i. i < length q \<Longrightarrow> \<exists>row. (raw (p @ take (Suc i) q), row) \<in> set rows \<and> ir_parent row = raw (p @ take i q)) \<Longrightarrow>
   raw (p @ q) \<in> set (descendants n rows level)"
proof (induction n arbitrary: p q level)
  case 0
  then show ?case by simp
next
  case (Suc n)
  show ?case
  proof (cases q)
    case Nil
    then show ?thesis using Suc.prems(1) by auto
  next
    case (Cons name r)
    let ?next = "map fst (filter (\<lambda>(_, row). List.member level (ir_parent row)) rows)"
    obtain row where row: "(raw (p @ [name]), row) \<in> set rows" "ir_parent row = raw p"
      using Suc.prems(3) [of 0] Cons by auto
    have 1: "raw (p @ [name]) \<in> set ?next" using row Suc.prems(1) by (force)
    have "raw ((p @ [name]) @ r) \<in> set (descendants n rows ?next)"
    proof (rule Suc.IH [OF 1])
      show "length r \<le> n" using Suc.prems(2) Cons by simp
      fix i assume "i < length r"
      then show "\<exists>row. (raw ((p @ [name]) @ take (Suc i) r), row) \<in> set rows \<and> ir_parent row = raw ((p @ [name]) @ take i r)"
        using Suc.prems(3) [of "Suc i"] Cons by simp
    qed
    then show ?thesis using Suc.prems(1) Cons by auto
  qed
qed

text \<open>\<open>Z\<close> without what is at and below a path.\<close>

definition pruned :: "fpath \<Rightarrow> tree_map \<Rightarrow> tree_map" where
  "pruned p Z = (\<lambda>q. if q = p \<or> below p q then None else Z q)"

definition linked_below :: "fpath \<Rightarrow> tree_map \<Rightarrow> bool" where
  "linked_below p Z \<longleftrightarrow> (\<forall>q. below p q \<longrightarrow> Z q \<noteq> None \<longrightarrow> Z (butlast q) \<noteq> None)"

lemma linked_prefix:
  assumes "linked_below p Z" "Z (p @ q) \<noteq> None" "i \<le> length q"
  shows "Z (p @ take i q) \<noteq> None"
  using assms(2,3)
proof (induction q rule: rev_induct)
  case (snoc name q)
  have "Z (butlast (p @ q @ [name])) \<noteq> None"
    using assms(1) snoc.prems(1) unfolding linked_below_def by (auto simp: below_def)
  then show ?case using snoc by (cases "i \<le> length q") (auto simp: butlast_append le_Suc_eq)
qed simp

lemma subtree_rows_mirrors:
  assumes "mirrors L ix Z" "valid_fpath p" "linked_below p Z"
  shows "k \<in> set (subtree_rows (px_tables ix) (raw p)) \<longleftrightarrow> (\<exists>q. Z q \<noteq> None \<and> k = raw q \<and> (q = p \<or> below p q))"
proof -
  let ?rows = "it_entries (px_tables ix)"
  let ?P = "\<lambda>k. \<exists>q. Z q \<noteq> None \<and> k = raw q \<and> (q = p \<or> below p q)"
  have row: "(raw q, row_of L q e) \<in> set ?rows" if "Z q = Some e" for q e
    using mirrorsD(3) [OF assms(1) that] by (rule map_of_SomeD)
  show ?thesis
  proof
    assume k: "k \<in> set (subtree_rows (px_tables ix) (raw p))"
    have "?P k'" if k': "(k', row) \<in> set ?rows" "?P (ir_parent row)" for k' row
    proof -
      obtain q e where q: "Z q = Some e" "k' = raw q" "row = row_of L q e"
        using mirrorsD(4) [OF assms(1), of k' row] k'(1) bt_get_eq_Some [OF mirrorsD(1) [OF assms(1)]] by auto
      obtain r where r: "raw (butlast q) = raw r" "r = p \<or> below p r" "Z r \<noteq> None" using k'(2) q(3) by (auto simp: row_of_def)
      have q': "valid_fpath q" "valid_fpath r" using mirrorsD(2) [OF assms(1)] q(1) r(3) by auto
      have "raw r \<noteq> []" using raw_hd [OF q'(2)] by blast
      then have "butlast q \<noteq> []" using r(1) by (metis join_with.simps(1) raw_def)
      then have "valid_fpath (butlast q)" using q'(1) by (auto simp: valid_fpath_def dest: in_set_butlastD)
      then have "butlast q = r" using raw_inj q'(2) r(1) by blast
      then have "below p q" using r(2) q'(1) by (metis append_butlast_last_id below_snoc valid_fpath_def)
      then show ?thesis using q by blast
    qed
    moreover have "\<forall>k\<in>set (if bt_get ?rows (raw p) = None then [] else [raw p]). ?P k"
      using mirrors_get [OF assms(1,2)] by auto
    ultimately show "?P k" using descendants_only [of _ ?P ?rows k "length ?rows"] k unfolding subtree_rows_def by blast
  next
    assume "?P k"
    then obtain q where q: "k = raw (p @ q)" "Z (p @ q) \<noteq> None"
      by (metis append_Nil2 append_take_drop_id below_def)
    have link: "Z (p @ take i q) \<noteq> None" if "i \<le> length q" for i using linked_prefix [OF assms(3) q(2) that] .
    have level: "(if bt_get ?rows (raw p) = None then [] else [raw p]) = [raw p]"
      using link [of 0] mirrors_get [OF assms(1,2)] by auto
    have valid: "valid_fpath (p @ take i q)" if "i \<le> length q" for i using link [OF that] mirrorsD(2) [OF assms(1)] by blast
    have "inj_on (\<lambda>i. raw (p @ take i q)) {..length q}"
    proof (rule inj_onI)
      fix i j assume ij: "i \<in> {..length q}" "j \<in> {..length q}" "raw (p @ take i q) = raw (p @ take j q)"
      then have "p @ take i q = p @ take j q" using raw_inj valid by (metis atMost_iff)
      then have "length (take i q) = length (take j q)" by simp
      then show "i = j" using ij(1,2) by simp
    qed
    moreover have "(\<lambda>i. raw (p @ take i q)) ` {..length q} \<subseteq> fst ` set ?rows"
    proof clarsimp
      fix i assume "i \<le> length q"
      then obtain e where "Z (p @ take i q) = Some e" using link by blast
      from row [OF this] show "raw (p @ take i q) \<in> fst ` set ?rows" by force
    qed
    ultimately have "Suc (length q) \<le> card (fst ` set ?rows)"
      by (metis List.finite_set card_atMost card_image card_mono finite_imageI)
    also have "\<dots> \<le> length ?rows" by (metis card_length length_map list.set_map)
    finally have len: "length q \<le> length ?rows" by simp
    show "k \<in> set (subtree_rows (px_tables ix) (raw p))"
      unfolding subtree_rows_def level q(1)
    proof (rule descendants_chain [OF _ len])
      fix i assume i: "i < length q"
      then obtain e where "Z (p @ take (Suc i) q) = Some e" using link [of "Suc i"] by auto
      then show "\<exists>row. (raw (p @ take (Suc i) q), row) \<in> set ?rows \<and> ir_parent row = raw (p @ take i q)"
        using row [of "p @ take (Suc i) q" e] i
        by (intro exI [of _ "row_of L (p @ take (Suc i) q) e"]) (simp add: row_of_def take_Suc_conv_app_nth butlast_append)
    qed simp
  qed
qed

lemma bt_without_get: "bt_get (bt_without ks m) k = (if k \<in> set ks then None else bt_get m k)"
  by (induction m) (auto simp: bt_without_def)

lemma bt_without_wf: "bt_wf m \<Longrightarrow> bt_wf (bt_without ks m)"
  unfolding bt_wf_def bt_without_def by (induction m) auto

lemma mirrors_remove_subtree:
  assumes "mirrors L ix Z" "valid_fpath p" "linked_below p Z"
  shows "mirrors L (fst (index_remove_subtree (raw p) ix)) (pruned p Z)"
proof -
  let ?rows = "it_entries (px_tables ix)" and ?gone = "subtree_rows (px_tables ix) (raw p)"
  have t: "it_entries (px_tables (fst (index_remove_subtree (raw p) ix))) = bt_without ?gone ?rows"
    by (simp add: index_remove_subtree_def on_tables_def Let_def)
  have gone: "raw q \<in> set ?gone \<longleftrightarrow> q = p \<or> below p q" if q: "Z q \<noteq> None" for q
  proof -
    have "valid_fpath q" using q mirrorsD(2) [OF assms(1)] by blast
    then have "q' = q" if "raw q = raw q'" "Z q' \<noteq> None" for q' using that raw_inj mirrorsD(2) [OF assms(1)] by blast
    then show ?thesis using subtree_rows_mirrors [OF assms, of "raw q"] q by blast
  qed
  have "bt_get (bt_without ?gone ?rows) key = Some row \<longleftrightarrow>
      (\<exists>q e. pruned p Z q = Some e \<and> key = raw q \<and> row = row_of L q e)" for key row
  proof
    assume "bt_get (bt_without ?gone ?rows) key = Some row"
    then have k: "key \<notin> set ?gone" "bt_get ?rows key = Some row" by (auto simp: bt_without_get split: if_splits)
    from mirrorsD(4) [OF assms(1) k(2)] obtain q e where "Z q = Some e" "key = raw q" "row = row_of L q e" by blast
    then show "\<exists>q e. pruned p Z q = Some e \<and> key = raw q \<and> row = row_of L q e" using k(1) gone by (auto simp: pruned_def)
  next
    assume "\<exists>q e. pruned p Z q = Some e \<and> key = raw q \<and> row = row_of L q e"
    then obtain q e where q: "Z q = Some e" "\<not> (q = p \<or> below p q)" "key = raw q" "row = row_of L q e"
      by (auto simp: pruned_def split: if_splits)
    then show "bt_get (bt_without ?gone ?rows) key = Some row"
      using gone [of q] mirrorsD(3) [OF assms(1) q(1)] by (simp add: bt_without_get)
  qed
  then show ?thesis
    unfolding mirrors_def t using bt_without_wf [OF mirrorsD(1) [OF assms(1)]] mirrorsD(2) [OF assms(1)]
    by (simp add: pruned_def)
qed

section \<open>Children\<close>

lemma raw_inj_all: "\<forall>x\<in>set p. valid_name x \<Longrightarrow> \<forall>x\<in>set q. valid_name x \<Longrightarrow> raw p = raw q \<longleftrightarrow> p = q"
proof -
  have "raw r = [] \<longleftrightarrow> r = []" if "\<forall>x\<in>set r. valid_name x" for r
    using that raw_hd [of r] by (cases "r = []") (auto simp: valid_fpath_def raw_def)
  then show "\<forall>x\<in>set p. valid_name x \<Longrightarrow> \<forall>x\<in>set q. valid_name x \<Longrightarrow> ?thesis"
    using raw_inj [of p q] by (metis valid_fpath_def raw_def join_with.simps(1))
qed

definition entry_names :: "tree_map \<Rightarrow> fpath \<Rightarrow> bytes set" where
  "entry_names Z p = {name. Z (p @ [name]) \<noteq> None}"

definition dir_entries :: "tree_map \<Rightarrow> fpath \<Rightarrow> tree_entry list" where
  "dir_entries Z p = map (\<lambda>name. the (Z (p @ [name]))) (sorted_list_of_set (entry_names Z p))"

lemma entry_names_finite:
  assumes "mirrors L ix Z"
  shows "finite (entry_names Z p)"
proof -
  have "(\<lambda>name. raw (p @ [name])) ` entry_names Z p \<subseteq> fst ` set (it_entries (px_tables ix))"
  proof clarsimp
    fix name assume "name \<in> entry_names Z p"
    then obtain e where "Z (p @ [name]) = Some e" by (auto simp: entry_names_def)
    from map_of_SomeD [OF mirrorsD(3) [OF assms this]] show "raw (p @ [name]) \<in> fst ` set (it_entries (px_tables ix))" by force
  qed
  moreover have "inj_on (\<lambda>name. raw (p @ [name])) (entry_names Z p)"
  proof (rule inj_onI)
    fix a b assume ab: "a \<in> entry_names Z p" "b \<in> entry_names Z p" "raw (p @ [a]) = raw (p @ [b])"
    then have "valid_fpath (p @ [a])" "valid_fpath (p @ [b])" using mirrorsD(2) [OF assms] by (auto simp: entry_names_def)
    then show "a = b" using raw_inj ab(3) by blast
  qed
  ultimately show ?thesis by (meson List.finite_set finite_imageD finite_imageI finite_subset)
qed

lemma dir_entries_set:
  assumes "mirrors L ix Z"
  shows "set (dir_entries Z p) = {e. \<exists>name. Z (p @ [name]) = Some e}"
  using entry_names_finite [OF assms, of p] by (force simp: dir_entries_def entry_names_def image_iff)

lemma dir_entriesD: "mirrors L ix Z \<Longrightarrow> e \<in> set (dir_entries Z p) \<Longrightarrow> Z (p @ [te_name e]) = Some e"
  using dir_entries_set [of L ix Z p] mirrorsD(2) [of L ix Z] by auto

lemma dir_entries_names:
  assumes "mirrors L ix Z"
  shows "map te_name (dir_entries Z p) = sorted_list_of_set (entry_names Z p)"
proof -
  have "te_name (the (Z (p @ [name]))) = name" if "name \<in> entry_names Z p" for name
    using that mirrorsD(2) [OF assms, of "p @ [name]"] by (auto simp: entry_names_def)
  then show ?thesis
    using entry_names_finite [OF assms, of p] by (auto simp: dir_entries_def intro!: map_idI)
qed

lemma dir_entries_sorted: "mirrors L ix Z \<Longrightarrow> names_sorted (dir_entries Z p)"
  by (simp add: names_sorted_def dir_entries_names)

lemma child_rows:
  assumes m: "mirrors L ix Z" and p: "\<forall>x\<in>set p. valid_name x"
  shows "sort_key ir_name (filter (\<lambda>row. ir_parent row = raw p \<and> a < ir_name row) (map snd (it_entries (px_tables ix))))
     = map (\<lambda>e. row_of L (p @ [te_name e]) e) (filter (\<lambda>e. a < te_name e) (dir_entries Z p))" (is "sort_key _ ?l = ?r")
proof -
  let ?rows = "it_entries (px_tables ix)"
  have row: "\<exists>e name. Z (p @ [name]) = Some e \<and> key = raw (p @ [name]) \<and> row = row_of L (p @ [name]) e \<and> te_name e = name"
    if k: "(key, row) \<in> set ?rows" "ir_parent row = raw p" for key row
  proof -
    obtain q e where q: "Z q = Some e" "key = raw q" "row = row_of L q e"
      using mirrorsD(4) [OF m, of key row] k(1) bt_get_eq_Some [OF mirrorsD(1) [OF m]] by auto
    then have v: "valid_fpath q" "te_name e = last q" using mirrorsD(2) [OF m] by auto
    then have "\<forall>x\<in>set (butlast q). valid_name x" by (auto simp: valid_fpath_def dest: in_set_butlastD)
    then have "butlast q = p" using raw_inj_all [OF _ p] k(2) q(3) by (simp add: row_of_def)
    then have "q = p @ [te_name e]" using v by (metis append_butlast_last_id valid_fpath_def)
    then show ?thesis using q by auto
  qed
  have entry: "(raw (p @ [te_name e]), row_of L (p @ [te_name e]) e) \<in> set ?rows" if e: "e \<in> set (dir_entries Z p)" for e
    by (rule map_of_SomeD [OF mirrorsD(3) [OF m dir_entriesD [OF m e]]])
  have parent: "ir_parent (row_of L (p @ [name]) e) = raw p" "ir_name (row_of L q e) = te_name e" for name q e
    by (simp_all add: row_of_def)
  have set: "set ?l = set ?r"
  proof (intro equalityI subsetI)
    fix row assume "row \<in> set ?l"
    then obtain key where k: "(key, row) \<in> set ?rows" "ir_parent row = raw p" "a < ir_name row" by auto
    from row [OF k(1,2)] obtain e name where "Z (p @ [name]) = Some e" "row = row_of L (p @ [name]) e" "te_name e = name" by blast
    then show "row \<in> set ?r" using k(3) dir_entries_set [OF m] parent(2) by force
  next
    fix row assume "row \<in> set ?r"
    then show "row \<in> set ?l" using entry parent by force
  qed
  have d: "distinct (map ir_name ?l)"
  proof -
    have "inj_on (ir_name \<circ> snd) {x\<in>set ?rows. ir_parent (snd x) = raw p \<and> a < ir_name (snd x)}"
    proof (rule inj_onI, clarsimp)
      fix k1 r1 k2 r2 assume 1: "(k1, r1) \<in> set ?rows" "ir_parent r1 = raw p" and 2: "(k2, r2) \<in> set ?rows" "ir_parent r2 = raw p"
        and eq: "ir_name r1 = ir_name r2"
      obtain e name where e: "Z (p @ [name]) = Some e" "k1 = raw (p @ [name])" "r1 = row_of L (p @ [name]) e" "te_name e = name"
        using row [OF 1] by blast
      obtain f name' where f: "Z (p @ [name']) = Some f" "k2 = raw (p @ [name'])" "r2 = row_of L (p @ [name']) f" "te_name f = name'"
        using row [OF 2] by blast
      have "name = name'" using eq e(3,4) f(3,4) parent(2) by simp
      then show "k1 = k2 \<and> r1 = r2" using e f by simp
    qed
    moreover have "distinct ?rows" using bt_wf_distinct [OF mirrorsD(1) [OF m]] by (simp add: distinct_map)
    ultimately have "distinct (map (ir_name \<circ> snd) (filter (\<lambda>x. ir_parent (snd x) = raw p \<and> a < ir_name (snd x)) ?rows))"
      by (simp add: distinct_map)
    then show ?thesis by (simp add: filter_map comp_def)
  qed
  have "distinct (map ir_name (sort_key ir_name ?l))" using d by (simp only: distinct_map distinct_sort set_sort)
  moreover have names: "map ir_name ?r = filter (\<lambda>x. a < x) (sorted_list_of_set (entry_names Z p))"
    by (simp add: row_of_def comp_def dir_entries_names [OF m, symmetric] filter_map)
  moreover have "inj_on ir_name (set ?r)"
  proof (rule inj_onI)
    fix x y assume "x \<in> set ?r" "y \<in> set ?r" and eq: "ir_name x = ir_name y"
    then obtain e f where ef: "e \<in> set (dir_entries Z p)" "x = row_of L (p @ [te_name e]) e"
      "f \<in> set (dir_entries Z p)" "y = row_of L (p @ [te_name f]) f" by auto
    have "te_name e = te_name f" using eq unfolding ef(2,4) parent(2) .
    then have "e = f" using dir_entriesD [OF m ef(1)] dir_entriesD [OF m ef(3)] by (metis option.inject)
    then show "x = y" using ef(2,4) by blast
  qed
  ultimately show ?thesis
    using set by (intro map_sorted_distinct_set_unique [of ir_name]) (simp_all add: sorted_wrt_filter)
qed

definition parses_entries :: "lib \<Rightarrow> (bytes \<Rightarrow> tree_entry option) \<Rightarrow> bool" where
  "parses_entries L parse_entry \<longleftrightarrow> (\<forall>e. parse_entry (json_entry L e) = Some e)"

lemma decode_rows_of:
  assumes "parses_entries L parse_entry"
  shows "decode_rows parse_entry (map (\<lambda>e. row_of L (q e) e) es) = Inr es"
proof -
  have "rfold (\<lambda>es row. rbind (of_opt ''decode indexed tree entry'' (parse_entry (ir_entry row))) (\<lambda>e. Inr (es @ [e]))) acc
      (map (\<lambda>e. row_of L (q e) e) es) = Inr (acc @ es)" for acc
    using assms by (induction es arbitrary: acc) (simp_all add: row_of_def parses_entries_def)
  then show ?thesis by (simp add: decode_rows_def)
qed

lemma children_after_mirrors:
  assumes "mirrors L ix Z" "\<forall>x\<in>set p. valid_name x" "parses_entries L parse_entry"
  shows "index_children_after parse_entry ix (raw p) after_name limit =
     Inr (take limit (filter (\<lambda>e. (case after_name of None \<Rightarrow> [] | Some name \<Rightarrow> name) < te_name e) (dir_entries Z p)))"
  unfolding index_children_after_def Let_def child_rows [OF assms(1,2)] take_map by (rule decode_rows_of [OF assms(3)])

end
