(* ===== verification/Capture_Walk.thy ===== *)
theory Capture_Walk
  imports Capture_Steps Index_Rows
begin

text \<open>
  The walk over a workspace: what a capture records of a node, what it leaves out, and that the tree
  it builds holds exactly the nodes it has seen.
\<close>

section \<open>What is recorded\<close>

definition row_describes :: "capture_env \<Rightarrow> object_map \<Rightarrow> node \<Rightarrow> bytes \<Rightarrow> cached_file \<Rightarrow> bool" where
  "row_describes C s n c row \<longleftrightarrow> cf_blob_id row = blob_id (ce_lib C) c \<and> stored_content (ce_lib C) s c \<and>
     read_xattrs (ce_os C) (ce_lib C) s (cf_xattrs row) = Inr (recorded_xattrs n)"

text \<open>A row of the stat cache that would be used for a file of the workspace describes that file.\<close>

definition capture_inv :: "capture_env \<Rightarrow> capture_state \<Rightarrow> bool" where
  "capture_inv C st \<longleftrightarrow> map_inv (ce_lib C) (cs_store st) \<and>
     (\<forall>q n c row. valid_fpath q \<longrightarrow> bt_get (ce_fs C) q = Some n \<longrightarrow> nd_kind n = RegularFile c \<longrightarrow>
        bt_get (cs_rows st) (raw q) = Some row \<longrightarrow> cached_matches row (stat_at C q n) \<longrightarrow> \<not> is_racy row \<longrightarrow>
        row_describes C (cs_store st) n c row)"

definition grows :: "capture_env \<Rightarrow> capture_state \<Rightarrow> capture_state \<Rightarrow> bool" where
  "grows C st st' \<longleftrightarrow> capture_inv C st' \<and> keeps (ce_lib C) (cs_store st) (cs_store st') \<and>
     px_saved (cs_index st') = px_saved (cs_index st)"

lemma index_saved [simp]:
  "px_saved (index_note_link path i ix) = px_saved ix" "px_saved (index_upsert L path parent e ix) = px_saved ix"
  "px_saved (index_reset ix) = px_saved ix" "px_saved (index_set_root r g ix) = px_saved ix"
  by (simp_all add: index_note_link_def index_upsert_def index_reset_def index_set_root_def on_tables_def)

definition records :: "capture_env \<Rightarrow> object_map \<Rightarrow> tree_entry \<Rightarrow> node \<Rightarrow> bool" where
  "records C s e n \<longleftrightarrow> node_ok (ce_lib C) e n \<and> te_mode e = nd_mode n \<and> entry_mtime e = nd_mtime n \<and>
     (\<exists>xs. read_xattrs (ce_os C) (ce_lib C) s (te_xattrs e) = Inr xs \<and>
        (te_kind e = File \<or> te_kind e = Directory \<longrightarrow> xs = recorded_xattrs n)) \<and>
     (\<forall>c. nd_kind n = RegularFile c \<longrightarrow> stored_content (ce_lib C) s c)"

lemma row_describes_keeps: "row_describes C s n c row \<Longrightarrow> keeps (ce_lib C) s s' \<Longrightarrow> row_describes C s' n c row"
  by (simp add: row_describes_def stored_content_keeps [of _ s _ s'] read_xattrs_keeps [of _ _ s _ _ s'])

lemma records_keeps:
  assumes "records C s e n" "keeps (ce_lib C) s s'"
  shows "records C s' e n"
proof -
  obtain xs where xs: "read_xattrs (ce_os C) (ce_lib C) s (te_xattrs e) = Inr xs"
      "te_kind e = File \<or> te_kind e = Directory \<longrightarrow> xs = recorded_xattrs n"
    using assms(1) by (auto simp: records_def)
  show ?thesis
    using assms(1) read_xattrs_keeps [OF xs(1) assms(2)] xs(2) stored_content_keeps [OF _ assms(2)]
    by (auto simp: records_def)
qed

lemma grows_trans: "grows C a b \<Longrightarrow> grows C b c \<Longrightarrow> grows C a c"
  unfolding grows_def by (elim conjE) (intro conjI, assumption, rule keeps_trans, simp_all)

lemma grows_inv: "grows C st st' \<Longrightarrow> capture_inv C st'" and grows_keeps: "grows C st st' \<Longrightarrow> keeps (ce_lib C) (cs_store st) (cs_store st')"
  by (simp_all add: grows_def)

lemma capture_inv_index [simp]: "capture_inv C (st\<lparr>cs_index := ix\<rparr>) = capture_inv C st"
  by (simp add: capture_inv_def)

lemma capture_inv_store:
  assumes "capture_inv C st" "map_inv (ce_lib C) s" "keeps (ce_lib C) (cs_store st) s"
  shows "grows C st (st\<lparr>cs_store := s\<rparr>)"
  using assms(1) row_describes_keeps [OF _ assms(3)] assms(2,3) unfolding grows_def capture_inv_def by auto

lemma time_recorded [simp]: "metadata_time (stat_at C p n) = nd_mtime n"
  by (simp add: metadata_time_def stat_at_def Let_def prod_eq_iff)

lemma cached_from_read_matches: "cached_matches (cached_from_read r now) (fr_stat r)"
  by (simp add: cached_from_read_def cached_matches_def Let_def)

text \<open>The row that a read leaves in the cache describes the file that was read.\<close>

lemma capture_inv_row:
  assumes "capture_inv C st" "valid_fpath p" "bt_get (ce_fs C) p = Some n" "nd_kind n = RegularFile c"
    and "row_describes C (cs_store st) n c row"
  shows "capture_inv C (st\<lparr>cs_rows := bt_insert (raw p) row (cs_rows st)\<rparr>)"
proof -
  have "row_describes C (cs_store st) m b r"
    if "valid_fpath q" "bt_get (ce_fs C) q = Some m" "nd_kind m = RegularFile b" "cached_matches r (stat_at C q m)" "\<not> is_racy r"
      "bt_get (bt_insert (raw p) row (cs_rows st)) (raw q) = Some r" for q m b r
  proof (cases "q = p")
    case True
    then show ?thesis using that assms(3-5) by (simp add: bt_get_insert)
  next
    case False
    then have "raw q \<noteq> raw p" using raw_inj [OF that(1) assms(2)] by simp
    then show ?thesis using that assms(1) unfolding capture_inv_def by (auto simp: bt_get_insert)
  qed
  then show ?thesis using assms(1) unfolding capture_inv_def by simp
qed

lemma capture_file_entry_ends:
  assumes inv: "capture_inv C st" and "xattrs_faithful (ce_os C)" "length c < ce_fuel C" "length c < 2 ^ 64"
    and p: "valid_fpath p" "bt_get (ce_fs C) p = Some n" "nd_kind n = RegularFile c"
  shows "ends_in (\<lambda>(e, st'). grows C st st' \<and> cs_index st' = cs_index st \<and>
      te_name e = last p \<and> te_kind e = File \<and> records C (cs_store st') e n) (capture_file_entry C p n c st)"
proof -
  let ?stat = "stat_at C p n"
  let ?row = "case unchanged_row st (raw p) ?stat of Some row \<Rightarrow> Inr (row, st)
            | None \<Rightarrow> rbind (read_file C p n c (cs_store st)) (\<lambda>(r, s). Inr (cache_read C (raw p) r (st\<lparr>cs_store := s\<rparr>)))"
  have map: "map_inv (ce_lib C) (cs_store st)" using inv by (simp add: capture_inv_def)
  have row: "ends_in (\<lambda>(row, st'). grows C st st' \<and> cs_index st' = cs_index st \<and>
      cached_matches row ?stat \<and> row_describes C (cs_store st') n c row) ?row"
  proof (cases "unchanged_row st (raw p) ?stat")
    case None
    show ?thesis
      unfolding None option.case
    proof (rule ends_in_bind [OF read_file_ends [OF map assms(2,3), where p = p and n = n]], clarsimp simp: cache_read_def Let_def)
      fix r :: file_read and s assume r: "map_inv (ce_lib C) s" "keeps (ce_lib C) (cs_store st) s" "stored_content (ce_lib C) s c"
        "fr_blob r = blob_id (ce_lib C) c" "fr_stat r = ?stat"
        "read_xattrs (ce_os C) (ce_lib C) s (fr_xattrs r) = Inr (recorded_xattrs n)"
      let ?row = "cached_from_read r (vw_now (ce_view C))" and ?st = "st\<lparr>cs_store := s\<rparr>"
      have d: "row_describes C (cs_store ?st) n c ?row"
        using r by (simp add: row_describes_def cached_from_read_def Let_def)
      have g: "grows C st ?st" by (rule capture_inv_store [OF inv r(1,2)])
      have "grows C st (?st\<lparr>cs_rows := bt_insert (raw p) ?row (cs_rows ?st)\<rparr>)"
        using capture_inv_row [OF grows_inv [OF g] p d] g by (simp add: grows_def)
      then show "grows C st (st\<lparr>cs_store := s, cs_rows := bt_insert (raw p) ?row (cs_rows st)\<rparr>) \<and>
          cached_matches ?row ?stat \<and> row_describes C s n c ?row"
        using d cached_from_read_matches [of r] r(5) by simp
    qed
  next
    case (Some row)
    then have "bt_get (cs_rows st) (raw p) = Some row" "cached_matches row ?stat" "\<not> is_racy row"
      by (auto simp: unchanged_row_def split: option.splits if_splits)
    then show ?thesis using Some inv p by (auto simp: grows_def capture_inv_def)
  qed
  show ?thesis
    unfolding capture_file_entry_def
  proof (rule ends_in_bind [OF row], clarsimp)
    fix row :: cached_file and st' :: capture_state assume g: "grows C st st'" and "cs_index st' = cs_index st" and m: "cached_matches row ?stat" and d: "row_describes C (cs_store st') n c row"
    let ?e = "file_entry (last p) (classify (raw p)) row"
    have "node_ok (ce_lib C) ?e n" "te_mode ?e = nd_mode n" "entry_mtime ?e = nd_mtime n"
      using m d p(3) assms(4)
      by (auto simp: node_ok_def file_entry_def cached_matches_def stat_at_def Let_def row_describes_def entry_mtime_def
          unat_of_nat prod_eq_iff)
    then show "te_name ?e = last p \<and> te_kind ?e = File \<and> records C (cs_store st') ?e n"
      using d p(3) by (simp add: records_def row_describes_def file_entry_def)
  qed
qed

section \<open>What is seen\<close>

definition skipped :: "capture_env \<Rightarrow> fpath \<Rightarrow> bool" where
  "skipped C q \<longleftrightarrow> skips_child C q \<or> excludes_bytes (ce_policy C) (raw q)"

text \<open>The walk does not enter what it skips.\<close>

definition hidden :: "capture_env \<Rightarrow> fpath \<Rightarrow> bool" where
  "hidden C q \<longleftrightarrow> (\<exists>p. p \<noteq> [] \<and> (p = q \<or> below p q) \<and> skipped C p)"

definition seen :: "capture_env \<Rightarrow> fpath \<Rightarrow> bool" where
  "seen C q \<longleftrightarrow> (\<exists>n. bt_get (ce_fs C) q = Some n \<and> nd_kind n \<noteq> DeviceNode) \<and> \<not> hidden C q"

definition dir_names :: "capture_env \<Rightarrow> fpath \<Rightarrow> bytes set" where
  "dir_names C p = {name. bt_get (ce_fs C) (p @ [name]) \<noteq> None}"

definition overlay_folder :: "capture_env \<Rightarrow> bool" where
  "overlay_folder C \<longleftrightarrow> ce_composed C \<and>
     (case bt_get (ce_fs C) [overlay_name] of None \<Rightarrow> False | Some n \<Rightarrow> is_folder n)"

text \<open>A view of a file system that nobody changes during the walk.\<close>

definition view_ok :: "capture_env \<Rightarrow> bool" where
  "view_ok C \<longleftrightarrow> (\<exists>n. bt_get (ce_fs C) [] = Some n \<and> is_folder n) \<and>
     (\<forall>q name. bt_get (ce_fs C) (q @ [name]) \<noteq> None \<longrightarrow>
        valid_name name \<and> (\<exists>d. bt_get (ce_fs C) q = Some d \<and> is_folder d)) \<and>
     (\<forall>q n c. bt_get (ce_fs C) q = Some n \<longrightarrow> nd_kind n = RegularFile c \<longrightarrow> length c < 2 ^ 64) \<and>
     (\<forall>p. distinct (vw_names (ce_view C) p) \<and> short_names (vw_names (ce_view C) p) \<and>
        (if p = [] \<and> overlay_folder C then insert overlay_name (set (vw_names (ce_view C) p))
         else set (vw_names (ce_view C) p)) = dir_names C p)"

lemma hidden_snoc: "hidden C (p @ [name]) \<longleftrightarrow> hidden C p \<or> skipped C (p @ [name])"
  by (auto simp: hidden_def below_snoc)

lemma hidden_Nil [simp]: "\<not> hidden C []"
  by (auto simp: hidden_def)

lemma view_parent: "view_ok C \<Longrightarrow> bt_get (ce_fs C) (q @ [name]) \<noteq> None \<Longrightarrow> \<exists>d. bt_get (ce_fs C) q = Some d \<and> is_folder d"
  unfolding view_ok_def by blast

lemma view_name: "view_ok C \<Longrightarrow> name \<in> dir_names C p \<Longrightarrow> valid_name name"
  unfolding view_ok_def dir_names_def by blast

lemma view_ancestor:
  assumes "view_ok C" "bt_get (ce_fs C) (p @ q) \<noteq> None" "q \<noteq> []"
  shows "\<exists>d. bt_get (ce_fs C) p = Some d \<and> is_folder d"
  using assms(2,3)
proof (induction q rule: rev_induct)
  case (snoc name q)
  have "\<exists>d. bt_get (ce_fs C) (p @ q) = Some d \<and> is_folder d"
    by (rule view_parent [OF assms(1), of _ name]) (use snoc.prems in simp)
  then show ?case using snoc.IH by (cases "q = []") auto
qed simp

lemma children_listed:
  assumes "view_ok C"
  shows "children C p = Inr (sorted_list_of_set (dir_names C p))"
proof -
  let ?names = "vw_names (ce_view C) p"
  have v: "distinct ?names" "short_names ?names"
      "(if p = [] \<and> overlay_folder C then insert overlay_name (set ?names) else set ?names) = dir_names C p"
    using assms unfolding view_ok_def by blast+
  have s: "sort ?names = sorted_list_of_set (set ?names)"
    using v(1) by (simp add: sorted_list_of_set_sort_remdups distinct_remdups_id)
  have "with_overlay True (sort ?names) = sorted_list_of_set (insert overlay_name (set ?names))"
    using with_overlay_sorted [of "sort ?names"] v(1) by simp
  then have o: "with_overlay True (sort ?names) = sorted_list_of_set (dir_names C p)" if "p = []" "overlay_folder C"
    using v(3) that by (metis (full_types))
  show ?thesis
  proof (cases "p = [] \<and> overlay_folder C")
    case True
    then show ?thesis using list_directory_sorts [OF v(2)] o unfolding children_def overlay_folder_def by auto
  next
    case False
    then have "sort ?names = sorted_list_of_set (dir_names C p)" using s v(3) by (simp only: if_False)
    then show ?thesis using list_directory_sorts [OF v(2)] False unfolding children_def overlay_folder_def by auto
  qed
qed

lemma finite_dir_names: "view_ok C \<Longrightarrow> finite (dir_names C p)"
  unfolding view_ok_def by (metis List.finite_set finite.insertI)

section \<open>The tree of a walk\<close>

abbreviation stored_forest :: "capture_env \<Rightarrow> object_map \<Rightarrow> nat \<Rightarrow> object_id \<Rightarrow> tree_map \<Rightarrow> bool" where
  "stored_forest C s d i X \<equiv> forest (map_read_tree (ce_lib C)) s d i X"

text \<open>\<open>X\<close> holds what the walk has seen below \<open>p\<close>.\<close>

definition describes :: "capture_env \<Rightarrow> object_map \<Rightarrow> fpath \<Rightarrow> tree_map \<Rightarrow> bool" where
  "describes C s p X \<longleftrightarrow> (\<forall>q. q \<noteq> [] \<longrightarrow>
     (if seen C (p @ q) then \<exists>e n. X q = Some e \<and> bt_get (ce_fs C) (p @ q) = Some n \<and> records C s e n else X q = None))"

text \<open>An entry of the directory \<open>p\<close>, and the tree \<open>Y\<close> below it.\<close>

definition child_ok :: "capture_env \<Rightarrow> object_map \<Rightarrow> nat \<Rightarrow> fpath \<Rightarrow> tree_entry \<Rightarrow> tree_map \<Rightarrow> bool" where
  "child_ok C s d p e Y \<longleftrightarrow> seen C (p @ [te_name e]) \<and>
     (\<exists>n. bt_get (ce_fs C) (p @ [te_name e]) = Some n \<and> records C s e n) \<and>
     (if te_kind e = Directory
      then \<exists>t. te_target e = Some t \<and> stored_forest C s d t Y \<and> describes C s (p @ [te_name e]) Y
      else Y = no_tree)"

text \<open>The entries of a directory with the trees below them.\<close>

definition tree_of :: "tree_entry list \<Rightarrow> (tree_entry \<Rightarrow> tree_map) \<Rightarrow> tree_map" where
  "tree_of es F = (\<lambda>q. case q of
     [] \<Rightarrow> None
   | name # r \<Rightarrow>
       (case lookup_entry es name of
          None \<Rightarrow> None
        | Some e \<Rightarrow> if r = [] then Some e else if te_kind e = Directory then F e r else None))"

text \<open>The rows of the index after \<open>X\<close> was put at \<open>p\<close>.\<close>

definition graft :: "fpath \<Rightarrow> tree_map \<Rightarrow> tree_map \<Rightarrow> tree_map" where
  "graft p X Z = (\<lambda>r. if below p r then (case X (drop (length p) r) of Some e \<Rightarrow> Some e | None \<Rightarrow> Z r) else Z r)"

definition indexes :: "capture_env \<Rightarrow> path_index \<Rightarrow> fpath \<Rightarrow> tree_map \<Rightarrow> path_index \<Rightarrow> bool" where
  "indexes C ix p X ix' \<longleftrightarrow> (\<forall>Z. mirrors (ce_lib C) ix Z \<longrightarrow> mirrors (ce_lib C) ix' (graft p X Z))"

lemma graft_no_tree [simp]: "graft p no_tree Z = Z"
  by (simp add: graft_def no_tree_def fun_eq_iff)

lemma indexes_refl [simp]: "indexes C ix p no_tree ix"
  by (simp add: indexes_def)

lemma below_append [simp]: "below p (p @ r) \<longleftrightarrow> r \<noteq> []"
  by (auto simp: below_def)

lemma belowE: "below p r \<Longrightarrow> (\<And>name q. r = p @ name # q \<Longrightarrow> thesis) \<Longrightarrow> thesis"
  by (metis append_take_drop_id below_def drop_eq_Nil2 leD list.exhaust)

lemma graft_upsert:
  assumes "te_name e = name" "name \<notin> te_name ` set es" "te_kind e = Directory \<or> Y = no_tree"
  shows "(graft (p @ [name]) Y (graft p (tree_of es F) Z))(p @ [name] \<mapsto> e) = graft p (tree_of (es @ [e]) (F(e := Y))) Z"
proof
  fix r
  have new: "lookup_entry es name = None" using assms(2) by (simp add: lookup_entry_None_iff)
  show "((graft (p @ [name]) Y (graft p (tree_of es F) Z))(p @ [name] \<mapsto> e)) r = graft p (tree_of (es @ [e]) (F(e := Y))) Z r"
  proof (cases "below p r")
    case True
    then obtain a q where r: "r = p @ a # q" by (rule belowE)
    show ?thesis
    proof (cases "a = name")
      case True
      have "below (p @ [name]) (p @ name # q) \<longleftrightarrow> q \<noteq> []" using below_append [of "p @ [name]" q] by simp
      then show ?thesis
        using r True assms(1,3) new
        by (auto simp: graft_def tree_of_def lookup_entry_append no_tree_def split: option.splits)
    next
      case False
      have "\<not> below (p @ [name]) (p @ a # q)" using False by (auto simp: below_def)
      moreover have "lookup_entry (es @ [e]) a = lookup_entry es a" using False assms(1) by (simp add: lookup_entry_append split: option.split)
      moreover have "e \<notin> set es" using assms(1,2) by blast
      ultimately show ?thesis
        using r False by (auto simp: graft_def tree_of_def split: option.splits dest: lookup_entry_SomeD)
    qed
  next
    case False
    then have "\<not> below (p @ [name]) r" "r \<noteq> p @ [name]" using path_below_trans [of p "p @ [name]" r] by auto
    then show ?thesis using False by (simp add: graft_def)
  qed
qed

lemma forest_extends: "forest read s d i X \<Longrightarrow> extends read s s' \<Longrightarrow> forest read s' d i X"
proof (induction d arbitrary: i X)
  case (Suc d)
  obtain es where es: "paged read s i es" "names_sorted es" "\<forall>e\<in>set es. valid_name (te_name e)" "X [] = None"
      "\<forall>name. X [name] = lookup_entry es name" "\<forall>name. \<not> is_dir (lookup_entry es name) \<longrightarrow> subtree_at X name = no_tree"
      "\<forall>e\<in>set es. te_kind e = Directory \<longrightarrow> (\<exists>t. te_target e = Some t \<and> forest read s d t (subtree_at X (te_name e)))"
    using Suc.prems(1) unfolding forest.simps by blast
  have "\<forall>e\<in>set es. te_kind e = Directory \<longrightarrow> (\<exists>t. te_target e = Some t \<and> forest read s' d t (subtree_at X (te_name e)))"
    using es(7) Suc.IH [OF _ Suc.prems(2)] by blast
  then show ?case
    unfolding forest.simps using paged_extends [OF es(1) Suc.prems(2)] es(2-6) by blast
qed simp

lemma describes_keeps: "describes C s p X \<Longrightarrow> keeps (ce_lib C) s s' \<Longrightarrow> describes C s' p X"
  unfolding describes_def using records_keeps by metis

lemma child_ok_keeps:
  assumes "child_ok C s d p e Y" "keeps (ce_lib C) s s'"
  shows "child_ok C s' d p e Y"
  using assms(1) records_keeps [OF _ assms(2)] describes_keeps [OF _ assms(2)]
    forest_extends [OF _ keeps_extends [OF assms(2)]]
  unfolding child_ok_def by (simp split: if_splits) metis+

lemma child_ok_tree: "child_ok C s d p e Y \<Longrightarrow> te_kind e = Directory \<Longrightarrow> \<exists>t. te_target e = Some t \<and> stored_forest C s d t Y"
  by (auto simp: child_ok_def)

lemma describesD:
  assumes "describes C s p X" "q \<noteq> []"
  shows "seen C (p @ q) \<Longrightarrow> \<exists>e n. X q = Some e \<and> bt_get (ce_fs C) (p @ q) = Some n \<and> records C s e n"
    and "\<not> seen C (p @ q) \<Longrightarrow> X q = None"
  using assms unfolding describes_def by metis+

section \<open>One entry\<close>

text \<open>What the walk promises for a directory of at most this depth.\<close>

definition walk_ok :: "capture_env \<Rightarrow> nat \<Rightarrow> capture_walk \<Rightarrow> bool" where
  "walk_ok C d walk \<longleftrightarrow> (\<forall>p st. (\<exists>n. bt_get (ce_fs C) p = Some n \<and> is_folder n) \<longrightarrow> \<not> hidden C p \<longrightarrow> (\<forall>name\<in>set p. valid_name name) \<longrightarrow>
     capture_inv C st \<longrightarrow> (\<forall>q. bt_get (ce_fs C) (p @ q) \<noteq> None \<longrightarrow> length q < d) \<longrightarrow>
     ends_in (\<lambda>(t, st'). grows C st st' \<and>
       (\<exists>X. stored_forest C (cs_store st') d t X \<and> describes C (cs_store st') p X \<and>
          indexes C (cs_index st) p X (cs_index st'))) (walk p st))"

lemma walk_okD:
  assumes "walk_ok C d walk" "bt_get (ce_fs C) p = Some n" "is_folder n" "\<not> hidden C p" "\<forall>name\<in>set p. valid_name name"
    and "capture_inv C st" "\<forall>q. bt_get (ce_fs C) (p @ q) \<noteq> None \<longrightarrow> length q < d"
  shows "ends_in (\<lambda>(t, st'). grows C st st' \<and>
       (\<exists>X. stored_forest C (cs_store st') d t X \<and> describes C (cs_store st') p X \<and>
          indexes C (cs_index st) p X (cs_index st'))) (walk p st)"
  using assms unfolding walk_ok_def by blast

text \<open>Everything the fuel has to be enough for.\<close>

definition enough :: "capture_env \<Rightarrow> bool" where
  "enough C \<longleftrightarrow> (\<forall>q n. bt_get (ce_fs C) q = Some n \<longrightarrow>
       length q < ce_fuel C \<and> (\<forall>c. nd_kind n = RegularFile c \<longrightarrow> length c < ce_fuel C)) \<and>
     (\<forall>p. card (dir_names C p) \<le> ce_fuel C)"

definition captured ::
  "capture_env \<Rightarrow> nat \<Rightarrow> fpath \<Rightarrow> bytes \<Rightarrow> capture_state \<Rightarrow> tree_entry option \<Rightarrow> capture_state \<Rightarrow> bool" where
  "captured C d p name st found st' \<longleftrightarrow> (\<exists>Y. indexes C (cs_index st) (p @ [name]) Y (cs_index st') \<and>
     (case found of
        None \<Rightarrow> \<not> seen C (p @ [name]) \<and> Y = no_tree
      | Some e \<Rightarrow> te_name e = name \<and> child_ok C (cs_store st') d p e Y))"

lemma records_no_xattrs:
  assumes "te_xattrs e = None" "te_kind e \<noteq> File" "te_kind e \<noteq> Directory" "\<nexists>c. nd_kind n = RegularFile c"
    and "node_ok (ce_lib C) e n" "te_mode e = nd_mode n" "entry_mtime e = nd_mtime n"
  shows "records C s e n"
  using assms by (auto simp: records_def read_xattrs_def)

lemma capture_path_entry_ends:
  assumes view: "view_ok C" and E: "xattrs_faithful (ce_os C)" and enough: "enough C" and walk: "walk_ok C d walk"
    and inv: "capture_inv C st" and p: "\<forall>x\<in>set p. valid_name x" "\<not> hidden C (p @ [name])"
    and n: "bt_get (ce_fs C) (p @ [name]) = Some n"
    and depth: "\<forall>q. bt_get (ce_fs C) (p @ [name] @ q) \<noteq> None \<longrightarrow> length q < d"
  shows "ends_in (\<lambda>(found, st'). grows C st st' \<and> captured C d p name st found st')
     (capture_path_entry C walk (p @ [name]) st)"
proof -
  let ?q = "p @ [name]" and ?stat = "stat_at C (p @ [name]) n"
  have name: "valid_name name" using view_name [OF view, of name p] n by (simp add: dir_names_def)
  have valid: "valid_fpath ?q" using p(1) name by (simp add: valid_fpath_def)
  have seen: "seen C ?q \<longleftrightarrow> nd_kind n \<noteq> DeviceNode" using n p(2) by (simp add: seen_def)
  have time: "metadata_time ?stat = nd_mtime n" and mode: "st_mode ?stat = nd_mode n"
    by (simp_all only: time_recorded) (simp add: stat_at_def Let_def)
  have refl: "grows C st st" using inv by (simp add: grows_def)
  have simple: "grows C st st \<and> captured C d p name st (Some e) st"
    if "te_name e = name" "te_kind e \<noteq> Directory" "nd_kind n \<noteq> DeviceNode" "records C (cs_store st) e n" for e
    using that refl seen n by (auto simp: captured_def child_ok_def intro!: exI [of _ no_tree])
  show ?thesis
  proof (cases "nd_kind n")
    case (RegularFile c)
    have c: "length c < ce_fuel C" "length c < 2 ^ 64" using enough view n RegularFile unfolding enough_def view_ok_def by blast+
    have "capture_inv C (st\<lparr>cs_index := index_note_link (raw ?q) (identity_at C ?q n) (cs_index st)\<rparr>)" using inv by simp
    note entry = capture_file_entry_ends [OF this E c valid n RegularFile]
    show ?thesis
      using n RegularFile
      by (simp add: capture_path_entry_def Let_def split_def)
        (rule ends_in_bind [OF entry], use seen n RegularFile in \<open>auto simp: captured_def child_ok_def grows_def indexes_def intro!: exI [of _ no_tree]\<close>)
  next
    case FolderNode
    have map: "map_inv (ce_lib C) (cs_store st)" using inv by (simp add: capture_inv_def)
    note x = capture_xattrs_ends [OF map E, of n]
    have goal: "ends_in (\<lambda>(found, st'). grows C st st' \<and> captured C d p name st found st')
       (rbind (capture_xattrs (os_json_xattrs (ce_os C)) (ce_lib C) (cs_store st) (Some (listed_xattrs n))) (\<lambda>(xattrs, s).
        rbind (walk ?q (st\<lparr>cs_store := s\<rparr>)) (\<lambda>(target, st).
        Inr (Some \<lparr>te_name = name, te_kind = Directory, te_target = Some target, te_link_target = [], te_mode = nd_mode n,
                te_size = 0, te_mtime_secs = fst (nd_mtime n), te_mtime_nanos = snd (nd_mtime n), te_xattrs = xattrs,
                te_class = classify (raw ?q)\<rparr>, st))))"
    proof (rule ends_in_bind [OF x], clarsimp)
      fix xs s assume s: "map_inv (ce_lib C) s" "keeps (ce_lib C) (cs_store st) s"
        "read_xattrs (ce_os C) (ce_lib C) s xs = Inr (recorded_xattrs n)"
      let ?st = "st\<lparr>cs_store := s\<rparr>"
      let ?e = "\<lambda>t. \<lparr>te_name = name, te_kind = Directory, te_target = Some t, te_link_target = [], te_mode = nd_mode n,
         te_size = 0, te_mtime_secs = fst (nd_mtime n), te_mtime_nanos = snd (nd_mtime n), te_xattrs = xs,
         te_class = classify (raw ?q)\<rparr>"
      have g: "grows C st ?st" by (rule capture_inv_store [OF inv s(1,2)])
      have folder: "is_folder n" using FolderNode by (simp add: is_folder_def)
      have "\<forall>x\<in>set ?q. valid_name x" "\<forall>q. bt_get (ce_fs C) (?q @ q) \<noteq> None \<longrightarrow> length q < d" using p(1) name depth by auto
      note w = walk_okD [OF walk n folder p(2) this(1) grows_inv [OF g] this(2)]
      show "ends_in (\<lambda>(found, st'). grows C st st' \<and> captured C d p name st found st')
         (rbind (walk ?q ?st) (\<lambda>(t, st). Inr (Some (?e t), st)))"
      proof (rule ends_in_bind [OF w], clarsimp)
        fix t st' X assume st': "grows C ?st st'" "stored_forest C (cs_store st') d t X" "describes C (cs_store st') ?q X"
          "indexes C (cs_index st) ?q X (cs_index st')"
        have keep: "keeps (ce_lib C) s (cs_store st')" using st'(1) by (simp add: grows_def)
        have "records C (cs_store st') (?e t) n"
          using read_xattrs_keeps [OF s(3) keep] folder FolderNode by (simp add: records_def node_ok_def entry_mtime_def)
        then have "child_ok C (cs_store st') d p (?e t) X"
          using st'(2,3) seen FolderNode n unfolding child_ok_def by simp
        then show "grows C st st' \<and> captured C d p name st (Some (?e t)) st'"
          using grows_trans [OF g st'(1)] st'(4) by (auto simp: captured_def)
      qed
    qed
    then show ?thesis using n FolderNode time mode by (simp add: capture_path_entry_def Let_def split_def)
  next
    case (LinkNode target)
    show ?thesis
      using n LinkNode time mode
      by (simp add: capture_path_entry_def Let_def split_def)
        (rule simple, simp_all, rule records_no_xattrs, simp_all add: node_ok_def entry_mtime_def)
  next
    case FifoNode
    show ?thesis
      using n FifoNode time mode
      by (simp add: capture_path_entry_def Let_def split_def)
        (rule simple, simp_all add: special_entry_def, rule records_no_xattrs, simp_all add: node_ok_def entry_mtime_def)
  next
    case SocketNode
    show ?thesis
      using n SocketNode time mode
      by (simp add: capture_path_entry_def Let_def split_def)
        (rule simple, simp_all add: special_entry_def, rule records_no_xattrs, simp_all add: node_ok_def entry_mtime_def)
  next
    case DeviceNode
    then show ?thesis using n refl seen by (simp add: capture_path_entry_def Let_def split_def captured_def)
  qed
qed

section \<open>A directory\<close>

text \<open>What the builder holds while the walk is in a directory: an entry for every name seen so far.\<close>

definition collects ::
  "capture_env \<Rightarrow> nat \<Rightarrow> fpath \<Rightarrow> path_index \<Rightarrow> bytes set \<Rightarrow> builder \<times> capture_state \<Rightarrow> bool" where
  "collects C d p ix names = (\<lambda>(b, st). \<exists>es F. builder_repr (map_read_tree (ce_lib C)) (cs_store st) b es \<and>
     (\<forall>e\<in>set es. child_ok C (cs_store st) d p e (F e)) \<and> te_name ` set es = {name\<in>names. seen C (p @ [name])} \<and>
     indexes C ix p (tree_of es F) (cs_index st))"

lemma builder_repr_keeps:
  "builder_repr (map_read_tree L) s b es \<Longrightarrow> keeps L s s' \<Longrightarrow> builder_repr (map_read_tree L) s' b es"
  unfolding builder_repr_def using pages_repr_extends keeps_extends by metis

lemma collectsE:
  assumes "collects C d p ix names (b, st)" "keeps (ce_lib C) (cs_store st) s"
  obtains es F where "builder_repr (map_read_tree (ce_lib C)) s b es" "\<forall>e\<in>set es. child_ok C s d p e (F e)"
    "te_name ` set es = {name\<in>names. seen C (p @ [name])}" "indexes C ix p (tree_of es F) (cs_index st)"
  using assms(1) builder_repr_keeps [OF _ assms(2)] child_ok_keeps [OF _ assms(2)] unfolding collects_def prod.case by metis

lemma collects_keeps:
  assumes "collects C d p ix names (b, st)" "keeps (ce_lib C) (cs_store st) (cs_store st')"
    and "indexes C (cs_index st) q no_tree (cs_index st')"
  shows "collects C d p ix names (b, st')"
proof -
  obtain es F where es: "builder_repr (map_read_tree (ce_lib C)) (cs_store st') b es"
      "\<forall>e\<in>set es. child_ok C (cs_store st') d p e (F e)" "te_name ` set es = {name\<in>names. seen C (p @ [name])}"
      "indexes C ix p (tree_of es F) (cs_index st)"
    by (rule collectsE [OF assms(1,2)])
  then have "indexes C ix p (tree_of es F) (cs_index st')" using assms(3) by (simp add: indexes_def)
  then show ?thesis unfolding collects_def prod.case using es(1-3) by blast
qed

lemma collects_skip:
  "collects C d p ix names x \<Longrightarrow> \<not> seen C (p @ [name]) \<Longrightarrow> collects C d p ix (insert name names) x"
proof -
  assume "\<not> seen C (p @ [name])"
  then have "{a\<in>insert name names. seen C (p @ [a])} = {a\<in>names. seen C (p @ [a])}" by auto
  then show "collects C d p ix names x \<Longrightarrow> ?thesis" unfolding collects_def by simp
qed

lemma capture_child_ends:
  assumes view: "view_ok C" and E: "xattrs_faithful (ce_os C)" and enough: "enough C" and walk: "walk_ok C d walk"
    and inv: "capture_inv C st" and p: "\<forall>x\<in>set p. valid_name x" "\<not> hidden C p"
    and name: "name \<in> dir_names C p" "\<forall>x\<in>names. x < name"
    and depth: "\<forall>q. bt_get (ce_fs C) (p @ q) \<noteq> None \<longrightarrow> length q < Suc d"
    and b: "collects C d p ix names (b, st)"
  shows "ends_in (\<lambda>(b', st'). grows C st st' \<and> collects C d p ix (insert name names) (b', st'))
     (capture_child C walk p False (b, st) name)"
proof (cases "skipped C (p @ [name])")
  case True
  then have "hidden C (p @ [name])" by (simp add: hidden_snoc)
  then have "collects C d p ix (insert name names) (b, st)" using collects_skip [OF b] by (simp add: seen_def)
  then show ?thesis using True inv by (simp add: capture_child_def skipped_def Let_def grows_def)
next
  case False
  then have vis: "\<not> hidden C (p @ [name])" using p(2) by (simp add: hidden_snoc)
  obtain n where n: "bt_get (ce_fs C) (p @ [name]) = Some n" using name(1) by (auto simp: dir_names_def)
  have "\<forall>q. bt_get (ce_fs C) (p @ [name] @ q) \<noteq> None \<longrightarrow> length q < d" using depth by fastforce
  note entry = capture_path_entry_ends [OF view E enough walk inv p(1) vis n this]
  have valid: "valid_fpath (p @ [name])" using p(1) view_name [OF view name(1)] by (simp add: valid_fpath_def)
  let ?L = "ce_lib C"
  have "ends_in (\<lambda>(b', st'). grows C st st' \<and> collects C d p ix (insert name names) (b', st'))
     (rbind (capture_path_entry C walk (p @ [name]) st) (\<lambda>(found, st).
          case found of
            None \<Rightarrow> Inr (b, st)
          | Some e \<Rightarrow>
              let st = st\<lparr>cs_index := index_upsert ?L (raw (p @ [name])) (raw p) e (cs_index st)\<rparr> in
              rbind (builder_push ?L (map_put_tree ?L) (cs_store st) b e) (\<lambda>(b, s). Inr (b, st\<lparr>cs_store := s\<rparr>))))"
  proof (rule ends_in_bind2 [OF entry], elim conjE)
    fix found st1 assume g: "grows C st st1" and f: "captured C d p name st found st1"
    show "ends_in (\<lambda>(b', st'). grows C st st' \<and> collects C d p ix (insert name names) (b', st'))
       (case found of None \<Rightarrow> Inr (b, st1)
        | Some e \<Rightarrow> let st = st1\<lparr>cs_index := index_upsert ?L (raw (p @ [name])) (raw p) e (cs_index st1)\<rparr> in
              rbind (builder_push ?L (map_put_tree ?L) (cs_store st) b e) (\<lambda>(b, s). Inr (b, st\<lparr>cs_store := s\<rparr>)))"
    proof (cases found)
      case None
      then show ?thesis using g f collects_skip [OF collects_keeps [OF b grows_keeps [OF g]]] by (auto simp: captured_def)
    next
      case (Some e)
      let ?st = "st1\<lparr>cs_index := index_upsert ?L (raw (p @ [name])) (raw p) e (cs_index st1)\<rparr>"
      obtain Y where e: "te_name e = name" "child_ok C (cs_store st1) d p e Y"
          "indexes C (cs_index st) (p @ [name]) Y (cs_index st1)" using f Some by (auto simp: captured_def)
      obtain es F where es: "builder_repr (map_read_tree ?L) (cs_store st1) b es"
          "\<forall>x\<in>set es. child_ok C (cs_store st1) d p x (F x)" "te_name ` set es = {x\<in>names. seen C (p @ [x])}"
          "indexes C ix p (tree_of es F) (cs_index st)"
        by (rule collectsE [OF b grows_keeps [OF g]])
      have fresh: "name \<notin> te_name ` set es" using es(3) name(2) by blast
      have rows: "indexes C ix p (tree_of (es @ [e]) (F(e := Y))) (cs_index ?st)"
        unfolding indexes_def
      proof (intro allI impI)
        fix Z assume "mirrors ?L ix Z"
        then have "mirrors ?L (cs_index st1) (graft (p @ [name]) Y (graft p (tree_of es F) Z))"
          using es(4) e(3) by (simp add: indexes_def)
        from mirrors_upsert [OF this, of "p @ [name]" e]
        show "mirrors ?L (cs_index ?st) (graft p (tree_of (es @ [e]) (F(e := Y))) Z)"
          using e(1,2) valid graft_upsert [OF e(1) fresh, of Y p F Z] by (simp add: child_ok_def split: if_splits)
      qed
      have map: "map_inv ?L (cs_store st1)" using grows_inv [OF g] by (simp add: capture_inv_def)
      have "\<forall>x\<in>set es. te_name x < te_name e" using es(3) e(1) name(2) by blast
      note push = builder_push_ends [OF map es(1) this]
      have "ends_in (\<lambda>(b', st'). grows C st st' \<and> collects C d p ix (insert name names) (b', st'))
          (rbind (builder_push ?L (map_put_tree ?L) (cs_store st1) b e) (\<lambda>(b, s). Inr (b, ?st\<lparr>cs_store := s\<rparr>)))"
      proof (rule ends_in_bind2 [OF push], elim conjE, unfold ends_in_Inr prod.case)
        fix b' s' assume s': "map_inv ?L s'" "keeps ?L (cs_store st1) s'"
          "builder_repr (map_read_tree ?L) s' b' (es @ [e])"
        have "capture_inv C ?st" using grows_inv [OF g] by simp
        then have "grows C st1 (?st\<lparr>cs_store := s'\<rparr>)"
          using capture_inv_store [OF _ s'(1), of ?st] s'(2) by (simp add: grows_def)
        moreover have "collects C d p ix (insert name names) (b', ?st\<lparr>cs_store := s'\<rparr>)"
        proof -
          have "seen C (p @ [name])" using e by (auto simp: child_ok_def)
          then have names: "te_name ` set (es @ [e]) = {x\<in>insert name names. seen C (p @ [x])}" using es(3) e(1) by auto
          have "F x = (F(e := Y)) x" if "x \<in> set es" for x using that fresh e(1) by auto
          then have ok: "\<forall>x\<in>set (es @ [e]). child_ok C s' d p x ((F(e := Y)) x)"
            using es(2) e(2) child_ok_keeps [OF _ s'(2)] by auto
          have st: "cs_store (?st\<lparr>cs_store := s'\<rparr>) = s'" "cs_index (?st\<lparr>cs_store := s'\<rparr>) = cs_index ?st" by simp_all
          show ?thesis unfolding collects_def prod.case st using names ok s'(3) rows by blast
        qed
        ultimately show "grows C st (?st\<lparr>cs_store := s'\<rparr>) \<and> collects C d p ix (insert name names) (b', ?st\<lparr>cs_store := s'\<rparr>)"
          using grows_trans [OF g] by blast
      qed
      then show ?thesis using Some by (simp add: Let_def)
    qed
  qed
  then show ?thesis using False by (simp add: capture_child_def skipped_def Let_def)
qed

lemma capture_children_end:
  assumes view: "view_ok C" and E: "xattrs_faithful (ce_os C)" and enough: "enough C" and walk: "walk_ok C d walk"
    and p: "\<forall>x\<in>set p. valid_name x" "\<not> hidden C p"
    and depth: "\<forall>q. bt_get (ce_fs C) (p @ q) \<noteq> None \<longrightarrow> length q < Suc d"
  shows "capture_inv C st \<Longrightarrow> sorted_wrt (<) names \<Longrightarrow> set names \<subseteq> dir_names C p \<Longrightarrow> \<forall>x\<in>dn. \<forall>y\<in>set names. x < y \<Longrightarrow>
     collects C d p ix dn (b, st) \<Longrightarrow>
     ends_in (\<lambda>(b', st'). grows C st st' \<and> collects C d p ix (dn \<union> set names) (b', st'))
       (rfold (capture_child C walk p False) (b, st) names)"
proof (induction names arbitrary: b st dn)
  case Nil
  then show ?case by (simp add: grows_def)
next
  case (Cons name names)
  have "name \<in> dir_names C p" "\<forall>x\<in>dn. x < name" using Cons.prems by auto
  note step = capture_child_ends [OF view E enough walk Cons.prems(1) p this depth Cons.prems(5)]
  show ?case
    unfolding rfold.simps
  proof (rule ends_in_bind [OF step], clarify)
    fix b1 :: builder and st1 :: capture_state assume 1: "grows C st st1" "collects C d p ix (insert name dn) (b1, st1)"
    have "\<forall>x\<in>insert name dn. \<forall>y\<in>set names. x < y" using Cons.prems(2,4) by auto
    from Cons.IH [OF grows_inv [OF 1(1)] _ _ this 1(2)] Cons.prems(2,3)
    have "ends_in (\<lambda>(b', st'). grows C st1 st' \<and> collects C d p ix (insert name dn \<union> set names) (b', st'))
       (rfold (capture_child C walk p False) (b1, st1) names)" by simp
    then show "ends_in (\<lambda>(b', st'). grows C st st' \<and> collects C d p ix (dn \<union> set (name # names)) (b', st'))
       (rfold (capture_child C walk p False) (b1, st1) names)"
      by (rule ends_in_mono) (use grows_trans [OF 1(1)] in auto)
  qed
qed

lemma hidden_append: "hidden C p \<Longrightarrow> hidden C (p @ r)"
proof (induction r rule: rev_induct)
  case (snoc name r)
  then show ?case using hidden_snoc [of C "p @ r" name] by simp
qed simp

text \<open>The entries of a directory and the trees below them make a tree.\<close>

lemma forest_Nil: "forest read s d i X \<Longrightarrow> X [] = None"
  by (drule forest_tree_like) (simp add: tree_like_def)

lemma tree_of_forest:
  assumes "paged (map_read_tree (ce_lib C)) s i es" "names_sorted es" "\<forall>e\<in>set es. valid_name (te_name e)"
    and F: "\<forall>e\<in>set es. te_kind e = Directory \<longrightarrow> (\<exists>t. te_target e = Some t \<and> stored_forest C s d t (F e))"
  shows "stored_forest C s (Suc d) i (tree_of es F)"
  unfolding forest.simps
proof (intro exI [of _ es] conjI)
  have sub: "subtree_at (tree_of es F) name = F e" if l: "lookup_entry es name = Some e" "te_kind e = Directory" for name e
  proof -
    obtain t where "stored_forest C s d t (F e)" using F lookup_entry_SomeD [OF l(1)] l(2) by blast
    then have "F e [] = None" by (rule forest_Nil)
    then show ?thesis using l by (auto simp: subtree_at_def tree_of_def fun_eq_iff)
  qed
  show "\<forall>name. tree_of es F [name] = lookup_entry es name" by (auto simp: tree_of_def split: option.split)
  show "\<forall>name. \<not> is_dir (lookup_entry es name) \<longrightarrow> subtree_at (tree_of es F) name = no_tree"
  proof (intro allI impI ext)
    fix name q assume "\<not> is_dir (lookup_entry es name)"
    then show "subtree_at (tree_of es F) name q = no_tree q"
      by (cases "lookup_entry es name") (simp_all add: subtree_at_def tree_of_def no_tree_def is_dir_def)
  qed
  show "\<forall>e\<in>set es. te_kind e = Directory \<longrightarrow>
      (\<exists>t. te_target e = Some t \<and> stored_forest C s d t (subtree_at (tree_of es F) (te_name e)))"
    using F sub lookup_entry_Some_iff [OF assms(2)] by (metis (full_types))
qed (use assms in \<open>simp_all add: tree_of_def\<close>)

lemma tree_of_describes:
  assumes view: "view_ok C" and sorted: "names_sorted es" and ok: "\<forall>e\<in>set es. child_ok C s d p e (F e)"
    and names: "te_name ` set es = {name\<in>dir_names C p. seen C (p @ [name])}"
  shows "describes C s p (tree_of es F)"
  unfolding describes_def
proof (intro allI impI)
  fix q :: fpath assume "q \<noteq> []"
  then obtain name r where q: "q = name # r" by (cases q) auto
  show "if seen C (p @ q) then \<exists>e n. tree_of es F q = Some e \<and> bt_get (ce_fs C) (p @ q) = Some n \<and> records C s e n
     else tree_of es F q = None"
  proof (cases "lookup_entry es name")
    case None
    then have "name \<notin> te_name ` set es" by (simp add: lookup_entry_None_iff)
    then have "\<not> seen C (p @ [name])" using names by (auto simp: seen_def dir_names_def)
    moreover have "seen C (p @ [name])" if s: "seen C (p @ q)"
    proof -
      obtain n where n: "bt_get (ce_fs C) ((p @ [name]) @ r) = Some n" "nd_kind n \<noteq> DeviceNode" using s q by (auto simp: seen_def)
      have "\<not> hidden C (p @ [name])"
        using s q hidden_append [of C "p @ [name]" r] by (auto simp: seen_def)
      then show ?thesis using n view_ancestor [OF view, of "p @ [name]" r] by (cases "r = []") (auto simp: seen_def is_folder_def)
    qed
    ultimately show ?thesis using None q by (auto simp: tree_of_def)
  next
    case (Some e)
    then have e: "e \<in> set es" "te_name e = name" using lookup_entry_SomeD by blast+
    then obtain n where n: "seen C (p @ [name])" "bt_get (ce_fs C) (p @ [name]) = Some n" "records C s e n"
      using ok by (auto simp: child_ok_def)
    show ?thesis
    proof (cases "r = []")
      case True
      then show ?thesis using q Some n by (auto simp: tree_of_def)
    next
      case r: False
      show ?thesis
      proof (cases "te_kind e = Directory")
        case True
        then have "describes C s (p @ [name]) (F e)" using ok e by (auto simp: child_ok_def)
        from describesD [OF this r] show ?thesis using q Some True r by (auto simp: tree_of_def)
      next
        case False
        then have "\<not> is_folder n" using n(3) by (auto simp: records_def node_ok_def is_folder_def split: entry_kind.splits)
        then have "bt_get (ce_fs C) ((p @ [name]) @ r) = None" using view_ancestor [OF view _ r, of "p @ [name]"] n(2) by fastforce
        then show ?thesis using q Some False r by (auto simp: tree_of_def seen_def)
      qed
    qed
  qed
qed

section \<open>The walk\<close>

text \<open>The names of a directory in the page references of its tree.\<close>

definition names_fit :: "capture_env \<Rightarrow> bool" where
  "names_fit C \<longleftrightarrow> (\<forall>p. pages_fit (ce_lib C) (dir_names C p))"

lemma pages_fit_mono: "pages_fit L names \<Longrightarrow> names' \<subseteq> names \<Longrightarrow> pages_fit L names'"
  unfolding pages_fit_def by blast

lemma capture_directory_walks:
  assumes view: "view_ok C" and E: "xattrs_faithful (ce_os C)" and enough: "enough C" and fit: "names_fit C"
    and P: "po_matcher (ce_policy C) = None"
  shows "walk_ok C d (capture_directory d C)"
proof (induction d)
  case 0
  have "\<not> (\<forall>q. bt_get (ce_fs C) (p @ q) \<noteq> None \<longrightarrow> length q < 0)" if "bt_get (ce_fs C) p = Some n" for p n
    using that by (metis append_Nil2 not_less_zero option.distinct(1))
  then show ?case unfolding walk_ok_def by blast
next
  case (Suc d)
  show ?case
    unfolding walk_ok_def
  proof (intro allI impI)
    fix p st assume folder: "\<exists>n. bt_get (ce_fs C) p = Some n \<and> is_folder n" and vis: "\<not> hidden C p"
      and valid: "\<forall>name\<in>set p. valid_name name" and inv: "capture_inv C st"
      and depth: "\<forall>q. bt_get (ce_fs C) (p @ q) \<noteq> None \<longrightarrow> length q < Suc d"
    let ?L = "ce_lib C" and ?names = "sorted_list_of_set (dir_names C p)"
    note fin = finite_dir_names [OF view, of p]
    have "tree_of [] F = no_tree" for F by (auto simp: tree_of_def no_tree_def fun_eq_iff split: list.split)
    then have start: "collects C d p (cs_index st) {} (builder_new, st)"
      by (simp add: collects_def builder_repr_def builder_new_def)
    have loop: "ends_in (\<lambda>(b', st'). grows C st st' \<and> collects C d p (cs_index st) (dir_names C p) (b', st'))
        (rfold (capture_child C (capture_directory d C) p False) (builder_new, st) ?names)"
      using capture_children_end [OF view E enough Suc valid vis depth inv _ _ _ start, of ?names] fin by simp
    have eq: "capture_directory (Suc d) C p st =
       rbind (rfold (capture_child C (capture_directory d C) p False) (builder_new, st) ?names) (\<lambda>(b, st).
       rbind (builder_finish ?L (map_put_tree ?L) (ce_fuel C) (cs_store st) b) (\<lambda>(root, s). Inr (root, st\<lparr>cs_store := s\<rparr>)))"
      using P children_listed [OF view, of p] by (simp add: tracked_children_def)
    show "ends_in (\<lambda>(t, st'). grows C st st' \<and>
        (\<exists>X. stored_forest C (cs_store st') (Suc d) t X \<and> describes C (cs_store st') p X \<and>
           indexes C (cs_index st) p X (cs_index st'))) (capture_directory (Suc d) C p st)"
      unfolding eq
    proof (rule ends_in_bind2 [OF loop], elim conjE)
      fix b st1 assume g: "grows C st st1" and b: "collects C d p (cs_index st) (dir_names C p) (b, st1)"
      obtain es F where es: "builder_repr (map_read_tree ?L) (cs_store st1) b es"
          "\<forall>e\<in>set es. child_ok C (cs_store st1) d p e (F e)" "te_name ` set es = {name\<in>dir_names C p. seen C (p @ [name])}"
          "indexes C (cs_index st) p (tree_of es F) (cs_index st1)"
        using b by (auto simp: collects_def)
      have sub: "te_name ` set es \<subseteq> dir_names C p" using es(3) by blast
      have sorted: "names_sorted es" using es(1) by (simp add: builder_repr_def)
      have map: "map_inv ?L (cs_store st1)" using grows_inv [OF g] by (simp add: capture_inv_def)
      have "length es = card (te_name ` set es)"
        using sorted by (metis names_sorted_def strict_sorted_iff distinct_card length_map list.set_map)
      then have "length es \<le> Suc (ce_fuel C)" using card_mono [OF fin sub] enough unfolding enough_def by (metis le_Suc_eq le_trans)
      note finish = builder_finish_ends [OF map es(1) pages_fit_mono [OF _ sub] this]
      have fits: "pages_fit ?L (dir_names C p)" using fit by (simp add: names_fit_def)
      show "ends_in (\<lambda>(t, st'). grows C st st' \<and>
          (\<exists>X. stored_forest C (cs_store st') (Suc d) t X \<and> describes C (cs_store st') p X \<and>
             indexes C (cs_index st) p X (cs_index st')))
         (rbind (builder_finish ?L (map_put_tree ?L) (ce_fuel C) (cs_store st1) b) (\<lambda>(root, s). Inr (root, st1\<lparr>cs_store := s\<rparr>)))"
      proof (rule ends_in_bind2 [OF finish [OF fits]], elim conjE, unfold ends_in_Inr prod.case)
        fix root s assume s: "map_inv ?L s" "keeps ?L (cs_store st1) s" "paged (map_read_tree ?L) s root es"
        have ok: "\<forall>e\<in>set es. child_ok C s d p e (F e)" using es(2) child_ok_keeps [OF _ s(2)] by blast
        have names: "\<forall>e\<in>set es. valid_name (te_name e)" using sub view_name [OF view] by blast
        have f: "stored_forest C s (Suc d) root (tree_of es F)"
          by (rule tree_of_forest [OF s(3) sorted names]) (use ok child_ok_tree in blast)
        have de: "describes C s p (tree_of es F)"
          by (rule tree_of_describes [OF view sorted ok es(3)])
        have "grows C st1 (st1\<lparr>cs_store := s\<rparr>)" by (rule capture_inv_store [OF grows_inv [OF g] s(1,2)])
        then show "grows C st (st1\<lparr>cs_store := s\<rparr>) \<and> (\<exists>X. stored_forest C (cs_store (st1\<lparr>cs_store := s\<rparr>)) (Suc d) root X \<and>
            describes C (cs_store (st1\<lparr>cs_store := s\<rparr>)) p X \<and> indexes C (cs_index st) p X (cs_index (st1\<lparr>cs_store := s\<rparr>)))"
          using grows_trans [OF g] f de es(4) by auto
      qed
    qed
  qed
qed

lemma walk_root_ends:
  assumes view: "view_ok C" and E: "xattrs_faithful (ce_os C)" and enough: "enough C" and fit: "names_fit C"
    and P: "po_matcher (ce_policy C) = None" and inv: "capture_inv C st"
  shows "ends_in (\<lambda>(t, st'). grows C (st\<lparr>cs_index := index_reset ix\<rparr>) st' \<and>
      (\<exists>X. stored_forest C (cs_store st') (ce_fuel C) t X \<and> describes C (cs_store st') [] X \<and>
         mirrors (ce_lib C) (cs_index st') X))
     (capture_directory (ce_fuel C) C [] (st\<lparr>cs_index := index_reset ix\<rparr>))"
proof -
  let ?st = "st\<lparr>cs_index := index_reset ix\<rparr>"
  obtain n where n: "bt_get (ce_fs C) [] = Some n" "is_folder n" using view by (auto simp: view_ok_def)
  have "\<forall>q. bt_get (ce_fs C) ([] @ q) \<noteq> None \<longrightarrow> length q < ce_fuel C" using enough by (auto simp: enough_def)
  note w = walk_okD [OF capture_directory_walks [OF view E enough fit P] n hidden_Nil _ _ this]
  have walk: "ends_in (\<lambda>(t, st'). grows C ?st st' \<and> (\<exists>X. stored_forest C (cs_store st') (ce_fuel C) t X \<and>
      describes C (cs_store st') [] X \<and> indexes C (index_reset ix) [] X (cs_index st'))) (capture_directory (ce_fuel C) C [] ?st)"
    using w [of ?st] inv by simp
  show ?thesis
  proof (rule ends_in_mono [OF walk], unfold split_paired_all prod.case, elim conjE exE)
    fix t st' X assume st': "grows C ?st st'" "stored_forest C (cs_store st') (ce_fuel C) t X"
      "describes C (cs_store st') [] X" "indexes C (index_reset ix) [] X (cs_index st')"
    have "graft [] X no_tree = X"
      using forest_Nil [OF st'(2)] by (auto simp: graft_def no_tree_def fun_eq_iff split: option.splits)
    then have "mirrors (ce_lib C) (cs_index st') X" using st'(4) mirrors_reset [of "ce_lib C" ix] unfolding indexes_def by metis
    then have "\<exists>X. stored_forest C (cs_store st') (ce_fuel C) t X \<and> describes C (cs_store st') [] X \<and>
        mirrors (ce_lib C) (cs_index st') X" using st' by blast
    with st'(1) show "grows C ?st st' \<and> (\<exists>X. stored_forest C (cs_store st') (ce_fuel C) t X \<and>
        describes C (cs_store st') [] X \<and> mirrors (ce_lib C) (cs_index st') X)" ..
  qed
qed

text \<open>The index after a capture: it names the root of the tree, and its rows are the entries of the tree.\<close>

definition indexed_tree :: "capture_env \<Rightarrow> string \<Rightarrow> object_id \<Rightarrow> tree_map \<Rightarrow> capture_state \<Rightarrow> bool" where
  "indexed_tree C generation root X st \<longleftrightarrow> mirrors (ce_lib C) (cs_index st) X \<and>
     it_state (px_tables (cs_index st)) = Some (root, generation) \<and> px_saved (cs_index st) = None"

lemma commit_indexed:
  assumes "px_saved (cs_index st) \<noteq> None" "mirrors (ce_lib C) (cs_index st) X"
  shows "\<exists>ix. index_commit (index_set_root root generation (cs_index st)) = Inr ix \<and>
     indexed_tree C generation root X (st\<lparr>cs_index := ix\<rparr>)"
proof -
  let ?ix = "(index_set_root root generation (cs_index st))\<lparr>px_saved := None\<rparr>"
  have "index_commit (index_set_root root generation (cs_index st)) = Inr ?ix" using assms(1) by (simp add: index_commit_def)
  moreover have "indexed_tree C generation root X (st\<lparr>cs_index := ?ix\<rparr>)"
    using assms(2) mirrors_entries [of ?ix "cs_index st" "ce_lib C" X] by (simp add: indexed_tree_def index_set_root_def on_tables_def)
  ultimately show ?thesis by blast
qed

lemma capture_root_ends:
  assumes view: "view_ok C" and E: "xattrs_faithful (ce_os C)" and enough: "enough C" and fit: "names_fit C"
    and P: "po_matcher (ce_policy C) = None" and inv: "capture_inv C st" and ix: "px_saved (cs_index st) = None"
  shows "ends_in (\<lambda>(i, st'). capture_inv C st' \<and> keeps (ce_lib C) (cs_store st) (cs_store st') \<and>
     (\<exists>X. stored_forest C (cs_store st') (ce_fuel C) i X \<and> describes C (cs_store st') [] X \<and>
        indexed_tree C generation i X st')) (capture_root C generation st)"
proof -
  let ?ix = "(cs_index st)\<lparr>px_saved := Some (px_tables (cs_index st))\<rparr>"
  have start: "index_begin (cs_index st) = Inr ?ix" using ix by (simp add: index_begin_def)
  show ?thesis
    unfolding capture_root_def start rbind.simps
  proof (rule ends_in_bind2 [OF walk_root_ends [OF view E enough fit P inv]], elim conjE exE)
    fix t st' X assume st': "grows C (st\<lparr>cs_index := index_reset ?ix\<rparr>) st'" "stored_forest C (cs_store st') (ce_fuel C) t X"
      "describes C (cs_store st') [] X" "mirrors (ce_lib C) (cs_index st') X"
    have saved: "px_saved (cs_index st') \<noteq> None" using st'(1) by (simp add: grows_def index_reset_def on_tables_def)
    obtain ix where "index_commit (index_set_root t generation (cs_index st')) = Inr ix"
        "indexed_tree C generation t X (st'\<lparr>cs_index := ix\<rparr>)" using commit_indexed [OF saved st'(4)] by blast
    then show "ends_in (\<lambda>(i, st'). capture_inv C st' \<and> keeps (ce_lib C) (cs_store st) (cs_store st') \<and>
        (\<exists>X. stored_forest C (cs_store st') (ce_fuel C) i X \<and> describes C (cs_store st') [] X \<and> indexed_tree C generation i X st'))
       (rbind (index_commit (index_set_root t generation (cs_index st'))) (\<lambda>ix. Inr (t, st'\<lparr>cs_index := ix\<rparr>)))"
      using st' by (auto simp: grows_def)
  qed
qed

end
