(* ===== verification/Capture_Rewind.thy ===== *)
theory Capture_Rewind
  imports Capture_Walk Rewind_Steps File_Theorems
begin

text \<open>
  Capture and rewind together: a workspace that was captured, changed and captured again is brought
  back by a rewind to the first snapshot.
\<close>

section \<open>What is hidden from a capture is left alone by a rewind\<close>

lemma excluded_untouched:
  assumes "excludes_bytes P (raw q)" "po_matcher P = None" "set (po_excluded P) \<subseteq> set (po_excluded Q)" "q \<noteq> []"
  shows "q \<in> untouched Q composed"
proof -
  have "list_ex (\<lambda>rule. covers_path rule (raw q)) (po_excluded P)"
    using assms(1,2) by (auto simp: excludes_bytes_def split: if_splits)
  then have "list_ex (\<lambda>rule. covers_path rule (raw q)) (po_excluded Q)" using assms(3) by (auto simp: list_ex_iff)
  then show ?thesis using assms(4) by (simp add: untouched_def may_touch_def excludes_bytes_def)
qed

lemma control_untouched: "q \<noteq> [] \<Longrightarrow> is_identity_path (raw q) \<Longrightarrow> q \<in> untouched Q composed"
  by (simp add: untouched_def may_touch_def)

lemma skipped_untouched:
  assumes "skipped C q" "ce_store_root C = None" "po_matcher (ce_policy C) = None"
    and "set (po_excluded (ce_policy C)) \<subseteq> set (po_excluded Q)" "q \<noteq> []"
  shows "q \<in> untouched Q composed"
proof (cases "excludes_bytes (ce_policy C) (raw q)")
  case True
  then show ?thesis using excluded_untouched assms(3-5) by blast
next
  case False
  then have "is_identity_path (raw q)" using assms(1,2) by (auto simp: skipped_def skips_child_def is_identity_path_def raw_def)
  then show ?thesis using control_untouched assms(5) by blast
qed

lemma hidden_untouched:
  assumes "hidden C q" "ce_store_root C = None" "po_matcher (ce_policy C) = None" "po_matcher Q = None"
    and "set (po_excluded (ce_policy C)) \<subseteq> set (po_excluded Q)"
  shows "q \<in> untouched Q composed"
  using assms(1)
proof (induction q rule: rev_induct)
  case (snoc name q)
  then show ?case
    using untouched_closed [OF assms(4)] skipped_untouched [OF _ assms(2,3,5)] by (auto simp: hidden_snoc)
qed simp

section \<open>What a capture gives to a rewind\<close>

definition no_devices :: "fpath set \<Rightarrow> fs \<Rightarrow> bool" where
  "no_devices U fs \<longleftrightarrow> (\<forall>q n. q \<notin> U \<longrightarrow> bt_get fs q = Some n \<longrightarrow> nd_kind n \<noteq> DeviceNode)"

lemma described:
  assumes "describes C s [] X" "\<forall>q. hidden C q \<longrightarrow> q \<in> U" "no_devices U (ce_fs C)" "q \<noteq> []" "q \<notin> U"
  shows "bt_get (ce_fs C) q = None \<Longrightarrow> X q = None"
    and "bt_get (ce_fs C) q = Some n \<Longrightarrow> \<exists>e. X q = Some e \<and> records C s e n"
proof -
  have seen: "seen C q \<longleftrightarrow> bt_get (ce_fs C) q \<noteq> None" using assms(2,3,5) by (auto simp: seen_def no_devices_def)
  show "bt_get (ce_fs C) q = None \<Longrightarrow> X q = None" using describesD(2) [OF assms(1,4)] seen by auto
  show "bt_get (ce_fs C) q = Some n \<Longrightarrow> \<exists>e. X q = Some e \<and> records C s e n"
    using describesD(1) [OF assms(1,4)] seen by auto
qed

lemma describes_records: "describes C s [] X \<Longrightarrow> X q = Some e \<Longrightarrow> q \<noteq> [] \<Longrightarrow> \<exists>n. bt_get (ce_fs C) q = Some n \<and> records C s e n"
  using describesD [of C s "[]" X q] by (cases "seen C q") auto

lemma describes_holds:
  assumes "describes C s [] X" "\<forall>q. hidden C q \<longrightarrow> q \<in> U" "no_devices U (ce_fs C)"
  shows "holds_tree (ce_lib C) U X (bt_get (ce_fs C))"
  unfolding holds_tree_def
proof (intro allI impI)
  fix q assume q: "q \<noteq> []" "q \<notin> U"
  show "case X q of None \<Rightarrow> bt_get (ce_fs C) q = None | Some e \<Rightarrow> \<exists>n. bt_get (ce_fs C) q = Some n \<and> node_ok (ce_lib C) e n"
    using described [OF assms q] by (cases "bt_get (ce_fs C) q") (auto simp: records_def)
qed

lemma records_kinds:
  assumes "records C s e n"
  shows "te_kind e = Directory \<longleftrightarrow> is_folder n" "te_kind e = Symlink \<longleftrightarrow> is_link n"
    "te_kind e = Fifo \<longleftrightarrow> nd_kind n = FifoNode" "te_kind e = SocketMarker \<longleftrightarrow> nd_kind n = SocketNode"
  using assms by (auto simp: records_def node_ok_def is_folder_def is_link_def split: entry_kind.splits node_kind.splits)

section \<open>When a workspace can be brought back\<close>

text \<open>
  \<open>F\<close> is what the workspace holds, \<open>G\<close> what it is to hold again, and \<open>U\<close> the paths that the rewind
  leaves alone. A FIFO cannot be created again. A directory that has to go holds nothing that is
  left alone, its entries can be removed, and it is not a link on the other side.
\<close>

definition revertible :: "fpath set \<Rightarrow> (fpath \<rightharpoonup> node) \<Rightarrow> (fpath \<rightharpoonup> node) \<Rightarrow> bool" where
  "revertible U F G \<longleftrightarrow> proper_fs F \<and>
     (\<forall>q n. q \<notin> U \<longrightarrow> G q = Some n \<longrightarrow> nd_kind n \<noteq> FifoNode \<and>
        (is_folder n \<longrightarrow> nd_mode n AND NOT PERMISSIONS = S_IFDIR) \<and>
        (\<forall>c. nd_kind n = RegularFile c \<longrightarrow> nd_mode n AND NOT PERMISSIONS = S_IFREG)) \<and>
     (\<forall>q n. q \<notin> U \<longrightarrow> F q = Some n \<longrightarrow> is_folder n \<longrightarrow> \<not> (\<exists>m. G q = Some m \<and> is_folder m) \<longrightarrow>
        (\<forall>u\<in>U. below q u \<longrightarrow> F u = None) \<and> nd_mode n AND OWNER_WRITE \<noteq> 0) \<and>
     (\<forall>q n. q \<notin> U \<longrightarrow> F q = Some n \<longrightarrow> is_link n \<longrightarrow> (\<forall>r. below q r \<longrightarrow> G r = None)) \<and>
     (\<forall>q n. q \<notin> U \<longrightarrow> G q = Some n \<longrightarrow> is_link n \<longrightarrow> (\<forall>r. below q r \<longrightarrow> F r = None))"

definition attributes_fit :: "os \<Rightarrow> (fpath \<rightharpoonup> node) \<Rightarrow> (fpath \<rightharpoonup> node) \<Rightarrow> bool" where
  "attributes_fit E F G \<longleftrightarrow>
     (\<forall>q n. F q = Some n \<longrightarrow> xattrs_fit (os_json_xattrs E) (Some (listed_xattrs n))) \<and>
     (\<forall>q n m. G q = Some n \<longrightarrow> nd_xattrs m = set_xattrs E (recorded_xattrs n) [] \<longrightarrow>
        xattrs_fit (os_json_xattrs E) (Some (listed_xattrs m)))"

text \<open>What comes back: content, kind, link target, and outside links mode and time.\<close>

definition same_node :: "node \<Rightarrow> node \<Rightarrow> bool" where
  "same_node n m \<longleftrightarrow> nd_kind m = nd_kind n \<and>
     (is_link n \<or> nd_kind n = SocketNode \<or> nd_mode m = nd_mode n \<and> nd_mtime m = nd_mtime n)"

definition same_outside :: "fpath set \<Rightarrow> (fpath \<rightharpoonup> node) \<Rightarrow> (fpath \<rightharpoonup> node) \<Rightarrow> bool" where
  "same_outside U G H \<longleftrightarrow> (\<forall>q. q \<noteq> [] \<longrightarrow> q \<notin> U \<longrightarrow>
     (case G q of
        None \<Rightarrow> H q = None
      | Some n \<Rightarrow> (nd_kind n = SocketNode \<and> H q = None) \<or> (\<exists>m. H q = Some m \<and> same_node n m)))"

lemma same_node_records:
  assumes "collision_free (ce_lib C)" "json_faithful (ce_lib C)" "records C s e n" "node_ok (ce_lib C) e m"
  shows "same_node n m"
proof -
  have n: "node_ok (ce_lib C) e n" "te_mode e = nd_mode n" "entry_mtime e = nd_mtime n"
    using assms(3) unfolding records_def by blast+
  show ?thesis
  proof (cases "te_kind e")
    case File
    obtain c where c: "nd_kind n = RegularFile c" "te_target e = Some (blob_id (ce_lib C) c)"
      using n(1) File by (auto simp: node_ok_def)
    obtain c' where m: "nd_kind m = RegularFile c'" "te_target e = Some (blob_id (ce_lib C) c')" "nd_mode m = te_mode e"
        "nd_mtime m = entry_mtime e"
      using assms(4) File by (auto simp: node_ok_def)
    have "blob_id (ce_lib C) c' = blob_id (ce_lib C) c" using c(2) m(2) by simp
    then have "c' = c" by (rule blob_id_inj [OF assms(1,2)])
    then show ?thesis using n(2,3) c m by (simp add: same_node_def)
  qed (use assms(4) n in \<open>auto simp: node_ok_def same_node_def is_folder_def is_link_def\<close>)
qed

lemma restored_same:
  assumes "collision_free (ce_lib C)" "json_faithful (ce_lib C)"
    and d: "describes C s [] Y" "\<forall>q. hidden C q \<longrightarrow> q \<in> U" "no_devices U (ce_fs C)"
    and "restored_tree (ce_lib C) U Y H"
  shows "same_outside U (bt_get (ce_fs C)) H"
  unfolding same_outside_def
proof (intro allI impI)
  fix q assume q: "q \<noteq> []" "q \<notin> U"
  have r: "case Y q of None \<Rightarrow> H q = None
      | Some e \<Rightarrow> (te_kind e = SocketMarker \<and> H q = None) \<or> (\<exists>n. H q = Some n \<and> node_ok (ce_lib C) e n)"
    using assms(6) q by (simp add: restored_tree_def)
  show "case bt_get (ce_fs C) q of None \<Rightarrow> H q = None
      | Some n \<Rightarrow> (nd_kind n = SocketNode \<and> H q = None) \<or> (\<exists>m. H q = Some m \<and> same_node n m)"
  proof (cases "bt_get (ce_fs C) q")
    case None
    then show ?thesis using described(1) [OF d q] r by simp
  next
    case (Some n)
    then obtain e where "Y q = Some e" "records C s e n" using described(2) [OF d q] by blast
    then show ?thesis using r Some same_node_records [OF assms(1,2)] records_kinds(4) [of C s e n] by auto
  qed
qed

lemma records_restorable:
  assumes "records C s e n" "nd_kind n \<noteq> FifoNode" "is_folder n \<longrightarrow> nd_mode n AND NOT PERMISSIONS = S_IFDIR"
    and "\<forall>c. nd_kind n = RegularFile c \<longrightarrow> nd_mode n AND NOT PERMISSIONS = S_IFREG"
  shows "restorable (ce_os C) (ce_lib C) s e"
proof -
  have n: "node_ok (ce_lib C) e n" "te_mode e = nd_mode n" "\<exists>xs. read_xattrs (ce_os C) (ce_lib C) s (te_xattrs e) = Inr xs"
      "\<forall>c. nd_kind n = RegularFile c \<longrightarrow> stored_content (ce_lib C) s c"
    using assms(1) unfolding records_def by blast+
  show ?thesis
  proof (cases "te_kind e")
    case File
    obtain c where c: "nd_kind n = RegularFile c" "te_target e = Some (blob_id (ce_lib C) c)" "length c = unat (te_size e)"
      using n(1) File by (auto simp: node_ok_def)
    then have "has_content (ce_lib C) s c" using n(4) by (simp add: stored_content_def)
    then show ?thesis using n(2,3) c assms(4) File by (auto simp: restorable_def)
  qed (use assms(2,3) n in \<open>auto simp: restorable_def node_ok_def\<close>)
qed

lemma captured_ready:
  assumes env: "ce_lib C1 = L" "ce_os C1 = E" "ce_lib C2 = L" "ce_os C2 = E" and inv: "map_inv L s"
    and Y: "describes C1 s [] Y" "\<forall>q. hidden C1 q \<longrightarrow> q \<in> U" "no_devices U (ce_fs C1)" "tree_like Y"
    and X: "describes C2 s [] X" "\<forall>q. hidden C2 q \<longrightarrow> q \<in> U" "no_devices U (ce_fs C2)" "tree_like X"
    and U: "[] \<notin> U" "\<forall>q name. q \<in> U \<longrightarrow> q @ [name] \<in> U"
    and rev: "revertible U (bt_get (ce_fs C2)) (bt_get (ce_fs C1))"
  shows "rewind_ready E L s U X Y (bt_get (ce_fs C2))" and "links_apart U X Y"
proof -
  let ?F = "bt_get (ce_fs C2)" and ?G = "bt_get (ce_fs C1)"
  have proper: "proper_fs ?F" using rev by (simp add: revertible_def)
  have gone: "Y r = None" if "?G r = None" "r \<noteq> []" for r using describesD(2) [OF Y(1) that(2)] that(1) by (simp add: seen_def)
  have gone': "X r = None" if "?F r = None" "r \<noteq> []" for r using describesD(2) [OF X(1) that(2)] that(1) by (simp add: seen_def)
  have ne: "r \<noteq> []" if "below q r" for q r :: fpath using that by auto
  have each: "(\<forall>e. Y q = Some e \<longrightarrow> restorable E L s e) \<and>
        (\<not> folder_at Y q \<longrightarrow>
           (\<forall>u\<in>U. below q u \<longrightarrow> ?F u = None) \<and>
           (\<forall>e. X q = Some e \<longrightarrow> te_kind e = Directory \<longrightarrow> te_mode e AND OWNER_WRITE \<noteq> 0) \<and>
           (\<forall>e r. Y q = Some e \<longrightarrow> te_kind e = Symlink \<longrightarrow> below q r \<longrightarrow> X r = None))"
    if q: "q \<noteq> []" "q \<notin> U" for q
  proof (intro conjI allI impI ballI)
    fix e assume "Y q = Some e"
    then obtain n where n: "?G q = Some n" "records C1 s e n" using describes_records [OF Y(1) _ q(1)] by blast
    have "nd_kind n \<noteq> FifoNode \<and> (is_folder n \<longrightarrow> nd_mode n AND NOT PERMISSIONS = S_IFDIR) \<and>
        (\<forall>c. nd_kind n = RegularFile c \<longrightarrow> nd_mode n AND NOT PERMISSIONS = S_IFREG)"
      using rev q(2) n(1) unfolding revertible_def by blast
    then show "restorable E L s e" using records_restorable [OF n(2)] env(1,2) by blast
  next
    assume "\<not> folder_at Y q"
    then have not: "\<not> (\<exists>m. ?G q = Some m \<and> is_folder m)"
      using described(2) [OF Y(1-3) q] records_kinds(1) by (fastforce simp: folder_at_def)
    have away: "(\<forall>u\<in>U. below q u \<longrightarrow> ?F u = None) \<and> nd_mode n AND OWNER_WRITE \<noteq> 0" if "?F q = Some n" "is_folder n" for n
      using rev q(2) that not unfolding revertible_def by blast
    show "?F u = None" if "u \<in> U" "below q u" for u
      using proper_below [OF proper _ that(2)] away that by blast
    show "te_mode e AND OWNER_WRITE \<noteq> 0" if e: "X q = Some e" "te_kind e = Directory" for e
    proof -
      obtain n where n: "?F q = Some n" "records C2 s e n" using describes_records [OF X(1) e(1) q(1)] by blast
      have "is_folder n" using records_kinds(1) [OF n(2)] e(2) by simp
      moreover have "te_mode e = nd_mode n" using n(2) unfolding records_def by blast
      ultimately show ?thesis using away [OF n(1)] by simp
    qed
    show "X r = None" if e: "Y q = Some e" "te_kind e = Symlink" "below q r" for e r
    proof -
      obtain n where n: "?G q = Some n" "records C1 s e n" using describes_records [OF Y(1) e(1) q(1)] by blast
      then have "is_link n" using e(2) records_kinds(2) by blast
      then have "?F r = None" using rev q(2) n(1) e(3) unfolding revertible_def by blast
      then show ?thesis using gone' ne [OF e(3)] by blast
    qed
  qed
  have json: "json_faithful L" using inv by (simp add: map_inv_def)
  have holds: "holds_tree L U X ?F" using describes_holds [OF X(1-3)] env(3) by simp
  have all: "\<forall>q\<in>changed_paths X Y - U. (\<forall>e. Y q = Some e \<longrightarrow> restorable E L s e) \<and>
        (\<not> folder_at Y q \<longrightarrow>
           (\<forall>u\<in>U. below q u \<longrightarrow> ?F u = None) \<and>
           (\<forall>e. X q = Some e \<longrightarrow> te_kind e = Directory \<longrightarrow> te_mode e AND OWNER_WRITE \<noteq> 0) \<and>
           (\<forall>e r. Y q = Some e \<longrightarrow> te_kind e = Symlink \<longrightarrow> below q r \<longrightarrow> X r = None))"
    by (rule ballI, rule each) (auto simp: changed_paths_def)
  show "rewind_ready E L s U X Y ?F"
    unfolding rewind_ready_def by (intro conjI X(4) Y(4) json proper holds U all)
  show "links_apart U X Y"
    unfolding links_apart_def
  proof (intro ballI allI impI)
    fix q e r assume q: "q \<in> changed_paths X Y - U" and e: "X q = Some e" "te_kind e = Symlink" "below q r"
    have "q \<noteq> []" using q by (auto simp: changed_paths_def)
    then obtain n where n: "?F q = Some n" "records C2 s e n" using describes_records [OF X(1) e(1)] by blast
    then have "is_link n" using e(2) records_kinds(2) by blast
    then have "?G r = None" using rev q n(1) e(3) unfolding revertible_def by blast
    then show "Y r = None" using gone ne [OF e(3)] by blast
  qed
qed

lemma file_lengths: "\<exists>k. \<forall>q n c. bt_get fs q = Some n \<longrightarrow> nd_kind n = RegularFile c \<longrightarrow> length c < (k::nat)"
proof -
  let ?len = "\<lambda>n. case nd_kind n of RegularFile c \<Rightarrow> length c | _ \<Rightarrow> 0"
  have "length c \<le> sum_list (map (?len \<circ> snd) fs)" if n: "bt_get fs q = Some n" "nd_kind n = RegularFile c" for q n c
  proof -
    have "?len n \<in> set (map (?len \<circ> snd) fs)" using map_of_SomeD [OF n(1)] by (force simp: image_iff)
    then show ?thesis using member_le_sum_list [of "?len n"] n(2) by fastforce
  qed
  then show ?thesis by (meson le_imp_less_Suc)
qed

lemma captured_checkable:
  assumes env: "ce_lib C1 = L" "ce_os C1 = E" "ce_lib C2 = L" "ce_os C2 = E" and inv: "map_inv L s"
    and Y: "describes C1 s [] Y" and X: "describes C2 s [] X"
    and fit: "attributes_fit E (bt_get (ce_fs C2)) (bt_get (ce_fs C1))"
  shows "\<exists>k. rewind_checkable k E L s U X Y (bt_get (ce_fs C2))"
proof -
  let ?F = "bt_get (ce_fs C2)" and ?G = "bt_get (ce_fs C1)"
  obtain k1 where k1: "\<forall>q n c. ?F q = Some n \<longrightarrow> nd_kind n = RegularFile c \<longrightarrow> length c < k1" using file_lengths [of "ce_fs C2"] by blast
  obtain k2 where k2: "\<forall>q n c. ?G q = Some n \<longrightarrow> nd_kind n = RegularFile c \<longrightarrow> length c < k2" using file_lengths [of "ce_fs C1"] by blast
  let ?k = "max k1 k2"
  have cf: "collision_free L" "json_faithful L" using inv by (simp_all add: map_inv_def)
  have "rewind_checkable ?k E L s U X Y ?F"
    unfolding rewind_checkable_def
  proof (intro ballI conjI allI impI)
    fix q e n assume q: "q \<in> changed_paths X Y - U" and e: "X q = Some e" and n: "?F q = Some n"
    have "q \<noteq> []" using q by (auto simp: changed_paths_def)
    then have r: "records C2 s e n" using describes_records [OF X e] n by auto
    have "length c < ?k" if "nd_kind n = RegularFile c" for c using k1 n that by fastforce
    then show "checkable ?k E L s e n"
      using r fit n env(3,4) unfolding checkable_def records_def stored_content_def attributes_fit_def by blast
  next
    fix q e n assume q: "q \<in> changed_paths X Y - U" and e: "Y q = Some e" and ok: "node_ok L e n"
      and xa: "file_xattrs E L s e n"
    have "q \<noteq> []" using q by (auto simp: changed_paths_def)
    from describes_records [OF Y e this] obtain m where m: "?G q = Some m" "records C1 s e m" by blast
    have same: "same_node m n" using same_node_records [OF _ _ m(2)] cf ok env(1) by simp
    obtain xs where xs: "read_xattrs E L s (te_xattrs e) = Inr xs"
        "te_kind e = File \<or> te_kind e = Directory \<longrightarrow> xs = recorded_xattrs m"
      using m(2) env(1,2) unfolding records_def by blast
    have "length c < ?k \<and> length (json_blob L (blob_of L c)) \<le> MAX_OBJECT_LEN \<and>
        xattrs_fit (os_json_xattrs E) (Some (listed_xattrs n))" if c: "nd_kind n = RegularFile c" for c
    proof -
      have cm: "nd_kind m = RegularFile c" using same c by (simp add: same_node_def)
      then have "length c < ?k" using k2 m(1) by fastforce
      moreover have "length (json_blob L (blob_of L c)) \<le> MAX_OBJECT_LEN"
        using m(2) cm env(1) unfolding records_def stored_content_def by blast
      moreover have "nd_xattrs n = set_xattrs E (recorded_xattrs m) []"
      proof -
        have "te_kind e = File" using ok c by (auto simp: node_ok_def is_folder_def split: entry_kind.splits)
        then show ?thesis using xa xs by (auto simp: file_xattrs_def)
      qed
      ultimately show ?thesis using fit m(1) unfolding attributes_fit_def by blast
    qed
    then show "checkable ?k E L s e n" using xs(1) unfolding checkable_def by blast
  qed
  then show ?thesis by blast
qed

end
