(* ===== verification/Capture_Sample.thy ===== *)
theory Capture_Sample
  imports Capture_Rewind
begin

text \<open>
  A closed example of a capture: a workspace with one file \<open>a\<close> of one byte, over the concrete library of
  theory \<^verbatim>\<open>Object_Map\<close> with short page references and entries.
\<close>

definition undo_lib :: lib where
  "undo_lib = sample_lib\<lparr>json_entry := \<lambda>_. [], json_page := \<lambda>_. []\<rparr>"

definition c_xattrs :: "xattrs codec" where
  "c_xattrs = c_iso xs_entries (\<lambda>es. \<lparr>xs_entries = es\<rparr>)
     (c_list (c_iso (\<lambda>x. (xa_name x, xa_value x)) (\<lambda>(n, v). \<lparr>xa_name = n, xa_value = v\<rparr>) (c_pair c_bytes c_bytes)))"

definition undo_os :: os where
  "undo_os = \<lparr>os_now = (9, 0), os_umask = 0x12, os_refuses = (\<lambda>_. False), os_json_xattrs = enc c_xattrs,
     os_parse_xattrs = (\<lambda>b. map_option fst (dec c_xattrs b))\<rparr>"

definition root_node :: node where
  "root_node = \<lparr>nd_kind = FolderNode, nd_mode = 0x41ED, nd_mtime = (3, 0), nd_xattrs = []\<rparr>"

definition byte_node :: "byte \<Rightarrow> node" where
  "byte_node b = \<lparr>nd_kind = RegularFile [b], nd_mode = 0x81A4, nd_mtime = (5, 0), nd_xattrs = []\<rparr>"

definition undo_env :: "byte \<Rightarrow> capture_env" where
  "undo_env b = \<lparr>ce_os = undo_os, ce_lib = undo_lib, ce_fuel = 5, ce_policy = default_policy, ce_composed = False,
     ce_store_root = None,
     ce_view = \<lparr>vw_fs = [([], root_node), ([''a''], byte_node b)], vw_names = (\<lambda>p. if p = [] then [''a''] else []),
       vw_meta = (\<lambda>_. \<lparr>im_dev = 1, im_ino = 2, im_nlink = 1, im_ctime = (0, 0)\<rparr>), vw_now = 0\<rparr>\<rparr>"

definition fresh :: "object_map \<Rightarrow> capture_state" where
  "fresh s = \<lparr>cs_store = s, cs_rows = [], cs_index = index_open\<rparr>"

lemma undo_env_simps [simp]:
  "ce_os (undo_env b) = undo_os" "ce_lib (undo_env b) = undo_lib" "ce_fuel (undo_env b) = 5"
  "ce_policy (undo_env b) = default_policy" "ce_composed (undo_env b) = False" "ce_store_root (undo_env b) = None"
  "vw_names (ce_view (undo_env b)) p = (if p = [] then [''a''] else [])"
  by (simp_all add: undo_env_def)

lemma undo_nodes: "bt_get (ce_fs (undo_env b)) q = (if q = [] then Some root_node else if q = [''a''] then Some (byte_node b) else None)"
  by (simp add: undo_env_def)

lemma undo_object_id [simp]: "object_id undo_lib = object_id sample_lib"
  by (simp add: object_id_def undo_lib_def fun_eq_iff)

lemma undo_json [simp]: "json_blob undo_lib = json_blob sample_lib" "json_tree undo_lib = json_tree sample_lib"
  "json_entry undo_lib e = []" "json_page undo_lib p = []" "json_snapshot undo_lib = json_snapshot sample_lib"
  "parse_snapshot undo_lib = parse_snapshot sample_lib"
  by (simp_all add: undo_lib_def)

lemma undo_laws: "collision_free undo_lib" "json_faithful undo_lib"
  using sample_lib_collision_free sample_lib_json
  by (simp_all add: collision_free_def json_faithful_def undo_lib_def object_id_def)

lemma undo_faithful: "xattrs_faithful undo_os"
proof -
  have "codec_ok c_xattrs"
    unfolding c_xattrs_def by (intro codec_iso codec_list codec_pair codec_bytes) auto
  then show ?thesis by (simp add: xattrs_faithful_def undo_os_def codec_round_trip)
qed

lemma undo_fits: "names_fit (undo_env b)"
  by (simp add: names_fit_def pages_fit_def)

lemma undo_dir_names: "dir_names (undo_env b) p = (if p = [] then {''a''} else {})"
  by (auto simp: dir_names_def undo_nodes append_eq_Cons_conv)

lemma undo_view: "view_ok (undo_env b)"
  unfolding view_ok_def undo_dir_names
  by (auto simp: undo_nodes overlay_folder_def is_folder_def root_node_def byte_node_def valid_name_def append_eq_Cons_conv
      split: if_splits)

lemma undo_enough: "enough (undo_env b)"
  unfolding enough_def undo_dir_names
  by (auto simp: undo_nodes root_node_def byte_node_def split: if_splits)

lemma fresh_inv: "map_inv undo_lib s \<Longrightarrow> capture_inv (undo_env b) (fresh s)"
  by (simp add: capture_inv_def fresh_def)

section \<open>The capture succeeds\<close>

lemma undo_read:
  assumes "map_inv undo_lib s"
  obtains r s' where "read_file (undo_env b) [''a''] (byte_node b) [b] s = Inr (r, s')" "fr_xattrs r = None"
    "fr_blob r = blob_id undo_lib [b]" "fr_stat r = stat_at (undo_env b) [''a''] (byte_node b)"
proof -
  let ?st = "stat_at (undo_env b) [''a''] (byte_node b)"
  have x: "capture_xattrs (os_json_xattrs undo_os) undo_lib s (Some (listed_xattrs (byte_node b))) = Inr (None, s)"
    by (simp add: capture_xattrs_def listed_xattrs_def byte_node_def)
  obtain k s2 where k: "store_chunks 5 undo_lib s (file_script [b]) = Inr (k, s2)" "map_inv undo_lib s2"
      "\<lparr>bl_chunks = ck_chunks k, bl_total_len = ck_total_len k\<rparr> = blob_of undo_lib [b]"
    using store_chunks_ok [OF assms, of "[b]" 5] unfolding blob_of_def by (metis One_nat_def length_Cons list.size(3) numeral_less_iff one_less_numeral_iff rel_simps(75) semiring_norm(77) semiring_norm(76))
  have blob: "blob_of undo_lib [b] = blob_of sample_lib [b]" by (simp add: blob_of_def chunk_refs_def)
  obtain s3 where put: "map_put undo_lib s2 Blob (json_blob undo_lib (blob_of undo_lib [b])) = Inr (blob_id undo_lib [b], s3)"
    unfolding blob_id_def by (rule map_put_total [OF k(2), of "json_blob undo_lib (blob_of undo_lib [b])" Blob])
      (use small_blob [of "[b]"] blob in simp)
  have "read_file (undo_env b) [''a''] (byte_node b) [b] s =
      Inr (\<lparr>fr_blob = blob_id undo_lib [b], fr_xattrs = None, fr_sqlite = ck_sqlite k, fr_stat = ?st\<rparr>, s3)"
    using x k(1,3) put by (simp add: read_file_def read_file_guarded_def Let_def stable_metadata_def)
  then show thesis using that by fastforce
qed

lemma length_codecs [simp]:
  "length (enc c_nat n) = Suc n" "length (enc c_bytes bs) = Suc (2 * length bs)"
  by (simp_all add: c_bytes_def c_nat_def)

lemma blob_id_length: "length (blob_id undo_lib [b]) \<le> 200"
proof -
  have "chunks_of [b] = [[b]]" by (rule chunks_of_small) (simp_all add: MIN_CHUNK_def)
  then show ?thesis
    by (simp add: blob_id_def blob_of_def chunk_refs_def object_id_def sample_lib_def c_blob_def c_chunk_ref_def c_iso_def
        c_pair_def c_list_def c_word_def c_nat_def c_bytes_def)
qed

lemma leaf_length:
  assumes "length i \<le> 200"
  shows "length (json_tree sample_lib \<lparr>tr_entries = [\<lparr>te_name = ''a'', te_kind = File, te_target = Some i, te_link_target = [],
     te_mode = 0x81A4, te_size = 1, te_mtime_secs = 5, te_mtime_nanos = 0, te_xattrs = None, te_class = c\<rparr>], tr_pages = []\<rparr>) \<le>
     MAX_TREE_PAGE_BYTES"
proof -
  have "length (takeWhile (\<lambda>y. y \<noteq> c) all_classes) \<le> length all_classes" by (rule length_takeWhile_le)
  then have "length (takeWhile (\<lambda>y. y \<noteq> c) all_classes) \<le> 8" by (simp add: all_classes_def)
  then show ?thesis
    using assms
    by (simp add: sample_lib_def c_tree_def c_entry_def c_iso_def c_pair_def c_list_def c_option_def c_word_def c_int_def c_enum_def
        c_nat_def c_bytes_def page_constants)
qed

lemma undo_capture:
  assumes "map_inv undo_lib s"
  obtains i st' where "capture_root (undo_env b) g (fresh s) = Inr (i, st')"
proof -
  let ?C = "undo_env b" and ?n = "byte_node b"
  let ?ix = "index_reset (index_open\<lparr>px_saved := Some (px_tables index_open)\<rparr>)"
  let ?st = "(fresh s)\<lparr>cs_index := ?ix\<rparr>"
  obtain r s1 where r: "read_file ?C [''a''] ?n [b] s = Inr (r, s1)" "fr_xattrs r = None"
      "fr_blob r = blob_id undo_lib [b]" "fr_stat r = stat_at ?C [''a''] ?n"
    by (rule undo_read [OF assms])
  let ?row = "cached_from_read r 0"
  let ?e = "\<lparr>te_name = ''a'', te_kind = File, te_target = Some (blob_id undo_lib [b]), te_link_target = [],
     te_mode = 0x81A4, te_size = 1, te_mtime_secs = 5, te_mtime_nanos = 0, te_xattrs = None, te_class = classify ''a''\<rparr>"
  have e: "file_entry ''a'' (classify ''a'') ?row = ?e"
    using r(2-4) by (simp add: file_entry_def cached_from_read_def Let_def stat_at_def byte_node_def)
  have now: "vw_now (ce_view ?C) = 0" by (simp add: undo_env_def)
  have entry: "\<exists>st1. capture_path_entry ?C w [''a''] ?st = Inr (Some ?e, st1)" for w
    using r(1) e now
    by (simp add: capture_path_entry_def undo_nodes byte_node_def Let_def split_def capture_file_entry_def unchanged_row_def
        fresh_def cache_read_def)
  then obtain st1 where entry: "capture_path_entry ?C (capture_directory 4 ?C) [''a''] ?st = Inr (Some ?e, st1)" by blast
  let ?b = "\<lparr>b_page = [?e], b_page_bytes = LEAF_OVERHEAD, b_leaves = []\<rparr>"
  have push: "builder_push undo_lib (map_put_tree undo_lib) s' builder_new ?e = Inr (?b, s')" for s'
    by (simp add: builder_push_def push_ordered_def page_room_def builder_new_def separator_def page_constants)
  have put: "\<exists>i s2. map_put_tree undo_lib s' \<lparr>tr_entries = [?e], tr_pages = []\<rparr> = Inr (i, s2)" for s'
    using leaf_length [OF blob_id_length, of b "classify ''a''"]
    by (auto simp: map_put_tree_def map_put_def Let_def page_constants MAX_OBJECT_LEN_def split: option.split)
  have finish: "\<exists>i s2. builder_finish undo_lib (map_put_tree undo_lib) 5 s' ?b = Inr (i, s2)" for s'
  proof -
    obtain i s2 where "map_put_tree undo_lib s' \<lparr>tr_entries = [?e], tr_pages = []\<rparr> = Inr (i, s2)" using put by blast
    then have "flush_leaf undo_lib (map_put_tree undo_lib) s' ?b =
        Inr (\<lparr>b_page = [], b_page_bytes = LEAF_OVERHEAD,
           b_leaves = [\<lparr>tp_first_name = ''a'', tp_last_name = ''a'', tp_entry_count = 1, tp_target = i\<rparr>]\<rparr>, s2)"
      using leaf_length [OF blob_id_length, of b "classify ''a''"] by (simp add: flush_leaf_def store_leaf_def Let_def)
    then show ?thesis by (simp add: builder_finish_def)
  qed
  have names: "children ?C [] = Inr [''a'']" using children_listed [OF undo_view, of b "[]"] by (simp add: undo_dir_names)
  have child: "\<exists>st2. capture_child ?C (capture_directory 4 ?C) [] False (builder_new, ?st) ''a'' = Inr (?b, st2)"
    using entry push
    by (simp add: capture_child_def skips_child_def excludes_bytes_def default_policy_def is_virtual_def Let_def)
  then obtain st2 where child: "capture_child ?C (capture_directory 4 ?C) [] False (builder_new, ?st) ''a'' = Inr (?b, st2)"
    by blast
  obtain i s3 where "builder_finish undo_lib (map_put_tree undo_lib) 5 (cs_store st2) ?b = Inr (i, s3)" using finish by blast
  then have dir: "capture_directory (Suc 4) ?C [] ?st = Inr (i, st2\<lparr>cs_store := s3\<rparr>)"
    unfolding capture_directory.simps using names child by (simp add: tracked_children_def default_policy_def is_virtual_def)
  have saved: "px_saved (cs_index (st2\<lparr>cs_store := s3\<rparr>)) \<noteq> None"
  proof -
    have inv: "capture_inv ?C ?st" using fresh_inv [OF assms] by simp
    have view: "bt_get (ce_fs ?C) [] = Some root_node" "is_folder root_node" by (simp_all add: undo_nodes root_node_def is_folder_def)
    have depth: "\<forall>q. bt_get (ce_fs ?C) ([] @ q) \<noteq> None \<longrightarrow> length q < Suc 4" by (auto simp: undo_nodes)
    have P: "po_matcher (ce_policy ?C) = None" by (simp add: default_policy_def)
    have "xattrs_faithful (ce_os ?C)" using undo_faithful by simp
    note walk = capture_directory_walks [OF undo_view this undo_enough undo_fits P, of "Suc 4"]
    from ends_inD [OF walk_okD [OF walk view hidden_Nil _ inv depth] dir] show ?thesis
      by (simp add: grows_def fresh_def index_reset_def on_tables_def)
  qed
  have "capture_directory 5 ?C [] ?st = Inr (i, st2\<lparr>cs_store := s3\<rparr>)" using dir by simp
  then have "capture_root ?C g (fresh s) = rbind (index_commit (index_set_root i g (cs_index (st2\<lparr>cs_store := s3\<rparr>))))
      (\<lambda>ix. Inr (i, (st2\<lparr>cs_store := s3\<rparr>)\<lparr>cs_index := ix\<rparr>))"
    by (simp add: capture_root_def fresh_def index_begin_def index_open_def)
  then show thesis using that saved by (auto simp: index_commit_def)
qed

section \<open>The example can be brought back\<close>

lemma put_any:
  assumes "map_inv L s"
  shows "map_inv L (s(object_id L k bs \<mapsto> (k, bs)))" "keeps L s (s(object_id L k bs \<mapsto> (k, bs)))"
    "map_read L (s(object_id L k bs \<mapsto> (k, bs))) (object_id L k bs) k = Inr bs"
proof -
  have one: "k' = k \<and> c = bs" if "object_id L k' c = object_id L k bs" for k' c
    using assms that unfolding map_inv_def collision_free_def by blast
  show "map_inv L (s(object_id L k bs \<mapsto> (k, bs)))" using assms by (auto simp: map_inv_def)
  show "keeps L s (s(object_id L k bs \<mapsto> (k, bs)))" unfolding keeps_def map_read_Inr using one by auto
  show "map_read L (s(object_id L k bs \<mapsto> (k, bs))) (object_id L k bs) k = Inr bs" by (simp add: map_read_Inr)
qed

lemma undo_proper: "proper_fs (bt_get (ce_fs (undo_env b)))"
  unfolding proper_fs_def undo_nodes
  by (auto simp: folder_ok_def root_node_def is_folder_def byte_node_def OWNER_WRITE_def PERMISSIONS_def S_IFDIR_def append_eq_Cons_conv
      split: if_splits)

lemma undo_revertible: "revertible U (bt_get (ce_fs (undo_env b))) (bt_get (ce_fs (undo_env c)))"
  unfolding revertible_def
  by (intro conjI undo_proper)
    (auto simp: undo_nodes root_node_def byte_node_def is_folder_def is_link_def PERMISSIONS_def S_IFDIR_def S_IFREG_def split: if_splits)

lemma undo_attributes: "attributes_fit undo_os (bt_get (ce_fs (undo_env b))) (bt_get (ce_fs (undo_env c)))"
proof -
  have fit: "xattrs_fit (os_json_xattrs undo_os) (Some [])"
    by (simp add: xattrs_fit_def undo_os_def restorable_xattrs_def c_xattrs_def c_iso_def c_list_def c_nat_def MAX_OBJECT_LEN_def)
  have none: "nd_xattrs n = []" if "bt_get (ce_fs (undo_env b)) q = Some n" for b q n
    using that by (auto simp: undo_nodes root_node_def byte_node_def split: if_splits)
  have "listed_xattrs n = []" if "nd_xattrs n = []" for n using that by (simp add: listed_xattrs_def)
  then show ?thesis
    unfolding attributes_fit_def using fit none by (auto simp: recorded_xattrs_def restorable_xattrs_def set_xattrs_def)
qed

lemma undo_devices: "no_devices U (ce_fs (undo_env b))"
  by (auto simp: no_devices_def undo_nodes root_node_def byte_node_def split: if_splits)

definition undo_snapshot :: "object_id \<Rightarrow> snapshot" where
  "undo_snapshot t = \<lparr>sn_root_tree = t, sn_parent = None, sn_merge_parents = [], sn_sealed_at_secs = 0,
     sn_sealed_at_nanos = 0, sn_quality = Quiescent, sn_trigger = Manual, sn_label = None,
     sn_sqlite_backups = [], sn_claims = [], sn_excluded_paths = [], sn_hardlinks = [], sn_ignored = None\<rparr>"

lemma no_rules: "from_rules [] = Inr default_policy"
  by (simp add: from_rules_def default_policy_def)

end
