(* ===== verification/Capture_Theorems.thy ===== *)
theory Capture_Theorems
  imports Capture_Sample
begin

text \<open>
  The properties of capture: the tree of a capture is the workspace, and a rewind to it brings the
  workspace back.
\<close>

text \<open>What a capture relies on: an unchanged file system, and rows of the stat cache that are right.\<close>

definition capturable :: "capture_env \<Rightarrow> capture_state \<Rightarrow> bool" where
  "capturable C st \<longleftrightarrow> view_ok C \<and> xattrs_faithful (ce_os C) \<and> names_fit C \<and> po_matcher (ce_policy C) = None \<and>
     capture_inv C st \<and> px_saved (cs_index st) = None"

lemma same_view [simp]:
  "view_ok (C\<lparr>ce_fuel := n\<rparr>) = view_ok C" "names_fit (C\<lparr>ce_fuel := n\<rparr>) = names_fit C"
  "capture_inv (C\<lparr>ce_fuel := n\<rparr>) st = capture_inv C st" "describes (C\<lparr>ce_fuel := n\<rparr>) s p X = describes C s p X"
  "dir_names (C\<lparr>ce_fuel := n\<rparr>) p = dir_names C p" "indexed_tree (C\<lparr>ce_fuel := n\<rparr>) g i X st = indexed_tree C g i X st"
proof -
  have stat: "stat_at (C\<lparr>ce_fuel := n\<rparr>) = stat_at C" by (simp add: stat_at_def fun_eq_iff)
  have names: "dir_names (C\<lparr>ce_fuel := n\<rparr>) = dir_names C" by (simp add: dir_names_def fun_eq_iff)
  have hidden: "hidden (C\<lparr>ce_fuel := n\<rparr>) = hidden C" by (simp add: hidden_def skipped_def skips_child_def fun_eq_iff)
  show "dir_names (C\<lparr>ce_fuel := n\<rparr>) p = dir_names C p" by (simp add: names)
  show "indexed_tree (C\<lparr>ce_fuel := n\<rparr>) g i X st = indexed_tree C g i X st" by (simp add: indexed_tree_def)
  show "view_ok (C\<lparr>ce_fuel := n\<rparr>) = view_ok C" by (simp add: view_ok_def overlay_folder_def names)
  show "names_fit (C\<lparr>ce_fuel := n\<rparr>) = names_fit C" by (simp add: names_fit_def names)
  show "capture_inv (C\<lparr>ce_fuel := n\<rparr>) st = capture_inv C st" by (simp add: capture_inv_def row_describes_def stat)
  show "describes (C\<lparr>ce_fuel := n\<rparr>) s p X = describes C s p X" by (simp add: describes_def seen_def records_def hidden)
qed

lemma enough_fuel: "view_ok C \<Longrightarrow> \<exists>N. \<forall>n\<ge>N. enough (C\<lparr>ce_fuel := n\<rparr>)"
proof -
  assume view: "view_ok C"
  obtain k where k: "\<forall>q n c. bt_get (ce_fs C) q = Some n \<longrightarrow> nd_kind n = RegularFile c \<longrightarrow> length c < k"
    using file_lengths [of "ce_fs C"] by blast
  let ?m = "Suc (sum_list (map (length \<circ> fst) (ce_fs C)))"
  have depth: "length q < ?m" if "bt_get (ce_fs C) q = Some n" for q n
  proof -
    have "length q \<in> set (map (length \<circ> fst) (ce_fs C))" using map_of_SomeD [OF that] by (force simp: image_iff)
    then show ?thesis using member_le_sum_list less_Suc_eq_le by blast
  qed
  have names: "card (dir_names C p) \<le> length (ce_fs C)" for p
  proof -
    have "(\<lambda>name. p @ [name]) ` dir_names C p \<subseteq> fst ` set (ce_fs C)"
      by (auto simp: dir_names_def map_of_eq_None_iff)
    then have "card ((\<lambda>name. p @ [name]) ` dir_names C p) \<le> card (fst ` set (ce_fs C))" by (intro card_mono) auto
    also have "\<dots> \<le> length (ce_fs C)" by (metis card_length length_map list.set_map)
    finally show ?thesis by (simp add: card_image inj_on_def)
  qed
  have "enough (C\<lparr>ce_fuel := n\<rparr>)" if n: "max k (max ?m (length (ce_fs C))) \<le> n" for n
    unfolding enough_def using n k depth names by (fastforce intro: le_trans)
  then show ?thesis by blast
qed

section \<open>Properties\<close>

text \<open>
  A full capture records the workspace. It ends, it fails only when something is larger than the store
  takes, and otherwise its root is a hierarchy of directories in the store whose entries are exactly
  the nodes of the workspace that are neither excluded nor control files: with content, kind,
  link target, mode, time and attributes of the node, all of which can be read from the store. The
  path index then names that root, and its rows are exactly the entries of the tree.
\<close>

theorem capture_records_workspace:
  assumes "capturable C st"
  shows "\<exists>N. \<forall>n\<ge>N. ends_in (\<lambda>(root, st'). \<exists>X.
     forest (map_read_tree (ce_lib C)) (cs_store st') n root X \<and> describes C (cs_store st') [] X \<and>
     indexed_tree C generation root X st' \<and> capture_inv C st' \<and> keeps (ce_lib C) (cs_store st) (cs_store st'))
       (capture_root (C\<lparr>ce_fuel := n\<rparr>) generation st)"
proof -
  obtain N where N: "\<forall>n\<ge>N. enough (C\<lparr>ce_fuel := n\<rparr>)" using enough_fuel assms by (auto simp: capturable_def)
  have "ends_in (\<lambda>(root, st'). \<exists>X. forest (map_read_tree (ce_lib C)) (cs_store st') n root X \<and> describes C (cs_store st') [] X \<and>
      indexed_tree C generation root X st' \<and> capture_inv C st' \<and> keeps (ce_lib C) (cs_store st) (cs_store st')) (capture_root (C\<lparr>ce_fuel := n\<rparr>) generation st)"
    if n: "N \<le> n" for n
  proof -
    let ?C = "C\<lparr>ce_fuel := n\<rparr>"
    have c: "view_ok ?C" "xattrs_faithful (ce_os ?C)" "enough ?C" "names_fit ?C" "po_matcher (ce_policy ?C) = None"
        "capture_inv ?C st" "px_saved (cs_index st) = None"
      using assms N n unfolding capturable_def by simp_all
    show ?thesis by (rule ends_in_mono [OF capture_root_ends [OF c]]) auto
  qed
  then show ?thesis by blast
qed

lemma undo_capturable: "map_inv undo_lib s \<Longrightarrow> capturable (undo_env b) (fresh s)"
  using undo_view undo_faithful undo_fits fresh_inv [of s b]
  by (simp add: capturable_def default_policy_def fresh_def index_open_def)

lemma undo_empty: "map_inv undo_lib Map.empty"
  using undo_laws by (simp add: map_inv_def)

theorem capture_records_workspace_witness:
  "\<exists>N. \<forall>n\<ge>N. ends_in (\<lambda>(root, st'). \<exists>X.
     forest (map_read_tree undo_lib) (cs_store st') n root X \<and> describes (undo_env (CHR ''x'')) (cs_store st') [] X \<and>
     indexed_tree (undo_env (CHR ''x'')) ''g'' root X st' \<and> capture_inv (undo_env (CHR ''x'')) st' \<and> keeps undo_lib Map.empty (cs_store st'))
       (capture_root ((undo_env (CHR ''x''))\<lparr>ce_fuel := n\<rparr>) ''g'' (fresh Map.empty))"
  using capture_records_workspace [OF undo_capturable [OF undo_empty], of "CHR ''x''" "''g''"] by (simp add: fresh_def)

text \<open>The tree of a capture that ended well.\<close>

lemma capture_rootD:
  assumes "capturable C st" "enough C" "capture_root C generation st = Inr (root, st')"
  obtains X where "forest (map_read_tree (ce_lib C)) (cs_store st') (ce_fuel C) root X" "describes C (cs_store st') [] X"
    "capture_inv C st'" "keeps (ce_lib C) (cs_store st) (cs_store st')"
proof -
  have "view_ok C" "xattrs_faithful (ce_os C)" "names_fit C" "po_matcher (ce_policy C) = None"
      "capture_inv C st" "px_saved (cs_index st) = None"
    using assms(1) by (simp_all add: capturable_def)
  from ends_inD [OF capture_root_ends [OF this(1,2) assms(2) this(3-6)] assms(3)] show thesis using that by auto
qed



end
