(* ===== verification/Capture_Changed.thy ===== *)
theory Capture_Changed
  imports Capture
begin

text \<open>
  Capturing only what changed (\<^verbatim>\<open>furrow-core/src/repository.rs\<close>). The rows of the path index stand for the
  tree of the last capture: the rows below a changed path are replaced by what is there now, and the
  directories on the way to the root are written again from their rows.

  A changed path comes with what \<open>logical_path\<close> makes of it, which is nothing for a path outside the
  tree. The workspace is read at logical paths; a path below a link is not followed.
\<close>

section \<open>Paths\<close>

text \<open>\<open>Path::parent\<close> drops the last name, and the empty names and dots around it.\<close>

definition trim_names :: "bytes list \<Rightarrow> bytes list" where
  "trim_names names = rev (dropWhile (\<lambda>name. name = [] \<or> name = ''.'') (rev names))"

definition relative_parent :: "bytes \<Rightarrow> bytes" where
  "relative_parent path = join_with (CHR ''/'') (trim_names (butlast (trim_names (split_on (CHR ''/'') path))))"

definition path_depth :: "bytes \<Rightarrow> nat" where
  "path_depth path = length (components path)"

definition validate_relative_path :: "bytes \<Rightarrow> unit result" where
  "validate_relative_path path = ensure (normal_names (components path) \<noteq> None) ''invalid changed path'' (Inr ())"

text \<open>\<open>ch_relative\<close> is the path without the root of the workspace, if it begins with it.\<close>

record changed_path =
  ch_relative :: bytes
  ch_logical :: "bytes option"

definition file_name_of :: "bytes \<Rightarrow> bytes option" where
  "file_name_of path = (case components path of [] \<Rightarrow> None | cs \<Rightarrow> (case last cs of Normal name \<Rightarrow> Some name | _ \<Rightarrow> None))"

definition capture_rules_changed :: "changed_path \<Rightarrow> bool" where
  "capture_rules_changed path \<longleftrightarrow>
     ch_relative path = ''.furrowpolicy'' \<or> file_name_of (ch_relative path) = Some ''.gitignore'' \<or>
     ch_relative path = ''.git/index'' \<or> ch_relative path = ''.git/info/exclude'' \<or>
     List.member (components (ch_relative path)) (Normal ''.git'')"

section \<open>One changed path\<close>

definition found_new_link :: "path_index \<Rightarrow> bytes \<Rightarrow> file_identity option \<Rightarrow> bool" where
  "found_new_link ix relative linked_before \<longleftrightarrow>
     index_link_identity ix relative \<noteq> linked_before \<and> index_link_has_no_known_sibling ix relative"

definition drop_rows :: "bytes \<Rightarrow> capture_state \<Rightarrow> capture_state" where
  "drop_rows relative st = st\<lparr>cs_index := fst (index_remove_subtree relative (cs_index st))\<rparr>"

definition recapture_path :: "capture_env \<Rightarrow> bytes \<Rightarrow> capture_state \<Rightarrow> capture_state result" where
  "recapture_path C relative st =
     (let st = drop_rows relative st in
      rbind (safe_join relative) (\<lambda>p.
      if \<not> excludes_bytes (ce_policy C) relative \<and> bt_get (ce_fs C) p \<noteq> None
      then rbind (capture_path_entry C (capture_directory (ce_fuel C) C) p st) (\<lambda>(found, st).
           Inr (case found of
                  None \<Rightarrow> st
                | Some e \<Rightarrow> st\<lparr>cs_index := index_upsert (ce_lib C) relative (relative_parent relative) e (cs_index st)\<rparr>))
      else Inr st))"

section \<open>The directories on the way to the root\<close>

lemma trim_names_prefix: "names = trim_names names @ rev (takeWhile (\<lambda>name. name = [] \<or> name = ''.'') (rev names))"
  unfolding trim_names_def by (metis rev_append rev_rev_ident takeWhile_dropWhile_id)

lemma trim_names_last: "trim_names names \<noteq> [] \<Longrightarrow> last (trim_names names) \<noteq> []"
  unfolding trim_names_def by (metis (mono_tags, lifting) hd_dropWhile last_rev rev.simps(1))

lemma join_with_shorter: "length (join_with c names) \<le> length (join_with c (names @ rest))"
  by (induction c names rule: join_with.induct) (auto simp: neq_Nil_conv, cases rest, auto)

lemma join_with_last_shorter: "name \<noteq> [] \<Longrightarrow> length (join_with c names) < length (join_with c (names @ [name]))"
  by (induction c names rule: join_with.induct) auto

lemma relative_parent_shorter:
  assumes "path \<noteq> []"
  shows "length (relative_parent path) < length path"
proof -
  let ?names = "split_on (CHR ''/'') path"
  let ?t = "trim_names ?names"
  have path: "join_with (CHR ''/'') ?names = path" by simp
  show ?thesis
  proof (cases "?t = []")
    case True
    have "relative_parent path = []" unfolding relative_parent_def True by (simp add: trim_names_def)
    then show ?thesis using assms by simp
  next
    case False
    have "length (relative_parent path) \<le> length (join_with (CHR ''/'') (butlast ?t))"
      unfolding relative_parent_def by (metis join_with_shorter trim_names_prefix)
    also have "\<dots> < length (join_with (CHR ''/'') ?t)"
      using join_with_last_shorter [OF trim_names_last [OF False], of _ "butlast ?t"] False by simp
    also have "\<dots> \<le> length (join_with (CHR ''/'') ?names)" by (metis join_with_shorter trim_names_prefix)
    finally show ?thesis using path by simp
  qed
qed

function add_parents :: "bytes \<Rightarrow> bytes list \<Rightarrow> bytes list" where
  "add_parents parent dirty =
     (if parent = [] then parent # dirty else add_parents (relative_parent parent) (parent # dirty))"
  by pat_completeness auto
termination
  by (relation "measure (length \<circ> fst)") (simp_all add: relative_parent_shorter)

declare add_parents.simps [simp del]

text \<open>
  \<open>None\<close> instead of the dirty directories when a file shares its inode with a path that the index does not
  know: then the whole tree has to be walked.
\<close>

fun capture_changed_loop ::
  "capture_env \<Rightarrow> bytes list \<Rightarrow> bytes list \<Rightarrow> capture_state \<Rightarrow> (bytes list option \<times> capture_state) result" where
  "capture_changed_loop C [] dirty st = Inr (Some dirty, st)"
| "capture_changed_loop C (relative # paths) dirty st =
     (let linked_before = index_link_identity (cs_index st) relative in
      rbind (recapture_path C relative st) (\<lambda>st.
      if found_new_link (cs_index st) relative linked_before then Inr (None, st)
      else capture_changed_loop C paths (add_parents (relative_parent relative) dirty) st))"

section \<open>Directories from their rows\<close>

type_synonym entry_parser = "bytes \<Rightarrow> tree_entry option"

text \<open>The first argument bounds the number of batches.\<close>

fun rebuild_loop ::
  "nat \<Rightarrow> capture_env \<Rightarrow> entry_parser \<Rightarrow> bytes \<Rightarrow> bytes option \<Rightarrow> builder \<times> capture_state \<Rightarrow> (builder \<times> capture_state) result" where
  "rebuild_loop 0 C parse_entry relative after_name x = Inl OutOfFuel"
| "rebuild_loop (Suc n) C parse_entry relative after_name (b, st) =
     rbind (index_children_after parse_entry (cs_index st) relative after_name CHILD_BATCH) (\<lambda>entries.
     if entries = [] then Inr (b, st)
     else rbind (rfold (\<lambda>(b, s) e. builder_push (ce_lib C) (map_put_tree (ce_lib C)) s b e) (b, cs_store st) entries) (\<lambda>(b, s).
          rebuild_loop n C parse_entry relative (Some (te_name (last entries))) (b, st\<lparr>cs_store := s\<rparr>)))"

definition rebuild_indexed_directory ::
  "capture_env \<Rightarrow> entry_parser \<Rightarrow> bytes \<Rightarrow> capture_state \<Rightarrow> (object_id \<times> capture_state) result" where
  "rebuild_indexed_directory C parse_entry relative st =
     rbind (rebuild_loop (Suc (ce_fuel C)) C parse_entry relative None (builder_new, st)) (\<lambda>(b, st).
     rbind (builder_finish (ce_lib C) (map_put_tree (ce_lib C)) (ce_fuel C) (cs_store st) b) (\<lambda>(root, s).
     Inr (root, st\<lparr>cs_store := s\<rparr>)))"

definition directory_entry ::
  "capture_env \<Rightarrow> fpath \<Rightarrow> object_id \<Rightarrow> capture_state \<Rightarrow> (tree_entry \<times> capture_state) result" where
  "directory_entry C p target st =
     rbind (of_opt ''No such file or directory'' (bt_get (ce_fs C) p)) (\<lambda>n.
     let metadata = stat_at C p n; (secs, nanos) = metadata_time metadata in
     rbind (capture_xattrs (os_json_xattrs (ce_os C)) (ce_lib C) (cs_store st) (Some (listed_xattrs n))) (\<lambda>(xattrs, s).
     Inr (\<lparr>te_name = last p, te_kind = Directory, te_target = Some target, te_link_target = [], te_mode = st_mode metadata,
            te_size = 0, te_mtime_secs = secs, te_mtime_nanos = nanos, te_xattrs = xattrs, te_class = classify (raw p)\<rparr>,
          st\<lparr>cs_store := s\<rparr>)))"

definition rebuild_dirty ::
  "capture_env \<Rightarrow> entry_parser \<Rightarrow> object_id \<times> capture_state \<Rightarrow> bytes \<Rightarrow> (object_id \<times> capture_state) result" where
  "rebuild_dirty C parse_entry = (\<lambda>(root, st) relative.
     if excludes_bytes (ce_policy C) relative then Inr (root, drop_rows relative st)
     else rbind (safe_join relative) (\<lambda>p.
          case bt_get (ce_fs C) p of
            None \<Rightarrow> Inr (root, if relative \<noteq> [] then drop_rows relative st else st)
          | Some n \<Rightarrow>
              if \<not> is_folder n then Inr (root, st)
              else rbind (rebuild_indexed_directory C parse_entry relative st) (\<lambda>(tree_id, st).
                   if relative = [] then Inr (tree_id, st)
                   else rbind (directory_entry C p tree_id st) (\<lambda>(e, st).
                        Inr (root, st\<lparr>cs_index := index_upsert (ce_lib C) relative (relative_parent relative) e (cs_index st)\<rparr>)))))"

section \<open>The capture\<close>

text \<open>\<open>None\<close> when the root itself is among the changed paths.\<close>

fun collect_changed :: "changed_path list \<Rightarrow> bytes list \<Rightarrow> bytes list option result" where
  "collect_changed [] paths = Inr (Some paths)"
| "collect_changed (changed # rest) paths =
     (case ch_logical changed of
        None \<Rightarrow> collect_changed rest paths
      | Some relative \<Rightarrow>
          if relative = [] then Inr None
          else if is_identity_path relative then collect_changed rest paths
          else rbind (validate_relative_path relative) (\<lambda>_. collect_changed rest (paths @ [relative])))"

definition walk_everything :: "capture_env \<Rightarrow> capture_state \<Rightarrow> (object_id \<times> capture_state) result" where
  "walk_everything C st = capture_directory (ce_fuel C) C [] (st\<lparr>cs_index := index_reset (cs_index st)\<rparr>)"

definition deepest_first :: "bytes list \<Rightarrow> bytes list" where
  "deepest_first dirty = rev (sort_key (\<lambda>path. (path_depth path, path)) (bs_of dirty))"

definition capture_changed_paths ::
  "capture_env \<Rightarrow> entry_parser \<Rightarrow> string \<Rightarrow> changed_path list \<Rightarrow> capture_state \<Rightarrow> (object_id \<times> capture_state) result" where
  "capture_changed_paths C parse_entry generation changed st =
     rbind (collect_changed changed []) (\<lambda>collected.
     case collected of
       None \<Rightarrow> walk_everything C st
     | Some paths \<Rightarrow>
         rbind (index_root (cs_index st) generation) (\<lambda>existing.
         rbind (of_opt ''path index was invalidated during incremental capture'' existing) (\<lambda>existing_root.
         if paths = [] then Inr (existing_root, st)
         else rbind (capture_changed_loop C (bs_of paths) [] st) (\<lambda>(found, st).
              case found of
                None \<Rightarrow> walk_everything C st
              | Some dirty \<Rightarrow> rfold (rebuild_dirty C parse_entry) (existing_root, st) (deepest_first dirty)))))"

text \<open>
  The snapshot at the head of the workspace, and whether the token that was left with the index names
  that head.
\<close>

definition index_matches_head :: "path_index \<Rightarrow> string \<Rightarrow> (snapshot \<times> bool) option \<Rightarrow> policy \<Rightarrow> bool result" where
  "index_matches_head ix generation at_head P =
     rbind (index_root ix generation) (\<lambda>root.
     Inr (case (root, at_head) of
            (Some r, Some (snap, named)) \<Rightarrow>
              named \<and> r = sn_root_tree snap \<and> sn_excluded_paths snap = po_excluded P \<and>
              (sn_ignored snap \<noteq> None) = (po_matcher P \<noteq> None)
          | _ \<Rightarrow> False))"

definition delta_needs_link_walk :: "capture_env \<Rightarrow> path_index \<Rightarrow> changed_path list \<Rightarrow> bool" where
  "delta_needs_link_walk C ix paths \<longleftrightarrow>
     list_ex (\<lambda>path. case ch_logical path of
         None \<Rightarrow> False
       | Some relative \<Rightarrow>
           \<not> is_identity_path relative \<and> \<not> excludes_bytes (ce_policy C) relative \<and>
           (case safe_join relative of
              Inl _ \<Rightarrow> False
            | Inr p \<Rightarrow>
                (case bt_get (ce_fs C) p of
                   None \<Rightarrow> False
                 | Some n \<Rightarrow>
                     (case nd_kind n of RegularFile _ \<Rightarrow> True | _ \<Rightarrow> False) \<and>
                     (1 < im_nlink (vw_meta (ce_view C) p) \<or>
                      (index_link_identity ix relative \<noteq> None \<and> \<not> index_link_has_no_known_sibling ix relative))))) paths"

definition with_overlay_path :: "capture_env \<Rightarrow> changed_path list \<Rightarrow> changed_path list" where
  "with_overlay_path C paths =
     paths @ (if ce_composed C then [\<lparr>ch_relative = overlay_name, ch_logical = Some overlay_name\<rparr>] else [])"

text \<open>One attempt of \<open>capture_changed_paths_retry_with_policy\<close>.\<close>

definition capture_changed ::
  "capture_env \<Rightarrow> entry_parser \<Rightarrow> string \<Rightarrow> (snapshot \<times> bool) option \<Rightarrow> changed_path list \<Rightarrow>
   capture_state \<Rightarrow> (object_id \<times> capture_state) result" where
  "capture_changed C parse_entry generation at_head paths st =
     rbind (index_matches_head (cs_index st) generation at_head (ce_policy C)) (\<lambda>matches.
     if \<not> matches then capture_root C generation st
     else rbind (index_begin (cs_index st)) (\<lambda>ix.
          rbind (capture_changed_paths C parse_entry generation paths (st\<lparr>cs_index := ix\<rparr>)) (\<lambda>(root, st).
          rbind (index_commit (index_set_root root generation (cs_index st))) (\<lambda>ix.
          Inr (root, st\<lparr>cs_index := ix\<rparr>)))))"

definition capture_tree ::
  "capture_env \<Rightarrow> entry_parser \<Rightarrow> string \<Rightarrow> (snapshot \<times> bool) option \<Rightarrow> changed_path list option \<Rightarrow>
   capture_state \<Rightarrow> (object_id \<times> capture_state) result" where
  "capture_tree C parse_entry generation at_head changed st =
     (case changed of
        None \<Rightarrow> capture_root C generation st
      | Some paths \<Rightarrow>
          if list_ex capture_rules_changed paths then capture_root C generation st
          else if delta_needs_link_walk C (cs_index st) paths then capture_root C generation st
          else capture_changed C parse_entry generation at_head (with_overlay_path C paths) st)"

end
