(* ===== verification/Changed_Rows.thy ===== *)
theory Changed_Rows
  imports Capture_Changed Capture_Walk
begin

text \<open>
  What a capture of changed paths does to the rows of the index, one changed path at a time: the rows
  that stood for the earlier workspace give way to rows that stand for the present one.
\<close>

section \<open>Paths\<close>

lemma trim_names_valid: "\<forall>x\<in>set q. valid_name x \<Longrightarrow> trim_names q = q"
  unfolding trim_names_def by (cases q rule: rev_cases) (auto simp: valid_name_def)

lemma relative_parent_raw: "valid_fpath q \<Longrightarrow> relative_parent (raw q) = raw (butlast q)"
proof -
  assume q: "valid_fpath q"
  then have "\<forall>x\<in>set q. valid_name x" "\<forall>x\<in>set (butlast q). valid_name x"
    by (auto simp: valid_fpath_def dest: in_set_butlastD)
  then show ?thesis using q by (simp add: relative_parent_def trim_names_valid raw_def [of "butlast q"])
qed

lemma path_depth_raw: "\<forall>x\<in>set q. valid_name x \<Longrightarrow> path_depth (raw q) = length q"
  by (cases "q = []") (simp_all add: path_depth_def valid_fpath_def components_raw, simp add: raw_def components_def component_of_def)

lemma safe_join_all [simp]: "\<forall>x\<in>set q. valid_name x \<Longrightarrow> safe_join (raw q) = Inr q"
proof (cases "q = []")
  case False
  assume "\<forall>x\<in>set q. valid_name x"
  then show ?thesis using False safe_join_raw [of q] by (simp add: valid_fpath_def)
qed (simp add: raw_def safe_join_def components_def component_of_def)

lemma raw_Nil [simp]: "raw [] = []"
  by (simp add: raw_def)

lemma raw_eq_Nil [simp]: "\<forall>x\<in>set q. valid_name x \<Longrightarrow> raw q = [] \<longleftrightarrow> q = []"
  using raw_inj_all [of q "[]"] by simp

lemma add_parents_raw:
  "\<forall>x\<in>set q. valid_name x \<Longrightarrow> set (add_parents (raw q) dirty) = set dirty \<union> {raw p |p. p = q \<or> below p q}"
proof (induction q arbitrary: dirty rule: rev_induct)
  case Nil
  show ?case by (subst add_parents.simps) simp
next
  case (snoc x q)
  have v: "valid_fpath (q @ [x])" using snoc.prems by (simp add: valid_fpath_def)
  have "raw (q @ [x]) \<noteq> []" using snoc.prems by simp
  then have "set (add_parents (raw (q @ [x])) dirty) = set (add_parents (raw q) (raw (q @ [x]) # dirty))"
    using relative_parent_raw [OF v] by (subst add_parents.simps) simp
  then show ?case using snoc by (auto simp: below_snoc)
qed

section \<open>What is hidden\<close>

lemma excludes_below:
  assumes "po_matcher P = None" "excludes_bytes P (raw p)" "p \<noteq> []" "below p q"
  shows "excludes_bytes P (raw q)"
  using assms(4)
proof (induction q rule: rev_induct)
  case (snoc x q)
  have "q \<noteq> []" using snoc.prems assms(3) by (auto simp: below_snoc)
  have "excludes_bytes P (raw q)" using snoc assms(2) by (auto simp: below_snoc)
  then show ?case
    using assms(1) covers_path_extend raw_append [OF \<open>q \<noteq> []\<close>]
    by (auto simp: excludes_bytes_def list_ex_iff split: if_splits)
qed simp

definition clear_of_store :: "capture_env \<Rightarrow> fpath \<Rightarrow> bool" where
  "clear_of_store C c \<longleftrightarrow> (case ce_store_root C of None \<Rightarrow> True | Some r \<Rightarrow> take (length r) c \<noteq> r)"

lemma identity_below: "is_identity_path (raw p) \<Longrightarrow> p \<noteq> [] \<Longrightarrow> below p q \<Longrightarrow> is_identity_path (raw q)"
proof (induction q rule: rev_induct)
  case (snoc x q)
  then have "q \<noteq> []" "is_identity_path (raw q)" by (auto simp: below_snoc)
  then show ?case using identity_extend raw_append by simp
qed simp

lemma skips_child_identity:
  assumes "skips_child C p" "clear_of_store C p"
  shows "is_identity_path (raw p)"
  using assms by (auto simp: skips_child_def clear_of_store_def is_identity_path_def raw_def split: option.splits)

lemma clear_of_store_prefix: "clear_of_store C c \<Longrightarrow> below p c \<Longrightarrow> clear_of_store C p"
proof -
  have "take (length r) c = r" if r: "take (length r) p = r" "below p c" for r :: fpath
  proof -
    have "length r \<le> length p" using r(1) by (metis length_take min.cobounded1 min.commute)
    then have "take (length r) c = take (length r) (take (length p) c)" by (simp only: take_take min.absorb1)
    also have "take (length p) c = p" using r(2) by (simp add: below_def)
    finally show ?thesis using r(1) by simp
  qed
  then show "clear_of_store C c \<Longrightarrow> below p c \<Longrightarrow> ?thesis" by (auto simp: clear_of_store_def split: option.splits)
qed

text \<open>A path that may be among the changed ones, or above one of them.\<close>

definition tracked :: "capture_env \<Rightarrow> fpath \<Rightarrow> bool" where
  "tracked C c \<longleftrightarrow> valid_fpath c \<and> clear_of_store C c \<and> \<not> is_identity_path (raw c)"

lemma tracked_prefix: "tracked C c \<Longrightarrow> below p c \<Longrightarrow> p \<noteq> [] \<Longrightarrow> tracked C p"
proof -
  assume c: "tracked C c" "below p c" "p \<noteq> []"
  have "set p \<subseteq> set c" using c(2) by (metis below_def set_take_subset)
  then show ?thesis
    using c clear_of_store_prefix [of C c p] identity_below [of p c] by (auto simp: tracked_def valid_fpath_def)
qed

lemma tracked_hidden:
  assumes "po_matcher (ce_policy C) = None" "tracked C c"
  shows "hidden C c \<longleftrightarrow> excludes_bytes (ce_policy C) (raw c)"
proof
  assume "hidden C c"
  then obtain p where p: "p \<noteq> []" "p = c \<or> below p c" "skipped C p" by (auto simp: hidden_def)
  have "tracked C p" using p(1,2) assms(2) tracked_prefix by blast
  then have "\<not> skips_child C p" using skips_child_identity by (auto simp: tracked_def)
  then show "excludes_bytes (ce_policy C) (raw c)"
    using p excludes_below [OF assms(1) _ p(1)] by (auto simp: skipped_def)
next
  assume "excludes_bytes (ce_policy C) (raw c)"
  then show "hidden C c" using assms(2) by (auto simp: hidden_def skipped_def tracked_def valid_fpath_def)
qed

lemma seen_parent: "view_ok C \<Longrightarrow> seen C (q @ [x]) \<Longrightarrow> q \<noteq> [] \<Longrightarrow> seen C q"
  using view_parent [of C q x] by (auto simp: seen_def hidden_snoc is_folder_def)

lemma seen_prefix:
  assumes "view_ok C" "seen C (q @ r)" "q \<noteq> []"
  shows "seen C q"
  using assms(2)
proof (induction r rule: rev_induct)
  case (snoc x r)
  then show ?case using seen_parent [OF assms(1), of "q @ r" x] assms(3) by simp
qed simp

lemma seen_below: "view_ok C \<Longrightarrow> seen C r \<Longrightarrow> below q r \<Longrightarrow> q \<noteq> [] \<Longrightarrow> seen C q"
  by (metis append_take_drop_id below_def seen_prefix)

section \<open>Settled rows\<close>

definition part :: "tree_map \<Rightarrow> fpath \<Rightarrow> tree_map" where
  "part Z q = (\<lambda>r. if r = [] then None else Z (q @ r))"

lemma part_single: "part X [name] = subtree_at X name"
  by (simp add: part_def subtree_at_def fun_eq_iff)

lemma part_Cons: "part X (name # q) = part (subtree_at X name) q"
  by (auto simp: part_def subtree_at_def fun_eq_iff)

lemma forest_part:
  "forest read s d i X \<Longrightarrow> X q = Some e \<Longrightarrow> te_kind e = Directory \<Longrightarrow>
   \<exists>t d'. te_target e = Some t \<and> forest read s d' t (part X q)"
proof (induction q arbitrary: d i X)
  case Nil
  then show ?case using forest_Nil [OF Nil.prems(1)] by simp
next
  case (Cons name q)
  obtain d' where d: "d = Suc d'" using Cons.prems(1) by (cases d) auto
  show ?case
  proof (cases "q = []")
    case True
    then show ?thesis using forest_child(3) [of read s d' i X name e] Cons.prems d by (auto simp: part_single)
  next
    case False
    then obtain f where f: "X [name] = Some f" "te_kind f = Directory"
      using tree_like_parent [OF forest_tree_like [OF Cons.prems(1)], of "name # q" "[name]"] Cons.prems(2)
      by (auto simp: folder_at_def below_Cons)
    then obtain t where t: "forest read s d' t (subtree_at X name)" using forest_child(3) [of read s d' i X name f] Cons.prems(1) d by blast
    have "subtree_at X name q = Some e" using Cons.prems(2) False by (simp add: subtree_at_def)
    from Cons.IH [OF t this Cons.prems(3)] show ?thesis by (simp add: part_Cons)
  qed
qed

text \<open>The row of a path records the node that is there now; a settled row of a directory also names a tree
  of the rows below it.\<close>

definition noted :: "capture_env \<Rightarrow> object_map \<Rightarrow> tree_map \<Rightarrow> fpath \<Rightarrow> bool" where
  "noted C s Z r \<longleftrightarrow>
     (if seen C r then \<exists>e n. Z r = Some e \<and> bt_get (ce_fs C) r = Some n \<and> records C s e n else Z r = None)"

definition settled :: "capture_env \<Rightarrow> object_map \<Rightarrow> tree_map \<Rightarrow> fpath \<Rightarrow> bool" where
  "settled C s Z r \<longleftrightarrow> noted C s Z r \<and>
     (\<forall>e. Z r = Some e \<longrightarrow> te_kind e = Directory \<longrightarrow> (\<exists>t d. te_target e = Some t \<and> stored_forest C s d t (part Z r)))"

lemma noted_keeps: "noted C s Z r \<Longrightarrow> keeps (ce_lib C) s s' \<Longrightarrow> noted C s' Z r"
  unfolding noted_def using records_keeps by metis

lemma settled_keeps: "settled C s Z r \<Longrightarrow> keeps (ce_lib C) s s' \<Longrightarrow> settled C s' Z r"
  unfolding settled_def using noted_keeps forest_extends keeps_extends by metis

lemma noted_cong: "noted C s Z r \<Longrightarrow> Z' r = Z r \<Longrightarrow> noted C s Z' r"
  by (auto simp: noted_def split: if_splits)

lemma settled_cong:
  assumes "settled C s Z r" "Z' r = Z r" "\<And>q. below r q \<Longrightarrow> Z' q = Z q"
  shows "settled C s Z' r"
proof -
  have "part Z' r = part Z r" using assms(3) by (auto simp: part_def fun_eq_iff)
  then show ?thesis using assms(1,2) noted_cong [of C s Z r Z'] by (simp add: settled_def)
qed

lemma settled_noted: "settled C s Z r \<Longrightarrow> noted C s Z r"
  by (simp add: settled_def)

lemma noted_some: "noted C s Z r \<Longrightarrow> Z r \<noteq> None \<longleftrightarrow> seen C r"
  by (auto simp: noted_def split: if_splits)

section \<open>Changed paths\<close>

definition touched :: "fpath set \<Rightarrow> fpath \<Rightarrow> bool" where
  "touched D r \<longleftrightarrow> (\<exists>c\<in>D. r = c \<or> below c r)"

definition above :: "fpath set \<Rightarrow> fpath \<Rightarrow> bool" where
  "above D r \<longleftrightarrow> (\<exists>c\<in>D. below r c)"

text \<open>The rows after the changed paths \<open>D\<close>: below them what is there now, elsewhere the rows of \<open>X\<close>.\<close>

definition changes_inv :: "capture_env \<Rightarrow> object_map \<Rightarrow> tree_map \<Rightarrow> fpath set \<Rightarrow> tree_map \<Rightarrow> bool" where
  "changes_inv C s X D Z \<longleftrightarrow> (\<forall>r. r \<noteq> [] \<longrightarrow>
     (if touched D r then noted C s Z r \<and> (\<not> above D r \<longrightarrow> settled C s Z r) else Z r = X r))"

lemma changes_invD:
  assumes "changes_inv C s X D Z" "r \<noteq> []"
  shows "touched D r \<Longrightarrow> noted C s Z r" "touched D r \<Longrightarrow> \<not> above D r \<Longrightarrow> settled C s Z r" "\<not> touched D r \<Longrightarrow> Z r = X r"
  using assms by (auto simp: changes_inv_def)

lemma changes_inv_start: "changes_inv C s X {} X"
  by (simp add: changes_inv_def touched_def)

lemma changes_inv_replace:
  assumes inv: "changes_inv C s X D Z" and keep: "keeps (ce_lib C) s s'"
    and outside: "\<And>r. \<not> (r = c \<or> below c r) \<Longrightarrow> Z' r = Z r"
    and inside: "\<And>r. r = c \<or> below c r \<Longrightarrow> settled C s' Z' r"
  shows "changes_inv C s' X (insert c D) Z'"
  unfolding changes_inv_def
proof (intro allI impI)
  fix r :: fpath assume r: "r \<noteq> []"
  show "if touched (insert c D) r then noted C s' Z' r \<and> (\<not> above (insert c D) r \<longrightarrow> settled C s' Z' r) else Z' r = X r"
  proof (cases "r = c \<or> below c r")
    case True
    then show ?thesis using inside settled_noted by (auto simp: touched_def)
  next
    case False
    then have t: "touched (insert c D) r \<longleftrightarrow> touched D r" by (auto simp: touched_def)
    have same: "Z' r = Z r" by (rule outside [OF False])
    have "settled C s' Z' r" if d: "touched D r" "\<not> above (insert c D) r"
    proof -
      have "settled C s Z r" using changes_invD(2) [OF inv r d(1)] d(2) by (auto simp: above_def)
      then have "settled C s' Z r" by (rule settled_keeps [OF _ keep])
      then show ?thesis
      proof (rule settled_cong [of C s' Z r Z'])
        show "Z' r = Z r" by (rule same)
        fix q assume q: "below r q"
        have "\<not> (q = c \<or> below c q)"
        proof
          assume "q = c \<or> below c q"
          then have "r = c \<or> below r c \<or> below c r" using below_linear [OF q] by blast
          then show False using False d(2) by (auto simp: above_def)
        qed
        then show "Z' q = Z q" by (rule outside)
      qed
    qed
    moreover have "noted C s' Z' r" if "touched D r"
      using noted_cong [of C s' Z r Z'] noted_keeps [OF changes_invD(1) [OF inv r that] keep] same by blast
    ultimately show ?thesis using t changes_invD(3) [OF inv r] same by auto
  qed
qed

text \<open>When a path is processed no path below it was, so what is below it is a tree.\<close>

lemma changes_inv_linked:
  assumes inv: "changes_inv C s X D Z" and "tree_like X" "view_ok C" and c: "c \<noteq> []" "\<forall>c'\<in>D. \<not> (c' = c \<or> below c c')"
  shows "linked_below c Z"
  unfolding linked_below_def
proof (intro allI impI)
  fix r assume r: "below c r" "Z r \<noteq> None"
  then obtain q x where q: "r = q @ [x]" by (cases r rule: rev_cases) auto
  have cq: "q = c \<or> below c q" using r(1) q by (auto simp: below_snoc)
  then have "q \<noteq> []" using c(1) by auto
  show "Z (butlast r) \<noteq> None"
  proof (cases "touched D r")
    case True
    then obtain c' where c': "c' \<in> D" "r = c' \<or> below c' r" by (auto simp: touched_def)
    then have "below c' c" using below_linear [of c r c'] r(1) c(2) by auto
    then have "touched D q" using c'(1) cq path_below_trans by (auto simp: touched_def)
    then have "noted C s Z q" by (rule changes_invD(1) [OF inv \<open>q \<noteq> []\<close>])
    moreover have "seen C r" using noted_some [OF changes_invD(1) [OF inv _ True]] r(2) q by simp
    ultimately show ?thesis using noted_some seen_parent [OF assms(3), of q x] q \<open>q \<noteq> []\<close> by simp
  next
    case False
    then have "\<not> touched D q" using q by (auto simp: touched_def below_snoc)
    have "X r \<noteq> None" using changes_invD(3) [OF inv _ False] r(2) q by simp
    then have "folder_at X q" using assms(2) q \<open>q \<noteq> []\<close> by (auto simp: tree_like_def)
    then show ?thesis using changes_invD(3) [OF inv \<open>q \<noteq> []\<close> \<open>\<not> touched D q\<close>] q by (auto simp: folder_at_def)
  qed
qed

text \<open>What a recapture leaves below its path is settled.\<close>

lemma unseen_settled: "\<not> seen C r \<Longrightarrow> Z r = None \<Longrightarrow> settled C s Z r"
  by (simp add: settled_def noted_def)

lemma captured_settled:
  assumes e: "child_ok C s d p e Y" "c = p @ [te_name e]" "valid_fpath c" and view: "view_ok C"
    and Z: "Z = (graft c Y (pruned c Z0))(c \<mapsto> e)" and r: "r = c \<or> below c r"
  shows "settled C s Z r"
proof -
  obtain n where n: "seen C c" "bt_get (ce_fs C) c = Some n" "records C s e n" using e(1,2) by (auto simp: child_ok_def)
  have below: "Z (c @ q) = Y q" if "q \<noteq> []" for q using that Z by (simp add: graft_def pruned_def split: option.split)
  have self: "Z c = Some e" using Z by simp
  show ?thesis
  proof (cases "te_kind e = Directory")
    case True
    then obtain t where t: "te_target e = Some t" "stored_forest C s d t Y" "describes C s c Y"
      using e(1,2) by (auto simp: child_ok_def)
    have root: "part Z c = Y" using below forest_Nil [OF t(2)] by (auto simp: part_def fun_eq_iff)
    show ?thesis
    proof (cases "r = c")
      case True
      then show ?thesis using n self t(1,2) root by (auto simp: settled_def noted_def)
    next
      case False
      then obtain q where q: "r = c @ q" "q \<noteq> []" using r by (metis append_Nil2 append_take_drop_id below_def)
      have Zr: "Z r = Y q" using below q by simp
      have "noted C s Z r" using describesD [OF t(3) q(2)] q(1) Zr by (auto simp: noted_def)
      moreover have "part Z r = part Y q" using below q by (auto simp: part_def fun_eq_iff)
      ultimately show ?thesis using forest_part [OF t(2)] Zr by (auto simp: settled_def)
    qed
  next
    case False
    then have "Y = no_tree" using e(1) by (simp add: child_ok_def)
    have "\<not> is_folder n" using n(3) False by (auto simp: records_def node_ok_def is_folder_def split: entry_kind.splits)
    show ?thesis
    proof (cases "r = c")
      case True
      then show ?thesis using n self False by (auto simp: settled_def noted_def)
    next
      case no: False
      then obtain q where q: "r = c @ q" "q \<noteq> []" using r by (metis append_Nil2 append_take_drop_id below_def)
      have "\<not> seen C r" using view_ancestor [OF view _ q(2), of c] n(2) q(1) \<open>\<not> is_folder n\<close> by (auto simp: seen_def)
      then show ?thesis using below q \<open>Y = no_tree\<close> by (intro unseen_settled) (simp_all add: no_tree_def)
    qed
  qed
qed

section \<open>Recapturing\<close>

text \<open>What every step of the capture relies on.\<close>

definition changed_env :: "capture_env \<Rightarrow> bool" where
  "changed_env C \<longleftrightarrow> view_ok C \<and> xattrs_faithful (ce_os C) \<and> enough C \<and> names_fit C \<and> po_matcher (ce_policy C) = None"

lemma changed_envD:
  assumes "changed_env C"
  shows "view_ok C" "xattrs_faithful (ce_os C)" "enough C" "names_fit C" "po_matcher (ce_policy C) = None"
  using assms by (simp_all add: changed_env_def)

lemma drop_rows_grows: "capture_inv C st \<Longrightarrow> grows C st (drop_rows path st)"
  by (simp add: grows_def drop_rows_def index_remove_subtree_def on_tables_def Let_def)

lemma drop_rows_store [simp]: "cs_store (drop_rows path st) = cs_store st"
  by (simp add: drop_rows_def)

lemma recapture_ends:
  assumes C: "changed_env C" and inv: "capture_inv C st" and c: "tracked C c"
    and m: "mirrors (ce_lib C) (cs_index st) Z" "linked_below c Z"
  shows "ends_in (\<lambda>st'. grows C st st' \<and> (\<exists>Z'. mirrors (ce_lib C) (cs_index st') Z' \<and>
       (\<forall>r. \<not> (r = c \<or> below c r) \<longrightarrow> Z' r = Z r) \<and> (\<forall>r. r = c \<or> below c r \<longrightarrow> settled C (cs_store st') Z' r)))
     (recapture_path C (raw c) st)"
proof -
  note env = changed_envD [OF C]
  let ?L = "ce_lib C" and ?st = "drop_rows (raw c) st" and ?Z = "pruned c Z"
  have valid: "valid_fpath c" using c by (simp add: tracked_def)
  have g: "grows C st ?st" by (rule drop_rows_grows [OF inv])
  have rows: "mirrors ?L (cs_index ?st) ?Z" using mirrors_remove_subtree [OF m(1) valid m(2)] by (simp add: drop_rows_def)
  have hidden: "hidden C c \<longleftrightarrow> excludes_bytes (ce_policy C) (raw c)" by (rule tracked_hidden [OF env(5) c])
  have gone: "settled C s ?Z r" if no: "\<not> seen C c" and r: "r = c \<or> below c r" for r s
  proof (rule unseen_settled)
    show "\<not> seen C r" using r no seen_below [OF env(1)] valid by (auto simp: valid_fpath_def)
    show "?Z r = None" using r by (auto simp: pruned_def)
  qed
  have outside: "?Z r = Z r" if "\<not> (r = c \<or> below c r)" for r using that by (simp add: pruned_def)
  have unseen: ?thesis if r: "recapture_path C (raw c) st = Inr ?st" and no: "\<not> seen C c"
    unfolding r ends_in_Inr using g rows gone [OF no] outside by blast
  show ?thesis
  proof (cases "\<not> excludes_bytes (ce_policy C) (raw c) \<and> bt_get (ce_fs C) c \<noteq> None")
    case False
    then have "\<not> seen C c" using hidden by (auto simp: seen_def)
    moreover have "recapture_path C (raw c) st = Inr ?st" using False valid by (auto simp: recapture_path_def)
    ultimately show ?thesis by (rule unseen [rotated])
  next
    case True
    obtain p x where px: "c = p @ [x]" using valid by (cases c rule: rev_cases) (auto simp: valid_fpath_def)
    obtain n where n: "bt_get (ce_fs C) (p @ [x]) = Some n" using True px by auto
    have "\<forall>y\<in>set p. valid_name y" using valid px by (simp add: valid_fpath_def)
    moreover have "\<not> hidden C (p @ [x])" using True hidden px by simp
    moreover have "\<forall>q. bt_get (ce_fs C) (p @ [x] @ q) \<noteq> None \<longrightarrow> length q < ce_fuel C"
      using env(3) unfolding enough_def by fastforce
    ultimately have entry: "ends_in (\<lambda>(found, st'). grows C ?st st' \<and> captured C (ce_fuel C) p x ?st found st')
        (capture_path_entry C (capture_directory (ce_fuel C) C) c ?st)"
      unfolding px using capture_path_entry_ends [OF env(1-3) capture_directory_walks [OF env] grows_inv [OF g] _ _ n] px by blast
    let ?upd = "\<lambda>found st'. case found of None \<Rightarrow> st'
        | Some e \<Rightarrow> st'\<lparr>cs_index := index_upsert ?L (raw c) (relative_parent (raw c)) e (cs_index st')\<rparr>"
    have eq: "recapture_path C (raw c) st =
        rbind (capture_path_entry C (capture_directory (ce_fuel C) C) c ?st) (\<lambda>(found, st'). Inr (?upd found st'))"
      using True valid by (simp add: recapture_path_def)
    show ?thesis
      unfolding eq
    proof (rule ends_in_bind2 [OF entry], unfold ends_in_Inr, elim conjE)
      fix found st' assume g': "grows C ?st st'" and f: "captured C (ce_fuel C) p x ?st found st'"
      have g2: "grows C st st'" by (rule grows_trans [OF g g'])
      obtain Y where Y: "indexes C (cs_index ?st) c Y (cs_index st')" "case found of None \<Rightarrow> \<not> seen C c \<and> Y = no_tree
          | Some e \<Rightarrow> te_name e = x \<and> child_ok C (cs_store st') (ce_fuel C) p e Y"
        using f px by (auto simp: captured_def)
      have rows': "mirrors ?L (cs_index st') (graft c Y ?Z)" using Y(1) rows by (simp add: indexes_def)
      show "grows C st (?upd found st') \<and> (\<exists>Z'. mirrors ?L (cs_index (?upd found st')) Z' \<and>
         (\<forall>r. \<not> (r = c \<or> below c r) \<longrightarrow> Z' r = Z r) \<and>
         (\<forall>r. r = c \<or> below c r \<longrightarrow> settled C (cs_store (?upd found st')) Z' r))"
      proof (cases found)
        case None
        then have no: "\<not> seen C c" "Y = no_tree" using Y(2) by simp_all
        then show ?thesis using None g2 rows' gone [OF no(1)] outside by auto
      next
        case (Some e)
        then have e: "te_name e = x" "child_ok C (cs_store st') (ce_fuel C) p e Y" using Y(2) by simp_all
        let ?Z' = "(graft c Y ?Z)(c \<mapsto> e)"
        have "te_name e = last c" using e(1) px by simp
        from mirrors_upsert [OF rows' valid this] have "mirrors ?L (cs_index (?upd found st')) ?Z'"
          using Some relative_parent_raw [OF valid] by simp
        moreover have "?Z' r = Z r" if "\<not> (r = c \<or> below c r)" for r using that outside [OF that] by (auto simp: graft_def)
        moreover have "settled C (cs_store st') ?Z' r" if "r = c \<or> below c r" for r
          by (rule captured_settled [OF e(2) _ valid env(1) refl that]) (simp add: px e(1))
        moreover have "grows C st (?upd found st')" using g2 Some by (simp add: grows_def)
        ultimately show ?thesis using Some by auto
      qed
    qed
  qed
qed

text \<open>All changed paths, in the order of their bytes.\<close>

lemma changed_loop_ends:
  assumes C: "changed_env C" and X: "tree_like X"
  shows "capture_inv C st \<Longrightarrow> \<forall>c\<in>set cs. tracked C c \<Longrightarrow> sorted_wrt (<) (map raw cs) \<Longrightarrow>
     \<forall>c'\<in>D. \<forall>c\<in>set cs. raw c' < raw c \<Longrightarrow> mirrors (ce_lib C) (cs_index st) Z \<Longrightarrow> changes_inv C (cs_store st) X D Z \<Longrightarrow>
     ends_in (\<lambda>(found, st'). grows C st st' \<and> (case found of None \<Rightarrow> True | Some dirty' \<Rightarrow>
         set dirty' = set dirty \<union> {raw p |p. above (set cs) p} \<and>
         (\<exists>Z'. mirrors (ce_lib C) (cs_index st') Z' \<and> changes_inv C (cs_store st') X (D \<union> set cs) Z')))
       (capture_changed_loop C (map raw cs) dirty st)"
proof (induction cs arbitrary: st dirty D Z)
  case Nil
  then show ?case by (auto simp: grows_def above_def)
next
  case (Cons c cs)
  let ?L = "ce_lib C"
  have c: "tracked C c" "valid_fpath c" "c \<noteq> []" using Cons.prems(2) by (auto simp: tracked_def valid_fpath_def)
  have "\<not> (c' = c \<or> below c c')" if "c' \<in> D" for c'
  proof -
    have "raw c' < raw c" using that Cons.prems(4) by auto
    then show ?thesis using raw_below(1) [of c c'] c(3) by auto
  qed
  then have linked: "linked_below c Z"
    by (intro changes_inv_linked [OF Cons.prems(6) X changed_envD(1) [OF C] c(3)]) blast
  note step = recapture_ends [OF C Cons.prems(1) c(1) Cons.prems(5) linked]
  have parents: "\<forall>x\<in>set (butlast c). valid_name x" using c(2) by (auto simp: valid_fpath_def dest: in_set_butlastD)
  have dirty: "set (add_parents (relative_parent (raw c)) dirty) = set dirty \<union> {raw p |p. below p c}"
    unfolding relative_parent_raw [OF c(2)] add_parents_raw [OF parents]
    using c(3) by (cases c rule: rev_cases) (auto simp: below_snoc)
  show ?case
    unfolding list.map(2) capture_changed_loop.simps Let_def
  proof (rule ends_in_bind [OF step], elim conjE exE)
    fix st1 Z1 assume g: "grows C st st1" and m: "mirrors ?L (cs_index st1) Z1"
      and o: "\<forall>r. \<not> (r = c \<or> below c r) \<longrightarrow> Z1 r = Z r" and i: "\<forall>r. r = c \<or> below c r \<longrightarrow> settled C (cs_store st1) Z1 r"
    have inv: "changes_inv C (cs_store st1) X (insert c D) Z1"
      by (rule changes_inv_replace [OF Cons.prems(6) grows_keeps [OF g]]) (use o i in blast)+
    let ?dirty = "add_parents (relative_parent (raw c)) dirty"
    have ab: "set ?dirty \<union> {raw p |p. above (set cs) p} = set dirty \<union> {raw p |p. above (set (c # cs)) p}"
      unfolding dirty above_def by auto
    have un: "insert c D \<union> set cs = D \<union> set (c # cs)" by simp
    have "ends_in (\<lambda>(found, st'). grows C st1 st' \<and> (case found of None \<Rightarrow> True | Some dirty' \<Rightarrow>
         set dirty' = set ?dirty \<union> {raw p |p. above (set cs) p} \<and>
         (\<exists>Z'. mirrors ?L (cs_index st') Z' \<and> changes_inv C (cs_store st') X (insert c D \<union> set cs) Z')))
       (capture_changed_loop C (map raw cs) ?dirty st1)"
      by (rule Cons.IH [OF grows_inv [OF g] _ _ _ m inv]) (use Cons.prems(2-4) in auto)
    then have rest: "ends_in (\<lambda>(found, st'). grows C st st' \<and> (case found of None \<Rightarrow> True | Some dirty' \<Rightarrow>
         set dirty' = set dirty \<union> {raw p |p. above (set (c # cs)) p} \<and>
         (\<exists>Z'. mirrors ?L (cs_index st') Z' \<and> changes_inv C (cs_store st') X (D \<union> set (c # cs)) Z')))
       (capture_changed_loop C (map raw cs) ?dirty st1)"
      unfolding ab un by (rule ends_in_mono) (use grows_trans [OF g] in \<open>auto split: option.splits\<close>)
    show "ends_in (\<lambda>(found, st'). grows C st st' \<and> (case found of None \<Rightarrow> True | Some dirty' \<Rightarrow>
         set dirty' = set dirty \<union> {raw p |p. above (set (c # cs)) p} \<and>
         (\<exists>Z'. mirrors ?L (cs_index st') Z' \<and> changes_inv C (cs_store st') X (D \<union> set (c # cs)) Z')))
       (if found_new_link (cs_index st1) (raw c) (index_link_identity (cs_index st) (raw c)) then Inr (None, st1)
        else capture_changed_loop C (map raw cs) ?dirty st1)"
      using rest g by simp
  qed
qed

end
