(* ===== verification/Changed_Dirs.thy ===== *)
theory Changed_Dirs
  imports Changed_Rows
begin

text \<open>
  The second half of a capture of changed paths: the directories above the changed paths are written
  again from their rows, the deepest first, until all rows are settled.
\<close>

section \<open>A directory from its rows\<close>

lemma builder_pushes_end:
  "map_inv L s \<Longrightarrow> builder_repr (map_read_tree L) s b es \<Longrightarrow> names_sorted (es @ xs) \<Longrightarrow>
   ends_in (\<lambda>(b', s'). map_inv L s' \<and> keeps L s s' \<and> builder_repr (map_read_tree L) s' b' (es @ xs))
     (rfold (\<lambda>(b, s) e. builder_push L (map_put_tree L) s b e) (b, s) xs)"
proof (induction xs arbitrary: s b es)
  case (Cons x xs)
  have "\<forall>y\<in>set es. te_name y < te_name x" using Cons.prems(3) by (auto simp: names_sorted_def sorted_wrt_append)
  note push = builder_push_ends [OF Cons.prems(1,2) this]
  show ?case
    unfolding rfold.simps prod.case
  proof (rule ends_in_bind [OF push], clarify)
    fix b1 s1 assume 1: "map_inv L s1" "keeps L s s1" "builder_repr (map_read_tree L) s1 b1 (es @ [x])"
    have "ends_in (\<lambda>(b', s'). map_inv L s' \<and> keeps L s1 s' \<and> builder_repr (map_read_tree L) s' b' ((es @ [x]) @ xs))
       (rfold (\<lambda>(b, s) e. builder_push L (map_put_tree L) s b e) (b1, s1) xs)"
      by (rule Cons.IH [OF 1(1,3)]) (use Cons.prems(3) in simp)
    then show "ends_in (\<lambda>(b', s'). map_inv L s' \<and> keeps L s s' \<and> builder_repr (map_read_tree L) s' b' (es @ x # xs))
       (rfold (\<lambda>(b, s) e. builder_push L (map_put_tree L) s b e) (b1, s1) xs)"
      by (rule ends_in_mono) (use keeps_trans [OF 1(2)] in auto)
  qed
qed simp

lemma filter_after:
  assumes "names_sorted (xs @ ys)" "\<forall>e\<in>set (xs @ ys). te_name e \<noteq> []"
  shows "filter (\<lambda>e. (case (if xs = [] then None else Some (te_name (last xs))) of None \<Rightarrow> [] | Some name \<Rightarrow> name) < te_name e) (xs @ ys) = ys"
proof (cases "xs = []")
  case True
  have "[] < name \<longleftrightarrow> name \<noteq> []" for name :: bytes by (cases name) auto
  then show ?thesis using True assms(2) by (simp add: filter_id_conv)
next
  case False
  then obtain zs z where z: "xs = zs @ [z]" by (cases xs rule: rev_cases) auto
  have "te_name e < te_name z" if "e \<in> set zs" for e using that assms(1) z by (auto simp: names_sorted_def sorted_wrt_append)
  then have "filter (\<lambda>e. te_name z < te_name e) zs = []" by (auto simp: filter_empty_conv dest: less_asym)
  moreover have "filter (\<lambda>e. te_name z < te_name e) ys = ys"
    using assms(1) z by (auto simp: names_sorted_def sorted_wrt_append filter_id_conv)
  ultimately show ?thesis using z by simp
qed

lemma rebuild_loop_ends:
  assumes m: "mirrors (ce_lib C) ix Z" and p: "\<forall>x\<in>set p. valid_name x" and parse: "parses_entries (ce_lib C) parse_entry"
  shows "dir_entries Z p = xs @ ys \<Longrightarrow> length ys < n \<Longrightarrow> capture_inv C st \<Longrightarrow> cs_index st = ix \<Longrightarrow>
     builder_repr (map_read_tree (ce_lib C)) (cs_store st) b xs \<Longrightarrow>
     ends_in (\<lambda>(b', st'). grows C st st' \<and> cs_index st' = ix \<and>
         builder_repr (map_read_tree (ce_lib C)) (cs_store st') b' (dir_entries Z p))
       (rebuild_loop n C parse_entry (raw p) (if xs = [] then None else Some (te_name (last xs))) (b, st))"
proof (induction n arbitrary: xs ys st b)
  case (Suc n)
  let ?L = "ce_lib C" and ?after = "if xs = [] then None else Some (te_name (last xs))"
  have sorted: "names_sorted (xs @ ys)" using dir_entries_sorted [OF m, of p] Suc.prems(1) by simp
  have "\<forall>e\<in>set (xs @ ys). te_name e \<noteq> []"
  proof
    fix e assume "e \<in> set (xs @ ys)"
    then have "e \<in> set (dir_entries Z p)" unfolding Suc.prems(1) .
    from conjunct1 [OF mirrorsD(2) [OF m dir_entriesD [OF m this]]]
    show "te_name e \<noteq> []" by (auto simp: valid_fpath_def valid_name_def)
  qed
  from filter_after [OF sorted this] have batch: "index_children_after parse_entry (cs_index st) (raw p) ?after CHILD_BATCH = Inr (take CHILD_BATCH ys)"
    using children_after_mirrors [OF m p parse, of ?after CHILD_BATCH] Suc.prems(1,4) by simp
  show ?case
  proof (cases "ys = []")
    case True
    then show ?thesis using batch Suc.prems by (simp add: grows_def)
  next
    case False
    let ?ts = "take CHILD_BATCH ys" and ?rest = "drop CHILD_BATCH ys"
    have ne: "?ts \<noteq> []" using False by (simp add: CHILD_BATCH_def)
    have "names_sorted (xs @ ?ts)"
      using sorted by (metis append_assoc append_take_drop_id map_append names_sorted_def sorted_wrt_append)
    moreover have "map_inv ?L (cs_store st)" using Suc.prems(3) by (simp add: capture_inv_def)
    ultimately have pushes: "ends_in (\<lambda>(b', s'). map_inv ?L s' \<and> keeps ?L (cs_store st) s' \<and> builder_repr (map_read_tree ?L) s' b' (xs @ ?ts))
       (rfold (\<lambda>(b, s) e. builder_push ?L (map_put_tree ?L) s b e) (b, cs_store st) ?ts)"
      using builder_pushes_end Suc.prems(5) by blast
    have eq: "rebuild_loop (Suc n) C parse_entry (raw p) ?after (b, st) =
       rbind (rfold (\<lambda>(b, s) e. builder_push ?L (map_put_tree ?L) s b e) (b, cs_store st) ?ts) (\<lambda>(b, s).
         rebuild_loop n C parse_entry (raw p) (Some (te_name (last ?ts))) (b, st\<lparr>cs_store := s\<rparr>))"
      using batch ne by simp
    show ?thesis
      unfolding eq
    proof (rule ends_in_bind2 [OF pushes], elim conjE)
      fix b' s' assume s': "map_inv ?L s'" "keeps ?L (cs_store st) s'" "builder_repr (map_read_tree ?L) s' b' (xs @ ?ts)"
      let ?st = "st\<lparr>cs_store := s'\<rparr>"
      have g: "grows C st ?st" by (rule capture_inv_store [OF Suc.prems(3) s'(1,2)])
      have "length ?rest < n" using Suc.prems(2) False by (simp add: CHILD_BATCH_def) (cases ys, auto)
      then have "ends_in (\<lambda>(b', st'). grows C ?st st' \<and> cs_index st' = ix \<and>
         builder_repr (map_read_tree ?L) (cs_store st') b' (dir_entries Z p))
       (rebuild_loop n C parse_entry (raw p) (if xs @ ?ts = [] then None else Some (te_name (last (xs @ ?ts)))) (b', ?st))"
        by (intro Suc.IH [of "xs @ ?ts" ?rest]) (use Suc.prems(1,4) s'(3) grows_inv [OF g] in simp_all)
      then show "ends_in (\<lambda>(b', st'). grows C st st' \<and> cs_index st' = ix \<and>
         builder_repr (map_read_tree ?L) (cs_store st') b' (dir_entries Z p))
       (rebuild_loop n C parse_entry (raw p) (Some (te_name (last ?ts))) (b', ?st))"
        using ne by (auto elim!: ends_in_mono dest: grows_trans [OF g])
    qed
  qed
qed simp

lemma rebuild_ends:
  assumes C: "changed_env C" and inv: "capture_inv C st" and m: "mirrors (ce_lib C) (cs_index st) Z"
    and p: "\<forall>x\<in>set p. valid_name x" and parse: "parses_entries (ce_lib C) parse_entry"
    and names: "entry_names Z p \<subseteq> dir_names C p"
  shows "ends_in (\<lambda>(i, st'). grows C st st' \<and> cs_index st' = cs_index st \<and>
       paged (map_read_tree (ce_lib C)) (cs_store st') i (dir_entries Z p)) (rebuild_indexed_directory C parse_entry (raw p) st)"
proof -
  note env = changed_envD [OF C]
  let ?L = "ce_lib C" and ?es = "dir_entries Z p"
  have fin: "finite (dir_names C p)" by (rule finite_dir_names [OF env(1)])
  have "map te_name ?es = sorted_list_of_set (entry_names Z p)" by (rule dir_entries_names [OF m])
  then have es: "te_name ` set ?es = entry_names Z p" "length ?es = card (entry_names Z p)"
    using entry_names_finite [OF m, of p] by (metis list.set_map set_sorted_list_of_set, metis length_map length_sorted_list_of_set)
  have len: "length ?es \<le> ce_fuel C" using es(2) card_mono [OF fin names] env(3) unfolding enough_def by (metis le_trans)
  have fit: "pages_fit ?L (te_name ` set ?es)" using env(4) pages_fit_mono names es(1) by (metis names_fit_def)
  have start: "builder_repr (map_read_tree ?L) (cs_store st) builder_new []" by (simp add: builder_repr_def builder_new_def)
  have loop: "ends_in (\<lambda>(b', st'). grows C st st' \<and> cs_index st' = cs_index st \<and> builder_repr (map_read_tree ?L) (cs_store st') b' ?es)
     (rebuild_loop (Suc (ce_fuel C)) C parse_entry (raw p) None (builder_new, st))"
    using rebuild_loop_ends [OF m p parse, of "[]" ?es "Suc (ce_fuel C)" st builder_new] inv start len by simp
  show ?thesis
    unfolding rebuild_indexed_directory_def
  proof (rule ends_in_bind2 [OF loop], elim conjE)
    fix b st1 assume 1: "grows C st st1" "cs_index st1 = cs_index st" "builder_repr (map_read_tree ?L) (cs_store st1) b ?es"
    have "map_inv ?L (cs_store st1)" using grows_inv [OF 1(1)] by (simp add: capture_inv_def)
    from builder_finish_ends [OF this 1(3) fit] len
    have finish: "ends_in (\<lambda>(root, s'). map_inv ?L s' \<and> keeps ?L (cs_store st1) s' \<and> paged (map_read_tree ?L) s' root ?es)
       (builder_finish ?L (map_put_tree ?L) (ce_fuel C) (cs_store st1) b)" by simp
    show "ends_in (\<lambda>(i, st'). grows C st st' \<and> cs_index st' = cs_index st \<and> paged (map_read_tree ?L) (cs_store st') i ?es)
       (rbind (builder_finish ?L (map_put_tree ?L) (ce_fuel C) (cs_store st1) b) (\<lambda>(root, s). Inr (root, st1\<lparr>cs_store := s\<rparr>)))"
      by (rule ends_in_bind2 [OF finish])
        (use grows_trans [OF 1(1)] capture_inv_store [OF grows_inv [OF 1(1)]] 1(2) in auto)
  qed
qed

section \<open>The tree of settled rows\<close>

lemma common_depth:
  "\<forall>e\<in>set es. te_kind e = Directory \<longrightarrow> (\<exists>t d. te_target e = Some t \<and> stored_forest C s d t (F e)) \<Longrightarrow>
   \<exists>d. \<forall>e\<in>set es. te_kind e = Directory \<longrightarrow> (\<exists>t. te_target e = Some t \<and> stored_forest C s d t (F e))"
proof (induction es)
  case (Cons e es)
  then obtain d where d: "\<forall>e\<in>set es. te_kind e = Directory \<longrightarrow> (\<exists>t. te_target e = Some t \<and> stored_forest C s d t (F e))" by auto
  show ?case
  proof (cases "te_kind e = Directory")
    case True
    then obtain t d' where t: "te_target e = Some t" "stored_forest C s d' t (F e)" using Cons.prems by auto
    have "\<forall>e\<in>set (e # es). te_kind e = Directory \<longrightarrow> (\<exists>t. te_target e = Some t \<and> stored_forest C s (max d d') t (F e))"
      using t d forest_mono [of "map_read_tree (ce_lib C)" s _ _ _ "max d d'"] by (auto intro: forest_mono)
    then show ?thesis by blast
  next
    case False
    then show ?thesis using d by auto
  qed
qed simp

lemma lookup_dir_entries: "mirrors L ix Z \<Longrightarrow> lookup_entry (dir_entries Z p) name = Z (p @ [name])"
proof (cases "Z (p @ [name])")
  case None
  assume m: "mirrors L ix Z"
  then have "lookup_entry (dir_entries Z p) name \<noteq> Some e" for e
    using None dir_entriesD [OF m, of e p] by (auto dest: lookup_entry_SomeD)
  then show ?thesis using None by (cases "lookup_entry (dir_entries Z p) name") auto
next
  case (Some e)
  assume m: "mirrors L ix Z"
  have "e \<in> set (dir_entries Z p)" using dir_entries_set [OF m, of p] Some by blast
  moreover have "te_name e = name" using mirrorsD(2) [OF m Some] by simp
  ultimately show ?thesis using Some lookup_entry_Some_iff [OF dir_entries_sorted [OF m]] by simp
qed

lemma settled_tree:
  assumes view: "view_ok C" and m: "mirrors (ce_lib C) ix Z" and below: "\<And>q. below p q \<Longrightarrow> settled C s Z q"
    and i: "paged (map_read_tree (ce_lib C)) s i (dir_entries Z p)"
  shows "\<exists>d. stored_forest C s d i (part Z p)"
proof -
  let ?es = "dir_entries Z p" and ?F = "\<lambda>e. part Z (p @ [te_name e])"
  have row: "Z (p @ [te_name e]) = Some e" if "e \<in> set ?es" for e by (rule dir_entriesD [OF m that])
  have "\<forall>e\<in>set ?es. te_kind e = Directory \<longrightarrow> (\<exists>t d. te_target e = Some t \<and> stored_forest C s d t (?F e))"
  proof (intro ballI impI)
    fix e assume "e \<in> set ?es" "te_kind e = Directory"
    then show "\<exists>t d. te_target e = Some t \<and> stored_forest C s d t (?F e)"
      using below [of "p @ [te_name e]"] row by (simp add: settled_def)
  qed
  from common_depth [OF this] obtain d where
    d: "\<forall>e\<in>set ?es. te_kind e = Directory \<longrightarrow> (\<exists>t. te_target e = Some t \<and> stored_forest C s d t (?F e))" by blast
  have names: "\<forall>e\<in>set ?es. valid_name (te_name e)"
  proof
    fix e assume "e \<in> set ?es"
    from conjunct1 [OF mirrorsD(2) [OF m row [OF this]]] show "valid_name (te_name e)" by (simp add: valid_fpath_def)
  qed
  have "tree_of ?es ?F = part Z p"
  proof
    fix q
    show "tree_of ?es ?F q = part Z p q"
    proof (cases q)
      case Nil
      then show ?thesis by (simp add: tree_of_def part_def)
    next
      case (Cons name r)
      have inner: "Z (p @ name # r) = None" if r: "r \<noteq> []" and no: "\<not> is_dir (Z (p @ [name]))"
      proof (rule ccontr)
        assume "Z (p @ name # r) \<noteq> None"
        moreover have "noted C s Z (p @ name # r)" using below [of "p @ name # r"] settled_noted by simp
        ultimately have "seen C ((p @ [name]) @ r)" using noted_some by simp
        then have "seen C (p @ [name])" and f: "\<exists>n. bt_get (ce_fs C) (p @ [name]) = Some n \<and> is_folder n"
          using seen_prefix [OF view, of "p @ [name]" r] view_ancestor [OF view _ r, of "p @ [name]"] by (auto simp: seen_def)
        then obtain e n where "Z (p @ [name]) = Some e" "records C s e n" "is_folder n"
          using settled_noted [OF below [of "p @ [name]"]] by (auto simp: noted_def)
        then show False using no by (auto simp: is_dir_def records_def node_ok_def is_folder_def split: entry_kind.splits)
      qed
      show ?thesis
      proof (cases "Z (p @ [name])")
        case None
        then show ?thesis
          using Cons lookup_dir_entries [OF m, of p name] inner by (cases "r = []") (simp_all add: tree_of_def part_def is_dir_def)
      next
        case (Some e)
        then have "te_name e = name" using mirrorsD(2) [OF m Some] by simp
        then show ?thesis
          using Cons Some lookup_dir_entries [OF m, of p name] inner
          by (cases "r = []"; cases "te_kind e = Directory") (simp_all add: tree_of_def part_def is_dir_def)
      qed
    qed
  qed
  then show ?thesis using tree_of_forest [OF i dir_entries_sorted [OF m] names d] by metis
qed

lemma directory_entry_ends:
  assumes C: "changed_env C" and inv: "capture_inv C st" and n: "bt_get (ce_fs C) p = Some n" "is_folder n"
  shows "ends_in (\<lambda>(e, st'). grows C st st' \<and> cs_index st' = cs_index st \<and> te_name e = last p \<and> te_kind e = Directory \<and>
       te_target e = Some t \<and> records C (cs_store st') e n) (directory_entry C p t st)"
proof -
  have map: "map_inv (ce_lib C) (cs_store st)" using inv by (simp add: capture_inv_def)
  note x = capture_xattrs_ends [OF map changed_envD(2) [OF C], of n]
  have mode: "st_mode (stat_at C p n) = nd_mode n" by (simp add: stat_at_def Let_def)
  show ?thesis
    unfolding directory_entry_def n(1) of_opt_simps rbind.simps Let_def time_recorded split_def mode
    by (rule ends_in_bind [OF x])
      (use capture_inv_store [OF inv] n(2) in \<open>auto simp: records_def node_ok_def entry_mtime_def is_folder_def\<close>)
qed

section \<open>The dirty directories\<close>

text \<open>
  All rows but those of the directories in \<open>R\<close> are settled. A directory in \<open>R\<close> is still a directory, or it is
  gone, or its row is right.
\<close>

definition dirty_inv :: "capture_env \<Rightarrow> object_map \<Rightarrow> tree_map \<Rightarrow> fpath set \<Rightarrow> bool" where
  "dirty_inv C s Z R \<longleftrightarrow> (\<forall>r. r \<noteq> [] \<longrightarrow> r \<notin> R \<longrightarrow> settled C s Z r) \<and>
     (\<forall>r\<in>R. r \<noteq> [] \<longrightarrow> tracked C r \<and> ((\<forall>n. bt_get (ce_fs C) r = Some n \<longrightarrow> is_folder n) \<or> noted C s Z r))"

lemma dirty_inv_settle:
  assumes inv: "dirty_inv C s Z (insert p R)" and keep: "keeps (ce_lib C) s s'" and p: "\<forall>q. below q p \<longrightarrow> q = [] \<or> q \<in> R"
    and other: "\<And>r. r \<noteq> p \<Longrightarrow> Z' r = Z r" and self: "settled C s' Z' p"
  shows "dirty_inv C s' Z' R"
proof -
  have "settled C s' Z' r" if r: "r \<noteq> []" "r \<notin> R" for r
  proof (cases "r = p")
    case False
    then have "settled C s' Z r" using inv r settled_keeps [OF _ keep] by (auto simp: dirty_inv_def)
    then show ?thesis
    proof (rule settled_cong [of C s' Z r Z'])
      show "Z' r = Z r" by (rule other [OF False])
      fix q assume "below r q"
      then have "q \<noteq> p" using p r by auto
      then show "Z' q = Z q" by (rule other)
    qed
  qed (use self in simp)
  moreover have "(\<forall>n. bt_get (ce_fs C) r = Some n \<longrightarrow> is_folder n) \<or> noted C s' Z' r" if r: "r \<in> R" "r \<noteq> []" for r
  proof (cases "r = p")
    case True
    then show ?thesis using self settled_noted by blast
  next
    case False
    then show ?thesis using inv r noted_keeps [OF _ keep] noted_cong [of C s' Z r Z'] other [OF False] by (auto simp: dirty_inv_def)
  qed
  ultimately show ?thesis using inv by (auto simp: dirty_inv_def)
qed

lemma rebuild_dirty_ends:
  assumes C: "changed_env C" and parse: "parses_entries (ce_lib C) parse_entry" and inv: "capture_inv C st"
    and m: "mirrors (ce_lib C) (cs_index st) Z" and d: "dirty_inv C (cs_store st) Z (insert p R)"
    and p: "p \<noteq> []" "tracked C p" "\<forall>q. below q p \<longrightarrow> q = [] \<or> q \<in> R" "\<forall>q. below p q \<longrightarrow> q \<notin> insert p R"
  shows "ends_in (\<lambda>(root', st'). root' = root \<and> grows C st st' \<and>
       (\<exists>Z'. mirrors (ce_lib C) (cs_index st') Z' \<and> dirty_inv C (cs_store st') Z' R))
     (rebuild_dirty C parse_entry (root, st) (raw p))"
proof -
  note env = changed_envD [OF C]
  let ?L = "ce_lib C" and ?st = "drop_rows (raw p) st"
  have valid: "valid_fpath p" "\<forall>x\<in>set p. valid_name x" "raw p \<noteq> []" using p(2) raw_hd [of p] by (auto simp: tracked_def valid_fpath_def)
  have refl: "keeps ?L (cs_store st) (cs_store st)" by simp
  have below: "settled C (cs_store st) Z q" if "below p q" for q
    using d that p(4) by (cases "q = []") (auto simp: dirty_inv_def)
  have dropped: ?thesis if no: "\<not> seen C p" and r: "rebuild_dirty C parse_entry (root, st) (raw p) = Inr (root, ?st)"
  proof -
    have none: "Z q = None" if "below p q" for q
      using noted_some [OF settled_noted [OF below [OF that]]] seen_below [OF env(1) _ that p(1)] no by blast
    then have "linked_below p Z" by (simp add: linked_below_def)
    from mirrors_remove_subtree [OF m valid(1) this]
    have m': "mirrors ?L (cs_index ?st) (pruned p Z)" by (simp add: drop_rows_def)
    have "dirty_inv C (cs_store ?st) (pruned p Z) R"
      by (rule dirty_inv_settle [OF d _ p(3)]) (use none unseen_settled [OF no] in \<open>auto simp: pruned_def\<close>)
    then show ?thesis unfolding r ends_in_Inr prod.case using drop_rows_grows [OF inv] m' by blast
  qed
  have hidden: "hidden C p \<longleftrightarrow> excludes_bytes (ce_policy C) (raw p)" by (rule tracked_hidden [OF env(5) p(2)])
  show ?thesis
  proof (cases "excludes_bytes (ce_policy C) (raw p) \<or> bt_get (ce_fs C) p = None")
    case True
    then show ?thesis using hidden valid by (intro dropped) (auto simp: seen_def rebuild_dirty_def)
  next
    case False
    then obtain n where n: "bt_get (ce_fs C) p = Some n" by auto
    show ?thesis
    proof (cases "is_folder n")
      case no: False
      have nt: "noted C (cs_store st) Z p" using d n no p(1) by (auto simp: dirty_inv_def)
      have "te_kind e \<noteq> Directory" if "Z p = Some e" for e
        using nt that n no by (auto simp: noted_def records_def node_ok_def split: if_splits)
      then have "settled C (cs_store st) Z p" using nt by (simp add: settled_def)
      then have "dirty_inv C (cs_store st) Z R" by (intro dirty_inv_settle [OF d refl p(3)]) simp_all
      then show ?thesis using False n no valid m inv by (auto simp: rebuild_dirty_def grows_def)
    next
      case folder: True
      have "entry_names Z p \<subseteq> dir_names C p"
      proof
        fix name assume "name \<in> entry_names Z p"
        then have "Z (p @ [name]) \<noteq> None" by (simp add: entry_names_def)
        then show "name \<in> dir_names C p"
          using noted_some [OF settled_noted [OF below [of "p @ [name]"]]] by (auto simp: dir_names_def seen_def)
      qed
      note rebuild = rebuild_ends [OF C inv m valid(2) parse this]
      have eq: "rebuild_dirty C parse_entry (root, st) (raw p) =
          rbind (rebuild_indexed_directory C parse_entry (raw p) st) (\<lambda>(t, st).
          rbind (directory_entry C p t st) (\<lambda>(e, st).
            Inr (root, st\<lparr>cs_index := index_upsert ?L (raw p) (raw (butlast p)) e (cs_index st)\<rparr>)))"
        using False n folder valid relative_parent_raw [OF valid(1)] by (simp add: rebuild_dirty_def)
      show ?thesis
        unfolding eq
      proof (rule ends_in_bind2 [OF rebuild], elim conjE)
        fix t st1 assume 1: "grows C st st1" "cs_index st1 = cs_index st" "paged (map_read_tree ?L) (cs_store st1) t (dir_entries Z p)"
        show "ends_in (\<lambda>(root', st'). root' = root \<and> grows C st st' \<and>
             (\<exists>Z'. mirrors ?L (cs_index st') Z' \<and> dirty_inv C (cs_store st') Z' R))
           (rbind (directory_entry C p t st1) (\<lambda>(e, st).
            Inr (root, st\<lparr>cs_index := index_upsert ?L (raw p) (raw (butlast p)) e (cs_index st)\<rparr>)))"
        proof (rule ends_in_bind2 [OF directory_entry_ends [OF C grows_inv [OF 1(1)] n folder]], elim conjE, unfold ends_in_Inr prod.case)
          fix e st2 assume 2: "grows C st1 st2" "cs_index st2 = cs_index st1" "te_name e = last p" "te_kind e = Directory"
            "te_target e = Some t" "records C (cs_store st2) e n"
          let ?st2 = "st2\<lparr>cs_index := index_upsert ?L (raw p) (raw (butlast p)) e (cs_index st2)\<rparr>" and ?Z = "Z(p \<mapsto> e)"
          have g: "grows C st st2" by (rule grows_trans [OF 1(1) 2(1)])
          have m2: "mirrors ?L (cs_index ?st2) ?Z" using mirrors_upsert [OF m valid(1) 2(3)] 1(2) 2(2) by simp
          have i: "paged (map_read_tree ?L) (cs_store st2) t (dir_entries Z p)"
            by (rule paged_extends [OF 1(3) keeps_extends [OF grows_keeps [OF 2(1)]]])
          obtain k where k: "stored_forest C (cs_store st2) k t (part Z p)"
            using settled_tree [OF env(1) m _ i] settled_keeps [OF below grows_keeps [OF g]] by blast
          have "part ?Z p = part Z p" by (auto simp: part_def fun_eq_iff)
          then have "settled C (cs_store st2) ?Z p"
            using k 2(4-6) n False hidden folder by (auto simp: settled_def noted_def seen_def is_folder_def)
          then have "dirty_inv C (cs_store ?st2) ?Z R"
            by (intro dirty_inv_settle [OF d _ p(3)]) (use grows_keeps [OF g] in simp_all)
          moreover have "grows C st ?st2" using g by (simp add: grows_def)
          ultimately show "root = root \<and> grows C st ?st2 \<and> (\<exists>Z'. mirrors ?L (cs_index ?st2) Z' \<and> dirty_inv C (cs_store ?st2) Z' R)"
            using m2 by blast
        qed
      qed
    qed
  qed
qed

lemma rebuild_all_ends:
  assumes C: "changed_env C" and parse: "parses_entries (ce_lib C) parse_entry"
  shows "capture_inv C st \<Longrightarrow> mirrors (ce_lib C) (cs_index st) Z \<Longrightarrow> dirty_inv C (cs_store st) Z (set R) \<Longrightarrow>
     [] \<notin> set R \<Longrightarrow> sorted_wrt (\<lambda>p q. length q \<le> length p \<and> p \<noteq> q) R \<Longrightarrow>
     \<forall>p\<in>set R. \<forall>q. below q p \<longrightarrow> q = [] \<or> q \<in> set R \<Longrightarrow>
     ends_in (\<lambda>(root', st'). root' = root \<and> grows C st st' \<and>
       (\<exists>Z'. mirrors (ce_lib C) (cs_index st') Z' \<and> dirty_inv C (cs_store st') Z' {}))
     (rfold (rebuild_dirty C parse_entry) (root, st) (map raw R))"
proof (induction R arbitrary: st Z)
  case Nil
  then show ?case by (auto simp: grows_def)
next
  case (Cons p R)
  have p: "p \<noteq> []" "tracked C p" using Cons.prems(3,4) by (auto simp: dirty_inv_def)
  have shorter: "length q < length p \<Longrightarrow> q \<noteq> p" for q by auto
  have up: "\<forall>r\<in>set R. \<forall>q. below q r \<longrightarrow> q = [] \<or> q \<in> set R"
  proof (intro ballI allI impI)
    fix r q assume r: "r \<in> set R" "below q r"
    then have "length q < length p" using Cons.prems(5) by (auto simp: below_def)
    then show "q = [] \<or> q \<in> set R" using Cons.prems(6) r by auto
  qed
  have above_p: "\<forall>q. below q p \<longrightarrow> q = [] \<or> q \<in> set R" using Cons.prems(6) by auto
  have below_p: "\<forall>q. below p q \<longrightarrow> q \<notin> insert p (set R)" using Cons.prems(5) by (auto simp: below_def)
  have d: "dirty_inv C (cs_store st) Z (insert p (set R))" using Cons.prems(3) by simp
  note step = rebuild_dirty_ends [OF C parse Cons.prems(1,2) d p above_p below_p, of root]
  show ?case
    unfolding list.map(2) rfold.simps
  proof (rule ends_in_bind [OF step], clarify)
    fix st1 Z1 assume 1: "grows C st st1" "mirrors (ce_lib C) (cs_index st1) Z1" "dirty_inv C (cs_store st1) Z1 (set R)"
    have "ends_in (\<lambda>(root', st'). root' = root \<and> grows C st1 st' \<and>
       (\<exists>Z'. mirrors (ce_lib C) (cs_index st') Z' \<and> dirty_inv C (cs_store st') Z' {}))
     (rfold (rebuild_dirty C parse_entry) (root, st1) (map raw R))"
      by (rule Cons.IH [OF grows_inv [OF 1(1)] 1(2,3)]) (use Cons.prems(4,5) up in auto)
    then show "ends_in (\<lambda>(root', st'). root' = root \<and> grows C st st' \<and>
       (\<exists>Z'. mirrors (ce_lib C) (cs_index st') Z' \<and> dirty_inv C (cs_store st') Z' {}))
     (rfold (rebuild_dirty C parse_entry) (root, st1) (map raw R))"
      by (rule ends_in_mono) (use grows_trans [OF 1(1)] in auto)
  qed
qed

end
