(* ===== verification/Changed_Capture.thy ===== *)
theory Changed_Capture
  imports Changed_Dirs
begin

text \<open>
  A capture of changed paths as a whole: from an index whose rows are the tree of the last capture, and
  changed paths that cover all that is different now, to a tree of the present workspace.
\<close>

section \<open>The root\<close>

lemma settled_describes: "\<forall>r. r \<noteq> [] \<longrightarrow> settled C s Z r \<Longrightarrow> describes C s [] Z"
  using settled_noted unfolding describes_def noted_def by fastforce

lemma part_Nil: "Z [] = None \<Longrightarrow> part Z [] = Z"
  by (auto simp: part_def fun_eq_iff)

lemma mirrors_Nil: "mirrors L ix Z \<Longrightarrow> Z [] = None"
  using mirrorsD(2) [of L ix Z "[]"] by (cases "Z []") (auto simp: valid_fpath_def)

lemma excludes_root: "po_matcher P = None \<Longrightarrow> [] \<notin> set (po_excluded P) \<Longrightarrow> \<not> excludes_bytes P []"
  by (auto simp: excludes_bytes_def list_ex_iff covers_path_def)

lemma rebuild_root_ends:
  assumes C: "changed_env C" and parse: "parses_entries (ce_lib C) parse_entry" and P: "[] \<notin> set (po_excluded (ce_policy C))"
    and inv: "capture_inv C st" and m: "mirrors (ce_lib C) (cs_index st) Z" and d: "dirty_inv C (cs_store st) Z {}"
  shows "ends_in (\<lambda>(t, st'). grows C st st' \<and> cs_index st' = cs_index st \<and>
       (\<exists>k. stored_forest C (cs_store st') k t Z) \<and> describes C (cs_store st') [] Z)
     (rebuild_dirty C parse_entry (root, st) [])"
proof -
  note env = changed_envD [OF C]
  obtain n where n: "bt_get (ce_fs C) [] = Some n" "is_folder n" using env(1) by (auto simp: view_ok_def)
  have settled: "settled C (cs_store st) Z r" if "r \<noteq> []" for r using d that by (simp add: dirty_inv_def)
  have "entry_names Z [] \<subseteq> dir_names C []"
  proof
    fix name assume "name \<in> entry_names Z []"
    then have "Z [name] \<noteq> None" by (simp add: entry_names_def)
    then show "name \<in> dir_names C []" using noted_some [OF settled_noted [OF settled [of "[name]"]]] by (auto simp: dir_names_def seen_def)
  qed
  then have rebuild: "ends_in (\<lambda>(i, st'). grows C st st' \<and> cs_index st' = cs_index st \<and>
       paged (map_read_tree (ce_lib C)) (cs_store st') i (dir_entries Z [])) (rebuild_indexed_directory C parse_entry [] st)"
    using rebuild_ends [OF C inv m _ parse, of "[]"] by simp
  have eq: "rebuild_dirty C parse_entry (root, st) [] = rbind (rebuild_indexed_directory C parse_entry [] st) (\<lambda>(t, st). Inr (t, st))"
    using n excludes_root [OF env(5) P] safe_join_all [of "[]"] by (simp add: rebuild_dirty_def)
  show ?thesis
    unfolding eq
  proof (rule ends_in_bind2 [OF rebuild], elim conjE, unfold ends_in_Inr prod.case)
    fix t st' assume 1: "grows C st st'" "cs_index st' = cs_index st" "paged (map_read_tree (ce_lib C)) (cs_store st') t (dir_entries Z [])"
    have s: "settled C (cs_store st') Z r" if "r \<noteq> []" for r using settled_keeps [OF settled [OF that] grows_keeps [OF 1(1)]] .
    have "\<exists>k. stored_forest C (cs_store st') k t (part Z [])" by (rule settled_tree [OF env(1) m _ 1(3)]) (use s in auto)
    then show "grows C st st' \<and> cs_index st' = cs_index st \<and> (\<exists>k. stored_forest C (cs_store st') k t Z) \<and> describes C (cs_store st') [] Z"
      using 1(1,2) part_Nil [of Z] mirrors_Nil [OF m] settled_describes s by auto
  qed
qed

section \<open>What the changed paths have to cover\<close>

text \<open>
  Outside the changed paths the workspace is what the tree \<open>X\<close> records. Only the directories above a
  changed path may have another mode, time or attributes, or be gone or new.
\<close>

definition changes_cover :: "capture_env \<Rightarrow> object_map \<Rightarrow> tree_map \<Rightarrow> fpath set \<Rightarrow> bool" where
  "changes_cover C s X D \<longleftrightarrow> (\<forall>r. r \<noteq> [] \<longrightarrow> \<not> touched D r \<longrightarrow>
     (if above D r then \<forall>n. bt_get (ce_fs C) r = Some n \<longrightarrow> is_folder n else noted C s X r))"

lemma cover_dirty:
  assumes X: "stored_forest C s0 d root X" and cover: "changes_cover C s0 X D" and keep: "keeps (ce_lib C) s0 s"
    and inv: "changes_inv C s X D Z" and D: "\<forall>c\<in>D. tracked C c"
  shows "dirty_inv C s Z {p. above D p \<and> p \<noteq> []}"
proof -
  have "settled C s Z r" if r: "r \<noteq> []" "\<not> above D r" for r
  proof (cases "touched D r")
    case True
    then show ?thesis using changes_invD(2) [OF inv r(1) _ r(2)] by blast
  next
    case False
    have nt: "noted C s0 X r" using cover r False by (auto simp: changes_cover_def)
    have "settled C s0 X r" using nt forest_part [OF X] by (auto simp: settled_def)
    then have "settled C s X r" by (rule settled_keeps [OF _ keep])
    then show ?thesis
    proof (rule settled_cong [of C s X r Z])
      show "Z r = X r" by (rule changes_invD(3) [OF inv r(1) False])
      fix q assume q: "below r q"
      have "\<not> touched D q"
      proof
        assume "touched D q"
        then obtain c where c: "c \<in> D" "q = c \<or> below c q" by (auto simp: touched_def)
        then show False using below_linear [OF q] False r(2) by (auto simp: touched_def above_def)
      qed
      moreover have "q \<noteq> []" using q by auto
      ultimately show "Z q = X q" using changes_invD(3) [OF inv] by blast
    qed
  qed
  moreover have "tracked C r \<and> ((\<forall>n. bt_get (ce_fs C) r = Some n \<longrightarrow> is_folder n) \<or> noted C s Z r)" if r: "above D r" "r \<noteq> []" for r
  proof -
    have "tracked C r" using r D tracked_prefix by (auto simp: above_def)
    moreover have "(\<forall>n. bt_get (ce_fs C) r = Some n \<longrightarrow> is_folder n) \<or> noted C s Z r"
      using changes_invD(1) [OF inv r(2)] cover r by (cases "touched D r") (auto simp: changes_cover_def)
    ultimately show ?thesis by blast
  qed
  ultimately show ?thesis unfolding dirty_inv_def by blast
qed

text \<open>The dirty directories in the order in which they are written, with the root at the end.\<close>

lemma deepest_first_dirs:
  assumes dirty: "set dirty = {raw p |p. above D p}" and D: "D \<noteq> {}" "\<forall>c\<in>D. valid_fpath c"
  obtains R where "deepest_first dirty = map raw (R @ [[]])" "[] \<notin> set R" "set R = {p. above D p \<and> p \<noteq> []}"
    "sorted_wrt (\<lambda>p q. length q \<le> length p \<and> p \<noteq> q) R"
proof -
  have names: "\<forall>x\<in>set p. valid_name x" if p: "above D p" for p
  proof -
    obtain c where c: "c \<in> D" "below p c" using p by (auto simp: above_def)
    then have "set p \<subseteq> set c" by (metis below_def set_take_subset)
    then show ?thesis using c(1) D(2) by (auto simp: valid_fpath_def)
  qed
  let ?l = "deepest_first dirty"
  have set: "set ?l = {raw p |p. above D p}" by (simp add: deepest_first_def dirty [symmetric])
  have distinct: "distinct ?l" by (simp add: deepest_first_def)
  have depths: "sorted_wrt (\<lambda>x y. path_depth y \<le> path_depth x) ?l"
  proof -
    have "sorted (map (\<lambda>path. (path_depth path, path)) (sort_key (\<lambda>path. (path_depth path, path)) (bs_of dirty)))"
      by (rule sorted_sort_key)
    then have "sorted_wrt (\<lambda>x y. (path_depth x, x) \<le> (path_depth y, y)) (sort_key (\<lambda>path. (path_depth path, path)) (bs_of dirty))"
      by (simp add: sorted_map)
    then have "sorted_wrt (\<lambda>x y. path_depth x \<le> path_depth y) (sort_key (\<lambda>path. (path_depth path, path)) (bs_of dirty))"
      by (rule sorted_wrt_mono_rel [rotated]) auto
    then show ?thesis by (simp add: deepest_first_def sorted_wrt_rev)
  qed
  have "\<forall>y\<in>set ?l. \<exists>p. above D p \<and> y = raw p" using set by blast
  then obtain f where f: "\<forall>y\<in>set ?l. above D (f y) \<and> y = raw (f y)" by metis
  let ?ps = "map f ?l"
  have rf: "(raw \<circ> f) y = y" if y: "y \<in> set ?l" for y unfolding comp_apply using conjunct2 [OF bspec [OF f y]] by (rule sym)
  have map: "map raw ?ps = ?l" unfolding map_map by (rule map_idI) (rule rf)
  have ps: "set ?ps = {p. above D p}"
  proof
    show "set ?ps \<subseteq> {p. above D p}" using f by auto
    show "{p. above D p} \<subseteq> set ?ps"
    proof
      fix p assume "p \<in> {p. above D p}"
      then have p: "above D p" by simp
      then have "raw p \<in> set ?l" using set by blast
      then have "above D (f (raw p))" "raw p = raw (f (raw p))" using f by auto
      then have "f (raw p) = p" using raw_inj_all [OF names [OF p] names] by metis
      then show "p \<in> set ?ps" using \<open>raw p \<in> set ?l\<close> by force
    qed
  qed
  have dist: "distinct ?ps" using distinct map by (metis distinct_map)
  have len: "sorted_wrt (\<lambda>p q. length q \<le> length p) ?ps"
  proof -
    have "sorted_wrt (\<lambda>x y. path_depth y \<le> path_depth x) (map raw ?ps)" unfolding map by (rule depths)
    then have "sorted_wrt (\<lambda>p q. path_depth (raw q) \<le> path_depth (raw p)) ?ps" unfolding sorted_wrt_map .
    then show ?thesis by (rule sorted_wrt_mono_rel [rotated]) (use names ps path_depth_raw in auto)
  qed
  have "[] \<in> set ?ps" using D ps by (auto simp: above_def valid_fpath_def)
  then obtain R S where RS: "?ps = R @ [] # S" by (meson split_list)
  have "S = []"
  proof (rule ccontr)
    assume "S \<noteq> []"
    then obtain x where "x \<in> set S" by (meson list.set_sel(1))
    then show False using len dist RS by (auto simp: sorted_wrt_append)
  qed
  then have R: "?ps = R @ [[]]" using RS by simp
  have "[] \<notin> set R" using dist R by simp
  moreover have "set R = {p. above D p \<and> p \<noteq> []}" using ps R \<open>[] \<notin> set R\<close> by auto
  moreover have "sorted_wrt (\<lambda>p q. length q \<le> length p \<and> p \<noteq> q) R"
  proof -
    have "sorted_wrt (\<lambda>p q. length q \<le> length p) R" "distinct R" using len dist R by (simp_all add: sorted_wrt_append)
    then show ?thesis by (induction R) auto
  qed
  moreover have "deepest_first dirty = map raw (R @ [[]])" using map unfolding R by (rule sym)
  ultimately show thesis by (intro that)
qed

section \<open>The changed paths of a capture\<close>

definition paths_ok :: "capture_env \<Rightarrow> changed_path list \<Rightarrow> bool" where
  "paths_ok C changed \<longleftrightarrow> (\<forall>x\<in>set changed. \<forall>relative. ch_logical x = Some relative \<longrightarrow>
     relative = [] \<or> is_identity_path relative \<or> (\<exists>c. tracked C c \<and> relative = raw c))"

definition changed_set :: "changed_path list \<Rightarrow> fpath set" where
  "changed_set changed = {c. valid_fpath c \<and> \<not> is_identity_path (raw c) \<and> (\<exists>x\<in>set changed. ch_logical x = Some (raw c))}"

lemma collect_changed_paths:
  "paths_ok C changed \<Longrightarrow> collect_changed changed acc = Inr None \<or>
     (\<exists>xs. collect_changed changed acc = Inr (Some (acc @ xs)) \<and> set xs = raw ` changed_set changed)"
proof (induction changed arbitrary: acc)
  case Nil
  then show ?case by (simp add: changed_set_def)
next
  case (Cons x changed)
  have ok: "paths_ok C changed" using Cons.prems by (simp add: paths_ok_def)
  have same: "changed_set (x # changed) = changed_set changed"
    if "\<And>c. valid_fpath c \<Longrightarrow> \<not> is_identity_path (raw c) \<Longrightarrow> ch_logical x \<noteq> Some (raw c)" using that by (auto simp: changed_set_def)
  show ?case
  proof (cases "ch_logical x")
    case None
    then show ?thesis using Cons.IH [OF ok, of acc] same by simp
  next
    case (Some relative)
    consider "relative = []" | "relative \<noteq> []" "is_identity_path relative" | c where "\<not> is_identity_path relative" "tracked C c" "relative = raw c"
      using Cons.prems Some by (auto simp: paths_ok_def)
    then show ?thesis
    proof cases
      case 2
      then have "changed_set (x # changed) = changed_set changed" using Some by (intro same) auto
      then show ?thesis using Cons.IH [OF ok, of acc] Some 2 by simp
    next
      case 3
      have c: "valid_fpath c" "relative \<noteq> []" using 3 raw_hd [of c] by (auto simp: tracked_def)
      have "validate_relative_path relative = Inr ()" using c(1) 3(3) by (simp add: validate_relative_path_def components_raw)
      then have eq: "collect_changed (x # changed) acc = collect_changed changed (acc @ [relative])" using Some 3(1) c(2) by simp
      have "changed_set (x # changed) = insert c (changed_set changed)"
        using Some 3 c(1) raw_inj [OF c(1)] by (auto simp: changed_set_def)
      then show ?thesis using Cons.IH [OF ok, of "acc @ [relative]"] 3(3) unfolding eq by auto
    qed (use Some in simp)
  qed
qed

lemma changed_set_tracked: "paths_ok C changed \<Longrightarrow> c \<in> changed_set changed \<Longrightarrow> tracked C c"
proof -
  assume a: "paths_ok C changed" "c \<in> changed_set changed"
  then have v: "valid_fpath c" "\<not> is_identity_path (raw c)" "raw c \<noteq> []" using raw_hd [of c] by (auto simp: changed_set_def)
  then obtain c' where "tracked C c'" "raw c = raw c'" using a by (fastforce simp: changed_set_def paths_ok_def)
  then show ?thesis using raw_inj [OF v(1)] by (auto simp: tracked_def)
qed

lemma finite_changed_set: "finite (changed_set changed)"
proof -
  have "raw ` changed_set changed \<subseteq> the ` ch_logical ` set changed" by (force simp: changed_set_def)
  moreover have "inj_on raw (changed_set changed)" using raw_inj by (auto simp: inj_on_def changed_set_def)
  ultimately show ?thesis by (meson finite_imageD finite_imageI finite_subset List.finite_set)
qed

text \<open>The changed paths in the order of their bytes.\<close>

lemma sorted_changed:
  assumes "set xs = raw ` changed_set changed"
  obtains cs where "bs_of xs = map raw cs" "set cs = changed_set changed" "sorted_wrt (<) (map raw cs)"
proof -
  let ?cs = "map (split_on (CHR ''/'')) (bs_of xs)"
  have split: "split_on (CHR ''/'') (raw c) = c" if "c \<in> changed_set changed" for c using that by (simp add: changed_set_def)
  have "map raw ?cs = bs_of xs"
  proof -
    have "(raw \<circ> split_on (CHR ''/'')) y = y" if y: "y \<in> set (bs_of xs)" for y
    proof -
      have "y \<in> set xs" using y by simp
      then obtain c where "c \<in> changed_set changed" "y = raw c" using assms by auto
      then show ?thesis using split by simp
    qed
    then show ?thesis unfolding map_map by (rule map_idI)
  qed
  moreover have "set ?cs = changed_set changed"
  proof -
    have "set (bs_of xs) = set xs" by simp
    then have "set ?cs = (\<lambda>c. split_on (CHR ''/'') (raw c)) ` changed_set changed" unfolding set_map assms by (simp only: image_image)
    also have "\<dots> = (\<lambda>c. c) ` changed_set changed" by (rule image_cong [OF refl split])
    finally show ?thesis by simp
  qed
  moreover have "sorted_wrt (<) (bs_of xs)" by simp
  ultimately show thesis by (intro that [of ?cs]) simp_all
qed

text \<open>How a capture ends, inside the transaction of the index.\<close>

definition tree_captured :: "capture_env \<Rightarrow> capture_state \<Rightarrow> object_id \<Rightarrow> capture_state \<Rightarrow> bool" where
  "tree_captured C st root st' \<longleftrightarrow> grows C st st' \<and> (\<exists>X d. stored_forest C (cs_store st') d root X \<and>
     describes C (cs_store st') [] X \<and> mirrors (ce_lib C) (cs_index st') X)"

lemma walk_everything_ends:
  assumes "changed_env C" "capture_inv C st"
  shows "ends_in (\<lambda>(root, st'). tree_captured C st root st') (walk_everything C st)"
  unfolding walk_everything_def
  by (rule ends_in_mono [OF walk_root_ends [OF changed_envD [OF assms(1)] assms(2)]])
    (auto simp: tree_captured_def grows_def)

lemma tree_captured_trans: "grows C st st1 \<Longrightarrow> tree_captured C st1 root st' \<Longrightarrow> tree_captured C st root st'"
  using grows_trans [of C st st1 st'] unfolding tree_captured_def by blast

lemma capture_changed_paths_ends:
  assumes C: "changed_env C" and parse: "parses_entries (ce_lib C) parse_entry" and P: "[] \<notin> set (po_excluded (ce_policy C))"
    and inv: "capture_inv C st" and ok: "paths_ok C changed" and root: "index_root (cs_index st) generation = Inr (Some root)"
    and m: "mirrors (ce_lib C) (cs_index st) X" and X: "stored_forest C (cs_store st) d root X"
    and cover: "changes_cover C (cs_store st) X (changed_set changed)"
  shows "ends_in (\<lambda>(t, st'). tree_captured C st t st') (capture_changed_paths C parse_entry generation changed st)"
proof -
  let ?D = "changed_set changed"
  note full = walk_everything_ends [OF C]
  consider "collect_changed changed [] = Inr None"
    | xs where "collect_changed changed [] = Inr (Some xs)" "set xs = raw ` ?D"
    using collect_changed_paths [OF ok, of "[]"] by auto
  then show ?thesis
  proof cases
    case 1
    then show ?thesis using full [OF inv] by (simp add: capture_changed_paths_def)
  next
    case 2
    have tracked: "\<forall>c\<in>?D. tracked C c" using changed_set_tracked [OF ok] by blast
    have tl: "tree_like X" by (rule forest_tree_like [OF X])
    show ?thesis
    proof (cases "xs = []")
      case True
      then have "?D = {}" using 2(2) by auto
      then have "describes C (cs_store st) [] X"
        using cover by (auto simp: changes_cover_def touched_def above_def noted_def describes_def)
      then have "tree_captured C st root st" using X m inv by (auto simp: tree_captured_def grows_def)
      then show ?thesis using 2 True root by (simp add: capture_changed_paths_def)
    next
      case False
      then have ne: "?D \<noteq> {}" using 2(2) by auto
      obtain cs where cs: "bs_of xs = map raw cs" "set cs = ?D" "sorted_wrt (<) (map raw cs)" by (rule sorted_changed [OF 2(2)])
      have loop: "ends_in (\<lambda>(found, st'). grows C st st' \<and> (case found of None \<Rightarrow> True | Some dirty' \<Rightarrow>
           set dirty' = set [] \<union> {raw p |p. above (set cs) p} \<and>
           (\<exists>Z'. mirrors (ce_lib C) (cs_index st') Z' \<and> changes_inv C (cs_store st') X ({} \<union> set cs) Z')))
         (capture_changed_loop C (map raw cs) [] st)"
        by (rule changed_loop_ends [OF C tl inv _ cs(3) _ m changes_inv_start]) (use tracked cs(2) in auto)
      have eq: "capture_changed_paths C parse_entry generation changed st =
         rbind (capture_changed_loop C (map raw cs) [] st) (\<lambda>(found, st).
           case found of None \<Rightarrow> walk_everything C st
           | Some dirty \<Rightarrow> rfold (rebuild_dirty C parse_entry) (root, st) (deepest_first dirty))"
        using 2(1) False root cs(1) by (simp add: capture_changed_paths_def)
      show ?thesis
        unfolding eq
      proof (rule ends_in_bind2 [OF loop], elim conjE)
        fix found st1 assume g: "grows C st st1" and f: "case found of None \<Rightarrow> True | Some dirty' \<Rightarrow>
           set dirty' = set [] \<union> {raw p |p. above (set cs) p} \<and>
           (\<exists>Z'. mirrors (ce_lib C) (cs_index st1) Z' \<and> changes_inv C (cs_store st1) X ({} \<union> set cs) Z')"
        show "ends_in (\<lambda>(t, st'). tree_captured C st t st') (case found of None \<Rightarrow> walk_everything C st1
           | Some dirty \<Rightarrow> rfold (rebuild_dirty C parse_entry) (root, st1) (deepest_first dirty))"
        proof (cases found)
          case None
          then show ?thesis
            using ends_in_mono [OF full [OF grows_inv [OF g]]] tree_captured_trans [OF g] by (auto elim!: ends_in_mono)
        next
          case (Some dirty)
          then obtain Z where d: "set dirty = {raw p |p. above ?D p}" and Z: "mirrors (ce_lib C) (cs_index st1) Z"
              "changes_inv C (cs_store st1) X ?D Z" using f cs(2) by auto
          have "\<forall>c\<in>?D. valid_fpath c" by (simp add: changed_set_def)
          with d ne obtain R where R: "deepest_first dirty = map raw (R @ [[]])" "[] \<notin> set R" "set R = {p. above ?D p \<and> p \<noteq> []}"
              "sorted_wrt (\<lambda>p q. length q \<le> length p \<and> p \<noteq> q) R" by (rule deepest_first_dirs)
          have dirty: "dirty_inv C (cs_store st1) Z (set R)"
            unfolding R(3) by (rule cover_dirty [OF X cover grows_keeps [OF g] Z(2) tracked])
          have up: "\<forall>p\<in>set R. \<forall>q. below q p \<longrightarrow> q = [] \<or> q \<in> set R"
            unfolding R(3) above_def using path_below_trans by blast
          note rest = rebuild_all_ends [OF C parse grows_inv [OF g] Z(1) dirty R(2,4) up, of root]
          have "ends_in (\<lambda>(t, st'). tree_captured C st1 t st') (rfold (rebuild_dirty C parse_entry) (root, st1) (map raw (R @ [[]])))"
            unfolding map_append list.map raw_Nil rfold_append rfold.simps rbind_Inr_right
          proof (rule ends_in_bind [OF rest], clarify)
            fix st2 Z2 assume 2: "grows C st1 st2" "mirrors (ce_lib C) (cs_index st2) Z2" "dirty_inv C (cs_store st2) Z2 {}"
            show "ends_in (\<lambda>(t, st'). tree_captured C st1 t st') (rebuild_dirty C parse_entry (root, st2) [])"
              by (rule ends_in_mono [OF rebuild_root_ends [OF C parse P grows_inv [OF 2(1)] 2(2,3)]])
                (use grows_trans [OF 2(1)] 2(2) in \<open>auto simp: tree_captured_def\<close>)
          qed
          then show ?thesis
            unfolding Some option.case R(1) by (rule ends_in_mono) (use tree_captured_trans [OF g] in auto)
        qed
      qed
    qed
  qed
qed

end
