(* ===== verification/Changed_Theorems.thy ===== *)
theory Changed_Theorems
  imports Capture_Theorems Changed_Capture
begin

text \<open>
  The property of captures: whether a capture walks the whole workspace or only looks at the paths that
  changed, its tree is the workspace.
\<close>

text \<open>
  What the caller knows of the changes since the index was written: the index names the root of a stored
  tree and its rows are the entries of that tree, and the changed paths cover every difference between
  that tree and the workspace.
\<close>

definition changes_known :: "capture_env \<Rightarrow> string \<Rightarrow> capture_state \<Rightarrow> changed_path list option \<Rightarrow> bool" where
  "changes_known C generation st changed \<longleftrightarrow>
     (case changed of
        None \<Rightarrow> True
      | Some paths \<Rightarrow>
          paths_ok C (with_overlay_path C paths) \<and> [] \<notin> set (po_excluded (ce_policy C)) \<and>
          (case index_root (cs_index st) generation of
             Inl _ \<Rightarrow> False
           | Inr None \<Rightarrow> True
           | Inr (Some root) \<Rightarrow>
               \<exists>X d. stored_forest C (cs_store st) d root X \<and> mirrors (ce_lib C) (cs_index st) X \<and>
                 changes_cover C (cs_store st) X (changed_set (with_overlay_path C paths))))"

lemma mirrors_begin [simp]: "mirrors L (ix\<lparr>px_saved := x\<rparr>) Z = mirrors L ix Z"
  by (rule mirrors_entries) simp

lemma index_root_begin [simp]: "index_root (ix\<lparr>px_saved := x\<rparr>) generation = index_root ix generation"
  by (simp add: index_root_def)

definition capture_done :: "capture_env \<Rightarrow> string \<Rightarrow> capture_state \<Rightarrow> object_id \<Rightarrow> capture_state \<Rightarrow> bool" where
  "capture_done C generation st root st' \<longleftrightarrow> (\<exists>X d. stored_forest C (cs_store st') d root X \<and>
     describes C (cs_store st') [] X \<and> indexed_tree C generation root X st') \<and>
     capture_inv C st' \<and> keeps (ce_lib C) (cs_store st) (cs_store st')"

lemma capture_tree_ends:
  assumes C: "changed_env C" and inv: "capture_inv C st" "px_saved (cs_index st) = None"
    and parse: "parses_entries (ce_lib C) parse_entry" and known: "changes_known C generation st changed"
  shows "ends_in (\<lambda>(root, st'). capture_done C generation st root st')
     (capture_tree C parse_entry generation at_head changed st)"
proof -
  have full: "ends_in (\<lambda>(root, st'). capture_done C generation st root st') (capture_root C generation st)"
    by (rule ends_in_mono [OF capture_root_ends [OF changed_envD [OF C] inv]]) (auto simp: capture_done_def)
  have delta: "ends_in (\<lambda>(root, st'). capture_done C generation st root st')
      (capture_changed C parse_entry generation at_head (with_overlay_path C paths) st)" if ch: "changed = Some paths" for paths
  proof -
    let ?paths = "with_overlay_path C paths"
    have ok: "paths_ok C ?paths" "[] \<notin> set (po_excluded (ce_policy C))" using known ch by (simp_all add: changes_known_def)
    obtain r where r: "index_root (cs_index st) generation = Inr r"
      using known ch by (cases "index_root (cs_index st) generation") (simp_all add: changes_known_def)
    show ?thesis
    proof (cases "index_matches_head (cs_index st) generation at_head (ce_policy C) = Inr True")
      case False
      have "\<exists>b. index_matches_head (cs_index st) generation at_head (ce_policy C) = Inr b" using r by (simp add: index_matches_head_def)
      then have "index_matches_head (cs_index st) generation at_head (ce_policy C) = Inr False" using False by auto
      then show ?thesis using full by (simp add: capture_changed_def)
    next
      case True
      then obtain root where root: "index_root (cs_index st) generation = Inr (Some root)"
        using r by (cases r) (auto simp: index_matches_head_def)
      obtain X d where X: "stored_forest C (cs_store st) d root X" "mirrors (ce_lib C) (cs_index st) X"
          "changes_cover C (cs_store st) X (changed_set ?paths)"
        using known ch root by (auto simp: changes_known_def)
      let ?ix = "(cs_index st)\<lparr>px_saved := Some (px_tables (cs_index st))\<rparr>"
      let ?st = "st\<lparr>cs_index := ?ix\<rparr>"
      have start: "index_begin (cs_index st) = Inr ?ix" using inv(2) by (simp add: index_begin_def)
      have run: "ends_in (\<lambda>(t, st'). tree_captured C ?st t st') (capture_changed_paths C parse_entry generation ?paths ?st)"
        by (rule capture_changed_paths_ends [OF C parse ok(2) _ ok(1)]) (use inv(1) root X in simp_all)
      have eq: "capture_changed C parse_entry generation at_head ?paths st =
          rbind (capture_changed_paths C parse_entry generation ?paths ?st) (\<lambda>(root, st).
          rbind (index_commit (index_set_root root generation (cs_index st))) (\<lambda>ix. Inr (root, st\<lparr>cs_index := ix\<rparr>)))"
        using True start by (simp add: capture_changed_def)
      show ?thesis
        unfolding eq
      proof (rule ends_in_bind2 [OF run])
        fix t st' assume "tree_captured C ?st t st'"
        then obtain Y k where Y: "grows C ?st st'" "stored_forest C (cs_store st') k t Y" "describes C (cs_store st') [] Y"
            "mirrors (ce_lib C) (cs_index st') Y" by (auto simp: tree_captured_def)
        have "px_saved (cs_index st') \<noteq> None" using Y(1) by (simp add: grows_def)
        from commit_indexed [OF this Y(4)] obtain ix where "index_commit (index_set_root t generation (cs_index st')) = Inr ix"
            "indexed_tree C generation t Y (st'\<lparr>cs_index := ix\<rparr>)" by blast
        then show "ends_in (\<lambda>(root, st'). capture_done C generation st root st')
           (rbind (index_commit (index_set_root t generation (cs_index st'))) (\<lambda>ix. Inr (t, st'\<lparr>cs_index := ix\<rparr>)))"
          using Y by (auto simp: capture_done_def grows_def)
      qed
    qed
  qed
  show ?thesis using full delta by (auto simp: capture_tree_def split: option.split)
qed

lemma known_fuel:
  "changes_known (C\<lparr>ce_fuel := n\<rparr>) generation st changed = changes_known C generation st changed"
  "capture_done (C\<lparr>ce_fuel := n\<rparr>) generation st root st' = capture_done C generation st root st'"
proof -
  let ?C = "C\<lparr>ce_fuel := n\<rparr>"
  have o: "with_overlay_path ?C = with_overlay_path C" by (simp add: with_overlay_path_def fun_eq_iff)
  have t: "tracked ?C = tracked C" by (simp add: tracked_def clear_of_store_def fun_eq_iff)
  have "hidden ?C = hidden C" by (simp add: hidden_def skipped_def skips_child_def fun_eq_iff)
  then have s: "seen ?C = seen C" by (simp add: seen_def fun_eq_iff)
  have r: "records ?C = records C" by (simp add: records_def fun_eq_iff)
  have "noted ?C st Z q = noted C st Z q" for st Z q unfolding noted_def s r by simp
  then have c: "changes_cover ?C = changes_cover C" by (simp add: changes_cover_def fun_eq_iff)
  have p: "paths_ok ?C = paths_ok C" by (simp add: paths_ok_def t fun_eq_iff)
  have e: "ce_lib ?C = ce_lib C" "ce_policy ?C = ce_policy C" by simp_all
  show "changes_known ?C generation st changed = changes_known C generation st changed"
    unfolding changes_known_def o c p e by (rule refl)
  show "capture_done ?C generation st root st' = capture_done C generation st root st'" by (simp add: capture_done_def)
qed

section \<open>Properties\<close>


section \<open>A file that appeared\<close>

text \<open>
  The index of an empty workspace, and a file that is new. The digest exchanges two byte strings, so that
  the id of the empty tree has 32 bytes and no two objects have one id.
\<close>

definition no_entries :: tree where
  "no_entries = \<lparr>tr_entries = [], tr_pages = []\<rparr>"

definition empty_id :: object_id where
  "empty_id = replicate 32 (CHR ''e'')"

definition exchange_digest :: "bytes \<Rightarrow> bytes" where
  "exchange_digest b =
     (let t = kind_domain Tree @ enc c_tree no_entries in if b = t then empty_id else if b = empty_id then t else b)"

definition delta_lib :: lib where
  "delta_lib = sample_lib\<lparr>blake3 := exchange_digest, json_page := \<lambda>_. []\<rparr>"

definition delta_env :: capture_env where
  "delta_env = (undo_env (CHR ''x''))\<lparr>ce_lib := delta_lib\<rparr>"

definition delta_state :: capture_state where
  "delta_state = \<lparr>cs_store = [empty_id \<mapsto> (Tree, enc c_tree no_entries)], cs_rows = [],
     cs_index = index_set_root empty_id ''g'' index_open\<rparr>"

definition delta_head :: snapshot where
  "delta_head = undo_snapshot empty_id"

definition delta_changes :: "changed_path list" where
  "delta_changes = [\<lparr>ch_relative = ''a'', ch_logical = Some ''a''\<rparr>]"

lemma exchange_digest_inj: "exchange_digest x = exchange_digest y \<longleftrightarrow> x = y"
  by (auto simp: exchange_digest_def Let_def)

lemma delta_laws: "collision_free delta_lib" "json_faithful delta_lib"
proof -
  show "collision_free delta_lib"
    using sample_lib_collision_free
    by (simp add: collision_free_def object_id_def delta_lib_def exchange_digest_inj sample_lib_def)
  show "json_faithful delta_lib" using sample_lib_json by (simp add: json_faithful_def delta_lib_def)
qed

lemma delta_object: "object_id delta_lib Tree (enc c_tree no_entries) = empty_id"
  by (simp add: object_id_def delta_lib_def exchange_digest_def)

lemma delta_inv: "map_inv delta_lib (cs_store delta_state)"
  using delta_laws delta_object by (auto simp: map_inv_def delta_state_def split: if_splits)

lemma delta_view: "dir_names delta_env = dir_names (undo_env (CHR ''x''))" "ce_view delta_env = ce_view (undo_env (CHR ''x''))"
  by (simp_all add: dir_names_def delta_env_def fun_eq_iff)

lemma delta_capturable: "capturable delta_env delta_state"
proof -
  have "view_ok delta_env" using undo_view [of "CHR ''x''"] unfolding view_ok_def overlay_folder_def delta_view by (simp add: delta_env_def)
  moreover have "names_fit delta_env" by (simp add: names_fit_def pages_fit_def delta_env_def delta_lib_def)
  moreover have "capture_inv delta_env delta_state" using delta_inv by (simp add: capture_inv_def delta_env_def delta_state_def)
  ultimately show ?thesis
    using undo_faithful
    by (simp add: capturable_def delta_env_def default_policy_def delta_state_def index_set_root_def on_tables_def index_open_def)
qed

lemma delta_parses: "parses_entries delta_lib (\<lambda>b. map_option fst (dec c_entry b))"
  by (simp add: parses_entries_def delta_lib_def sample_lib_def codec_round_trip codec_entry)

lemma delta_root: "index_root (cs_index delta_state) ''g'' = Inr (Some empty_id)"
  by (simp add: index_root_def delta_state_def index_set_root_def on_tables_def empty_id_def)

lemma delta_known: "changes_known delta_env ''g'' delta_state (Some delta_changes)"
proof -
  have a: "valid_fpath [''a'']" "raw [''a''] = ''a''" by (simp_all add: valid_fpath_def valid_name_def)
  have "tracked delta_env [''a'']"
    using a by (simp add: tracked_def clear_of_store_def delta_env_def is_identity_path_def)
  then have ok: "paths_ok delta_env (with_overlay_path delta_env delta_changes)"
    using a(2) by (force simp: paths_ok_def with_overlay_path_def delta_changes_def delta_env_def)
  have D: "changed_set (with_overlay_path delta_env delta_changes) = {[''a'']}"
  proof (intro equalityI subsetI)
    fix c assume "c \<in> changed_set (with_overlay_path delta_env delta_changes)"
    then have c: "valid_fpath c" "raw c = raw [''a'']"
      unfolding a(2) by (simp_all add: changed_set_def with_overlay_path_def delta_changes_def delta_env_def)
    then show "c \<in> {[''a'']}" using raw_inj [OF c(1) a(1)] by blast
  next
    fix c assume "c \<in> {[''a'']}"
    then show "c \<in> changed_set (with_overlay_path delta_env delta_changes)"
      using a by (simp add: changed_set_def with_overlay_path_def delta_changes_def delta_env_def is_identity_path_def)
  qed
  have rows: "mirrors delta_lib (cs_index delta_state) no_tree"
    by (simp add: mirrors_def delta_state_def index_set_root_def on_tables_def index_open_def empty_tables_def no_tree_def)
  have "map_read_tree delta_lib (cs_store delta_state) empty_id = Inr no_entries"
    using delta_object delta_laws(2)
    by (simp add: map_read_tree_def map_read_def delta_state_def json_faithful_def)
      (simp add: delta_lib_def sample_lib_def codec_round_trip codec_tree)
  then have "paged (map_read_tree delta_lib) (cs_store delta_state) empty_id []"
    by (intro paged_leaf) (simp add: no_entries_def)
  then have forest: "forest (map_read_tree delta_lib) (cs_store delta_state) 1 empty_id no_tree"
    unfolding One_nat_def forest.simps by (intro exI [of _ "[]"]) (simp add: no_tree_def names_sorted_def subtree_at_def fun_eq_iff)
  have cover: "changes_cover delta_env (cs_store delta_state) no_tree {[''a'']}"
    unfolding changes_cover_def
  proof (intro allI impI)
    fix r :: fpath assume r: "r \<noteq> []" "\<not> touched {[''a'']} r"
    then have "bt_get (ce_fs delta_env) r = None" unfolding delta_view by (simp add: undo_nodes touched_def)
    then show "if above {[''a'']} r then \<forall>n. bt_get (ce_fs delta_env) r = Some n \<longrightarrow> is_folder n
        else noted delta_env (cs_store delta_state) no_tree r"
      by (simp add: noted_def seen_def no_tree_def)
  qed
  have lib: "ce_lib delta_env = delta_lib" "[] \<notin> set (po_excluded (ce_policy delta_env))" by (simp_all add: delta_env_def default_policy_def)
  show ?thesis
    unfolding changes_known_def delta_root option.case sum.case D lib(1)
    by (intro conjI exI [of _ no_tree] exI [of _ 1] ok lib(2) rows forest cover)
qed


end
