(* ===== verification/Spec2Isabelle.thy ===== *)
theory Spec2Isabelle
  imports Tree_Theorems Merge_Theorems Pack_Theorems Ref_Theorems Retention_Theorems Collector_Theorems
    Claims_Theorems Bundle_Theorems Frame_Theorems Exchange_Transfer Chunker_Theorems File_Theorems Rewind_Theorems
    Rewind_Refusals Capture_Theorems Changed_Theorems
begin

text \<open>
  \<^bold>\<open>Furrow, a verification development.\<close>

  Furrow keeps the history of a directory (a workspace) that people and programs work in. It captures
  the workspace as trees of content-addressed objects, records the snapshots in a log, thins the log by a
  retention policy, collects what is no longer reachable, plans merges, moves snapshots between stores,
  and rewinds a workspace to a snapshot. The source is Rust; the core is \<^verbatim>\<open>src/furrow-core/src\<close>, and all
  file names below are relative to it.

  \<^bold>\<open>Parts and how they interact.\<close> A capture (\<^verbatim>\<open>repository.rs\<close>) lists directories in byte order
  (\<^verbatim>\<open>sorted_dir.rs\<close>), skips what the policy excludes (\<^verbatim>\<open>policy.rs\<close>), cuts files into chunks
  (\<^verbatim>\<open>chunker.rs\<close>), writes chunks, blobs and pages of directory entries (\<^verbatim>\<open>tree.rs\<close>) into the object store
  (\<^verbatim>\<open>store.rs\<close>, \<^verbatim>\<open>catalog.rs\<close>), and notes every path in an index (\<^verbatim>\<open>path_index.rs\<close>). A snapshot object names
  the root of the tree; the reference log (\<^verbatim>\<open>refs.rs\<close>) is the sequence of snapshots of a workspace.
  Retention (\<^verbatim>\<open>retention.rs\<close>) reads that log and decides which sequence numbers stay; the collector
  (\<^verbatim>\<open>gc.rs\<close>) takes the retained snapshots as roots, marks what they reach and rewrites the store.
  A rewind compares the tree of the workspace with that of the target page by page (\<^verbatim>\<open>tree.rs\<close>), makes a
  plan, and changes the file system accordingly. Merge planning (\<^verbatim>\<open>merge.rs\<close>) compares three trees.
  Bundles (\<^verbatim>\<open>bundle.rs\<close>) and the exchange (\<^verbatim>\<open>exchange/\<close>, \<^verbatim>\<open>sealer.rs\<close>, \<^verbatim>\<open>remote_crypto.rs\<close>) walk what a snapshot
  reaches and carry it to another store. Claims (\<^verbatim>\<open>claims.rs\<close>) let holders reserve paths.

  \<^bold>\<open>Layout.\<close> Each component has a theory with its data and operations in the order of the source, and one
  or more theories with its invariants, lemmas and properties. \<^verbatim>\<open>Furrow_Prelude\<close> holds what they share.

  \<^item> \<^verbatim>\<open>Furrow_Prelude\<close>: bytes are characters, fallible code returns \<open>error + 'a\<close> with \<open>rbind\<close> for the
    question mark operator and \<open>rfold\<close> for a loop that may fail, \<open>ensure\<close> and \<open>of_opt\<close> for early returns;
    little-endian numbers, saturating and checked arithmetic at the width of the source, \<open>BTreeMap\<close> as a
    sorted association list, reading from files.
  \<^item> \<^verbatim>\<open>Content_Class\<close>, \<^verbatim>\<open>Object_Model\<close> (\<^verbatim>\<open>content_class.rs\<close>, \<^verbatim>\<open>model.rs\<close>): classes of paths, kinds, entries,
    pages, blobs, snapshots, object ids; the record \<open>lib\<close> of functions that are not code of the repository.
  \<^item> \<^verbatim>\<open>Tree_Pages\<close>, \<^verbatim>\<open>Tree_Theorems\<close> (\<^verbatim>\<open>tree.rs\<close>): the builder of leaf pages and branch levels, lookup, walk and
    comparison of directories, over any store that satisfies the locale \<open>tree_store\<close>. A written directory is
    walked in full and in order, compared exactly, and written in finitely many levels if two page references
    fit one branch; otherwise the loop over the levels does not end.
  \<^item> \<^verbatim>\<open>Object_Map\<close>: the store as a map from ids to kind and bytes, which interprets \<open>tree_store\<close>.
  \<^item> \<^verbatim>\<open>Pack_Store\<close>, \<^verbatim>\<open>Pack_Theorems\<close> (\<^verbatim>\<open>store.rs\<close>, \<^verbatim>\<open>catalog.rs\<close>): pack files as bytes, records, catalog rows,
    checkpoints, recovery. Putting and reading refine the object map; recovery after a crash keeps exactly the
    whole records.
  \<^item> \<^verbatim>\<open>Merge_Plan\<close>, \<^verbatim>\<open>Merge_Theorems\<close> (\<^verbatim>\<open>merge.rs\<close>): planning over listings and over stored trees. The plan is
    characterised, loses nothing of either side and keeps the hierarchy; two theorems show inputs on which
    planning over stored trees departs from planning over listings.
  \<^item> \<^verbatim>\<open>Ref_Log\<close>, \<^verbatim>\<open>Ref_Theorems\<close> (\<^verbatim>\<open>refs.rs\<close>): log and index as files of frames; appending, reading, repair.
  \<^item> \<^verbatim>\<open>Retention\<close>, \<^verbatim>\<open>Retention_Theorems\<close> (\<^verbatim>\<open>retention.rs\<close>): the policy as a fold over the log, ranges of
    sequence numbers, pins, the log of states. What is kept is stated as a set and every view of it agrees.
  \<^item> \<^verbatim>\<open>Collector\<close>, \<^verbatim>\<open>Collector_Marks\<close>, \<^verbatim>\<open>Collector_Compaction\<close>, \<^verbatim>\<open>Collector_Theorems\<close> (\<^verbatim>\<open>gc.rs\<close>): the mark table, the
    traversal (least closed marking, locale \<open>mark_edges\<close>), compaction, and the collection as a whole.
  \<^item> \<^verbatim>\<open>Claims\<close>, \<^verbatim>\<open>Claims_Theorems\<close> (\<^verbatim>\<open>claims.rs\<close>): patterns, the memoised matcher against a declarative
    language, the overlap test (locale \<open>overlap_test\<close>), the registry as a state machine.
  \<^item> \<^verbatim>\<open>Bundle\<close>, \<^verbatim>\<open>Bundle_Theorems\<close> (\<^verbatim>\<open>bundle.rs\<close>): reachability, export, import. \<^verbatim>\<open>Sample_Snapshot\<close> is the
    concrete snapshot of the witnesses.
  \<^item> \<^verbatim>\<open>Sealing\<close> (\<^verbatim>\<open>remote_crypto.rs\<close>, \<^verbatim>\<open>sealer.rs\<close>; locale \<open>sealing\<close>), \<^verbatim>\<open>Exchange_Frame\<close>, \<^verbatim>\<open>Frame_Theorems\<close>
    (\<^verbatim>\<open>exchange/frame.rs\<close>, \<^verbatim>\<open>exchange/ledger.rs\<close>), \<^verbatim>\<open>Exchange\<close>, \<^verbatim>\<open>Exchange_Walk\<close>, \<^verbatim>\<open>Exchange_Theorems\<close>,
    \<^verbatim>\<open>Exchange_Transfer\<close> (\<^verbatim>\<open>exchange/survey.rs\<close>, \<^verbatim>\<open>exchange/export.rs\<close>, \<^verbatim>\<open>exchange/fetch.rs\<close>): a snapshot sent as sealed
    frames is complete at the other side.
  \<^item> \<^verbatim>\<open>Chunker\<close>, \<^verbatim>\<open>Chunker_Theorems\<close> (\<^verbatim>\<open>chunker.rs\<close>): the stream against the reference chunking.
  \<^item> \<^verbatim>\<open>Workspace_Paths\<close> (\<^verbatim>\<open>policy.rs\<close>, \<^verbatim>\<open>overlay.rs\<close>, \<^verbatim>\<open>system_attrs.rs\<close>, path functions of \<^verbatim>\<open>repository.rs\<close>),
    \<^verbatim>\<open>File_Content\<close>, \<^verbatim>\<open>File_Theorems\<close>: a file read under the guard against concurrent writes, as a script of the
    attempts, comes back from the store.
  \<^item> \<^verbatim>\<open>Workspace_Fs\<close>: the file system as a map from paths to nodes (files, folders, links, FIFOs, sockets, devices)
    with mode, time and attributes, and the operations that a rewind performs on it.
  \<^item> \<^verbatim>\<open>Rewind\<close> (\<^verbatim>\<open>repository.rs\<close>): plan, check, four passes, check. \<^verbatim>\<open>Rewind_Apply\<close>, \<^verbatim>\<open>Rewind_Passes\<close> and
    \<^verbatim>\<open>Rewind_Restores\<close> show what the passes do, \<^verbatim>\<open>Rewind_Diff\<close> and \<^verbatim>\<open>Rewind_Plan\<close> what the comparison finds,
    \<^verbatim>\<open>Rewind_Verify\<close> and \<^verbatim>\<open>Rewind_Steps\<close> that the checks succeed; \<^verbatim>\<open>Rewind_Theorems\<close> and \<^verbatim>\<open>Rewind_Refusals\<close> have the
    properties, \<^verbatim>\<open>Rewind_Sample\<close> the concrete input.
  \<^item> \<^verbatim>\<open>Sorted_Dir\<close> (\<^verbatim>\<open>sorted_dir.rs\<close>), \<^verbatim>\<open>Path_Index\<close> (\<^verbatim>\<open>path_index.rs\<close>), \<^verbatim>\<open>Capture\<close> (\<^verbatim>\<open>repository.rs\<close>, the stat
    cache of \<^verbatim>\<open>catalog.rs\<close>, \<^verbatim>\<open>hardlink.rs\<close>): one attempt of the full walk. \<^verbatim>\<open>Index_Rows\<close> reads the rows of
    the index as a map from paths to entries; \<^verbatim>\<open>Capture_Steps\<close> and \<^verbatim>\<open>Capture_Walk\<close> show that tree and rows are
    the workspace; \<^verbatim>\<open>Capture_Rewind\<close> joins captures to the hypotheses of a rewind;
    \<^verbatim>\<open>Capture_Theorems\<close> has the properties, \<^verbatim>\<open>Capture_Sample\<close> the concrete input.
  \<^item> \<^verbatim>\<open>Capture_Changed\<close> (\<^verbatim>\<open>repository.rs\<close>, from \<open>capture_tree\<close> to \<open>rebuild_indexed_directory\<close>): the capture of a set of
    changed paths through the index. \<^verbatim>\<open>Changed_Rows\<close> follows the rows through the changed paths, \<^verbatim>\<open>Changed_Dirs\<close>
    through the directories above them, \<^verbatim>\<open>Changed_Capture\<close> puts both together, and \<^verbatim>\<open>Changed_Theorems\<close> shows that
    such a capture records the workspace as a full one does, and leaves the index ready for the next.

  \<^bold>\<open>Loops and fuel.\<close> Loops over data of known length are structural recursion or folds. Loops whose end
  depends on the store or on a reader take a bound as an argument and return \<open>OutOfFuel\<close> when it is used up,
  which no code path of the source returns. The properties state that a bound exists from which on the result is
  the stated one (\<open>\<exists>N. \<forall>n\<ge>N. \<dots>\<close>), so a model that never returns does not satisfy them. The bounds are the
  number of entries for the branch levels, the depth of the hierarchy for walks and comparisons, and the length
  of the content for chunks.

  \<^bold>\<open>Parameters and hypotheses.\<close> BLAKE3, the JSON encodings and the AEAD are functions in the records \<open>lib\<close> and
  \<open>crypto\<close>. The properties name what they rely on: that decoding inverts encoding and that the ids in the
  store do not collide (\<open>map_inv\<close> and its parts), or that digests have 32 bytes; never both, since no function
  has both. The clock, the umask, the attributes that a file system refuses and their encoding are the record
  \<open>os\<close>. A capture sees one state of the file system (\<open>view\<close>), with the inode numbers and times of change that
  \<open>stat\<close> reports; paths below a link are not followed. A capture of changed paths relies on the caller: the paths
  it is given cover all differences to the tree of the index. Permissions are those of an owner who is not root.

  \<^bold>\<open>Not modelled, and why.\<close> Ignore patterns (the \<^verbatim>\<open>ignore\<close> crate; a parameter of the policy), name
  folding of the file system (a parameter of the plan), putting hard links back, database backups through
  SQLite, seals, the tracking of changed paths, journals and the recovery of an interrupted rewind (file system events, syncs, locks and
  renames), remotes and synchronisation, forks and universes (network and copy-on-write calls), archives and
  estimates (codecs), the daemon, the command line and the web page. Windows variants are left out
  throughout. Locks and syncs have no state in the models; every operation is one step.
\<close>

end
